(* ===== verification/Prelude.thy ===== *)
theory Prelude
  imports Main "HOL-Library.Word" "HOL-Library.While_Combinator"
begin

text \<open>
  Shared vocabulary of the development: the machine integers of
  \<^verbatim>\<open>libdevcore/Common.h\<close> as words, the byte strings, the result type that stands
  for C++ exceptions, and the generic lemmas on lists, words and results that the component
  theories use.  Nothing in this theory models a particular source function.
\<close>

unbundle bit_operations_syntax

section \<open>Types\<close>

text \<open>
  \<^verbatim>\<open>byte\<close>, \<^verbatim>\<open>u256\<close> and \<^verbatim>\<open>u160\<close> are unsigned integers that
  wrap around.  A \<^verbatim>\<open>FixedHash<N>\<close> that the program converts to and from its arithmetic
  type (\<^verbatim>\<open>h256\<close>, \<^verbatim>\<open>Address\<close>) is the word of its big-endian value.
\<close>

type_synonym byte = "8 word"
type_synonym bytes = "8 word list"
type_synonym u64 = "64 word"
type_synonym u256 = "256 word"
type_synonym u160 = "160 word"
type_synonym h256 = "256 word"
type_synonym address = "160 word"

named_theorems byte_simps
  \<open>rewrites for byte strings and their integer values\<close>
named_theorems rlp_simps
  \<open>rewrites that evaluate the RLP reader\<close>
named_theorems evm_simps
  \<open>rewrites that evaluate the virtual machine\<close>
named_theorems state_simps
  \<open>rewrites for the world state\<close>

section \<open>Results\<close>

text \<open>
  A computation that may throw returns a value of \<open>'e + 'a\<close>: \<open>Inl e\<close> is the thrown
  exception, \<open>Inr x\<close> the returned value.  \<open>res_bind\<close> sequences two of them, and
  \<open>guard\<close> is the statement \<^verbatim>\<open>if (!b) throw e;\<close>.
\<close>

definition res_bind :: "'e + 'a \<Rightarrow> ('a \<Rightarrow> 'e + 'b) \<Rightarrow> 'e + 'b" where
  "res_bind m f = (case m of Inl e \<Rightarrow> Inl e | Inr x \<Rightarrow> f x)"

definition guard :: "bool \<Rightarrow> 'e \<Rightarrow> 'e + unit" where
  "guard b e = (if b then Inr () else Inl e)"

definition is_ok :: "'e + 'a \<Rightarrow> bool" where
  "is_ok m = (case m of Inl _ \<Rightarrow> False | Inr _ \<Rightarrow> True)"

lemma res_bind_simps [simp]:
  "res_bind (Inl e) f = Inl e"
  "res_bind (Inr x) f = f x"
  by (simp_all add: res_bind_def)

lemma guard_simps [simp]:
  "guard True e = Inr ()"
  "guard False e = Inl e"
  by (simp_all add: guard_def)

lemma is_ok_simps [simp]:
  "is_ok (Inr x)"
  "\<not> is_ok (Inl e)"
  by (simp_all add: is_ok_def)

lemma res_bind_Inr_iff:
  "res_bind m f = Inr y \<longleftrightarrow> (\<exists>x. m = Inr x \<and> f x = Inr y)"
  by (cases m) auto

lemma res_bind_Inl_iff:
  "res_bind m f = Inl e \<longleftrightarrow> m = Inl e \<or> (\<exists>x. m = Inr x \<and> f x = Inl e)"
  by (cases m) auto

lemma guard_Inr_iff [simp]: "guard b e = Inr u \<longleftrightarrow> b"
  by (cases b) auto

lemma guard_Inl_iff [simp]: "guard b e = Inl e' \<longleftrightarrow> \<not> b \<and> e' = e"
  by (cases b) auto

lemma res_bind_guard: "res_bind (guard b e) f = (if b then f () else Inl e)"
  by simp

lemma res_bind_split:
  "P (res_bind m f) \<longleftrightarrow> (\<forall>e. m = Inl e \<longrightarrow> P (Inl e)) \<and> (\<forall>x. m = Inr x \<longrightarrow> P (f x))"
  by (cases m) auto

lemma res_bind_cong [fundef_cong]:
  "m = m' \<Longrightarrow> (\<And>x. m' = Inr x \<Longrightarrow> f x = f' x) \<Longrightarrow> res_bind m f = res_bind m' f'"
  by (cases m') auto

lemma res_bind_assoc: "res_bind (res_bind m f) g = res_bind m (\<lambda>x. res_bind (f x) g)"
  by (cases m) simp_all

section \<open>Lists\<close>

lemma nth_0_Cons [simp]: "xs \<noteq> [] \<Longrightarrow> xs ! 0 = hd xs"
  by (cases xs) auto

lemma take_append_length [simp]: "take (length xs) (xs @ ys) = xs"
  by simp

lemma drop_append_length [simp]: "drop (length xs) (xs @ ys) = ys"
  by simp

lemma foldl_append_last: "foldl f a (xs @ [x]) = f (foldl f a xs) x"
  by simp

section \<open>Bytes and words\<close>

lemma unat_byte_less: "unat (b :: byte) < 256"
  using unsigned_less [of b, where ?'a = nat] by simp

lemma unat_byte_le: "unat (b :: byte) \<le> 255"
  using unat_byte_less [of b] by linarith

lemma unat_u256_less: "unat (w :: u256) < 2 ^ 256"
  using unsigned_less [of w, where ?'a = nat] by simp

lemma unat_word_of_nat [simp]:
  "n < 2 ^ LENGTH('a) \<Longrightarrow> unat (word_of_nat n :: 'a::len word) = n"
  by (simp add: unsigned_of_nat take_bit_nat_eq_self)

lemma unat_word_of_nat_mod:
  "unat (word_of_nat n :: 'a::len word) = n mod 2 ^ LENGTH('a)"
  by (simp add: unsigned_of_nat take_bit_eq_mod)

lemma unat_byte_of_nat: "unat (word_of_nat n :: byte) = n mod 256"
  by (simp add: unat_word_of_nat_mod)

lemma word_of_nat_unat [simp]: "word_of_nat (unat w) = (w :: 'a::len word)"
  by (simp add: word_unat_eq_iff unat_word_of_nat_mod unsigned_less)

lemma unat_eq_iff: "unat a = unat b \<longleftrightarrow> a = (b :: 'a::len word)"
  by (simp add: word_unat_eq_iff)

end
