(* ===== verification/Common_Data.thy ===== *)
theory Common_Data
  imports Prelude
begin

text \<open>
  \<^verbatim>\<open>libdevcore\<close>: the byte-string views of \<^verbatim>\<open>vector_ref.h\<close>, the
  hexadecimal, nibble and big-endian conversions of \<^verbatim>\<open>CommonData.h\<close> and
  \<^verbatim>\<open>CommonData.cpp\<close>, the two's complement conversions of \<^verbatim>\<open>Common.h\<close>
  and the byte-array operations of \<^verbatim>\<open>FixedHash.h\<close>.

  A \<^verbatim>\<open>vector_ref\<close> is the list of the elements it refers to; a null reference and a
  reference to zero elements are both the empty list.  The integer type \<^verbatim>\<open>T\<close> of a
  templated conversion is \<open>nat\<close> where the function reads the value (every value of an
  unsigned type or of a non-negative \<^verbatim>\<open>bigint\<close>) and a word type where it is the result,
  so that truncation to the width of \<^verbatim>\<open>T\<close> is visible.
\<close>

section \<open>vector\_ref\<close>

text \<open>\<^verbatim>\<open>cropped(_begin, _count)\<close>; \<^verbatim>\<open>size_t\<close> is 64 bits wide.\<close>

definition cropped :: "'a list \<Rightarrow> nat \<Rightarrow> nat \<Rightarrow> 'a list" where
  "cropped d b c =
     (if b \<le> length d \<and> c \<le> length d \<and> (b + c) mod 2 ^ 64 \<le> length d
      then take (if c = 2 ^ 64 - 1 then length d - b else c) (drop b d)
      else [])"

definition cropped_from :: "'a list \<Rightarrow> nat \<Rightarrow> 'a list" where
  "cropped_from d b = (if b \<le> length d then drop b d else [])"

definition copyTo :: "'a list \<Rightarrow> 'a list \<Rightarrow> 'a list" where
  "copyTo src dst = (let n = min (length dst) (length src) in take n src @ drop n dst)"

definition populate :: "bytes \<Rightarrow> bytes \<Rightarrow> bytes" where
  "populate src dst =
     (let n = min (length dst) (length src)
      in take n src @ replicate (max (length dst) (length src) - length src) 0)"

definition contentsEqual :: "'a list \<Rightarrow> 'a list \<Rightarrow> bool" where
  "contentsEqual d c = (if length d = 0 then c = [] else length c = length d \<and> c = d)"

section \<open>Hexadecimal strings\<close>

datatype WhenError = DontThrow | Throw
datatype HexPrefix = DontAdd | Add
datatype hex_error = BadHexCharacter

definition char_code :: "char \<Rightarrow> int" where
  "char_code c = of_char c"

definition fromHexChar :: "char \<Rightarrow> WhenError \<Rightarrow> hex_error + int" where
  "fromHexChar c w =
     (let i = char_code c in
      if 48 \<le> i \<and> i \<le> 57 then Inr (i - 48)
      else if 97 \<le> i \<and> i \<le> 102 then Inr (i - 97 + 10)
      else if 65 \<le> i \<and> i \<le> 70 then Inr (i - 65 + 10)
      else if w = Throw then Inl BadHexCharacter
      else Inr (-1))"

definition isHex :: "string \<Rightarrow> bool" where
  "isHex s =
     list_all (\<lambda>c. fromHexChar c DontThrow \<noteq> Inr (-1))
       (if 2 \<le> length s \<and> take 2 s = ''0x'' then drop 2 s else s)"

text \<open>
  The loop of \<^verbatim>\<open>fromHex\<close> that reads two characters at a time, and the function.  The
  string passed to the loop has even length.
\<close>

fun fromHex_loop :: "WhenError \<Rightarrow> string \<Rightarrow> bytes \<Rightarrow> hex_error + bytes" where
  "fromHex_loop w (c1 # c2 # s) ret =
     (case (fromHexChar c1 DontThrow, fromHexChar c2 DontThrow) of
        (Inr h, Inr l) \<Rightarrow>
          (if h \<noteq> -1 \<and> l \<noteq> -1 then fromHex_loop w s (ret @ [word_of_int (h * 16 + l)])
           else if w = Throw then Inl BadHexCharacter
           else Inr [])
      | _ \<Rightarrow> Inl BadHexCharacter)"
| "fromHex_loop w _ ret = Inr ret"

definition fromHex :: "string \<Rightarrow> WhenError \<Rightarrow> hex_error + bytes" where
  "fromHex s w =
     (let t = (if 2 \<le> length s \<and> s ! 0 = CHR ''0'' \<and> s ! 1 = CHR ''x'' then drop 2 s else s) in
      if odd (length s) then
        (case fromHexChar (hd t) DontThrow of
           Inl e \<Rightarrow> Inl e
         | Inr h \<Rightarrow>
             (if h \<noteq> -1 then fromHex_loop w (tl t) [word_of_int h]
              else if w = Throw then Inl BadHexCharacter
              else Inr []))
      else fromHex_loop w t [])"

text \<open>The formatted output of \<^verbatim>\<open>toHex\<close>: hexadecimal digits padded with zeros.\<close>

definition hexDigit :: "nat \<Rightarrow> char" where
  "hexDigit n = ''0123456789abcdef'' ! n"

fun hexOut :: "nat \<Rightarrow> string" where
  "hexOut n = (if n < 16 then [hexDigit n] else hexOut (n div 16) @ [hexDigit (n mod 16)])"

declare hexOut.simps [simp del]

definition setw0 :: "nat \<Rightarrow> string \<Rightarrow> string" where
  "setw0 w s = replicate (w - length s) (CHR ''0'') @ s"

fun toHex_loop :: "nat \<Rightarrow> bytes \<Rightarrow> string" where
  "toHex_loop w [] = []"
| "toHex_loop w (b # bs) = setw0 w (hexOut (unat b)) @ toHex_loop 2 bs"

definition toHex :: "bytes \<Rightarrow> nat \<Rightarrow> HexPrefix \<Rightarrow> string" where
  "toHex d w p = (if p = Add then ''0x'' @ toHex_loop w d else toHex_loop w d)"

definition asNibbles :: "bytes \<Rightarrow> bytes" where
  "asNibbles s = concat (map (\<lambda>i. [i div 16, i mod 16]) s)"

section \<open>Big-endian integers\<close>

text \<open>
  \<^verbatim>\<open>toBigEndian(_val, o_out)\<close> fills a collection of \<open>n\<close> elements from its end;
  \<^verbatim>\<open>fromBigEndian\<close> shifts the bytes into a value of the result type.
\<close>

fun toBigEndian :: "nat \<Rightarrow> nat \<Rightarrow> bytes" where
  "toBigEndian 0 v = []"
| "toBigEndian (Suc n) v = toBigEndian n (v div 256) @ [word_of_nat (v mod 256)]"

definition fromBigEndian :: "bytes \<Rightarrow> 'a::len word" where
  "fromBigEndian bs = foldl (\<lambda>r b. push_bit 8 r OR ucast b) 0 bs"

definition fromBigEndian_bigint :: "bytes \<Rightarrow> nat" where
  "fromBigEndian_bigint bs = foldl (\<lambda>r b. r * 256 + unat b) 0 bs"

fun bytesRequired :: "nat \<Rightarrow> nat" where
  "bytesRequired i = (if i = 0 then 0 else Suc (bytesRequired (i div 256)))"

declare bytesRequired.simps [simp del]

definition toCompactBigEndian :: "nat \<Rightarrow> nat \<Rightarrow> bytes" where
  "toCompactBigEndian v mn = toBigEndian (max mn (bytesRequired v)) v"

fun commonPrefix :: "'a list \<Rightarrow> 'a list \<Rightarrow> nat" where
  "commonPrefix (x # xs) (y # ys) = (if x \<noteq> y then 0 else Suc (commonPrefix xs ys))"
| "commonPrefix _ _ = 0"

section \<open>Two's complement and logarithm (Common.h)\<close>

text \<open>An \<^verbatim>\<open>s256\<close> is a sign and a 256-bit magnitude; here it is its value.\<close>

definition u2s :: "u256 \<Rightarrow> int" where
  "u2s u = (if bit u 255 then - (2 ^ 256 - uint u) else uint u)"

definition s2u :: "int \<Rightarrow> u256" where
  "s2u s = (if s \<ge> 0 then word_of_int s else word_of_int (2 ^ 256 + s))"

fun toLog2 :: "nat \<Rightarrow> nat" where
  "toLog2 x = (if x div 2 = 0 then 0 else Suc (toLog2 (x div 2)))"

declare toLog2.simps [simp del]

section \<open>FixedHash\<close>

text \<open>The byte arrays of \<^verbatim>\<open>FixedHash<N>\<close>, as lists of \<open>N\<close> bytes.\<close>

fun hash_less :: "bytes \<Rightarrow> bytes \<Rightarrow> bool" where
  "hash_less (x # xs) (y # ys) = (if x < y then True else if x > y then False else hash_less xs ys)"
| "hash_less _ _ = False"

definition hash_xor :: "bytes \<Rightarrow> bytes \<Rightarrow> bytes" where
  "hash_xor a b = map2 (XOR) a b"

definition hash_or :: "bytes \<Rightarrow> bytes \<Rightarrow> bytes" where
  "hash_or a b = map2 (OR) a b"

definition hash_and :: "bytes \<Rightarrow> bytes \<Rightarrow> bytes" where
  "hash_and a b = map2 (AND) a b"

definition hash_not :: "bytes \<Rightarrow> bytes" where
  "hash_not a = map NOT a"

definition hash_contains :: "bytes \<Rightarrow> bytes \<Rightarrow> bool" where
  "hash_contains a c = (hash_and a c = c)"

definition hash_nonzero :: "bytes \<Rightarrow> bool" where
  "hash_nonzero a = list_ex (\<lambda>b. b \<noteq> 0) a"

text \<open>Big-endian increment: the loop walks the reversed array while a byte wraps to zero.\<close>

fun incr_loop :: "bytes \<Rightarrow> bytes" where
  "incr_loop [] = []"
| "incr_loop (b # bs) = (if b + 1 = 0 then 0 # incr_loop bs else (b + 1) # bs)"

definition hash_incr :: "bytes \<Rightarrow> bytes" where
  "hash_incr a = rev (incr_loop (rev a))"

text \<open>
  \<^verbatim>\<open>bloomPart<P, M>()\<close>: \<open>P\<close> groups of \<open>c_bloomBytes\<close> bytes of the
  hash, each an index of a bit of the \<open>M\<close>-byte result.
\<close>

definition c_bloomBytes :: "nat \<Rightarrow> nat" where
  "c_bloomBytes M = (toLog2 (M * 8) + 7) div 8"

fun bloomPart_loop :: "nat \<Rightarrow> nat \<Rightarrow> bytes \<Rightarrow> bytes \<Rightarrow> bytes" where
  "bloomPart_loop 0 M p ret = ret"
| "bloomPart_loop (Suc i) M p ret =
     (let n = c_bloomBytes M;
          index = fromBigEndian_bigint (take n p) mod (M * 8);
          k = M - 1 - index div 8
      in bloomPart_loop i M (drop n p) (ret[k := (ret ! k) OR push_bit (index mod 8) 1]))"

definition bloomPart :: "nat \<Rightarrow> nat \<Rightarrow> bytes \<Rightarrow> bytes" where
  "bloomPart P M h = bloomPart_loop P M h (replicate M 0)"

definition shiftBloom :: "nat \<Rightarrow> bytes \<Rightarrow> bytes \<Rightarrow> bytes" where
  "shiftBloom P self h = hash_or self (bloomPart P (length self) h)"

definition containsBloom :: "nat \<Rightarrow> bytes \<Rightarrow> bytes \<Rightarrow> bool" where
  "containsBloom P self h = hash_contains self (bloomPart P (length self) h)"

text \<open>
  \<^verbatim>\<open>firstBitSet()\<close>.  The inner loop shifts a non-zero byte left until its top bit
  is set.
\<close>

function bitScan :: "byte \<Rightarrow> nat \<Rightarrow> nat" where
  "bitScan d ret = (if d = 0 \<or> d AND 128 \<noteq> 0 then ret else bitScan (push_bit 1 d) (ret + 1))"
  by pat_completeness auto

lemma byte_top_bit: "d AND (128 :: byte) \<noteq> 0 \<longleftrightarrow> 128 \<le> unat d"
proof -
  have "d AND 2 ^ 7 = (0 :: byte) \<longleftrightarrow> \<not> bit d 7"
    by (rule and_exp_eq_0_iff_not_bit)
  moreover have "bit d 7 \<longleftrightarrow> bit (unat d) 7"
    by (simp add: bit_unsigned_iff)
  moreover have "unat d div 128 = (if 128 \<le> unat d then 1 else 0)"
    using unat_byte_less [of d] by (auto intro!: div_nat_eqI)
  then have "bit (unat d) 7 \<longleftrightarrow> 128 \<le> unat d"
    by (simp add: bit_iff_odd)
  ultimately show ?thesis by simp
qed

lemma unat_push_bit_1:
  "unat (d :: byte) < 128 \<Longrightarrow> unat (push_bit (Suc 0) d) = 2 * unat d"
  by (simp add: push_bit_eq_mult unat_word_ariths)

termination bitScan
proof (relation "measure (\<lambda>(d, ret). 256 - unat d)", goal_cases)
  case (2 d ret)
  then have "0 < unat d" and "unat d < 128"
    using byte_top_bit [of d] by (auto simp: unat_gt_0)
  then show ?case
    by (simp del: push_bit_Suc add: unat_push_bit_1)
qed simp

declare bitScan.simps [simp del]

fun firstBitSet_loop :: "bytes \<Rightarrow> nat \<Rightarrow> nat" where
  "firstBitSet_loop [] ret = ret"
| "firstBitSet_loop (d # ds) ret =
     (if d \<noteq> 0 then bitScan d ret else firstBitSet_loop ds (ret + 8))"

definition firstBitSet :: "bytes \<Rightarrow> nat" where
  "firstBitSet a = firstBitSet_loop a 0"

definition right160 :: "h256 \<Rightarrow> address" where
  "right160 t = fromBigEndian (take 20 (drop 12 (toBigEndian 32 (unat t))))"

definition left160 :: "h256 \<Rightarrow> address" where
  "left160 t = fromBigEndian (take 20 (toBigEndian 32 (unat t)))"

text \<open>
  The compound assignments of \<^verbatim>\<open>SecureFixedHash\<close>.  Each forwards to an operator of
  \<^verbatim>\<open>FixedHash\<close>.
\<close>

definition secure_xor_assign :: "bytes \<Rightarrow> bytes \<Rightarrow> bytes" where
  "secure_xor_assign a c = hash_xor a c"

definition secure_or_assign :: "bytes \<Rightarrow> bytes \<Rightarrow> bytes" where
  "secure_or_assign a c = hash_xor a c"

definition secure_and_assign :: "bytes \<Rightarrow> bytes \<Rightarrow> bytes" where
  "secure_and_assign a c = hash_xor a c"

section \<open>Lemmas: big-endian integers\<close>

lemma length_toBigEndian [simp]: "length (toBigEndian n v) = n"
  by (induction n arbitrary: v) auto

lemma fromBigEndian_bigint_Nil [simp]: "fromBigEndian_bigint [] = 0"
  by (simp add: fromBigEndian_bigint_def)

lemma fromBigEndian_bigint_snoc [simp]:
  "fromBigEndian_bigint (bs @ [b]) = fromBigEndian_bigint bs * 256 + unat b"
  by (simp add: fromBigEndian_bigint_def)

lemma fromBigEndian_bigint_append:
  "fromBigEndian_bigint (xs @ ys) =
     fromBigEndian_bigint xs * 256 ^ length ys + fromBigEndian_bigint ys"
proof (induction ys rule: rev_induct)
  case (snoc y ys)
  have "fromBigEndian_bigint (xs @ ys @ [y]) = fromBigEndian_bigint ((xs @ ys) @ [y])"
    by simp
  then show ?case
    using snoc by (simp only: fromBigEndian_bigint_snoc length_append_singleton power_Suc)
      (simp add: algebra_simps)
qed simp

lemma fromBigEndian_bigint_Cons:
  "fromBigEndian_bigint (b # bs) = unat b * 256 ^ length bs + fromBigEndian_bigint bs"
  using fromBigEndian_bigint_append [of "[b]" bs]
  by (simp add: fromBigEndian_bigint_def)

lemma fromBigEndian_bigint_less: "fromBigEndian_bigint bs < 256 ^ length bs"
proof (induction bs rule: rev_induct)
  case (snoc b bs)
  then have "256 * Suc (fromBigEndian_bigint bs) \<le> 256 * 256 ^ length bs"
    by (intro mult_le_mono2) simp
  then show ?case
    using unat_byte_less [of b] by simp
qed simp

lemma fromBigEndian_toBigEndian_mod:
  "fromBigEndian_bigint (toBigEndian n v) = v mod 256 ^ n"
proof (induction n arbitrary: v)
  case (Suc n)
  have "v mod 256 ^ Suc n = 256 * (v div 256 mod 256 ^ n) + v mod 256"
    by (simp add: mod_mult2_eq)
  with Suc show ?case
    by (simp add: unat_byte_of_nat algebra_simps)
qed simp

lemma toBigEndian_fromBigEndian:
  "toBigEndian (length bs) (fromBigEndian_bigint bs) = bs"
proof (induction bs rule: rev_induct)
  case (snoc b bs)
  have "(fromBigEndian_bigint bs * 256 + unat b) div 256 = fromBigEndian_bigint bs"
    using unat_byte_less [of b] by simp
  with snoc show ?case by (simp add: mod_mult_self3)
qed simp

lemma shift_in_byte:
  fixes r :: "'a::len word" and b :: byte
  assumes "8 \<le> LENGTH('a)"
  shows "push_bit 8 r OR ucast b = r * 256 + ucast b"
proof -
  have "push_bit 8 r AND ucast b = 0"
    by (auto intro!: bit_eqI simp: bit_simps dest!: bit_imp_le_length [of b])
  then have "push_bit 8 r OR ucast b = push_bit 8 r + ucast b"
    by (simp add: disjunctive_add_eq_or)
  then show ?thesis by (simp add: push_bit_eq_mult)
qed

lemma fromBigEndian_word:
  assumes "8 \<le> LENGTH('a::len)"
  shows "(fromBigEndian bs :: 'a word) = word_of_nat (fromBigEndian_bigint bs)"
proof (induction bs rule: rev_induct)
  case (snoc b bs)
  have "(fromBigEndian (bs @ [b]) :: 'a word) = push_bit 8 (fromBigEndian bs) OR ucast b"
    by (simp add: fromBigEndian_def)
  also have "\<dots> = word_of_nat (fromBigEndian_bigint (bs @ [b]))"
    using snoc shift_in_byte [OF assms] by simp
  finally show ?case .
qed (simp add: fromBigEndian_def)

section \<open>Lemmas: bytesRequired and firstBitSet\<close>

lemma bytesRequired_0 [simp]: "bytesRequired 0 = 0"
  by (simp add: bytesRequired.simps)

lemma bytesRequired_pos: "0 < n \<Longrightarrow> bytesRequired n = Suc (bytesRequired (n div 256))"
  by (subst bytesRequired.simps) simp

lemma bytesRequired_eq_0_iff [simp]: "bytesRequired n = 0 \<longleftrightarrow> n = 0"
  by (subst bytesRequired.simps) simp

lemma bytesRequired_le_iff: "bytesRequired n \<le> k \<longleftrightarrow> n < 256 ^ k"
proof (induction n arbitrary: k rule: bytesRequired.induct)
  case (1 n)
  show ?case
  proof (cases "n = 0")
    case False
    show ?thesis
    proof (cases k)
      case (Suc m)
      have "bytesRequired (n div 256) \<le> m \<longleftrightarrow> n div 256 < 256 ^ m"
        using 1 False by blast
      also have "\<dots> \<longleftrightarrow> n < 256 ^ k"
        using Suc by (simp add: div_less_iff_less_mult mult.commute)
      finally show ?thesis using Suc False by (simp add: bytesRequired_pos)
    qed (use False in \<open>simp add: bytesRequired_pos\<close>)
  qed simp
qed

lemma less_pow_bytesRequired: "n < 256 ^ bytesRequired n"
  using bytesRequired_le_iff [of n "bytesRequired n"] by simp

lemma pow_bytesRequired_le:
  assumes "0 < n" shows "256 ^ (bytesRequired n - 1) \<le> n"
proof -
  have "\<not> bytesRequired n \<le> bytesRequired n - 1"
    using assms by (cases "bytesRequired n") auto
  then show ?thesis by (simp add: bytesRequired_le_iff not_less)
qed

lemma bytesRequired_unique:
  assumes "256 ^ k \<le> n" and "n < 256 ^ Suc k" shows "bytesRequired n = Suc k"
  using assms bytesRequired_le_iff [of n "Suc k"] bytesRequired_le_iff [of n k]
  by linarith

lemma toBigEndian_zero [simp]: "toBigEndian n 0 = replicate n 0"
  by (induction n) (simp_all add: replicate_append_same)

lemma toBigEndian_front:
  "toBigEndian (Suc k) v = word_of_nat (v div 256 ^ k mod 256) # toBigEndian k v"
proof (induction k arbitrary: v)
  case (Suc k)
  have "toBigEndian (Suc (Suc k)) v =
      toBigEndian (Suc k) (v div 256) @ [word_of_nat (v mod 256)]"
    by simp
  also have "\<dots> = word_of_nat (v div 256 div 256 ^ k mod 256) # toBigEndian (Suc k) v"
    by (subst Suc.IH) simp
  finally show ?case by (simp add: div_mult2_eq)
qed simp

lemma toBigEndian_pad:
  "v < 256 ^ k \<Longrightarrow> toBigEndian (n + k) v = replicate n 0 @ toBigEndian k v"
proof (induction k arbitrary: v)
  case (Suc k)
  then have "v div 256 < 256 ^ k"
    by (simp add: div_less_iff_less_mult mult.commute)
  with Suc.IH show ?case by simp
qed simp

lemma toBigEndian_lead:
  assumes "0 < v" shows "\<exists>b bs. toBigEndian (bytesRequired v) v = b # bs \<and> b \<noteq> 0"
proof -
  obtain k where k: "bytesRequired v = Suc k"
    using assms by (auto simp: bytesRequired_pos)
  have "256 ^ k \<le> v" and "v < 256 ^ Suc k"
    using pow_bytesRequired_le [OF assms] less_pow_bytesRequired [of v] k by simp_all
  then have "0 < v div 256 ^ k" and "v div 256 ^ k < 256"
    by (auto simp: div_greater_zero_iff div_less_iff_less_mult)
  then have "(word_of_nat (v div 256 ^ k mod 256) :: byte) \<noteq> 0"
    by (simp flip: unat_eq_iff add: unat_byte_of_nat)
  then show ?thesis
    unfolding k toBigEndian_front by blast
qed

lemma bitScan_bounds:
  "d \<noteq> 0 \<Longrightarrow> ret \<le> bitScan d ret \<and> 2 ^ (bitScan d ret - ret) * unat d < 256"
proof (induction d ret rule: bitScan.induct)
  case (1 d ret)
  show ?case
  proof (cases "d AND 128 \<noteq> 0")
    case True
    then show ?thesis
      by (subst (1 2) bitScan.simps) (simp add: unat_byte_less)
  next
    case False
    let ?d = "push_bit (Suc 0) d" and ?r = "bitScan (push_bit (Suc 0) d) (Suc ret)"
    have small: "unat d < 128"
      using False byte_top_bit [of d] by auto
    have ne: "?d \<noteq> 0"
      using unat_push_bit_1 [OF small] \<open>d \<noteq> 0\<close> by (metis mult_eq_0_iff unat_eq_0 zero_neq_numeral)
    have step: "bitScan d ret = ?r"
      using \<open>d \<noteq> 0\<close> False by (subst bitScan.simps) simp
    have IH: "Suc ret \<le> ?r \<and> 2 ^ (?r - Suc ret) * unat ?d < 256"
      using "1.IH" \<open>d \<noteq> 0\<close> False ne by simp
    then have "?r - ret = Suc (?r - Suc ret)" by linarith
    with IH show ?thesis
      unfolding step unat_push_bit_1 [OF small] by (simp add: mult_ac)
  qed
qed

lemma bitScan_less: assumes "d \<noteq> 0" shows "bitScan d ret < ret + 8"
proof -
  have "2 ^ (bitScan d ret - ret) * 1 \<le> 2 ^ (bitScan d ret - ret) * unat d"
    using assms by (intro mult_le_mono2) (simp add: Suc_le_eq unat_gt_0)
  also have "\<dots> < 256"
    using bitScan_bounds [OF assms, of ret] by blast
  finally have "(2::nat) ^ (bitScan d ret - ret) < 2 ^ 8" by simp
  then have "bitScan d ret - ret < 8"
    by (rule power_less_imp_less_exp [rotated]) simp
  then show ?thesis
    using bitScan_bounds [OF assms, of ret] by linarith
qed

lemma firstBitSet_loop_div:
  "firstBitSet_loop bs (8 * k) div 8 = k + length (takeWhile (\<lambda>b. b = 0) bs)"
proof (induction bs arbitrary: k)
  case (Cons b bs)
  have "bitScan b (8 * k) div 8 = k" if "b \<noteq> 0"
    using bitScan_bounds [OF that, of "8 * k"] bitScan_less [OF that, of "8 * k"]
    by (auto intro!: div_nat_eqI)
  moreover have "firstBitSet_loop bs (8 * Suc k) div 8 = Suc k + length (takeWhile (\<lambda>b. b = 0) bs)"
    by (rule Cons.IH)
  ultimately show ?case by (simp add: add.commute)
qed simp

lemma firstBitSet_toBigEndian:
  assumes "v < 256 ^ n"
  shows "n - firstBitSet (toBigEndian n v) div 8 = bytesRequired v"
proof -
  let ?k = "bytesRequired v"
  have le: "?k \<le> n"
    using assms by (simp add: bytesRequired_le_iff)
  have "takeWhile (\<lambda>b. b = 0) (toBigEndian ?k v) = []"
  proof (cases "v = 0")
    case False
    then show ?thesis using toBigEndian_lead [of v] by auto
  qed simp
  moreover have "toBigEndian n v = replicate (n - ?k) 0 @ toBigEndian ?k v"
    using toBigEndian_pad [of v ?k "n - ?k"] le less_pow_bytesRequired by simp
  ultimately have "length (takeWhile (\<lambda>b. b = 0) (toBigEndian n v)) = n - ?k"
    by (simp add: takeWhile_append takeWhile_replicate)
  then show ?thesis
    using firstBitSet_loop_div [of "toBigEndian n v" 0] le
    by (simp add: firstBitSet_def)
qed

section \<open>Lemmas: hexadecimal strings\<close>

lemma less_16_cases:
  "(n::nat) < 16 \<longleftrightarrow> n \<in> {0, 1, 2, 3, 4, 5, 6, 7, 8, 9, 10, 11, 12, 13, 14, 15}"
  by (auto simp: numeral_eq_Suc less_Suc_eq)

lemma fromHexChar_hexDigit [simp]: "n < 16 \<Longrightarrow> fromHexChar (hexDigit n) w = Inr (int n)"
  by (auto simp: less_16_cases hexDigit_def fromHexChar_def char_code_def)

lemma hexDigit_not_x: "n < 16 \<Longrightarrow> hexDigit n \<noteq> CHR ''x''"
  by (auto simp: less_16_cases hexDigit_def)

lemma hexDigit_0: "hexDigit 0 = CHR ''0''"
  by (simp add: hexDigit_def)

lemma setw0_byte:
  "setw0 2 (hexOut (unat (b :: byte))) = [hexDigit (unat b div 16), hexDigit (unat b mod 16)]"
proof (cases "unat b < 16")
  case True
  then show ?thesis
    by (subst hexOut.simps) (simp add: setw0_def hexDigit_0)
next
  case False
  have "unat b div 16 < 16"
    using unat_byte_less [of b] by simp
  with False show ?thesis
    by (subst hexOut.simps, subst hexOut.simps) (simp add: setw0_def)
qed

lemma fromHex_loop_toHex_loop:
  "fromHex_loop w (toHex_loop 2 bs) acc = Inr (acc @ bs)"
proof (induction bs arbitrary: acc)
  case (Cons b bs)
  have "unat b div 16 < 16"
    using unat_byte_less [of b] by simp
  moreover have "word_of_int (int (unat b div 16) * 16 + int (unat b mod 16)) = b"
    by (metis div_mult_mod_eq of_nat_add of_nat_mult of_nat_numeral word_of_int_uint
        uint_nat)
  ultimately show ?case
    using Cons by (simp add: setw0_byte)
qed simp

lemma even_length_toHex_loop [simp]: "even (length (toHex_loop 2 bs))"
  by (induction bs) (simp_all add: setw0_byte)

lemma toHex_loop_no_prefix:
  assumes "2 \<le> length (toHex_loop 2 bs)" shows "toHex_loop 2 bs ! 1 \<noteq> CHR ''x''"
  using assms by (cases bs) (simp_all add: setw0_byte hexDigit_not_x)

lemma isHex_toHex_loop: "list_all (\<lambda>c. fromHexChar c DontThrow \<noteq> Inr (-1)) (toHex_loop 2 bs)"
proof (induction bs)
  case (Cons b bs)
  have "unat b div 16 < 16"
    using unat_byte_less [of b] by simp
  with Cons show ?case by (simp add: setw0_byte)
qed simp

end
