(* ===== verification/Rlp.thy ===== *)
theory Rlp
  imports Common_Data
begin

text \<open>
  \<^verbatim>\<open>libdevcore/RLP.h\<close> and \<^verbatim>\<open>libdevcore/RLP.cpp\<close>: the reader
  \<^verbatim>\<open>RLP\<close> and the writer \<^verbatim>\<open>RLPStream\<close> of the recursive length prefix
  format.  The reader's methods are functions of the bytes \<^verbatim>\<open>m_data\<close>; the index cache
  of \<^verbatim>\<open>operator[]\<close> is a record that the operation takes and returns, also when it
  throws.  Below the model stands the format itself (\<open>encode\<close> on trees of byte strings)
  and the lemmas that the writer produces it and the reader inverts it.
\<close>

section \<open>The reader\<close>

datatype rlp_error = BadCast | BadRLP | OversizeRLP | UndersizeRLP | RLPException

definition c_rlpMaxLengthBytes :: nat where "c_rlpMaxLengthBytes = 8"
definition c_rlpDataImmLenStart :: nat where "c_rlpDataImmLenStart = 0x80"
definition c_rlpListStart :: nat where "c_rlpListStart = 0xc0"

definition c_rlpDataImmLenCount :: nat where
  "c_rlpDataImmLenCount = c_rlpListStart - c_rlpDataImmLenStart - c_rlpMaxLengthBytes"
definition c_rlpDataIndLenZero :: nat where
  "c_rlpDataIndLenZero = c_rlpDataImmLenStart + c_rlpDataImmLenCount - 1"
definition c_rlpListImmLenCount :: nat where
  "c_rlpListImmLenCount = 256 - c_rlpListStart - c_rlpMaxLengthBytes"
definition c_rlpListIndLenZero :: nat where
  "c_rlpListIndLenZero = c_rlpListStart + c_rlpListImmLenCount - 1"

lemma rlp_constants [simp]:
  "c_rlpMaxLengthBytes = 8" "c_rlpDataImmLenStart = 128" "c_rlpListStart = 192"
  "c_rlpDataImmLenCount = 56" "c_rlpDataIndLenZero = 183"
  "c_rlpListImmLenCount = 56" "c_rlpListIndLenZero = 247"
  by (simp_all add: c_rlpMaxLengthBytes_def c_rlpDataImmLenStart_def c_rlpListStart_def
      c_rlpDataImmLenCount_def c_rlpDataIndLenZero_def c_rlpListImmLenCount_def
      c_rlpListIndLenZero_def)

text \<open>The conversion flags, a bit mask.\<close>

definition AllowNonCanon :: nat where "AllowNonCanon = 1"
definition ThrowOnFail :: nat where "ThrowOnFail = 4"
definition FailIfTooBig :: nat where "FailIfTooBig = 8"
definition FailIfTooSmall :: nat where "FailIfTooSmall = 16"
definition Strict :: nat where "Strict = (ThrowOnFail OR FailIfTooBig)"
definition VeryStrict :: nat where
  "VeryStrict = ((ThrowOnFail OR FailIfTooBig) OR FailIfTooSmall)"
definition LaissezFaire :: nat where "LaissezFaire = AllowNonCanon"

definition has_flag :: "nat \<Rightarrow> nat \<Rightarrow> bool" where
  "has_flag s f = (s AND f \<noteq> 0)"

lemmas rlp_flag_defs =
  AllowNonCanon_def ThrowOnFail_def FailIfTooBig_def FailIfTooSmall_def Strict_def
  VeryStrict_def LaissezFaire_def has_flag_def

definition isNull :: "bytes \<Rightarrow> bool" where
  "isNull d = (length d = 0)"

definition isEmpty :: "bytes \<Rightarrow> bool" where
  "isEmpty d = (\<not> isNull d \<and> (unat (d ! 0) = c_rlpDataImmLenStart \<or> unat (d ! 0) = c_rlpListStart))"

definition isData :: "bytes \<Rightarrow> bool" where
  "isData d = (\<not> isNull d \<and> unat (d ! 0) < c_rlpListStart)"

definition isList :: "bytes \<Rightarrow> bool" where
  "isList d = (\<not> isNull d \<and> unat (d ! 0) \<ge> c_rlpListStart)"

definition isSingleByte :: "bytes \<Rightarrow> bool" where
  "isSingleByte d = (\<not> isNull d \<and> unat (d ! 0) < c_rlpDataImmLenStart)"

definition lengthSize :: "bytes \<Rightarrow> nat" where
  "lengthSize d =
     (if isData d \<and> unat (d ! 0) > c_rlpDataIndLenZero then unat (d ! 0) - c_rlpDataIndLenZero
      else if isList d \<and> unat (d ! 0) > c_rlpListIndLenZero then unat (d ! 0) - c_rlpListIndLenZero
      else 0)"

definition payloadOffset :: "bytes \<Rightarrow> nat" where
  "payloadOffset d = (if isSingleByte d then 0 else 1 + lengthSize d)"

definition requireGood :: "bytes \<Rightarrow> rlp_error + unit" where
  "requireGood d =
     (if isNull d then Inl BadRLP
      else if unat (d ! 0) \<noteq> c_rlpDataImmLenStart + 1 then Inr ()
      else if length d < 2 then Inl BadRLP
      else if unat (d ! 1) < c_rlpDataImmLenStart then Inl BadRLP
      else Inr ())"

text \<open>
  The big-endian length after the prefix byte.  At most eight bytes are read, so the
  \<^verbatim>\<open>size_t\<close> accumulator does not overflow.
\<close>

definition read_length :: "bytes \<Rightarrow> nat \<Rightarrow> nat" where
  "read_length d n = fromBigEndian_bigint (take n (drop 1 d))"

text \<open>\<^verbatim>\<open>length()\<close>, with the branches of the source in their order.\<close>

definition rlp_length :: "bytes \<Rightarrow> rlp_error + nat" where
  "rlp_length d =
     (if isNull d then Inr 0
      else res_bind (requireGood d) (\<lambda>_.
        let n = unat (d ! 0) in
        if n < c_rlpDataImmLenStart then Inr 1
        else if n \<le> c_rlpDataIndLenZero then Inr (n - c_rlpDataImmLenStart)
        else if n < c_rlpListStart then
          (if length d \<le> n - c_rlpDataIndLenZero then Inl BadRLP
           else if length d > 1 \<and> d ! 1 = 0 then Inl BadRLP
           else if n - c_rlpDataIndLenZero > 8 then Inl UndersizeRLP
           else if d ! 1 = 0 then Inl BadRLP
           else let ret = read_length d (n - c_rlpDataIndLenZero) in
                if ret < c_rlpListStart - c_rlpDataImmLenStart - c_rlpMaxLengthBytes
                then Inl BadRLP
                else if ret \<ge> (2 ^ 64 - 1) - 0x100 then Inl UndersizeRLP
                else Inr ret)
        else if n \<le> c_rlpListIndLenZero then Inr (n - c_rlpListStart)
        else
          (if length d \<le> n - c_rlpListIndLenZero then Inl BadRLP
           else if length d > 1 \<and> d ! 1 = 0 then Inl BadRLP
           else if n - c_rlpListIndLenZero > 8 then Inl UndersizeRLP
           else if d ! 1 = 0 then Inl BadRLP
           else let ret = read_length d (n - c_rlpListIndLenZero) in
                if ret < 0x100 - c_rlpListStart - c_rlpMaxLengthBytes then Inl BadRLP
                else if ret \<ge> (2 ^ 64 - 1) - 0x100 then Inl UndersizeRLP
                else Inr ret)))"

definition actualSize :: "bytes \<Rightarrow> rlp_error + nat" where
  "actualSize d =
     (if isNull d then Inr 0
      else if isSingleByte d then Inr 1
      else if isData d \<or> isList d then
        res_bind (rlp_length d) (\<lambda>l. Inr (payloadOffset d + l))
      else Inr 0)"

text \<open>The constructor \<^verbatim>\<open>RLP(bytesConstRef, Strictness)\<close>; the result is \<^verbatim>\<open>m_data\<close>.\<close>

definition rlp_new :: "bytes \<Rightarrow> nat \<Rightarrow> rlp_error + bytes" where
  "rlp_new d s =
     res_bind
       (if has_flag s FailIfTooBig then
          res_bind (actualSize d) (\<lambda>a.
            if a < length d then (if has_flag s ThrowOnFail then Inl OversizeRLP else Inr [])
            else Inr d)
        else Inr d)
       (\<lambda>m.
        if has_flag s FailIfTooSmall then
          res_bind (actualSize m) (\<lambda>a.
            if a > length d then (if has_flag s ThrowOnFail then Inl UndersizeRLP else Inr [])
            else Inr m)
        else Inr m)"

definition sizeAsEncoded :: "bytes \<Rightarrow> rlp_error + nat" where
  "sizeAsEncoded d = res_bind (rlp_new d (ThrowOnFail OR FailIfTooSmall)) actualSize"

definition payload :: "bytes \<Rightarrow> rlp_error + bytes" where
  "payload d =
     res_bind (rlp_length d) (\<lambda>l.
       if l > length d then Inl BadRLP else Inr (cropped d (payloadOffset d) l))"

definition isInt :: "bytes \<Rightarrow> rlp_error + bool" where
  "isInt d =
     (if isNull d then Inr False
      else res_bind (requireGood d) (\<lambda>_.
        let n = unat (d ! 0) in
        if n < c_rlpDataImmLenStart then Inr (n \<noteq> 0)
        else if n = c_rlpDataImmLenStart then Inr True
        else if n \<le> c_rlpDataIndLenZero then
          (if length d \<le> 1 then Inl BadRLP else Inr (d ! 1 \<noteq> 0))
        else if n < c_rlpListStart then
          (if length d \<le> 1 + n - c_rlpDataIndLenZero then Inl BadRLP
           else Inr (d ! (1 + n - c_rlpDataIndLenZero) \<noteq> 0))
        else Inr False))"

text \<open>Every successfully measured non-empty encoding has at least one byte.\<close>

lemma actualSize_pos: "actualSize d = Inr a \<Longrightarrow> d \<noteq> [] \<Longrightarrow> 0 < a"
  by (auto simp: actualSize_def isNull_def payloadOffset_def isData_def isList_def
      res_bind_Inr_iff split: if_splits)

lemma sizeAsEncoded_bounds:
  assumes "sizeAsEncoded d = Inr s" and "d \<noteq> []"
  shows "0 < s" and "s \<le> length d"
  using assms actualSize_pos [of d s]
  by (auto simp: sizeAsEncoded_def rlp_new_def res_bind_Inr_iff rlp_flag_defs split: if_splits)

function items_loop :: "bytes \<Rightarrow> nat \<Rightarrow> rlp_error + nat" where
  "items_loop d i =
     (if length d = 0 then Inr i
      else res_bind (sizeAsEncoded d) (\<lambda>s. items_loop (cropped_from d s) (Suc i)))"
  by pat_completeness auto

termination items_loop
  by (relation "measure (\<lambda>(d, i). length d)")
    (auto simp: cropped_from_def dest: sizeAsEncoded_bounds)

declare items_loop.simps [simp del]

definition items :: "bytes \<Rightarrow> rlp_error + nat" where
  "items d = (if isList d then res_bind (payload d) (\<lambda>p. items_loop p 0) else Inr 0)"

definition itemCount :: "bytes \<Rightarrow> rlp_error + nat" where
  "itemCount d = (if isList d then items d else Inr 0)"

definition itemCountStrict :: "bytes \<Rightarrow> rlp_error + nat" where
  "itemCountStrict d = (if \<not> isList d then Inl BadCast else items d)"

definition rlp_size :: "bytes \<Rightarrow> rlp_error + nat" where
  "rlp_size d = (if isData d then rlp_length d else Inr 0)"

subsection \<open>Subscript, with its cache\<close>

record rlp_cache =
  m_lastIndex :: nat
  m_lastEnd :: nat
  m_lastItem :: bytes

definition fresh_cache :: rlp_cache where
  "fresh_cache = \<lparr>m_lastIndex = 2 ^ 64 - 1, m_lastEnd = 0, m_lastItem = []\<rparr>"

function subscript_loop ::
  "bytes \<Rightarrow> nat \<Rightarrow> rlp_cache \<Rightarrow> (rlp_error + unit) \<times> rlp_cache" where
  "subscript_loop d i c =
     (if m_lastIndex c < i \<and> length (m_lastItem c) \<noteq> 0 then
        (case payload d of
           Inl e \<Rightarrow> (Inl e, c)
         | Inr p \<Rightarrow>
             (let it = cropped_from p (m_lastEnd c); c1 = c\<lparr>m_lastItem := it\<rparr> in
              case sizeAsEncoded it of
                Inl e \<Rightarrow> (Inl e, c1)
              | Inr s \<Rightarrow>
                  (let it2 = cropped it 0 s in
                   subscript_loop d i
                     (c1\<lparr>m_lastItem := it2, m_lastEnd := m_lastEnd c + length it2,
                         m_lastIndex := Suc (m_lastIndex c)\<rparr>))))
      else (Inr (), c))"
  by pat_completeness auto

termination subscript_loop
  by (relation "measure (\<lambda>(d, i, c). i - m_lastIndex c)") auto

declare subscript_loop.simps [simp del]

definition subscript_rewind :: "bytes \<Rightarrow> nat \<Rightarrow> rlp_cache \<Rightarrow> (rlp_error + unit) \<times> rlp_cache" where
  "subscript_rewind d i c =
     (if i < m_lastIndex c then
        (case payload d of
           Inl e \<Rightarrow> (Inl e, c)
         | Inr p \<Rightarrow>
             (case sizeAsEncoded p of
                Inl e \<Rightarrow> (Inl e, c)
              | Inr s \<Rightarrow>
                  (Inr (), c\<lparr>m_lastEnd := s, m_lastItem := cropped p 0 s, m_lastIndex := 0\<rparr>)))
      else (Inr (), c))"

definition subscript :: "bytes \<Rightarrow> rlp_cache \<Rightarrow> nat \<Rightarrow> (rlp_error + bytes) \<times> rlp_cache" where
  "subscript d c i =
     (case subscript_rewind d i c of
        (Inl e, c1) \<Rightarrow> (Inl e, c1)
      | (Inr _, c1) \<Rightarrow>
          (case subscript_loop d i c1 of
             (Inl e, c2) \<Rightarrow> (Inl e, c2)
           | (Inr _, c2) \<Rightarrow> (rlp_new (m_lastItem c2) (ThrowOnFail OR FailIfTooSmall), c2)))"

text \<open>A subscript on a freshly constructed \<^verbatim>\<open>RLP\<close>.\<close>

definition rlp_nth :: "bytes \<Rightarrow> nat \<Rightarrow> rlp_error + bytes" where
  "rlp_nth d i = fst (subscript d fresh_cache i)"

subsection \<open>Iteration\<close>

text \<open>
  An iterator refers to \<open>it_len\<close> bytes from offset \<open>it_off\<close> of \<^verbatim>\<open>m_data\<close>.
  Two iterators are equal when they refer to the same bytes of memory, so the loop of
  \<^verbatim>\<open>toList\<close> ends only where the payload ends exactly at the end of the data;
  otherwise it does not end, which is \<open>None\<close>.
\<close>

record rlp_iter =
  it_remaining :: nat
  it_off :: nat
  it_len :: nat

definition iter_begin :: "bytes \<Rightarrow> rlp_error + rlp_iter" where
  "iter_begin d =
     (if isList d then
        res_bind (payload d) (\<lambda>p. res_bind (sizeAsEncoded p) (\<lambda>s.
          Inr \<lparr>it_remaining = length p - s, it_off = payloadOffset d, it_len = s\<rparr>))
      else Inr \<lparr>it_remaining = 0, it_off = length d, it_len = 0\<rparr>)"

definition iter_end :: "bytes \<Rightarrow> rlp_iter" where
  "iter_end d = \<lparr>it_remaining = 0, it_off = length d, it_len = 0\<rparr>"

definition iter_eq :: "rlp_iter \<Rightarrow> rlp_iter \<Rightarrow> bool" where
  "iter_eq a b = (it_off a = it_off b \<and> it_len a = it_len b)"

definition iter_next :: "bytes \<Rightarrow> rlp_iter \<Rightarrow> rlp_error + rlp_iter" where
  "iter_next d it =
     (if it_remaining it \<noteq> 0 then
        (let off = it_off it + it_len it; cur = take (it_remaining it) (drop off d) in
         res_bind (sizeAsEncoded cur) (\<lambda>s.
           let l = length (cropped cur 0 s) in
           Inr \<lparr>it_remaining = it_remaining it - min (it_remaining it) l,
                it_off = off, it_len = l\<rparr>))
      else Inr (it\<lparr>it_off := it_off it + it_len it, it_len := 0\<rparr>))"

definition iter_deref :: "bytes \<Rightarrow> rlp_iter \<Rightarrow> rlp_error + bytes" where
  "iter_deref d it = rlp_new (take (it_len it) (drop (it_off it) d)) VeryStrict"

partial_function (option) iter_collect ::
  "bytes \<Rightarrow> rlp_iter \<Rightarrow> bytes list \<Rightarrow> (rlp_error + bytes list) option" where
  "iter_collect d it acc =
     (if iter_eq it (iter_end d) then Some (Inr acc)
      else case iter_deref d it of
             Inl e \<Rightarrow> Some (Inl e)
           | Inr x \<Rightarrow> (case iter_next d it of
                         Inl e \<Rightarrow> Some (Inl e)
                       | Inr it' \<Rightarrow> iter_collect d it' (acc @ [x])))"

definition toList :: "bytes \<Rightarrow> nat \<Rightarrow> (rlp_error + bytes list) option" where
  "toList d flags =
     (if \<not> isList d then
        (if has_flag flags ThrowOnFail then Some (Inl BadCast) else Some (Inr []))
      else case iter_begin d of
             Inl e \<Rightarrow> Some (Inl e)
           | Inr it \<Rightarrow> iter_collect d it [])"

subsection \<open>Conversions\<close>

text \<open>In an item built without \<^verbatim>\<open>FailIfTooSmall\<close> the payload may be shorter than
  \<^verbatim>\<open>length()\<close>; the source then reads past the view, and here the bytes that are there are returned.
  Items that were checked when they were built have their whole payload.\<close>

definition toBytes :: "bytes \<Rightarrow> nat \<Rightarrow> rlp_error + bytes" where
  "toBytes d flags =
     (if \<not> isData d then (if has_flag flags ThrowOnFail then Inl BadCast else Inr [])
      else res_bind (payload d) (\<lambda>p. res_bind (rlp_length d) (\<lambda>l. Inr (take l p))))"

text \<open>
  \<^verbatim>\<open>toInt<T>(flags)\<close> for an integer type of \<open>maxSize\<close> bytes; the second
  function is the instance \<^verbatim>\<open>T = bigint\<close>, whose \<^verbatim>\<open>maxSize\<close> is
  \<^verbatim>\<open>~(unsigned)0\<close>.
\<close>

definition toInt_payload :: "nat \<Rightarrow> bytes \<Rightarrow> nat \<Rightarrow> rlp_error + bytes option" where
  "toInt_payload maxSize d flags =
     res_bind (requireGood d) (\<lambda>_. res_bind (isInt d) (\<lambda>int.
       if (\<not> int \<and> \<not> has_flag flags AllowNonCanon) \<or> isList d \<or> isNull d then
         (if has_flag flags ThrowOnFail then Inl BadCast else Inr None)
       else res_bind (payload d) (\<lambda>p.
         if length p > maxSize \<and> has_flag flags FailIfTooBig then
           (if has_flag flags ThrowOnFail then Inl BadCast else Inr None)
         else Inr (Some p))))"

definition toInt :: "nat \<Rightarrow> bytes \<Rightarrow> nat \<Rightarrow> rlp_error + 'a::len word" where
  "toInt maxSize d flags =
     res_bind (toInt_payload maxSize d flags) (\<lambda>p.
       Inr (case p of None \<Rightarrow> 0 | Some p \<Rightarrow> fromBigEndian p))"

definition toInt_u256 :: "bytes \<Rightarrow> nat \<Rightarrow> rlp_error + u256" where
  "toInt_u256 d flags = toInt 32 d flags"

definition toInt_bigint :: "bytes \<Rightarrow> nat \<Rightarrow> rlp_error + nat" where
  "toInt_bigint d flags =
     res_bind (toInt_payload (2 ^ 32 - 1) d flags) (\<lambda>p.
       Inr (case p of None \<Rightarrow> 0 | Some p \<Rightarrow> fromBigEndian_bigint p))"

text \<open>\<^verbatim>\<open>toHash<FixedHash<N>>(flags)\<close>: the \<open>N\<close> bytes of the hash.\<close>

definition toHash :: "nat \<Rightarrow> bytes \<Rightarrow> nat \<Rightarrow> rlp_error + bytes" where
  "toHash N d flags =
     res_bind (requireGood d) (\<lambda>_. res_bind (payload d) (\<lambda>p.
       let l = length p in
       if \<not> isData d \<or> (l > N \<and> has_flag flags FailIfTooBig)
          \<or> (l < N \<and> has_flag flags FailIfTooSmall)
       then (if has_flag flags ThrowOnFail then Inl BadCast else Inr (replicate N 0))
       else let s = min N l in Inr (replicate (N - s) 0 @ take s p)))"

section \<open>The writer\<close>

text \<open>
  \<^verbatim>\<open>RLPStream\<close>: the output and the stack of open lists, innermost first, each with
  the number of items still expected and the offset where its payload starts.
\<close>

record rlp_stream =
  m_out :: bytes
  m_listStack :: "(nat \<times> nat) list"

definition empty_stream :: rlp_stream where
  "empty_stream = \<lparr>m_out = [], m_listStack = []\<rparr>"

definition pushInt :: "nat \<Rightarrow> nat \<Rightarrow> rlp_stream \<Rightarrow> rlp_stream" where
  "pushInt i br s = s\<lparr>m_out := m_out s @ toBigEndian br i\<rparr>"

definition push_byte :: "nat \<Rightarrow> rlp_stream \<Rightarrow> rlp_stream" where
  "push_byte b s = s\<lparr>m_out := m_out s @ [word_of_nat b]\<rparr>"

definition pushCount :: "nat \<Rightarrow> nat \<Rightarrow> rlp_stream \<Rightarrow> rlp_error + rlp_stream" where
  "pushCount count base s =
     (let br = bytesRequired count in
      if br + base > 0xff then Inl RLPException
      else Inr (pushInt count br (push_byte (br + base) s)))"

text \<open>The prefix that closes a list of \<open>s\<close> payload bytes in \<^verbatim>\<open>noteAppended\<close>.\<close>

definition list_header :: "nat \<Rightarrow> rlp_error + bytes" where
  "list_header s =
     (let brs = bytesRequired s in
      if s < c_rlpListImmLenCount then Inr [word_of_nat (c_rlpListStart + s)]
      else if c_rlpListIndLenZero + brs \<le> 0xff then
        Inr (word_of_nat (c_rlpListIndLenZero + brs) # toBigEndian brs s)
      else Inl RLPException)"

fun noteAppended_loop :: "nat \<Rightarrow> bytes \<Rightarrow> (nat \<times> nat) list \<Rightarrow> rlp_error + rlp_stream" where
  "noteAppended_loop n out [] = Inr \<lparr>m_out = out, m_listStack = []\<rparr>"
| "noteAppended_loop n out ((k, p) # st) =
     (if k < n then Inl RLPException
      else if k - n \<noteq> 0 then Inr \<lparr>m_out = out, m_listStack = (k - n, p) # st\<rparr>
      else res_bind (list_header (length out - p)) (\<lambda>h.
             noteAppended_loop 1 (take p out @ h @ drop p out) st))"

definition noteAppended :: "nat \<Rightarrow> rlp_stream \<Rightarrow> rlp_error + rlp_stream" where
  "noteAppended n s =
     (if n = 0 then Inr s else noteAppended_loop n (m_out s) (m_listStack s))"

definition appendRaw :: "bytes \<Rightarrow> nat \<Rightarrow> rlp_stream \<Rightarrow> rlp_error + rlp_stream" where
  "appendRaw d n s = noteAppended n (s\<lparr>m_out := m_out s @ d\<rparr>)"

definition appendList_raw :: "bytes \<Rightarrow> rlp_stream \<Rightarrow> rlp_error + rlp_stream" where
  "appendList_raw rlp s =
     res_bind
       (if length rlp < c_rlpListImmLenCount
        then Inr (push_byte (length rlp + c_rlpListStart) s)
        else pushCount (length rlp) c_rlpListIndLenZero s)
       (appendRaw rlp 1)"

definition appendList :: "nat \<Rightarrow> rlp_stream \<Rightarrow> rlp_error + rlp_stream" where
  "appendList n s =
     (if n \<noteq> 0 then Inr (s\<lparr>m_listStack := (n, length (m_out s)) # m_listStack s\<rparr>)
      else appendList_raw [] s)"

definition append_bytes :: "bytes \<Rightarrow> bool \<Rightarrow> rlp_stream \<Rightarrow> rlp_error + rlp_stream" where
  "append_bytes b compact s =
     (let d = (if compact then dropWhile (\<lambda>x. x = 0) b else b); n = length d in
      res_bind
        (if n = 1 \<and> unat (d ! 0) < c_rlpDataImmLenStart
         then Inr (s\<lparr>m_out := m_out s @ [d ! 0]\<rparr>)
         else res_bind
                (if n < c_rlpDataImmLenCount then Inr (push_byte (n + c_rlpDataImmLenStart) s)
                 else pushCount n c_rlpDataIndLenZero s)
                (appendRaw d 0))
        (noteAppended 1))"

definition append_int :: "nat \<Rightarrow> rlp_stream \<Rightarrow> rlp_error + rlp_stream" where
  "append_int i s =
     res_bind
       (if i = 0 then Inr (push_byte c_rlpDataImmLenStart s)
        else if i < c_rlpDataImmLenStart then Inr (push_byte i s)
        else
          (let br = bytesRequired i in
           res_bind
             (if br < c_rlpDataImmLenCount then Inr (push_byte (br + c_rlpDataImmLenStart) s)
              else
                (let brbr = bytesRequired br in
                 if c_rlpDataIndLenZero + brbr > 0xff then Inl RLPException
                 else Inr (pushInt br brbr (push_byte (c_rlpDataIndLenZero + brbr) s))))
             (\<lambda>s1. Inr (pushInt i br s1))))
       (noteAppended 1)"

definition stream_out :: "rlp_stream \<Rightarrow> rlp_error + bytes" where
  "stream_out s = (if m_listStack s \<noteq> [] then Inl RLPException else Inr (m_out s))"

text \<open>\<^verbatim>\<open>appendVector\<close>: a list header and the elements in order.\<close>

fun append_all :: "(rlp_stream \<Rightarrow> rlp_error + rlp_stream) list \<Rightarrow> rlp_stream \<Rightarrow> rlp_error + rlp_stream" where
  "append_all [] s = Inr s"
| "append_all (f # fs) s = res_bind (f s) (append_all fs)"

definition appendVector :: "('a \<Rightarrow> rlp_stream \<Rightarrow> rlp_error + rlp_stream) \<Rightarrow> 'a list \<Rightarrow> rlp_stream \<Rightarrow> rlp_error + rlp_stream" where
  "appendVector app xs s =
     res_bind (appendList (length xs) s) (append_all (map app xs))"

text \<open>\<^verbatim>\<open>rlp(_t)\<close> for a byte string and an integer, and \<^verbatim>\<open>rlpList(...)\<close>.\<close>

definition rlp_bytes :: "bytes \<Rightarrow> rlp_error + bytes" where
  "rlp_bytes b = res_bind (append_bytes b False empty_stream) stream_out"

definition rlp_int :: "nat \<Rightarrow> rlp_error + bytes" where
  "rlp_int i = res_bind (append_int i empty_stream) stream_out"

definition rlpList :: "(rlp_stream \<Rightarrow> rlp_error + rlp_stream) list \<Rightarrow> rlp_error + bytes" where
  "rlpList fs =
     res_bind (appendList (length fs) empty_stream) (\<lambda>s. res_bind (append_all fs s) stream_out)"

section \<open>The format\<close>

text \<open>
  The specification: a tree of byte strings and its encoding.  \<open>len_prefix\<close> is the length
  prefix of a string (\<open>base = 128\<close>) or of a list (\<open>base = 192\<close>) of \<open>n\<close> payload bytes.
\<close>

datatype rlp_item = Data bytes | Items "rlp_item list"

definition len_prefix :: "nat \<Rightarrow> nat \<Rightarrow> bytes" where
  "len_prefix base n =
     (if n < 56 then [word_of_nat (base + n)]
      else word_of_nat (base + 55 + bytesRequired n) # toBigEndian (bytesRequired n) n)"

fun encode :: "rlp_item \<Rightarrow> bytes" where
  "encode (Data b) =
     (if length b = 1 \<and> unat (hd b) < 128 then b else len_prefix 128 (length b) @ b)"
| "encode (Items xs) =
     (let p = concat (map encode xs) in len_prefix 192 (length p) @ p)"

fun payload_of :: "rlp_item \<Rightarrow> bytes" where
  "payload_of (Data b) = b"
| "payload_of (Items xs) = concat (map encode xs)"

definition size_ok :: "nat \<Rightarrow> bool" where
  "size_ok n = (n < 2 ^ 64 - 257)"

lemma size_ok_mono: "size_ok n \<Longrightarrow> m \<le> n \<Longrightarrow> size_ok m"
  by (simp add: size_ok_def)

lemma bytesRequired_size_ok:
  assumes "size_ok n" shows "bytesRequired n \<le> 8"
proof -
  have "n < 256 ^ 8" using assms by (simp add: size_ok_def)
  then show ?thesis by (simp add: bytesRequired_le_iff)
qed

lemma len_prefix_Nil [simp]: "len_prefix b n \<noteq> []"
  by (simp add: len_prefix_def)

lemma encode_Nil [simp]: "encode x \<noteq> []"
  by (cases x) (auto simp: Let_def)

lemma length_payload_of_le: "length (payload_of x) \<le> length (encode x)"
  by (cases x) (auto simp: Let_def)

lemma length_encode_member:
  "x \<in> set xs \<Longrightarrow> length (encode x) \<le> length (concat (map encode xs))"
  by (auto simp: length_concat intro: member_le_sum_list)

lemma encode_split:
  "encode x = take (length (encode x) - length (payload_of x)) (encode x) @ payload_of x"
  by (cases x) (auto simp: Let_def)

text \<open>The bytes of a length prefix, as the reader sees them.\<close>

lemma len_prefix_short:
  "n < 56 \<Longrightarrow> base \<in> {128, 192} \<Longrightarrow>
     len_prefix base n = [word_of_nat (base + n)] \<and> unat (word_of_nat (base + n) :: byte) = base + n"
  by (intro conjI unat_word_of_nat) (auto simp: len_prefix_def)

lemma len_prefix_long:
  assumes "56 \<le> n" and "size_ok n" and "base \<in> {128, 192}"
  obtains h b bs where "len_prefix base n = h # b # bs"
    and "unat h = base + 55 + bytesRequired n" and "b \<noteq> 0" and "Suc (length bs) = bytesRequired n"
    and "fromBigEndian_bigint (b # bs) = n" and "bytesRequired n \<le> 8" and "0 < bytesRequired n"
proof -
  obtain b bs where b: "toBigEndian (bytesRequired n) n = b # bs" "b \<noteq> 0"
    using toBigEndian_lead [of n] assms by auto
  have br: "bytesRequired n \<le> 8" "0 < bytesRequired n"
    using bytesRequired_size_ok [OF assms(2)] assms(1) bytesRequired_eq_0_iff [of n] by linarith+
  have "unat (word_of_nat (base + 55 + bytesRequired n) :: byte) = base + 55 + bytesRequired n"
    using br assms(3) by (intro unat_word_of_nat) auto
  moreover have "Suc (length bs) = bytesRequired n"
    using b(1) length_toBigEndian [of "bytesRequired n" n] by simp
  moreover have "fromBigEndian_bigint (b # bs) = n"
    using fromBigEndian_toBigEndian_mod [of "bytesRequired n" n] b(1)
      less_pow_bytesRequired [of n] by simp
  moreover have "len_prefix base n = word_of_nat (base + 55 + bytesRequired n) # b # bs"
    using assms(1) b(1) by (simp add: len_prefix_def)
  ultimately show ?thesis using that b(2) br by blast
qed

lemmas rlp_prefix_defs =
  isNull_def isData_def isList_def isSingleByte_def requireGood_def lengthSize_def
  payloadOffset_def rlp_length_def read_length_def

lemma data_prefix_read:
  assumes "size_ok n" and "n = 1 \<longrightarrow> p \<noteq> [] \<and> 128 \<le> unat (hd p)"
  shows "rlp_length (len_prefix 128 n @ p) = Inr n"
    and "payloadOffset (len_prefix 128 n @ p) = length (len_prefix 128 n)"
    and "isData (len_prefix 128 n @ p)" and "\<not> isList (len_prefix 128 n @ p)"
    and "\<not> isSingleByte (len_prefix 128 n @ p)"
    and "requireGood (len_prefix 128 n @ p) = Inr ()"
proof -
  have "rlp_length (len_prefix 128 n @ p) = Inr n
    \<and> payloadOffset (len_prefix 128 n @ p) = length (len_prefix 128 n)
    \<and> isData (len_prefix 128 n @ p) \<and> \<not> isList (len_prefix 128 n @ p)
    \<and> \<not> isSingleByte (len_prefix 128 n @ p) \<and> requireGood (len_prefix 128 n @ p) = Inr ()"
  proof (cases "n < 56")
    case True
    then show ?thesis
      using len_prefix_short [OF True, of 128] assms(2)
      by (cases p) (auto simp: rlp_prefix_defs)
  next
    case False
    then have n: "56 \<le> n" by simp
    obtain h b bs where h: "len_prefix 128 n = h # b # bs"
      "unat h = 128 + 55 + bytesRequired n" "b \<noteq> 0" "Suc (length bs) = bytesRequired n"
      "fromBigEndian_bigint (b # bs) = n" "bytesRequired n \<le> 8" "0 < bytesRequired n"
      by (rule len_prefix_long [OF n assms(1), of 128]) auto
    have t: "take (bytesRequired n) (b # bs @ p) = b # bs"
      using h(4) by (simp flip: h(4))
    show ?thesis
      using n h t assms(1) unfolding h(1) by (simp add: rlp_prefix_defs size_ok_def)
  qed
  then show "rlp_length (len_prefix 128 n @ p) = Inr n"
    and "payloadOffset (len_prefix 128 n @ p) = length (len_prefix 128 n)"
    and "isData (len_prefix 128 n @ p)" and "\<not> isList (len_prefix 128 n @ p)"
    and "\<not> isSingleByte (len_prefix 128 n @ p)"
    and "requireGood (len_prefix 128 n @ p) = Inr ()"
    by blast+
qed

lemma list_prefix_read:
  assumes "size_ok n"
  shows "rlp_length (len_prefix 192 n @ p) = Inr n"
    and "payloadOffset (len_prefix 192 n @ p) = length (len_prefix 192 n)"
    and "isList (len_prefix 192 n @ p)" and "\<not> isData (len_prefix 192 n @ p)"
    and "\<not> isSingleByte (len_prefix 192 n @ p)"
proof -
  have "rlp_length (len_prefix 192 n @ p) = Inr n
    \<and> payloadOffset (len_prefix 192 n @ p) = length (len_prefix 192 n)
    \<and> isList (len_prefix 192 n @ p) \<and> \<not> isData (len_prefix 192 n @ p)
    \<and> \<not> isSingleByte (len_prefix 192 n @ p)"
  proof (cases "n < 56")
    case True
    then show ?thesis
      using len_prefix_short [OF True, of 192] by (auto simp: rlp_prefix_defs)
  next
    case False
    then have n: "56 \<le> n" by simp
    obtain h b bs where h: "len_prefix 192 n = h # b # bs"
      "unat h = 192 + 55 + bytesRequired n" "b \<noteq> 0" "Suc (length bs) = bytesRequired n"
      "fromBigEndian_bigint (b # bs) = n" "bytesRequired n \<le> 8" "0 < bytesRequired n"
      by (rule len_prefix_long [OF n assms(1), of 192]) auto
    have t: "take (bytesRequired n) (b # bs @ p) = b # bs"
      using h(4) by (simp flip: h(4))
    show ?thesis
      using n h t assms(1) unfolding h(1) by (simp add: rlp_prefix_defs size_ok_def)
  qed
  then show "rlp_length (len_prefix 192 n @ p) = Inr n"
    and "payloadOffset (len_prefix 192 n @ p) = length (len_prefix 192 n)"
    and "isList (len_prefix 192 n @ p)" and "\<not> isData (len_prefix 192 n @ p)"
    and "\<not> isSingleByte (len_prefix 192 n @ p)"
    by blast+
qed

text \<open>The reader on the encoding of an item, with any bytes after it.\<close>

lemma single_byte_read:
  assumes "unat b < 128"
  shows "isSingleByte (b # p)" "isData (b # p)" "\<not> isList (b # p)"
    "rlp_length (b # p) = Inr 1" "payloadOffset (b # p) = 0" "requireGood (b # p) = Inr ()"
  using assms by (auto simp: rlp_prefix_defs)

lemma encode_Data_cases:
  obtains (Single) b where "x = [b]" "unat b < 128" "encode (Data x) = [b]"
  | (Prefixed) "encode (Data x) = len_prefix 128 (length x) @ x"
      "length x = 1 \<longrightarrow> x \<noteq> [] \<and> 128 \<le> unat (hd x)"
proof (cases "length x = 1 \<and> unat (hd x) < 128")
  case True
  then obtain b where "x = [b]" by (auto simp: length_Suc_conv)
  with True Single show thesis by simp
next
  case False
  then show thesis by (intro Prefixed) (auto simp: not_less)
qed

lemma encode_Data_read:
  assumes "size_ok (length b)"
  shows "rlp_length (encode (Data b) @ r) = Inr (length b)"
    and "payloadOffset (encode (Data b) @ r) = length (encode (Data b)) - length b"
    and "isData (encode (Data b) @ r)" and "\<not> isList (encode (Data b) @ r)"
    and "requireGood (encode (Data b) @ r) = Inr ()"
proof -
  have "rlp_length (encode (Data b) @ r) = Inr (length b)
    \<and> payloadOffset (encode (Data b) @ r) = length (encode (Data b)) - length b
    \<and> isData (encode (Data b) @ r) \<and> \<not> isList (encode (Data b) @ r)
    \<and> requireGood (encode (Data b) @ r) = Inr ()"
  proof (cases b rule: encode_Data_cases)
    case (Single x)
    then show ?thesis using single_byte_read [of x r] by simp
  next
    case Prefixed
    then have "length b = 1 \<longrightarrow> b @ r \<noteq> [] \<and> 128 \<le> unat (hd (b @ r))" by auto
    from data_prefix_read [OF assms this] show ?thesis unfolding Prefixed(1) by simp
  qed
  then show "rlp_length (encode (Data b) @ r) = Inr (length b)"
    and "payloadOffset (encode (Data b) @ r) = length (encode (Data b)) - length b"
    and "isData (encode (Data b) @ r)" and "\<not> isList (encode (Data b) @ r)"
    and "requireGood (encode (Data b) @ r) = Inr ()"
    by blast+
qed

lemma encode_Items_read:
  assumes "size_ok (length (concat (map encode xs)))"
  shows "rlp_length (encode (Items xs) @ r) = Inr (length (concat (map encode xs)))"
    and "payloadOffset (encode (Items xs) @ r) =
           length (encode (Items xs)) - length (concat (map encode xs))"
    and "isList (encode (Items xs) @ r)" and "\<not> isData (encode (Items xs) @ r)"
  using list_prefix_read [OF assms, of "concat (map encode xs) @ r"] by (simp_all add: Let_def)

lemma encode_read:
  assumes "size_ok (length (payload_of x))"
  shows "rlp_length (encode x @ r) = Inr (length (payload_of x))"
    and "payloadOffset (encode x @ r) = length (encode x) - length (payload_of x)"
    and "isData (encode x @ r) \<or> isList (encode x @ r)"
  using assms encode_Data_read encode_Items_read by (cases x; simp del: encode.simps)+

lemma size_ok_payload: "size_ok (length (encode x)) \<Longrightarrow> size_ok (length (payload_of x))"
  using size_ok_mono length_payload_of_le by blast

lemma actualSize_encode:
  assumes "size_ok (length (payload_of x))"
  shows "actualSize (encode x @ r) = Inr (length (encode x))"
proof -
  have "isSingleByte (encode x @ r) \<longrightarrow> length (encode x) = 1"
  proof (cases x)
    case (Data b)
    then have s: "size_ok (length b)" using assms by simp
    show ?thesis
    proof (cases b rule: encode_Data_cases)
      case Prefixed
      then have "length b = 1 \<longrightarrow> b @ r \<noteq> [] \<and> 128 \<le> unat (hd (b @ r))" by auto
      from data_prefix_read(5) [OF s this] show ?thesis unfolding Data Prefixed(1) by simp
    qed (simp add: Data)
  next
    case (Items xs)
    then show ?thesis
      using list_prefix_read(5) assms by (simp add: Let_def)
  qed
  then show ?thesis
    using encode_read [OF assms, of r] length_payload_of_le [of x]
    by (auto simp: actualSize_def isNull_def)
qed

lemma rlp_new_encode:
  assumes "size_ok (length (payload_of x))"
  shows "rlp_new (encode x) s = Inr (encode x)"
    and "rlp_new (encode x @ r) (ThrowOnFail OR FailIfTooSmall) = Inr (encode x @ r)"
  using actualSize_encode [OF assms, of r] actualSize_encode [OF assms, of "[]"]
  by (simp_all add: rlp_new_def rlp_flag_defs)

lemma sizeAsEncoded_encode [simp]:
  assumes "size_ok (length (payload_of x))"
  shows "sizeAsEncoded (encode x @ r) = Inr (length (encode x))"
  by (simp add: sizeAsEncoded_def rlp_new_encode(2) [OF assms] actualSize_encode [OF assms])

lemma payload_encode:
  assumes "size_ok (length (payload_of x))"
  shows "payload (encode x @ r) = Inr (payload_of x)"
proof -
  let ?n = "length (payload_of x)" 
  obtain h where h: "encode x = h @ payload_of x"
    using encode_split [of x] by metis
  have n: "?n \<noteq> 2 ^ 64 - 1" using assms by (simp add: size_ok_def)
  have "(length h + ?n) mod 2 ^ 64 \<le> length h + ?n" by (rule mod_less_eq_dividend)
  then have "(length h + ?n) mod 2 ^ 64 \<le> length h + (?n + length r)" by linarith
  then show ?thesis
    using encode_read(1,2) [OF assms, of r] n unfolding h by (simp add: payload_def cropped_def)
qed

lemma sizeAsEncoded_Nil [simp]: "sizeAsEncoded [] = Inr 0"
  by (simp add: sizeAsEncoded_def rlp_new_def rlp_flag_defs actualSize_def isNull_def)

lemma items_loop_encode:
  assumes "\<forall>x\<in>set xs. size_ok (length (payload_of x))"
  shows "items_loop (concat (map encode xs)) i = Inr (i + length xs)"
  using assms
proof (induction xs arbitrary: i)
  case (Cons x xs)
  then show ?case
    by (subst items_loop.simps) (simp add: cropped_from_def)
qed (simp add: items_loop.simps)

lemma size_ok_members:
  assumes "size_ok (length (concat (map encode xs)))" and "x \<in> set xs"
  shows "size_ok (length (payload_of x))"
  using assms length_encode_member [OF assms(2)] length_payload_of_le [of x]
  by (meson le_trans size_ok_mono)

lemma toBytes_encode:
  assumes "size_ok (length b)"
  shows "toBytes (encode (Data b) @ r) flags = Inr b"
  using encode_Data_read [OF assms, of r] payload_encode [of "Data b" r] assms
  by (simp add: toBytes_def del: encode.simps)

subsection \<open>Subscript\<close>

text \<open>
  What the cache means: it holds the item of its index and the offset after it, or an empty
  item when the index is past the end (which is also the state of a new object).
\<close>

definition offset_of :: "rlp_item list \<Rightarrow> nat \<Rightarrow> nat" where
  "offset_of xs k = length (concat (map encode (take k xs)))"

definition cache_ok :: "rlp_item list \<Rightarrow> rlp_cache \<Rightarrow> bool" where
  "cache_ok xs c =
     (if m_lastIndex c < length xs
      then m_lastItem c = encode (xs ! m_lastIndex c) \<and> m_lastEnd c = offset_of xs (Suc (m_lastIndex c))
      else m_lastItem c = [])"

lemma cropped_from_offset:
  "cropped_from (concat (map encode xs)) (offset_of xs k) = concat (map encode (drop k xs))"
proof -
  have "concat (map encode xs) =
      concat (map encode (take k xs)) @ concat (map encode (drop k xs))"
    by (metis append_take_drop_id concat_append map_append)
  then show ?thesis
    by (simp add: cropped_from_def offset_of_def)
qed

lemma offset_of_Suc:
  "k < length xs \<Longrightarrow> offset_of xs (Suc k) = offset_of xs k + length (encode (xs ! k))"
  by (simp add: offset_of_def take_Suc_conv_app_nth)

lemma concat_drop_Cons:
  "k < length xs \<Longrightarrow>
     concat (map encode (drop k xs)) = encode (xs ! k) @ concat (map encode (drop (Suc k) xs))"
  by (simp add: Cons_nth_drop_Suc [symmetric])

lemma cropped_encode [simp]:
  assumes "size_ok (length (encode x))"
  shows "cropped (encode x @ r) 0 (length (encode x)) = encode x"
proof -
  have "length (encode x) mod 2 ^ 64 \<le> length (encode x)" by (rule mod_less_eq_dividend)
  then show ?thesis using assms by (simp add: cropped_def size_ok_def)
qed

lemma cropped_0_0 [simp]: "cropped xs 0 0 = []"
  by (simp add: cropped_def)

lemma size_ok_encode_member:
  assumes "size_ok (length (concat (map encode xs)))" and "x \<in> set xs"
  shows "size_ok (length (encode x))"
  using assms length_encode_member [OF assms(2)] by (meson size_ok_mono)

lemma payload_Items:
  assumes "size_ok (length (concat (map encode xs)))"
  shows "payload (encode (Items xs) @ r) = Inr (concat (map encode xs))"
  using payload_encode [of "Items xs" r] assms by (simp del: encode.simps)

lemma subscript_loop_encode:
  assumes ok: "size_ok (length (concat (map encode xs)))"
    and "d = encode (Items xs) @ r" and "cache_ok xs c" and "m_lastIndex c \<le> i"
  shows "\<exists>c'. subscript_loop d i c = (Inr (), c') \<and> cache_ok xs c' \<and>
           m_lastItem c' = (if i < length xs then encode (xs ! i) else [])"
  using assms(2-)
proof (induction d i c rule: subscript_loop.induct)
  case (1 d i c)
  let ?k = "m_lastIndex c"
  show ?case
  proof (cases "?k < i \<and> length (m_lastItem c) \<noteq> 0")
    case False
    then have "subscript_loop d i c = (Inr (), c)"
      by (subst subscript_loop.simps) auto
    then show ?thesis
      using False 1(3,4) by (auto simp: cache_ok_def split: if_splits)
  next
    case True
    then have k: "?k < length xs" and e: "m_lastEnd c = offset_of xs (Suc ?k)"
      using 1(3) by (auto simp: cache_ok_def split: if_splits)
    have pl: "payload d = Inr (concat (map encode xs))"
      using payload_Items [OF ok] 1(2) by simp
    let ?t = "concat (map encode (drop (Suc ?k) xs))"
    have t: "cropped_from (concat (map encode xs)) (m_lastEnd c) = ?t"
      by (simp add: e cropped_from_offset)
    obtain s it where s: "sizeAsEncoded ?t = Inr s" "cropped ?t 0 s = it"
      and it: "it = (if Suc ?k < length xs then encode (xs ! Suc ?k) else [])"
    proof (cases "Suc ?k < length xs")
      case True
      then have m: "xs ! Suc ?k \<in> set xs" by simp
      show ?thesis
        using that [of "length (encode (xs ! Suc ?k))" "encode (xs ! Suc ?k)"] True
          size_ok_members [OF ok m] size_ok_encode_member [OF ok m]
        by (simp add: concat_drop_Cons)
    qed (use that [of 0 "[]"] in simp)
    let ?c = "c\<lparr>m_lastItem := it, m_lastEnd := m_lastEnd c + length it, m_lastIndex := Suc ?k\<rparr>"
    have step: "subscript_loop d i c = subscript_loop d i ?c"
      using True pl t s by (subst subscript_loop.simps) (simp add: Let_def)
    have "cache_ok xs ?c"
      using e it by (auto simp: cache_ok_def offset_of_Suc)
    then have "\<exists>c'. subscript_loop d i ?c = (Inr (), c') \<and> cache_ok xs c' \<and>
        m_lastItem c' = (if i < length xs then encode (xs ! i) else [])"
      using 1(1) [OF True pl refl refl, unfolded t, OF s(1) refl] s(2) 1(2) True by simp
    then show ?thesis using step by simp
  qed
qed

lemma subscript_rewind_encode:
  assumes ok: "size_ok (length (concat (map encode xs)))" and "cache_ok xs c"
  shows "\<exists>c'. subscript_rewind (encode (Items xs) @ r) i c = (Inr (), c') \<and> cache_ok xs c'
           \<and> m_lastIndex c' \<le> i"
proof (cases "i < m_lastIndex c")
  case True
  show ?thesis
  proof (cases xs)
    case Nil
    then show ?thesis
      using True payload_Items [OF ok, of r] by (simp add: subscript_rewind_def cache_ok_def)
  next
    case (Cons x ys)
    then have m: "x \<in> set xs" by simp
    show ?thesis
      using True payload_Items [OF ok, of r] size_ok_members [OF ok m] size_ok_encode_member [OF ok m] Cons
      by (simp add: subscript_rewind_def cache_ok_def offset_of_def del: encode.simps)
  qed
qed (use assms in \<open>simp add: subscript_rewind_def\<close>)

lemma rlp_new_Nil [simp]: "rlp_new [] s = Inr []"
  by (simp add: rlp_new_def actualSize_def isNull_def)

lemma subscript_encode:
  assumes ok: "size_ok (length (concat (map encode xs)))" and "cache_ok xs c"
  shows "\<exists>c'. subscript (encode (Items xs) @ r) c i =
           (Inr (if i < length xs then encode (xs ! i) else []), c') \<and> cache_ok xs c'"
proof -
  obtain c1 where c1: "subscript_rewind (encode (Items xs) @ r) i c = (Inr (), c1)"
    "cache_ok xs c1" "m_lastIndex c1 \<le> i"
    using subscript_rewind_encode [OF assms] by blast
  obtain c2 where c2: "subscript_loop (encode (Items xs) @ r) i c1 = (Inr (), c2)"
    "cache_ok xs c2" "m_lastItem c2 = (if i < length xs then encode (xs ! i) else [])"
    using subscript_loop_encode [OF ok refl c1(2,3)] by blast
  have "rlp_new (m_lastItem c2) s = Inr (m_lastItem c2)" for s
    using c2(3) rlp_new_encode(1) [OF size_ok_members [OF ok]] by simp
  with c1 c2 show ?thesis by (simp add: subscript_def del: encode.simps)
qed

lemma cache_ok_fresh: "length xs < 2 ^ 64 \<Longrightarrow> cache_ok xs fresh_cache"
  by (simp add: cache_ok_def fresh_cache_def)

lemma length_le_concat_encode: "length xs \<le> length (concat (map encode xs))"
proof (induction xs)
  case (Cons x xs)
  then show ?case using encode_Nil [of x] by (cases "encode x") (auto simp del: encode_Nil)
qed simp

fun subscripts :: "bytes \<Rightarrow> rlp_cache \<Rightarrow> nat list \<Rightarrow> (rlp_error + bytes) list" where
  "subscripts d c [] = []"
| "subscripts d c (i # is) = (let (r, c') = subscript d c i in r # subscripts d c' is)"

lemma subscripts_encode:
  assumes ok: "size_ok (length (concat (map encode xs)))" and "cache_ok xs c"
  shows "subscripts (encode (Items xs) @ r) c is =
           map (\<lambda>i. Inr (if i < length xs then encode (xs ! i) else [])) is"
  using assms(2)
proof (induction "is" arbitrary: c)
  case (Cons i "is")
  then show ?case
    using subscript_encode [OF ok Cons.prems, of r i] by (auto simp: Let_def simp del: encode.simps)
qed simp

subsection \<open>Iteration\<close>

text \<open>The iterator that stands at item \<open>k\<close> of a list whose payload ends the data.\<close>

definition iter_at :: "nat \<Rightarrow> rlp_item list \<Rightarrow> nat \<Rightarrow> rlp_iter" where
  "iter_at h xs k =
     \<lparr>it_remaining = length (concat (map encode (drop (Suc k) xs))), it_off = h + offset_of xs k,
      it_len = (if k < length xs then length (encode (xs ! k)) else 0)\<rparr>"

lemma drop_at_offset:
  assumes "length pre = h" and "d = pre @ concat (map encode xs) @ r"
  shows "drop (h + offset_of xs k) d = concat (map encode (drop k xs)) @ r"
proof -
  have "concat (map encode xs) =
      concat (map encode (take k xs)) @ concat (map encode (drop k xs))"
    by (metis append_take_drop_id concat_append map_append)
  then show ?thesis using assms by (simp add: offset_of_def)
qed

lemma concat_encode_Nil_iff [simp]: "concat (map encode xs) = [] \<longleftrightarrow> xs = []"
  by (cases xs) auto

lemma concat_encode_all_Nil [simp]: "(\<forall>x\<in>set xs. encode x = []) \<longleftrightarrow> xs = []"
  by (cases xs) auto

lemma iter_next_at:
  assumes ok: "size_ok (length (concat (map encode xs)))" and "length pre = h"
    and d: "d = pre @ concat (map encode xs) @ r" and k: "k < length xs"
  shows "iter_next d (iter_at h xs k) = Inr (iter_at h xs (Suc k))"
proof (cases "Suc k < length xs")
  case True
  then have m: "xs ! Suc k \<in> set xs" by simp
  have off: "h + offset_of xs k + length (encode (xs ! k)) = h + offset_of xs (Suc k)"
    using k by (simp add: offset_of_Suc)
  show ?thesis
    using True k drop_at_offset [OF assms(2,3), of "Suc k"] size_ok_members [OF ok m]
      size_ok_encode_member [OF ok m]
    by (simp add: iter_next_def iter_at_def off concat_drop_Cons Let_def)
next
  case False
  then show ?thesis
    using k by (simp add: iter_next_def iter_at_def offset_of_Suc)
qed

lemma iter_deref_at:
  assumes ok: "size_ok (length (concat (map encode xs)))" and "length pre = h"
    and d: "d = pre @ concat (map encode xs) @ r" and k: "k < length xs"
  shows "iter_deref d (iter_at h xs k) = Inr (encode (xs ! k))"
  using k drop_at_offset [OF assms(2,3), of k] rlp_new_encode(1) [OF size_ok_members [OF ok nth_mem [OF k]]]
  by (simp add: iter_deref_def iter_at_def concat_drop_Cons)

lemma iter_at_not_end:
  "k < length xs \<Longrightarrow> \<not> iter_eq (iter_at h xs k) (iter_end d)"
  by (simp add: iter_eq_def iter_at_def iter_end_def)

lemma iter_collect_at:
  assumes ok: "size_ok (length (concat (map encode xs)))" and "length pre = h" and "k \<le> length xs"
    and d: "d = pre @ concat (map encode xs) @ []"
  shows "iter_collect d (iter_at h xs k) acc = Some (Inr (acc @ map encode (drop k xs)))"
  using assms(3)
proof (induction "length xs - k" arbitrary: k acc)
  case 0
  then have k: "k = length xs" by simp
  have "iter_eq (iter_at h xs k) (iter_end d)"
    using assms(2,4) by (simp add: k iter_eq_def iter_at_def iter_end_def offset_of_def)
  then show ?case by (subst iter_collect.simps) (simp add: k)
next
  case (Suc n)
  then have k: "k < length xs" by simp
  have "iter_collect d (iter_at h xs k) acc = iter_collect d (iter_at h xs (Suc k)) (acc @ [encode (xs ! k)])"
    using iter_deref_at [OF ok assms(2) d k] iter_next_at [OF ok assms(2) d k]
      iter_at_not_end [OF k, of h d]
    by (subst iter_collect.simps) simp
  also have "\<dots> = Some (Inr (acc @ encode (xs ! k) # map encode (drop (Suc k) xs)))"
    using Suc k by simp
  finally show ?case
    by (simp add: Cons_nth_drop_Suc [OF k, symmetric])
qed

lemma iter_begin_encode:
  assumes ok: "size_ok (length (concat (map encode xs)))"
  shows "iter_begin (encode (Items xs) @ r) =
           Inr (iter_at (length (len_prefix 192 (length (concat (map encode xs))))) xs 0)"
proof -
  have "sizeAsEncoded (concat (map encode xs)) = Inr (if xs = [] then 0 else length (encode (hd xs)))"
    using size_ok_members [OF ok] by (cases xs) auto
  then show ?thesis
    using payload_Items [OF ok, of r] encode_Items_read [OF ok, of r]
    by (cases xs) (auto simp: iter_begin_def iter_at_def offset_of_def Let_def)
qed

lemma toList_encode:
  assumes ok: "size_ok (length (concat (map encode xs)))"
  shows "toList (encode (Items xs)) flags = Some (Inr (map encode xs))"
  using iter_begin_encode [OF ok, of "[]"] encode_Items_read(3) [OF ok, of "[]"]
    iter_collect_at [OF ok refl, of 0 "encode (Items xs)" "len_prefix 192 (length (concat (map encode xs)))" "[]"]
  by (simp add: toList_def Let_def)

text \<open>
  With further bytes after the list the iterator passes the end of the payload without ever
  being equal to \<^verbatim>\<open>end()\<close>, and stays there.
\<close>

lemma iter_collect_stuck:
  assumes "iter_collect d it acc = Some res"
  shows "\<not> (it_remaining it = 0 \<and> it_len it = 0 \<and> it_off it < length d)"
proof (rule iter_collect.raw_induct [OF _ assms], rule notI)
  fix f d it acc res
  assume IH: "\<And>d it acc res. f d it acc = Some res \<Longrightarrow>
      \<not> (it_remaining it = 0 \<and> it_len it = 0 \<and> it_off it < length d)"
    and st: "(if iter_eq it (iter_end d) then Some (Inr acc)
      else case iter_deref d it of Inl e \<Rightarrow> Some (Inl e)
           | Inr x \<Rightarrow> (case iter_next d it of Inl e \<Rightarrow> Some (Inl e)
                         | Inr it' \<Rightarrow> f d it' (acc @ [x]))) = Some res"
    and s: "it_remaining it = 0 \<and> it_len it = 0 \<and> it_off it < length d"
  then have "iter_deref d it = Inr []" and "iter_next d it = Inr it" and "\<not> iter_eq it (iter_end d)"
    by (simp_all add: iter_deref_def iter_next_def iter_eq_def iter_end_def)
  with st have "f d it (acc @ [[]]) = Some res" by simp
  then show False using IH s by blast
qed

lemma iter_collect_trailing:
  assumes ok: "size_ok (length (concat (map encode xs)))" and "length pre = h" and "k \<le> length xs"
    and d: "d = pre @ concat (map encode xs) @ r" and "r \<noteq> []"
  shows "iter_collect d (iter_at h xs k) acc = None"
  using assms(3)
proof (induction "length xs - k" arbitrary: k acc)
  case 0
  then have k: "k = length xs" by simp
  have "it_remaining (iter_at h xs k) = 0 \<and> it_len (iter_at h xs k) = 0 \<and> it_off (iter_at h xs k) < length d"
    using assms(2,4,5) by (simp add: k iter_at_def offset_of_def)
  then show ?case
    using iter_collect_stuck by (metis not_Some_eq)
next
  case (Suc n)
  then have k: "k < length xs" by simp
  have "iter_collect d (iter_at h xs k) acc = iter_collect d (iter_at h xs (Suc k)) (acc @ [encode (xs ! k)])"
    using iter_deref_at [OF ok assms(2) d k] iter_next_at [OF ok assms(2) d k]
      iter_at_not_end [OF k, of h d]
    by (subst iter_collect.simps) simp
  then show ?case using Suc k by simp
qed

lemma toList_trailing:
  assumes ok: "size_ok (length (concat (map encode xs)))" and "r \<noteq> []"
  shows "toList (encode (Items xs) @ r) flags = None"
  using iter_begin_encode [OF ok, of r] encode_Items_read(3) [OF ok, of r]
    iter_collect_trailing [OF ok refl, of 0 "encode (Items xs) @ r" "len_prefix 192 (length (concat (map encode xs)))" r "[]"]
    assms(2)
  by (simp add: toList_def Let_def)

subsection \<open>Integers\<close>

lemma isInt_lead:
  assumes "b \<noteq> 0" and ok: "size_ok (Suc (length bs))"
  shows "isInt (encode (Data (b # bs)) @ r) = Inr True"
proof (cases "b # bs" rule: encode_Data_cases)
  case (Single x)
  then show ?thesis
    using assms by (auto simp: isInt_def rlp_prefix_defs unat_eq_0)
next
  case Prefixed
  let ?n = "Suc (length bs)"
  show ?thesis
  proof (cases "?n < 56")
    case True
    then show ?thesis
      unfolding Prefixed(1)
      using len_prefix_short [OF True, of 128] assms Prefixed(2)
      by (auto simp: isInt_def rlp_prefix_defs)
  next
    case False
    then have n: "56 \<le> ?n" by simp
    obtain h y ys where h: "len_prefix 128 ?n = h # y # ys"
      "unat h = 128 + 55 + bytesRequired ?n" "y \<noteq> 0" "Suc (length ys) = bytesRequired ?n"
      "fromBigEndian_bigint (y # ys) = ?n" "bytesRequired ?n \<le> 8" "0 < bytesRequired ?n"
      by (rule len_prefix_long [OF n ok, of 128]) auto
    have "(h # (y # ys) @ b # bs @ r) ! (bytesRequired ?n + 1) = b"
      unfolding h(4) [symmetric] by (simp add: nth_append)
    then show ?thesis
      unfolding Prefixed(1)
      using h assms by (simp add: isInt_def rlp_prefix_defs)
  qed
qed

lemma toInt_payload_encode:
  assumes "0 < v" and "size_ok (bytesRequired v)" and "bytesRequired v \<le> m"
  shows "toInt_payload m (encode (Data (toBigEndian (bytesRequired v) v)) @ r) flags =
           Inr (Some (toBigEndian (bytesRequired v) v))"
proof -
  let ?b = "toBigEndian (bytesRequired v) v"
  obtain b bs where b: "?b = b # bs" "b \<noteq> 0"
    using toBigEndian_lead [OF assms(1)] by blast
  have l: "Suc (length bs) = bytesRequired v"
    using b(1) length_toBigEndian [of "bytesRequired v" v] by simp
  have s: "size_ok (length ?b)" using assms(2) by simp
  show ?thesis
    using encode_Data_read [OF s, of r] payload_encode [of "Data ?b" r] s assms(3)
      isInt_lead [OF b(2), of bs r] l
    unfolding b by (auto simp: toInt_payload_def isNull_def size_ok_def simp del: encode.simps)
qed

lemma toInt_payload_zero:
  "toInt_payload m (encode (Data []) @ r) flags = Inr (Some [])"
  by (auto simp: toInt_payload_def rlp_prefix_defs isInt_def payload_def cropped_def len_prefix_def)

subsection \<open>Canonicity\<close>

lemma bytesRequired_lead:
  assumes "l = b # bs" and "b \<noteq> 0"
  shows "bytesRequired (fromBigEndian_bigint l) = length l"
proof -
  have "0 < unat b" using assms(2) by (simp add: unat_gt_0)
  then have "1 * 256 ^ length bs \<le> unat b * 256 ^ length bs"
    by (intro mult_le_mono1) simp
  then have "256 ^ length bs \<le> fromBigEndian_bigint l"
    unfolding assms(1) fromBigEndian_bigint_Cons by linarith
  with fromBigEndian_bigint_less [of l] show ?thesis
    using assms(1) by (simp add: bytesRequired_unique)
qed

lemma long_prefix_canonical:
  assumes d: "d = h # t" and "unat h = base + 55 + k" and "0 < k" and k: "k \<le> length t"
    and nz: "t ! 0 \<noteq> 0" and ret: "ret = fromBigEndian_bigint (take k t)" and "56 \<le> ret"
    and len: "length d = 1 + k + ret"
  shows "d = len_prefix base (length (drop k t)) @ drop k t"
proof -
  have r: "length (drop k t) = ret" using d len by simp
  obtain b bs where b: "take k t = b # bs" "b \<noteq> 0"
    using assms(3) k nz by (cases t; cases k) auto
  have br: "bytesRequired ret = k"
    using bytesRequired_lead [OF b] k by (simp add: ret)
  have "toBigEndian k ret = take k t"
    using toBigEndian_fromBigEndian [of "take k t"] k by (simp add: ret)
  moreover have "h = word_of_nat (base + 55 + k)"
    by (metis assms(2) word_of_nat_unat)
  ultimately show ?thesis
    using r br assms(7) by (simp add: len_prefix_def d)
qed

lemma short_prefix_canonical:
  assumes "d = h # t" and "unat h = base + n" and "n < 56" and "length d = 1 + n"
  shows "d = len_prefix base (length t) @ t"
proof -
  have "h = word_of_nat (base + n)" by (metis assms(2) word_of_nat_unat)
  then show ?thesis using assms by (simp add: len_prefix_def)
qed

lemma actualSize_data_canonical:
  assumes a: "actualSize d = Inr (length d)" and "isData d"
  shows "\<exists>b. d = encode (Data b)"
proof -
  obtain h t where d: "d = h # t" and h: "unat h < 192"
    using assms(2) by (cases d) (auto simp: isData_def isNull_def)
  consider "unat h < 128" | "128 \<le> unat h" "unat h \<le> 183" | "183 < unat h" by linarith
  then show ?thesis
  proof cases
    case 1
    then have "t = []" using a d by (simp add: actualSize_def isNull_def isSingleByte_def)
    then have "d = encode (Data [h])" using 1 d by simp
    then show ?thesis by blast
  next
    case 2
    define n where "n = unat h - 128"
    then have n: "unat h = 128 + n" "n < 56" using 2 by auto
    have "length d = 1 + n" and "\<not> (n = 1 \<and> (length t < 1 \<or> unat (t ! 0) < 128))"
      using a n d by (auto simp: actualSize_def rlp_prefix_defs res_bind_Inr_iff split: if_splits)
    moreover from this(1) have "d = len_prefix 128 (length t) @ t"
      by (rule short_prefix_canonical [OF d n])
    moreover have "length t = n" using calculation(1) d by simp
    ultimately have "d = encode (Data t)" by (cases t) auto
    then show ?thesis by blast
  next
    case 3
    let ?k = "unat h - 183" and ?ret = "read_length d (unat h - 183)"
    have l: "rlp_length d = Inr ?ret" "?k \<le> length t" "t ! 0 \<noteq> 0" "56 \<le> ?ret"
      and len: "length d = 1 + ?k + ?ret"
      using a 3 h d
      by (auto simp: actualSize_def rlp_length_def requireGood_def isNull_def isSingleByte_def isData_def
          payloadOffset_def lengthSize_def Let_def res_bind_Inr_iff split: if_splits)
    have "d = len_prefix 128 (length (drop ?k t)) @ drop ?k t"
      using long_prefix_canonical [OF d _ _ l(2,3) _ l(4) len, of 128] 3
      by (simp add: read_length_def d)
    moreover have "length (drop ?k t) = ?ret" using len d by simp
    ultimately have "d = encode (Data (drop ?k t))" using l(4) by simp
    then show ?thesis by blast
  qed
qed

lemma actualSize_list_canonical:
  assumes a: "actualSize d = Inr (length d)" and "isList d"
  shows "\<exists>p. d = len_prefix 192 (length p) @ p"
proof -
  obtain h t where d: "d = h # t" and h: "192 \<le> unat h"
    using assms(2) by (cases d) (auto simp: isList_def isNull_def)
  show ?thesis
  proof (cases "unat h \<le> 247")
    case True
    then have n: "unat h = 192 + (unat h - 192)" "unat h - 192 < 56" using h by auto
    have "length d = 1 + (unat h - 192)"
      using a h d True by (auto simp: actualSize_def rlp_prefix_defs res_bind_Inr_iff split: if_splits)
    then show ?thesis
      using short_prefix_canonical [OF d n] by blast
  next
    case False
    let ?k = "unat h - 247" and ?ret = "read_length d (unat h - 247)"
    have l: "rlp_length d = Inr ?ret" "?k \<le> length t" "t ! 0 \<noteq> 0" "56 \<le> ?ret"
      and len: "length d = 1 + ?k + ?ret"
      using a False h d
      by (auto simp: actualSize_def rlp_length_def requireGood_def isNull_def isSingleByte_def isData_def
          isList_def payloadOffset_def lengthSize_def Let_def res_bind_Inr_iff split: if_splits)
    have "d = len_prefix 192 (length (drop ?k t)) @ drop ?k t"
      using long_prefix_canonical [OF d _ _ l(2,3) _ l(4) len, of 192] False
      by (simp add: read_length_def d)
    then show ?thesis by blast
  qed
qed

lemma rlp_new_VeryStrict:
  assumes "rlp_new d VeryStrict = Inr m" shows "m = d" and "actualSize d = Inr (length d)"
  using assms by (auto simp: rlp_new_def rlp_flag_defs res_bind_Inr_iff split: if_splits)

section \<open>The writer produces the format\<close>

lemma list_header_len_prefix:
  assumes "size_ok n" shows "list_header n = Inr (len_prefix 192 n)"
  using bytesRequired_size_ok [OF assms] by (simp add: list_header_def len_prefix_def Let_def)

fun append_item :: "rlp_item \<Rightarrow> rlp_stream \<Rightarrow> rlp_error + rlp_stream" where
  "append_item (Data b) s = append_bytes b False s"
| "append_item (Items xs) s =
     res_bind (appendList (length xs) s) (append_all (map append_item xs))"

lemma noteAppended_0 [simp]: "noteAppended 0 s = Inr s"
  by (simp add: noteAppended_def)

lemma appendRaw_0: "appendRaw d 0 s = Inr (s\<lparr>m_out := m_out s @ d\<rparr>)"
  by (simp add: appendRaw_def)

lemma pushCount_ok:
  assumes "size_ok n" and "base \<in> {128, 192}"
  shows "pushCount n (base + 55) s =
           Inr (s\<lparr>m_out := m_out s @ word_of_nat (base + 55 + bytesRequired n) # toBigEndian (bytesRequired n) n\<rparr>)"
  using bytesRequired_size_ok [OF assms(1)] assms(2)
  by (auto simp: pushCount_def push_byte_def pushInt_def Let_def add.commute)

lemma append_bytes_encode:
  assumes "size_ok (length b)"
  shows "append_bytes b False s = noteAppended 1 (s\<lparr>m_out := m_out s @ encode (Data b)\<rparr>)"
proof (cases "length b = 1 \<and> unat (hd b) < 128")
  case True
  then obtain x where "b = [x]" by (auto simp: length_Suc_conv)
  with True show ?thesis by (simp add: append_bytes_def)
next
  case False
  then have "\<not> (length b = 1 \<and> unat (b ! 0) < 128)" by (cases b) auto
  then show ?thesis
    using False pushCount_ok [OF assms, of 128 s]
    by (auto simp: append_bytes_def appendRaw_0 push_byte_def len_prefix_def Let_def add.commute)
qed

lemma append_all_encode:
  assumes "\<forall>x\<in>set xs. \<forall>s. f x s = noteAppended 1 (s\<lparr>m_out := m_out s @ encode x\<rparr>)" and "xs \<noteq> []"
    and "p \<le> length out"
  shows "append_all (map f xs) \<lparr>m_out = out, m_listStack = (length xs, p) # st\<rparr> =
     (let out' = out @ concat (map encode xs) in
      res_bind (list_header (length out' - p)) (\<lambda>h.
        noteAppended_loop 1 (take p out' @ h @ drop p out') st))"
  using assms
proof (induction xs arbitrary: out)
  case (Cons x xs)
  show ?case
  proof (cases xs)
    case Nil
    then show ?thesis
      using Cons.prems by (simp add: noteAppended_def Let_def res_bind_def split: sum.splits)
  next
    case (Cons y ys)
    then have "append_all (map f (x # xs)) \<lparr>m_out = out, m_listStack = (length (x # xs), p) # st\<rparr> =
        append_all (map f xs) \<lparr>m_out = out @ encode x, m_listStack = (length xs, p) # st\<rparr>"
      using Cons.prems by (simp add: noteAppended_def)
    then show ?thesis
      using Cons.IH [of "out @ encode x"] Cons.prems Cons by simp
  qed
qed simp

lemma append_item_encode:
  "size_ok (length (encode x)) \<Longrightarrow>
     append_item x s = noteAppended 1 (s\<lparr>m_out := m_out s @ encode x\<rparr>)"
proof (induction x arbitrary: s)
  case (Data b)
  then have "size_ok (length b)" using size_ok_payload [of "Data b"] by simp
  from append_bytes_encode [OF this] show ?case by simp
next
  case (Items xs)
  then have ok: "size_ok (length (concat (map encode xs)))"
    using size_ok_payload [of "Items xs"] by simp
  have IH: "\<forall>x\<in>set xs. \<forall>s. append_item x s = noteAppended 1 (s\<lparr>m_out := m_out s @ encode x\<rparr>)"
    using Items.IH size_ok_encode_member [OF ok] by blast
  show ?case
  proof (cases "xs = []")
    case True
    then show ?thesis
      by (simp add: appendList_def appendList_raw_def appendRaw_def push_byte_def len_prefix_def
          res_bind_def split: sum.splits)
  next
    case False
    have "append_item (Items xs) s =
        append_all (map append_item xs) \<lparr>m_out = m_out s, m_listStack = (length xs, length (m_out s)) # m_listStack s\<rparr>"
      using False by (cases s) (simp add: appendList_def)
    also have "\<dots> = noteAppended 1 (s\<lparr>m_out := m_out s @ encode (Items xs)\<rparr>)"
      using append_all_encode [OF IH False order_refl] list_header_len_prefix [OF ok]
      by (simp add: Let_def noteAppended_def)
    finally show ?thesis .
  qed
qed

lemma toBigEndian_bytesRequired_small:
  "0 < i \<Longrightarrow> i < 256 \<Longrightarrow> toBigEndian (bytesRequired i) i = [word_of_nat i]"
  by (simp add: bytesRequired_pos)

lemma append_int_encode:
  assumes "size_ok (bytesRequired i)"
  shows "append_int i s =
     noteAppended 1 (s\<lparr>m_out := m_out s @ encode (Data (toBigEndian (bytesRequired i) i))\<rparr>)"
proof -
  consider "i = 0" | "0 < i" "i < 128" | "128 \<le> i" by linarith
  then show ?thesis
  proof cases
    case 1
    then show ?thesis by (simp add: append_int_def push_byte_def len_prefix_def)
  next
    case 2
    then show ?thesis
      by (simp add: append_int_def push_byte_def toBigEndian_bytesRequired_small)
  next
    case 3
    let ?b = "toBigEndian (bytesRequired i) i"
    have "\<not> (length ?b = 1 \<and> unat (hd ?b) < 128)"
    proof
      assume a: "length ?b = 1 \<and> unat (hd ?b) < 128"
      then have "i < 256" using less_pow_bytesRequired [of i] by simp
      with 3 a show False by (simp add: toBigEndian_bytesRequired_small)
    qed
    then have e: "encode (Data ?b) = len_prefix 128 (bytesRequired i) @ ?b" by simp
    show ?thesis
      unfolding e using 3 bytesRequired_size_ok [OF assms]
      by (simp add: append_int_def push_byte_def pushInt_def len_prefix_def Let_def add.commute)
  qed
qed

section \<open>Properties\<close>

text \<open>C3: the writer implements the format.  Appending a tree of byte strings of any shape to an
  \<^verbatim>\<open>RLPStream\<close> (strings by \<^verbatim>\<open>append\<close>, lists by \<^verbatim>\<open>appendList\<close> and
  their elements) closes every list it opens, back-patches the length prefixes in
  \<^verbatim>\<open>noteAppended\<close>, and \<^verbatim>\<open>out()\<close> returns exactly the encoding of
  the tree; no exception is thrown.\<close>

theorem rlp_stream_encodes:
  assumes "size_ok (length (encode x))"
  shows "res_bind (append_item x empty_stream) stream_out = Inr (encode x)"
  using append_item_encode [OF assms, of empty_stream]
  by (simp add: empty_stream_def noteAppended_def stream_out_def)

theorem rlp_stream_encodes_witness:
  "res_bind (append_item (Items [Data [1], Items [], Data [0x80, 2]]) empty_stream) stream_out =
     Inr [0xc5, 1, 0xc0, 0x82, 0x80, 2]"
  using rlp_stream_encodes [of "Items [Data [1], Items [], Data [0x80, 2]]"]
  by (simp add: len_prefix_def size_ok_def)

text \<open>Reading a byte string back.  Whatever follows it, \<^verbatim>\<open>toBytes\<close> of an encoded
  string returns the string, for every combination of flags, and
  \<^verbatim>\<open>sizeAsEncoded\<close> is the number of bytes of its encoding.\<close>

theorem rlp_read_data:
  assumes "size_ok (length b)"
  shows "toBytes (encode (Data b) @ r) flags = Inr b
    \<and> sizeAsEncoded (encode (Data b) @ r) = Inr (length (encode (Data b)))"
  using toBytes_encode [OF assms] sizeAsEncoded_encode [of "Data b" r] assms
  by (simp del: encode.simps)

theorem rlp_read_data_witness:
  "toBytes [0x82, 7, 8, 9] VeryStrict = Inr [7, 8] \<and> sizeAsEncoded [0x82, 7, 8, 9] = Inr 3"
  using rlp_read_data [of "[7, 8]" "[9]" VeryStrict] by (simp add: size_ok_def len_prefix_def)

text \<open>C5: the subscript cache is transparent.  Any sequence of \<^verbatim>\<open>operator[]\<close> calls on
  one \<^verbatim>\<open>RLP\<close> object over an encoded list, in any order, each starting from the cache
  the call before it left, returns the encodings of the indexed items, and the null
  \<^verbatim>\<open>RLP\<close> for an index past the end.\<close>

theorem rlp_subscripts:
  assumes "size_ok (length (concat (map encode xs)))"
  shows "subscripts (encode (Items xs) @ r) fresh_cache is =
           map (\<lambda>i. Inr (if i < length xs then encode (xs ! i) else [])) is"
proof -
  have "length xs < 2 ^ 64"
    using length_le_concat_encode [of xs] assms by (simp add: size_ok_def)
  then show ?thesis
    using subscripts_encode [OF assms cache_ok_fresh] by blast
qed

theorem rlp_subscripts_witness:
  "subscripts [0xc3, 5, 0x81, 0x80] fresh_cache [1, 0, 2, 1] =
     [Inr [0x81, 0x80], Inr [5], Inr [], Inr [0x81, 0x80]]"
  using rlp_subscripts [of "[Data [5], Data [0x80]]" "[]" "[1, 0, 2, 1]"]
  by (simp add: size_ok_def len_prefix_def)

text \<open>Iteration.  \<^verbatim>\<open>toList\<close> over the data of an encoded list returns, after
  finitely many steps, the encodings of the items in order.  If anything follows the list in the
  data, the iterator never equals \<^verbatim>\<open>end()\<close> and the loop does not end.\<close>

theorem rlp_toList:
  assumes "size_ok (length (concat (map encode xs)))"
  shows "toList (encode (Items xs) @ r) flags =
           (if r = [] then Some (Inr (map encode xs)) else None)"
  using toList_encode [OF assms] toList_trailing [OF assms, of r] by simp

theorem rlp_toList_witness:
  "toList [0xc3, 5, 0x81, 0x80] Strict = Some (Inr [[5], [0x81, 0x80]])
    \<and> toList [0xc3, 5, 0x81, 0x80, 1] Strict = None"
  using rlp_toList [of "[Data [5], Data [0x80]]" "[]" Strict]
    rlp_toList [of "[Data [5], Data [0x80]]" "[1]" Strict]
  by (simp add: size_ok_def len_prefix_def)

text \<open>Integers round-trip.  For every 256-bit integer, \<^verbatim>\<open>rlp(v)\<close> succeeds and
  \<^verbatim>\<open>toInt<u256>\<close> of the result is the integer again, for every combination of flags,
  the strict ones included.\<close>

theorem rlp_int_roundtrip:
  "res_bind (rlp_int (unat v)) (\<lambda>d. toInt_u256 d flags) = Inr v"
proof -
  let ?n = "unat v"
  let ?b = "toBigEndian (bytesRequired ?n) ?n"
  have br: "bytesRequired ?n \<le> 32"
    using unat_u256_less [of v] by (simp add: bytesRequired_le_iff)
  then have ok: "size_ok (bytesRequired ?n)" by (simp add: size_ok_def)
  have w: "rlp_int ?n = Inr (encode (Data ?b))"
    using append_int_encode [OF ok, of empty_stream]
    by (simp add: rlp_int_def empty_stream_def noteAppended_def stream_out_def del: encode.simps)
  have "toInt_payload 32 (encode (Data ?b)) flags = Inr (Some ?b)"
    using toInt_payload_encode [OF _ ok br, of "[]" flags] toInt_payload_zero [of 32 "[]" flags]
    by (cases "?n = 0") (simp_all del: encode.simps)
  moreover have "(fromBigEndian ?b :: u256) = v"
    using less_pow_bytesRequired [of ?n]
    by (simp add: fromBigEndian_word fromBigEndian_toBigEndian_mod)
  ultimately show ?thesis by (simp add: w toInt_u256_def toInt_def)
qed

text \<open>C4: strict reading is canonical.  Every non-empty byte string that the constructor accepts
  under \<^verbatim>\<open>VeryStrict\<close> is the encoding the writer would produce: an item that is data
  is the encoding of exactly one byte string, and a list is the one length prefix of its payload
  followed by the payload.\<close>

theorem rlp_strict_canonical:
  assumes "rlp_new d VeryStrict = Inr m" and "d \<noteq> []"
  shows "(\<exists>b. d = encode (Data b)) \<or> (\<exists>p. d = len_prefix 192 (length p) @ p)"
proof -
  have "isData d \<or> isList d" using assms(2) by (auto simp: isData_def isList_def isNull_def)
  then show ?thesis
    using actualSize_data_canonical actualSize_list_canonical rlp_new_VeryStrict(2) [OF assms(1)]
    by blast
qed

theorem rlp_strict_canonical_witness:
  "(\<exists>b. [0x82, 7, 8] = encode (Data b)) \<or> (\<exists>p. [0x82, 7, 8] = len_prefix 192 (length p) @ p)"
  using rlp_strict_canonical [of "[0x82, 7, 8]" "[0x82, 7, 8]"]
  by (simp add: rlp_new_def actualSize_def rlp_prefix_defs rlp_flag_defs)

text \<open>A failed subscript poisons the cache.  On the list whose first item is well formed and
  whose second is not, asking for item 0 succeeds, asking for item 1 throws, and asking for item
  0 again then throws too: \<^verbatim>\<open>operator[]\<close> overwrites \<^verbatim>\<open>m_lastItem\<close>
  before the call that throws and does not restore it.\<close>

theorem rlp_subscript_after_error:
  "subscripts [0xc3, 5, 0x81, 0x01] fresh_cache [0, 1, 0] = [Inr [5], Inl BadRLP, Inl BadRLP]"
  by (simp add: subscript_def subscript_rewind_def subscript_loop.simps fresh_cache_def payload_def
      sizeAsEncoded_def rlp_new_def actualSize_def rlp_prefix_defs rlp_flag_defs cropped_def
      cropped_from_def Let_def)
end
