(* ===== verification/Hex_Prefix.thy ===== *)
theory Hex_Prefix
  imports Rlp "HOL-Library.Sublist"
begin

text \<open>
  \<^verbatim>\<open>libdevcore/TrieCommon.h\<close> and \<^verbatim>\<open>TrieCommon.cpp\<close>: nibble views of
  byte strings and the hex-prefix notation of trie keys.  The specification is on lists of nibbles:
  the operations of \<^verbatim>\<open>NibbleSlice\<close> are the prefix and lexicographic relations on them, the
  three overloads of \<^verbatim>\<open>hexPrefixEncode\<close> are one function of them, and
  \<^verbatim>\<open>keyOf\<close> inverts it.
\<close>

section \<open>Nibble slices\<close>

text \<open>Reading past the data is undefined in the source; the loops below never do it on a slice
  whose offset is inside its data.\<close>

definition nibble :: "bytes \<Rightarrow> nat \<Rightarrow> byte" where
  "nibble d i = (if odd i then d ! (i div 2) AND 15 else drop_bit 4 (d ! (i div 2)))"

function sharedNibbles :: "bytes \<Rightarrow> nat \<Rightarrow> nat \<Rightarrow> bytes \<Rightarrow> nat \<Rightarrow> nat \<Rightarrow> nat" where
  "sharedNibbles f bf ef s bs es =
     (if bf < ef \<and> bs < es \<and> nibble f bf = nibble s bs
      then Suc (sharedNibbles f (Suc bf) ef s (Suc bs) es) else 0)"
  by pat_completeness auto

termination sharedNibbles
  by (relation "measure (\<lambda>(f, bf, ef, s, bs, es). ef - bf)") auto

declare sharedNibbles.simps [simp del]

record nibble_slice =
  ns_data :: bytes
  ns_offset :: nat

definition slice_at :: "nibble_slice \<Rightarrow> nat \<Rightarrow> byte" where
  "slice_at s i = nibble (ns_data s) (ns_offset s + i)"

text \<open>\<^verbatim>\<open>size()\<close> subtracts in \<^verbatim>\<open>unsigned\<close>, modulo \<open>2 ^ 32\<close>.\<close>

definition slice_size :: "nibble_slice \<Rightarrow> nat" where
  "slice_size s = nat ((int (length (ns_data s)) * 2 - int (ns_offset s)) mod 2 ^ 32)"

definition slice_empty :: "nibble_slice \<Rightarrow> bool" where
  "slice_empty s = (slice_size s = 0)"

definition slice_mid :: "nibble_slice \<Rightarrow> nat \<Rightarrow> nibble_slice" where
  "slice_mid s i = \<lparr>ns_data = ns_data s, ns_offset = ns_offset s + i\<rparr>"

definition slice_clear :: "nibble_slice \<Rightarrow> nibble_slice" where
  "slice_clear s = \<lparr>ns_data = [], ns_offset = 0\<rparr>"

definition slice_shared :: "nibble_slice \<Rightarrow> nibble_slice \<Rightarrow> nat" where
  "slice_shared s k =
     sharedNibbles (ns_data s) (ns_offset s) (ns_offset s + slice_size s)
       (ns_data k) (ns_offset k) (ns_offset k + slice_size k)"

definition slice_contains :: "nibble_slice \<Rightarrow> nibble_slice \<Rightarrow> bool" where
  "slice_contains s k = (slice_shared s k = slice_size k)"

definition slice_eq :: "nibble_slice \<Rightarrow> nibble_slice \<Rightarrow> bool" where
  "slice_eq s k = (slice_size k = slice_size s \<and> slice_shared s k = slice_size k)"

function earlier_loop :: "nibble_slice \<Rightarrow> nibble_slice \<Rightarrow> nat \<Rightarrow> bool" where
  "earlier_loop s k i =
     (if i < slice_size k \<and> i < slice_size s then
        (if slice_at s i < slice_at k i then True
         else if slice_at s i > slice_at k i then False
         else earlier_loop s k (Suc i))
      else if i \<ge> slice_size k then False
      else True)"
  by pat_completeness auto

termination earlier_loop
  by (relation "measure (\<lambda>(s, k, i). slice_size k - i)") auto

declare earlier_loop.simps [simp del]

definition isEarlierThan :: "nibble_slice \<Rightarrow> nibble_slice \<Rightarrow> bool" where
  "isEarlierThan s k = earlier_loop s k 0"

section \<open>Hex-prefix notation\<close>

definition hp_first :: "bool \<Rightarrow> bool \<Rightarrow> byte" where
  "hp_first leaf od = ((if leaf then 2 else 0) OR (if od then 1 else 0)) * 16"

text \<open>The overload on a vector of nibbles; a negative \<^verbatim>\<open>_end\<close> counts from the back.
  In all three overloads the bounds of the loops are \<^verbatim>\<open>unsigned\<close>: they are taken modulo
  \<open>2 ^ 32\<close>.  The counters of the loops do not wrap, since they are below an \<^verbatim>\<open>unsigned\<close>
  end when they are increased (and, where the step is two, at an even distance from it).\<close>

function hp_vector_loop :: "bytes \<Rightarrow> nat \<Rightarrow> nat \<Rightarrow> bytes \<Rightarrow> bytes" where
  "hp_vector_loop v i e ret =
     (if i < e then hp_vector_loop v (i + 2) e (ret @ [v ! i * 16 + v ! (i + 1)]) else ret)"
  by pat_completeness auto

termination hp_vector_loop
  by (relation "measure (\<lambda>(v, i, e, ret). e - i)") auto

declare hp_vector_loop.simps [simp del]

definition hexPrefixEncode_vector :: "bytes \<Rightarrow> bool \<Rightarrow> nat \<Rightarrow> int \<Rightarrow> bytes" where
  "hexPrefixEncode_vector v leaf bn en =
     (let b = bn mod 2 ^ 32;
          e = nat ((if en < 0 then int (length v) + 1 + en else en) mod 2 ^ 32);
          od = ((int e - int b) mod 2 \<noteq> 0);
          ret = hp_first leaf od
      in if od then hp_vector_loop v (Suc b mod 2 ^ 32) e [ret OR v ! b]
         else hp_vector_loop v b e [ret])"

text \<open>The loop of the other two overloads: one nibble, on to the back byte or a new one.\<close>

definition push_nibble :: "nat \<Rightarrow> byte \<Rightarrow> bytes \<Rightarrow> bytes" where
  "push_nibble d n ret =
     (if odd d then ret[length ret - 1 := last ret OR n] else ret @ [push_bit 4 n])"

function hp_loop :: "bytes \<Rightarrow> nat \<Rightarrow> nat \<Rightarrow> nat \<Rightarrow> bytes \<Rightarrow> nat \<times> bytes" where
  "hp_loop dat i e d ret =
     (if i < e then hp_loop dat (Suc i) e (Suc d) (push_nibble d (nibble dat i) ret)
      else (d, ret))"
  by pat_completeness auto

termination hp_loop
  by (relation "measure (\<lambda>(dat, i, e, d, ret). e - i)") auto

declare hp_loop.simps [simp del]

definition hexPrefixEncode_range :: "bytes \<Rightarrow> bool \<Rightarrow> nat \<Rightarrow> int \<Rightarrow> nat \<Rightarrow> bytes" where
  "hexPrefixEncode_range dat leaf bn en off =
     (let b = (bn + off) mod 2 ^ 32;
          e = nat (((if en < 0 then int (length dat * 2) - int off + 1 + en else en) + int off) mod 2 ^ 32);
          od = ((int e - int b) mod 2 = 1)
      in snd (hp_loop dat b e (if od then 1 else 2) [hp_first leaf od]))"

definition hexPrefixEncode_two :: "bytes \<Rightarrow> nat \<Rightarrow> bytes \<Rightarrow> nat \<Rightarrow> bool \<Rightarrow> bytes" where
  "hexPrefixEncode_two d1 o1 d2 o2 leaf =
     (let e1 = length d1 * 2 mod 2 ^ 32; e2 = length d2 * 2 mod 2 ^ 32;
          od = ((int e1 - int o1 + int e2 - int o2) mod 2 = 1);
          (d, ret) = hp_loop d1 o1 e1 (if od then 1 else 2) [hp_first leaf od]
      in snd (hp_loop d2 o2 e2 d ret))"

definition hexPrefixEncode_slice :: "nibble_slice \<Rightarrow> bool \<Rightarrow> nat \<Rightarrow> int \<Rightarrow> bytes" where
  "hexPrefixEncode_slice s leaf b e = hexPrefixEncode_range (ns_data s) leaf b e (ns_offset s)"

definition hexPrefixEncode_slices :: "nibble_slice \<Rightarrow> nibble_slice \<Rightarrow> bool \<Rightarrow> bytes" where
  "hexPrefixEncode_slices s1 s2 leaf =
     hexPrefixEncode_two (ns_data s1) (ns_offset s1) (ns_data s2) (ns_offset s2) leaf"

definition keyOf :: "bytes \<Rightarrow> nibble_slice" where
  "keyOf h =
     (if length h = 0 then \<lparr>ns_data = h, ns_offset = 0\<rparr>
      else if h ! 0 AND 0x10 \<noteq> 0 then \<lparr>ns_data = h, ns_offset = 1\<rparr>
      else \<lparr>ns_data = h, ns_offset = 2\<rparr>)"

text \<open>The flag test of \<^verbatim>\<open>isLeaf\<close>, and the two functions on the \<^verbatim>\<open>RLP\<close> of a
  two-item node.\<close>

definition isLeaf_payload :: "bytes \<Rightarrow> bool" where
  "isLeaf_payload pl = (pl ! 0 AND 0x20 \<noteq> 0)"

definition isLeaf :: "bytes \<Rightarrow> rlp_error + bool" where
  "isLeaf d = res_bind (rlp_nth d 0) (\<lambda>k. res_bind (payload k) (\<lambda>pl. Inr (isLeaf_payload pl)))"

definition keyOf_rlp :: "bytes \<Rightarrow> rlp_error + nibble_slice" where
  "keyOf_rlp d = res_bind (rlp_nth d 0) (\<lambda>k. res_bind (payload k) (\<lambda>pl. Inr (keyOf pl)))"

function uniqueInUse_loop :: "bytes \<Rightarrow> rlp_cache \<Rightarrow> nat \<Rightarrow> nat \<Rightarrow> nat \<Rightarrow> rlp_error + nat" where
  "uniqueInUse_loop d c except i used =
     (if i < 17 then
        (if i \<noteq> except then
           (case subscript d c i of
              (Inl e, _) \<Rightarrow> Inl e
            | (Inr r, c') \<Rightarrow>
                (if \<not> isEmpty r then
                   (if used = 255 then uniqueInUse_loop d c' except (Suc i) i else Inr 255)
                 else uniqueInUse_loop d c' except (Suc i) used))
         else uniqueInUse_loop d c except (Suc i) used)
      else Inr used)"
  by pat_completeness auto

termination uniqueInUse_loop
  by (relation "measure (\<lambda>(d, c, ex, i, used). 17 - i)") auto

declare uniqueInUse_loop.simps [simp del]

definition uniqueInUse :: "bytes \<Rightarrow> byte \<Rightarrow> rlp_error + nat" where
  "uniqueInUse d except = uniqueInUse_loop d fresh_cache (unat except) 0 255"

section \<open>Lists of nibbles\<close>

definition slice_wf :: "nibble_slice \<Rightarrow> bool" where
  "slice_wf s = (ns_offset s \<le> 2 * length (ns_data s) \<and> length (ns_data s) < 2 ^ 31)"

definition nibbles_of :: "nibble_slice \<Rightarrow> bytes" where
  "nibbles_of s = map (nibble (ns_data s)) [ns_offset s ..< 2 * length (ns_data s)]"

fun pack :: "bytes \<Rightarrow> bytes" where
  "pack (a # b # ns) = (a * 16 + b) # pack ns"
| "pack ns = []"

definition hex_prefix :: "bool \<Rightarrow> bytes \<Rightarrow> bytes" where
  "hex_prefix leaf ns =
     (let f = (if leaf then 2 else 0)
      in if odd (length ns) then ((f + 1) * 16 + hd ns) # pack (tl ns) else (f * 16) # pack ns)"

lemma slice_size_wf: "slice_wf s \<Longrightarrow> slice_size s = 2 * length (ns_data s) - ns_offset s"
  by (simp add: slice_size_def slice_wf_def nat_mod_distrib int_ops(6) [symmetric] mod_pos_pos_trivial)

lemma length_nibbles_of: "slice_wf s \<Longrightarrow> length (nibbles_of s) = slice_size s"
  by (simp add: nibbles_of_def slice_size_wf)

lemma nth_nibbles_of: "i < 2 * length (ns_data s) - ns_offset s \<Longrightarrow> nibbles_of s ! i = slice_at s i"
  by (simp add: nibbles_of_def slice_at_def)

lemma byte_less_iff: "a < b \<longleftrightarrow> unat a < unat (b :: byte)"
  by (simp add: word_less_nat_alt)

lemma unat_and_15: "unat (b AND 15 :: byte) = unat b mod 16"
proof -
  have "b AND 15 = take_bit 4 b"
    by (simp add: take_bit_eq_mask mask_eq_exp_minus_1)
  then show ?thesis
    by (simp add: take_bit_eq_mod unat_mod)
qed

lemma unat_shift_4: "unat (drop_bit 4 b :: byte) = unat b div 16"
  by (simp add: drop_bit_eq_div unat_div)

lemma nibble_less_16: "unat (nibble d i) < 16"
  using unat_byte_less [of "d ! (i div 2)"]
  by (auto simp: nibble_def unat_and_15 unat_shift_4 div_less_iff_less_mult)

lemma nibbles_of_less_16: "n \<in> set (nibbles_of s) \<Longrightarrow> unat n < 16"
  by (auto simp: nibbles_of_def nibble_less_16)

lemma nibble_or:
  fixes n m :: byte
  assumes "unat m < 16"
  shows "push_bit 4 n OR m = n * 16 + m" and "n * 16 OR m = n * 16 + m"
proof -
  have m: "take_bit 4 m = m"
    using assms by (simp flip: unat_eq_iff add: unsigned_take_bit_eq take_bit_nat_eq_self)
  have "push_bit 4 n AND m = 0"
    by (subst m [symmetric]) (auto intro!: bit_eqI simp: bit_simps)
  then have "push_bit 4 n OR m = push_bit 4 n + m"
    by (simp add: disjunctive_add_eq_or)
  moreover have "push_bit 4 n = n * 16" by (simp add: push_bit_eq_mult)
  ultimately show "push_bit 4 n OR m = n * 16 + m" and "n * 16 OR m = n * 16 + m" by simp_all
qed

lemma hp_first_eq: "hp_first leaf od = ((if leaf then 2 else 0) + (if od then 1 else 0)) * 16"
  by (auto simp: hp_first_def)

lemma sharedNibbles_eq:
  "sharedNibbles f bf ef s bs es =
     length (longest_common_prefix (map (nibble f) [bf..<ef]) (map (nibble s) [bs..<es]))"
proof (induction f bf ef s bs es rule: sharedNibbles.induct)
  case (1 f bf ef s bs es)
  show ?case
  proof (cases "bf < ef \<and> bs < es")
    case True
    then show ?thesis
      using 1 by (subst sharedNibbles.simps) (simp add: upt_conv_Cons)
  next
    case False
    then have "map (nibble f) [bf..<ef] = [] \<or> map (nibble s) [bs..<es] = []" by auto
    then show ?thesis
      using False by (subst sharedNibbles.simps) auto
  qed
qed

lemma slice_shared_eq:
  assumes "slice_wf s" and "slice_wf k"
  shows "slice_shared s k = length (longest_common_prefix (nibbles_of s) (nibbles_of k))"
  using assms
  by (simp add: slice_shared_def sharedNibbles_eq nibbles_of_def slice_size_wf slice_wf_def)

lemma length_lcp_eq_iff: "length (longest_common_prefix xs ys) = length ys \<longleftrightarrow> prefix ys xs"
proof
  assume l: "length (longest_common_prefix xs ys) = length ys"
  have "prefix (longest_common_prefix xs ys) ys" by (rule longest_common_prefix_prefix2)
  then have "longest_common_prefix xs ys = ys" using l by (metis append_eq_conv_conj prefix_def take_all_iff order_refl)
  then show "prefix ys xs" by (metis longest_common_prefix_prefix1)
next
  assume "prefix ys xs"
  then have "prefix ys (longest_common_prefix xs ys)"
    by (intro longest_common_prefix_max_prefix) auto
  then show "length (longest_common_prefix xs ys) = length ys"
    using longest_common_prefix_prefix2 [of xs ys] by (simp add: prefix_length_le dual_order.antisym)
qed

lemma slice_contains_iff:
  assumes "slice_wf s" and "slice_wf k"
  shows "slice_contains s k \<longleftrightarrow> prefix (nibbles_of k) (nibbles_of s)"
  using assms by (simp add: slice_contains_def slice_shared_eq length_lcp_eq_iff
      flip: length_nibbles_of)

lemma slice_eq_iff:
  assumes "slice_wf s" and "slice_wf k"
  shows "slice_eq s k \<longleftrightarrow> nibbles_of s = nibbles_of k"
proof -
  have "slice_eq s k \<longleftrightarrow> length (nibbles_of k) = length (nibbles_of s) \<and> prefix (nibbles_of k) (nibbles_of s)"
    using assms by (simp add: slice_eq_def slice_shared_eq length_lcp_eq_iff flip: length_nibbles_of)
  then show ?thesis
    by (metis append_eq_conv_conj prefix_def prefix_order.refl take_all_iff order_refl)
qed

lemma earlier_loop_lexordp:
  assumes "slice_wf s" and "slice_wf k"
  shows "earlier_loop s k i \<longleftrightarrow> ord_class.lexordp (drop i (nibbles_of s)) (drop i (nibbles_of k))"
  using assms
proof (induction s k i rule: earlier_loop.induct)
  case (1 s k i)
  note len = length_nibbles_of [OF 1(2)] length_nibbles_of [OF 1(3)]
  show ?case
  proof (cases "i < slice_size k \<and> i < slice_size s")
    case True
    then have "drop i (nibbles_of s) = slice_at s i # drop (Suc i) (nibbles_of s)"
      and "drop i (nibbles_of k) = slice_at k i # drop (Suc i) (nibbles_of k)"
      using 1(2,3) len nth_nibbles_of [of i s] nth_nibbles_of [of i k]
      by (simp_all add: Cons_nth_drop_Suc [symmetric] slice_size_wf)
    then show ?thesis
      using 1 True by (subst earlier_loop.simps) auto
  next
    case False
    then show ?thesis
      using len by (subst earlier_loop.simps) (cases "drop i (nibbles_of k)"; force)
  qed
qed

subsection \<open>The encoders\<close>

fun push_nibbles :: "nat \<Rightarrow> bytes \<Rightarrow> bytes \<Rightarrow> bytes" where
  "push_nibbles d [] ret = ret"
| "push_nibbles d (n # ns) ret = push_nibbles (Suc d) ns (push_nibble d n ret)"

lemma push_nibbles_append:
  "push_nibbles d (xs @ ys) ret = push_nibbles (d + length xs) ys (push_nibbles d xs ret)"
  by (induction xs arbitrary: d ret) auto

lemma hp_loop_push_nibbles:
  "hp_loop dat i e d ret =
     (d + length [i..<e], push_nibbles d (map (nibble dat) [i..<e]) ret)"
proof (induction dat i e d ret rule: hp_loop.induct)
  case (1 dat i e d ret)
  then show ?case
    by (subst hp_loop.simps) (auto simp: upt_conv_Cons)
qed

lemma push_nibbles_pack:
  assumes "\<forall>n\<in>set ns. unat n < 16" and "even (length ns)" and "even d" and "ret \<noteq> []"
  shows "push_nibbles d ns ret = ret @ pack ns"
  using assms
proof (induction ns arbitrary: d ret rule: pack.induct)
  case (1 a b ns)
  then show ?case by (simp add: push_nibble_def nibble_or)
qed simp_all

lemma push_nibbles_hex_prefix:
  assumes "\<forall>n\<in>set ns. unat n < 16"
  shows "push_nibbles (if odd (length ns) then 1 else 2) ns [hp_first leaf (odd (length ns))] =
           hex_prefix leaf ns"
proof (cases "odd (length ns)")
  case True
  then obtain n ns' where "ns = n # ns'" by (cases ns) auto
  then show ?thesis
    using assms True
      nibble_or(2) [of n "3"] nibble_or(2) [of n "1"]
    by (auto simp: push_nibble_def hp_first_eq push_nibbles_pack hex_prefix_def Let_def)
next
  case False
  then show ?thesis
    using assms by (simp add: hp_first_eq push_nibbles_pack hex_prefix_def Let_def)
qed

lemma int_diff_mod2: "b \<le> e \<Longrightarrow> (int e - int b) mod 2 = (if odd (e - b) then 1 else 0)"
  by (simp add: mod_2_eq_odd del: of_nat_diff flip: of_nat_diff)

lemma hexPrefixEncode_range_eq:
  assumes "b + off \<le> e" and "e < 2 ^ 32"
    and "int e = (if en < 0 then int (length dat * 2) - int off + 1 + en else en) + int off"
  shows "hexPrefixEncode_range dat leaf b en off = hex_prefix leaf (map (nibble dat) [b + off..<e])"
proof -
  let ?ns = "map (nibble dat) [b + off..<e]"
  have od: "(int e - int (b + off)) mod 2 = 1 \<longleftrightarrow> odd (length ?ns)"
    using int_diff_mod2 [OF assms(1)] by simp
  have "\<forall>n\<in>set ?ns. unat n < 16" by (auto simp: nibble_less_16)
  from push_nibbles_hex_prefix [OF this, of leaf] show ?thesis
    using assms(1,2)
    by (simp add: hexPrefixEncode_range_def assms(3) [symmetric] od [simplified] nat_mod_distrib hp_loop_push_nibbles)
qed

lemma hexPrefixEncode_slice_eq:
  assumes "slice_wf s" and "b \<le> length (nibbles_of s)"
  shows "hexPrefixEncode_slice s leaf b (- 1) = hex_prefix leaf (drop b (nibbles_of s))"
proof -
  have b: "b + ns_offset s \<le> 2 * length (ns_data s)" "2 * length (ns_data s) < 2 ^ 32"
    using assms by (auto simp: nibbles_of_def slice_wf_def)
  show ?thesis
    unfolding hexPrefixEncode_slice_def
    by (subst hexPrefixEncode_range_eq [OF b])
      (simp_all add: nibbles_of_def drop_map add.commute)
qed

lemma hexPrefixEncode_two_eq:
  assumes "slice_wf s1" and "slice_wf s2"
  shows "hexPrefixEncode_slices s1 s2 leaf = hex_prefix leaf (nibbles_of s1 @ nibbles_of s2)"
proof -
  let ?ns = "nibbles_of s1 @ nibbles_of s2"
  let ?l1 = "length (ns_data s1) * 2" and ?l2 = "length (ns_data s2) * 2"
  have lt: "?l1 mod 2 ^ 32 = ?l1" "?l2 mod 2 ^ 32 = ?l2" using assms by (simp_all add: slice_wf_def)
  have "int ?l1 - int (ns_offset s1) + int ?l2 - int (ns_offset s2) = int (length ?ns) - int 0"
    using assms by (simp add: slice_wf_def nibbles_of_def of_nat_diff)
  then have od: "(int ?l1 - int (ns_offset s1) + int ?l2 - int (ns_offset s2)) mod 2 = 1
      \<longleftrightarrow> odd (length ?ns)"
    using int_diff_mod2 [of 0 "length ?ns"] by simp
  have "\<forall>n\<in>set ?ns. unat n < 16" using nibbles_of_less_16 by auto
  from push_nibbles_hex_prefix [OF this, of leaf] show ?thesis
    unfolding hexPrefixEncode_slices_def hexPrefixEncode_two_def Let_def lt od
    by (simp add: hp_loop_push_nibbles push_nibbles_append nibbles_of_def mult.commute)
qed

lemma take_two:
  "Suc (Suc n) \<le> length xs \<Longrightarrow> take (Suc (Suc n)) xs = xs ! 0 # xs ! 1 # take n (drop 2 xs)"
  by (cases xs; cases "tl xs") auto

lemma hp_vector_loop_pack:
  assumes "e = i + 2 * n" and "e \<le> length v"
  shows "hp_vector_loop v i e ret = ret @ pack (take (2 * n) (drop i v))"
  using assms
proof (induction n arbitrary: i ret)
  case (Suc n)
  have "take (2 * Suc n) (drop i v) = v ! i # v ! (i + 1) # take (2 * n) (drop (i + 2) v)"
    using Suc.prems take_two [of "2 * n" "drop i v"] by (simp add: hd_drop_conv_nth)
  then show ?case
    using Suc by (subst hp_vector_loop.simps) simp
qed (subst hp_vector_loop.simps, simp)

lemma hexPrefixEncode_vector_bounds:
  assumes "b \<le> e" and "int e = (if en < 0 then int (length v) + 1 + en else en)" and "e < 2 ^ 32"
  shows "hexPrefixEncode_vector v leaf b en =
      (let od = ((int e - int b) mod 2 \<noteq> 0); ret = hp_first leaf od
       in if od then hp_vector_loop v (Suc b mod 2 ^ 32) e [ret OR v ! b] else hp_vector_loop v b e [ret])"
  using assms(1,3) by (simp add: hexPrefixEncode_vector_def assms(2) [symmetric] nat_mod_distrib Let_def)

lemma hexPrefixEncode_vector_eq:
  assumes "\<forall>n\<in>set v. unat n < 16" and "b \<le> e" and "e \<le> length v"
    and "int e = (if en < 0 then int (length v) + 1 + en else en)" and "e < 2 ^ 32"
  shows "hexPrefixEncode_vector v leaf b en = hex_prefix leaf (take (e - b) (drop b v))"
proof (cases "odd (e - b)")
  case False
  then obtain n where "e = b + 2 * n" using assms(2) by (metis evenE le_add_diff_inverse)
  moreover have "\<not> (int e - int b) mod 2 \<noteq> 0" using int_diff_mod2 [OF assms(2)] False by simp
  ultimately show ?thesis
    unfolding hexPrefixEncode_vector_bounds [OF assms(2,4,5)] Let_def
    using hp_vector_loop_pack [of e b n v] assms(3)
    by (simp add: hex_prefix_def hp_first_eq)
next
  case True
  then obtain n where n: "e - b = 2 * n + 1" by (rule oddE)
  then have e: "e = Suc b + 2 * n" by simp
  have "(int e - int b) mod 2 \<noteq> 0" using int_diff_mod2 [OF assms(2)] True by simp
  moreover have v: "drop b v = v ! b # drop (Suc b) v"
    using e assms(3) by (simp add: Cons_nth_drop_Suc)
  moreover have "unat (v ! b) < 16" using assms(1,3) e by simp
  moreover have "odd (length (take (e - b) (drop b v)))" using True assms(3) by simp
  moreover have "Suc b mod 2 ^ 32 = Suc b" using e assms(5) by simp
  ultimately show ?thesis
    unfolding hexPrefixEncode_vector_bounds [OF assms(2,4,5)] Let_def
    using hp_vector_loop_pack [OF e assms(3)] nibble_or(2) [of "v ! b" "3"] nibble_or(2) [of "v ! b" "1"]
    by (auto simp: hex_prefix_def hp_first_eq n Let_def)
qed

subsection \<open>Decoding\<close>

lemma nibble_pack:
  assumes "\<forall>n\<in>set ns. unat n < 16" and "even (length ns)"
  shows "length (pack ns) = length ns div 2"
    and "i < length ns \<Longrightarrow> nibble (pack ns) i = ns ! i"
  using assms
proof (induction ns arbitrary: i rule: pack.induct)
  case (1 a b ns)
  {
    case 1
    then show ?case using "1.IH"(1) by simp
  next
    case 2
    have ab: "unat (a * 16 + b) = unat a * 16 + unat b" "unat a < 16" "unat b < 16"
      using 2 by (auto simp: unat_word_ariths)
    show ?case
    proof (cases "i < 2")
      case True
      then show ?thesis
        using ab by (cases i) (auto simp: nibble_def unat_and_15 unat_shift_4 simp flip: unat_eq_iff)
    next
      case False
      then obtain j where j: "i = Suc (Suc j)" by (metis Suc_1 add_2_eq_Suc le_Suc_ex not_less)
      then show ?thesis
        using "1.IH"(2) [of j] 2 by (auto simp: nibble_def split: if_splits)
    qed
  }
qed auto

lemma nibbles_pack:
  assumes "\<forall>n\<in>set ns. unat n < 16" and "even (length ns)"
  shows "map (nibble (pack ns)) [0..<2 * length (pack ns)] = ns"
  using nibble_pack [OF assms] assms by (intro nth_equalityI) auto

lemma nibble_Cons: "nibble (x # xs) (Suc (Suc i)) = nibble xs i"
  by (simp add: nibble_def)

lemma map_nibble_Cons:
  "map (nibble (x # xs)) [2..<2 * length (x # xs)] = map (nibble xs) [0..<2 * length xs]"
proof -
  have "[2..<2 * length (x # xs)] = map (\<lambda>i. i + 2) [0..<2 * length xs]"
    by (simp only: map_add_upt) simp
  then have "map (nibble (x # xs)) [2..<2 * length (x # xs)] =
      map (\<lambda>i. nibble (x # xs) (Suc (Suc i))) [0..<2 * length xs]"
    by (simp del: upt_Suc)
  then show ?thesis by (simp only: nibble_Cons)
qed

lemma byte_less_16_cases:
  fixes n :: byte
  assumes "unat n < 16"
  obtains "n \<in> {0, 1, 2, 3, 4, 5, 6, 7, 8, 9, 10, 11, 12, 13, 14, 15}"
proof -
  have "unat n \<in> {0, 1, 2, 3, 4, 5, 6, 7, 8, 9, 10, 11, 12, 13, 14, 15}"
    using assms by (simp only: less_16_cases)
  then have "word_of_nat (unat n) \<in> (word_of_nat ` {0, 1, 2, 3, 4, 5, 6, 7, 8, 9, 10, 11, 12, 13, 14, 15} :: byte set)"
    by (rule imageI)
  then show thesis by (intro that) simp
qed

lemma flag_bits:
  assumes "unat n < 16"
  shows "(16 + n :: byte) AND 0x10 \<noteq> 0" "(48 + n :: byte) AND 0x10 \<noteq> 0"
    "(16 + n :: byte) AND 0x20 = 0" "(48 + n :: byte) AND 0x20 \<noteq> 0" "(16 + n) AND 15 = n"
    "(48 + n) AND 15 = n"
  by (rule byte_less_16_cases [OF assms]; auto)+

lemma nibbles_of_keyOf_hex_prefix:
  assumes "\<forall>n\<in>set ns. unat n < 16"
  shows "nibbles_of (keyOf (hex_prefix leaf ns)) = ns"
proof (cases "odd (length ns)")
  case False
  then have "nibbles_of (keyOf (hex_prefix leaf ns)) =
      map (nibble ((if leaf then 32 else 0) # pack ns)) [2..<2 * length ((if leaf then 32 else 0 :: byte) # pack ns)]"
    by (auto simp: hex_prefix_def keyOf_def nibbles_of_def simp del: upt_Suc)
  then show ?thesis
    unfolding map_nibble_Cons using nibbles_pack [OF assms] False by simp
next
  case True
  then obtain n m where n: "ns = n # m" by (cases ns) auto
  define h where "h = (if leaf then 48 + n else 16 + n)"
  have n16: "unat n < 16" "\<forall>n\<in>set m. unat n < 16" using assms n by auto
  have e: "hex_prefix leaf ns = h # pack m" using True n by (simp add: hex_prefix_def h_def)
  have h: "h AND 0x10 \<noteq> 0" "h AND 15 = n" using flag_bits [OF n16(1)] by (auto simp: h_def)
  have "nibbles_of (keyOf (h # pack m)) = map (nibble (h # pack m)) [1..<2 * length (h # pack m)]"
    using h by (simp add: keyOf_def nibbles_of_def)
  also have "\<dots> = n # map (nibble (h # pack m)) [2..<2 * length (h # pack m)]"
  proof -
    have "[1..<2 * length (h # pack m)] = 1 # [2..<2 * length (h # pack m)]"
      by (subst upt_conv_Cons) (simp_all add: numeral_2_eq_2 del: upt_Suc)
    then show ?thesis using h(2) by (simp add: nibble_def del: upt_Suc)
  qed
  finally show ?thesis
    unfolding map_nibble_Cons e using nibbles_pack [OF n16(2)] True n by simp
qed

lemma isLeaf_hex_prefix:
  assumes "\<forall>n\<in>set ns. unat n < 16"
  shows "isLeaf_payload (hex_prefix leaf ns) = leaf"
proof (cases "odd (length ns)")
  case True
  then obtain n m where "ns = n # m" by (cases ns) auto
  then show ?thesis
    using assms True flag_bits [of n] by (auto simp: hex_prefix_def isLeaf_payload_def)
qed (auto simp: hex_prefix_def isLeaf_payload_def)

section \<open>Properties\<close>

text \<open>The operations of \<^verbatim>\<open>NibbleSlice\<close> are the relations on the nibble sequences they
  view: \<^verbatim>\<open>shared\<close> is the length of the longest common prefix, \<^verbatim>\<open>contains\<close> is
  the prefix relation, \<^verbatim>\<open>==\<close> is equality, and \<^verbatim>\<open>isEarlierThan\<close> is the
  strict lexicographic order (a proper prefix counts as earlier).\<close>

theorem nibble_slice_spec:
  assumes "slice_wf s" and "slice_wf k"
  shows "slice_shared s k = length (longest_common_prefix (nibbles_of s) (nibbles_of k))
    \<and> (slice_contains s k \<longleftrightarrow> prefix (nibbles_of k) (nibbles_of s))
    \<and> (slice_eq s k \<longleftrightarrow> nibbles_of s = nibbles_of k)
    \<and> (isEarlierThan s k \<longleftrightarrow> ord_class.lexordp (nibbles_of s) (nibbles_of k))"
  using slice_shared_eq [OF assms] slice_contains_iff [OF assms] slice_eq_iff [OF assms]
    earlier_loop_lexordp [OF assms, of 0]
  by (simp add: isEarlierThan_def)

theorem nibble_slice_spec_witness:
  "slice_contains \<lparr>ns_data = [0x12, 0x34], ns_offset = 1\<rparr> \<lparr>ns_data = [0x23], ns_offset = 0\<rparr>
    \<longleftrightarrow> prefix (nibbles_of \<lparr>ns_data = [0x23], ns_offset = 0\<rparr>)
          (nibbles_of \<lparr>ns_data = [0x12, 0x34], ns_offset = 1\<rparr>)"
  using nibble_slice_spec [of "\<lparr>ns_data = [0x12, 0x34], ns_offset = 1\<rparr>" "\<lparr>ns_data = [0x23], ns_offset = 0\<rparr>"]
  by (simp add: slice_wf_def)

text \<open>The three overloads of \<^verbatim>\<open>hexPrefixEncode\<close> are one function of the nibbles, as
  long as their number fits 32 bits: the vector overload on a range of the vector, the slice overload
  on the rest of a slice, and the two-slice overload on the concatenation.\<close>

theorem hexPrefixEncode_equiv:
  assumes "slice_wf s1" and "slice_wf s2" and "b \<le> length (nibbles_of s1)"
    and "length (nibbles_of s1) + length (nibbles_of s2) < 2 ^ 32"
  shows "hexPrefixEncode_slice s1 leaf b (- 1) = hexPrefixEncode_vector (nibbles_of s1) leaf b (- 1)
    \<and> hexPrefixEncode_slices s1 s2 leaf = hexPrefixEncode_vector (nibbles_of s1 @ nibbles_of s2) leaf 0 (- 1)"
proof -
  have n: "\<forall>n\<in>set (nibbles_of s1). unat n < 16" "\<forall>n\<in>set (nibbles_of s1 @ nibbles_of s2). unat n < 16"
    using nibbles_of_less_16 by auto
  show ?thesis
    using hexPrefixEncode_slice_eq [OF assms(1,3)] hexPrefixEncode_two_eq [OF assms(1,2)] assms(4)
      hexPrefixEncode_vector_eq [OF n(1) assms(3) order_refl, of "- 1" leaf]
      hexPrefixEncode_vector_eq [OF n(2) le0 order_refl, of "- 1" leaf]
    by (simp flip: of_nat_add)
qed

theorem hexPrefixEncode_equiv_witness:
  "hexPrefixEncode_slice \<lparr>ns_data = [0x12, 0x34], ns_offset = 1\<rparr> True 0 (- 1) =
     hexPrefixEncode_vector [2, 3, 4] True 0 (- 1)"
  using hexPrefixEncode_equiv [of "\<lparr>ns_data = [0x12, 0x34], ns_offset = 1\<rparr>"
      "\<lparr>ns_data = [], ns_offset = 0\<rparr>" 0 True]
  by (simp add: slice_wf_def nibbles_of_def nibble_def upt_rec)

text \<open>C12: hex-prefix notation round-trips.  From the encoding of any sequence of fewer than
  \<open>2 ^ 32\<close> nibbles (the bounds of \<^verbatim>\<open>hexPrefixEncode\<close> are 32-bit numbers)
  \<^verbatim>\<open>keyOf\<close> recovers exactly that sequence and the test of \<^verbatim>\<open>isLeaf\<close> the
  leaf flag, for odd and even lengths.\<close>

theorem hexPrefix_roundtrip:
  assumes "\<forall>n\<in>set ns. unat n < 16" and "length ns < 2 ^ 32"
  shows "nibbles_of (keyOf (hexPrefixEncode_vector ns leaf 0 (- 1))) = ns
    \<and> isLeaf_payload (hexPrefixEncode_vector ns leaf 0 (- 1)) = leaf"
  using hexPrefixEncode_vector_eq [OF assms(1), of 0 "length ns" "- 1" leaf] assms(2)
    nibbles_of_keyOf_hex_prefix [OF assms(1)] isLeaf_hex_prefix [OF assms(1)]
  by simp

theorem hexPrefix_roundtrip_witness:
  "nibbles_of (keyOf (hexPrefixEncode_vector [1, 2, 3, 4, 5] True 0 (- 1))) = [1, 2, 3, 4, 5]
    \<and> isLeaf_payload (hexPrefixEncode_vector [1, 2, 3, 4, 5] True 0 (- 1))
    \<and> nibbles_of (keyOf (hexPrefixEncode_vector [1, 2, 3, 4] False 0 (- 1))) = [1, 2, 3, 4]"
  using hexPrefix_roundtrip [of "[1, 2, 3, 4, 5]" True] hexPrefix_roundtrip [of "[1, 2, 3, 4]" False] by simp

end
