(* ===== verification/Memory_Db.thy ===== *)
theory Memory_Db
  imports Common_Data
begin

text \<open>
  \<^verbatim>\<open>libdevcore/MemoryDB.h\<close>, \<^verbatim>\<open>MemoryDB.cpp\<close> and
  \<^verbatim>\<open>OverlayDB.cpp\<close>: the reference-counted node store and its write-back overlay on a
  LevelDB database.  The database itself is third-party code: it is a parameter, a record of its
  \<^verbatim>\<open>Get\<close>, \<^verbatim>\<open>Write\<close> and \<^verbatim>\<open>Delete\<close>, and the theorems
  name the documented behaviour they rely on (\<open>ldb_laws\<close>).  The locales \<open>node_store\<close> and
  \<open>counted_store\<close> are the contract a trie uses; both classes are interpretations.
\<close>

section \<open>MemoryDB\<close>

record memory_db =
  m_main :: "h256 \<rightharpoonup> bytes \<times> 32 word"
  m_aux :: "h256 \<rightharpoonup> bytes \<times> bool"
  m_enforceRefs :: bool

definition mdb_new :: memory_db where
  "mdb_new = \<lparr>m_main = Map.empty, m_aux = Map.empty, m_enforceRefs = False\<rparr>"

definition mdb_assign :: "memory_db \<Rightarrow> memory_db \<Rightarrow> memory_db" where
  "mdb_assign this c = this\<lparr>m_main := m_main c, m_aux := m_aux c\<rparr>"

definition mdb_clear :: "memory_db \<Rightarrow> memory_db" where
  "mdb_clear m = m\<lparr>m_main := Map.empty, m_aux := Map.empty\<rparr>"

definition mdb_get :: "memory_db \<Rightarrow> h256 \<rightharpoonup> bytes" where
  "mdb_get m h =
     (case m_main m h of
        None \<Rightarrow> None
      | Some (v, n) \<Rightarrow> if \<not> m_enforceRefs m \<or> n > 0 then Some v else None)"

definition mdb_lookup :: "memory_db \<Rightarrow> h256 \<Rightarrow> bytes" where
  "mdb_lookup m h =
     (case m_main m h of
        Some (v, n) \<Rightarrow> if \<not> m_enforceRefs m \<or> n > 0 then v else []
      | None \<Rightarrow> [])"

definition mdb_exists :: "memory_db \<Rightarrow> h256 \<Rightarrow> bool" where
  "mdb_exists m h =
     (case m_main m h of
        Some (v, n) \<Rightarrow> \<not> m_enforceRefs m \<or> n > 0
      | None \<Rightarrow> False)"

definition mdb_insert :: "h256 \<Rightarrow> bytes \<Rightarrow> memory_db \<Rightarrow> memory_db" where
  "mdb_insert h v m =
     (case m_main m h of
        Some (_, n) \<Rightarrow> m\<lparr>m_main := (m_main m)(h \<mapsto> (v, n + 1))\<rparr>
      | None \<Rightarrow> m\<lparr>m_main := (m_main m)(h \<mapsto> (v, 1))\<rparr>)"

definition mdb_kill :: "h256 \<Rightarrow> memory_db \<Rightarrow> bool \<times> memory_db" where
  "mdb_kill h m =
     (case m_main m h of
        Some (v, n) \<Rightarrow>
          if n > 0 then (True, m\<lparr>m_main := (m_main m)(h \<mapsto> (v, n - 1))\<rparr>) else (False, m)
      | None \<Rightarrow> (False, m))"

definition mdb_lookupAux :: "memory_db \<Rightarrow> h256 \<Rightarrow> bytes" where
  "mdb_lookupAux m h =
     (case m_aux m h of
        Some (v, live) \<Rightarrow> if \<not> m_enforceRefs m \<or> live then v else []
      | None \<Rightarrow> [])"

text \<open>\<^verbatim>\<open>m_aux[_h]\<close> creates an entry with empty bytes where there is none.\<close>

definition mdb_removeAux :: "h256 \<Rightarrow> memory_db \<Rightarrow> memory_db" where
  "mdb_removeAux h m =
     m\<lparr>m_aux := (m_aux m)(h \<mapsto> (case m_aux m h of Some (v, _) \<Rightarrow> (v, False) | None \<Rightarrow> ([], False)))\<rparr>"

definition mdb_insertAux :: "h256 \<Rightarrow> bytes \<Rightarrow> memory_db \<Rightarrow> memory_db" where
  "mdb_insertAux h v m = m\<lparr>m_aux := (m_aux m)(h \<mapsto> (v, True))\<rparr>"

definition mdb_purge :: "memory_db \<Rightarrow> memory_db" where
  "mdb_purge m =
     m\<lparr>m_main := (\<lambda>h. case m_main m h of Some (v, n) \<Rightarrow> if n \<noteq> 0 then Some (v, n) else None | None \<Rightarrow> None),
       m_aux := (\<lambda>h. case m_aux m h of Some (v, l) \<Rightarrow> if l then Some (v, l) else None | None \<Rightarrow> None)\<rparr>"

definition mdb_keys :: "memory_db \<Rightarrow> h256 set" where
  "mdb_keys m = {h. case m_main m h of Some (v, n) \<Rightarrow> n \<noteq> 0 | None \<Rightarrow> False}"

text \<open>\<^verbatim>\<open>EnforceRefs\<close> is a guard object: it sets the flag while it lives.\<close>

definition with_EnforceRefs :: "bool \<Rightarrow> (memory_db \<Rightarrow> 'a \<times> memory_db) \<Rightarrow> memory_db \<Rightarrow> 'a \<times> memory_db" where
  "with_EnforceRefs r body m =
     (let (x, m') = body (m\<lparr>m_enforceRefs := r\<rparr>) in (x, m'\<lparr>m_enforceRefs := m_enforceRefs m\<rparr>))"

definition mdb_count :: "memory_db \<Rightarrow> h256 \<Rightarrow> nat" where
  "mdb_count m h = (case m_main m h of Some (_, n) \<Rightarrow> unat n | None \<Rightarrow> 0)"

section \<open>OverlayDB\<close>

text \<open>
  \<^verbatim>\<open>Get\<close> leaves the string empty when the key is absent.  A write batch is the map of its
  puts: no key is put twice, since the keys of \<^verbatim>\<open>m_main\<close> are 32 bytes long and those of
  \<^verbatim>\<open>m_aux\<close> 33.  \<^verbatim>\<open>Write\<close> and \<^verbatim>\<open>Delete\<close> return whether the
  status is ok and the database after the call.
\<close>

type_synonym batch = "bytes \<rightharpoonup> bytes"

record 'd ldb =
  ldb_Get :: "'d \<Rightarrow> bytes \<Rightarrow> bytes"
  ldb_Write :: "batch \<Rightarrow> 'd \<Rightarrow> bool \<times> 'd"
  ldb_Delete :: "bytes \<Rightarrow> 'd \<Rightarrow> bool \<times> 'd"

datatype odb_error = ProcessExit

record 'd overlay_db =
  o_mem :: memory_db
  m_db :: "'d option"

definition h256_key :: "h256 \<Rightarrow> bytes" where
  "h256_key h = toBigEndian 32 (unat h)"

definition aux_key :: "h256 \<Rightarrow> bytes" where
  "aux_key h = h256_key h @ [255]"

definition key_h256 :: "bytes \<Rightarrow> h256" where
  "key_h256 k = word_of_nat (fromBigEndian_bigint k)"

definition commit_batch :: "memory_db \<Rightarrow> batch" where
  "commit_batch m k =
     (if length k = 32 then
        (case m_main m (key_h256 k) of Some (v, n) \<Rightarrow> if n \<noteq> 0 then Some v else None | None \<Rightarrow> None)
      else if length k = 33 \<and> last k = 255 then
        (case m_aux m (key_h256 (butlast k)) of Some (v, l) \<Rightarrow> if l then Some v else None | None \<Rightarrow> None)
      else None)"

text \<open>Up to ten attempts; after the tenth failure the process exits.\<close>

fun commit_write :: "'d ldb \<Rightarrow> batch \<Rightarrow> nat \<Rightarrow> 'd \<Rightarrow> odb_error + 'd" where
  "commit_write L b 0 d = Inl ProcessExit"
| "commit_write L b (Suc n) d =
     (let (ok, d') = ldb_Write L b d in
      if ok then Inr d' else if n = 0 then Inl ProcessExit else commit_write L b n d')"

definition odb_commit :: "'d ldb \<Rightarrow> 'd overlay_db \<Rightarrow> odb_error + 'd overlay_db" where
  "odb_commit L ov =
     (case m_db ov of
        None \<Rightarrow> Inr ov
      | Some d \<Rightarrow>
          res_bind (commit_write L (commit_batch (o_mem ov)) 10 d) (\<lambda>d'.
            Inr (ov\<lparr>m_db := Some d', o_mem := (o_mem ov)\<lparr>m_aux := Map.empty, m_main := Map.empty\<rparr>\<rparr>)))"

definition odb_lookupAux :: "'d ldb \<Rightarrow> 'd overlay_db \<Rightarrow> h256 \<Rightarrow> bytes" where
  "odb_lookupAux L ov h =
     (let ret = mdb_lookupAux (o_mem ov) h in
      case m_db ov of
        None \<Rightarrow> ret
      | Some d \<Rightarrow> if ret \<noteq> [] then ret else ldb_Get L d (aux_key h))"

definition odb_rollback :: "'d overlay_db \<Rightarrow> 'd overlay_db" where
  "odb_rollback ov = ov\<lparr>o_mem := (o_mem ov)\<lparr>m_main := Map.empty\<rparr>\<rparr>"

definition odb_lookup :: "'d ldb \<Rightarrow> 'd overlay_db \<Rightarrow> h256 \<Rightarrow> bytes" where
  "odb_lookup L ov h =
     (let ret = mdb_lookup (o_mem ov) h in
      case m_db ov of
        Some d \<Rightarrow> if ret = [] then ldb_Get L d (h256_key h) else ret
      | None \<Rightarrow> ret)"

definition odb_exists :: "'d ldb \<Rightarrow> 'd overlay_db \<Rightarrow> h256 \<Rightarrow> bool" where
  "odb_exists L ov h =
     (if mdb_exists (o_mem ov) h then True
      else (case m_db ov of Some d \<Rightarrow> ldb_Get L d (h256_key h) \<noteq> [] | None \<Rightarrow> False))"

text \<open>The rest of \<^verbatim>\<open>OverlayDB::kill\<close> only logs.\<close>

definition odb_kill :: "h256 \<Rightarrow> 'd overlay_db \<Rightarrow> 'd overlay_db" where
  "odb_kill h ov = ov\<lparr>o_mem := snd (mdb_kill h (o_mem ov))\<rparr>"

text \<open>\<^verbatim>\<open>deepkill\<close> dereferences \<^verbatim>\<open>m_db\<close> without a test: \<open>None\<close> is that
  null dereference.\<close>

definition odb_deepkill :: "'d ldb \<Rightarrow> h256 \<Rightarrow> 'd overlay_db \<Rightarrow> (bool \<times> 'd overlay_db) option" where
  "odb_deepkill L h ov =
     (let o1 = odb_kill h ov in
      case m_db o1 of
        None \<Rightarrow> None
      | Some d \<Rightarrow> (let (ok, d') = ldb_Delete L (h256_key h) d in Some (ok, o1\<lparr>m_db := Some d'\<rparr>)))"

definition odb_insert :: "h256 \<Rightarrow> bytes \<Rightarrow> 'd overlay_db \<Rightarrow> 'd overlay_db" where
  "odb_insert h v ov = ov\<lparr>o_mem := mdb_insert h v (o_mem ov)\<rparr>"

section \<open>The store contract\<close>

text \<open>
  What a client of either class relies on: a lookup after an insert returns the value inserted, and
  inserts of other keys do not disturb it.  \<open>ok\<close> is what the store requires of a value and of its
  state; an insert keeps it.
\<close>

locale node_store =
  fixes ins :: "h256 \<Rightarrow> bytes \<Rightarrow> 's \<Rightarrow> 's"
    and look :: "'s \<Rightarrow> h256 \<Rightarrow> bytes"
    and good :: "h256 \<Rightarrow> 's \<Rightarrow> bool"
    and okv :: "bytes \<Rightarrow> bool"
  assumes look_ins: "good h s \<Longrightarrow> okv v \<Longrightarrow> look (ins h v s) h = v"
    and look_ins_other: "h \<noteq> h' \<Longrightarrow> look (ins h v s) h' = look s h'"
    and good_ins_other: "h \<noteq> h' \<Longrightarrow> good h s \<Longrightarrow> good h (ins h' v s)"
begin

lemma look_fold_other:
  "h \<notin> fst ` set kvs \<Longrightarrow> look (fold (\<lambda>(k, v). ins k v) kvs s) h = look s h"
  by (induction kvs arbitrary: s) (auto simp: look_ins_other)

lemma look_fold:
  assumes "distinct (map fst kvs)" and "(h, v) \<in> set kvs" and "good h s" and "okv v"
  shows "look (fold (\<lambda>(k, v). ins k v) kvs s) h = v"
  using assms
proof (induction kvs arbitrary: s)
  case (Cons kv kvs)
  obtain k w where kv: "kv = (k, w)" by force
  show ?case
  proof (cases "k = h")
    case True
    with Cons.prems kv have "w = v" and "h \<notin> fst ` set kvs" by force+
    with True kv Cons.prems show ?thesis by (simp add: look_fold_other look_ins)
  next
    case False
    with Cons kv show ?thesis by (simp add: good_ins_other)
  qed
qed simp

end

text \<open>The reference counts: an insert and a kill cancel out, and a kill of an unreferenced key
  changes nothing.\<close>

locale counted_store =
  fixes cnt :: "'s \<Rightarrow> h256 \<Rightarrow> nat"
    and ins :: "h256 \<Rightarrow> bytes \<Rightarrow> 's \<Rightarrow> 's"
    and kil :: "h256 \<Rightarrow> 's \<Rightarrow> 's"
    and lim :: nat
  assumes cnt_ins: "cnt s h < lim \<Longrightarrow> cnt (ins h v s) h = Suc (cnt s h)"
    and cnt_ins_other: "h \<noteq> h' \<Longrightarrow> cnt (ins h v s) h' = cnt s h'"
    and cnt_kil: "cnt (kil h s) h = cnt s h - 1"
    and cnt_kil_other: "h \<noteq> h' \<Longrightarrow> cnt (kil h s) h' = cnt s h'"
begin

lemma cnt_inserts:
  "cnt s h + n \<le> lim \<Longrightarrow> cnt ((ins h v ^^ n) s) h = cnt s h + n"
  by (induction n) (auto simp: cnt_ins)

lemma cnt_kills: "cnt ((kil h ^^ n) s) h = cnt s h - n"
  by (induction n) (auto simp: cnt_kil)

lemma cnt_inserts_kills:
  "cnt s h + n \<le> lim \<Longrightarrow> cnt ((kil h ^^ m) ((ins h v ^^ n) s)) h = cnt s h + n - m"
  by (simp add: cnt_kills cnt_inserts)

end

lemma unat32_Suc: "unat (n :: 32 word) < 2 ^ 32 - 1 \<Longrightarrow> unat (n + 1) = Suc (unat n)"
  by (simp add: unat_word_ariths)

lemma unat32_pred: "unat (n - 1 :: 32 word) = unat n - 1" if "n > 0"
  using that unat_sub [of 1 n] by (simp add: word_le_nat_alt unat_gt_0 Suc_le_eq)

lemma mdb_count_insert:
  "mdb_count m h < 2 ^ 32 - 1 \<Longrightarrow> mdb_count (mdb_insert h v m) h = Suc (mdb_count m h)"
  by (auto simp: mdb_count_def mdb_insert_def unat32_Suc split: option.splits)

lemma mdb_count_kill: "mdb_count (snd (mdb_kill h m)) h = mdb_count m h - 1"
  by (auto simp: mdb_count_def mdb_kill_def unat32_pred word_less_nat_alt split: option.splits)

lemma mdb_other:
  assumes "h \<noteq> h'"
  shows "m_main (mdb_insert h v m) h' = m_main m h'"
    and "m_main (snd (mdb_kill h m)) h' = m_main m h'"
  using assms by (auto simp: mdb_insert_def mdb_kill_def split: option.splits)

lemma mdb_enforceRefs [simp]:
  "m_enforceRefs (mdb_insert h v m) = m_enforceRefs m"
  "m_enforceRefs (snd (mdb_kill h m)) = m_enforceRefs m"
  by (auto simp: mdb_insert_def mdb_kill_def split: option.splits)

lemma mdb_lookup_insert:
  assumes "mdb_count m h < 2 ^ 32 - 1" shows "mdb_lookup (mdb_insert h v m) h = v"
proof -
  obtain n where n: "m_main (mdb_insert h v m) h = Some (v, n)"
    by (cases "m_main m h") (auto simp: mdb_insert_def)
  moreover have "0 < n"
    using mdb_count_insert [OF assms, of v] n by (simp add: mdb_count_def word_less_nat_alt)
  ultimately show ?thesis by (simp add: mdb_lookup_def)
qed

interpretation mem: node_store mdb_insert mdb_lookup "\<lambda>h m. mdb_count m h < 2 ^ 32 - 1" "\<lambda>_. True"
proof unfold_locales
  show "h \<noteq> h' \<Longrightarrow> mdb_lookup (mdb_insert h v s) h' = mdb_lookup s h'" for h h' v s
    by (simp add: mdb_lookup_def mdb_other split: option.splits)
  show "h \<noteq> h' \<Longrightarrow> mdb_count s h < 2 ^ 32 - 1 \<Longrightarrow> mdb_count (mdb_insert h' v s) h < 2 ^ 32 - 1"
    for h h' v s
    by (simp add: mdb_count_def mdb_other)
qed (simp add: mdb_lookup_insert)

interpretation mem: counted_store mdb_count mdb_insert "\<lambda>h m. snd (mdb_kill h m)" "2 ^ 32 - 1"
proof unfold_locales
  show "h \<noteq> h' \<Longrightarrow> mdb_count (mdb_insert h v s) h' = mdb_count s h'"
    and "h \<noteq> h' \<Longrightarrow> mdb_count (snd (mdb_kill h s)) h' = mdb_count s h'" for h h' v s
    by (simp_all add: mdb_count_def mdb_other)
qed (simp_all add: mdb_count_insert mdb_count_kill)

text \<open>The overlay takes a value only if it is not empty: an empty string means absent there.\<close>

definition odb_count :: "'d overlay_db \<Rightarrow> h256 \<Rightarrow> nat" where
  "odb_count ov h = mdb_count (o_mem ov) h"

interpretation overlay: node_store odb_insert "odb_lookup L"
  "\<lambda>h ov. odb_count ov h < 2 ^ 32 - 1" "\<lambda>v. v \<noteq> []" for L
proof unfold_locales
  show "odb_count s h < 2 ^ 32 - 1 \<Longrightarrow> v \<noteq> [] \<Longrightarrow> odb_lookup L (odb_insert h v s) h = v" for h s v
    by (simp add: odb_lookup_def odb_insert_def odb_count_def mdb_lookup_insert split: option.splits)
  show "h \<noteq> h' \<Longrightarrow> odb_lookup L (odb_insert h v s) h' = odb_lookup L s h'" for h h' v s
    by (simp add: odb_lookup_def odb_insert_def mem.look_ins_other)
  show "h \<noteq> h' \<Longrightarrow> odb_count s h < 2 ^ 32 - 1 \<Longrightarrow> odb_count (odb_insert h' v s) h < 2 ^ 32 - 1" for h h' v s
    by (simp add: odb_insert_def odb_count_def mem.cnt_ins_other)
qed

interpretation overlay: counted_store odb_count odb_insert odb_kill "2 ^ 32 - 1"
  by unfold_locales
    (simp_all add: odb_count_def odb_insert_def odb_kill_def mem.cnt_ins mem.cnt_kil
      mem.cnt_ins_other mem.cnt_kil_other)

section \<open>Committing\<close>

text \<open>The documented behaviour of the database: a successful write makes \<^verbatim>\<open>Get\<close> return
  the values of the batch and keeps the other keys; a failed one may be retried, and does not change
  the keys outside the batch.\<close>

definition ldb_laws :: "'d ldb \<Rightarrow> bool" where
  "ldb_laws L =
     (\<forall>b d ok d'. ldb_Write L b d = (ok, d') \<longrightarrow>
        (\<forall>k. (b k = None \<longrightarrow> ldb_Get L d' k = ldb_Get L d k)
           \<and> (\<forall>v. ok \<longrightarrow> b k = Some v \<longrightarrow> ldb_Get L d' k = v)))"

lemma ldb_lawsD:
  assumes "ldb_laws L" and "ldb_Write L b d = (ok, d')"
  shows "b k = None \<Longrightarrow> ldb_Get L d' k = ldb_Get L d k"
    and "ok \<Longrightarrow> b k = Some v \<Longrightarrow> ldb_Get L d' k = v"
  using assms unfolding ldb_laws_def by blast+

lemma commit_write_Get:
  assumes "ldb_laws L" and "commit_write L b n d = Inr d'"
  shows "ldb_Get L d' k = (case b k of None \<Rightarrow> ldb_Get L d k | Some v \<Rightarrow> v)"
  using assms(2)
proof (induction n arbitrary: d)
  case (Suc n)
  obtain ok d1 where w: "ldb_Write L b d = (ok, d1)" by force
  show ?case
  proof (cases ok)
    case True
    with Suc.prems w have "d' = d1" by simp
    then show ?thesis using ldb_lawsD [OF assms(1) w] True by (auto split: option.splits)
  next
    case False
    with Suc w have "ldb_Get L d' k = (case b k of None \<Rightarrow> ldb_Get L d1 k | Some v \<Rightarrow> v)"
      by (simp split: if_splits)
    then show ?thesis using ldb_lawsD(1) [OF assms(1) w, of k] by (simp split: option.splits)
  qed
qed simp

lemma length_h256_key [simp]: "length (h256_key h) = 32"
  by (simp add: h256_key_def)

lemma key_h256_key [simp]: "key_h256 (h256_key h) = h"
  using unat_u256_less [of h]
  by (simp add: key_h256_def h256_key_def fromBigEndian_toBigEndian_mod)

lemma commit_batch_main:
  "commit_batch m (h256_key h) =
     (case m_main m h of Some (v, n) \<Rightarrow> if n \<noteq> 0 then Some v else None | None \<Rightarrow> None)"
  by (simp add: commit_batch_def)

lemma commit_batch_aux:
  "commit_batch m (aux_key h) =
     (case m_aux m h of Some (v, l) \<Rightarrow> if l then Some v else None | None \<Rightarrow> None)"
  by (simp add: commit_batch_def aux_key_def)

section \<open>Properties\<close>

text \<open>Reference counting.  From any state of a \<^verbatim>\<open>MemoryDB\<close>, \<open>n\<close> inserts of a key
  followed by \<open>m\<close> kills leave its reference count at the old count plus \<open>n\<close> less \<open>m\<close>, never
  below zero, as long as the 32-bit counter does not overflow; under \<^verbatim>\<open>EnforceRefs\<close> the
  key is then visible exactly when that count is positive.\<close>

theorem mdb_refcount:
  assumes "mdb_count s h + n < 2 ^ 32" and "m_enforceRefs s"
  shows "mdb_count (((\<lambda>m. snd (mdb_kill h m)) ^^ m) ((mdb_insert h v ^^ n) s)) h = mdb_count s h + n - m
    \<and> mdb_exists (((\<lambda>m. snd (mdb_kill h m)) ^^ m) ((mdb_insert h v ^^ n) s)) h = (mdb_count s h + n > m)"
proof -
  let ?t = "((\<lambda>m. snd (mdb_kill h m)) ^^ m) ((mdb_insert h v ^^ n) s)"
  have "m_enforceRefs ((mdb_insert h v ^^ n) s)" using assms(2) by (induction n) auto
  then have e: "m_enforceRefs ?t" by (induction m) auto
  have c: "mdb_count ?t h = mdb_count s h + n - m"
    using mem.cnt_inserts_kills [of s h n m v] assms(1) by simp
  have "mdb_exists ?t h \<longleftrightarrow> mdb_count ?t h > 0"
    using e by (auto simp: mdb_exists_def mdb_count_def word_less_nat_alt split: option.splits)
  with c show ?thesis by simp
qed

theorem mdb_refcount_witness:
  "mdb_exists (snd (mdb_kill 7 ((mdb_insert 7 [1] ^^ 2) (mdb_new\<lparr>m_enforceRefs := True\<rparr>)))) 7"
  using mdb_refcount [of "mdb_new\<lparr>m_enforceRefs := True\<rparr>" 7 2 1 "[1]"]
  by (simp add: mdb_new_def mdb_count_def)

text \<open>Purging is invisible to readers that enforce the reference counts, and afterwards
  \<^verbatim>\<open>keys\<close> and the domain of \<^verbatim>\<open>get\<close> agree whether or not the counts are
  enforced.\<close>

theorem mdb_purge_visible:
  assumes "m_enforceRefs m"
  shows "mdb_get (mdb_purge m) = mdb_get m \<and> mdb_lookup (mdb_purge m) = mdb_lookup m
    \<and> mdb_lookupAux (mdb_purge m) = mdb_lookupAux m \<and> mdb_keys (mdb_purge m) = mdb_keys m
    \<and> dom (mdb_get (mdb_purge (m\<lparr>m_enforceRefs := r\<rparr>))) = mdb_keys m"
  using assms
  by (auto simp: mdb_get_def mdb_lookup_def mdb_lookupAux_def mdb_purge_def mdb_keys_def fun_eq_iff
      word_neq_0_conv split: option.splits if_splits)

theorem mdb_purge_visible_witness:
  "mdb_keys (mdb_purge (snd (mdb_kill 7 (mdb_insert 7 [1] (mdb_insert 8 [2] (mdb_new\<lparr>m_enforceRefs := True\<rparr>)))))) =
   mdb_keys (snd (mdb_kill 7 (mdb_insert 7 [1] (mdb_insert 8 [2] (mdb_new\<lparr>m_enforceRefs := True\<rparr>)))))"
  using mdb_purge_visible [of "snd (mdb_kill 7 (mdb_insert 7 [1] (mdb_insert 8 [2] (mdb_new\<lparr>m_enforceRefs := True\<rparr>))))"]
  by (simp add: mdb_new_def)

definition map_ldb :: "(bytes \<rightharpoonup> bytes) ldb" where
  "map_ldb = \<lparr>ldb_Get = (\<lambda>d k. case d k of Some v \<Rightarrow> v | None \<Rightarrow> []),
     ldb_Write = (\<lambda>b d. (True, d ++ b)), ldb_Delete = (\<lambda>k d. (True, d(k := None)))\<rparr>"

lemma ldb_laws_map: "ldb_laws map_ldb"
  by (auto simp: ldb_laws_def map_ldb_def map_add_def)

text \<open>C11: what a commit makes visible.  When \<^verbatim>\<open>OverlayDB::commit\<close> returns on an
  overlay with a database, whether or not references are enforced, a key whose reference count in the overlay is positive reads, from the
  database, the value the overlay had, a key without a reference reads as the database had it before
  the commit, a live auxiliary value reads the value of the overlay and any other one as the database
  had it, and the overlay is empty.  So a key with a reference to a value that is not the empty
  string, and a key the overlay does not hold, read the same before and after; a key whose count has
  gone back to zero reads the same if references are enforced.  If they are not, which is the default
  of \<^verbatim>\<open>MemoryDB\<close>, such a killed key reads the killed value (unless it is empty) up to the
  commit and the database's value after it.  The database is assumed to return what a successful
  write put (\<open>ldb_laws\<close>).\<close>

theorem odb_commit_visible:
  assumes "ldb_laws L" and "m_db ov = Some d" and "odb_commit L ov = Inr ov'"
  shows "odb_lookup L ov' h =
      (case m_main (o_mem ov) h of Some (v, n) \<Rightarrow> if n > 0 then v else ldb_Get L d (h256_key h)
       | None \<Rightarrow> ldb_Get L d (h256_key h))
    \<and> odb_exists L ov' h = (odb_lookup L ov' h \<noteq> [])
    \<and> odb_lookupAux L ov' h =
      (case m_aux (o_mem ov) h of Some (v, live) \<Rightarrow> if live then v else ldb_Get L d (aux_key h)
       | None \<Rightarrow> ldb_Get L d (aux_key h))
    \<and> m_main (o_mem ov') = Map.empty \<and> m_aux (o_mem ov') = Map.empty
    \<and> (case m_main (o_mem ov) h of
         Some (v, n) \<Rightarrow>
           (if n > 0 then v \<noteq> [] \<longrightarrow> odb_lookup L ov h = odb_lookup L ov' h \<and> odb_exists L ov h = odb_exists L ov' h
            else if m_enforceRefs (o_mem ov)
            then odb_lookup L ov h = odb_lookup L ov' h \<and> odb_exists L ov h = odb_exists L ov' h
            else v \<noteq> [] \<longrightarrow> odb_lookup L ov h = v)
       | None \<Rightarrow> odb_lookup L ov h = odb_lookup L ov' h \<and> odb_exists L ov h = odb_exists L ov' h)"
proof -
  obtain d' where w: "commit_write L (commit_batch (o_mem ov)) 10 d = Inr d'"
    and ov': "m_db ov' = Some d'" "m_main (o_mem ov') = Map.empty" "m_aux (o_mem ov') = Map.empty"
    using assms(2,3) by (auto simp: odb_commit_def res_bind_Inr_iff)
  note g = commit_write_Get [OF assms(1) w]
  show ?thesis
    using assms(2) ov' g [of "h256_key h"] g [of "aux_key h"]
    unfolding commit_batch_main commit_batch_aux
    by (auto simp: odb_lookup_def odb_exists_def odb_lookupAux_def mdb_lookup_def mdb_exists_def
        mdb_lookupAux_def word_neq_0_conv split: option.splits if_splits)
qed

text \<open>Without enforcement: a key inserted twice and killed once, one inserted over a value of the
  database and killed, and one the overlay does not hold.\<close>

theorem odb_commit_visible_witness:
  "\<exists>ov'. odb_commit map_ldb
       (odb_kill 9 (odb_insert 9 [3] (odb_kill 7 (odb_insert 7 [1] (odb_insert 7 [1]
         \<lparr>o_mem = mdb_new, m_db = Some (Map.empty(h256_key 9 \<mapsto> [4]))\<rparr>))))) = Inr ov'
     \<and> odb_lookup map_ldb ov' 7 = [1] \<and> odb_lookup map_ldb ov' 9 = [4] \<and> odb_lookup map_ldb ov' 8 = []
     \<and> odb_lookup map_ldb
         (odb_kill 9 (odb_insert 9 [3] (odb_kill 7 (odb_insert 7 [1] (odb_insert 7 [1]
           \<lparr>o_mem = mdb_new, m_db = Some (Map.empty(h256_key 9 \<mapsto> [4]))\<rparr>))))) 9 = [3]"
proof -
  let ?d = "Map.empty(h256_key 9 \<mapsto> [4]) :: bytes \<rightharpoonup> bytes"
  let ?o = "odb_kill 9 (odb_insert 9 [3] (odb_kill 7 (odb_insert 7 [1] (odb_insert 7 [1]
     \<lparr>o_mem = mdb_new, m_db = Some ?d\<rparr>))))"
  have m: "m_main (o_mem ?o) = [7 \<mapsto> ([1], 1), 9 \<mapsto> ([3], 0)]" "m_db ?o = Some ?d"
    "\<not> m_enforceRefs (o_mem ?o)"
    by (auto simp: odb_insert_def odb_kill_def mdb_insert_def mdb_kill_def mdb_new_def fun_eq_iff)
  obtain ov' where c: "odb_commit map_ldb ?o = Inr ov'"
    using m(2) by (simp add: odb_commit_def eval_nat_numeral map_ldb_def)
  have k: "h256_key 8 \<noteq> h256_key 9"
    using key_h256_key [of 8] key_h256_key [of 9] by force
  note v = odb_commit_visible [OF ldb_laws_map m(2) c]
  have "odb_lookup map_ldb ov' 7 = [1]" using v [of 7] m by simp
  moreover have "odb_lookup map_ldb ov' 9 = [4]" "odb_lookup map_ldb ?o 9 = [3]"
    using v [of 9] m by (simp_all add: map_ldb_def)
  moreover have "odb_lookup map_ldb ov' 8 = []" using v [of 8] m k by (simp add: map_ldb_def)
  ultimately show ?thesis using c by blast
qed

end
