(* ===== verification/Instruction.thy ===== *)
theory Instruction
  imports Common_Data
begin

text \<open>
  \<^verbatim>\<open>libevmcore/Instruction.h\<close>, \<^verbatim>\<open>Instruction.cpp\<close> and
  \<^verbatim>\<open>EVMSchedule.h\<close>: the instruction set, its tables and the gas schedules.  The
  enumeration is a datatype whose families \<^verbatim>\<open>PUSH1\<close> to \<^verbatim>\<open>PUSH32\<close>,
  \<^verbatim>\<open>DUP1\<close> to \<^verbatim>\<open>DUP16\<close>, \<^verbatim>\<open>SWAP1\<close> to
  \<^verbatim>\<open>SWAP16\<close> and \<^verbatim>\<open>LOG0\<close> to \<^verbatim>\<open>LOG4\<close> are
  constructors with an index, and where a byte that is no enumerator is \<open>INVALID\<close>.  The casts
  between bytes and the enumeration are \<open>decode\<close> and \<open>opcode\<close>.
\<close>

section \<open>The enumeration\<close>

datatype (plugins only: code) instruction =
    STOP | ADD | MUL | SUB | DIV | SDIV | MOD | SMOD | ADDMOD | MULMOD | EXP | SIGNEXTEND | LT
  | GT | SLT | SGT | EQ | ISZERO | AND' | OR' | XOR' | NOT' | BYTE | SHA3 | ADDRESS | BALANCE
  | ORIGIN | CALLER | CALLVALUE | CALLDATALOAD | CALLDATASIZE | CALLDATACOPY | CODESIZE
  | CODECOPY | GASPRICE | EXTCODESIZE | EXTCODECOPY | BLOCKHASH | COINBASE | TIMESTAMP
  | NUMBER | DIFFICULTY | GASLIMIT | POP | MLOAD | MSTORE | MSTORE8 | SLOAD | SSTORE | JUMP
  | JUMPI | PC | MSIZE | GAS | JUMPDEST | CREATE | CALL | CALLCODE | RETURN | DELEGATECALL
  | SUICIDE | PUSH nat | DUP nat | SWAP nat | LOG nat | INVALID byte

primrec opcode :: "instruction \<Rightarrow> byte" where
  "opcode STOP = 0x00"
| "opcode ADD = 0x01"
| "opcode MUL = 0x02"
| "opcode SUB = 0x03"
| "opcode DIV = 0x04"
| "opcode SDIV = 0x05"
| "opcode MOD = 0x06"
| "opcode SMOD = 0x07"
| "opcode ADDMOD = 0x08"
| "opcode MULMOD = 0x09"
| "opcode EXP = 0x0a"
| "opcode SIGNEXTEND = 0x0b"
| "opcode LT = 0x10"
| "opcode GT = 0x11"
| "opcode SLT = 0x12"
| "opcode SGT = 0x13"
| "opcode EQ = 0x14"
| "opcode ISZERO = 0x15"
| "opcode AND' = 0x16"
| "opcode OR' = 0x17"
| "opcode XOR' = 0x18"
| "opcode NOT' = 0x19"
| "opcode BYTE = 0x1a"
| "opcode SHA3 = 0x20"
| "opcode ADDRESS = 0x30"
| "opcode BALANCE = 0x31"
| "opcode ORIGIN = 0x32"
| "opcode CALLER = 0x33"
| "opcode CALLVALUE = 0x34"
| "opcode CALLDATALOAD = 0x35"
| "opcode CALLDATASIZE = 0x36"
| "opcode CALLDATACOPY = 0x37"
| "opcode CODESIZE = 0x38"
| "opcode CODECOPY = 0x39"
| "opcode GASPRICE = 0x3a"
| "opcode EXTCODESIZE = 0x3b"
| "opcode EXTCODECOPY = 0x3c"
| "opcode BLOCKHASH = 0x40"
| "opcode COINBASE = 0x41"
| "opcode TIMESTAMP = 0x42"
| "opcode NUMBER = 0x43"
| "opcode DIFFICULTY = 0x44"
| "opcode GASLIMIT = 0x45"
| "opcode POP = 0x50"
| "opcode MLOAD = 0x51"
| "opcode MSTORE = 0x52"
| "opcode MSTORE8 = 0x53"
| "opcode SLOAD = 0x54"
| "opcode SSTORE = 0x55"
| "opcode JUMP = 0x56"
| "opcode JUMPI = 0x57"
| "opcode PC = 0x58"
| "opcode MSIZE = 0x59"
| "opcode GAS = 0x5a"
| "opcode JUMPDEST = 0x5b"
| "opcode CREATE = 0xf0"
| "opcode CALL = 0xf1"
| "opcode CALLCODE = 0xf2"
| "opcode RETURN = 0xf3"
| "opcode DELEGATECALL = 0xf4"
| "opcode SUICIDE = 0xff"
| "opcode (PUSH n) = word_of_nat (0x5f + n)"
| "opcode (DUP n) = word_of_nat (0x7f + n)"
| "opcode (SWAP n) = word_of_nat (0x8f + n)"
| "opcode (LOG n) = word_of_nat (0xa0 + n)"
| "opcode (INVALID b) = b"

definition plain_instructions :: "(nat \<times> instruction) list" where
  "plain_instructions = [(0x00, STOP), (0x01, ADD), (0x02, MUL), (0x03, SUB), (0x04, DIV),
     (0x05, SDIV), (0x06, MOD), (0x07, SMOD), (0x08, ADDMOD), (0x09, MULMOD), (0x0a, EXP),
     (0x0b, SIGNEXTEND), (0x10, LT), (0x11, GT), (0x12, SLT), (0x13, SGT), (0x14, EQ),
     (0x15, ISZERO), (0x16, AND'), (0x17, OR'), (0x18, XOR'), (0x19, NOT'), (0x1a, BYTE),
     (0x20, SHA3), (0x30, ADDRESS), (0x31, BALANCE), (0x32, ORIGIN), (0x33, CALLER),
     (0x34, CALLVALUE), (0x35, CALLDATALOAD), (0x36, CALLDATASIZE), (0x37, CALLDATACOPY),
     (0x38, CODESIZE), (0x39, CODECOPY), (0x3a, GASPRICE), (0x3b, EXTCODESIZE),
     (0x3c, EXTCODECOPY), (0x40, BLOCKHASH), (0x41, COINBASE), (0x42, TIMESTAMP), (0x43, NUMBER),
     (0x44, DIFFICULTY), (0x45, GASLIMIT), (0x50, POP), (0x51, MLOAD), (0x52, MSTORE),
     (0x53, MSTORE8), (0x54, SLOAD), (0x55, SSTORE), (0x56, JUMP), (0x57, JUMPI), (0x58, PC),
     (0x59, MSIZE), (0x5a, GAS), (0x5b, JUMPDEST), (0xf0, CREATE), (0xf1, CALL),
     (0xf2, CALLCODE), (0xf3, RETURN), (0xf4, DELEGATECALL), (0xff, SUICIDE)]"

text \<open>The cast of a byte to \<^verbatim>\<open>Instruction\<close>.\<close>

definition decode :: "byte \<Rightarrow> instruction" where
  "decode b =
     (let n = unat b in
      if 0x60 \<le> n \<and> n \<le> 0x7f then PUSH (n - 0x5f)
      else if 0x80 \<le> n \<and> n \<le> 0x8f then DUP (n - 0x7f)
      else if 0x90 \<le> n \<and> n \<le> 0x9f then SWAP (n - 0x8f)
      else if 0xa0 \<le> n \<and> n \<le> 0xa4 then LOG (n - 0xa0)
      else (case map_of plain_instructions n of Some i \<Rightarrow> i | None \<Rightarrow> INVALID b))"

definition getPushNumber :: "instruction \<Rightarrow> int" where
  "getPushNumber i = int (unat (opcode i)) - 0x60 + 1"

definition getDupNumber :: "instruction \<Rightarrow> int" where
  "getDupNumber i = int (unat (opcode i)) - 0x80 + 1"

definition getSwapNumber :: "instruction \<Rightarrow> int" where
  "getSwapNumber i = int (unat (opcode i)) - 0x90 + 1"

datatype instruction_error = InvalidOpcode

definition pushInstruction :: "nat \<Rightarrow> instruction_error + instruction" where
  "pushInstruction n = (if 1 \<le> n \<and> n \<le> 32 then Inr (PUSH n) else Inl InvalidOpcode)"

definition dupInstruction :: "nat \<Rightarrow> instruction_error + instruction" where
  "dupInstruction n = (if 1 \<le> n \<and> n \<le> 16 then Inr (DUP n) else Inl InvalidOpcode)"

definition swapInstruction :: "nat \<Rightarrow> instruction_error + instruction" where
  "swapInstruction n = (if 1 \<le> n \<and> n \<le> 16 then Inr (SWAP n) else Inl InvalidOpcode)"

definition logInstruction :: "nat \<Rightarrow> instruction_error + instruction" where
  "logInstruction n = (if n \<le> 4 then Inr (LOG n) else Inl InvalidOpcode)"

section \<open>The tables\<close>

datatype tier =
  ZeroTier | BaseTier | VeryLowTier | LowTier | MidTier | HighTier | ExtTier | SpecialTier
  | InvalidTier

fun tier_index :: "tier \<Rightarrow> nat" where
  "tier_index ZeroTier = 0"
| "tier_index BaseTier = 1"
| "tier_index VeryLowTier = 2"
| "tier_index LowTier = 3"
| "tier_index MidTier = 4"
| "tier_index HighTier = 5"
| "tier_index ExtTier = 6"
| "tier_index SpecialTier = 7"
| "tier_index InvalidTier = 8"

record instruction_info =
  i_name :: string
  i_additional :: nat
  i_args :: nat
  i_ret :: nat
  i_sideEffects :: bool
  i_gasPriceTier :: tier

definition mk_info :: "string \<Rightarrow> nat \<Rightarrow> nat \<Rightarrow> nat \<Rightarrow> bool \<Rightarrow> tier \<Rightarrow> instruction_info" where
  "mk_info n add args ret se t =
     \<lparr>i_name = n, i_additional = add, i_args = args, i_ret = ret, i_sideEffects = se,
      i_gasPriceTier = t\<rparr>"

text \<open>A number in decimal, as a stream prints it.\<close>

fun decimal :: "nat \<Rightarrow> string" where
  "decimal n = (if n < 10 then [char_of (48 + n)] else decimal (n div 10) @ [char_of (48 + n mod 10)])"

declare decimal.simps [simp del]

primrec instructionInfo :: "instruction \<Rightarrow> instruction_info" where
  "instructionInfo STOP = mk_info ''STOP'' 0 0 0 True ZeroTier"
| "instructionInfo ADD = mk_info ''ADD'' 0 2 1 False VeryLowTier"
| "instructionInfo MUL = mk_info ''MUL'' 0 2 1 False LowTier"
| "instructionInfo SUB = mk_info ''SUB'' 0 2 1 False VeryLowTier"
| "instructionInfo DIV = mk_info ''DIV'' 0 2 1 False LowTier"
| "instructionInfo SDIV = mk_info ''SDIV'' 0 2 1 False LowTier"
| "instructionInfo MOD = mk_info ''MOD'' 0 2 1 False LowTier"
| "instructionInfo SMOD = mk_info ''SMOD'' 0 2 1 False LowTier"
| "instructionInfo ADDMOD = mk_info ''ADDMOD'' 0 3 1 False MidTier"
| "instructionInfo MULMOD = mk_info ''MULMOD'' 0 3 1 False MidTier"
| "instructionInfo EXP = mk_info ''EXP'' 0 2 1 False SpecialTier"
| "instructionInfo SIGNEXTEND = mk_info ''SIGNEXTEND'' 0 2 1 False LowTier"
| "instructionInfo LT = mk_info ''LT'' 0 2 1 False VeryLowTier"
| "instructionInfo GT = mk_info ''GT'' 0 2 1 False VeryLowTier"
| "instructionInfo SLT = mk_info ''SLT'' 0 2 1 False VeryLowTier"
| "instructionInfo SGT = mk_info ''SGT'' 0 2 1 False VeryLowTier"
| "instructionInfo EQ = mk_info ''EQ'' 0 2 1 False VeryLowTier"
| "instructionInfo ISZERO = mk_info ''ISZERO'' 0 1 1 False VeryLowTier"
| "instructionInfo AND' = mk_info ''AND'' 0 2 1 False VeryLowTier"
| "instructionInfo OR' = mk_info ''OR'' 0 2 1 False VeryLowTier"
| "instructionInfo XOR' = mk_info ''XOR'' 0 2 1 False VeryLowTier"
| "instructionInfo NOT' = mk_info ''NOT'' 0 1 1 False VeryLowTier"
| "instructionInfo BYTE = mk_info ''BYTE'' 0 2 1 False VeryLowTier"
| "instructionInfo SHA3 = mk_info ''SHA3'' 0 2 1 False SpecialTier"
| "instructionInfo ADDRESS = mk_info ''ADDRESS'' 0 0 1 False BaseTier"
| "instructionInfo BALANCE = mk_info ''BALANCE'' 0 1 1 False ExtTier"
| "instructionInfo ORIGIN = mk_info ''ORIGIN'' 0 0 1 False BaseTier"
| "instructionInfo CALLER = mk_info ''CALLER'' 0 0 1 False BaseTier"
| "instructionInfo CALLVALUE = mk_info ''CALLVALUE'' 0 0 1 False BaseTier"
| "instructionInfo CALLDATALOAD = mk_info ''CALLDATALOAD'' 0 1 1 False VeryLowTier"
| "instructionInfo CALLDATASIZE = mk_info ''CALLDATASIZE'' 0 0 1 False BaseTier"
| "instructionInfo CALLDATACOPY = mk_info ''CALLDATACOPY'' 0 3 0 True VeryLowTier"
| "instructionInfo CODESIZE = mk_info ''CODESIZE'' 0 0 1 False BaseTier"
| "instructionInfo CODECOPY = mk_info ''CODECOPY'' 0 3 0 True VeryLowTier"
| "instructionInfo GASPRICE = mk_info ''GASPRICE'' 0 0 1 False BaseTier"
| "instructionInfo EXTCODESIZE = mk_info ''EXTCODESIZE'' 0 1 1 False ExtTier"
| "instructionInfo EXTCODECOPY = mk_info ''EXTCODECOPY'' 0 4 0 True ExtTier"
| "instructionInfo BLOCKHASH = mk_info ''BLOCKHASH'' 0 1 1 False ExtTier"
| "instructionInfo COINBASE = mk_info ''COINBASE'' 0 0 1 False BaseTier"
| "instructionInfo TIMESTAMP = mk_info ''TIMESTAMP'' 0 0 1 False BaseTier"
| "instructionInfo NUMBER = mk_info ''NUMBER'' 0 0 1 False BaseTier"
| "instructionInfo DIFFICULTY = mk_info ''DIFFICULTY'' 0 0 1 False BaseTier"
| "instructionInfo GASLIMIT = mk_info ''GASLIMIT'' 0 0 1 False BaseTier"
| "instructionInfo POP = mk_info ''POP'' 0 1 0 False BaseTier"
| "instructionInfo MLOAD = mk_info ''MLOAD'' 0 1 1 False VeryLowTier"
| "instructionInfo MSTORE = mk_info ''MSTORE'' 0 2 0 True VeryLowTier"
| "instructionInfo MSTORE8 = mk_info ''MSTORE8'' 0 2 0 True VeryLowTier"
| "instructionInfo SLOAD = mk_info ''SLOAD'' 0 1 1 False SpecialTier"
| "instructionInfo SSTORE = mk_info ''SSTORE'' 0 2 0 True SpecialTier"
| "instructionInfo JUMP = mk_info ''JUMP'' 0 1 0 True MidTier"
| "instructionInfo JUMPI = mk_info ''JUMPI'' 0 2 0 True HighTier"
| "instructionInfo PC = mk_info ''PC'' 0 0 1 False BaseTier"
| "instructionInfo MSIZE = mk_info ''MSIZE'' 0 0 1 False BaseTier"
| "instructionInfo GAS = mk_info ''GAS'' 0 0 1 False BaseTier"
| "instructionInfo JUMPDEST = mk_info ''JUMPDEST'' 0 0 0 True SpecialTier"
| "instructionInfo CREATE = mk_info ''CREATE'' 0 3 1 True SpecialTier"
| "instructionInfo CALL = mk_info ''CALL'' 0 7 1 True SpecialTier"
| "instructionInfo CALLCODE = mk_info ''CALLCODE'' 0 7 1 True SpecialTier"
| "instructionInfo RETURN = mk_info ''RETURN'' 0 2 0 True ZeroTier"
| "instructionInfo DELEGATECALL = mk_info ''DELEGATECALL'' 0 6 1 True SpecialTier"
| "instructionInfo SUICIDE = mk_info ''SUICIDE'' 0 1 0 True ZeroTier"
| "instructionInfo (PUSH n) = mk_info (''PUSH'' @ decimal n) n 0 1 False VeryLowTier"
| "instructionInfo (DUP n) = mk_info (''DUP'' @ decimal n) 0 n (n + 1) False VeryLowTier"
| "instructionInfo (SWAP n) = mk_info (''SWAP'' @ decimal n) 0 (n + 1) (n + 1) False VeryLowTier"
| "instructionInfo (LOG n) = mk_info (''LOG'' @ decimal n) 0 (n + 2) 0 True SpecialTier"
| "instructionInfo (INVALID b) =
     mk_info (''<INVALID_INSTRUCTION: '' @ decimal (unat b) @ ''>'') 0 0 0 False InvalidTier"

definition c_instructions :: "(string \<times> instruction) list" where
  "c_instructions = [(''STOP'', STOP), (''ADD'', ADD), (''SUB'', SUB), (''MUL'', MUL),
     (''DIV'', DIV), (''SDIV'', SDIV), (''MOD'', MOD), (''SMOD'', SMOD), (''EXP'', EXP),
     (''BNOT'', NOT'), (''LT'', LT), (''GT'', GT), (''SLT'', SLT), (''SGT'', SGT), (''EQ'', EQ),
     (''NOT'', ISZERO), (''AND'', AND'), (''OR'', OR'), (''XOR'', XOR'), (''BYTE'', BYTE),
     (''ADDMOD'', ADDMOD), (''MULMOD'', MULMOD), (''SIGNEXTEND'', SIGNEXTEND), (''SHA3'', SHA3),
     (''ADDRESS'', ADDRESS), (''BALANCE'', BALANCE), (''ORIGIN'', ORIGIN), (''CALLER'', CALLER),
     (''CALLVALUE'', CALLVALUE), (''CALLDATALOAD'', CALLDATALOAD),
     (''CALLDATASIZE'', CALLDATASIZE), (''CALLDATACOPY'', CALLDATACOPY),
     (''CODESIZE'', CODESIZE), (''CODECOPY'', CODECOPY), (''GASPRICE'', GASPRICE),
     (''EXTCODESIZE'', EXTCODESIZE), (''EXTCODECOPY'', EXTCODECOPY), (''BLOCKHASH'', BLOCKHASH),
     (''COINBASE'', COINBASE), (''TIMESTAMP'', TIMESTAMP), (''NUMBER'', NUMBER),
     (''DIFFICULTY'', DIFFICULTY), (''GASLIMIT'', GASLIMIT), (''POP'', POP), (''MLOAD'', MLOAD),
     (''MSTORE'', MSTORE), (''MSTORE8'', MSTORE8), (''SLOAD'', SLOAD), (''SSTORE'', SSTORE),
     (''JUMP'', JUMP), (''JUMPI'', JUMPI), (''PC'', PC), (''MSIZE'', MSIZE), (''GAS'', GAS),
     (''JUMPDEST'', JUMPDEST), (''CREATE'', CREATE), (''CALL'', CALL), (''CALLCODE'', CALLCODE),
     (''RETURN'', RETURN), (''DELEGATECALL'', DELEGATECALL), (''SUICIDE'', SUICIDE)]
     @ map (\<lambda>n. (''PUSH'' @ decimal n, PUSH n)) [1..<33]
     @ map (\<lambda>n. (''DUP'' @ decimal n, DUP n)) [1..<17]
     @ map (\<lambda>n. (''SWAP'' @ decimal n, SWAP n)) [1..<17]
     @ map (\<lambda>n. (''LOG'' @ decimal n, LOG n)) [0..<5]"

definition isValidInstruction :: "instruction \<Rightarrow> bool" where
  "isValidInstruction i = (case i of INVALID _ \<Rightarrow> False | _ \<Rightarrow> True)"

section \<open>Iterating over code\<close>

text \<open>
  \<^verbatim>\<open>eachInstruction\<close>, returning the sequence of its callbacks.  The bytes of a
  \<^verbatim>\<open>PUSH\<close> that are missing at the end of the code read as zero.
\<close>

fun push_data :: "nat \<Rightarrow> bytes \<Rightarrow> u256 \<Rightarrow> u256" where
  "push_data 0 mem dat = dat"
| "push_data (Suc n) [] dat = push_data n [] (push_bit 8 dat)"
| "push_data (Suc n) (b # mem) dat = push_data n mem (push_bit 8 dat OR ucast b)"

function eachInstruction :: "bytes \<Rightarrow> (instruction \<times> u256) list" where
  "eachInstruction [] = []"
| "eachInstruction (b # mem) =
     (let instr = decode b;
          additional = (if isValidInstruction instr then i_additional (instructionInfo instr) else 0)
      in (instr, push_data additional mem 0) # eachInstruction (drop additional mem))"
  by pat_completeness auto

termination eachInstruction
  by (relation "measure length") auto

definition disassemble :: "bytes \<Rightarrow> string" where
  "disassemble mem =
     concat (map (\<lambda>(instr, dat).
       if \<not> isValidInstruction instr then ''0x'' @ hexOut (unat (opcode instr)) @ '' ''
       else
         (let info = instructionInfo instr in
          i_name info @ '' '' @
          (if i_additional info \<noteq> 0 then ''0x'' @ hexOut (unat dat) @ '' '' else [])))
       (eachInstruction mem))"

section \<open>Gas schedules\<close>

text \<open>The fields of \<^verbatim>\<open>EVMSchedule\<close>; all are constants far below \<open>2 ^ 256\<close>.\<close>

record schedule =
  exceptionalFailedCodeDeposit :: bool
  haveDelegateCall :: bool
  stackLimit :: nat
  tierStepGas :: "nat list"
  expGas :: nat
  expByteGas :: nat
  sha3Gas :: nat
  sha3WordGas :: nat
  sloadGas :: nat
  sstoreSetGas :: nat
  sstoreResetGas :: nat
  sstoreRefundGas :: nat
  jumpdestGas :: nat
  logGas :: nat
  logDataGas :: nat
  logTopicGas :: nat
  createGas :: nat
  callGas :: nat
  callStipend :: nat
  callValueTransferGas :: nat
  callNewAccountGas :: nat
  suicideRefundGas :: nat
  memoryGas :: nat
  quadCoeffDiv :: nat
  createDataGas :: nat
  txGas :: nat
  txCreateGas :: nat
  txDataZeroGas :: nat
  txDataNonZeroGas :: nat
  copyGas :: nat

definition EVMSchedule :: "bool \<Rightarrow> bool \<Rightarrow> nat \<Rightarrow> schedule" where
  "EVMSchedule efcd hdc create_gas =
     \<lparr>exceptionalFailedCodeDeposit = efcd, haveDelegateCall = hdc, stackLimit = 1024,
      tierStepGas = [0, 2, 3, 5, 8, 10, 20, 0], expGas = 10, expByteGas = 10, sha3Gas = 30,
      sha3WordGas = 6, sloadGas = 50, sstoreSetGas = 20000, sstoreResetGas = 5000,
      sstoreRefundGas = 15000, jumpdestGas = 1, logGas = 375, logDataGas = 8, logTopicGas = 375,
      createGas = 32000, callGas = 40, callStipend = 2300, callValueTransferGas = 9000,
      callNewAccountGas = 25000, suicideRefundGas = 24000, memoryGas = 3, quadCoeffDiv = 512,
      createDataGas = 200, txGas = 21000, txCreateGas = create_gas, txDataZeroGas = 4,
      txDataNonZeroGas = 68, copyGas = 3\<rparr>"

definition DefaultSchedule :: schedule where
  "DefaultSchedule = EVMSchedule True True 53000"

definition FrontierSchedule :: schedule where
  "FrontierSchedule = EVMSchedule False False 21000"

definition HomesteadSchedule :: schedule where
  "HomesteadSchedule = EVMSchedule True True 53000"

section \<open>Lemmas\<close>

definition valid_index :: "instruction \<Rightarrow> bool" where
  "valid_index i =
     (case i of PUSH n \<Rightarrow> 1 \<le> n \<and> n \<le> 32 | DUP n \<Rightarrow> 1 \<le> n \<and> n \<le> 16
      | SWAP n \<Rightarrow> 1 \<le> n \<and> n \<le> 16 | LOG n \<Rightarrow> n \<le> 4 | _ \<Rightarrow> True)"

lemma valid_index_simps [simp]:
  "valid_index (PUSH n) \<longleftrightarrow> 1 \<le> n \<and> n \<le> 32"
  "valid_index (DUP n) \<longleftrightarrow> 1 \<le> n \<and> n \<le> 16"
  "valid_index (SWAP n) \<longleftrightarrow> 1 \<le> n \<and> n \<le> 16"
  "valid_index (LOG n) \<longleftrightarrow> n \<le> 4"
  by (simp_all add: valid_index_def)

lemma plain_instructions_ok:
  "list_all (\<lambda>(n, i). unat (opcode i) = n \<and> valid_index i \<and> isValidInstruction i) plain_instructions"
  by (simp add: plain_instructions_def valid_index_def isValidInstruction_def)

lemma plain_instructionsD:
  assumes "map_of plain_instructions n = Some i"
  shows "unat (opcode i) = n" and "valid_index i" and "isValidInstruction i"
  using map_of_SomeD [OF assms] plain_instructions_ok by (auto simp: list_all_iff)

lemma valid_index_decode [simp]: "valid_index (decode b)"
  by (auto simp: decode_def Let_def valid_index_def [of "INVALID b"] dest: plain_instructionsD(2) split: option.splits)

lemma unat_opcode_families:
  "1 \<le> n \<Longrightarrow> n \<le> 32 \<Longrightarrow> unat (opcode (PUSH n)) = 0x5f + n"
  "1 \<le> n \<Longrightarrow> n \<le> 16 \<Longrightarrow> unat (opcode (DUP n)) = 0x7f + n"
  "1 \<le> n \<Longrightarrow> n \<le> 16 \<Longrightarrow> unat (opcode (SWAP n)) = 0x8f + n"
  "n \<le> 4 \<Longrightarrow> unat (opcode (LOG n)) = 0xa0 + n"
  unfolding opcode.simps by (rule unat_word_of_nat; simp)+

lemma unat_opcode_decode: "unat (opcode (decode b)) = unat b"
proof -
  let ?n = "unat b"
  consider "0x60 \<le> ?n" "?n \<le> 0x7f" | "0x80 \<le> ?n" "?n \<le> 0x8f" | "0x90 \<le> ?n" "?n \<le> 0x9f"
    | "0xa0 \<le> ?n" "?n \<le> 0xa4" | "?n < 0x60 \<or> 0xa4 < ?n" by linarith
  then show ?thesis
  proof cases
    case 5
    then show ?thesis
      by (auto simp: decode_def Let_def dest: plain_instructionsD(1) split: option.splits)
  qed (use unat_opcode_families(1) [of "?n - 0x5f"] unat_opcode_families(2) [of "?n - 0x7f"]
      unat_opcode_families(3) [of "?n - 0x8f"] unat_opcode_families(4) [of "?n - 0xa0"]
      in \<open>simp_all add: decode_def Let_def del: opcode.simps\<close>)
qed

lemma opcode_decode [simp]: "opcode (decode b) = b"
  using unat_opcode_decode [of b] by (simp only: unat_eq_iff)

lemma i_additional_le_32: "valid_index i \<Longrightarrow> i_additional (instructionInfo i) \<le> 32"
  by (cases i) (simp_all add: mk_info_def)

lemma i_additional_eq:
  "i_additional (instructionInfo (decode b)) =
     (if 0x60 \<le> unat b \<and> unat b \<le> 0x7f then unat b - 0x5f else 0)"
proof (cases "0x60 \<le> unat b \<and> unat b \<le> 0x7f")
  case True
  then show ?thesis by (simp add: decode_def mk_info_def)
next
  case False
  have np: "\<forall>n. decode b \<noteq> PUSH n"
  proof (rule allI, rule notI)
    fix n assume d: "decode b = PUSH n"
    then have "valid_index (PUSH n)" by (metis valid_index_decode)
    then have "1 \<le> n" and "n \<le> 32" by simp_all
    with d False unat_opcode_decode [of b] show False
      using unat_opcode_families(1) [of n] by simp
  qed
  show ?thesis
    using False np by (cases "decode b") (auto simp: mk_info_def)
qed

text \<open>The bytes of one callback of \<^verbatim>\<open>eachInstruction\<close>.\<close>

definition instruction_bytes :: "instruction \<times> u256 \<Rightarrow> bytes" where
  "instruction_bytes = (\<lambda>(i, dat). opcode i # toBigEndian (i_additional (instructionInfo i)) (unat dat))"

lemma push_data_foldl:
  "push_data n mem dat =
     foldl (\<lambda>r b. push_bit 8 r OR ucast b) dat (take n (mem @ replicate n 0))"
proof (induction n mem dat rule: push_data.induct)
  case (3 n b mem dat)
  then show ?case by (simp add: replicate_append_same [symmetric] del: replicate_append_same)
qed simp_all

lemma push_data_zero:
  assumes "n \<le> 32"
  shows "unat (push_data n mem 0) = fromBigEndian_bigint (take n (mem @ replicate n 0))"
proof -
  let ?bs = "take n (mem @ replicate n 0) :: bytes"
  have "length ?bs = n" by simp
  then have "fromBigEndian_bigint ?bs < 256 ^ n"
    using fromBigEndian_bigint_less [of ?bs] by (simp only:)
  also have "256 ^ n \<le> (256 :: nat) ^ 32" using assms by (intro power_increasing) auto
  finally have "fromBigEndian_bigint ?bs < 2 ^ LENGTH(256)" by simp
  moreover have "push_data n mem 0 = fromBigEndian ?bs"
    by (simp add: push_data_foldl fromBigEndian_def)
  ultimately show ?thesis
    by (simp only: fromBigEndian_word unat_word_of_nat) (simp add: fromBigEndian_word)
qed

lemma instruction_bytes_push:
  assumes "valid_index i"
  shows "instruction_bytes (i, push_data (i_additional (instructionInfo i)) mem 0) =
     opcode i # take (i_additional (instructionInfo i)) (mem @ replicate (i_additional (instructionInfo i)) 0)"
proof -
  let ?n = "i_additional (instructionInfo i)"
  let ?bs = "take ?n (mem @ replicate ?n 0) :: bytes"
  have "length ?bs = ?n" by simp
  then have "toBigEndian ?n (fromBigEndian_bigint ?bs) = ?bs"
    using toBigEndian_fromBigEndian [of ?bs] by (simp only:)
  then show ?thesis
    by (simp add: instruction_bytes_def push_data_zero i_additional_le_32 [OF assms])
qed

lemma i_additional_INVALID:
  "(if isValidInstruction i then i_additional (instructionInfo i) else 0) = i_additional (instructionInfo i)"
  by (cases i) (simp_all add: isValidInstruction_def mk_info_def)

lemma eachInstruction_bytes:
  "\<exists>k<33. concat (map instruction_bytes (eachInstruction mem)) = mem @ replicate k 0"
proof (induction mem rule: eachInstruction.induct)
  case (2 b mem)
  let ?n = "i_additional (instructionInfo (decode b))"
  from 2 [OF refl i_additional_INVALID [symmetric]] obtain k where k: "k < 33"
    "concat (map instruction_bytes (eachInstruction (drop ?n mem))) = drop ?n mem @ replicate k 0"
    by blast
  have e: "concat (map instruction_bytes (eachInstruction (b # mem))) =
      b # take ?n (mem @ replicate ?n 0) @ drop ?n mem @ replicate k 0"
    using k(2) instruction_bytes_push [OF valid_index_decode, of b mem]
    by (simp add: i_additional_INVALID Let_def)
  show ?case
  proof (cases "?n \<le> length mem")
    case True
    then show ?thesis using e k(1) by auto
  next
    case False
    then have "drop ?n mem = []" and "k = 0"
      using k(2) by auto
    then have "concat (map instruction_bytes (eachInstruction (b # mem))) =
        (b # mem) @ replicate (?n - length mem) 0"
      using e False by simp
    moreover have "?n - length mem < 33"
      using i_additional_le_32 [OF valid_index_decode, of b] by linarith
    ultimately show ?thesis by blast
  qed
qed simp

section \<open>Properties\<close>

text \<open>Decoding an opcode byte loses nothing.  Every byte, valid or not, is recovered from the
  instruction it is cast to, and the size of the immediate data that the instruction table gives is
  the one the byte ranges of the virtual machine's jump analysis assume.\<close>

theorem opcode_roundtrip:
  "opcode (decode b) = b
    \<and> i_additional (instructionInfo (decode b)) =
        (if 0x60 \<le> unat b \<and> unat b \<le> 0x7f then unat b - 0x60 + 1 else 0)"
  using opcode_decode [of b] i_additional_eq [of b] by auto

text \<open>\<^verbatim>\<open>eachInstruction\<close> covers the code.  Writing the opcode and the immediate
  data of each callback one after the other gives the code back, with at most 32 zero bytes after
  it for a \<^verbatim>\<open>PUSH\<close> cut off at the end.\<close>

theorem eachInstruction_covers:
  "\<exists>k\<le>32. concat (map instruction_bytes (eachInstruction mem)) = mem @ replicate k 0"
  using eachInstruction_bytes [of mem] by (auto simp: less_Suc_eq_le)

text \<open>The mnemonic table and the instruction table disagree on exactly two entries: the
  mnemonic \<^verbatim>\<open>NOT\<close> assembles to \<^verbatim>\<open>ISZERO\<close>, while the disassembler
  prints \<^verbatim>\<open>NOT\<close> for the bitwise operation, whose mnemonic is
  \<^verbatim>\<open>BNOT\<close>.\<close>

theorem c_instructions_mismatch:
  "filter (\<lambda>(m, i). i_name (instructionInfo i) \<noteq> m) c_instructions =
     [(''BNOT'', NOT'), (''NOT'', ISZERO)]"
proof -
  have "filter (\<lambda>(m, i). i_name (instructionInfo i) \<noteq> m) (map (\<lambda>n. (''PUSH'' @ decimal n, PUSH n)) ns) = []"
    "filter (\<lambda>(m, i). i_name (instructionInfo i) \<noteq> m) (map (\<lambda>n. (''DUP'' @ decimal n, DUP n)) ns) = []"
    "filter (\<lambda>(m, i). i_name (instructionInfo i) \<noteq> m) (map (\<lambda>n. (''SWAP'' @ decimal n, SWAP n)) ns) = []"
    "filter (\<lambda>(m, i). i_name (instructionInfo i) \<noteq> m) (map (\<lambda>n. (''LOG'' @ decimal n, LOG n)) ns) = []"
    for ns by (auto simp: filter_empty_conv mk_info_def)
  then show ?thesis
    unfolding c_instructions_def filter_append by (simp add: mk_info_def)
qed

end
