(* ===== verification/Sha3.thy ===== *)
theory Sha3
  imports Common_Data
begin

text \<open>
  \<^verbatim>\<open>libdevcore/SHA3.cpp\<close> and \<^verbatim>\<open>SHA3.h\<close>: the Keccak-f[1600] permutation,
  the sponge built on it and \<^verbatim>\<open>sha3\<close>.  The 200-byte state is a byte list; the
  permutation reads it as 25 little-endian 64-bit lanes, as the cast of the buffer does on the
  little-endian machines the program is built for.  The lemmas give the sponge on the padded
  message and the closed form of the in-place rho and pi steps.
\<close>

section \<open>The permutation\<close>

definition keccak_rho :: "nat list" where
  "keccak_rho = [1, 3, 6, 10, 15, 21, 28, 36, 45, 55, 2, 14, 27, 41, 56, 8, 25, 43, 62, 18, 39, 61, 20, 44]"

definition keccak_pi :: "nat list" where
  "keccak_pi = [10, 7, 11, 17, 18, 3, 5, 16, 8, 21, 24, 4, 15, 23, 19, 13, 12, 2, 20, 14, 22, 9, 6, 1]"

definition keccak_RC :: "u64 list" where
  "keccak_RC =
     [1, 0x8082, 0x800000000000808a, 0x8000000080008000,
      0x808b, 0x80000001, 0x8000000080008081, 0x8000000000008009,
      0x8a, 0x88, 0x80008009, 0x8000000a,
      0x8000808b, 0x800000000000008b, 0x8000000000008089, 0x8000000000008003,
      0x8000000000008002, 0x8000000000000080, 0x800a, 0x800000008000000a,
      0x8000000080008081, 0x8000000000008080, 0x80000001, 0x8000000080008008]"

definition rol :: "u64 \<Rightarrow> nat \<Rightarrow> u64" where
  "rol x s = push_bit s x OR drop_bit (64 - s) x"

definition keccak_theta :: "u64 list \<Rightarrow> u64 list" where
  "keccak_theta a =
     (let b = map (\<lambda>x. foldl (\<lambda>r y. r XOR a ! (x + y)) 0 [0, 5, 10, 15, 20]) [0..<5]
      in map (\<lambda>i. let x = i mod 5 in
                  a ! i XOR (b ! ((x + 4) mod 5) XOR rol (b ! ((x + 1) mod 5)) 1)) [0..<25])"

text \<open>The unrolled loop of the rho and pi steps, in place, with \<open>t\<close> the lane in hand.\<close>

fun rho_pi_loop :: "(nat \<times> nat) list \<Rightarrow> u64 list \<Rightarrow> u64 \<Rightarrow> u64 list" where
  "rho_pi_loop [] a t = a"
| "rho_pi_loop ((p, r) # ps) a t = (let b0 = a ! p in rho_pi_loop ps (a[p := rol t r]) b0)"

definition keccak_rho_pi :: "u64 list \<Rightarrow> u64 list" where
  "keccak_rho_pi a = rho_pi_loop (zip keccak_pi keccak_rho) a (a ! 1)"

definition keccak_chi :: "u64 list \<Rightarrow> u64 list" where
  "keccak_chi a =
     concat (map (\<lambda>y. let b = map (\<lambda>x. a ! (y + x)) [0..<5] in
       map (\<lambda>x. b ! x XOR (NOT (b ! ((x + 1) mod 5)) AND b ! ((x + 2) mod 5))) [0..<5])
       [0, 5, 10, 15, 20])"

definition keccak_round :: "u64 list \<Rightarrow> u64 \<Rightarrow> u64 list" where
  "keccak_round a rc = (let c = keccak_chi (keccak_rho_pi (keccak_theta a)) in c[0 := c ! 0 XOR rc])"

definition keccakf_lanes :: "u64 list \<Rightarrow> u64 list" where
  "keccakf_lanes a = foldl keccak_round a keccak_RC"

definition lanes_of :: "bytes \<Rightarrow> u64 list" where
  "lanes_of s = map (\<lambda>i. fromBigEndian (rev (take 8 (drop (8 * i) s)))) [0..<25]"

definition bytes_of_lanes :: "u64 list \<Rightarrow> bytes" where
  "bytes_of_lanes a = concat (map (\<lambda>w. rev (toBigEndian 8 (unat w))) a)"

definition keccakf :: "bytes \<Rightarrow> bytes" where
  "keccakf s = bytes_of_lanes (keccakf_lanes (lanes_of s))"

section \<open>The sponge\<close>

definition xorin :: "bytes \<Rightarrow> bytes \<Rightarrow> bytes" where
  "xorin dst src = map2 (XOR) (take (length src) dst) src @ drop (length src) dst"

text \<open>\<^verbatim>\<open>foldP(in, inlen, xorin)\<close>; the rate is positive in every instance.\<close>

function absorb :: "nat \<Rightarrow> bytes \<Rightarrow> bytes \<Rightarrow> bytes \<times> bytes" where
  "absorb rate a inp =
     (if 0 < rate \<and> rate \<le> length inp
      then absorb rate (keccakf (xorin a (take rate inp))) (drop rate inp)
      else (a, inp))"
  by pat_completeness auto

termination absorb
  by (relation "measure (\<lambda>(rate, a, inp). length inp)") auto

declare absorb.simps [simp del]

function squeeze :: "nat \<Rightarrow> bytes \<Rightarrow> nat \<Rightarrow> bytes" where
  "squeeze rate a outlen =
     (if 0 < rate \<and> rate \<le> outlen
      then take rate a @ squeeze rate (keccakf a) (outlen - rate)
      else take outlen a)"
  by pat_completeness auto

termination squeeze
  by (relation "measure (\<lambda>(rate, a, n). n)") auto

declare squeeze.simps [simp del]

text \<open>\<^verbatim>\<open>hash\<close>; \<open>None\<close> is the return value -1.\<close>

definition keccak_hash :: "nat \<Rightarrow> bytes \<Rightarrow> nat \<Rightarrow> byte \<Rightarrow> bytes option" where
  "keccak_hash outlen inp rate delim =
     (if rate \<ge> 200 then None
      else
        (let (a, rest) = absorb rate (replicate 200 0) inp;
             a1 = a[length rest := a ! length rest XOR delim];
             a2 = a1[rate - 1 := a1 ! (rate - 1) XOR 0x80];
             a3 = xorin a2 rest
         in Some (squeeze rate (keccakf a3) outlen)))"

definition sha3_bits :: "nat \<Rightarrow> nat \<Rightarrow> bytes \<Rightarrow> bytes option" where
  "sha3_bits bits outlen inp =
     (if outlen > bits div 8 then None else keccak_hash outlen inp (200 - bits div 4) 0x01)"

definition shake_bits :: "nat \<Rightarrow> nat \<Rightarrow> bytes \<Rightarrow> bytes option" where
  "shake_bits bits outlen inp = keccak_hash outlen inp (200 - bits div 4) 0x1f"

text \<open>\<^verbatim>\<open>sha3(_input, o_output)\<close> fills a buffer of 32 bytes and refuses any other.\<close>

definition sha3_into :: "bytes \<Rightarrow> bytes \<Rightarrow> bool \<times> bytes" where
  "sha3_into inp out =
     (if length out \<noteq> 32 then (False, out)
      else (case sha3_bits 256 32 inp of None \<Rightarrow> (True, out) | Some h \<Rightarrow> (True, h)))"

definition sha3 :: "bytes \<Rightarrow> h256" where
  "sha3 inp = fromBigEndian (snd (sha3_into inp (replicate 32 0)))"

definition sha3mac :: "bytes \<Rightarrow> bytes \<Rightarrow> bytes \<Rightarrow> bytes" where
  "sha3mac secret plain out = populate (snd (sha3_into (secret @ plain) (replicate 32 0))) out"

section \<open>Lemmas\<close>

lemma list_25_exhaust:
  assumes "length a = 25"
  obtains a0 a1 a2 a3 a4 a5 a6 a7 a8 a9 a10 a11 a12 a13 a14 a15 a16 a17 a18 a19 a20 a21 a22 a23 a24
  where "a = [a0, a1, a2, a3, a4, a5, a6, a7, a8, a9, a10, a11, a12, a13, a14, a15, a16, a17, a18,
      a19, a20, a21, a22, a23, a24]"
  using assms by (auto simp: eval_nat_numeral length_Suc_conv)

text \<open>The lane of the sheet \<open>x\<close> and plane \<open>y\<close> is rotated and goes to sheet \<open>y\<close>,
  plane \<open>2 x + 3 y\<close>; the rotation offsets of the standard, by lane number.\<close>

definition rho_offsets :: "nat list" where
  "rho_offsets = [0, 1, 62, 28, 27, 36, 44, 6, 55, 20, 3, 10, 43, 25, 39, 41, 45, 15, 21, 8, 18, 2, 61, 56, 14]"

lemma rol_0 [simp]: "rol x 0 = x"
  by (rule bit_eqI) (auto simp: rol_def bit_simps)

lemma keccak_rho_pi_closed:
  assumes "length a = 25"
  shows "\<forall>i<25. keccak_rho_pi a ! (i div 5 + 5 * ((2 * (i mod 5) + 3 * (i div 5)) mod 5)) =
           rol (a ! i) (rho_offsets ! i)"
proof -
  have "list_all (\<lambda>i. keccak_rho_pi a ! (i div 5 + 5 * ((2 * (i mod 5) + 3 * (i div 5)) mod 5)) =
           rol (a ! i) (rho_offsets ! i)) [0..<25]"
    using assms
    by (rule list_25_exhaust)
      (simp add: keccak_rho_pi_def keccak_pi_def keccak_rho_def rho_offsets_def upt_rec Let_def)
  then show ?thesis by (simp only: list_all_iff set_upt atLeast0LessThan lessThan_iff Ball_def)
qed

lemma length_keccak [simp]:
  "length (keccak_theta a) = 25" "length (keccak_chi a) = 25" "length (keccak_round a rc) = 25"
  by (simp_all add: keccak_theta_def keccak_chi_def keccak_round_def Let_def)

lemma length_keccakf_lanes: "length a = 25 \<Longrightarrow> length (keccakf_lanes a) = 25"
proof -
  have "length (foldl keccak_round a rcs) = 25" if "length a = 25" for rcs
    using that by (induction rcs rule: rev_induct) auto
  then show "length a = 25 \<Longrightarrow> length (keccakf_lanes a) = 25" by (simp add: keccakf_lanes_def)
qed

lemma length_bytes_of_lanes: "length (bytes_of_lanes a) = 8 * length a"
  by (induction a) (auto simp: bytes_of_lanes_def)

lemma length_keccakf [simp]: "length (keccakf s) = 200"
  by (simp add: keccakf_def length_bytes_of_lanes length_keccakf_lanes lanes_of_def)

lemma length_xorin [simp]: "length src \<le> length dst \<Longrightarrow> length (xorin dst src) = length dst"
  by (simp add: xorin_def)

lemma nth_xorin:
  "length src \<le> length dst \<Longrightarrow> i < length dst \<Longrightarrow>
     xorin dst src ! i = (if i < length src then dst ! i XOR src ! i else dst ! i)"
  by (simp add: xorin_def nth_append)

text \<open>The specification of the sponge: the message is padded to a multiple of the rate, and the
  state absorbs the blocks one after the other.\<close>

definition pad_frame :: "nat \<Rightarrow> byte \<Rightarrow> byte list" where
  "pad_frame k delim = (let p = (replicate k 0)[0 := delim] in p[k - 1 := p ! (k - 1) XOR 0x80])"

definition padded :: "nat \<Rightarrow> byte \<Rightarrow> bytes \<Rightarrow> bytes" where
  "padded rate delim m = m @ pad_frame (rate - length m mod rate) delim"

definition chunks :: "nat \<Rightarrow> 'a list \<Rightarrow> 'a list list" where
  "chunks r xs = map (\<lambda>i. take r (drop (i * r) xs)) [0..<length xs div r]"

definition sponge :: "nat \<Rightarrow> byte \<Rightarrow> bytes \<Rightarrow> bytes \<Rightarrow> bytes" where
  "sponge rate delim m a = fold (\<lambda>blk a. keccakf (xorin a blk)) (chunks rate (padded rate delim m)) a"

lemma chunks_step:
  assumes "0 < r" and "r \<le> length xs"
  shows "chunks r xs = take r xs # chunks r (drop r xs)"
proof -
  have "length xs div r = Suc ((length xs - r) div r)"
    using assms by (simp add: le_div_geq)
  then show ?thesis
    unfolding chunks_def by (simp add: upt_conv_Cons map_Suc_upt [symmetric] add.commute del: upt_Suc)
qed

lemma chunks_short: "length xs < r \<Longrightarrow> chunks r xs = []"
  by (simp add: chunks_def)

lemma length_pad_frame [simp]: "length (pad_frame k delim) = k"
  by (simp add: pad_frame_def Let_def)

lemma padded_step:
  assumes "0 < rate" and "rate \<le> length m"
  shows "take rate (padded rate delim m) = take rate m"
    and "drop rate (padded rate delim m) = padded rate delim (drop rate m)"
proof -
  have "length m mod rate = (length m - rate) mod rate"
    using assms by (simp add: le_mod_geq)
  then show "take rate (padded rate delim m) = take rate m"
    and "drop rate (padded rate delim m) = padded rate delim (drop rate m)"
    using assms by (simp_all add: padded_def)
qed

lemma last_block:
  assumes "length a = 200" and "length m < rate" and "rate < 200"
  shows "xorin (a[length m := a ! length m XOR delim,
                  rate - 1 := a[length m := a ! length m XOR delim] ! (rate - 1) XOR 0x80]) m =
           xorin a (padded rate delim m)"
proof (rule nth_equalityI)
  have l: "length (padded rate delim m) = rate" using assms by (simp add: padded_def)
  show "length (xorin (a[length m := a ! length m XOR delim,
                  rate - 1 := a[length m := a ! length m XOR delim] ! (rate - 1) XOR 0x80]) m) =
        length (xorin a (padded rate delim m))"
    using assms l by simp
  fix i assume "i < length (xorin (a[length m := a ! length m XOR delim,
                  rate - 1 := a[length m := a ! length m XOR delim] ! (rate - 1) XOR 0x80]) m)"
  then have i: "i < 200" using assms by simp
  show "xorin (a[length m := a ! length m XOR delim,
                  rate - 1 := a[length m := a ! length m XOR delim] ! (rate - 1) XOR 0x80]) m ! i =
        xorin a (padded rate delim m) ! i"
    using assms i l
    by (auto simp: nth_xorin nth_list_update padded_def pad_frame_def nth_append Let_def xor.assoc
        simp del: nth_0_Cons)
qed

lemma absorb_sponge:
  assumes "0 < rate" and "rate < 200" and "length a = 200" and "absorb rate a m = (b, rest)"
  shows "keccakf (xorin (b[length rest := b ! length rest XOR delim,
      rate - 1 := b[length rest := b ! length rest XOR delim] ! (rate - 1) XOR 0x80]) rest) =
     sponge rate delim m a"
  using assms
proof (induction rate a m rule: absorb.induct)
  case (1 rate a m)
  show ?case
  proof (cases "rate \<le> length m")
    case True
    then have "absorb rate (keccakf (xorin a (take rate m))) (drop rate m) = (b, rest)"
      using 1(2,5) by (subst (asm) absorb.simps) simp
    with 1 True have "keccakf (xorin (b[length rest := b ! length rest XOR delim,
        rate - 1 := b[length rest := b ! length rest XOR delim] ! (rate - 1) XOR 0x80]) rest) =
      sponge rate delim (drop rate m) (keccakf (xorin a (take rate m)))" by simp
    moreover have "rate \<le> length (padded rate delim m)" using True by (simp add: padded_def)
    ultimately show ?thesis
      using padded_step [OF 1(2) True, of delim] chunks_step [OF 1(2), of "padded rate delim m"]
      by (simp add: sponge_def)
  next
    case False
    then have "b = a" and "rest = m"
      using 1(5) by (subst (asm) absorb.simps, simp)+
    moreover have l: "length (padded rate delim m) = rate" using False by (simp add: padded_def)
    moreover from l have "chunks rate (padded rate delim m) = [padded rate delim m]"
      using 1(2) by (simp add: chunks_step chunks_short)
    ultimately show ?thesis
      using last_block [OF 1(4), of m rate delim] False 1(3) by (simp add: sponge_def)
  qed
qed

lemma length_squeeze: "0 < rate \<Longrightarrow> rate \<le> 200 \<Longrightarrow> length a = 200 \<Longrightarrow> length (squeeze rate a n) = n"
proof (induction rate a n rule: squeeze.induct)
  case (1 rate a n)
  then show ?case by (subst squeeze.simps) auto
qed

section \<open>Properties\<close>

text \<open>C6: \<^verbatim>\<open>hash\<close> is the Keccak sponge.  Absorbing the full blocks in place, xoring the
  delimiter and the final bit into the state and then the rest of the input, is absorbing the
  padded message block by block, and the output has the requested length.\<close>

theorem keccak_hash_sponge:
  assumes "0 < rate" and "rate < 200"
  shows "keccak_hash outlen inp rate delim =
           Some (squeeze rate (sponge rate delim inp (replicate 200 0)) outlen)
    \<and> length (squeeze rate (sponge rate delim inp (replicate 200 0)) outlen) = outlen"
proof -
  obtain b rest where ab: "absorb rate (replicate 200 0) inp = (b, rest)" by force
  note sp = absorb_sponge [OF assms _ ab, of delim]
  have "length (sponge rate delim inp (replicate 200 0)) = 200"
    using sp [symmetric] by simp
  then show ?thesis
    using sp assms by (simp add: keccak_hash_def ab Let_def length_squeeze)
qed

theorem keccak_hash_sponge_witness:
  "keccak_hash 32 [1, 2, 3] 136 1 = Some (squeeze 136 (sponge 136 1 [1, 2, 3] (replicate 200 0)) 32)"
  using keccak_hash_sponge [of 136 32 "[1, 2, 3]" 1] by simp

text \<open>C13: the in-place rho and pi loop of \<^verbatim>\<open>keccakf\<close> is the permutation of the
  standard.  The lane of sheet \<open>x\<close> and plane \<open>y\<close> is rotated by its offset and moved to sheet
  \<open>y\<close> and plane \<open>2 x + 3 y\<close>, for all 25 lanes.\<close>

theorem keccak_rho_pi_standard:
  assumes "length a = 25" and "x < 5" and "y < 5"
  shows "keccak_rho_pi a ! (y + 5 * ((2 * x + 3 * y) mod 5)) = rol (a ! (x + 5 * y)) (rho_offsets ! (x + 5 * y))"
proof -
  have "x + 5 * y < 25" "(x + 5 * y) div 5 = y" "(x + 5 * y) mod 5 = x" using assms(2,3) by auto
  then show ?thesis using keccak_rho_pi_closed [OF assms(1)] by metis
qed

theorem keccak_rho_pi_standard_witness:
  "keccak_rho_pi (map word_of_nat [0..<25]) ! (3 + 5 * ((2 * 2 + 3 * 3) mod 5)) =
     rol (map word_of_nat [0..<25] ! 17) (rho_offsets ! 17)"
  using keccak_rho_pi_standard [of "map word_of_nat [0..<25]" 2 3] by simp

end
