(* ===== verification/Evm.thy ===== *)
theory Evm
  imports Instruction Sha3 "HOL-Library.Signed_Division"
begin

text \<open>
  \<^verbatim>\<open>libevm/VM.h\<close>, \<^verbatim>\<open>VM.cpp\<close> and \<^verbatim>\<open>ExtVMFace.h\<close>: the
  interpreter and the interface through which it reaches the world.  The virtual methods of
  \<^verbatim>\<open>ExtVMFace\<close> are a record of functions over a world of any type, so that the
  interpreter is verified once for every implementation; the locale \<open>vm_world\<close> is what it relies
  on, and \<open>Executive\<close> interprets it.  The operand stack is a list whose head is
  \<^verbatim>\<open>m_stack.back()\<close>; \<^verbatim>\<open>m_stack[m_stack.size() - k]\<close> is its element
  \<open>k - 1\<close>.  Tracing callbacks (\<^verbatim>\<open>OnOpFunc\<close>) are left out: they only log.
\<close>

section \<open>The interface\<close>

record log_entry =
  log_address :: address
  log_topics :: "h256 list"
  log_data :: bytes

record sub_state =
  suicides :: "address set"
  logs :: "log_entry list"
  refunds :: u256

definition sub_empty :: sub_state where
  "sub_empty = \<lparr>suicides = {}, logs = [], refunds = 0\<rparr>"

text \<open>\<^verbatim>\<open>SubState::operator+=\<close>\<close>

definition sub_add :: "sub_state \<Rightarrow> sub_state \<Rightarrow> sub_state" where
  "sub_add s t =
     \<lparr>suicides = suicides s \<union> suicides t, logs = logs s @ logs t, refunds = refunds s + refunds t\<rparr>"

definition sub_clear :: "sub_state \<Rightarrow> sub_state" where
  "sub_clear s = s\<lparr>suicides := {}, logs := [], refunds := 0\<rparr>"

record call_params =
  senderAddress :: address
  codeAddress :: address
  receiveAddress :: address
  valueTransfer :: u256
  apparentValue :: u256
  cp_gas :: u256
  cp_data :: bytes
  cp_out :: bytes

record env_info =
  e_number :: u256
  e_author :: address
  e_timestamp :: u256
  e_difficulty :: u256
  e_gasLimit :: u256
  e_lastHashes :: "h256 list"
  e_gasUsed :: u256

text \<open>The data members of \<^verbatim>\<open>ExtVMFace\<close> that do not change during execution.\<close>

record ext_env =
  x_envInfo :: env_info
  x_myAddress :: address
  x_caller :: address
  x_origin :: address
  x_value :: u256
  x_gasPrice :: u256
  x_data :: bytes
  x_code :: bytes
  x_depth :: nat
  x_schedule :: schedule

text \<open>
  Its virtual methods.  \<^verbatim>\<open>call\<close> and \<^verbatim>\<open>create\<close> return the gas left, the
  contents of the output buffer, the world and the sub-state after them; \<open>None\<close> is a call that
  does not return.
\<close>

record 'w ext_ops =
  x_store :: "'w \<Rightarrow> u256 \<Rightarrow> u256"
  x_setStore :: "u256 \<Rightarrow> u256 \<Rightarrow> 'w \<Rightarrow> 'w"
  x_balance :: "'w \<Rightarrow> address \<Rightarrow> u256"
  x_codeAt :: "'w \<Rightarrow> address \<Rightarrow> bytes"
  x_exists :: "'w \<Rightarrow> address \<Rightarrow> bool"
  x_suicide :: "address \<Rightarrow> 'w \<Rightarrow> 'w"
  x_create :: "u256 \<Rightarrow> u256 \<Rightarrow> bytes \<Rightarrow> 'w \<times> sub_state \<Rightarrow> (address \<times> u256 \<times> 'w \<times> sub_state) option"
  x_call :: "call_params \<Rightarrow> 'w \<times> sub_state \<Rightarrow> (bool \<times> u256 \<times> bytes \<times> 'w \<times> sub_state) option"

definition getCode :: "ext_env \<Rightarrow> nat \<Rightarrow> byte" where
  "getCode E n = (if n < length (x_code E) then x_code E ! n else 0)"

text \<open>\<^verbatim>\<open>blockHash\<close>; the program keeps 256 last hashes.\<close>

definition blockHash :: "ext_env \<Rightarrow> u256 \<Rightarrow> h256" where
  "blockHash E n =
     (let num = e_number (x_envInfo E) in
      if n < num \<and> n \<ge> max 256 num - 256
      then e_lastHashes (x_envInfo E) ! (unat (num - 1 - n) mod 2 ^ 32) else 0)"

section \<open>The machine\<close>

datatype vm_error =
  BreakPointHit | BadInstruction | BadJumpDestination | OutOfGas | OutOfStack | StackUnderflow

record 'w vm =
  m_curPC :: u64
  m_steps :: u64
  m_temp :: bytes
  m_stack :: "u256 list"
  m_jumpDests :: "nat list"
  io_gas :: u256
  v_world :: 'w
  v_sub :: sub_state

definition asAddress :: "u256 \<Rightarrow> address" where
  "asAddress item = right160 item"

definition fromAddress :: "address \<Rightarrow> u256" where
  "fromAddress a = ucast a"

text \<open>A conversion to \<^verbatim>\<open>unsigned\<close> and one to \<^verbatim>\<open>size_t\<close>.\<close>

definition to_unsigned :: "u256 \<Rightarrow> nat" where
  "to_unsigned v = unat v mod 2 ^ 32"

definition to_size_t :: "u256 \<Rightarrow> nat" where
  "to_size_t v = unat v mod 2 ^ 64"

definition vm_require :: "schedule \<Rightarrow> nat \<Rightarrow> nat \<Rightarrow> u256 list \<Rightarrow> vm_error + unit" where
  "vm_require S n d st =
     (if length st < n then Inl StackUnderflow
      else if length st - n + d > stackLimit S then Inl OutOfStack
      else Inr ())"

definition memNeed :: "u256 \<Rightarrow> u256 \<Rightarrow> nat" where
  "memNeed offset sz = (if sz \<noteq> 0 then unat offset + unat sz else 0)"

definition gasForMem :: "schedule \<Rightarrow> nat \<Rightarrow> nat" where
  "gasForMem S sz = (let s = sz div 32 in memoryGas S * s + s * s div quadCoeffDiv S)"

text \<open>
  The switch of \<^verbatim>\<open>checkRequirements\<close>: the gas of the instruction before memory and
  copying, the memory size it needs and the number of bytes it copies.
\<close>

definition op_gas :: "'w ext_ops \<Rightarrow> ext_env \<Rightarrow> instruction \<Rightarrow> 'w vm \<Rightarrow> nat" where
  "op_gas W E inst v =
     (let S = x_schedule E; st = m_stack v in
      case inst of
        SSTORE \<Rightarrow>
          (if x_store W (v_world v) (st ! 0) = 0 \<and> st ! 1 \<noteq> 0 then sstoreSetGas S else sstoreResetGas S)
      | SLOAD \<Rightarrow> sloadGas S
      | SHA3 \<Rightarrow> sha3Gas S + (unat (st ! 1) + 31) div 32 * sha3WordGas S
      | JUMPDEST \<Rightarrow> 1
      | LOG n \<Rightarrow> logGas S + logTopicGas S * n + logDataGas S * unat (st ! 1)
      | CALL \<Rightarrow>
          unat (st ! 0) + callGas S
          + (if \<not> x_exists W (v_world v) (asAddress (st ! 1)) then callNewAccountGas S else 0)
          + (if st ! 2 > 0 then callValueTransferGas S else 0)
      | CALLCODE \<Rightarrow>
          unat (st ! 0) + callGas S + (if st ! 2 > 0 then callValueTransferGas S else 0)
      | DELEGATECALL \<Rightarrow> unat (st ! 0) + callGas S
      | CREATE \<Rightarrow> createGas S
      | EXP \<Rightarrow> expGas S + expByteGas S * (32 - firstBitSet (toBigEndian 32 (unat (st ! 1))) div 8)
      | _ \<Rightarrow> tierStepGas S ! tier_index (i_gasPriceTier (instructionInfo inst)))"

definition op_refund :: "'w ext_ops \<Rightarrow> ext_env \<Rightarrow> instruction \<Rightarrow> 'w vm \<Rightarrow> nat" where
  "op_refund W E inst v =
     (case inst of
        SSTORE \<Rightarrow>
          (if x_store W (v_world v) (m_stack v ! 0) = 0 \<and> m_stack v ! 1 \<noteq> 0 then 0
           else if x_store W (v_world v) (m_stack v ! 0) \<noteq> 0 \<and> m_stack v ! 1 = 0
           then sstoreRefundGas (x_schedule E) else 0)
      | _ \<Rightarrow> 0)"

definition op_newTempSize :: "instruction \<Rightarrow> 'w vm \<Rightarrow> nat" where
  "op_newTempSize inst v =
     (let st = m_stack v in
      case inst of
        MSTORE \<Rightarrow> unat (st ! 0) + 32
      | MSTORE8 \<Rightarrow> unat (st ! 0) + 1
      | MLOAD \<Rightarrow> unat (st ! 0) + 32
      | RETURN \<Rightarrow> memNeed (st ! 0) (st ! 1)
      | SHA3 \<Rightarrow> memNeed (st ! 0) (st ! 1)
      | CALLDATACOPY \<Rightarrow> memNeed (st ! 0) (st ! 2)
      | CODECOPY \<Rightarrow> memNeed (st ! 0) (st ! 2)
      | EXTCODECOPY \<Rightarrow> memNeed (st ! 1) (st ! 3)
      | LOG n \<Rightarrow> memNeed (st ! 0) (st ! 1)
      | CALL \<Rightarrow> max (memNeed (st ! 5) (st ! 6)) (memNeed (st ! 3) (st ! 4))
      | CALLCODE \<Rightarrow> max (memNeed (st ! 5) (st ! 6)) (memNeed (st ! 3) (st ! 4))
      | DELEGATECALL \<Rightarrow> max (memNeed (st ! 4) (st ! 5)) (memNeed (st ! 2) (st ! 3))
      | CREATE \<Rightarrow> memNeed (st ! 1) (st ! 2)
      | _ \<Rightarrow> length (m_temp v))"

definition op_copySize :: "instruction \<Rightarrow> 'w vm \<Rightarrow> nat" where
  "op_copySize inst v =
     (case inst of
        CALLDATACOPY \<Rightarrow> unat (m_stack v ! 2)
      | CODECOPY \<Rightarrow> unat (m_stack v ! 2)
      | EXTCODECOPY \<Rightarrow> unat (m_stack v ! 3)
      | _ \<Rightarrow> 0)"

definition newTempSize :: "instruction \<Rightarrow> 'w vm \<Rightarrow> nat" where
  "newTempSize inst v = (op_newTempSize inst v + 31) div 32 * 32"

definition runGas :: "'w ext_ops \<Rightarrow> ext_env \<Rightarrow> instruction \<Rightarrow> 'w vm \<Rightarrow> nat" where
  "runGas W E inst v =
     (let S = x_schedule E; n = newTempSize inst v; old = length (m_temp v) in
      op_gas W E inst v + (if n > old then gasForMem S n - gasForMem S old else 0)
      + copyGas S * ((op_copySize inst v + 31) div 32))"

definition resize :: "bytes \<Rightarrow> nat \<Rightarrow> bytes" where
  "resize m n = take n m @ replicate (n - length m) 0"

text \<open>The state the exception leaves: the refund is added before the gas is checked.\<close>

definition checkRequirements ::
  "'w ext_ops \<Rightarrow> ext_env \<Rightarrow> instruction \<Rightarrow> 'w vm \<Rightarrow> vm_error \<times> 'w vm + 'w vm" where
  "checkRequirements W E inst v =
     (let S = x_schedule E; info = instructionInfo inst in
      if \<not> haveDelegateCall S \<and> inst = DELEGATECALL then Inl (BadInstruction, v)
      else if i_gasPriceTier info = InvalidTier then Inl (BadInstruction, v)
      else case vm_require S (i_args info) (i_ret info) (m_stack v) of
        Inl e \<Rightarrow> Inl (e, v)
      | Inr _ \<Rightarrow>
          (let v1 = v\<lparr>v_sub := (v_sub v)\<lparr>refunds := refunds (v_sub v) + word_of_nat (op_refund W E inst v)\<rparr>\<rparr>;
               g = runGas W E inst v
           in if unat (io_gas v) < g then Inl (OutOfGas, v1)
              else Inr (v1\<lparr>io_gas := io_gas v - word_of_nat g,
                     m_temp := (if newTempSize inst v > length (m_temp v)
                                then resize (m_temp v) (newTempSize inst v) else m_temp v)\<rparr>)))"

text \<open>\<^verbatim>\<open>verifyJumpDest\<close>; the destinations are sorted, so the binary search is membership.\<close>

definition verifyJumpDest :: "u256 \<Rightarrow> nat list \<Rightarrow> vm_error + u64" where
  "verifyJumpDest dest valid =
     (let nextPC = word_of_nat (unat dest) :: u64 in
      if unat nextPC \<notin> set valid \<or> unat dest > 2 ^ 64 - 1 then Inl BadJumpDestination
      else Inr nextPC)"

text \<open>A write of a block of bytes and a read of one, at an offset in memory.\<close>

definition mem_write :: "bytes \<Rightarrow> nat \<Rightarrow> bytes \<Rightarrow> bytes" where
  "mem_write m off bs = take off m @ bs @ drop (off + length bs) m"

definition mem_read :: "bytes \<Rightarrow> nat \<Rightarrow> nat \<Rightarrow> bytes" where
  "mem_read m off n = take n (drop off m)"

definition copyDataToMemory :: "bytes \<Rightarrow> u256 list \<Rightarrow> bytes \<Rightarrow> u256 list \<times> bytes" where
  "copyDataToMemory dat st mem =
     (let offset = to_size_t (st ! 0); bigIndex = unat (st ! 1); index = to_size_t (st ! 1);
          sz = to_size_t (st ! 2);
          sizeToBeCopied =
            (if bigIndex + sz > length dat
             then (if length dat < bigIndex then 0 else length dat - index) else sz);
          m1 = (if sizeToBeCopied > 0
                then mem_write mem offset (mem_read dat index sizeToBeCopied) else mem);
          m2 = (if sz > sizeToBeCopied
                then mem_write m1 (offset + sizeToBeCopied) (replicate (sz - sizeToBeCopied) 0)
                else m1)
      in (drop 3 st, m2))"

text \<open>The jump analysis at the start of \<^verbatim>\<open>execImpl\<close>.\<close>

function find_jumpDests :: "bytes \<Rightarrow> nat \<Rightarrow> nat list" where
  "find_jumpDests code i =
     (if i < length code then
        (if unat (code ! i) = 0x5b then i # find_jumpDests code (Suc i)
         else if unat (code ! i) \<ge> 0x60 \<and> unat (code ! i) \<le> 0x7f
         then find_jumpDests code (i + (unat (code ! i) - 0x60 + 1) + 1)
         else find_jumpDests code (Suc i))
      else [])"
  by pat_completeness auto

termination find_jumpDests
  by (relation "measure (\<lambda>(code, i). length code - i)") auto

declare find_jumpDests.simps [simp del]

text \<open>\<^verbatim>\<open>boost::multiprecision::powm\<close>, by squaring.\<close>

fun powm :: "nat \<Rightarrow> nat \<Rightarrow> nat \<Rightarrow> nat" where
  "powm b e m =
     (if e = 0 then 1 mod m
      else (let h = powm (b * b mod m) (e div 2) m in if odd e then b * h mod m else h))"

declare powm.simps [simp del]

definition bool_word :: "bool \<Rightarrow> u256" where
  "bool_word b = (if b then 1 else 0)"

definition vm_signextend :: "u256 \<Rightarrow> u256 \<Rightarrow> u256" where
  "vm_signextend k number =
     (if k < 31 then
        (let testBit = unat k * 8 + 7; mask = push_bit testBit 1 - 1 in
         if bit number testBit then number OR NOT mask else number AND mask)
      else number)"

definition vm_calldataload :: "bytes \<Rightarrow> u256 \<Rightarrow> u256" where
  "vm_calldataload dat p =
     (if unat p + 31 < length dat then fromBigEndian (take 32 (drop (to_size_t p) dat))
      else if unat p \<ge> length dat then 0
      else fromBigEndian (map (\<lambda>j. let i = to_unsigned p + j in if i < length dat then dat ! i else 0) [0..<32]))"

text \<open>The loop of a \<^verbatim>\<open>PUSH\<close>: \<open>i\<close> bytes from \<open>pc\<close>.\<close>

fun push_loop :: "ext_env \<Rightarrow> nat \<Rightarrow> u64 \<Rightarrow> u256 \<Rightarrow> u256 \<times> u64" where
  "push_loop E 0 pc x = (x, pc)"
| "push_loop E (Suc i) pc x = push_loop E i (pc + 1) (push_bit 8 x OR ucast (getCode E (unat pc)))"

section \<open>Instructions\<close>

text \<open>An instruction that replaces one, two or three operands by a result, one that pushes, and
  the program counter after an instruction without immediate data.\<close>

definition st1 :: "(u256 \<Rightarrow> u256) \<Rightarrow> 'w vm \<Rightarrow> vm_error + u64 \<times> 'w vm" where
  "st1 f v = Inr (m_curPC v + 1, v\<lparr>m_stack := f (m_stack v ! 0) # drop 1 (m_stack v)\<rparr>)"

definition st2 :: "(u256 \<Rightarrow> u256 \<Rightarrow> u256) \<Rightarrow> 'w vm \<Rightarrow> vm_error + u64 \<times> 'w vm" where
  "st2 f v = Inr (m_curPC v + 1, v\<lparr>m_stack := f (m_stack v ! 0) (m_stack v ! 1) # drop 2 (m_stack v)\<rparr>)"

definition st3 :: "(u256 \<Rightarrow> u256 \<Rightarrow> u256 \<Rightarrow> u256) \<Rightarrow> 'w vm \<Rightarrow> vm_error + u64 \<times> 'w vm" where
  "st3 f v = Inr (m_curPC v + 1,
     v\<lparr>m_stack := f (m_stack v ! 0) (m_stack v ! 1) (m_stack v ! 2) # drop 3 (m_stack v)\<rparr>)"

definition st_push :: "u256 \<Rightarrow> 'w vm \<Rightarrow> vm_error + u64 \<times> 'w vm" where
  "st_push x v = Inr (m_curPC v + 1, v\<lparr>m_stack := x # m_stack v\<rparr>)"

definition st_copy :: "bytes \<Rightarrow> nat \<Rightarrow> 'w vm \<Rightarrow> vm_error + u64 \<times> 'w vm" where
  "st_copy dat k v =
     (let (st, mem) = copyDataToMemory dat (drop k (m_stack v)) (m_temp v)
      in Inr (m_curPC v + 1, v\<lparr>m_stack := st, m_temp := mem\<rparr>))"

primrec execOrdinaryOpcode ::
  "instruction \<Rightarrow> 'w ext_ops \<Rightarrow> ext_env \<Rightarrow> 'w vm \<Rightarrow> vm_error + u64 \<times> 'w vm" where
  "execOrdinaryOpcode ADD W E v = st2 (\<lambda>a b. b + a) v"
| "execOrdinaryOpcode MUL W E v = st2 (\<lambda>a b. b * a) v"
| "execOrdinaryOpcode SUB W E v = st2 (\<lambda>a b. a - b) v"
| "execOrdinaryOpcode DIV W E v = st2 (\<lambda>a b. if b \<noteq> 0 then word_of_nat (unat a div unat b) else 0) v"
| "execOrdinaryOpcode SDIV W E v = st2 (\<lambda>a b. if b \<noteq> 0 then s2u (u2s a sdiv u2s b) else 0) v"
| "execOrdinaryOpcode MOD W E v = st2 (\<lambda>a b. if b \<noteq> 0 then word_of_nat (unat a mod unat b) else 0) v"
| "execOrdinaryOpcode SMOD W E v = st2 (\<lambda>a b. if b \<noteq> 0 then s2u (u2s a smod u2s b) else 0) v"
| "execOrdinaryOpcode EXP W E v = st2 (\<lambda>a b. word_of_nat (powm (unat a) (unat b) (2 ^ 256))) v"
| "execOrdinaryOpcode NOT' W E v = st1 (\<lambda>a. NOT a) v"
| "execOrdinaryOpcode LT W E v = st2 (\<lambda>a b. bool_word (a < b)) v"
| "execOrdinaryOpcode GT W E v = st2 (\<lambda>a b. bool_word (a > b)) v"
| "execOrdinaryOpcode SLT W E v = st2 (\<lambda>a b. bool_word (u2s a < u2s b)) v"
| "execOrdinaryOpcode SGT W E v = st2 (\<lambda>a b. bool_word (u2s a > u2s b)) v"
| "execOrdinaryOpcode EQ W E v = st2 (\<lambda>a b. bool_word (a = b)) v"
| "execOrdinaryOpcode ISZERO W E v = st1 (\<lambda>a. if a \<noteq> 0 then 0 else 1) v"
| "execOrdinaryOpcode AND' W E v = st2 (\<lambda>a b. a AND b) v"
| "execOrdinaryOpcode OR' W E v = st2 (\<lambda>a b. a OR b) v"
| "execOrdinaryOpcode XOR' W E v = st2 (\<lambda>a b. a XOR b) v"
| "execOrdinaryOpcode BYTE W E v =
     st2 (\<lambda>a b. if a < 32 then drop_bit (to_unsigned (8 * (31 - a))) b AND 0xff else 0) v"
| "execOrdinaryOpcode ADDMOD W E v =
     st3 (\<lambda>a b c. if c \<noteq> 0 then word_of_nat ((unat a + unat b) mod unat c) else 0) v"
| "execOrdinaryOpcode MULMOD W E v =
     st3 (\<lambda>a b c. if c \<noteq> 0 then word_of_nat ((unat a * unat b) mod unat c) else 0) v"
| "execOrdinaryOpcode SIGNEXTEND W E v = st2 vm_signextend v"
| "execOrdinaryOpcode SHA3 W E v =
     st2 (\<lambda>a b. sha3 (mem_read (m_temp v) (to_unsigned a) (to_unsigned b))) v"
| "execOrdinaryOpcode ADDRESS W E v = st_push (fromAddress (x_myAddress E)) v"
| "execOrdinaryOpcode ORIGIN W E v = st_push (fromAddress (x_origin E)) v"
| "execOrdinaryOpcode BALANCE W E v = st1 (\<lambda>a. x_balance W (v_world v) (asAddress a)) v"
| "execOrdinaryOpcode CALLER W E v = st_push (fromAddress (x_caller E)) v"
| "execOrdinaryOpcode CALLVALUE W E v = st_push (x_value E) v"
| "execOrdinaryOpcode CALLDATALOAD W E v = st1 (vm_calldataload (x_data E)) v"
| "execOrdinaryOpcode CALLDATASIZE W E v = st_push (word_of_nat (length (x_data E))) v"
| "execOrdinaryOpcode CODESIZE W E v = st_push (word_of_nat (length (x_code E))) v"
| "execOrdinaryOpcode EXTCODESIZE W E v =
     st1 (\<lambda>a. word_of_nat (length (x_codeAt W (v_world v) (asAddress a)))) v"
| "execOrdinaryOpcode CALLDATACOPY W E v = st_copy (x_data E) 0 v"
| "execOrdinaryOpcode CODECOPY W E v = st_copy (x_code E) 0 v"
| "execOrdinaryOpcode EXTCODECOPY W E v =
     st_copy (x_codeAt W (v_world v) (asAddress (m_stack v ! 0))) 1 v"
| "execOrdinaryOpcode GASPRICE W E v = st_push (x_gasPrice E) v"
| "execOrdinaryOpcode BLOCKHASH W E v = st1 (blockHash E) v"
| "execOrdinaryOpcode COINBASE W E v = st_push (ucast (e_author (x_envInfo E))) v"
| "execOrdinaryOpcode TIMESTAMP W E v = st_push (e_timestamp (x_envInfo E)) v"
| "execOrdinaryOpcode NUMBER W E v = st_push (e_number (x_envInfo E)) v"
| "execOrdinaryOpcode DIFFICULTY W E v = st_push (e_difficulty (x_envInfo E)) v"
| "execOrdinaryOpcode GASLIMIT W E v = st_push (e_gasLimit (x_envInfo E)) v"
| "execOrdinaryOpcode POP W E v = Inr (m_curPC v + 1, v\<lparr>m_stack := drop 1 (m_stack v)\<rparr>)"
| "execOrdinaryOpcode (PUSH n) W E v =
     (let (x, pc) = push_loop E n (m_curPC v + 1) 0 in Inr (pc, v\<lparr>m_stack := x # m_stack v\<rparr>))"
| "execOrdinaryOpcode JUMP W E v =
     res_bind (verifyJumpDest (m_stack v ! 0) (m_jumpDests v)) (\<lambda>pc.
       Inr (pc, v\<lparr>m_stack := drop 1 (m_stack v)\<rparr>))"
| "execOrdinaryOpcode JUMPI W E v =
     res_bind
       (if m_stack v ! 1 \<noteq> 0 then verifyJumpDest (m_stack v ! 0) (m_jumpDests v)
        else Inr (m_curPC v + 1))
       (\<lambda>pc. Inr (pc, v\<lparr>m_stack := drop 2 (m_stack v)\<rparr>))"
| "execOrdinaryOpcode (DUP n) W E v =
     Inr (m_curPC v + 1, v\<lparr>m_stack := m_stack v ! (n - 1) # m_stack v\<rparr>)"
| "execOrdinaryOpcode (SWAP n) W E v =
     (let st = m_stack v
      in Inr (m_curPC v + 1, v\<lparr>m_stack := (st[0 := st ! n])[n := st ! 0]\<rparr>))"
| "execOrdinaryOpcode MLOAD W E v =
     st1 (\<lambda>a. fromBigEndian (mem_read (m_temp v) (to_unsigned a) 32)) v"
| "execOrdinaryOpcode MSTORE W E v =
     Inr (m_curPC v + 1,
       v\<lparr>m_temp := mem_write (m_temp v) (to_unsigned (m_stack v ! 0)) (toBigEndian 32 (unat (m_stack v ! 1))),
         m_stack := drop 2 (m_stack v)\<rparr>)"
| "execOrdinaryOpcode MSTORE8 W E v =
     Inr (m_curPC v + 1,
       v\<lparr>m_temp := (m_temp v)[to_unsigned (m_stack v ! 0) := ucast (m_stack v ! 1 AND 0xff)],
         m_stack := drop 2 (m_stack v)\<rparr>)"
| "execOrdinaryOpcode SLOAD W E v = st1 (x_store W (v_world v)) v"
| "execOrdinaryOpcode SSTORE W E v =
     Inr (m_curPC v + 1,
       v\<lparr>v_world := x_setStore W (m_stack v ! 0) (m_stack v ! 1) (v_world v),
         m_stack := drop 2 (m_stack v)\<rparr>)"
| "execOrdinaryOpcode PC W E v = st_push (ucast (m_curPC v)) v"
| "execOrdinaryOpcode MSIZE W E v = st_push (word_of_nat (length (m_temp v))) v"
| "execOrdinaryOpcode GAS W E v = st_push (io_gas v) v"
| "execOrdinaryOpcode JUMPDEST W E v = Inr (m_curPC v + 1, v)"
| "execOrdinaryOpcode (LOG n) W E v =
     (let st = m_stack v;
          entry = \<lparr>log_address = x_myAddress E, log_topics = map (\<lambda>k. st ! (k + 2)) [0..<n],
                   log_data = mem_read (m_temp v) (to_unsigned (st ! 0)) (to_unsigned (st ! 1))\<rparr>
      in Inr (m_curPC v + 1,
           v\<lparr>v_sub := (v_sub v)\<lparr>logs := logs (v_sub v) @ [entry]\<rparr>, m_stack := drop (n + 2) st\<rparr>))"
| "execOrdinaryOpcode CREATE W E v = Inr (m_curPC v + 1, v)"
| "execOrdinaryOpcode CALL W E v = Inr (m_curPC v + 1, v)"
| "execOrdinaryOpcode CALLCODE W E v = Inr (m_curPC v + 1, v)"
| "execOrdinaryOpcode DELEGATECALL W E v = Inr (m_curPC v + 1, v)"
| "execOrdinaryOpcode RETURN W E v = Inr (m_curPC v + 1, v)"
| "execOrdinaryOpcode SUICIDE W E v = Inr (m_curPC v + 1, v)"
| "execOrdinaryOpcode STOP W E v = Inr (m_curPC v + 1, v)"
| "execOrdinaryOpcode (INVALID b) W E v = Inr (m_curPC v + 1, v)"

section \<open>The loop\<close>

definition vm_create :: "'w ext_ops \<Rightarrow> ext_env \<Rightarrow> 'w vm \<Rightarrow> 'w vm option" where
  "vm_create W E v =
     (let st = m_stack v; endowment = st ! 0; initOff = to_unsigned (st ! 1); initSize = to_unsigned (st ! 2)
      in if x_balance W (v_world v) (x_myAddress E) \<ge> endowment \<and> x_depth E < 1024 then
           (case x_create W endowment (io_gas v) (mem_read (m_temp v) initOff initSize) (v_world v, v_sub v) of
              None \<Rightarrow> None
            | Some (a, g, w, s) \<Rightarrow>
                Some (v\<lparr>m_stack := ucast a # drop 3 st, io_gas := g, v_world := w, v_sub := s\<rparr>))
         else Some (v\<lparr>m_stack := 0 # drop 3 st\<rparr>))"

definition vm_callParams :: "ext_env \<Rightarrow> instruction \<Rightarrow> 'w vm \<Rightarrow> call_params" where
  "vm_callParams E inst v =
     (let st = m_stack v; dc = (inst = DELEGATECALL); k = (if dc then 2 else 3);
          ca = asAddress (st ! 1) in
      \<lparr>senderAddress = (if dc then x_caller E else x_myAddress E),
       codeAddress = ca,
       receiveAddress = (if inst = CALL then ca else x_myAddress E),
       valueTransfer = (if dc then 0 else st ! 2),
       apparentValue = (if dc then x_value E else st ! 2),
       cp_gas = (if \<not> dc \<and> st ! 2 > 0
                 then st ! 0 + word_of_nat (callStipend (x_schedule E)) else st ! 0),
       cp_data = mem_read (m_temp v) (to_unsigned (st ! k)) (to_unsigned (st ! (k + 1))),
       cp_out = mem_read (m_temp v) (to_unsigned (st ! (k + 2))) (to_unsigned (st ! (k + 3)))\<rparr>)"

definition vm_call :: "'w ext_ops \<Rightarrow> ext_env \<Rightarrow> instruction \<Rightarrow> 'w vm \<Rightarrow> 'w vm option" where
  "vm_call W E inst v =
     (let st = m_stack v; p = vm_callParams E inst v; k = (if inst = DELEGATECALL then 2 else 3);
          rest = drop (k + 4) st
      in if x_balance W (v_world v) (x_myAddress E) \<ge> valueTransfer p \<and> x_depth E < 1024 then
           (case x_call W p (v_world v, v_sub v) of
              None \<Rightarrow> None
            | Some (ok, g, out, w, s) \<Rightarrow>
                Some (v\<lparr>m_stack := bool_word ok # rest, io_gas := io_gas v + g,
                        m_temp := mem_write (m_temp v) (to_unsigned (st ! (k + 2))) out,
                        v_world := w, v_sub := s\<rparr>))
         else Some (v\<lparr>m_stack := 0 # rest, io_gas := io_gas v + cp_gas p\<rparr>))"

datatype 'w vm_step = Next "'w vm" | Return bytes "'w vm" | Raise vm_error "'w vm"

definition vm_suicide :: "'w ext_ops \<Rightarrow> ext_env \<Rightarrow> 'w vm \<Rightarrow> 'w vm" where
  "vm_suicide W E v =
     v\<lparr>v_world := x_suicide W (asAddress (m_stack v ! 0)) (v_world v),
       v_sub := (v_sub v)\<lparr>suicides := insert (x_myAddress E) (suicides (v_sub v))\<rparr>\<rparr>"

definition advance :: "u64 \<Rightarrow> 'w vm \<Rightarrow> 'w vm" where
  "advance pc v = v\<lparr>m_curPC := pc, m_steps := m_steps v + 1\<rparr>"

text \<open>One instruction whose requirements have been met.\<close>

definition exec_instruction :: "'w ext_ops \<Rightarrow> ext_env \<Rightarrow> instruction \<Rightarrow> 'w vm \<Rightarrow> 'w vm_step option" where
  "exec_instruction W E inst v =
     (if inst = CREATE then map_option (\<lambda>v'. Next (advance (m_curPC v + 1) v')) (vm_create W E v)
      else if inst = CALL \<or> inst = CALLCODE \<or> inst = DELEGATECALL
      then map_option (\<lambda>v'. Next (advance (m_curPC v + 1) v')) (vm_call W E inst v)
      else if inst = RETURN then
        Some (Return (mem_read (m_temp v) (to_unsigned (m_stack v ! 0)) (to_unsigned (m_stack v ! 1)))
                (v\<lparr>m_stack := drop 2 (m_stack v)\<rparr>))
      else if inst = SUICIDE then Some (Return [] (vm_suicide W E v))
      else if inst = STOP then Some (Return [] v)
      else (case execOrdinaryOpcode inst W E v of
              Inl e \<Rightarrow> Some (Raise e v)
            | Inr (pc, v') \<Rightarrow> Some (Next (advance pc v'))))"

definition exec_step :: "'w ext_ops \<Rightarrow> ext_env \<Rightarrow> 'w vm \<Rightarrow> 'w vm_step option" where
  "exec_step W E v =
     (let inst = decode (getCode E (unat (m_curPC v))) in
      case checkRequirements W E inst v of
        Inl (e, v') \<Rightarrow> Some (Raise e v')
      | Inr v' \<Rightarrow> exec_instruction W E inst v')"

partial_function (option) exec_loop ::
  "'w ext_ops \<Rightarrow> ext_env \<Rightarrow> 'w vm \<Rightarrow> ((vm_error + bytes) \<times> 'w vm) option" where
  "exec_loop W E v =
     (case exec_step W E v of
        None \<Rightarrow> None
      | Some s \<Rightarrow>
          (case s of
             Next v' \<Rightarrow> exec_loop W E v'
           | Return out v' \<Rightarrow> Some (Inr out, v')
           | Raise e v' \<Rightarrow> Some (Inl e, v')))"

definition vm_init :: "ext_env \<Rightarrow> u256 \<Rightarrow> 'w \<Rightarrow> sub_state \<Rightarrow> 'w vm" where
  "vm_init E gas w s =
     \<lparr>m_curPC = 0, m_steps = 0, m_temp = [], m_stack = [], m_jumpDests = find_jumpDests (x_code E) 0,
      io_gas = gas, v_world = w, v_sub = s\<rparr>"

text \<open>\<^verbatim>\<open>execImpl\<close> on a new machine.\<close>

definition execImpl ::
  "'w ext_ops \<Rightarrow> ext_env \<Rightarrow> u256 \<Rightarrow> 'w \<Rightarrow> sub_state \<Rightarrow> ((vm_error + bytes) \<times> 'w vm) option" where
  "execImpl W E gas w s = exec_loop W E (vm_init E gas w s)"

end
