(* ===== verification/Evm_Safety.thy ===== *)
theory Evm_Safety
  imports Evm
begin

text \<open>
  What the interpreter guarantees for every world that keeps the contract \<open>vm_world\<close>: the stack
  stays within its limit and never underflows, memory accesses stay inside the memory the machine
  has paid for, the program counter stays on instruction boundaries, the gas never grows and every
  instruction that does not halt consumes some, so that execution terminates.
\<close>

section \<open>The stack\<close>

lemmas st_defs = st1_def st2_def st3_def st_push_def st_copy_def copyDataToMemory_def Let_def

definition halting :: "instruction \<Rightarrow> bool" where
  "halting inst = (inst \<in> {STOP, RETURN, SUICIDE})"

definition calling :: "instruction \<Rightarrow> bool" where
  "calling inst = (inst \<in> {CREATE, CALL, CALLCODE, DELEGATECALL})"

lemmas inst_class_defs = halting_def calling_def

text \<open>The \<^verbatim>\<open>args\<close> and \<^verbatim>\<open>ret\<close> columns of the instruction table are the
  true stack effects.\<close>

lemma ordinary_stack_length:
  assumes "execOrdinaryOpcode inst W E v = Inr (pc, v')" and "valid_index inst"
    and "i_args (instructionInfo inst) \<le> length (m_stack v)" and "\<not> halting inst" and "\<not> calling inst"
  shows "length (m_stack v') =
           length (m_stack v) - i_args (instructionInfo inst) + i_ret (instructionInfo inst)"
  using assms
  by (cases inst) (auto simp: st_defs mk_info_def inst_class_defs res_bind_Inr_iff split: prod.splits)

lemma ordinary_frame:
  assumes "execOrdinaryOpcode inst W E v = Inr (pc, v')"
  shows "io_gas v' = io_gas v" and "m_jumpDests v' = m_jumpDests v"
    and "suicides (v_sub v') = suicides (v_sub v)" and "refunds (v_sub v') = refunds (v_sub v)"
    and "v_world v' = v_world v \<or>
           (inst = SSTORE \<and> v_world v' = x_setStore W (m_stack v ! 0) (m_stack v ! 1) (v_world v))"
  using assms
  by (cases inst; auto simp: st_defs res_bind_Inr_iff split: prod.splits)+

section \<open>Memory\<close>

lemma length_mem_write:
  "off + length bs \<le> length m \<or> bs = [] \<Longrightarrow> length (mem_write m off bs) = length m"
  by (auto simp: mem_write_def)

lemma length_mem_read_le: "length (mem_read m off n) \<le> n"
  by (simp add: mem_read_def)

lemma length_mem_read: "off + n \<le> length m \<Longrightarrow> length (mem_read m off n) = n"
  by (simp add: mem_read_def)

lemma length_mem_read_unsigned: "length (mem_read m off (to_unsigned b)) < 2 ^ 32"
proof -
  have "to_unsigned b < 2 ^ 32" unfolding to_unsigned_def by simp
  with length_mem_read_le [of m off "to_unsigned b"] show ?thesis by linarith
qed

text \<open>An operand pair that fits the memory survives the conversion to \<^verbatim>\<open>unsigned\<close>.\<close>

lemma memNeed_fits:
  assumes "memNeed a b \<le> l" and "l < 2 ^ 32"
  shows "to_unsigned b = unat b" and "b \<noteq> 0 \<Longrightarrow> to_unsigned a = unat a"
    and "to_size_t b = unat b" and "b \<noteq> 0 \<Longrightarrow> to_size_t a = unat a"
    and "b \<noteq> 0 \<Longrightarrow> unat a + unat b \<le> l"
  using assms by (auto simp: memNeed_def to_unsigned_def to_size_t_def split: if_splits)

lemma length_copyDataToMemory:
  assumes "memNeed (st ! 0) (st ! 2) \<le> length mem" and "length mem < 2 ^ 32"
    and "length dat < 2 ^ 63"
  shows "length (snd (copyDataToMemory dat st mem)) = length mem"
proof (cases "st ! 2 = 0")
  case True
  then show ?thesis by (simp add: copyDataToMemory_def to_size_t_def Let_def)
next
  case False
  note f = memNeed_fits [OF assms(1,2)]
  have o: "to_size_t (st ! 0) = unat (st ! 0)" "to_size_t (st ! 2) = unat (st ! 2)"
    "unat (st ! 0) + unat (st ! 2) \<le> length mem"
    using f False by auto
  define c where "c = (if unat (st ! 1) + unat (st ! 2) > length dat
    then (if length dat < unat (st ! 1) then 0 else length dat - to_size_t (st ! 1)) else unat (st ! 2))"
  have c: "c \<le> unat (st ! 2)"
    using assms(3) by (auto simp: c_def to_size_t_def)
  let ?m1 = "if 0 < c then mem_write mem (unat (st ! 0)) (mem_read dat (to_size_t (st ! 1)) c) else mem"
  have m1: "length ?m1 = length mem"
    using o(3) c length_mem_read_le [of dat "to_size_t (st ! 1)" c] by (auto intro: length_mem_write)
  have "length (if c < unat (st ! 2) then mem_write ?m1 (unat (st ! 0) + c) (replicate (unat (st ! 2) - c) 0) else ?m1) =
      length mem"
    using o(3) c m1 by (auto intro: length_mem_write [THEN trans])
  then show ?thesis
    unfolding copyDataToMemory_def Let_def o by (simp only: c_def [symmetric] snd_conv)
qed

lemma st_copy_memory_length:
  assumes "st_copy dat k v = Inr (pc, v')" and "k \<le> length (m_stack v)"
    and "memNeed (m_stack v ! k) (m_stack v ! (k + 2)) \<le> length (m_temp v)"
    and "length (m_temp v) < 2 ^ 32" and "length dat < 2 ^ 63"
  shows "length (m_temp v') = length (m_temp v)"
proof -
  have "memNeed (drop k (m_stack v) ! 0) (drop k (m_stack v) ! 2) \<le> length (m_temp v)"
    using assms(2,3) by (simp del: nth_0_Cons)
  from length_copyDataToMemory [OF this assms(4,5)] assms(1) show ?thesis
    by (auto simp: st_copy_def split: prod.splits)
qed

text \<open>No instruction writes outside the memory that \<^verbatim>\<open>checkRequirements\<close> has made
  room for.\<close>

lemma ordinary_memory_length:
  assumes "execOrdinaryOpcode inst W E v = Inr (pc, v')"
    and "i_args (instructionInfo inst) \<le> length (m_stack v)"
    and "op_newTempSize inst v \<le> length (m_temp v)" and "length (m_temp v) < 2 ^ 32"
    and "length (x_data E) < 2 ^ 63" and "length (x_code E) < 2 ^ 63"
    and "\<And>a. length (x_codeAt W (v_world v) a) < 2 ^ 63"
  shows "length (m_temp v') = length (m_temp v)"
proof (cases "inst \<in> {CALLDATACOPY, CODECOPY, EXTCODECOPY}")
  case True
  then consider "inst = CALLDATACOPY" | "inst = CODECOPY" | "inst = EXTCODECOPY" by blast
  then show ?thesis
  proof cases
    case 1
    show ?thesis
      by (rule st_copy_memory_length [of "x_data E" 0 v pc])
        (use assms 1 in \<open>simp_all add: op_newTempSize_def Let_def del: add_2_eq_Suc add_2_eq_Suc'\<close>)
  next
    case 2
    show ?thesis
      by (rule st_copy_memory_length [of "x_code E" 0 v pc])
        (use assms 2 in \<open>simp_all add: op_newTempSize_def Let_def del: add_2_eq_Suc add_2_eq_Suc'\<close>)
  next
    case 3
    show ?thesis
      by (rule st_copy_memory_length [of "x_codeAt W (v_world v) (asAddress (m_stack v ! 0))" 1 v pc])
        (use assms 3 in \<open>simp_all add: op_newTempSize_def mk_info_def Let_def del: add_2_eq_Suc add_2_eq_Suc'\<close>)
  qed
next
  case False
  show ?thesis
  proof (cases "inst = MSTORE")
    case True
    then have f: "unat (m_stack v ! 0) + 32 \<le> length (m_temp v)"
      using assms(3) by (simp add: op_newTempSize_def)
    then have "to_unsigned (m_stack v ! 0) = unat (m_stack v ! 0)"
      using assms(4) by (simp add: to_unsigned_def)
    then show ?thesis
      using True assms(1) f by (auto intro!: length_mem_write)
  qed (use False assms(1) in \<open>cases inst; auto simp: st_defs res_bind_Inr_iff split: prod.splits\<close>)
qed

section \<open>Gas\<close>

lemma gasForMem_mono: "a \<le> b \<Longrightarrow> gasForMem S a \<le> gasForMem S b"
  by (auto simp: gasForMem_def Let_def intro!: add_mono mult_le_mono div_le_mono)

lemma gasForMem_bound:
  assumes "gasForMem (EVMSchedule a b c) n < 2 ^ 45" shows "n < 2 ^ 32"
proof (rule ccontr)
  assume "\<not> n < 2 ^ 32"
  then have "2 ^ 32 \<le> n" by simp
  then have "gasForMem (EVMSchedule a b c) (2 ^ 32) \<le> gasForMem (EVMSchedule a b c) n"
    by (rule gasForMem_mono)
  then show False using assms by (simp add: gasForMem_def EVMSchedule_def)
qed

lemma op_gas_pos:
  assumes "x_schedule E = EVMSchedule a b c" and "\<not> halting inst"
    and "i_gasPriceTier (instructionInfo inst) \<noteq> InvalidTier"
  shows "0 < op_gas W E inst v"
  using assms by (cases inst) (auto simp: op_gas_def EVMSchedule_def mk_info_def inst_class_defs Let_def)

lemma checkRequirements_ok:
  assumes "checkRequirements W E inst v = Inr v'"
  shows "i_args (instructionInfo inst) \<le> length (m_stack v)"
    and "length (m_stack v) - i_args (instructionInfo inst) + i_ret (instructionInfo inst) \<le> stackLimit (x_schedule E)"
    and "i_gasPriceTier (instructionInfo inst) \<noteq> InvalidTier"
    and "unat (io_gas v') + runGas W E inst v = unat (io_gas v)"
    and "m_temp v' = (if newTempSize inst v > length (m_temp v) then resize (m_temp v) (newTempSize inst v) else m_temp v)"
    and "m_stack v' = m_stack v" and "m_curPC v' = m_curPC v" and "m_jumpDests v' = m_jumpDests v"
    and "v_world v' = v_world v" and "m_steps v' = m_steps v"
proof -
  have le: "runGas W E inst v \<le> unat (io_gas v)"
    and g: "io_gas v' = io_gas v - word_of_nat (runGas W E inst v)"
    using assms by (auto simp: checkRequirements_def Let_def split: if_splits sum.splits)
  have u: "unat (word_of_nat (runGas W E inst v) :: u256) = runGas W E inst v"
    using le unat_u256_less [of "io_gas v"] by (intro unat_word_of_nat) simp
  then have "unat (io_gas v') = unat (io_gas v) - runGas W E inst v"
    using le by (simp add: g unat_sub word_le_nat_alt)
  then show "unat (io_gas v') + runGas W E inst v = unat (io_gas v)" using le by simp
qed (use assms in \<open>auto simp: checkRequirements_def vm_require_def Let_def split: if_splits sum.splits\<close>)

lemma checkRequirements_error:
  assumes "checkRequirements W E inst v = Inl (e, v')"
  shows "v_world v' = v_world v" and "io_gas v' = io_gas v" and "m_stack v' = m_stack v"
    and "m_temp v' = m_temp v"
  using assms by (auto simp: checkRequirements_def Let_def split: if_splits sum.splits)

lemma newTempSize_ge: "op_newTempSize inst v \<le> newTempSize inst v"
  by (simp add: newTempSize_def)

lemma newTempSize_dvd: "32 dvd newTempSize inst v"
  by (simp add: newTempSize_def)

text \<open>After the check the memory is a multiple of 32 bytes, holds what the instruction needs, and
  its price is covered by the gas that was spent.\<close>

lemma checkRequirements_memory:
  assumes "checkRequirements W E inst v = Inr v'" and "32 dvd length (m_temp v)"
  shows "32 dvd length (m_temp v')" and "op_newTempSize inst v \<le> length (m_temp v')"
    and "length (m_temp v) \<le> length (m_temp v')"
    and "unat (io_gas v') + gasForMem (x_schedule E) (length (m_temp v')) + op_gas W E inst v
           \<le> unat (io_gas v) + gasForMem (x_schedule E) (length (m_temp v))"
proof -
  note ok = checkRequirements_ok [OF assms(1)]
  have l: "length (m_temp v') = max (length (m_temp v)) (newTempSize inst v)"
    by (simp add: ok(5) resize_def)
  show "32 dvd length (m_temp v')"
    using assms(2) newTempSize_dvd [of inst v] by (simp add: l max_def)
  show "op_newTempSize inst v \<le> length (m_temp v')"
    using newTempSize_ge [of inst v] by (simp add: l)
  show "length (m_temp v) \<le> length (m_temp v')" by (simp add: l)
  have "gasForMem (x_schedule E) (length (m_temp v)) \<le> gasForMem (x_schedule E) (length (m_temp v'))"
    by (rule gasForMem_mono) (simp add: l)
  then have "op_gas W E inst v + gasForMem (x_schedule E) (length (m_temp v'))
      \<le> runGas W E inst v + gasForMem (x_schedule E) (length (m_temp v))"
    by (auto simp: runGas_def Let_def l max_def)
  then show "unat (io_gas v') + gasForMem (x_schedule E) (length (m_temp v')) + op_gas W E inst v
      \<le> unat (io_gas v) + gasForMem (x_schedule E) (length (m_temp v))"
    using ok(4) by linarith
qed

lemma op_newTempSize_cong:
  "m_stack v' = m_stack v \<Longrightarrow> inst \<noteq> MSIZE \<Longrightarrow> length (m_temp v) \<le> length (m_temp v') \<Longrightarrow>
     op_newTempSize inst v \<le> length (m_temp v') \<Longrightarrow> op_newTempSize inst v' \<le> length (m_temp v')"
  by (cases inst) (auto simp: op_newTempSize_def Let_def)

section \<open>The program counter\<close>

text \<open>\<open>reach code i j\<close>: reading instructions from offset \<open>i\<close>, one is read at \<open>j\<close>, or
  \<open>j\<close> is where reading ends.\<close>

definition next_instruction :: "bytes \<Rightarrow> nat \<Rightarrow> nat" where
  "next_instruction code i =
     (if 0x60 \<le> unat (code ! i) \<and> unat (code ! i) \<le> 0x7f
      then i + (unat (code ! i) - 0x60 + 1) + 1 else Suc i)"

inductive reach :: "bytes \<Rightarrow> nat \<Rightarrow> nat \<Rightarrow> bool" where
  refl: "reach code i i"
| step: "i < length code \<Longrightarrow> reach code (next_instruction code i) j \<Longrightarrow> reach code i j"

inductive_simps reach_iff: "reach code i j"

lemma reach_next: "reach code i j \<Longrightarrow> j < length code \<Longrightarrow> reach code i (next_instruction code j)"
  by (induction rule: reach.induct) (auto intro: reach.intros)

lemma find_jumpDests_iff:
  "j \<in> set (find_jumpDests code i) \<longleftrightarrow> reach code i j \<and> j < length code \<and> unat (code ! j) = 0x5b"
proof (induction code i rule: find_jumpDests.induct)
  case (1 code i)
  show ?case
  proof (cases "i < length code")
    case False
    then show ?thesis
      by (subst find_jumpDests.simps, subst reach_iff) auto
  next
    case True
    show ?thesis
      using 1 True
      by (subst find_jumpDests.simps, subst reach_iff) (auto simp: next_instruction_def)
  qed
qed

lemma next_instruction_gt: "i < next_instruction code i"
  by (auto simp: next_instruction_def)

lemma find_jumpDests_unfold:
  "i < length code \<Longrightarrow>
     find_jumpDests code i =
       (if unat (code ! i) = 0x5b then [i] else []) @ find_jumpDests code (next_instruction code i)"
  by (subst find_jumpDests.simps) (simp add: next_instruction_def)

lemma find_jumpDests_ge: "j \<in> set (find_jumpDests code i) \<Longrightarrow> i \<le> j"
proof (induction "length code - i" arbitrary: i rule: less_induct)
  case less
  show ?case
  proof (cases "i < length code")
    case True
    show ?thesis
      using next_instruction_gt [of i code] less find_jumpDests_unfold [OF True] True
      by (force split: if_splits)
  next
    case False
    then show ?thesis using less.prems by (subst (asm) find_jumpDests.simps) simp
  qed
qed

lemma sorted_find_jumpDests: "sorted_wrt (<) (find_jumpDests code i)"
proof (induction "length code - i" arbitrary: i rule: less_induct)
  case less
  show ?case
  proof (cases "i < length code")
    case True
    note n = next_instruction_gt [of i code]
    have "\<forall>j\<in>set (find_jumpDests code (next_instruction code i)). i < j"
      using find_jumpDests_ge n by (metis less_le_trans)
    then show ?thesis
      using less [of "next_instruction code i"] n True
      by (simp add: find_jumpDests_unfold)
  qed (subst find_jumpDests.simps, simp)
qed

lemma verifyJumpDest_ok:
  assumes "verifyJumpDest dest (find_jumpDests code 0) = Inr pc"
  shows "unat pc = unat dest" and "reach code 0 (unat pc)" and "unat (code ! unat pc) = 0x5b"
    and "unat pc < length code"
  using assms
  by (auto simp: verifyJumpDest_def find_jumpDests_iff Let_def unsigned_ucast_eq take_bit_nat_eq_self
      split: if_splits)

lemma push_loop_pc: "snd (push_loop E n pc x) = pc + word_of_nat n"
  by (induction E n pc x rule: push_loop.induct) (simp_all add: algebra_simps)

lemma unat_pc_add:
  assumes "unat (pc :: u64) < 2 ^ 63" and "n < 2 ^ 63" shows "unat (pc + word_of_nat n) = unat pc + n"
  using assms by (simp add: unat_word_ariths unat_word_of_nat_mod)

text \<open>The opcode at the program counter decides how far it moves.\<close>

lemma ordinary_pc:
  assumes "execOrdinaryOpcode inst W E v = Inr (pc, v')" and "m_jumpDests v = find_jumpDests (x_code E) 0"
    and "inst = decode (getCode E (unat (m_curPC v)))" and "reach (x_code E) 0 (unat (m_curPC v))"
    and "length (x_code E) < 2 ^ 63" and "\<not> halting inst"
  shows "reach (x_code E) 0 (unat pc)"
proof -
  let ?p = "unat (m_curPC v)"
  have p: "?p < length (x_code E)"
  proof (rule ccontr)
    assume "\<not> ?p < length (x_code E)"
    then have "inst = decode 0" using assms(3) by (simp add: getCode_def)
    then show False using assms(6) by (simp add: decode_def plain_instructions_def halting_def)
  qed
  then have i: "inst = decode (x_code E ! ?p)" using assms(3) by (simp add: getCode_def)
  have add: "i_additional (instructionInfo inst) =
      (if 0x60 \<le> unat (x_code E ! ?p) \<and> unat (x_code E ! ?p) \<le> 0x7f then unat (x_code E ! ?p) - 0x5f else 0)"
    by (simp add: i i_additional_eq)
  have nx: "reach (x_code E) 0 (next_instruction (x_code E) ?p)"
    by (rule reach_next [OF assms(4) p])
  have q: "?p < 2 ^ 63" using p assms(5) by linarith
  have one: "unat (m_curPC v + 1) = ?p + 1" using unat_pc_add [OF q, of 1] by simp
  show ?thesis
  proof (cases "\<exists>n. inst = PUSH n")
    case True
    then obtain n where n: "inst = PUSH n" by blast
    have "valid_index (PUSH n)" by (metis i n valid_index_decode)
    then have n32: "1 \<le> n" "n \<le> 32" by simp_all
    have "pc = m_curPC v + word_of_nat (Suc n)"
      using assms(1) n push_loop_pc [of E n "m_curPC v + 1" 0]
      by (auto simp: algebra_simps split: prod.splits)
    then have "unat pc = ?p + Suc n" using unat_pc_add [OF q, of "Suc n"] n32 by simp
    moreover have "next_instruction (x_code E) ?p = ?p + Suc n"
      using add n n32 by (auto simp: next_instruction_def mk_info_def split: if_splits)
    ultimately show ?thesis using nx by simp
  next
    case False
    then have "i_additional (instructionInfo inst) = 0" by (cases inst) (auto simp: mk_info_def)
    then have nx1: "next_instruction (x_code E) ?p = ?p + 1"
      using add by (auto simp: next_instruction_def split: if_splits)
    have "pc = m_curPC v + 1 \<or> verifyJumpDest (m_stack v ! 0) (m_jumpDests v) = Inr pc"
      using assms(1) False
      by (cases inst) (auto simp: st_defs res_bind_Inr_iff split: prod.splits if_splits)
    then show ?thesis
      using nx nx1 one verifyJumpDest_ok(2) assms(2) by metis
  qed
qed

section \<open>The contract of the world\<close>

text \<open>
  What the interpreter relies on.  \<open>winv\<close> is an invariant of the world that every operation keeps;
  the calls it makes return, give back at most the gas they were given, and keep the size of the
  output buffer.  They are only made with a value the account can pay, below the depth limit, and
  with no more gas than the machine was started with.
\<close>

definition env_ok :: "ext_env \<Rightarrow> nat \<Rightarrow> bool" where
  "env_ok E G =
     ((\<exists>a b c. x_schedule E = EVMSchedule a b c) \<and> G < 2 ^ 45
      \<and> length (x_data E) < 2 ^ 63 \<and> length (x_code E) < 2 ^ 63)"

lemma env_okD:
  assumes "env_ok E G"
  shows "\<exists>a b c. x_schedule E = EVMSchedule a b c" and "G < 2 ^ 45"
    and "length (x_data E) < 2 ^ 63" and "length (x_code E) < 2 ^ 63"
  using assms by (simp_all add: env_ok_def)

locale vm_world =
  fixes W :: "'w ext_ops" and E :: ext_env and winv :: "'w \<Rightarrow> bool" and G :: nat
  assumes codeAt_size: "winv w \<Longrightarrow> length (x_codeAt W w a) < 2 ^ 63"
    and setStore_winv: "winv w \<Longrightarrow> winv (x_setStore W k x w)"
    and suicide_winv: "winv w \<Longrightarrow> winv (x_suicide W a w)"
    and call_returns: "\<lbrakk>env_ok E G; winv w; x_depth E < 1024; valueTransfer p \<le> x_balance W w (x_myAddress E);
        senderAddress p = x_myAddress E \<or> senderAddress p = x_caller E \<and> valueTransfer p = 0; unat (cp_gas p) \<le> G;
        length (cp_data p) < 2 ^ 32\<rbrakk>
      \<Longrightarrow> \<exists>ok g out w' s'. x_call W p (w, s) = Some (ok, g, out, w', s') \<and> unat g \<le> unat (cp_gas p)
            \<and> length out = length (cp_out p) \<and> winv w'"
    and create_returns: "\<lbrakk>env_ok E G; winv w; x_depth E < 1024; endowment \<le> x_balance W w (x_myAddress E);
        unat gas \<le> G; length ini < 2 ^ 32\<rbrakk>
      \<Longrightarrow> \<exists>a g w' s'. x_create W endowment gas ini (w, s) = Some (a, g, w', s') \<and> unat g \<le> unat gas
            \<and> winv w'"

definition vm_inv :: "ext_env \<Rightarrow> ('w \<Rightarrow> bool) \<Rightarrow> nat \<Rightarrow> 'w vm \<Rightarrow> bool" where
  "vm_inv E winv G v =
     (env_ok E G \<and> length (m_stack v) \<le> stackLimit (x_schedule E)
      \<and> 32 dvd length (m_temp v)
      \<and> unat (io_gas v) + gasForMem (x_schedule E) (length (m_temp v)) \<le> G
      \<and> m_jumpDests v = find_jumpDests (x_code E) 0
      \<and> reach (x_code E) 0 (unat (m_curPC v))
      \<and> winv (v_world v))"

text \<open>What a step establishes: a machine that goes on satisfies the invariant with less gas; one
  that returns or fails leaves a good world.\<close>

fun step_ok :: "ext_env \<Rightarrow> ('w \<Rightarrow> bool) \<Rightarrow> nat \<Rightarrow> 'w vm \<Rightarrow> 'w vm_step \<Rightarrow> bool" where
  "step_ok E winv G v (Next v') = (vm_inv E winv G v' \<and> unat (io_gas v') < unat (io_gas v))"
| "step_ok E winv G v (Return out v') =
     (winv (v_world v') \<and> unat (io_gas v') \<le> unat (io_gas v) \<and> length out < 2 ^ 32)"
| "step_ok E winv G v (Raise e v') = winv (v_world v')"

lemma vm_inv_advance:
  "vm_inv E winv G (advance pc v) \<longleftrightarrow> vm_inv E winv G (v\<lparr>m_curPC := pc\<rparr>)"
  by (simp add: vm_inv_def advance_def)

lemma unat_u256_add: "unat (a :: u256) + unat b < 2 ^ 256 \<Longrightarrow> unat (a + b) = unat a + unat b"
  by (simp add: unat_word_ariths)

text \<open>The gas a call passes on, with the stipend, does not wrap around and is paid for.\<close>

lemma callParams_gas:
  assumes s: "x_schedule E = EVMSchedule a b c" and v: "m_stack v = m_stack v0"
    and lt: "op_gas W E inst v0 < 2 ^ 256" and i: "inst \<in> {CALL, CALLCODE, DELEGATECALL}"
  shows "unat (cp_gas (vm_callParams E inst v)) < op_gas W E inst v0"
    and "unat (cp_gas (vm_callParams E inst v)) =
       unat (m_stack v ! 0) +
       (if inst \<noteq> DELEGATECALL \<and> m_stack v ! 2 > 0 then callStipend (x_schedule E) else 0)"
proof -
  have g: "unat (m_stack v ! 0) + callGas (x_schedule E) +
      (if inst \<noteq> DELEGATECALL \<and> m_stack v ! 2 > 0 then callValueTransferGas (x_schedule E) else 0) \<le> op_gas W E inst v0"
    using i by (auto simp: op_gas_def Let_def v)
  have st: "callStipend (x_schedule E) = 2300" "callValueTransferGas (x_schedule E) = 9000" "callGas (x_schedule E) = 40"
    by (simp_all add: s EVMSchedule_def)
  have 1: "unat (cp_gas (vm_callParams E inst v)) =
     unat (m_stack v ! 0) +
     (if inst \<noteq> DELEGATECALL \<and> m_stack v ! 2 > 0 then callStipend (x_schedule E) else 0)"
  proof (cases "inst \<noteq> DELEGATECALL \<and> m_stack v ! 2 > 0")
    case True
    have "unat (m_stack v ! 0 + 2300) = unat (m_stack v ! 0) + unat (2300 :: u256)"
      using g lt True by (intro unat_u256_add) (simp add: st)
    then show ?thesis using True by (simp add: vm_callParams_def Let_def st)
  qed (auto simp: vm_callParams_def Let_def)
  show "unat (cp_gas (vm_callParams E inst v)) =
       unat (m_stack v ! 0) +
       (if inst \<noteq> DELEGATECALL \<and> m_stack v ! 2 > 0 then callStipend (x_schedule E) else 0)"
    by (rule 1)
  show "unat (cp_gas (vm_callParams E inst v)) < op_gas W E inst v0"
    unfolding 1 using g by (auto simp: st split: if_splits)
qed

context vm_world
begin

lemma mem_small:
  assumes "env_ok E G" and "n + gasForMem (x_schedule E) l \<le> G" shows "l < 2 ^ 32"
proof -
  obtain a b c where s: "x_schedule E = EVMSchedule a b c" using env_okD(1) [OF assms(1)] by blast
  have "gasForMem (EVMSchedule a b c) l < 2 ^ 45"
    using assms(2) env_okD(2) [OF assms(1)] unfolding s by linarith
  then show ?thesis by (rule gasForMem_bound)
qed

text \<open>The state in which an instruction is executed, after \<^verbatim>\<open>checkRequirements\<close>.\<close>

definition checked :: "instruction \<Rightarrow> 'w vm \<Rightarrow> 'w vm \<Rightarrow> bool" where
  "checked inst v0 v =
     (env_ok E G \<and> inst = decode (getCode E (unat (m_curPC v)))
      \<and> i_args (instructionInfo inst) \<le> length (m_stack v)
      \<and> length (m_stack v) - i_args (instructionInfo inst) + i_ret (instructionInfo inst) \<le> stackLimit (x_schedule E)
      \<and> 32 dvd length (m_temp v) \<and> op_newTempSize inst v \<le> length (m_temp v)
      \<and> unat (io_gas v) + gasForMem (x_schedule E) (length (m_temp v)) + op_gas W E inst v0 \<le> G
      \<and> unat (io_gas v) + op_gas W E inst v0 \<le> unat (io_gas v0)
      \<and> (halting inst \<or> 0 < op_gas W E inst v0)
      \<and> m_stack v = m_stack v0
      \<and> m_jumpDests v = find_jumpDests (x_code E) 0 \<and> reach (x_code E) 0 (unat (m_curPC v))
      \<and> winv (v_world v) \<and> v_world v = v_world v0)"

lemma checked_intro:
  assumes inv: "vm_inv E winv G v" and chk: "checkRequirements W E inst v = Inr v'"
    and inst: "inst = decode (getCode E (unat (m_curPC v)))"
  shows "checked inst v v'"
proof -
  note ok = checkRequirements_ok [OF chk]
  have d: "32 dvd length (m_temp v)" using inv by (simp add: vm_inv_def)
  note mm = checkRequirements_memory [OF chk d]
  have ek: "env_ok E G" using inv by (simp add: vm_inv_def)
  obtain a b c where s: "x_schedule E = EVMSchedule a b c" using env_okD(1) [OF ek] by blast
  have "op_newTempSize inst v' \<le> length (m_temp v')"
    using ok(6) mm(2,3) by (cases inst) (auto simp: op_newTempSize_def Let_def)
  moreover have "unat (io_gas v') + op_gas W E inst v \<le> unat (io_gas v)"
    using ok(4) by (simp add: runGas_def Let_def)
  moreover have "halting inst \<or> 0 < op_gas W E inst v"
    using op_gas_pos [OF s _ ok(3), of W v] by (cases "halting inst") simp_all
  ultimately show ?thesis
    using inv inst ok mm by (auto simp: checked_def vm_inv_def)
qed

lemma checkedD:
  assumes "checked inst v0 v"
  shows "inst = decode (getCode E (unat (m_curPC v)))"
    and "i_args (instructionInfo inst) \<le> length (m_stack v)"
    and "length (m_stack v) - i_args (instructionInfo inst) + i_ret (instructionInfo inst) \<le> stackLimit (x_schedule E)"
    and "32 dvd length (m_temp v)" and "op_newTempSize inst v \<le> length (m_temp v)"
    and "unat (io_gas v) + gasForMem (x_schedule E) (length (m_temp v)) + op_gas W E inst v0 \<le> G"
    and "unat (io_gas v) + op_gas W E inst v0 \<le> unat (io_gas v0)"
    and "halting inst \<or> 0 < op_gas W E inst v0" and "m_stack v = m_stack v0"
    and "m_jumpDests v = find_jumpDests (x_code E) 0" and "reach (x_code E) 0 (unat (m_curPC v))"
    and "winv (v_world v)" and "v_world v = v_world v0" and "length (m_temp v) < 2 ^ 32" and "env_ok E G"
proof -
  from assms show g: "unat (io_gas v) + gasForMem (x_schedule E) (length (m_temp v)) + op_gas W E inst v0 \<le> G"
    unfolding checked_def by blast
  from assms have e: "env_ok E G" unfolding checked_def by blast
  show "length (m_temp v) < 2 ^ 32"
    by (rule mem_small [OF e, of "unat (io_gas v) + op_gas W E inst v0"]) (use g in linarith)
qed (insert assms [unfolded checked_def], (elim conjE, assumption)+)

lemma ordinary_step_ok:
  assumes c: "checked inst v0 v" and n: "\<not> halting inst" "\<not> calling inst"
    and x: "execOrdinaryOpcode inst W E v = Inr (pc, v')"
  shows "step_ok E winv G v0 (Next (advance pc v'))"
proof -
  note d = checkedD [OF c]
  have vi: "valid_index inst" by (simp add: d(1))
  have "length (m_temp v') = length (m_temp v)"
    by (rule ordinary_memory_length [OF x d(2,5,14) env_okD(3,4) [OF d(15)] codeAt_size [OF d(12)]])
  moreover have "length (m_stack v') \<le> stackLimit (x_schedule E)"
    using ordinary_stack_length [OF x vi d(2) n] d(3) by simp
  moreover have "reach (x_code E) 0 (unat pc)"
    by (rule ordinary_pc [OF x d(10,1,11) env_okD(4) [OF d(15)] n(1)])
  moreover have "winv (v_world v')"
    using ordinary_frame(5) [OF x] d(12) setStore_winv by auto
  ultimately show ?thesis
    using ordinary_frame(1,2) [OF x] d(4,6,7,8,10,15) n(1) by (simp add: vm_inv_def advance_def)
qed

text \<open>The next program counter of a call.\<close>

lemma calling_pc:
  assumes "checked inst v0 v" and "calling inst"
  shows "reach (x_code E) 0 (unat (m_curPC v + 1))"
proof -
  have "execOrdinaryOpcode inst W E v = Inr (m_curPC v + 1, v)" and "\<not> halting inst"
    using assms(2) by (auto simp: inst_class_defs)
  then show ?thesis
    using ordinary_pc checkedD(1,10,11) [OF assms(1)] env_okD(4) [OF checkedD(15) [OF assms(1)]] by blast
qed

lemma create_step_ok:
  assumes c: "checked CREATE v0 v"
  shows "\<exists>v'. vm_create W E v = Some v' \<and> step_ok E winv G v0 (Next (advance (m_curPC v + 1) v'))"
proof -
  note d = checkedD [OF c]
  have pc: "reach (x_code E) 0 (unat (m_curPC v + 1))"
    by (rule calling_pc [OF c]) (simp add: calling_def)
  have st: "3 \<le> length (m_stack v)" "length (m_stack v) - 2 \<le> stackLimit (x_schedule E)"
    using d(2,3) by (simp_all add: mk_info_def)
  show ?thesis
  proof (cases "x_balance W (v_world v) (x_myAddress E) \<ge> m_stack v ! 0 \<and> x_depth E < 1024")
    case True
    let ?ini = "mem_read (m_temp v) (to_unsigned (m_stack v ! 1)) (to_unsigned (m_stack v ! 2))"
    have "length ?ini < 2 ^ 32"
      by (rule length_mem_read_unsigned)
    moreover have "unat (io_gas v) \<le> G" using d(6) by linarith
    ultimately obtain a g w' s' where r: "x_create W (m_stack v ! 0) (io_gas v) ?ini (v_world v, v_sub v) =
        Some (a, g, w', s')" "unat g \<le> unat (io_gas v)" "winv w'"
      using create_returns [OF d(15,12), of "m_stack v ! 0" "io_gas v" ?ini "v_sub v"] True by blast
    then show ?thesis
      using True d pc st by (auto simp: vm_create_def Let_def vm_inv_def advance_def halting_def)
  next
    case False
    then show ?thesis
      using d pc st by (auto simp: vm_create_def Let_def vm_inv_def advance_def halting_def)
  qed
qed

lemma call_step_ok:
  assumes c: "checked inst v0 v" and i: "inst \<in> {CALL, CALLCODE, DELEGATECALL}"
  shows "\<exists>v'. vm_call W E inst v = Some v' \<and> step_ok E winv G v0 (Next (advance (m_curPC v + 1) v'))"
proof -
  note d = checkedD [OF c]
  define k :: nat where "k = (if inst = DELEGATECALL then 2 else 3)"
  define p where "p = vm_callParams E inst v"
  have pc: "reach (x_code E) 0 (unat (m_curPC v + 1))"
    by (rule calling_pc [OF c]) (use i in \<open>auto simp: calling_def\<close>)
  have st: "k + 4 \<le> length (m_stack v)" "length (m_stack v) - (k + 4) + 1 \<le> stackLimit (x_schedule E)"
    using d(2,3) i by (auto simp: mk_info_def k_def)
  have fit: "memNeed (m_stack v ! (k + 2)) (m_stack v ! (k + 3)) \<le> length (m_temp v)"
    using d(5) i by (auto simp: op_newTempSize_def Let_def k_def)
  obtain a b cc where sch: "x_schedule E = EVMSchedule a b cc" using env_okD(1) [OF d(15)] by blast
  have "op_gas W E inst v0 < 2 ^ 256"
    using d(7) unat_u256_less [of "io_gas v0"] by linarith
  then have gas: "unat (cp_gas p) < op_gas W E inst v0"
    unfolding p_def by (rule callParams_gas(1) [OF sch d(9) _ i])
  have tot: "unat (io_gas v) + gasForMem (x_schedule E) (length (m_temp v)) + unat (cp_gas p) < G"
    "unat (io_gas v) + unat (cp_gas p) < unat (io_gas v0)"
    using gas d(6,7) by linarith+
  have nowrap: "unat (io_gas v + g) = unat (io_gas v) + unat g" if "unat g \<le> unat (cp_gas p)" for g
    using that tot(2) unat_u256_less [of "io_gas v0"] by (intro unat_u256_add) linarith
  show ?thesis
  proof (cases "x_balance W (v_world v) (x_myAddress E) \<ge> valueTransfer p \<and> x_depth E < 1024")
    case True
    have out: "cp_out p = mem_read (m_temp v) (to_unsigned (m_stack v ! (k + 2))) (to_unsigned (m_stack v ! (k + 3)))"
      by (simp add: p_def vm_callParams_def Let_def k_def)
    have "senderAddress p = x_myAddress E \<or> senderAddress p = x_caller E \<and> valueTransfer p = 0"
      by (simp add: p_def vm_callParams_def Let_def)
    moreover have "length (cp_data p) < 2 ^ 32"
      by (simp only: p_def vm_callParams_def Let_def call_params.simps length_mem_read_unsigned)
    moreover have "unat (cp_gas p) \<le> G" using tot(1) by linarith
    ultimately obtain ok g o' w' s' where r: "x_call W p (v_world v, v_sub v) = Some (ok, g, o', w', s')"
      "unat g \<le> unat (cp_gas p)" "length o' = length (cp_out p)" "winv w'"
      using call_returns [OF d(15,12), of p "v_sub v"] True by blast
    have mem: "length (mem_write (m_temp v) (to_unsigned (m_stack v ! (k + 2))) o') = length (m_temp v)"
    proof (rule length_mem_write)
      note f = memNeed_fits [OF fit d(14)]
      show "to_unsigned (m_stack v ! (k + 2)) + length o' \<le> length (m_temp v) \<or> o' = []"
      proof (cases "m_stack v ! (k + 3) = 0")
        case True
        then show ?thesis using r(3) f(1) by (simp add: out mem_read_def)
      next
        case False
        then show ?thesis
          using r(3) f length_mem_read_le [of "m_temp v" "unat (m_stack v ! (k + 2))" "unat (m_stack v ! (k + 3))"]
          by (simp add: out)
      qed
    qed
    have "vm_call W E inst v =
        Some (v\<lparr>m_stack := bool_word ok # drop (k + 4) (m_stack v), io_gas := io_gas v + g,
          m_temp := mem_write (m_temp v) (to_unsigned (m_stack v ! (k + 2))) o', v_world := w', v_sub := s'\<rparr>)"
      using True r(1) by (simp add: vm_call_def Let_def p_def k_def)
    then show ?thesis
      using d pc st mem r(2,4) nowrap [OF r(2)] tot by (simp add: vm_inv_def advance_def)
  next
    case False
    then have "vm_call W E inst v =
        Some (v\<lparr>m_stack := 0 # drop (k + 4) (m_stack v), io_gas := io_gas v + cp_gas p\<rparr>)"
      by (auto simp: vm_call_def Let_def p_def k_def)
    then show ?thesis
      using d pc st nowrap [OF order_refl] tot by (simp add: vm_inv_def advance_def)
  qed
qed

text \<open>Every step returns, and is good.\<close>

lemma exec_step_ok:
  assumes "vm_inv E winv G v"
  shows "\<exists>s. exec_step W E v = Some s \<and> step_ok E winv G v s"
proof -
  define inst where "inst = decode (getCode E (unat (m_curPC v)))"
  show ?thesis
  proof (cases "checkRequirements W E inst v")
    case (Inl ev)
    obtain e v' where ev: "ev = (e, v')" by force
    then show ?thesis
      using Inl assms checkRequirements_error(1) [of W E inst v e v']
      by (simp add: exec_step_def inst_def Let_def vm_inv_def)
  next
    case (Inr v')
    have c: "checked inst v v'" by (rule checked_intro [OF assms Inr inst_def])
    note d = checkedD [OF c]
    have st: "exec_step W E v = exec_instruction W E inst v'"
      using Inr by (simp add: exec_step_def inst_def)
    consider "inst = CREATE" | "inst \<in> {CALL, CALLCODE, DELEGATECALL}" | "inst = RETURN" | "inst = SUICIDE"
      | "inst = STOP" | "\<not> halting inst" "\<not> calling inst"
      by (auto simp: inst_class_defs)
    then show ?thesis
    proof cases
      case 1
      then show ?thesis
        unfolding st using create_step_ok [of v v'] c
        by (auto simp: exec_instruction_def simp del: step_ok.simps)
    next
      case 2
      then show ?thesis
        unfolding st using call_step_ok [OF c 2] by (auto simp: exec_instruction_def simp del: step_ok.simps)
    next
      case 3
      then show ?thesis
        unfolding st using d(7,12) length_mem_read_unsigned
        by (simp add: exec_instruction_def)
    next
      case 4
      then show ?thesis
        unfolding st using d(7,12) suicide_winv by (simp add: exec_instruction_def vm_suicide_def)
    next
      case 5
      then show ?thesis
        unfolding st using d(7,12) by (simp add: exec_instruction_def)
    next
      case 6
      then have "exec_instruction W E inst v' =
          (case execOrdinaryOpcode inst W E v' of
             Inl e \<Rightarrow> Some (Raise e v') | Inr (pc, v'') \<Rightarrow> Some (Next (advance pc v'')))"
        by (auto simp: exec_instruction_def inst_class_defs)
      then show ?thesis
        unfolding st using ordinary_step_ok [OF c 6] d(12)
        by (auto simp del: step_ok.simps(1) split: sum.splits prod.splits)
    qed
  qed
qed

text \<open>Hence the loop returns from every state of the invariant.\<close>

lemma exec_loop_returns:
  assumes "vm_inv E winv G v"
  shows "\<exists>r v'. exec_loop W E v = Some (r, v') \<and> winv (v_world v')
           \<and> (\<forall>out. r = Inr out \<longrightarrow> unat (io_gas v') \<le> unat (io_gas v) \<and> length out < 2 ^ 32)"
  using assms
proof (induction "unat (io_gas v)" arbitrary: v rule: less_induct)
  case less
  obtain s where s: "exec_step W E v = Some s" "step_ok E winv G v s"
    using exec_step_ok [OF less.prems] by blast
  show ?case
  proof (cases s)
    case (Next v')
    then have inv: "vm_inv E winv G v'" and lt: "unat (io_gas v') < unat (io_gas v)" using s by auto
    have "exec_loop W E v = exec_loop W E v'"
      using s Next by (subst exec_loop.simps) simp
    then show ?thesis using less.hyps [OF lt inv] lt by fastforce
  qed (use s in \<open>auto simp: exec_loop.simps\<close>)
qed

lemma vm_init_inv:
  assumes "env_ok E G" and "winv w" and "unat gas \<le> G" shows "vm_inv E winv G (vm_init E gas w s)"
  using assms by (auto simp: vm_inv_def vm_init_def gasForMem_def intro: reach.refl)

lemma execImpl_returns:
  assumes "env_ok E G" and "winv w" and "unat gas \<le> G"
  shows "\<exists>r v'. execImpl W E gas w s = Some (r, v') \<and> winv (v_world v')
           \<and> (\<forall>out. r = Inr out \<longrightarrow> unat (io_gas v') \<le> unat gas \<and> length out < 2 ^ 32)"
  using exec_loop_returns [OF vm_init_inv [OF assms, of s]]
  by (simp add: execImpl_def) (simp add: vm_init_def)

end

section \<open>Arithmetic\<close>

lemma powm_eq: "0 < m \<Longrightarrow> powm b e m = b ^ e mod m"
proof (induction b e m rule: powm.induct)
  case (1 b e m)
  show ?case
  proof (cases "e = 0")
    case False
    then have h: "powm (b * b mod m) (e div 2) m = (b * b) ^ (e div 2) mod m"
      using 1 by (simp add: power_mod)
    have e: "b ^ e = (b * b) ^ (e div 2) * (if odd e then b else 1)"
      by (cases "odd e") (auto simp: power_mult_distrib power_add [symmetric] mult_2 [symmetric]
          odd_two_times_div_two_succ power_Suc [symmetric] mult.commute elim!: evenE oddE)
    show ?thesis
      using False h by (subst powm.simps) (auto simp: e Let_def mod_mult_right_eq mult.commute)
  qed (simp add: powm.simps)
qed

lemma word_of_nat_powm: "(word_of_nat (powm (unat a) (unat b) (2 ^ 256)) :: u256) = a ^ unat b"
proof -
  have "(word_of_nat (powm (unat a) (unat b) (2 ^ 256)) :: u256) = word_of_nat (unat a ^ unat b mod 2 ^ 256)"
    by (simp add: powm_eq)
  also have "\<dots> = word_of_nat (unat a ^ unat b)"
    by (simp only: word_unat_eq_iff unat_word_of_nat_mod) simp
  finally show ?thesis by simp
qed

lemma u2s_sint: "u2s u = sint u"
proof -
  have "uint u < 2 ^ 256" using uint_lt2p [of u] by simp
  then show ?thesis
    by (simp add: u2s_def sint_uint signed_take_bit_eq_take_bit_minus bit_uint_iff take_bit_int_eq_self)
qed

lemma s2u_word_of_int: "s2u s = word_of_int s"
proof -
  have "(word_of_int (2 ^ 256) :: u256) = 0" by (simp add: word_of_int_eq_0_iff)
  then show ?thesis by (simp add: s2u_def)
qed

lemma bit_mask_word: "bit (2 ^ t - 1 :: u256) i \<longleftrightarrow> i < min t 256"
proof -
  have "2 ^ t - 1 = (mask t :: u256)"
    by (simp add: mask_eq_exp_minus_1)
  then show ?thesis by (auto simp: bit_mask_iff)
qed

lemma vm_signextend_signed:
  "vm_signextend k x = (if k < 31 then signed_take_bit (unat k * 8 + 7) x else x)"
proof (cases "k < 31")
  case True
  then have k: "unat k < 31" by (simp add: word_less_nat_alt)
  show ?thesis
    by (rule bit_eqI)
      (use True k in \<open>auto simp: vm_signextend_def Let_def bit_simps bit_mask_word min_def\<close>)
qed (simp add: vm_signextend_def)

lemma toBigEndian_nth: "i < n \<Longrightarrow> toBigEndian n v ! i = word_of_nat (v div 256 ^ (n - 1 - i))"
proof (induction n arbitrary: v)
  case (Suc n)
  show ?case
  proof (cases "i = n")
    case True
    then show ?thesis by (simp add: nth_append word_unat_eq_iff unat_byte_of_nat)
  next
    case False
    then have i: "i < n" using Suc.prems by simp
    then have "n - i = Suc (n - 1 - i)" by simp
    then show ?thesis
      using Suc.IH [OF i, of "v div 256"] i by (simp add: nth_append div_mult2_eq)
  qed
qed simp

section \<open>The null world\<close>

text \<open>The null implementation that \<^verbatim>\<open>ExtVMFace\<close> itself gives of its virtual methods.\<close>

definition null_ops :: "unit ext_ops" where
  "null_ops =
     \<lparr>x_store = (\<lambda>_ _. 0), x_setStore = (\<lambda>_ _ w. w), x_balance = (\<lambda>_ _. 0), x_codeAt = (\<lambda>_ _. []),
      x_exists = (\<lambda>_ _. False), x_suicide = (\<lambda>_ w. w),
      x_create = (\<lambda>_ gas _ (w, s). Some (0, gas, w, s)),
      x_call = (\<lambda>p (w, s). Some (False, cp_gas p, cp_out p, w, s))\<rparr>"

definition null_env :: "bytes \<Rightarrow> ext_env" where
  "null_env code =
     \<lparr>x_envInfo = \<lparr>e_number = 0, e_author = 0, e_timestamp = 0, e_difficulty = 0, e_gasLimit = 0,
        e_lastHashes = [], e_gasUsed = 0\<rparr>,
      x_myAddress = 0, x_caller = 0, x_origin = 0, x_value = 0, x_gasPrice = 0, x_data = [],
      x_code = code, x_depth = 0, x_schedule = DefaultSchedule\<rparr>"

interpretation null: vm_world null_ops E "\<lambda>_. True" G for E G
  by unfold_locales (auto simp: null_ops_def)

lemma null_env_ok: "length code < 2 ^ 63 \<Longrightarrow> G < 2 ^ 45 \<Longrightarrow> env_ok (null_env code) G"
  by (auto simp: env_ok_def null_env_def DefaultSchedule_def)

section \<open>Properties\<close>

text \<open>C1: execution terminates.  In every world that keeps the contract of \<^verbatim>\<open>ExtVMFace\<close>,
  \<^verbatim>\<open>execImpl\<close> started with at most \<open>G\<close> gas returns: it halts or throws after finitely
  many instructions, keeps the invariant of the world, and hands back at most the gas it got.\<close>

theorem evm_terminates:
  assumes "vm_world W E winv G" and "env_ok E G" and "winv w" and "unat gas \<le> G"
  shows "\<exists>r v'. execImpl W E gas w s = Some (r, v') \<and> winv (v_world v')
           \<and> (\<forall>out. r = Inr out \<longrightarrow> unat (io_gas v') \<le> unat gas)"
  using vm_world.execImpl_returns [OF assms] by blast

theorem evm_terminates_witness:
  "\<exists>r v'. execImpl null_ops (null_env [0x5b, 0x60, 0, 0x56]) 100000 () sub_empty = Some (r, v')"
  using evm_terminates [OF null.vm_world_axioms null_env_ok [of "[0x5b, 0x60, 0, 0x56]" 100000],
      where w = "()" and gas = 100000 and s = sub_empty] by auto

text \<open>C2: the machine invariant.  One step of the loop from a state in which the stack is within its
  limit, the memory is a multiple of 32 bytes that the spent gas has paid for, the jump table is the
  analysis of the code and the program counter is on an instruction boundary, either ends or leads
  to a state of the same kind with strictly less gas.\<close>

theorem evm_step_invariant:
  assumes "vm_world W E winv G" and "vm_inv E winv G v"
  shows "\<exists>s. exec_step W E v = Some s \<and> (\<forall>v'. s = Next v' \<longrightarrow> vm_inv E winv G v' \<and> io_gas v' < io_gas v)"
proof -
  obtain s where "exec_step W E v = Some s" "step_ok E winv G v s"
    using vm_world.exec_step_ok [OF assms] by blast
  then show ?thesis by (auto simp: word_less_nat_alt)
qed

theorem evm_step_invariant_witness:
  "\<exists>s. exec_step null_ops (null_env [0x5b, 0x60, 0, 0x56]) (vm_init (null_env [0x5b, 0x60, 0, 0x56]) 100 () sub_empty) = Some s"
  using evm_step_invariant [OF null.vm_world_axioms
      null.vm_init_inv [OF null_env_ok [of "[0x5b, 0x60, 0, 0x56]" 100],
        where w = "()" and gas = 100 and s = sub_empty]]
  by auto

text \<open>C7: the instruction table tells the truth about the stack.  When \<^verbatim>\<open>checkRequirements\<close>
  accepts an instruction that neither halts nor calls, all its operands are on the stack, executing
  it removes \<^verbatim>\<open>args\<close> entries and adds \<^verbatim>\<open>ret\<close>, and the stack stays within
  \<^verbatim>\<open>stackLimit\<close>.\<close>

theorem evm_stack_effect:
  assumes "checkRequirements W E (decode b) v = Inr v1"
    and "execOrdinaryOpcode (decode b) W E v1 = Inr (pc, v2)"
    and "\<not> halting (decode b)" and "\<not> calling (decode b)"
  shows "i_args (instructionInfo (decode b)) \<le> length (m_stack v)
    \<and> length (m_stack v2) + i_args (instructionInfo (decode b)) =
        length (m_stack v) + i_ret (instructionInfo (decode b))
    \<and> length (m_stack v2) \<le> stackLimit (x_schedule E)"
  using checkRequirements_ok(1,2,6) [OF assms(1)] ordinary_stack_length [OF assms(2) _ _ assms(3,4)]
  by simp

theorem evm_stack_effect_witness:
  "checkRequirements null_ops (null_env []) (decode 0x01) ((vm_init (null_env []) 10 () sub_empty)\<lparr>m_stack := [1, 2]\<rparr>) =
      Inr ((vm_init (null_env []) 7 () sub_empty)\<lparr>m_stack := [1, 2]\<rparr>)
    \<and> execOrdinaryOpcode (decode 0x01) null_ops (null_env []) ((vm_init (null_env []) 7 () sub_empty)\<lparr>m_stack := [1, 2]\<rparr>) =
      Inr (1, (vm_init (null_env []) 7 () sub_empty)\<lparr>m_stack := [3]\<rparr>)
    \<and> i_args (instructionInfo (decode 0x01)) = 2 \<and> i_ret (instructionInfo (decode 0x01)) = 1
    \<and> length (m_stack ((vm_init (null_env []) 7 () sub_empty)\<lparr>m_stack := [3]\<rparr>)) + i_args (instructionInfo (decode 0x01)) =
        length (m_stack ((vm_init (null_env []) 10 () sub_empty)\<lparr>m_stack := [1, 2]\<rparr>)) + i_ret (instructionInfo (decode 0x01))
    \<and> length (m_stack ((vm_init (null_env []) 7 () sub_empty)\<lparr>m_stack := [3]\<rparr>)) \<le> stackLimit (x_schedule (null_env []))"
proof -
  have d: "decode 0x01 = ADD" by (simp add: decode_def plain_instructions_def)
  have c: "checkRequirements null_ops (null_env []) ADD ((vm_init (null_env []) 10 () sub_empty)\<lparr>m_stack := [1, 2]\<rparr>) =
      Inr ((vm_init (null_env []) 7 () sub_empty)\<lparr>m_stack := [1, 2]\<rparr>)"
    by (simp add: checkRequirements_def vm_init_def null_env_def DefaultSchedule_def EVMSchedule_def
        mk_info_def vm_require_def runGas_def op_gas_def newTempSize_def op_newTempSize_def op_copySize_def
        op_refund_def sub_empty_def Let_def)
  have x: "execOrdinaryOpcode ADD null_ops (null_env []) ((vm_init (null_env []) 7 () sub_empty)\<lparr>m_stack := [1, 2]\<rparr>) =
      Inr (1, (vm_init (null_env []) 7 () sub_empty)\<lparr>m_stack := [3]\<rparr>)"
    by (simp add: st2_def vm_init_def)
  have i: "i_args (instructionInfo ADD) = 2" "i_ret (instructionInfo ADD) = 1" by (simp_all add: mk_info_def)
  show ?thesis
    unfolding d
    using c x i evm_stack_effect [of null_ops "null_env []" "0x01", unfolded d, OF c x]
    by (simp add: inst_class_defs)
qed

text \<open>C9: jumps land on instructions.  \<^verbatim>\<open>verifyJumpDest\<close> with the table of
  \<^verbatim>\<open>execImpl\<close> accepts exactly the destinations below \<open>2 ^ 64\<close> at which the code has a
  \<^verbatim>\<open>JUMPDEST\<close> that is an instruction and not the data of a \<^verbatim>\<open>PUSH\<close>; the
  table is strictly increasing, as its binary search requires.\<close>

theorem evm_jump_destinations:
  "(verifyJumpDest dest (find_jumpDests code 0) =
      (if reach code 0 (unat dest) \<and> unat dest < length code \<and> unat dest < 2 ^ 64
          \<and> unat (code ! unat dest) = 0x5b
       then Inr (word_of_nat (unat dest)) else Inl BadJumpDestination))
    \<and> sorted_wrt (<) (find_jumpDests code 0)"
  using sorted_find_jumpDests [of code 0]
  by (auto simp: verifyJumpDest_def find_jumpDests_iff Let_def unsigned_ucast_eq take_bit_nat_eq_self)

text \<open>C10: the arithmetic and comparison instructions.  \<^verbatim>\<open>DIV\<close> and
  \<^verbatim>\<open>MOD\<close> are division and remainder of unsigned words, \<^verbatim>\<open>SDIV\<close> and
  \<^verbatim>\<open>SMOD\<close> those of two's complement numbers (truncating), all four zero for a zero divisor;
  \<^verbatim>\<open>LT\<close> and \<^verbatim>\<open>GT\<close> compare unsigned words, \<^verbatim>\<open>SLT\<close> and
  \<^verbatim>\<open>SGT\<close> two's complement numbers, the top of the stack on the left;
  \<^verbatim>\<open>SIGNEXTEND\<close> is sign extension from the given byte; \<^verbatim>\<open>EXP\<close> is the power
  modulo \<open>2 ^ 256\<close>; and \<^verbatim>\<open>ADDMOD\<close> and \<^verbatim>\<open>MULMOD\<close> take the modulus of the
  sum and of the product of the numbers, without a wrap at \<open>2 ^ 256\<close> before it.\<close>

theorem evm_arithmetic:
  "execOrdinaryOpcode SDIV W E v = st2 (\<lambda>a b. if b = 0 then 0 else word_of_int (sint a sdiv sint b)) v
  \<and> execOrdinaryOpcode SMOD W E v = st2 (\<lambda>a b. if b = 0 then 0 else word_of_int (sint a smod sint b)) v
  \<and> execOrdinaryOpcode SLT W E v = st2 (\<lambda>a b. bool_word (a <s b)) v
  \<and> execOrdinaryOpcode SGT W E v = st2 (\<lambda>a b. bool_word (b <s a)) v
  \<and> execOrdinaryOpcode LT W E v = st2 (\<lambda>a b. bool_word (uint a < uint b)) v
  \<and> execOrdinaryOpcode GT W E v = st2 (\<lambda>a b. bool_word (uint b < uint a)) v
  \<and> execOrdinaryOpcode SIGNEXTEND W E v =
      st2 (\<lambda>k x. if k < 31 then signed_take_bit (unat k * 8 + 7) x else x) v
  \<and> execOrdinaryOpcode EXP W E v = st2 (\<lambda>a b. a ^ unat b) v
  \<and> execOrdinaryOpcode DIV W E v = st2 (\<lambda>a b. a div b) v
  \<and> execOrdinaryOpcode MOD W E v = st2 (\<lambda>a b. if b = 0 then 0 else a mod b) v
  \<and> execOrdinaryOpcode ADDMOD W E v =
      st3 (\<lambda>a b c. if c = 0 then 0 else word_of_int ((uint a + uint b) mod uint c)) v
  \<and> execOrdinaryOpcode MULMOD W E v =
      st3 (\<lambda>a b c. if c = 0 then 0 else word_of_int ((uint a * uint b) mod uint c)) v"
proof -
  have "(word_of_nat (unat a div unat b) :: u256) = a div b" "b = 0 \<Longrightarrow> a div b = 0"
    "(word_of_nat (unat a mod unat b) :: u256) = a mod b" for a b :: u256
    by (metis unat_div word_of_nat_unat) (simp, metis unat_mod word_of_nat_unat)
  moreover have "(word_of_nat (m mod unat c) :: u256) = word_of_int (int m mod uint c)"
    for m and c :: u256
    by (metis of_int_of_nat_eq uint_nat zmod_int)
  ultimately show ?thesis
    by (auto simp: u2s_sint s2u_word_of_int word_sless_alt word_less_def vm_signextend_signed
        word_of_nat_powm [simplified]
        fun_eq_iff intro!: arg_cong [where f = "\<lambda>f. st2 f v"] arg_cong [where f = "\<lambda>f. st3 f v"])
qed

text \<open>C8: a call never creates gas.  When \<^verbatim>\<open>checkRequirements\<close> accepts a call, the gas
  passed to the callee is the operand plus the stipend for a call with value, computed without
  wrapping around, and together with what the caller keeps it is less than what the caller had.\<close>

theorem evm_call_gas:
  assumes "x_schedule E = EVMSchedule a b c" and "checkRequirements W E inst v = Inr v1"
    and "inst \<in> {CALL, CALLCODE, DELEGATECALL}"
  shows "unat (cp_gas (vm_callParams E inst v1)) =
      unat (m_stack v ! 0) + (if inst \<noteq> DELEGATECALL \<and> m_stack v ! 2 > 0 then 2300 else 0)
    \<and> unat (cp_gas (vm_callParams E inst v1)) + unat (io_gas v1) < unat (io_gas v)"
proof -
  note ok = checkRequirements_ok [OF assms(2)]
  have le: "op_gas W E inst v \<le> runGas W E inst v" by (simp add: runGas_def Let_def)
  then have "op_gas W E inst v < 2 ^ 256"
    using ok(4) unat_u256_less [of "io_gas v"] by linarith
  note g = callParams_gas [OF assms(1) ok(6) this assms(3)]
  have "callStipend (x_schedule E) = 2300" by (simp add: assms(1) EVMSchedule_def)
  then show ?thesis
    using g ok(4,6) le by auto
qed

theorem evm_call_gas_witness:
  "unat (cp_gas (vm_callParams (null_env []) CALL
     ((vm_init (null_env []) 3860 () sub_empty)\<lparr>m_stack := [100, 1, 1, 0, 0, 0, 0]\<rparr>))) = 2400"
proof -
  have "checkRequirements null_ops (null_env []) CALL
        ((vm_init (null_env []) 38000 () sub_empty)\<lparr>m_stack := [100, 1, 1, 0, 0, 0, 0]\<rparr>) =
      Inr ((vm_init (null_env []) 3860 () sub_empty)\<lparr>m_stack := [100, 1, 1, 0, 0, 0, 0]\<rparr>)"
    by (simp add: checkRequirements_def vm_init_def null_env_def null_ops_def DefaultSchedule_def EVMSchedule_def
        mk_info_def vm_require_def runGas_def op_gas_def newTempSize_def op_newTempSize_def op_copySize_def
        op_refund_def sub_empty_def memNeed_def Let_def)
  from evm_call_gas [OF _ this, of True True 53000] show ?thesis
    by (simp add: null_env_def DefaultSchedule_def)
qed

end
