(* ===== verification/World_State.thy ===== *)
theory World_State
  imports Evm
begin

text \<open>
  \<^verbatim>\<open>libelementrem/Account.h\<close> and \<^verbatim>\<open>State.h\<close>, \<^verbatim>\<open>State.cpp\<close>: the
  accounts and the world state, a cache of accounts over the state trie.  The trie is represented by
  its contents: \<open>s_trie\<close> is the account decoded from \<^verbatim>\<open>m_state.at(_a)\<close>,
  \<open>s_storageTrie\<close> the value decoded from the storage trie of a root, and \<open>s_code\<close> the code
  \<^verbatim>\<open>m_db.lookup\<close> returns for a hash.  A read fills the cache in the source.  The functions
  \<open>state_balance\<close>, \<open>addressHasCode\<close>, \<open>state_code\<close> and the like are its value, and
  \<open>balance_load\<close>, \<open>hasCode_load\<close>, \<open>code_load\<close> and \<open>storage_load\<close> the whole method,
  with the cache it leaves; \<open>reads_fill\<close> shows that they return that value and leave a state whose
  reads are all the same.  The machine and the executive are modelled with the values alone: their
  states may have fewer entries in the cache than the source's, and what is said of them is said of
  what a state reads as (\<open>same_view\<close>), not of the cache.
\<close>

section \<open>Accounts\<close>

record account =
  a_isAlive :: bool
  a_isUnchanged :: bool
  a_nonce :: u256
  a_balance :: u256
  a_storageRoot :: h256
  a_codeHash :: h256
  a_storageOverlay :: "u256 \<rightharpoonup> u256"
  a_codeCache :: bytes

definition EmptySHA3 :: h256 where "EmptySHA3 = sha3 []"
definition EmptyTrie :: h256 where "EmptyTrie = sha3 [0x80]"
definition c_contractConceptionCodeHash :: h256 where "c_contractConceptionCodeHash = 0"

datatype NewAccountType = NormalCreation | ContractConception
datatype Changedness = Changed | Unchanged

definition account_dead :: account where
  "account_dead =
     \<lparr>a_isAlive = False, a_isUnchanged = False, a_nonce = 0, a_balance = 0, a_storageRoot = EmptyTrie,
      a_codeHash = EmptySHA3, a_storageOverlay = Map.empty, a_codeCache = []\<rparr>"

definition account_new :: "u256 \<Rightarrow> u256 \<Rightarrow> NewAccountType \<Rightarrow> Changedness \<Rightarrow> account" where
  "account_new nonce balance t c =
     account_dead\<lparr>a_isAlive := True, a_isUnchanged := (c = Unchanged), a_nonce := nonce,
       a_balance := balance,
       a_codeHash := (if t = NormalCreation then EmptySHA3 else c_contractConceptionCodeHash)\<rparr>"

definition account_plain :: "u256 \<Rightarrow> u256 \<Rightarrow> Changedness \<Rightarrow> account" where
  "account_plain nonce balance c =
     account_dead\<lparr>a_isAlive := True, a_isUnchanged := (c = Unchanged), a_nonce := nonce,
       a_balance := balance\<rparr>"

definition account_contract :: "u256 \<Rightarrow> u256 \<Rightarrow> h256 \<Rightarrow> h256 \<Rightarrow> Changedness \<Rightarrow> account" where
  "account_contract nonce balance root codeHash c =
     account_dead\<lparr>a_isAlive := True, a_isUnchanged := (c = Unchanged), a_nonce := nonce,
       a_balance := balance, a_storageRoot := root, a_codeHash := codeHash\<rparr>"

definition account_changed :: "account \<Rightarrow> account" where
  "account_changed x = x\<lparr>a_isUnchanged := False\<rparr>"

definition account_kill :: "account \<Rightarrow> account" where
  "account_kill x =
     account_changed (x\<lparr>a_isAlive := False, a_storageOverlay := Map.empty, a_codeHash := EmptySHA3,
       a_storageRoot := EmptyTrie, a_balance := 0, a_nonce := 0\<rparr>)"

definition isDirty :: "account \<Rightarrow> bool" where
  "isDirty x = (\<not> a_isUnchanged x)"

definition account_addBalance :: "int \<Rightarrow> account \<Rightarrow> account" where
  "account_addBalance i x =
     (if i = 0 then x else account_changed (x\<lparr>a_balance := word_of_int (uint (a_balance x) + i)\<rparr>))"

definition account_incNonce :: "account \<Rightarrow> account" where
  "account_incNonce x = account_changed (x\<lparr>a_nonce := a_nonce x + 1\<rparr>)"

definition account_setStorage :: "u256 \<Rightarrow> u256 \<Rightarrow> account \<Rightarrow> account" where
  "account_setStorage p v x = account_changed (x\<lparr>a_storageOverlay := (a_storageOverlay x)(p \<mapsto> v)\<rparr>)"

definition isFreshCode :: "account \<Rightarrow> bool" where
  "isFreshCode x = (a_codeHash x = c_contractConceptionCodeHash)"

definition codeBearing :: "account \<Rightarrow> bool" where
  "codeBearing x = (a_codeHash x \<noteq> EmptySHA3)"

definition account_setCode :: "bytes \<Rightarrow> account \<Rightarrow> account" where
  "account_setCode code x = account_changed (x\<lparr>a_codeCache := code\<rparr>)"

definition codeCacheValid :: "account \<Rightarrow> bool" where
  "codeCacheValid x =
     (a_codeHash x = EmptySHA3 \<or> a_codeHash x = c_contractConceptionCodeHash \<or> a_codeCache x \<noteq> [])"

definition noteCode :: "bytes \<Rightarrow> account \<Rightarrow> account" where
  "noteCode code x = x\<lparr>a_codeCache := code\<rparr>"

section \<open>The state\<close>

datatype state_error =
  NotEnoughCash | InvalidAccountStartNonceInState | IncorrectAccountStartNonceInState

record state =
  m_cache :: "address \<rightharpoonup> account"
  s_trie :: "address \<rightharpoonup> account"
  s_storageTrie :: "h256 \<Rightarrow> u256 \<Rightarrow> u256"
  s_code :: "h256 \<Rightarrow> bytes"
  m_touched :: "address set"
  m_accountStartNonce :: u256

definition Invalid256 :: u256 where "Invalid256 = NOT 0"

definition requireAccountStartNonce :: "state \<Rightarrow> state_error + u256" where
  "requireAccountStartNonce s =
     (if m_accountStartNonce s = Invalid256 then Inl InvalidAccountStartNonceInState
      else Inr (m_accountStartNonce s))"

definition noteAccountStartNonce :: "u256 \<Rightarrow> state \<Rightarrow> state_error + state" where
  "noteAccountStartNonce actual s =
     (if m_accountStartNonce s = Invalid256 then Inr (s\<lparr>m_accountStartNonce := actual\<rparr>)
      else if m_accountStartNonce s \<noteq> actual then Inl IncorrectAccountStartNonceInState
      else Inr s)"

text \<open>\<^verbatim>\<open>ensureCached(_a, false, false)\<close>, which does not throw.\<close>

definition fetch :: "address \<Rightarrow> state \<Rightarrow> state" where
  "fetch a s =
     (case m_cache s a of
        Some _ \<Rightarrow> s
      | None \<Rightarrow> (case s_trie s a of
                   None \<Rightarrow> s
                 | Some x \<Rightarrow> s\<lparr>m_cache := (m_cache s)(a \<mapsto> x)\<rparr>))"

definition load_code :: "state \<Rightarrow> account \<Rightarrow> account" where
  "load_code s x =
     (if \<not> isFreshCode x \<and> \<not> codeCacheValid x
      then noteCode (if a_codeHash x = EmptySHA3 then [] else s_code s (a_codeHash x)) x
      else x)"

definition ensureCached :: "address \<Rightarrow> bool \<Rightarrow> bool \<Rightarrow> state \<Rightarrow> state_error + state" where
  "ensureCached a requireCode forceCreate s =
     res_bind
       (let s1 = fetch a s in
        if m_cache s1 a = None \<and> forceCreate then
          res_bind (requireAccountStartNonce s) (\<lambda>n.
            Inr (s1\<lparr>m_cache := (m_cache s1)(a \<mapsto> account_new n 0 NormalCreation Changed)\<rparr>))
        else Inr s1)
       (\<lambda>s2. case m_cache s2 a of
                Some x \<Rightarrow>
                  (if requireCode then Inr (s2\<lparr>m_cache := (m_cache s2)(a \<mapsto> load_code s2 x)\<rparr>) else Inr s2)
              | None \<Rightarrow> Inr s2)"

definition setRoot :: "(address \<rightharpoonup> account) \<Rightarrow> state \<Rightarrow> state" where
  "setRoot trie s = s\<lparr>m_cache := Map.empty, s_trie := trie\<rparr>"

definition addressInUse :: "state \<Rightarrow> address \<Rightarrow> bool" where
  "addressInUse s a = (case m_cache (fetch a s) a of None \<Rightarrow> False | Some _ \<Rightarrow> True)"

definition addressHasCode :: "state \<Rightarrow> address \<Rightarrow> bool" where
  "addressHasCode s a =
     (case m_cache (fetch a s) a of
        None \<Rightarrow> False
      | Some x \<Rightarrow> isFreshCode x \<or> a_codeHash x \<noteq> EmptySHA3)"

definition state_balance :: "state \<Rightarrow> address \<Rightarrow> u256" where
  "state_balance s a = (case m_cache (fetch a s) a of None \<Rightarrow> 0 | Some x \<Rightarrow> a_balance x)"

definition cache_put :: "address \<Rightarrow> account \<Rightarrow> state \<Rightarrow> state" where
  "cache_put a x s = s\<lparr>m_cache := (m_cache s)(a \<mapsto> x)\<rparr>"

definition noteSending :: "address \<Rightarrow> state \<Rightarrow> state_error + state" where
  "noteSending a s =
     (let s1 = fetch a s in
      case m_cache s1 a of
        None \<Rightarrow> res_bind (requireAccountStartNonce s1) (\<lambda>n. Inr (cache_put a (account_plain (n + 1) 0 Changed) s1))
      | Some x \<Rightarrow> Inr (cache_put a (account_incNonce x) s1))"

definition addBalance :: "address \<Rightarrow> u256 \<Rightarrow> state \<Rightarrow> state_error + state" where
  "addBalance a amount s =
     (let s1 = fetch a s in
      case m_cache s1 a of
        None \<Rightarrow> res_bind (requireAccountStartNonce s1) (\<lambda>n.
                  Inr (cache_put a (account_new n amount NormalCreation Changed) s1))
      | Some x \<Rightarrow> Inr (cache_put a (account_addBalance (uint amount) x) s1))"

definition subBalance :: "address \<Rightarrow> int \<Rightarrow> state \<Rightarrow> state_error + state" where
  "subBalance a amount s =
     (let s1 = fetch a s in
      case m_cache s1 a of
        None \<Rightarrow> Inl NotEnoughCash
      | Some x \<Rightarrow>
          (if uint (a_balance x) < amount then Inl NotEnoughCash
           else Inr (cache_put a (account_addBalance (- amount) x) s1)))"

definition transferBalance :: "address \<Rightarrow> address \<Rightarrow> u256 \<Rightarrow> state \<Rightarrow> state_error + state" where
  "transferBalance src dst v s = res_bind (subBalance src (uint v) s) (addBalance dst v)"

definition transactionsFrom :: "state \<Rightarrow> address \<Rightarrow> u256" where
  "transactionsFrom s a =
     (case m_cache (fetch a s) a of None \<Rightarrow> m_accountStartNonce s | Some x \<Rightarrow> a_nonce x)"

definition state_storage :: "state \<Rightarrow> address \<Rightarrow> u256 \<Rightarrow> u256" where
  "state_storage s a k =
     (case m_cache (fetch a s) a of
        None \<Rightarrow> 0
      | Some x \<Rightarrow> (case a_storageOverlay x k of Some v \<Rightarrow> v | None \<Rightarrow> s_storageTrie s (a_storageRoot x) k))"

text \<open>\<^verbatim>\<open>State::storage\<close> with its effect: a value read from the trie goes into the
  overlay of the account, which it marks as changed.\<close>

definition storage_load :: "address \<Rightarrow> u256 \<Rightarrow> state \<Rightarrow> u256 \<times> state" where
  "storage_load a k s =
     (let s1 = fetch a s in
      case m_cache s1 a of
        None \<Rightarrow> (0, s1)
      | Some x \<Rightarrow>
          (case a_storageOverlay x k of
             Some v \<Rightarrow> (v, s1)
           | None \<Rightarrow> (let ret = s_storageTrie s1 (a_storageRoot x) k
                      in (ret, cache_put a (account_setStorage k ret x) s1))))"

text \<open>\<^verbatim>\<open>balance\<close>, \<^verbatim>\<open>addressHasCode\<close> and \<^verbatim>\<open>code\<close> with their
  effects: the account, and for the last one its code, goes into the cache.\<close>

definition balance_load :: "address \<Rightarrow> state \<Rightarrow> u256 \<times> state" where
  "balance_load a s =
     (let s1 = fetch a s in (case m_cache s1 a of None \<Rightarrow> 0 | Some x \<Rightarrow> a_balance x, s1))"

definition hasCode_load :: "address \<Rightarrow> state \<Rightarrow> bool \<times> state" where
  "hasCode_load a s =
     (let s1 = fetch a s in
      (case m_cache s1 a of None \<Rightarrow> False | Some x \<Rightarrow> isFreshCode x \<or> a_codeHash x \<noteq> EmptySHA3, s1))"

definition code_load :: "address \<Rightarrow> state \<Rightarrow> state_error + bytes \<times> state" where
  "code_load a s =
     (let (has, s1) = hasCode_load a s in
      if \<not> has then Inr ([], s1)
      else res_bind (ensureCached a True False s1) (\<lambda>s2.
        Inr (case m_cache s2 a of None \<Rightarrow> [] | Some x \<Rightarrow> a_codeCache x, s2)))"

text \<open>\<^verbatim>\<open>m_cache[_contract]\<close> creates a dead account where the cache has none.\<close>

definition setStorage :: "address \<Rightarrow> u256 \<Rightarrow> u256 \<Rightarrow> state \<Rightarrow> state" where
  "setStorage a k v s =
     cache_put a (account_setStorage k v (case m_cache s a of Some x \<Rightarrow> x | None \<Rightarrow> account_dead)) s"

definition state_code :: "state \<Rightarrow> address \<Rightarrow> bytes" where
  "state_code s a =
     (if \<not> addressHasCode s a then []
      else (case m_cache (fetch a s) a of None \<Rightarrow> [] | Some x \<Rightarrow> a_codeCache (load_code s x)))"

definition state_codeHash :: "state \<Rightarrow> address \<Rightarrow> h256" where
  "state_codeHash s a =
     (if \<not> addressHasCode s a then EmptySHA3
      else (case m_cache (fetch a s) a of
              None \<Rightarrow> EmptySHA3
            | Some x \<Rightarrow> if isFreshCode x then sha3 (state_code s a) else a_codeHash x))"

section \<open>Views\<close>

definition account_at :: "state \<Rightarrow> address \<rightharpoonup> account" where
  "account_at s a = (case m_cache s a of Some x \<Rightarrow> Some x | None \<Rightarrow> s_trie s a)"

definition bal :: "account option \<Rightarrow> nat" where
  "bal x = (case x of None \<Rightarrow> 0 | Some y \<Rightarrow> unat (a_balance y))"

definition total_balance :: "state \<Rightarrow> nat" where
  "total_balance s = (\<Sum>a\<in>UNIV. bal (account_at s a))"

lemma fetch_cache [simp]: "m_cache (fetch a s) a = account_at s a"
  by (auto simp: fetch_def account_at_def split: option.splits)

lemma fetch_frame [simp]:
  "s_trie (fetch a s) = s_trie s" "s_storageTrie (fetch a s) = s_storageTrie s"
  "s_code (fetch a s) = s_code s" "m_accountStartNonce (fetch a s) = m_accountStartNonce s"
  "m_touched (fetch a s) = m_touched s"
  by (auto simp: fetch_def split: option.splits)

text \<open>Filling the cache changes no account.\<close>

lemma fetch_account_at [simp]: "account_at (fetch a s) = account_at s"
  by (rule ext) (auto simp: account_at_def fetch_def split: option.splits)

lemma total_fetch [simp]: "total_balance (fetch a s) = total_balance s"
  by (simp add: total_balance_def)

lemma cache_put_frame [simp]:
  "s_trie (cache_put a x s) = s_trie s" "s_storageTrie (cache_put a x s) = s_storageTrie s"
  "s_code (cache_put a x s) = s_code s" "m_accountStartNonce (cache_put a x s) = m_accountStartNonce s"
  "m_touched (cache_put a x s) = m_touched s"
  by (simp_all add: cache_put_def)

lemma account_at_cache_put [simp]: "account_at (cache_put a x s) = (account_at s)(a \<mapsto> x)"
  by (rule ext) (simp add: account_at_def cache_put_def split: option.splits)

lemma state_balance_view: "unat (state_balance s a) = bal (account_at s a)"
  by (simp add: state_balance_def bal_def split: option.splits)

lemma sum_fun_upd:
  fixes f :: "'a::finite \<Rightarrow> nat"
  shows "(\<Sum>x\<in>UNIV. (f(a := v)) x) + f a = (\<Sum>x\<in>UNIV. f x) + v"
proof -
  have "(\<Sum>x\<in>UNIV. (f(a := v)) x) = v + (\<Sum>x\<in>UNIV - {a}. f x)"
    by (subst sum.remove [of UNIV a]) auto
  moreover have "(\<Sum>x\<in>UNIV. f x) = f a + (\<Sum>x\<in>UNIV - {a}. f x)"
    by (subst sum.remove [of UNIV a]) auto
  ultimately show ?thesis by simp
qed

lemma total_cache_put:
  "total_balance (cache_put a x s) + bal (account_at s a) = total_balance s + unat (a_balance x)"
proof -
  have eq: "(\<lambda>b. bal (account_at (cache_put a x s) b)) = (\<lambda>b. bal (account_at s b))(a := unat (a_balance x))"
    by (auto simp: bal_def)
  show ?thesis
    unfolding total_balance_def eq by (rule sum_fun_upd)
qed

lemma bal_le_total: "bal (account_at s a) \<le> total_balance s"
  unfolding total_balance_def by (rule member_le_sum) auto

lemma bal_pair_le_total: "a \<noteq> b \<Longrightarrow> bal (account_at s a) + bal (account_at s b) \<le> total_balance s"
proof -
  assume "a \<noteq> b"
  then have "(\<Sum>c\<in>{a, b}. bal (account_at s c)) = bal (account_at s a) + bal (account_at s b)" by simp
  moreover have "(\<Sum>c\<in>{a, b}. bal (account_at s c)) \<le> total_balance s"
    unfolding total_balance_def by (rule sum_mono2) auto
  ultimately show ?thesis by simp
qed


section \<open>Balances\<close>

lemma unat_add_u256: "unat (a :: u256) + unat b < 2 ^ 256 \<Longrightarrow> unat (a + b) = unat a + unat b"
  by (simp add: unat_word_ariths)

lemma unat_word_of_int_u256: "0 \<le> n \<Longrightarrow> n < 2 ^ 256 \<Longrightarrow> unat (word_of_int n :: u256) = nat n"
  by (simp add: unat_eq_nat_uint uint_word_of_int)

lemma unat_diff_u256:
  assumes "0 \<le> n" and "n \<le> uint (a :: u256)"
  shows "unat (a - word_of_int n) = unat a - nat n"
proof -
  have "uint a < 2 ^ LENGTH(256)" by (rule unsigned_less)
  then have lt: "n < 2 ^ 256" using assms(2) by simp
  have "word_of_int n \<le> a"
    using assms lt by (simp add: word_le_def uint_word_of_int)
  then show ?thesis using assms(1) lt by (simp add: unat_sub unat_word_of_int_u256)
qed

lemma account_addBalance_word [simp]:
  "a_balance (account_addBalance (uint v) x) = a_balance x + v"
  "a_balance (account_addBalance (- n) x) = a_balance x - word_of_int n"
  by (auto simp: account_addBalance_def account_changed_def uint_0_iff)

lemma account_addBalance_frame [simp]:
  "a_nonce (account_addBalance i x) = a_nonce x" "a_codeHash (account_addBalance i x) = a_codeHash x"
  "a_codeCache (account_addBalance i x) = a_codeCache x"
  "a_storageOverlay (account_addBalance i x) = a_storageOverlay x"
  "a_storageRoot (account_addBalance i x) = a_storageRoot x" "a_isAlive (account_addBalance i x) = a_isAlive x"
  by (simp_all add: account_addBalance_def account_changed_def)

section \<open>The invariant of the world\<close>

text \<open>What a transaction relies on: the part under the cache (\<open>base\<close>) stays what it is, the
  balances sum up to at most \<open>T\<close>, which fits a balance, the start nonce is known, codes have a
  size that fits, and the accounts \<open>A\<close> are cached.\<close>

definition base :: "state \<Rightarrow> state" where
  "base s = s\<lparr>m_cache := Map.empty\<rparr>"

definition code_sizes :: "state \<Rightarrow> bool" where
  "code_sizes s =
     ((\<forall>a x. account_at s a = Some x \<longrightarrow> length (a_codeCache x) < 2 ^ 63)
      \<and> (\<forall>h. length (s_code s h) < 2 ^ 63))"

definition world_ok :: "state \<Rightarrow> nat \<Rightarrow> address set \<Rightarrow> state \<Rightarrow> bool" where
  "world_ok B T A s =
     (base s = B \<and> T < 2 ^ 256 \<and> total_balance s \<le> T \<and> m_accountStartNonce s \<noteq> Invalid256
      \<and> code_sizes s \<and> (\<forall>a\<in>A. m_cache s a \<noteq> None))"

lemma world_okD:
  assumes "world_ok B T A s"
  shows "base s = B" and "T < 2 ^ 256" and "total_balance s \<le> T"
    and "m_accountStartNonce s \<noteq> Invalid256" and "code_sizes s" and "a \<in> A \<Longrightarrow> m_cache s a \<noteq> None"
  using assms by (auto simp: world_ok_def)

lemma base_fetch [simp]: "base (fetch a s) = base s"
  by (auto simp: base_def fetch_def split: option.splits)

lemma base_cache_put [simp]: "base (cache_put a x s) = base s"
  by (simp add: base_def cache_put_def)

lemma base_eqD:
  assumes "base s = base s'"
  shows "s_trie s = s_trie s'" and "s_storageTrie s = s_storageTrie s'" and "s_code s = s_code s'"
    and "m_touched s = m_touched s'" and "m_accountStartNonce s = m_accountStartNonce s'"
  using assms unfolding base_def by (metis state.select_convs(2-6) state.surjective state.update_convs(1))+

lemma cached_account_at: "m_cache s a = Some x \<Longrightarrow> account_at s a = Some x"
  by (simp add: account_at_def)

lemma world_ok_mono: "world_ok B T A s \<Longrightarrow> A' \<subseteq> A \<Longrightarrow> world_ok B T A' s"
  by (auto simp: world_ok_def)

lemma world_ok_fetch: "world_ok B T A s \<Longrightarrow> world_ok B T A (fetch a s)"
  by (auto simp: world_ok_def code_sizes_def) (auto simp: fetch_def split: option.splits)

lemma world_ok_put:
  assumes w: "world_ok B T A s" and size: "length (a_codeCache x) < 2 ^ 63"
    and le: "total_balance s + unat (a_balance x) \<le> T + bal (account_at s a)"
  shows "world_ok B T (insert a A) (cache_put a x s)"
proof -
  have "total_balance (cache_put a x s) \<le> T"
    using total_cache_put [of a x s] le by linarith
  moreover have "code_sizes (cache_put a x s)"
    using world_okD(5) [OF w] size by (auto simp: code_sizes_def)
  ultimately show ?thesis
    using w by (auto simp: world_ok_def cache_put_def) (auto simp: base_def)
qed

lemma world_code_size:
  assumes "world_ok B T A s"
  shows "account_at s a = Some x \<Longrightarrow> length (a_codeCache x) < 2 ^ 63" and "length (s_code s h) < 2 ^ 63"
  using world_okD(5) [OF assms] by (auto simp: code_sizes_def)

lemma load_code_frame [simp]:
  "a_balance (load_code s x) = a_balance x" "a_nonce (load_code s x) = a_nonce x"
  "a_isAlive (load_code s x) = a_isAlive x" "a_codeHash (load_code s x) = a_codeHash x"
  "a_storageOverlay (load_code s x) = a_storageOverlay x" "a_storageRoot (load_code s x) = a_storageRoot x"
  by (simp_all add: load_code_def noteCode_def)

lemma world_load_code:
  assumes "world_ok B T A s" and "account_at s a = Some x"
  shows "length (a_codeCache (load_code s x)) < 2 ^ 63"
  using world_code_size [OF assms(1)] assms(2) by (simp add: load_code_def noteCode_def)

lemma world_state_code:
  assumes "world_ok B T A s"
  shows "length (state_code s a) < 2 ^ 63"
  using world_load_code [OF assms] by (simp add: state_code_def split: option.splits)

section \<open>Operations\<close>

lemma bal_simps [simp]: "bal None = 0" "bal (Some x) = unat (a_balance x)"
  by (simp_all add: bal_def)

lemma account_new_simps [simp]:
  "a_balance (account_new n b t c) = b" "a_codeCache (account_new n b t c) = []"
  "a_balance (account_plain n b c) = b" "a_codeCache (account_plain n b c) = []"
  "a_balance account_dead = 0" "a_codeCache account_dead = []"
  by (simp_all add: account_new_def account_plain_def account_dead_def)

lemma world_start_nonce: "world_ok B T A s \<Longrightarrow> requireAccountStartNonce s = Inr (m_accountStartNonce s)"
  by (simp add: requireAccountStartNonce_def world_ok_def)

lemma start_nonce_fetch [simp]: "requireAccountStartNonce (fetch a s) = requireAccountStartNonce s"
  by (simp add: requireAccountStartNonce_def)

lemma total_put_new: "account_at s a = None \<Longrightarrow> total_balance (cache_put a x s) = total_balance s + unat (a_balance x)"
  using total_cache_put [of a x s] by simp

lemma total_put_old:
  "account_at s a = Some y \<Longrightarrow>
    total_balance (cache_put a x s) = total_balance s + unat (a_balance x) - unat (a_balance y)"
  using total_cache_put [of a x s] by simp

lemma addBalance_result:
  assumes "world_ok B T A s"
  shows "addBalance a v s =
    Inr (cache_put a (case account_at s a of None \<Rightarrow> account_new (m_accountStartNonce s) v NormalCreation Changed
                      | Some x \<Rightarrow> account_addBalance (uint v) x) (fetch a s))"
  using world_start_nonce [OF assms] by (simp add: addBalance_def Let_def split: option.splits)

lemma addBalance_ok:
  assumes w: "world_ok B T A s" and le: "total_balance s + unat v \<le> T"
  shows "\<exists>s'. addBalance a v s = Inr s' \<and> world_ok B T (insert a A) s' \<and> total_balance s' = total_balance s + unat v"
proof (cases "account_at s a")
  case None
  then show ?thesis
    using addBalance_result [OF w, of a v] world_ok_put [OF world_ok_fetch [OF w], of _ a a] le
    by (simp add: total_put_new)
next
  case (Some x)
  have fit: "unat (a_balance x + v) = unat (a_balance x) + unat v"
    using bal_le_total [of s a] le world_okD(2) [OF w] Some by (intro unat_add_u256) simp
  then show ?thesis
    using addBalance_result [OF w, of a v] world_ok_put [OF world_ok_fetch [OF w], of _ a a] le Some
      world_code_size(1) [OF w Some]
    by (simp add: total_put_old)
qed

lemma subBalance_ok:
  assumes w: "world_ok B T A s" and x: "account_at s a = Some x" and n: "0 \<le> n" "n \<le> uint (a_balance x)"
  shows "\<exists>s'. subBalance a n s = Inr s' \<and> world_ok B T (insert a A) s' \<and> total_balance s' + nat n = total_balance s
    \<and> s' = cache_put a (account_addBalance (- n) x) (fetch a s)"
proof -
  define y where "y = account_addBalance (- n) x"
  have b: "unat (a_balance y) = unat (a_balance x) - nat n"
    using unat_diff_u256 [OF n] by (simp add: y_def)
  have le: "nat n \<le> unat (a_balance x)" using n by (metis nat_mono unat_eq_nat_uint)
  have "world_ok B T (insert a A) (cache_put a y (fetch a s))"
    using world_ok_put [OF world_ok_fetch [OF w], of y a a] b x world_okD(3) [OF w] world_code_size(1) [OF w x]
    by (simp add: y_def)
  moreover have "total_balance (cache_put a y (fetch a s)) + nat n = total_balance s"
    using total_cache_put [of a y "fetch a s"] b x le bal_le_total [of s a] by simp
  moreover have "subBalance a n s = Inr (cache_put a y (fetch a s))"
    using x n by (simp add: subBalance_def y_def)
  ultimately show ?thesis by (simp add: y_def)
qed

lemma transferBalance_ok:
  assumes w: "world_ok B T A s" and x: "account_at s src \<noteq> None" and v: "v \<le> state_balance s src"
  shows "\<exists>s'. transferBalance src dst v s = Inr s' \<and> world_ok B T (insert dst A) s'
    \<and> total_balance s' = total_balance s"
proof -
  obtain y where y: "account_at s src = Some y" using x by auto
  have le: "uint v \<le> uint (a_balance y)"
    using v y by (simp add: state_balance_def word_le_def)
  from subBalance_ok [OF w y _ le] obtain s1 where s1: "subBalance src (uint v) s = Inr s1"
    "world_ok B T (insert src A) s1" "total_balance s1 + nat (uint v) = total_balance s" by auto
  have t: "total_balance s1 + unat v = total_balance s" using s1(3) by (metis unat_eq_nat_uint)
  then have "total_balance s1 + unat v \<le> T" using world_okD(3) [OF w] by simp
  from addBalance_ok [OF s1(2) this, of dst] obtain s2 where s2: "addBalance dst v s1 = Inr s2"
    "world_ok B T (insert dst (insert src A)) s2" "total_balance s2 = total_balance s1 + unat v" by auto
  have "world_ok B T (insert dst A) s2" by (rule world_ok_mono [OF s2(2)]) auto
  then show ?thesis using s1(1) s2(1,3) t by (simp add: transferBalance_def)
qed

text \<open>Replacing an account by one with the same balance changes no balance.\<close>

lemma put_same_balance:
  assumes "unat (a_balance x) = bal (account_at s a)"
  shows "state_balance (cache_put a x (fetch a s)) = state_balance s"
proof
  fix c
  have "bal (account_at (cache_put a x (fetch a s)) c) = bal (account_at s c)" using assms by simp
  then show "state_balance (cache_put a x (fetch a s)) c = state_balance s c"
    unfolding state_balance_view [symmetric] unat_eq_iff .
qed

lemma noteSending_ok:
  assumes w: "world_ok B T A s"
  shows "\<exists>s'. noteSending a s = Inr s' \<and> world_ok B T (insert a A) s' \<and> total_balance s' = total_balance s
    \<and> state_balance s' = state_balance s"
proof -
  define x where "x = (case account_at s a of None \<Rightarrow> account_plain (m_accountStartNonce s + 1) 0 Changed
                       | Some y \<Rightarrow> account_incNonce y)"
  have b: "unat (a_balance x) = bal (account_at s a)" and c: "length (a_codeCache x) < 2 ^ 63"
    using world_code_size(1) [OF w, of a]
    by (auto simp: x_def account_incNonce_def account_changed_def split: option.splits)
  have "noteSending a s = Inr (cache_put a x (fetch a s))"
    using world_start_nonce [OF w] by (simp add: noteSending_def x_def Let_def split: option.splits)
  moreover have "world_ok B T (insert a A) (cache_put a x (fetch a s))"
    using world_ok_put [OF world_ok_fetch [OF w] c, of a a] b world_okD(3) [OF w] by simp
  moreover have "total_balance (cache_put a x (fetch a s)) = total_balance s"
    using total_cache_put [of a x "fetch a s"] b by simp
  moreover have "state_balance (cache_put a x (fetch a s)) = state_balance s"
    by (rule put_same_balance [OF b])
  ultimately show ?thesis by blast
qed

lemma setStorage_ok:
  assumes w: "world_ok B T A s"
  shows "world_ok B T A (setStorage a k v s)"
proof -
  define x where "x = (case m_cache s a of Some x \<Rightarrow> x | None \<Rightarrow> account_dead)"
  have "unat (a_balance x) \<le> bal (account_at s a)" and "length (a_codeCache x) < 2 ^ 63"
    using world_code_size(1) [OF w, of a]
    by (auto simp: x_def account_at_def split: option.splits)
  then have "world_ok B T (insert a A) (cache_put a (account_setStorage k v x) s)"
    using world_okD(3) [OF w] by (intro world_ok_put [OF w]) (auto simp: account_setStorage_def account_changed_def)
  then have "world_ok B T A (cache_put a (account_setStorage k v x) s)"
    by (rule world_ok_mono) auto
  then show ?thesis by (simp add: setStorage_def x_def)
qed

lemma ensureCached_ok:
  assumes w: "world_ok B T A s"
  shows "\<exists>s'. ensureCached a True True s = Inr s' \<and> world_ok B T (insert a A) s'
    \<and> total_balance s' = total_balance s \<and> state_balance s' = state_balance s"
proof -
  define x where "x = load_code s (case account_at s a of None \<Rightarrow> account_new (m_accountStartNonce s) 0 NormalCreation Changed
                       | Some y \<Rightarrow> y)"
  have b: "unat (a_balance x) = bal (account_at s a)" by (simp add: x_def split: option.splits)
  have c: "length (a_codeCache x) < 2 ^ 63"
    using world_load_code [OF w, of a] world_code_size(2) [OF w]
    by (auto simp: x_def load_code_def noteCode_def split: option.splits)
  have e: "ensureCached a True True s = Inr (cache_put a x (fetch a s))"
    using world_start_nonce [OF w]
    by (simp add: ensureCached_def x_def Let_def cache_put_def load_code_def split: option.splits)
  show ?thesis
    using e world_ok_put [OF world_ok_fetch [OF w] c, of a a] b world_okD(3) [OF w]
      total_cache_put [of a x "fetch a s"] put_same_balance [of x s a] by simp
qed

section \<open>Reads\<close>

text \<open>Two states agree when every account has the same fields and the same storage; loaded codes
  and storage values that are only copies in the cache do not count.\<close>

definition same_view :: "state \<Rightarrow> state \<Rightarrow> bool" where
  "same_view s s' =
     (state_balance s = state_balance s' \<and> transactionsFrom s = transactionsFrom s'
      \<and> state_storage s = state_storage s' \<and> state_code s = state_code s'
      \<and> addressInUse s = addressInUse s' \<and> addressHasCode s = addressHasCode s')"

lemma view_defs:
  "addressInUse s a = (account_at s a \<noteq> None)"
  "addressHasCode s a = (case account_at s a of None \<Rightarrow> False | Some x \<Rightarrow> isFreshCode x \<or> codeBearing x)"
  "transactionsFrom s a = (case account_at s a of None \<Rightarrow> m_accountStartNonce s | Some x \<Rightarrow> a_nonce x)"
  "state_balance s a = (case account_at s a of None \<Rightarrow> 0 | Some x \<Rightarrow> a_balance x)"
  "state_storage s a k = (case account_at s a of None \<Rightarrow> 0 | Some x \<Rightarrow>
     (case a_storageOverlay x k of Some v \<Rightarrow> v | None \<Rightarrow> s_storageTrie s (a_storageRoot x) k))"
  by (auto simp: addressInUse_def addressHasCode_def transactionsFrom_def state_balance_def state_storage_def
      codeBearing_def split: option.splits)

lemma state_code_view:
  "state_code s a =
     (case account_at s a of None \<Rightarrow> []
      | Some x \<Rightarrow> if isFreshCode x \<or> codeBearing x then a_codeCache (load_code s x) else [])"
  by (auto simp: state_code_def view_defs split: option.splits)

lemma load_code_setStorage:
  "a_codeCache (load_code s (account_setStorage k v x)) = a_codeCache (load_code s x)"
  "isFreshCode (account_setStorage k v x) = isFreshCode x" "codeBearing (account_setStorage k v x) = codeBearing x"
  by (simp_all add: load_code_def account_setStorage_def account_changed_def isFreshCode_def codeCacheValid_def
      noteCode_def codeBearing_def)

lemma account_setStorage_frame [simp]:
  "a_balance (account_setStorage k v x) = a_balance x" "a_nonce (account_setStorage k v x) = a_nonce x"
  "a_storageRoot (account_setStorage k v x) = a_storageRoot x"
  "a_storageOverlay (account_setStorage k v x) = (a_storageOverlay x)(k \<mapsto> v)"
  by (simp_all add: account_setStorage_def account_changed_def)

lemma load_code_base:
  assumes "base s = base s'"
  shows "load_code s x = load_code s' x"
  unfolding load_code_def base_eqD(3) [OF assms] by simp

lemma same_view_storage_load: "same_view (snd (storage_load a k s)) s"
proof -
  define s' where "s' = snd (storage_load a k s)"
  have acc: "account_at s' b = (if b = a \<and> (\<exists>x. account_at s a = Some x \<and> a_storageOverlay x k = None)
      then map_option (\<lambda>x. account_setStorage k (s_storageTrie s (a_storageRoot x) k) x) (account_at s a)
      else account_at s b)" for b
    by (auto simp: s'_def storage_load_def Let_def split: option.splits)
  have b: "base s' = base s" by (auto simp: s'_def storage_load_def Let_def split: option.splits)
  note lc = load_code_base [OF b]
  have "state_balance s' c = state_balance s c" "transactionsFrom s' c = transactionsFrom s c"
    "addressInUse s' c = addressInUse s c" "addressHasCode s' c = addressHasCode s c" "state_code s' c = state_code s c"
    for c
    using base_eqD [OF b]
    by (auto simp: view_defs state_code_view acc lc load_code_setStorage split: option.splits)
  moreover have "state_storage s' c j = state_storage s c j" for c j
    using base_eqD [OF b]
    by (auto simp: view_defs acc split: option.splits)
  ultimately show ?thesis unfolding s'_def [symmetric] same_view_def by blast
qed

lemma same_view_fetch: "same_view (fetch a s) s"
  by (simp add: same_view_def fun_eq_iff view_defs state_code_view load_code_base [of "fetch a s" s] base_def
      split: option.splits)

lemma load_code_again:
  "isFreshCode (load_code s x) = isFreshCode x" "codeBearing (load_code s x) = codeBearing x"
  "a_codeCache (load_code s (load_code s x)) = a_codeCache (load_code s x)"
  by (simp_all add: load_code_def noteCode_def isFreshCode_def codeBearing_def codeCacheValid_def)

lemma same_view_load_code:
  assumes "account_at s a = Some x"
  shows "same_view (cache_put a (load_code s x) s) s"
proof -
  have "base (cache_put a (load_code s x) s) = base s" by (simp add: base_def)
  note lc = load_code_base [OF this]
  show ?thesis
    using assms by (auto simp: same_view_def fun_eq_iff view_defs state_code_view lc load_code_again split: option.splits)
qed

text \<open>The reads of the source: their values are those of the pure functions, and the cache they fill
  changes no read.\<close>

lemma reads_fill:
  "balance_load a s = (state_balance s a, fetch a s)"
  "hasCode_load a s = (addressHasCode s a, fetch a s)"
  "\<exists>s'. code_load a s = Inr (state_code s a, s') \<and> same_view s' s \<and> base s' = base s"
  "same_view (fetch a s) s \<and> base (fetch a s) = base s"
proof -
  show f: "same_view (fetch a s) s \<and> base (fetch a s) = base s" by (simp add: same_view_fetch base_def)
  show "balance_load a s = (state_balance s a, fetch a s)" by (simp add: balance_load_def state_balance_def Let_def)
  show h: "hasCode_load a s = (addressHasCode s a, fetch a s)" by (simp add: hasCode_load_def addressHasCode_def Let_def)
  show "\<exists>s'. code_load a s = Inr (state_code s a, s') \<and> same_view s' s \<and> base s' = base s"
  proof (cases "addressHasCode s a")
    case True
    then obtain x where x: "account_at s a = Some x" by (auto simp: view_defs split: option.splits)
    let ?s = "cache_put a (load_code (fetch a s) x) (fetch a s)"
    have "fetch a (fetch a s) = fetch a s" using x by (simp add: fetch_def [of a "fetch a s"] account_at_def)
    then have "ensureCached a True False (fetch a s) = Inr ?s"
      using x by (simp add: ensureCached_def cache_put_def)
    moreover have "same_view ?s (fetch a s)" using x by (intro same_view_load_code) simp
    moreover have "load_code (fetch a s) x = load_code s x" using f by (intro load_code_base) simp
    ultimately show ?thesis
      using f True x by (auto simp: code_load_def h state_code_def same_view_def base_def cache_put_def)
  qed (use f in \<open>auto simp: code_load_def h state_code_def\<close>)
qed

lemma storage_load_value: "fst (storage_load a k s) = state_storage s a k"
  by (auto simp: storage_load_def view_defs Let_def split: option.splits)

section \<open>Properties\<close>

lemma state_balance_put:
  "state_balance (cache_put a x s) b = (if b = a then a_balance x else state_balance s b)"
  by (simp add: view_defs)

lemma state_balance_fetch [simp]: "state_balance (fetch a s) = state_balance s"
  by (rule ext) (simp add: view_defs)

lemma addBalance_view:
  assumes "m_accountStartNonce s \<noteq> Invalid256"
  shows "\<exists>s'. addBalance a v s = Inr s' \<and> state_balance s' = (state_balance s)(a := state_balance s a + v)
    \<and> m_accountStartNonce s' = m_accountStartNonce s"
  using assms
  by (cases "account_at s a")
    (auto simp: addBalance_def Let_def requireAccountStartNonce_def fun_eq_iff state_balance_put, auto simp: view_defs)

lemma subBalance_view:
  assumes "account_at s a \<noteq> None" and "v \<le> state_balance s a"
  shows "\<exists>s'. subBalance a (uint v) s = Inr s' \<and> state_balance s' = (state_balance s)(a := state_balance s a - v)
    \<and> m_accountStartNonce s' = m_accountStartNonce s"
  using assms
  by (cases "account_at s a")
    (auto simp: subBalance_def Let_def fun_eq_iff state_balance_put word_le_def, auto simp: view_defs word_le_def)

lemma total_of_moves:
  assumes "\<And>a. unat (state_balance s' a) + (if a = src then n else 0) = unat (state_balance s a) + (if a = dst then n else 0)"
  shows "total_balance s' = total_balance s"
proof -
  have "(\<Sum>a\<in>UNIV. unat (state_balance s' a) + (if a = src then n else 0))
      = (\<Sum>a\<in>UNIV. unat (state_balance s a) + (if a = dst then n else 0))"
    by (rule sum.cong [OF refl]) (rule assms)
  then show ?thesis
    unfolding total_balance_def state_balance_view [symmetric] by (simp add: sum.distrib)
qed

lemma transfer_exact:
  assumes total: "total_balance s < 2 ^ 256" and nonce: "m_accountStartNonce s \<noteq> Invalid256"
    and ex: "account_at s src \<noteq> None" and v: "v \<le> state_balance s src"
  shows "\<exists>s'. transferBalance src dst v s = Inr s' \<and> total_balance s' = total_balance s
    \<and> (\<forall>a. unat (state_balance s' a) + (if a = src then unat v else 0)
            = unat (state_balance s a) + (if a = dst then unat v else 0))"
proof -
  obtain s1 where s1: "subBalance src (uint v) s = Inr s1"
      "state_balance s1 = (state_balance s)(src := state_balance s src - v)"
      "m_accountStartNonce s1 = m_accountStartNonce s" using subBalance_view [OF ex v] by blast
  obtain s2 where s2: "addBalance dst v s1 = Inr s2"
      "state_balance s2 = (state_balance s1)(dst := state_balance s1 dst + v)"
    using addBalance_view [of s1 dst v] nonce s1(3) by auto
  have sub: "unat (state_balance s1 src) + unat v = unat (state_balance s src)"
    using v by (simp add: s1(2) unat_sub word_le_nat_alt)
  have fit: "unat (state_balance s1 dst + v) = unat (state_balance s1 dst) + unat v"
  proof (rule unat_add_u256, cases "dst = src")
    case d: True
    then show "unat (state_balance s1 dst) + unat v < 2 ^ 256"
      using sub unsigned_less [of "state_balance s src"] by simp
  next
    case d: False
    then have "unat (state_balance s dst) + unat (state_balance s src) < 2 ^ 256"
      using bal_pair_le_total [OF d, of s] total by (simp add: state_balance_view)
    then show "unat (state_balance s1 dst) + unat v < 2 ^ 256"
      using d sub by (simp add: s1(2))
  qed
  have moved: "unat (state_balance s2 a) + (if a = src then unat v else 0)
      = unat (state_balance s a) + (if a = dst then unat v else 0)" for a
    using sub fit by (auto simp: s2(2)) (auto simp: s1(2))
  have "total_balance s2 = total_balance s" by (rule total_of_moves) (rule moved)
  then show ?thesis using s1(1) s2(1) moved by (simp add: transferBalance_def)
qed

text \<open>C17: transfers.  In a state whose balances sum up to less than 2^256 and whose start nonce is not the
  sentinel \<^verbatim>\<open>Invalid256\<close>, \<^verbatim>\<open>transferBalance\<close>
  either throws \<^verbatim>\<open>NotEnoughCash\<close>, exactly when the sender does not exist or has less than
  the value, or moves exactly the value: no other balance changes, none wraps around, and the sum is
  the same.\<close>

theorem transferBalance_moves:
  assumes total: "total_balance s < 2 ^ 256" and nonce: "m_accountStartNonce s \<noteq> Invalid256"
  shows "if account_at s src \<noteq> None \<and> v \<le> state_balance s src
    then \<exists>s'. transferBalance src dst v s = Inr s' \<and> total_balance s' = total_balance s
           \<and> (\<forall>a. unat (state_balance s' a) + (if a = src then unat v else 0)
                   = unat (state_balance s a) + (if a = dst then unat v else 0))
    else transferBalance src dst v s = Inl NotEnoughCash"
proof (cases "account_at s src \<noteq> None \<and> v \<le> state_balance s src")
  case False
  then show ?thesis
    by (auto simp: transferBalance_def subBalance_def view_defs word_le_def split: option.splits)
next
  case True
  then show ?thesis using transfer_exact [OF assms, of src v dst] by simp
qed

text \<open>A small state: account 1 holds 100 and is the only one.\<close>

definition one_account :: state where
  "one_account =
     \<lparr>m_cache = [1 \<mapsto> account_plain 0 100 Changed], s_trie = Map.empty, s_storageTrie = (\<lambda>_ _. 0),
      s_code = (\<lambda>_. []), m_touched = {}, m_accountStartNonce = 0\<rparr>"

lemma one_account_at: "account_at one_account a = (if a = 1 then Some (account_plain 0 100 Changed) else None)"
  by (simp add: one_account_def account_at_def)

lemma one_account_total: "total_balance one_account = 100"
proof -
  have "(\<Sum>a\<in>UNIV. bal (account_at one_account a)) = (\<Sum>a\<in>UNIV. if a = (1 :: address) then 100 else 0)"
    by (rule sum.cong) (simp_all add: one_account_at)
  then show ?thesis by (simp add: total_balance_def)
qed

theorem transferBalance_moves_witness:
  "(\<exists>s'. transferBalance 1 2 30 one_account = Inr s' \<and> total_balance s' = 100
      \<and> unat (state_balance s' 1) = 70 \<and> unat (state_balance s' 2) = 30)
   \<and> transferBalance 1 2 101 one_account = Inl NotEnoughCash"
proof -
  have t: "total_balance one_account < 2 ^ 256" and n: "m_accountStartNonce one_account \<noteq> Invalid256"
    by (simp_all add: one_account_total) (simp add: one_account_def Invalid256_def)
  have b: "state_balance one_account 1 = 100" "state_balance one_account 2 = 0"
    by (simp_all add: view_defs one_account_at)
  obtain s' where s': "transferBalance 1 2 30 one_account = Inr s'" "total_balance s' = 100"
    and v: "\<forall>a. unat (state_balance s' a) + (if a = 1 then unat (30 :: u256) else 0)
      = unat (state_balance one_account a) + (if a = 2 then unat (30 :: u256) else 0)"
    using transferBalance_moves [OF t n, of 1 30 2] b by (auto simp: one_account_at one_account_total)
  have "unat (state_balance s' 1) = 70" "unat (state_balance s' 2) = 30"
    using spec [OF v, of 1] spec [OF v, of 2] b by simp_all
  then show ?thesis
    using s' transferBalance_moves [OF t n, of 1 101 2] b by auto
qed

text \<open>Reads are transparent.  \<^verbatim>\<open>State::storage\<close> returns the value of the overlay or of the
  trie, and the copy it leaves in the cache is seen by no other query: balances, nonces, storage, code and
  existence of every account are as before.\<close>

theorem storage_read_transparent:
  "fst (storage_load a k s) = state_storage s a k \<and> same_view (snd (storage_load a k s)) s"
  by (simp add: storage_load_value same_view_storage_load)

end
