(* ===== verification/Rlp_Records.thy ===== *)
theory Rlp_Records
  imports Rlp
begin

text \<open>
  What the structures that the program serialises in RLP share: the items of integers and hashes,
  the statement that a sequence of \<^verbatim>\<open>RLPStream\<close> operations writes an item, and the reading
  of the fields of one \<^verbatim>\<open>RLP\<close> object by \<^verbatim>\<open>operator[]\<close> with its cache passed on
  from field to field, as the constructors and \<^verbatim>\<open>populate\<close> functions of transactions, block
  headers and receipts do.
\<close>

section \<open>Items\<close>

definition int_item :: "nat \<Rightarrow> rlp_item" where
  "int_item n = Data (toBigEndian (bytesRequired n) n)"

definition hash_item :: "nat \<Rightarrow> 'a::len word \<Rightarrow> rlp_item" where
  "hash_item N w = Data (toBigEndian N (unat w))"

lemma payload_of_items [simp]:
  "payload_of (int_item n) = toBigEndian (bytesRequired n) n"
  "payload_of (hash_item N w) = toBigEndian N (unat w)"
  by (simp_all add: int_item_def hash_item_def)

lemma bytesRequired_word: "bytesRequired (unat (w :: 'a::len word)) \<le> (LENGTH('a) + 7) div 8"
proof -
  have "unat w < 2 ^ LENGTH('a)" by (rule unsigned_less)
  also have "\<dots> \<le> 2 ^ (8 * ((LENGTH('a) + 7) div 8))" by (rule power_increasing) auto
  also have "\<dots> = (2 ^ 8) ^ ((LENGTH('a) + 7) div 8)" by (rule power_mult)
  finally show ?thesis by (simp add: bytesRequired_le_iff)
qed

lemma bytesRequired_u256: "bytesRequired (unat (w :: u256)) \<le> 32"
  using bytesRequired_word [of w] by simp

lemma length_encode_Data_le: "length (encode (Data b)) \<le> length b + 1 + bytesRequired (length b)"
  by (simp add: len_prefix_def)

lemma length_encode_small: "length b \<le> 32 \<Longrightarrow> length (encode (Data b)) \<le> 34"
proof -
  assume "length b \<le> 32"
  moreover from this have "bytesRequired (length b) \<le> 1" by (simp add: bytesRequired_le_iff)
  ultimately show ?thesis using length_encode_Data_le [of b] by linarith
qed

lemma length_encode_int: "bytesRequired n \<le> 32 \<Longrightarrow> length (encode (int_item n)) \<le> 34"
  unfolding int_item_def by (rule length_encode_small) simp

lemma length_encode_hash: "N \<le> 32 \<Longrightarrow> length (encode (hash_item N w)) \<le> 34"
  unfolding hash_item_def by (rule length_encode_small) simp

lemma length_encode_data: "length b < 2 ^ 63 \<Longrightarrow> length (encode (Data b)) \<le> length b + 9"
proof -
  assume "length b < 2 ^ 63"
  then have "bytesRequired (length b) \<le> 8" by (simp add: bytesRequired_le_iff)
  then show ?thesis using length_encode_Data_le [of b] by linarith
qed

section \<open>Writing\<close>

definition appends :: "(rlp_stream \<Rightarrow> rlp_error + rlp_stream) \<Rightarrow> rlp_item \<Rightarrow> bool" where
  "appends f x = (f = (\<lambda>s. noteAppended 1 (s\<lparr>m_out := m_out s @ encode x\<rparr>)))"

named_theorems appends_intros \<open>which item a stream operation writes\<close>

lemma appends_int [appends_intros]:
  assumes "bytesRequired n \<le> 32"
  shows "appends (append_int n) (int_item n)"
proof -
  have "size_ok (bytesRequired n)" using assms by (simp add: size_ok_def)
  from append_int_encode [OF this] show ?thesis
    by (simp add: appends_def int_item_def fun_eq_iff del: encode.simps)
qed

lemma appends_bytes [appends_intros]: "size_ok (length b) \<Longrightarrow> appends (append_bytes b False) (Data b)"
  using append_bytes_encode [of b] by (simp add: appends_def fun_eq_iff del: encode.simps)

lemma appends_hash [appends_intros]:
  "size_ok N \<Longrightarrow> appends (append_bytes (toBigEndian N (unat w)) False) (hash_item N w)"
  unfolding hash_item_def by (rule appends_bytes) simp

lemma appends_raw [appends_intros]: "appends (appendRaw (encode x) 1) x"
  by (simp add: appends_def appendRaw_def fun_eq_iff)

lemma appends_list [appends_intros]:
  assumes fs: "list_all2 appends fs xs" and ok: "size_ok (length (concat (map encode xs)))"
  shows "appends (\<lambda>s. res_bind (appendList (length fs) s) (append_all fs)) (Items xs)"
proof -
  define F where "F = (\<lambda>x s. noteAppended 1 (s\<lparr>m_out := m_out s @ encode x\<rparr>))"
  have fs': "fs = map F xs"
    using fs by (induction rule: list_all2_induct) (simp_all add: appends_def F_def)
  have F: "\<forall>x\<in>set xs. \<forall>s. F x s = noteAppended 1 (s\<lparr>m_out := m_out s @ encode x\<rparr>)"
    by (simp add: F_def)
  show ?thesis
  proof (cases "xs = []")
    case True
    then show ?thesis
      by (simp add: appends_def fs' appendList_def appendList_raw_def appendRaw_def push_byte_def len_prefix_def
          fun_eq_iff res_bind_def split: sum.splits)
  next
    case False
    have "res_bind (appendList (length fs) s) (append_all fs) = noteAppended 1 (s\<lparr>m_out := m_out s @ encode (Items xs)\<rparr>)" for s
    proof -
      have "res_bind (appendList (length fs) s) (append_all fs) =
          append_all (map F xs) \<lparr>m_out = m_out s, m_listStack = (length xs, length (m_out s)) # m_listStack s\<rparr>"
        using False by (cases s) (simp add: appendList_def fs')
      also have "\<dots> = noteAppended 1 (s\<lparr>m_out := m_out s @ encode (Items xs)\<rparr>)"
        using append_all_encode [OF F False order_refl] list_header_len_prefix [OF ok]
        by (simp add: Let_def noteAppended_def)
      finally show ?thesis .
    qed
    then show ?thesis by (simp add: appends_def fun_eq_iff del: encode.simps)
  qed
qed

lemma appends_out: "appends f x \<Longrightarrow> res_bind (f empty_stream) stream_out = Inr (encode x)"
  by (simp add: appends_def empty_stream_def noteAppended_def stream_out_def)

section \<open>Reading\<close>

text \<open>Field \<open>i\<close> of the list \<open>d\<close>, converted and passed to the continuation with the cache; \<open>fail\<close>
  is what happens on an exception.\<close>

definition field ::
  "(rlp_cache \<Rightarrow> rlp_error \<Rightarrow> 'e + 'r) \<Rightarrow> bytes \<Rightarrow> nat \<Rightarrow> (bytes \<Rightarrow> rlp_error + 'a)
    \<Rightarrow> rlp_cache \<Rightarrow> ('a \<Rightarrow> rlp_cache \<Rightarrow> 'e + 'r) \<Rightarrow> 'e + 'r" where
  "field fail d i conv c k =
     (case subscript d c i of
        (Inl e, c') \<Rightarrow> fail c' e
      | (Inr it, c') \<Rightarrow> (case conv it of Inl e \<Rightarrow> fail c' e | Inr v \<Rightarrow> k v c'))"

lemma field_encode:
  assumes ok: "size_ok (length (concat (map encode xs)))" and c: "cache_ok xs c" and i: "i < length xs"
    and conv: "conv (encode (xs ! i)) = Inr v" and k: "\<And>c'. cache_ok xs c' \<Longrightarrow> k v c' = R"
  shows "field fail (encode (Items xs)) i conv c k = R"
proof -
  obtain c' where "subscript (encode (Items xs)) c i = (Inr (encode (xs ! i)), c')" "cache_ok xs c'"
    using subscript_encode [OF ok c, of "[]" i] i by auto
  then show ?thesis using conv k by (simp add: field_def)
qed

lemma toInt_item:
  assumes "bytesRequired n \<le> m" and "m \<le> 32" and "8 \<le> LENGTH('a)"
  shows "toInt m (encode (int_item n)) flags = (Inr (word_of_nat n) :: rlp_error + 'a::len word)"
proof -
  have ok: "size_ok (bytesRequired n)" using assms by (simp add: size_ok_def)
  have "toInt_payload m (encode (int_item n)) flags = Inr (Some (toBigEndian (bytesRequired n) n))"
    using toInt_payload_encode [OF _ ok assms(1), of "[]" flags] toInt_payload_zero [of m "[]" flags]
    by (cases "n = 0") (simp_all add: int_item_def del: encode.simps)
  then show ?thesis
    using less_pow_bytesRequired [of n] assms(3)
    by (simp add: toInt_def fromBigEndian_word fromBigEndian_toBigEndian_mod)
qed

lemma toInt_u256_item: "toInt_u256 (encode (int_item (unat v))) flags = Inr v"
proof -
  have "toInt 32 (encode (int_item (unat v))) flags = (Inr (word_of_nat (unat v)) :: rlp_error + u256)"
    by (rule toInt_item [OF bytesRequired_u256]) simp_all
  then show ?thesis by (simp add: toInt_u256_def)
qed

lemma toHash_Data:
  assumes "size_ok (length b)" and "length b = N"
  shows "toHash N (encode (Data b)) flags = Inr b"
  using encode_Data_read [OF assms(1), of "[]"] payload_encode [of "Data b" "[]"] assms
  by (simp add: toHash_def Let_def del: encode.simps)

lemma fromBigEndian_hash: "8 \<le> LENGTH('a) \<Longrightarrow> LENGTH('a) \<le> 8 * N \<Longrightarrow> fromBigEndian (toBigEndian N (unat (w :: 'a::len word))) = w"
proof -
  assume l: "8 \<le> LENGTH('a)" and "LENGTH('a) \<le> 8 * N"
  from this(2) have "(2 :: nat) ^ LENGTH('a) \<le> 2 ^ (8 * N)" by (rule power_increasing) simp
  also have "\<dots> = 256 ^ N" by (simp add: power_mult)
  finally have "unat w < 256 ^ N" using unsigned_less [of w, where ?'a = nat] by linarith
  then show ?thesis by (simp add: fromBigEndian_word [OF l] fromBigEndian_toBigEndian_mod)
qed

lemma toHash_item:
  assumes "8 \<le> LENGTH('a)" and "LENGTH('a) \<le> 8 * N" and "size_ok N"
  shows "res_bind (toHash N (encode (hash_item N (w :: 'a::len word))) flags) (\<lambda>b. Inr (fromBigEndian b)) = (Inr w :: rlp_error + 'a word)"
  using toHash_Data [of "toBigEndian N (unat w)" N flags] assms
  by (simp add: hash_item_def fromBigEndian_hash del: encode.simps)

lemma isEmpty_Data: 
  assumes "size_ok (length b)"
  shows "isEmpty (encode (Data b)) \<longleftrightarrow> b = []"
proof (cases b rule: encode_Data_cases)
  case (Single x)
  then show ?thesis by (auto simp: isEmpty_def isNull_def)
next
  case Prefixed
  show ?thesis
  proof (cases "length b < 56")
    case True
    then show ?thesis
      unfolding Prefixed(1) using len_prefix_short [OF True, of 128]
      by (auto simp: isEmpty_def isNull_def)
  next
    case False
    then have n: "56 \<le> length b" by simp
    obtain h y ys where "len_prefix 128 (length b) = h # y # ys" "unat h = 128 + 55 + bytesRequired (length b)"
        "bytesRequired (length b) \<le> 8" "0 < bytesRequired (length b)"
      by (rule len_prefix_long [OF n assms, of 128]) auto
    then show ?thesis unfolding Prefixed(1) using n by (auto simp: isEmpty_def isNull_def)
  qed
qed

lemma isData_Data: "size_ok (length b) \<Longrightarrow> isData (encode (Data b))"
  using encode_Data_read(3) [of b "[]"] by simp

lemma isList_Items: "size_ok (length (concat (map encode xs))) \<Longrightarrow> isList (encode (Items xs))"
  using encode_Items_read(3) [of xs "[]"] by simp

lemma toBytes_Data: "size_ok (length b) \<Longrightarrow> toBytes (encode (Data b)) flags = Inr b"
  using toBytes_encode [of b "[]"] by simp

lemma rlp_new_Items: "size_ok (length (concat (map encode xs))) \<Longrightarrow> rlp_new (encode (Items xs)) s = Inr (encode (Items xs))"
  by (rule rlp_new_encode(1)) simp

lemma itemCount_Items:
  assumes "size_ok (length (concat (map encode xs)))"
  shows "itemCount (encode (Items xs)) = Inr (length xs)"
  using isList_Items [OF assms] payload_encode [of "Items xs" "[]"] assms
    items_loop_encode [of xs 0] size_ok_members [OF assms]
  by (simp add: itemCount_def items_def del: encode.simps)

end
