(* ===== verification/Transactions.thy ===== *)
theory Transactions
  imports Rlp_Records Sha3 Instruction
begin

text \<open>
  \<^verbatim>\<open>libelecore/Transaction.h\<close> and \<^verbatim>\<open>Transaction.cpp\<close>: a transaction, its RLP form, its
  hash and its sender, and the gas it must offer before any code runs.  Public key recovery
  (\<^verbatim>\<open>dev::recover\<close>, elliptic curve arithmetic of a third-party library) is the parameter
  \<open>recover\<close>, from the signature and the hash to the 64 bytes of a public key, all zero when there
  is none.
\<close>

section \<open>The transaction\<close>

datatype tx_type = NullTransaction | ContractCreation | MessageCall
datatype IncludeSignature = WithoutSignature | WithSignature
datatype CheckTransaction = CheckNone | Cheap | Everything

datatype tx_error = TxRLP rlp_error | InvalidTransactionFormat | InvalidSignature

record signature_struct =
  sig_r :: h256
  sig_s :: h256
  sig_v :: byte

record transaction =
  t_type :: tx_type
  t_nonce :: u256
  t_value :: u256
  t_receiveAddress :: address
  t_gasPrice :: u256
  t_gas :: u256
  t_data :: bytes
  t_vrs :: signature_struct
  t_hashWith :: h256
  t_sender :: address

type_synonym recover_fun = "signature_struct \<Rightarrow> h256 \<Rightarrow> bytes"

definition no_signature :: signature_struct where
  "no_signature = \<lparr>sig_r = 0, sig_s = 0, sig_v = 0\<rparr>"

definition null_transaction :: transaction where
  "null_transaction =
     \<lparr>t_type = NullTransaction, t_nonce = 0, t_value = 0, t_receiveAddress = 0, t_gasPrice = 0, t_gas = 0,
      t_data = [], t_vrs = no_signature, t_hashWith = 0, t_sender = 0\<rparr>"

definition secp256k1n :: u256 where
  "secp256k1n = 0xfffffffffffffffffffffffffffffffebaaedce6af48a03bbfd25e8cd0364141"

definition sig_isValid :: "signature_struct \<Rightarrow> bool" where
  "sig_isValid x =
     (\<not> (sig_v x > 1 \<or> sig_r x \<ge> secp256k1n \<or> sig_s x \<ge> secp256k1n \<or> sig_s x < 1 \<or> sig_r x < 1))"

definition new_message_call :: "u256 \<Rightarrow> u256 \<Rightarrow> u256 \<Rightarrow> address \<Rightarrow> bytes \<Rightarrow> u256 \<Rightarrow> transaction" where
  "new_message_call value gasPrice gas dest dat nonce =
     null_transaction\<lparr>t_type := MessageCall, t_nonce := nonce, t_value := value, t_receiveAddress := dest,
       t_gasPrice := gasPrice, t_gas := gas, t_data := dat\<rparr>"

definition new_contract_creation :: "u256 \<Rightarrow> u256 \<Rightarrow> u256 \<Rightarrow> bytes \<Rightarrow> u256 \<Rightarrow> transaction" where
  "new_contract_creation value gasPrice gas dat nonce =
     null_transaction\<lparr>t_type := ContractCreation, t_nonce := nonce, t_value := value,
       t_gasPrice := gasPrice, t_gas := gas, t_data := dat\<rparr>"

definition tx_eq :: "transaction \<Rightarrow> transaction \<Rightarrow> bool" where
  "tx_eq t c =
     (t_type t = t_type c \<and> (t_type t = ContractCreation \<or> t_receiveAddress t = t_receiveAddress c)
      \<and> t_value t = t_value c \<and> t_data t = t_data c)"

definition isCreation :: "transaction \<Rightarrow> bool" where
  "isCreation t = (t_type t = ContractCreation)"

definition clearSignature :: "transaction \<Rightarrow> transaction" where
  "clearSignature t = t\<lparr>t_vrs := no_signature\<rparr>"

definition setNonce :: "u256 \<Rightarrow> transaction \<Rightarrow> transaction" where
  "setNonce n t = (clearSignature t)\<lparr>t_nonce := n\<rparr>"

definition forceSender :: "address \<Rightarrow> transaction \<Rightarrow> transaction" where
  "forceSender a t = t\<lparr>t_sender := a\<rparr>"

section \<open>Serialisation\<close>

definition tx_fields :: "IncludeSignature \<Rightarrow> transaction \<Rightarrow> (rlp_stream \<Rightarrow> rlp_error + rlp_stream) list" where
  "tx_fields sig t =
     [append_int (unat (t_nonce t)), append_int (unat (t_gasPrice t)), append_int (unat (t_gas t)),
      (if t_type t = MessageCall then append_bytes (toBigEndian 20 (unat (t_receiveAddress t))) False
       else append_bytes [] False),
      append_int (unat (t_value t)), append_bytes (t_data t) False]
     @ (if sig = WithSignature then
          [append_int (unat (sig_v (t_vrs t)) + 27), append_int (unat (sig_r (t_vrs t))), append_int (unat (sig_s (t_vrs t)))]
        else [])"

definition tx_streamRLP :: "IncludeSignature \<Rightarrow> transaction \<Rightarrow> rlp_stream \<Rightarrow> rlp_error + rlp_stream" where
  "tx_streamRLP sig t s =
     (if t_type t = NullTransaction then Inr s
      else res_bind (appendList ((if sig = WithSignature then 3 else 0) + 6) s) (append_all (tx_fields sig t)))"

definition tx_rlp :: "IncludeSignature \<Rightarrow> transaction \<Rightarrow> rlp_error + bytes" where
  "tx_rlp sig t = res_bind (tx_streamRLP sig t empty_stream) stream_out"

text \<open>\<^verbatim>\<open>sha3\<close> memoises the hash with the signature.\<close>

definition tx_sha3 :: "IncludeSignature \<Rightarrow> transaction \<Rightarrow> rlp_error + h256 \<times> transaction" where
  "tx_sha3 sig t =
     (if sig = WithSignature \<and> t_hashWith t \<noteq> 0 then Inr (t_hashWith t, t)
      else res_bind (tx_rlp sig t) (\<lambda>b.
        let ret = sha3 b in Inr (ret, if sig = WithSignature then t\<lparr>t_hashWith := ret\<rparr> else t)))"

text \<open>\<^verbatim>\<open>sender\<close> memoises the address it recovers; the zero address stands for none.\<close>

definition tx_sender :: "recover_fun \<Rightarrow> transaction \<Rightarrow> tx_error + address \<times> transaction" where
  "tx_sender recover t =
     (if t_sender t \<noteq> 0 then Inr (t_sender t, t)
      else (case tx_sha3 WithoutSignature t of
              Inl e \<Rightarrow> Inl (TxRLP e)
            | Inr (h, _) \<Rightarrow>
                let p = recover (t_vrs t) h in
                if \<not> hash_nonzero p then Inl InvalidSignature
                else let a = right160 (sha3 p) in Inr (a, t\<lparr>t_sender := a\<rparr>)))"

definition tx_safeSender :: "recover_fun \<Rightarrow> transaction \<Rightarrow> address" where
  "tx_safeSender recover t = (case tx_sender recover t of Inl _ \<Rightarrow> 0 | Inr (a, _) \<Rightarrow> a)"

text \<open>\<^verbatim>\<open>sign\<close>, with the signature function of the library as a parameter.\<close>

definition tx_sign :: "(h256 \<Rightarrow> signature_struct) \<Rightarrow> transaction \<Rightarrow> rlp_error + transaction" where
  "tx_sign sign t =
     res_bind (tx_sha3 WithoutSignature t) (\<lambda>(h, _).
       Inr (if sig_isValid (sign h) then t\<lparr>t_vrs := sign h\<rparr> else t))"

definition checkLowS :: "transaction \<Rightarrow> tx_error + unit" where
  "checkLowS t = (if unat (sig_s (t_vrs t)) > unat secp256k1n div 2 then Inl InvalidSignature else Inr ())"

definition gasRequired :: "bool \<Rightarrow> bytes \<Rightarrow> schedule \<Rightarrow> u256 \<Rightarrow> nat" where
  "gasRequired contractCreation dat es gas =
     foldl (\<lambda>ret i. ret + (if i \<noteq> 0 then txDataNonZeroGas es else txDataZeroGas es))
       (((if contractCreation then txCreateGas es else txGas es) + unat gas) mod 2 ^ 256) dat"

definition tx_gasRequired :: "schedule \<Rightarrow> transaction \<Rightarrow> nat" where
  "tx_gasRequired es t = gasRequired (t_type t = ContractCreation) (t_data t) es 0"

section \<open>Parsing\<close>

text \<open>The handler of the constructor adds \<^verbatim>\<open>rlp[field]\<close> to the exception, which may throw
  another one in its place.\<close>

definition tx_fail :: "bytes \<Rightarrow> nat \<Rightarrow> tx_error \<Rightarrow> rlp_cache \<Rightarrow> tx_error + 'a" where
  "tx_fail d i e c = (case fst (subscript d c i) of Inl e' \<Rightarrow> Inl (TxRLP e') | Inr _ \<Rightarrow> Inl e)"

definition tx_field ::
  "bytes \<Rightarrow> nat \<Rightarrow> (bytes \<Rightarrow> rlp_error + 'a) \<Rightarrow> rlp_cache \<Rightarrow> ('a \<Rightarrow> rlp_cache \<Rightarrow> tx_error + 'r) \<Rightarrow> tx_error + 'r" where
  "tx_field d i = field (\<lambda>c e. tx_fail d i (TxRLP e) c) d i"

definition rlp_address :: "bytes \<Rightarrow> rlp_error + address" where
  "rlp_address it = res_bind (toHash 20 it VeryStrict) (\<lambda>b. Inr (fromBigEndian b))"

definition tx_check ::
  "recover_fun \<Rightarrow> CheckTransaction \<Rightarrow> bytes \<Rightarrow> transaction \<Rightarrow> rlp_cache \<Rightarrow> tx_error + transaction" where
  "tx_check recover check d t c =
     (case itemCount d of
        Inl e \<Rightarrow> tx_fail d 8 (TxRLP e) c
      | Inr n \<Rightarrow>
          if n > 9 then tx_fail d 8 InvalidTransactionFormat c
          else if check \<noteq> CheckNone \<and> \<not> sig_isValid (t_vrs t) then tx_fail d 8 InvalidSignature c
          else if check = Everything then
            (case tx_sender recover t of Inl e \<Rightarrow> tx_fail d 8 e c | Inr (_, t') \<Rightarrow> Inr t')
          else Inr t)"

definition tx_parse :: "recover_fun \<Rightarrow> CheckTransaction \<Rightarrow> bytes \<Rightarrow> tx_error + transaction" where
  "tx_parse recover check raw =
     (case rlp_new raw VeryStrict of
        Inl e \<Rightarrow> Inl (TxRLP e)
      | Inr d \<Rightarrow>
          if \<not> isList d then tx_fail d 0 InvalidTransactionFormat fresh_cache
          else
            tx_field d 0 (\<lambda>it. toInt_u256 it Strict) fresh_cache (\<lambda>nonce c.
            tx_field d 1 (\<lambda>it. toInt_u256 it Strict) c (\<lambda>gasPrice c.
            tx_field d 2 (\<lambda>it. toInt_u256 it Strict) c (\<lambda>gas c.
            tx_field d 3 (\<lambda>it. Inr (isEmpty it)) c (\<lambda>empty c.
            tx_field d 3 (\<lambda>it. if isEmpty it then Inr 0 else rlp_address it) c (\<lambda>to c.
            tx_field d 4 (\<lambda>it. toInt_u256 it Strict) c (\<lambda>value c.
            tx_field d 5 (\<lambda>it. Inr (isData it)) c (\<lambda>array c.
            if \<not> array then tx_fail d 5 InvalidTransactionFormat c
            else
            tx_field d 5 (\<lambda>it. toBytes it LaissezFaire) c (\<lambda>dat c.
            tx_field d 6 (\<lambda>it. toInt 1 it Strict) c (\<lambda>v c.
            tx_field d 7 (\<lambda>it. toInt_u256 it Strict) c (\<lambda>r c.
            tx_field d 8 (\<lambda>it. toInt_u256 it Strict) c (\<lambda>s c.
            tx_check recover check d
              \<lparr>t_type = (if empty then ContractCreation else MessageCall), t_nonce = nonce, t_value = value,
               t_receiveAddress = to, t_gasPrice = gasPrice, t_gas = gas, t_data = dat,
               t_vrs = \<lparr>sig_r = r, sig_s = s, sig_v = v - 27\<rparr>, t_hashWith = 0, t_sender = 0\<rparr> c))))))))))))"

section \<open>The round trip\<close>

definition tx_to_item :: "transaction \<Rightarrow> rlp_item" where
  "tx_to_item t = (if t_type t = MessageCall then hash_item 20 (t_receiveAddress t) else Data [])"

definition tx_items :: "IncludeSignature \<Rightarrow> transaction \<Rightarrow> rlp_item list" where
  "tx_items sig t =
     [int_item (unat (t_nonce t)), int_item (unat (t_gasPrice t)), int_item (unat (t_gas t)),
      tx_to_item t, int_item (unat (t_value t)), Data (t_data t)]
     @ (if sig = WithSignature then
          [int_item (unat (sig_v (t_vrs t)) + 27), int_item (unat (sig_r (t_vrs t))), int_item (unat (sig_s (t_vrs t)))]
        else [])"

lemma bytesRequired_v: "bytesRequired (unat (v :: byte) + 27) \<le> 2"
  using unat_byte_less [of v] by (simp add: bytesRequired_le_iff)

lemma tx_items_size:
  assumes "length (t_data t) < 2 ^ 63"
  shows "size_ok (length (concat (map encode (tx_items sig t))))"
proof -
  have i: "length (encode (int_item (unat w))) \<le> 34" for w :: u256
    by (rule length_encode_int [OF bytesRequired_u256])
  have v: "length (encode (int_item (unat (sig_v (t_vrs t)) + 27))) \<le> 34"
    using bytesRequired_v [of "sig_v (t_vrs t)"] by (intro length_encode_int) simp
  have a: "length (encode (tx_to_item t)) \<le> 34"
    using length_encode_hash [of 20 "t_receiveAddress t"] length_encode_small [of "[]"] by (simp add: tx_to_item_def)
  show ?thesis
    using i [of "t_nonce t"] i [of "t_gasPrice t"] i [of "t_gas t"] i [of "t_value t"]
      i [of "sig_r (t_vrs t)"] i [of "sig_s (t_vrs t)"] v a length_encode_data [OF assms] assms
    by (simp add: tx_items_def size_ok_def del: encode.simps)
qed

lemma tx_fields_append:
  assumes "length (t_data t) < 2 ^ 63"
  shows "list_all2 appends (tx_fields sig t) (tx_items sig t)"
proof -
  have d: "size_ok (length (t_data t))" and z: "size_ok (length ([] :: bytes))" and h: "size_ok 20"
    using assms by (simp_all add: size_ok_def)
  have v: "bytesRequired (unat (sig_v (t_vrs t)) + 27) \<le> 32" using bytesRequired_v [of "sig_v (t_vrs t)"] by simp
  show ?thesis
    unfolding tx_fields_def tx_items_def tx_to_item_def
    using appends_int [OF v] appends_int [OF bytesRequired_u256] appends_bytes [OF d] appends_bytes [OF z]
      appends_hash [OF h, of "t_receiveAddress t"] by simp
qed

lemma tx_rlp_encode:
  assumes "length (t_data t) < 2 ^ 63" and "t_type t \<noteq> NullTransaction"
  shows "tx_rlp sig t = Inr (encode (Items (tx_items sig t)))"
proof -
  have l: "length (tx_fields sig t) = (if sig = WithSignature then 3 else 0) + 6"
    by (simp add: tx_fields_def)
  have "tx_streamRLP sig t = (\<lambda>s. res_bind (appendList (length (tx_fields sig t)) s) (append_all (tx_fields sig t)))"
    using assms(2) by (simp add: tx_streamRLP_def fun_eq_iff l)
  then show ?thesis
    using appends_out [OF appends_list [OF tx_fields_append [OF assms(1)] tx_items_size [OF assms(1)]]]
    by (simp add: tx_rlp_def del: encode.simps)
qed

lemma tx_fail_encode:
  assumes "size_ok (length (concat (map encode xs)))" and "cache_ok xs c"
  shows "tx_fail (encode (Items xs)) i e c = Inl e"
  using subscript_encode [OF assms, of "[]" i] by (auto simp: tx_fail_def simp del: encode.simps)

text \<open>What a parser reads from the serialisation: the transaction without its memoised values.\<close>

definition tx_plain :: "transaction \<Rightarrow> transaction" where
  "tx_plain t = t\<lparr>t_hashWith := 0, t_sender := 0\<rparr>"

definition tx_wf :: "transaction \<Rightarrow> bool" where
  "tx_wf t =
     (t_type t \<noteq> NullTransaction \<and> (t_type t = ContractCreation \<longrightarrow> t_receiveAddress t = 0)
      \<and> unat (sig_v (t_vrs t)) + 27 < 256 \<and> length (t_data t) < 2 ^ 63)"

lemma tx_check_encode:
  assumes ok: "size_ok (length (concat (map encode xs)))" and c: "cache_ok xs c" and n: "length xs \<le> 9"
  shows "tx_check recover check (encode (Items xs)) t c =
    (if check \<noteq> CheckNone \<and> \<not> sig_isValid (t_vrs t) then Inl InvalidSignature
     else if check = Everything then res_bind (tx_sender recover t) (\<lambda>(_, t'). Inr t')
     else Inr t)"
  using itemCount_Items [OF ok] n
  by (simp add: tx_check_def res_bind_def tx_fail_encode [OF ok c] split: sum.splits del: encode.simps)

lemma rlp_address_item: "rlp_address (encode (hash_item 20 a)) = Inr a"
  unfolding rlp_address_def by (rule toHash_item) (simp_all add: size_ok_def)

lemma tx_field_encode:
  assumes "size_ok (length (concat (map encode xs)))" and "cache_ok xs c" and "i < length xs"
    and "conv (encode (xs ! i)) = Inr v" and "\<And>c'. cache_ok xs c' \<Longrightarrow> k v c' = R"
  shows "tx_field (encode (Items xs)) i conv c k = R"
  unfolding tx_field_def using assms(1-4) by (rule field_encode) (rule assms(5))

section \<open>Properties\<close>

text \<open>C18: transactions survive the wire.  The serialisation of a well-formed transaction succeeds, and
  parsing it gives back every field, whatever the caching subscript does in between; with
  \<^verbatim>\<open>CheckTransaction::Cheap\<close> exactly the transactions with an invalid signature are refused, and
  with \<^verbatim>\<open>Everything\<close> the sender is the recovered one.\<close>

theorem tx_roundtrip:
  assumes wf: "tx_wf t"
  shows "\<exists>b. tx_rlp WithSignature t = Inr b \<and> tx_parse recover check b =
    (if check \<noteq> CheckNone \<and> \<not> sig_isValid (t_vrs t) then Inl InvalidSignature
     else if check = Everything then res_bind (tx_sender recover (tx_plain t)) (\<lambda>(_, t'). Inr t')
     else Inr (tx_plain t))"
proof -
  let ?xs = "tx_items WithSignature t"
  have l: "length (t_data t) < 2 ^ 63" and ty: "t_type t \<noteq> NullTransaction" using wf by (simp_all add: tx_wf_def)
  note ok = tx_items_size [OF l, of WithSignature]
  have n: "length ?xs = 9" by (simp add: tx_items_def)
  have c: "cache_ok ?xs fresh_cache" by (rule cache_ok_fresh) (simp add: n)
  have d: "size_ok (length (t_data t))" and z: "size_ok (length ([] :: bytes))" using l by (simp_all add: size_ok_def)
  have v: "bytesRequired (unat (sig_v (t_vrs t)) + 27) \<le> 1" using wf by (simp add: tx_wf_def bytesRequired_le_iff)
  have v': "word_of_nat (unat (sig_v (t_vrs t)) + 27) - (27 :: byte) = sig_v (t_vrs t)" by simp
  have "toBigEndian 20 (unat (t_receiveAddress t)) \<noteq> []"
    using length_toBigEndian [of 20 "unat (t_receiveAddress t)"] by (metis list.size(3) zero_neq_numeral)
  then have empty: "isEmpty (encode (?xs ! 3)) \<longleftrightarrow> t_type t \<noteq> MessageCall"
    using isEmpty_Data [OF z] isEmpty_Data [of "toBigEndian 20 (unat (t_receiveAddress t))"]
    by (simp add: tx_items_def tx_to_item_def hash_item_def size_ok_def del: encode.simps)
  have to: "(if isEmpty (encode (?xs ! 3)) then Inr 0 else rlp_address (encode (?xs ! 3))) = Inr (t_receiveAddress t)"
    using wf unfolding empty by (cases "t_type t") (simp_all add: tx_items_def tx_to_item_def tx_wf_def rlp_address_item)
  have int: "toInt_u256 (encode (?xs ! 0)) Strict = Inr (t_nonce t)" "toInt_u256 (encode (?xs ! 1)) Strict = Inr (t_gasPrice t)"
    "toInt_u256 (encode (?xs ! 2)) Strict = Inr (t_gas t)" "toInt_u256 (encode (?xs ! 4)) Strict = Inr (t_value t)"
    "toInt_u256 (encode (?xs ! 7)) Strict = Inr (sig_r (t_vrs t))" "toInt_u256 (encode (?xs ! 8)) Strict = Inr (sig_s (t_vrs t))"
    by (simp_all add: tx_items_def toInt_u256_item)
  have v: "toInt 1 (encode (?xs ! 6)) Strict = Inr (word_of_nat (unat (sig_v (t_vrs t)) + 27) :: byte)"
    using toInt_item [OF v, where ?'a = 8] by (simp add: tx_items_def)
  have arr: "isData (encode (?xs ! 5))" and dat: "toBytes (encode (?xs ! 5)) LaissezFaire = Inr (t_data t)"
    using isData_Data [OF d] toBytes_Data [OF d] by (simp_all add: tx_items_def)
  have plain: "\<lparr>t_type = (if isEmpty (encode (?xs ! 3)) then ContractCreation else MessageCall), t_nonce = t_nonce t,
      t_value = t_value t, t_receiveAddress = t_receiveAddress t, t_gasPrice = t_gasPrice t, t_gas = t_gas t,
      t_data = t_data t, t_vrs = \<lparr>sig_r = sig_r (t_vrs t), sig_s = sig_s (t_vrs t),
        sig_v = word_of_nat (unat (sig_v (t_vrs t)) + 27) - 27\<rparr>, t_hashWith = 0, t_sender = 0\<rparr> = tx_plain t"
    using ty unfolding empty v' by (cases "t_type t") (simp_all add: tx_plain_def)
  note fld = tx_field_encode [OF ok] and conv = int to v dat refl
  have "tx_parse recover check (encode (Items ?xs)) = (if check \<noteq> CheckNone \<and> \<not> sig_isValid (t_vrs t) then Inl InvalidSignature
     else if check = Everything then res_bind (tx_sender recover (tx_plain t)) (\<lambda>(_, t'). Inr t')
     else Inr (tx_plain t))"
    unfolding tx_parse_def rlp_new_Items [OF ok] sum.case
    apply (simp only: isList_Items [OF ok] simp_thms if_False)
    apply ((rule fld, (rule c | assumption), simp add: n, rule conv)+)
    apply (simp only: arr simp_thms if_False)
    apply ((rule fld, assumption, simp add: n, rule conv)+)
    apply (simp only: plain)
    apply (rule trans [OF tx_check_encode [OF ok]], assumption, simp add: n)
    apply (simp add: tx_plain_def)
    done
  then show ?thesis using tx_rlp_encode [OF l ty] by blast
qed

theorem tx_roundtrip_witness:
  "\<exists>b. tx_rlp WithSignature (new_message_call 5 1 21000 0xabc [1, 2] 7) = Inr b
     \<and> tx_parse (\<lambda>_ _. []) CheckNone b = Inr (new_message_call 5 1 21000 0xabc [1, 2] 7)
     \<and> tx_parse (\<lambda>_ _. []) Cheap b = Inl InvalidSignature"
proof -
  let ?t = "new_message_call 5 1 21000 0xabc [1, 2] 7"
  have wf: "tx_wf ?t" and plain: "tx_plain ?t = ?t" and s: "\<not> sig_isValid (t_vrs ?t)"
    by (simp_all add: new_message_call_def null_transaction_def no_signature_def tx_wf_def tx_plain_def sig_isValid_def)
  show ?thesis
    using tx_roundtrip [OF wf, of "\<lambda>_ _. []" CheckNone] tx_roundtrip [OF wf, of "\<lambda>_ _. []" Cheap] s
    by (auto simp: plain)
qed

end
