(* ===== verification/Executive.thy ===== *)
theory Executive
  imports Transactions World_State Evm_Safety
begin

text \<open>
  \<^verbatim>\<open>libelementrem/Executive.cpp\<close>, \<^verbatim>\<open>ExtVM.h\<close>, \<^verbatim>\<open>ExtVM.cpp\<close>: message calls,
  contract creations and transactions.  The executive prepares a virtual machine over the world
  state; the machine's \<^verbatim>\<open>CALL\<close> and \<^verbatim>\<open>CREATE\<close> build a new executive one level down.
  \<open>vm_ops n\<close> is the table of virtual methods of an \<^verbatim>\<open>ExtVM\<close> below which \<open>n\<close> more levels
  are possible; the program allows 1024, and at the last level the machine never calls, so the empty
  operations there are unreachable.  The seal engine is the interface \<^verbatim>\<open>SealEngineFace\<close>, a
  record of its virtual methods.
\<close>

section \<open>Data\<close>

datatype transaction_exception =
  ExcNone | ExcUnknown | ExcBadRLP | ExcInvalidFormat | ExcOutOfGasIntrinsic | ExcInvalidSignature | ExcInvalidNonce
| ExcNotEnoughCash | ExcOutOfGasBase | ExcBlockGasLimitReached | ExcBadInstruction | ExcBadJumpDestination
| ExcOutOfGas | ExcOutOfStack | ExcStackUnderflow

datatype code_deposit = DepositNone | DepositFailed | DepositSuccess

fun toTransactionException :: "vm_error \<Rightarrow> transaction_exception" where
  "toTransactionException BadInstruction = ExcBadInstruction"
| "toTransactionException BadJumpDestination = ExcBadJumpDestination"
| "toTransactionException OutOfGas = ExcOutOfGas"
| "toTransactionException OutOfStack = ExcOutOfStack"
| "toTransactionException StackUnderflow = ExcStackUnderflow"
| "toTransactionException BreakPointHit = ExcUnknown"

record execution_result =
  r_gasUsed :: u256
  r_excepted :: transaction_exception
  r_newAddress :: address
  r_output :: bytes
  r_codeDeposit :: code_deposit
  r_gasRefunded :: u256
  r_depositSize :: nat
  r_gasForDeposit :: u256

definition empty_result :: execution_result where
  "empty_result =
     \<lparr>r_gasUsed = 0, r_excepted = ExcUnknown, r_newAddress = 0, r_output = [], r_codeDeposit = DepositNone,
      r_gasRefunded = 0, r_depositSize = 0, r_gasForDeposit = 0\<rparr>"

record seal_engine =
  isPrecompiled :: "address \<Rightarrow> bool"
  costOfPrecompiled :: "address \<Rightarrow> bytes \<Rightarrow> nat"
  executePrecompiled :: "address \<Rightarrow> bytes \<Rightarrow> bytes \<Rightarrow> bytes"
  evmSchedule :: "env_info \<Rightarrow> schedule"

text \<open>An \<^verbatim>\<open>ExtVM\<close>: the fields of \<^verbatim>\<open>ExtVMFace\<close>, the copy of the cache to go back to, the
  sub-state.\<close>

record ext_vm =
  ev_env :: ext_env
  ev_origCache :: "address \<rightharpoonup> account"
  ev_sub :: sub_state

record executive =
  ex_s :: state
  ex_envInfo :: env_info
  ex_ext :: "ext_vm option"
  ex_outRef :: bytes
  ex_res :: "execution_result option"
  ex_newAddress :: address
  ex_depth :: nat
  ex_isCreation :: bool
  ex_excepted :: transaction_exception
  ex_baseGasRequired :: nat
  ex_gas :: u256
  ex_refunded :: u256
  ex_t :: transaction
  ex_logs :: "log_entry list"
  ex_gasCost :: nat

definition new_executive :: "state \<Rightarrow> env_info \<Rightarrow> nat \<Rightarrow> execution_result option \<Rightarrow> executive" where
  "new_executive s env level res =
     \<lparr>ex_s = s, ex_envInfo = env, ex_ext = None, ex_outRef = [], ex_res = res, ex_newAddress = 0, ex_depth = level,
      ex_isCreation = False, ex_excepted = ExcNone, ex_baseGasRequired = 0, ex_gas = 0, ex_refunded = 0,
      ex_t = null_transaction, ex_logs = [], ex_gasCost = 0\<rparr>"

section \<open>ExtVM\<close>

definition new_ext_vm ::
  "seal_engine \<Rightarrow> env_info \<Rightarrow> address \<Rightarrow> address \<Rightarrow> address \<Rightarrow> u256 \<Rightarrow> u256 \<Rightarrow> bytes \<Rightarrow> bytes \<Rightarrow> nat \<Rightarrow> state
    \<Rightarrow> state_error + ext_vm \<times> state" where
  "new_ext_vm seal env myAddress caller origin value gasPrice dat code depth s =
     res_bind (ensureCached myAddress True True s) (\<lambda>s'.
       Inr (\<lparr>ev_env = \<lparr>x_envInfo = env, x_myAddress = myAddress, x_caller = caller, x_origin = origin, x_value = value,
                x_gasPrice = gasPrice, x_data = dat, x_code = code, x_depth = depth,
                x_schedule = evmSchedule seal env\<rparr>,
             ev_origCache = m_cache s, ev_sub = sub_empty\<rparr>, s'))"

definition ext_suicide :: "address \<Rightarrow> address \<Rightarrow> state \<Rightarrow> state_error + state" where
  "ext_suicide myAddress a s =
     res_bind (addBalance a (state_balance s myAddress) s) (\<lambda>s1.
       subBalance myAddress (uint (state_balance s1 myAddress)) s1)"

definition ext_revert :: "ext_vm \<Rightarrow> state \<Rightarrow> ext_vm \<times> state" where
  "ext_revert x s = (x\<lparr>ev_sub := sub_clear (ev_sub x)\<rparr>, s\<lparr>m_cache := ev_origCache x\<rparr>)"

section \<open>The executive\<close>

text \<open>\<^verbatim>\<open>call\<close> returns whether there is nothing left to do; \<open>ex_outRef\<close> is the caller's output
  buffer, which a precompiled contract fills at once.\<close>

definition exec_call ::
  "seal_engine \<Rightarrow> call_params \<Rightarrow> u256 \<Rightarrow> address \<Rightarrow> executive \<Rightarrow> state_error + bool \<times> executive" where
  "exec_call seal p gasPrice origin e0 =
     (let e = e0\<lparr>ex_isCreation := False, ex_outRef := cp_out p\<rparr>;
          finish = (\<lambda>e. res_bind (transferBalance (senderAddress p) (receiveAddress p) (valueTransfer p) (ex_s e)) (\<lambda>s.
                          Inr (ex_ext e = None, e\<lparr>ex_s := s\<rparr>))) in
      if isPrecompiled seal (codeAddress p) then
        (let g = costOfPrecompiled seal (codeAddress p) (cp_data p) in
         if unat (cp_gas p) < g then Inr (True, e\<lparr>ex_excepted := ExcOutOfGasBase\<rparr>)
         else finish (e\<lparr>ex_gas := word_of_nat (unat (cp_gas p) - g),
                         ex_outRef := executePrecompiled seal (codeAddress p) (cp_data p) (cp_out p)\<rparr>))
      else if addressHasCode (ex_s e) (codeAddress p) then
        res_bind (new_ext_vm seal (ex_envInfo e) (receiveAddress p) (senderAddress p) origin (apparentValue p) gasPrice
                    (cp_data p) (state_code (ex_s e) (codeAddress p)) (ex_depth e) (ex_s e)) (\<lambda>(x, s).
          finish (e\<lparr>ex_gas := cp_gas p, ex_ext := Some x, ex_s := s\<rparr>))
      else finish (e\<lparr>ex_gas := cp_gas p\<rparr>))"

definition contract_address :: "address \<Rightarrow> u256 \<Rightarrow> address" where
  "contract_address sender nonce =
     (case rlpList [append_bytes (toBigEndian 20 (unat sender)) False, append_int (unat nonce)] of
        Inl _ \<Rightarrow> 0
      | Inr b \<Rightarrow> right160 (sha3 b))"

text \<open>\<^verbatim>\<open>m_cache[a].setCode(code)\<close>.\<close>

definition cache_setCode :: "address \<Rightarrow> bytes \<Rightarrow> state \<Rightarrow> state" where
  "cache_setCode a code s =
     cache_put a (account_setCode code (case m_cache s a of Some x \<Rightarrow> x | None \<Rightarrow> account_dead)) s"

definition exec_create ::
  "seal_engine \<Rightarrow> address \<Rightarrow> u256 \<Rightarrow> u256 \<Rightarrow> u256 \<Rightarrow> bytes \<Rightarrow> address \<Rightarrow> executive \<Rightarrow> state_error + bool \<times> executive" where
  "exec_create seal sender endowment gasPrice gas ini origin e0 =
     (let a = contract_address sender (transactionsFrom (ex_s e0) sender - 1);
          e = e0\<lparr>ex_isCreation := True, ex_newAddress := a, ex_gas := gas\<rparr> in
      res_bind
        (if ini \<noteq> [] then
           res_bind (new_ext_vm seal (ex_envInfo e) a sender origin endowment gasPrice [] ini (ex_depth e) (ex_s e))
             (\<lambda>(x, s). Inr (e\<lparr>ex_ext := Some x, ex_s := s\<rparr>))
         else Inr e) (\<lambda>e.
      res_bind (requireAccountStartNonce (ex_s e)) (\<lambda>n.
        let s1 = cache_put a (account_new n (state_balance (ex_s e) a) ContractConception Changed) (ex_s e) in
        res_bind (transferBalance sender a endowment s1) (\<lambda>s2.
          Inr (ex_ext e = None, e\<lparr>ex_s := (if ini = [] then cache_setCode a [] s2 else s2)\<rparr>)))))"

text \<open>The handler of a \<^verbatim>\<open>VMException\<close> in \<^verbatim>\<open>go\<close>.\<close>

definition exec_fail :: "vm_error \<Rightarrow> ext_vm \<Rightarrow> state \<Rightarrow> executive \<Rightarrow> executive" where
  "exec_fail err x s e =
     (let (x', s') = ext_revert x s in
      e\<lparr>ex_gas := 0, ex_excepted := toTransactionException err, ex_ext := Some x', ex_s := s',
        ex_newAddress := (if ex_isCreation e then 0 else ex_newAddress e)\<rparr>)"

definition exec_deposit :: "ext_vm \<Rightarrow> bytes \<Rightarrow> executive \<Rightarrow> executive" where
  "exec_deposit x out e0 =
     (let sch = x_schedule (ev_env x);
          e = e0\<lparr>ex_res := map_option (\<lambda>r. r\<lparr>r_gasForDeposit := ex_gas e0, r_depositSize := length out\<rparr>) (ex_res e0)\<rparr>;
          cost = word_of_nat (length out) * word_of_nat (createDataGas sch) in
      if cost \<le> ex_gas e then
        e\<lparr>ex_gas := ex_gas e - cost,
          ex_res := map_option (\<lambda>r. r\<lparr>r_codeDeposit := DepositSuccess, r_output := out\<rparr>) (ex_res e),
          ex_s := cache_setCode (ex_newAddress e) out (ex_s e)\<rparr>
      else if exceptionalFailedCodeDeposit sch then exec_fail OutOfGas x (ex_s e) e
      else
        e\<lparr>ex_res := map_option (\<lambda>r. r\<lparr>r_codeDeposit := DepositFailed, r_output := []\<rparr>) (ex_res e),
          ex_s := cache_setCode (ex_newAddress e) [] (ex_s e)\<rparr>)"

text \<open>\<^verbatim>\<open>go\<close>; \<open>W\<close> gives the virtual methods for an environment, \<open>None\<close> is a machine that does
  not return.\<close>

definition exec_go :: "(ext_env \<Rightarrow> state ext_ops) \<Rightarrow> executive \<Rightarrow> executive option" where
  "exec_go W e =
     (case ex_ext e of
        None \<Rightarrow> Some e
      | Some x \<Rightarrow>
          (case execImpl (W (ev_env x)) (ev_env x) (ex_gas e) (ex_s e) (ev_sub x) of
             None \<Rightarrow> None
           | Some (r, v) \<Rightarrow>
               let x' = x\<lparr>ev_sub := v_sub v\<rparr>;
                   e' = e\<lparr>ex_gas := io_gas v, ex_s := v_world v, ex_ext := Some x'\<rparr> in
               Some (case r of
                 Inl err \<Rightarrow> exec_fail err x' (v_world v) e'
               | Inr out \<Rightarrow>
                   if ex_isCreation e then exec_deposit x' out e'
                   else e'\<lparr>ex_res := map_option (\<lambda>r. r\<lparr>r_output := out\<rparr>) (ex_res e'),
                           ex_outRef := copyTo out (ex_outRef e')\<rparr>)))"

definition accrueSubState :: "executive \<Rightarrow> sub_state \<Rightarrow> sub_state" where
  "accrueSubState e sub = (case ex_ext e of None \<Rightarrow> sub | Some x \<Rightarrow> sub_add sub (ev_sub x))"

section \<open>Calls from the machine\<close>

definition ext_call ::
  "(ext_env \<Rightarrow> state ext_ops) \<Rightarrow> seal_engine \<Rightarrow> ext_env \<Rightarrow> call_params \<Rightarrow> state \<times> sub_state
    \<Rightarrow> (bool \<times> u256 \<times> bytes \<times> state \<times> sub_state) option" where
  "ext_call W seal E p = (\<lambda>(s, sub).
     case exec_call seal p (x_gasPrice E) (x_origin E) (new_executive s (x_envInfo E) (x_depth E + 1) None) of
       Inl _ \<Rightarrow> None
     | Inr (done, e) \<Rightarrow>
         let ret = (\<lambda>e sub. (ex_excepted e = ExcNone, ex_gas e, ex_outRef e, ex_s e, sub)) in
         if done then Some (ret e sub)
         else (case exec_go W e of None \<Rightarrow> None | Some e' \<Rightarrow> Some (ret e' (accrueSubState e' sub))))"

definition ext_create ::
  "(ext_env \<Rightarrow> state ext_ops) \<Rightarrow> seal_engine \<Rightarrow> ext_env \<Rightarrow> u256 \<Rightarrow> u256 \<Rightarrow> bytes \<Rightarrow> state \<times> sub_state
    \<Rightarrow> (address \<times> u256 \<times> state \<times> sub_state) option" where
  "ext_create W seal E endowment gas code = (\<lambda>(s, sub).
     case res_bind (noteSending (x_myAddress E) s) (\<lambda>s1.
            exec_create seal (x_myAddress E) endowment (x_gasPrice E) gas code (x_origin E)
              (new_executive s1 (x_envInfo E) (x_depth E + 1) None)) of
       Inl _ \<Rightarrow> None
     | Inr (done, e) \<Rightarrow>
         let ret = (\<lambda>e sub. (ex_newAddress e, ex_gas e, ex_s e, sub)) in
         if done then Some (ret e sub)
         else (case exec_go W e of None \<Rightarrow> None | Some e' \<Rightarrow> Some (ret e' (accrueSubState e' sub))))"

text \<open>The operations of the machine's environment.  The reads are the values that the source returns, without the
  cache they fill; \<^verbatim>\<open>suicide\<close> throws only where the start nonce is not set, which \<open>ext_suicide_ok\<close>
  excludes on the states considered.\<close>

definition ext_vm_ops ::
  "ext_env \<Rightarrow> (u256 \<Rightarrow> u256 \<Rightarrow> bytes \<Rightarrow> state \<times> sub_state \<Rightarrow> (address \<times> u256 \<times> state \<times> sub_state) option)
    \<Rightarrow> (call_params \<Rightarrow> state \<times> sub_state \<Rightarrow> (bool \<times> u256 \<times> bytes \<times> state \<times> sub_state) option)
    \<Rightarrow> state ext_ops" where
  "ext_vm_ops E create call =
     \<lparr>x_store = (\<lambda>s k. state_storage s (x_myAddress E) k), x_setStore = setStorage (x_myAddress E),
      x_balance = state_balance, x_codeAt = state_code, x_exists = addressInUse,
      x_suicide = (\<lambda>a s. case ext_suicide (x_myAddress E) a s of Inl _ \<Rightarrow> s | Inr s' \<Rightarrow> s'),
      x_create = create, x_call = call\<rparr>"

primrec vm_ops :: "seal_engine \<Rightarrow> nat \<Rightarrow> ext_env \<Rightarrow> state ext_ops" where
  "vm_ops seal 0 = (\<lambda>E. ext_vm_ops E (\<lambda>_ _ _ _. None) (\<lambda>_ _. None))"
| "vm_ops seal (Suc n) =
     (\<lambda>E. ext_vm_ops E (ext_create (vm_ops seal n) seal E) (ext_call (vm_ops seal n) seal E))"

section \<open>Transactions\<close>

datatype exec_error =
  BlockGasLimitReached | OutOfGasBase | ExecTx tx_error | InvalidNonce | ExecState state_error

text \<open>\<^verbatim>\<open>initialize\<close>.  It leaves the sender memoised in the transaction.\<close>

definition exec_initialize ::
  "recover_fun \<Rightarrow> seal_engine \<Rightarrow> transaction \<Rightarrow> executive \<Rightarrow> exec_error + executive" where
  "exec_initialize recover seal t e =
     (let env = ex_envInfo e; s = ex_s e; base = tx_gasRequired (evmSchedule seal env) t in
      if unat (e_gasUsed env) + unat (t_gas t) > unat (e_gasLimit env) then Inl BlockGasLimitReached
      else if base > unat (t_gas t) then Inl OutOfGasBase
      else (case tx_sender recover t of
              Inl err \<Rightarrow> Inl (ExecTx err)
            | Inr (sender, t') \<Rightarrow>
                let gasCost = unat (t_gas t) * unat (t_gasPrice t) in
                if t_nonce t \<noteq> transactionsFrom s sender then Inl InvalidNonce
                else if unat (state_balance s sender) < unat (t_value t) + gasCost then Inl (ExecState NotEnoughCash)
                else Inr (e\<lparr>ex_t := t', ex_baseGasRequired := base, ex_gasCost := gasCost\<rparr>)))"

definition exec_execute :: "recover_fun \<Rightarrow> seal_engine \<Rightarrow> executive \<Rightarrow> state_error + bool \<times> executive" where
  "exec_execute recover seal e =
     (let t = ex_t e; sender = tx_safeSender recover t; gas = t_gas t - word_of_nat (ex_baseGasRequired e) in
      res_bind (noteSending sender (ex_s e)) (\<lambda>s1.
      res_bind (subBalance sender (int (ex_gasCost e)) s1) (\<lambda>s2.
        if isCreation t then
          exec_create seal sender (t_value t) (t_gasPrice t) gas (t_data t) sender (e\<lparr>ex_s := s2\<rparr>)
        else
          exec_call seal
            \<lparr>senderAddress = sender, codeAddress = t_receiveAddress t, receiveAddress = t_receiveAddress t,
             valueTransfer = t_value t, apparentValue = t_value t, cp_gas = gas, cp_data = t_data t, cp_out = []\<rparr>
            (t_gasPrice t) sender (e\<lparr>ex_s := s2\<rparr>))))"

definition exec_gasUsed :: "executive \<Rightarrow> u256" where
  "exec_gasUsed e = t_gas (ex_t e) - ex_gas e"

definition exec_gasUsedNoRefunds :: "executive \<Rightarrow> u256" where
  "exec_gasUsedNoRefunds e = t_gas (ex_t e) - ex_gas e + ex_refunded e"

text \<open>\<^verbatim>\<open>m_cache[a].kill()\<close> for each suicide, in the order of the set.\<close>

definition cache_kill :: "address \<Rightarrow> state \<Rightarrow> state" where
  "cache_kill a s = cache_put a (account_kill (case m_cache s a of Some x \<Rightarrow> x | None \<Rightarrow> account_dead)) s"

definition exec_finalize :: "recover_fun \<Rightarrow> executive \<Rightarrow> state_error + executive" where
  "exec_finalize recover e =
     (let ext = map_option (\<lambda>x. x\<lparr>ev_sub := (ev_sub x)\<lparr>refunds := refunds (ev_sub x)
             + word_of_nat (suicideRefundGas (x_schedule (ev_env x))) * word_of_nat (card (suicides (ev_sub x)))\<rparr>\<rparr>) (ex_ext e);
          refunded = (case ext of None \<Rightarrow> 0 | Some x \<Rightarrow> min ((t_gas (ex_t e) - ex_gas e) div 2) (refunds (ev_sub x)));
          e1 = e\<lparr>ex_ext := ext, ex_refunded := refunded, ex_gas := ex_gas e + refunded\<rparr>;
          t = ex_t e1 in
      res_bind
        (if t_type t \<noteq> NullTransaction then
           res_bind (addBalance (tx_safeSender recover t) (ex_gas e1 * t_gasPrice t) (ex_s e1)) (\<lambda>s1.
             addBalance (e_author (ex_envInfo e1)) ((t_gas t - ex_gas e1) * t_gasPrice t) s1)
         else Inr (ex_s e1)) (\<lambda>s2.
        let s3 = (case ext of None \<Rightarrow> s2 | Some x \<Rightarrow> fold cache_kill (sorted_list_of_set (suicides (ev_sub x))) s2);
            e2 = e1\<lparr>ex_s := s3, ex_logs := (case ext of None \<Rightarrow> ex_logs e1 | Some x \<Rightarrow> logs (ev_sub x))\<rparr> in
        Inr (e2\<lparr>ex_res := map_option (\<lambda>r. r\<lparr>r_gasUsed := exec_gasUsed e2, r_excepted := ex_excepted e2,
                 r_newAddress := ex_newAddress e2,
                 r_gasRefunded := (case ext of None \<Rightarrow> 0 | Some x \<Rightarrow> refunds (ev_sub x))\<rparr>) (ex_res e2)\<rparr>)))"

text \<open>The body of \<^verbatim>\<open>State::execute\<close> up to the commit of the cache: the result is \<open>None\<close> if the
  machine does not return.\<close>

definition run_transaction ::
  "recover_fun \<Rightarrow> seal_engine \<Rightarrow> env_info \<Rightarrow> transaction \<Rightarrow> state \<Rightarrow> (exec_error + executive) option" where
  "run_transaction recover seal env t s =
     (case exec_initialize recover seal t (new_executive s env 0 (Some empty_result)) of
        Inl err \<Rightarrow> Some (Inl err)
      | Inr e \<Rightarrow>
          (case exec_execute recover seal e of
             Inl err \<Rightarrow> Some (Inl (ExecState err))
           | Inr (done, e1) \<Rightarrow>
               (case (if done then Some e1 else exec_go (vm_ops seal 1024) e1) of
                  None \<Rightarrow> None
                | Some e2 \<Rightarrow>
                    Some (case exec_finalize recover e2 of Inl err \<Rightarrow> Inl (ExecState err) | Inr e3 \<Rightarrow> Inr e3))))"

section \<open>What the seal engine promises\<close>

definition seal_ok :: "seal_engine \<Rightarrow> bool" where
  "seal_ok seal =
     ((\<forall>i. \<exists>a b c. evmSchedule seal i = EVMSchedule a b c)
      \<and> (\<forall>a d out. length (executePrecompiled seal a d out) = length out))"

lemma seal_okD:
  assumes "seal_ok seal"
  shows "\<exists>a b c. evmSchedule seal i = EVMSchedule a b c" and "length (executePrecompiled seal a d out) = length out"
  using assms by (auto simp: seal_ok_def)

section \<open>Operations on the world\<close>

lemma length_copyTo [simp]: "length (copyTo src dst) = length dst"
  by (simp add: copyTo_def Let_def)

lemma new_ext_vm_ok:
  assumes "world_ok B T A s"
  shows "\<exists>x s'. new_ext_vm seal env me caller origin value gasPrice dat code depth s = Inr (x, s')
    \<and> world_ok B T (insert me A) s' \<and> state_balance s' = state_balance s
    \<and> ev_env x = \<lparr>x_envInfo = env, x_myAddress = me, x_caller = caller, x_origin = origin, x_value = value,
                x_gasPrice = gasPrice, x_data = dat, x_code = code, x_depth = depth, x_schedule = evmSchedule seal env\<rparr>
    \<and> ev_origCache x = m_cache s \<and> ev_sub x = sub_empty"
  using ensureCached_ok [OF assms, of me] by (auto simp: new_ext_vm_def)

text \<open>Going back to the cached accounts of a state over the same base is going back to that state.\<close>

lemma revert_state:
  assumes "base s = base s0"
  shows "s\<lparr>m_cache := m_cache s0\<rparr> = s0"
proof -
  have "s\<lparr>m_cache := m_cache s0\<rparr> = (base s)\<lparr>m_cache := m_cache s0\<rparr>" by (simp add: base_def)
  then show ?thesis unfolding assms by (simp add: base_def)
qed

lemma cache_put_ok_same:
  assumes w: "world_ok B T A s" and b: "unat (a_balance x) \<le> bal (account_at s a)" and l: "length (a_codeCache x) < 2 ^ 63"
  shows "world_ok B T A (cache_put a x s)"
  using world_ok_mono [OF world_ok_put [OF w l, of a]] b world_okD(3) [OF w] by fastforce

lemma cached_default_balance:
  "unat (a_balance (case m_cache s a of Some x \<Rightarrow> x | None \<Rightarrow> account_dead)) \<le> bal (account_at s a)"
  by (simp add: account_at_def split: option.splits)

lemma cache_setCode_ok:
  assumes "world_ok B T A s" and "length code < 2 ^ 63"
  shows "world_ok B T A (cache_setCode a code s)"
  unfolding cache_setCode_def
  using assms cached_default_balance [of s a]
  by (intro cache_put_ok_same) (auto simp: account_setCode_def account_changed_def)

lemma cache_kill_ok:
  assumes "world_ok B T A s"
  shows "world_ok B T A (cache_kill a s)"
proof -
  have "length (a_codeCache (case m_cache s a of Some x \<Rightarrow> x | None \<Rightarrow> account_dead)) < 2 ^ 63"
    using world_code_size(1) [OF assms, of a] by (simp add: account_at_def split: option.splits)
  then show ?thesis
    unfolding cache_kill_def using assms
    by (intro cache_put_ok_same) (auto simp: account_kill_def account_changed_def)
qed

definition frame_ok :: "state \<Rightarrow> address set \<Rightarrow> state \<Rightarrow> bool" where
  "frame_ok B A s =
     (base s = B \<and> m_accountStartNonce s \<noteq> Invalid256 \<and> code_sizes s \<and> (\<forall>a\<in>A. m_cache s a \<noteq> None))"

lemma world_ok_frame: "world_ok B T A s \<longleftrightarrow> frame_ok B A s \<and> T < 2 ^ 256 \<and> total_balance s \<le> T"
  by (auto simp: world_ok_def frame_ok_def)

lemma frame_fetch_put:
  assumes f: "frame_ok B A s" and l: "length (a_codeCache x) < 2 ^ 63"
  shows "frame_ok B A (cache_put a x (fetch a s))"
proof -
  have c: "m_cache (cache_put a x (fetch a s)) b \<noteq> None" if "m_cache s b \<noteq> None" for b
    using that by (auto simp: cache_put_def fetch_def split: option.splits)
  have "code_sizes (cache_put a x (fetch a s))"
    using f l by (auto simp: frame_ok_def code_sizes_def)
  then show ?thesis using f c by (auto simp: frame_ok_def)
qed

lemma addBalance_frame:
  assumes f: "frame_ok B A s" and r: "addBalance a v s = Inr s'"
  shows "frame_ok B A s'"
proof -
  have "length (a_codeCache x) < 2 ^ 63" if "account_at s a = Some x" for x
    using f that by (auto simp: frame_ok_def code_sizes_def)
  then show ?thesis
    using r frame_fetch_put [OF f, of _ a]
    by (auto simp: addBalance_def Let_def res_bind_Inr_iff split: option.splits)
qed

lemma subBalance_frame:
  assumes f: "frame_ok B A s" and r: "subBalance a n s = Inr s'"
  shows "frame_ok B A s'"
proof -
  have "length (a_codeCache x) < 2 ^ 63" if "account_at s a = Some x" for x
    using f that by (auto simp: frame_ok_def code_sizes_def)
  then show ?thesis
    using r frame_fetch_put [OF f, of _ a]
    by (auto simp: subBalance_def Let_def split: option.splits if_splits)
qed

lemma frame_account_at: "frame_ok B A s \<Longrightarrow> a \<in> A \<Longrightarrow> account_at s a \<noteq> None"
  by (force simp: frame_ok_def account_at_def split: option.splits)

text \<open>A suicide moves the whole balance, or destroys it when the beneficiary is the contract itself.\<close>

lemma ext_suicide_ok:
  assumes w: "world_ok B T A s" and me: "me \<in> A"
  shows "\<exists>s'. ext_suicide me a s = Inr s' \<and> world_ok B T A s' \<and> (\<forall>x. state_balance s' x =
    (if x = me then 0 else if x = a then state_balance s a + state_balance s me else state_balance s x))"
proof -
  have f: "frame_ok B A s" and T: "T < 2 ^ 256" "total_balance s \<le> T" using w by (auto simp: world_ok_frame)
  define b where "b = state_balance s me"
  obtain s1 where s1: "addBalance a b s = Inr s1" "state_balance s1 = (state_balance s)(a := state_balance s a + b)"
    using addBalance_view [of s a b] f by (auto simp: frame_ok_def)
  have f1: "frame_ok B A s1" by (rule addBalance_frame [OF f s1(1)])
  obtain s2 where s2: "subBalance me (uint (state_balance s1 me)) s1 = Inr s2"
    "state_balance s2 = (state_balance s1)(me := 0)"
    using subBalance_view [OF frame_account_at [OF f1 me], of "state_balance s1 me"] by auto
  have v: "state_balance s2 x = (if x = me then 0 else if x = a then state_balance s a + b else state_balance s x)" for x
    by (simp add: s2(2) s1(2))
  have "total_balance s2 \<le> total_balance s"
  proof (cases "a = me")
    case True
    have "unat (state_balance s2 x) \<le> unat (state_balance s x)" for x using True by (simp add: v)
    then show ?thesis unfolding total_balance_def state_balance_view [symmetric] by (rule sum_mono)
  next
    case False
    have "unat (state_balance s a) + unat b \<le> total_balance s"
      using bal_pair_le_total [OF False, of s] by (simp add: b_def state_balance_view)
    then have "unat (state_balance s a + b) = unat (state_balance s a) + unat b"
      using T by (intro unat_add_u256) linarith
    then have "unat (state_balance s2 x) + (if x = me then unat b else 0) =
        unat (state_balance s x) + (if x = a then unat b else 0)" for x
      using False by (auto simp: v b_def)
    from total_of_moves [OF this] show ?thesis by simp
  qed
  then have "world_ok B T A s2"
    using subBalance_frame [OF f1 s2(1)] T by (simp add: world_ok_frame)
  then show ?thesis
    using s1(1) s2(1) v by (auto simp: ext_suicide_def b_def)
qed

section \<open>The executive keeps the world\<close>

text \<open>After \<^verbatim>\<open>call\<close> or \<^verbatim>\<open>create\<close>: either there is nothing left to do, or a machine is ready
  at depth \<open>d\<close>, over a world in which its own account and its caller's are cached, with the state
  \<open>s0\<close> to go back to.\<close>

definition ready :: "seal_engine \<Rightarrow> state \<Rightarrow> nat \<Rightarrow> address set \<Rightarrow> state \<Rightarrow> nat \<Rightarrow> u256 \<Rightarrow> bool \<Rightarrow> executive \<Rightarrow> bool" where
  "ready seal B T A s0 d gas done e =
     (done = (ex_ext e = None) \<and> world_ok B T A (ex_s e) \<and> unat (ex_gas e) \<le> unat gas \<and> ex_depth e = d
      \<and> (\<forall>x. ex_ext e = Some x \<longrightarrow>
            world_ok B T (insert (x_myAddress (ev_env x)) A) (ex_s e) \<and> x_caller (ev_env x) \<in> A
            \<and> ev_origCache x = m_cache s0 \<and> x_depth (ev_env x) = d \<and> length (x_data (ev_env x)) < 2 ^ 63
            \<and> length (x_code (ev_env x)) < 2 ^ 63 \<and> (\<exists>i. x_schedule (ev_env x) = evmSchedule seal i)
            \<and> ev_sub x = sub_empty \<and> ex_excepted e = ExcNone
            \<and> (ex_isCreation e \<longrightarrow> ex_newAddress e = x_myAddress (ev_env x))))"

lemma exec_call_ok:
  assumes seal: "seal_ok seal" and w: "world_ok B T A (ex_s e)" and sender: "senderAddress p \<in> A"
    and val: "valueTransfer p \<le> state_balance (ex_s e) (senderAddress p)"
    and new: "ex_ext e = None" "ex_gas e = 0" "ex_excepted e = ExcNone" and dat: "length (cp_data p) < 2 ^ 63"
  shows "\<exists>done e'. exec_call seal p gasPrice origin e = Inr (done, e')
    \<and> ready seal B T A (ex_s e) (ex_depth e) (cp_gas p) done e' \<and> length (ex_outRef e') = length (cp_out p)
    \<and> \<not> ex_isCreation e'"
proof -
  have fin: "\<exists>s'. transferBalance (senderAddress p) (receiveAddress p) (valueTransfer p) s = Inr s' \<and> world_ok B T A' s'"
    if s: "world_ok B T A' s" "state_balance s = state_balance (ex_s e)" "A \<subseteq> A'" for s A'
  proof -
    have "account_at s (senderAddress p) \<noteq> None"
      using s sender frame_account_at by (auto simp: world_ok_frame)
    then obtain s' where s': "transferBalance (senderAddress p) (receiveAddress p) (valueTransfer p) s = Inr s'"
        "world_ok B T (insert (receiveAddress p) A') s'"
      using transferBalance_ok [OF s(1), of "senderAddress p" "valueTransfer p" "receiveAddress p"] val s(2) by auto
    have "world_ok B T A' s'" by (rule world_ok_mono [OF s'(2)]) auto
    then show ?thesis using s'(1) by blast
  qed
  obtain s0 where s0: "transferBalance (senderAddress p) (receiveAddress p) (valueTransfer p) (ex_s e) = Inr s0" "world_ok B T A s0"
    using fin [OF w HOL.refl order_refl] by blast
  show ?thesis
  proof (cases "isPrecompiled seal (codeAddress p)")
    case True
    define g where "g = costOfPrecompiled seal (codeAddress p) (cp_data p)"
    show ?thesis
    proof (cases "unat (cp_gas p) < g")
      case low: True
      then show ?thesis
        using True w new by (auto simp: exec_call_def Let_def g_def [symmetric] ready_def)
    next
      case False
      have "unat (word_of_nat (unat (cp_gas p) - g) :: u256) = unat (cp_gas p) - g"
        using unat_u256_less [of "cp_gas p"] by (intro unat_word_of_nat) simp
      then show ?thesis
        using s0 True False new seal_okD(2) [OF seal]
        by (auto simp: exec_call_def Let_def g_def [symmetric] ready_def)
    qed
  next
    case pre: False
    show ?thesis
    proof (cases "addressHasCode (ex_s e) (codeAddress p)")
      case True
      obtain x s1 where x: "new_ext_vm seal (ex_envInfo e) (receiveAddress p) (senderAddress p) origin (apparentValue p) gasPrice
          (cp_data p) (state_code (ex_s e) (codeAddress p)) (ex_depth e) (ex_s e) = Inr (x, s1)"
        "world_ok B T (insert (receiveAddress p) A) s1" "state_balance s1 = state_balance (ex_s e)"
        "ev_origCache x = m_cache (ex_s e)" "ev_sub x = sub_empty"
        "ev_env x = \<lparr>x_envInfo = ex_envInfo e, x_myAddress = receiveAddress p, x_caller = senderAddress p,
           x_origin = origin, x_value = apparentValue p, x_gasPrice = gasPrice, x_data = cp_data p,
           x_code = state_code (ex_s e) (codeAddress p), x_depth = ex_depth e, x_schedule = evmSchedule seal (ex_envInfo e)\<rparr>"
        using new_ext_vm_ok [OF w] by blast
      obtain s2 where s2: "transferBalance (senderAddress p) (receiveAddress p) (valueTransfer p) s1 = Inr s2"
          "world_ok B T (insert (receiveAddress p) A) s2"
        using fin [OF x(2,3)] by blast
      have "world_ok B T A s2" by (rule world_ok_mono [OF s2(2)]) auto
      then show ?thesis
        using pre True x s2 new sender dat world_state_code [OF w]
        by (auto simp: exec_call_def Let_def ready_def)
    next
      case False
      then show ?thesis
        using s0 pre new by (auto simp: exec_call_def Let_def ready_def)
    qed
  qed
qed

lemma conceive_ok:
  assumes w: "world_ok B T A s"
  shows "world_ok B T A (cache_put a (account_new n (state_balance s a) ContractConception Changed) s)"
    and "state_balance (cache_put a (account_new n (state_balance s a) ContractConception Changed) s) = state_balance s"
proof -
  show "world_ok B T A (cache_put a (account_new n (state_balance s a) ContractConception Changed) s)"
    using w by (intro cache_put_ok_same) (auto simp: state_balance_view)
  show "state_balance (cache_put a (account_new n (state_balance s a) ContractConception Changed) s) = state_balance s"
    by (rule ext) (simp add: state_balance_put)
qed

lemma exec_create_ok:
  assumes w: "world_ok B T A (ex_s e)" and sender: "sender \<in> A"
    and val: "endowment \<le> state_balance (ex_s e) sender"
    and new: "ex_ext e = None" "ex_excepted e = ExcNone" and ini: "length ini < 2 ^ 63"
  shows "\<exists>done e'. exec_create seal sender endowment gasPrice gas ini origin e = Inr (done, e')
    \<and> ready seal B T A (ex_s e) (ex_depth e) gas done e' \<and> ex_isCreation e'"
proof -
  define a where "a = contract_address sender (transactionsFrom (ex_s e) sender - 1)"
  let ?n = "m_accountStartNonce"
  let ?s1 = "\<lambda>s. cache_put a (account_new (?n s) (state_balance s a) ContractConception Changed) s"
  have rest: "\<exists>s2. transferBalance sender a endowment (?s1 s) = Inr s2 \<and> world_ok B T A' s2
      \<and> requireAccountStartNonce s = Inr (?n s)"
    if "world_ok B T A' s" "state_balance s = state_balance (ex_s e)" "A \<subseteq> A'" for s A'
  proof -
    note c = conceive_ok [OF that(1), of a "?n s"]
    have "account_at (?s1 s) sender \<noteq> None"
      using c(1) that(3) sender frame_account_at [of B A' "?s1 s" sender] unfolding world_ok_frame by blast
    moreover have "endowment \<le> state_balance (?s1 s) sender"
      using val fun_cong [OF trans [OF c(2) that(2)], of sender] by simp
    ultimately obtain s2 where s2: "transferBalance sender a endowment (?s1 s) = Inr s2" "world_ok B T (insert a A') s2"
      using transferBalance_ok [OF c(1), of sender endowment a] by auto
    have "world_ok B T A' s2" by (rule world_ok_mono [OF s2(2)]) auto
    then show ?thesis using s2(1) world_start_nonce [OF that(1)] by auto
  qed
  show ?thesis
  proof (cases "ini = []")
    case True
    obtain s2 where "transferBalance sender a endowment (?s1 (ex_s e)) = Inr s2" "world_ok B T A s2"
        "requireAccountStartNonce (ex_s e) = Inr (?n (ex_s e))"
      using rest [OF w HOL.refl order_refl] by blast
    then show ?thesis
      using True new cache_setCode_ok [of B T A s2 "[]" a]
      by (auto simp: exec_create_def Let_def a_def [symmetric] ready_def)
  next
    case False
    obtain x s1 where x: "new_ext_vm seal (ex_envInfo e) a sender origin endowment gasPrice [] ini (ex_depth e) (ex_s e) = Inr (x, s1)"
      "world_ok B T (insert a A) s1" "state_balance s1 = state_balance (ex_s e)"
      "ev_origCache x = m_cache (ex_s e)" "ev_sub x = sub_empty"
      "ev_env x = \<lparr>x_envInfo = ex_envInfo e, x_myAddress = a, x_caller = sender,
         x_origin = origin, x_value = endowment, x_gasPrice = gasPrice, x_data = [],
         x_code = ini, x_depth = ex_depth e, x_schedule = evmSchedule seal (ex_envInfo e)\<rparr>"
      using new_ext_vm_ok [OF w] by blast
    obtain s2 where s2: "transferBalance sender a endowment (?s1 s1) = Inr s2" "world_ok B T (insert a A) s2"
        "requireAccountStartNonce s1 = Inr (?n s1)"
      using rest [OF x(2,3)] by blast
    have "world_ok B T A s2" by (rule world_ok_mono [OF s2(2)]) auto
    then show ?thesis
      using False x s2 new sender ini by (auto simp: exec_create_def Let_def a_def [symmetric] ready_def)
  qed
qed

lemma toTransactionException_not_None [simp]: "toTransactionException err \<noteq> ExcNone"
  by (cases err) auto

text \<open>What \<^verbatim>\<open>go\<close> guarantees: the world stays good, no gas is created, and an exception puts back
  the state \<open>s0\<close> and takes all the gas.\<close>

definition go_ok :: "state \<Rightarrow> nat \<Rightarrow> address set \<Rightarrow> state \<Rightarrow> executive \<Rightarrow> executive \<Rightarrow> bool" where
  "go_ok B T A s0 e e' =
     (world_ok B T A (ex_s e') \<and> unat (ex_gas e') \<le> unat (ex_gas e) \<and> length (ex_outRef e') = length (ex_outRef e)
      \<and> ex_t e' = ex_t e \<and> ex_envInfo e' = ex_envInfo e \<and> (ex_res e' = None \<longleftrightarrow> ex_res e = None)
      \<and> (ex_excepted e' \<noteq> ExcNone \<longrightarrow> ex_s e' = s0 \<and> ex_gas e' = 0 \<and> ex_outRef e' = ex_outRef e
           \<and> (\<forall>x. ex_ext e' = Some x \<longrightarrow> ev_sub x = sub_empty)))"

lemma exec_fail_ok:
  assumes "world_ok B T A s0" and "base s = B" and "ev_origCache x = m_cache s0"
  shows "go_ok B T A s0 e (exec_fail err x s e)"
proof -
  have "s\<lparr>m_cache := m_cache s0\<rparr> = s0"
    by (rule revert_state) (use assms(2) world_okD(1) [OF assms(1)] in simp)
  then show ?thesis
    using assms by (simp add: go_ok_def exec_fail_def ext_revert_def Let_def sub_clear_def sub_empty_def)
qed

lemma exec_deposit_ok:
  assumes s0: "world_ok B T A s0" and w: "world_ok B T A (ex_s e)" and x: "ev_origCache x = m_cache s0"
    and out: "length out < 2 ^ 63" and none: "ex_excepted e = ExcNone"
  shows "go_ok B T A s0 e (exec_deposit x out e)"
proof -
  define cost :: u256 where "cost = word_of_nat (length out) * word_of_nat (createDataGas (x_schedule (ev_env x)))"
  let ?e = "e\<lparr>ex_res := map_option (\<lambda>r. r\<lparr>r_gasForDeposit := ex_gas e, r_depositSize := length out\<rparr>) (ex_res e)\<rparr>"
  have fail: "go_ok B T A s0 e (exec_fail OutOfGas x (ex_s e) ?e)"
    using exec_fail_ok [OF s0 world_okD(1) [OF w] x, of ?e OutOfGas] by (simp add: go_ok_def)
  show ?thesis
    using cache_setCode_ok [OF w out] cache_setCode_ok [OF w, of "[]"] fail none
    by (auto simp: exec_deposit_def Let_def cost_def [symmetric] go_ok_def unat_sub word_le_nat_alt)
qed

lemma exec_go_ok:
  assumes seal: "seal_ok seal" and r: "ready seal B T A s0 d gas False e" and s0: "world_ok B T A s0"
    and vm: "\<And>x. ex_ext e = Some x \<Longrightarrow> vm_world (W (ev_env x)) (ev_env x) (world_ok B T (insert (x_myAddress (ev_env x)) A)) G"
    and G: "unat gas \<le> G" "G < 2 ^ 45"
  shows "\<exists>e'. exec_go W e = Some e' \<and> go_ok B T A s0 e e'"
proof -
  obtain x where x: "ex_ext e = Some x" "world_ok B T (insert (x_myAddress (ev_env x)) A) (ex_s e)"
    "ev_origCache x = m_cache s0" "length (x_data (ev_env x)) < 2 ^ 63" "length (x_code (ev_env x)) < 2 ^ 63"
    "\<exists>i. x_schedule (ev_env x) = evmSchedule seal i" "ex_excepted e = ExcNone"
    using r by (auto simp: ready_def)
  have gas: "unat (ex_gas e) \<le> G" using r G by (simp add: ready_def)
  have env: "env_ok (ev_env x) G"
    using x(4-6) G(2) seal_okD(1) [OF seal] by (auto simp: env_ok_def)
  obtain r v where v: "execImpl (W (ev_env x)) (ev_env x) (ex_gas e) (ex_s e) (ev_sub x) = Some (r, v)"
    "world_ok B T (insert (x_myAddress (ev_env x)) A) (v_world v)"
    "\<And>out. r = Inr out \<Longrightarrow> unat (io_gas v) \<le> unat (ex_gas e) \<and> length out < 2 ^ 32"
    using vm_world.execImpl_returns [OF vm [OF x(1)] env x(2) gas, of "ev_sub x"] by blast
  have w: "world_ok B T A (v_world v)" by (rule world_ok_mono [OF v(2)]) auto
  let ?x = "x\<lparr>ev_sub := v_sub v\<rparr>"
  let ?e = "e\<lparr>ex_gas := io_gas v, ex_s := v_world v, ex_ext := Some ?x\<rparr>"
  show ?thesis
  proof (cases r)
    case (Inl err)
    then show ?thesis
      using exec_fail_ok [OF s0 world_okD(1) [OF w], of ?x ?e err] v(1) x(1,3) s0
      by (simp add: exec_go_def Let_def go_ok_def exec_fail_def ext_revert_def)
  next
    case (Inr out)
    then have o: "unat (io_gas v) \<le> unat (ex_gas e)" "length out < 2 ^ 63" using v(3) by fastforce+
    have "go_ok B T A s0 e (exec_deposit ?x out ?e)"
      using exec_deposit_ok [OF s0, of ?e ?x out] w x(3,7) o by (simp add: go_ok_def)
    then show ?thesis
      using Inr v(1) x(1,7) w o by (auto simp: exec_go_def Let_def go_ok_def)
  qed
qed

section \<open>The machine's calls keep the contract\<close>

lemma world_ext_vm_ops:
  assumes "x_myAddress E \<in> A"
  shows "world_ok B T A w \<Longrightarrow> length (x_codeAt (ext_vm_ops E cr ca) w a) < 2 ^ 63"
    and "world_ok B T A w \<Longrightarrow> world_ok B T A (x_setStore (ext_vm_ops E cr ca) k y w)"
    and "world_ok B T A w \<Longrightarrow> world_ok B T A (x_suicide (ext_vm_ops E cr ca) a w)"
  using world_state_code setStorage_ok ext_suicide_ok [OF _ assms, of B T w a]
  by (auto simp: ext_vm_ops_def)

lemma ext_call_ok:
  assumes seal: "seal_ok seal" and G: "G < 2 ^ 45" "unat (cp_gas p) \<le> G" and w: "world_ok B T A s"
    and sender: "senderAddress p \<in> A" and val: "valueTransfer p \<le> state_balance s (senderAddress p)"
    and dat: "length (cp_data p) < 2 ^ 32"
    and vm: "\<And>E'. x_depth E' = x_depth E + 1 \<Longrightarrow> x_caller E' \<in> A
      \<Longrightarrow> vm_world (W E') E' (world_ok B T (insert (x_myAddress E') A)) G"
  shows "\<exists>ok g out w' s'. ext_call W seal E p (s, sub) = Some (ok, g, out, w', s') \<and> unat g \<le> unat (cp_gas p)
    \<and> length out = length (cp_out p) \<and> world_ok B T A w'"
proof -
  let ?e = "new_executive s (x_envInfo E) (x_depth E + 1) None"
  have "\<exists>done e'. exec_call seal p (x_gasPrice E) (x_origin E) ?e = Inr (done, e')
    \<and> ready seal B T A (ex_s ?e) (ex_depth ?e) (cp_gas p) done e' \<and> length (ex_outRef e') = length (cp_out p)
    \<and> \<not> ex_isCreation e'"
    by (rule exec_call_ok [OF seal]) (use w sender val dat in \<open>simp_all add: new_executive_def\<close>)
  then obtain dn e' where e': "exec_call seal p (x_gasPrice E) (x_origin E) ?e = Inr (dn, e')"
    "ready seal B T A s (x_depth E + 1) (cp_gas p) dn e'" "length (ex_outRef e') = length (cp_out p)"
    by (auto simp: new_executive_def)
  show ?thesis
  proof (cases dn)
    case True
    then show ?thesis using e' by (auto simp: ext_call_def Let_def ready_def)
  next
    case False
    have "\<exists>e2. exec_go W e' = Some e2 \<and> go_ok B T A s e' e2"
      using e'(2) False by (intro exec_go_ok [OF seal _ w _ G(2,1)]) (auto intro!: vm simp: ready_def)
    then obtain e2 where "exec_go W e' = Some e2" "go_ok B T A s e' e2" by blast
    then show ?thesis using False e' by (auto simp: ext_call_def Let_def ready_def go_ok_def)
  qed
qed

lemma ext_create_ok:
  assumes seal: "seal_ok seal" and G: "G < 2 ^ 45" "unat gas \<le> G" and w: "world_ok B T A s"
    and sender: "x_myAddress E \<in> A" and val: "endowment \<le> state_balance s (x_myAddress E)"
    and ini: "length ini < 2 ^ 32"
    and vm: "\<And>E'. x_depth E' = x_depth E + 1 \<Longrightarrow> x_caller E' \<in> A
      \<Longrightarrow> vm_world (W E') E' (world_ok B T (insert (x_myAddress E') A)) G"
  shows "\<exists>a g w' s'. ext_create W seal E endowment gas ini (s, sub) = Some (a, g, w', s') \<and> unat g \<le> unat gas
    \<and> world_ok B T A w'"
proof -
  obtain s1 where s1: "noteSending (x_myAddress E) s = Inr s1" "world_ok B T (insert (x_myAddress E) A) s1"
      "state_balance s1 = state_balance s"
    using noteSending_ok [OF w] by blast
  have w1: "world_ok B T A s1" by (rule world_ok_mono [OF s1(2)]) auto
  let ?e = "new_executive s1 (x_envInfo E) (x_depth E + 1) None"
  have "\<exists>done e'. exec_create seal (x_myAddress E) endowment (x_gasPrice E) gas ini (x_origin E) ?e = Inr (done, e')
    \<and> ready seal B T A (ex_s ?e) (ex_depth ?e) gas done e' \<and> ex_isCreation e'"
    by (rule exec_create_ok) (use w1 sender val ini s1(3) in \<open>simp_all add: new_executive_def\<close>)
  then obtain dn e' where e': "exec_create seal (x_myAddress E) endowment (x_gasPrice E) gas ini (x_origin E) ?e = Inr (dn, e')"
    "ready seal B T A s1 (x_depth E + 1) gas dn e'"
    by (auto simp: new_executive_def)
  show ?thesis
  proof (cases dn)
    case True
    then show ?thesis using e' s1(1) by (auto simp: ext_create_def Let_def ready_def)
  next
    case False
    have "\<exists>e2. exec_go W e' = Some e2 \<and> go_ok B T A s1 e' e2"
      using e'(2) False by (intro exec_go_ok [OF seal _ w1 _ G(2,1)]) (auto intro!: vm simp: ready_def)
    then obtain e2 where "exec_go W e' = Some e2" "go_ok B T A s1 e' e2" by blast
    then show ?thesis using False e' s1(1) by (auto simp: ext_create_def Let_def ready_def go_ok_def)
  qed
qed

lemma vm_ops_world:
  assumes "seal_ok seal" and "1024 \<le> x_depth E + n" and "x_myAddress E \<in> A" and "x_caller E \<in> A"
  shows "vm_world (vm_ops seal n E) E (world_ok B T A) G"
  using assms(2-4)
proof (induction n arbitrary: E A)
  case 0
  show ?case
    by (rule vm_world.intro)
      (use 0 in \<open>auto simp: world_ext_vm_ops(2,3) simp del: One_nat_def intro!: world_ext_vm_ops(1) [simplified]\<close>)
next
  case (Suc n)
  have vm: "vm_world (vm_ops seal n E') E' (world_ok B T (insert (x_myAddress E') A)) G"
    if "x_depth E' = x_depth E + 1" "x_caller E' \<in> A" for E'
    using Suc.IH [of E' "insert (x_myAddress E') A"] Suc.prems that by simp
  show ?case
  proof (rule vm_world.intro, unfold vm_ops.simps)
    fix w s and p :: call_params
    assume "env_ok E G" "world_ok B T A w" "unat (cp_gas p) \<le> G" "length (cp_data p) < 2 ^ 32"
      and v: "valueTransfer p \<le> x_balance (ext_vm_ops E (ext_create (vm_ops seal n) seal E) (ext_call (vm_ops seal n) seal E)) w (x_myAddress E)"
      and sd: "senderAddress p = x_myAddress E \<or> senderAddress p = x_caller E \<and> valueTransfer p = 0"
    moreover from v sd have "valueTransfer p \<le> state_balance w (senderAddress p)" by (auto simp: ext_vm_ops_def)
    moreover have "senderAddress p \<in> A" using sd Suc.prems by auto
    ultimately show "\<exists>ok g out w' s'. x_call (ext_vm_ops E (ext_create (vm_ops seal n) seal E) (ext_call (vm_ops seal n) seal E)) p (w, s)
        = Some (ok, g, out, w', s') \<and> unat g \<le> unat (cp_gas p) \<and> length out = length (cp_out p) \<and> world_ok B T A w'"
      using ext_call_ok [OF assms(1) env_okD(2), of E G p B T A w E "vm_ops seal n" s] vm by (simp add: ext_vm_ops_def)
  next
    fix w endowment gas s and ini :: bytes
    assume "env_ok E G" "world_ok B T A w" "unat (gas :: u256) \<le> G" "length ini < 2 ^ 32"
      and "endowment \<le> x_balance (ext_vm_ops E (ext_create (vm_ops seal n) seal E) (ext_call (vm_ops seal n) seal E)) w (x_myAddress E)"
    then show "\<exists>a g w' s'. x_create (ext_vm_ops E (ext_create (vm_ops seal n) seal E) (ext_call (vm_ops seal n) seal E)) endowment gas ini (w, s)
        = Some (a, g, w', s') \<and> unat g \<le> unat gas \<and> world_ok B T A w'"
      using ext_create_ok [OF assms(1) env_okD(2), of E G gas B T A w E endowment ini "vm_ops seal n" s] Suc.prems vm
      by (simp add: ext_vm_ops_def)
  qed (use Suc.prems world_ext_vm_ops [of E A B T] in blast)+
qed

text \<open>The virtual methods of \<^verbatim>\<open>ExtVM\<close> satisfy the contract of the machine.\<close>

definition ext_inv :: "seal_engine \<Rightarrow> nat \<Rightarrow> ext_env \<Rightarrow> state \<Rightarrow> nat \<Rightarrow> address set \<Rightarrow> state \<Rightarrow> bool" where
  "ext_inv seal n E B T A s =
     (seal_ok seal \<and> 1024 \<le> x_depth E + n \<and> x_myAddress E \<in> A \<and> x_caller E \<in> A \<and> world_ok B T A s)"

interpretation ext: vm_world "vm_ops seal n E" E "ext_inv seal n E B T A" G for seal n E B T A G
proof (cases "seal_ok seal \<and> 1024 \<le> x_depth E + n \<and> x_myAddress E \<in> A \<and> x_caller E \<in> A")
  case True
  then have "ext_inv seal n E B T A = world_ok B T A" by (simp add: ext_inv_def fun_eq_iff)
  then show "vm_world (vm_ops seal n E) E (ext_inv seal n E B T A) G" using vm_ops_world True by auto
next
  case False
  then have "ext_inv seal n E B T A = (\<lambda>_. False)" by (auto simp: ext_inv_def fun_eq_iff)
  then show "vm_world (vm_ops seal n E) E (ext_inv seal n E B T A) G" by unfold_locales auto
qed

section \<open>Transactions keep the world\<close>

lemma tx_sender_memo:
  assumes "tx_sender recover t = Inr (a, t')"
  shows "tx_safeSender recover t' = a" and "t_gas t' = t_gas t" and "t_gasPrice t' = t_gasPrice t"
    and "t_value t' = t_value t" and "t_data t' = t_data t" and "t_type t' = t_type t"
    and "t_receiveAddress t' = t_receiveAddress t" and "t_nonce t' = t_nonce t"
proof -
  have t': "t' = t\<lparr>t_sender := a\<rparr>"
    using assms by (auto simp: tx_sender_def Let_def split: if_splits sum.splits)
  have "tx_sender recover t' = Inr (a, t')"
  proof (cases "t_sender t = 0 \<and> a = 0")
    case True
    then have "t' = t" by (simp add: t')
    then show ?thesis using assms by simp
  next
    case False
    then have "a \<noteq> 0" using assms by (auto simp: tx_sender_def split: if_splits)
    then show ?thesis by (simp add: tx_sender_def t')
  qed
  then show "tx_safeSender recover t' = a" by (simp add: tx_safeSender_def)
qed (use assms in \<open>auto simp: tx_sender_def Let_def split: if_splits sum.splits\<close>)

lemma world_ok_limit: "world_ok B T A s \<Longrightarrow> T \<le> T' \<Longrightarrow> T' < 2 ^ 256 \<Longrightarrow> world_ok B T' A s"
  by (auto simp: world_ok_def)

lemma world_ok_kills: "world_ok B T A s \<Longrightarrow> world_ok B T A (fold cache_kill as s)"
  by (induction "as" arbitrary: s) (auto intro: cache_kill_ok)

lemma unat_mult_u256: "unat (a :: u256) * unat b < 2 ^ 256 \<Longrightarrow> unat (a * b) = unat a * unat b"
  by (simp add: unat_word_ariths)

text \<open>The gas that was not used goes back to the sender and the rest to the author, and together
  that is the price the sender paid.\<close>

lemma exec_finalize_ok:
  assumes w: "world_ok B T A (ex_s e)" and gas: "unat (ex_gas e) \<le> unat (t_gas (ex_t e))"
    and cost: "T + unat (t_gas (ex_t e)) * unat (t_gasPrice (ex_t e)) \<le> T'" "T' < 2 ^ 256"
  shows "\<exists>e'. exec_finalize recover e = Inr e' \<and> world_ok B T' {} (ex_s e')
    \<and> unat (ex_gas e) \<le> unat (ex_gas e') \<and> unat (ex_gas e') \<le> unat (t_gas (ex_t e'))
    \<and> ex_t e' = ex_t e \<and> 2 * unat (ex_refunded e') \<le> unat (t_gas (ex_t e)) - unat (ex_gas e)
    \<and> unat (ex_gas e') = unat (ex_gas e) + unat (ex_refunded e')"
proof -
  let ?t = "ex_t e"
  define ext where "ext = map_option (\<lambda>x. x\<lparr>ev_sub := (ev_sub x)\<lparr>refunds := refunds (ev_sub x)
    + word_of_nat (suicideRefundGas (x_schedule (ev_env x))) * word_of_nat (card (suicides (ev_sub x)))\<rparr>\<rparr>) (ex_ext e)"
  define rf where "rf = (case ext of None \<Rightarrow> 0 | Some x \<Rightarrow> min ((t_gas ?t - ex_gas e) div 2) (refunds (ev_sub x)))"
  define g where "g = ex_gas e + rf"
  have "unat (t_gas ?t - ex_gas e) = unat (t_gas ?t) - unat (ex_gas e)"
    using gas by (simp add: unat_sub word_le_nat_alt)
  then have d: "2 * unat ((t_gas ?t - ex_gas e) div 2) \<le> unat (t_gas ?t) - unat (ex_gas e)"
    by (simp add: unat_div)
  have "unat rf \<le> unat ((t_gas ?t - ex_gas e) div 2)"
    unfolding rf_def word_le_nat_alt [symmetric] by (simp split: option.splits)
  with d have rf: "2 * unat rf \<le> unat (t_gas ?t) - unat (ex_gas e)" by linarith
  have g: "unat g = unat (ex_gas e) + unat rf"
    unfolding g_def using rf gas unat_u256_less [of "t_gas ?t"] by (intro unat_add_u256) linarith
  then have g2: "unat g \<le> unat (t_gas ?t)" using rf gas by linarith
  have rest: "unat (t_gas ?t - g) = unat (t_gas ?t) - unat g" using g2 by (simp add: unat_sub word_le_nat_alt)
  let ?p = "unat (t_gasPrice ?t)"
  have le: "unat g * ?p \<le> unat (t_gas ?t) * ?p" "unat (t_gas ?t - g) * ?p \<le> unat (t_gas ?t) * ?p"
    using g2 rest by (auto intro: mult_le_mono1)
  have pay: "unat (g * t_gasPrice ?t) = unat g * ?p" "unat ((t_gas ?t - g) * t_gasPrice ?t) = unat (t_gas ?t - g) * ?p"
    by (rule unat_mult_u256, use cost le in linarith)+
  have "unat g * ?p + unat (t_gas ?t - g) * ?p = unat (t_gas ?t) * ?p"
    unfolding rest add_mult_distrib [symmetric] using g2 by simp
  then have sum: "total_balance (ex_s e) + unat (g * t_gasPrice ?t) + unat ((t_gas ?t - g) * t_gasPrice ?t) \<le> T'"
    using cost(1) world_okD(3) [OF w] unfolding pay by linarith
  have w': "world_ok B T' A (ex_s e)" by (rule world_ok_limit [OF w]) (use cost in linarith)+
  obtain s1 where s1: "addBalance (tx_safeSender recover ?t) (g * t_gasPrice ?t) (ex_s e) = Inr s1"
      "world_ok B T' (insert (tx_safeSender recover ?t) A) s1" "total_balance s1 = total_balance (ex_s e) + unat (g * t_gasPrice ?t)"
    using addBalance_ok [OF w'] sum by (meson add_leE)
  obtain s2 where s2: "addBalance (e_author (ex_envInfo e)) ((t_gas ?t - g) * t_gasPrice ?t) s1 = Inr s2"
      "world_ok B T' (insert (e_author (ex_envInfo e)) (insert (tx_safeSender recover ?t) A)) s2"
    using addBalance_ok [OF s1(2)] sum s1(3) by metis
  have "world_ok B T' {} s2" "world_ok B T' {} (ex_s e)"
    using world_ok_mono [OF s2(2)] world_ok_mono [OF w'] by auto
  note ok = this this [THEN world_ok_kills]
  show ?thesis
    using s1(1) s2(1) ok g g2 rf
    by (auto simp: exec_finalize_def Let_def ext_def [symmetric] rf_def [symmetric] g_def [symmetric] split: option.splits)
qed

lemma exec_call_frame:
  "exec_call seal p gasPrice origin e = Inr (done, e') \<Longrightarrow> ex_t e' = ex_t e \<and> ex_envInfo e' = ex_envInfo e"
  by (auto simp: exec_call_def Let_def res_bind_Inr_iff split: if_splits)

lemma exec_create_frame:
  "exec_create seal sender endowment gasPrice gas ini origin e = Inr (done, e') \<Longrightarrow> ex_t e' = ex_t e \<and> ex_envInfo e' = ex_envInfo e"
  by (auto simp: exec_create_def Let_def res_bind_Inr_iff split: if_splits)

lemma exec_initialize_result:
  assumes "exec_initialize recover seal t e = Inr e'"
  shows "\<exists>sender t'. tx_sender recover t = Inr (sender, t')
    \<and> e' = e\<lparr>ex_t := t', ex_baseGasRequired := tx_gasRequired (evmSchedule seal (ex_envInfo e)) t,
               ex_gasCost := unat (t_gas t) * unat (t_gasPrice t)\<rparr>
    \<and> tx_gasRequired (evmSchedule seal (ex_envInfo e)) t \<le> unat (t_gas t)
    \<and> unat (e_gasUsed (ex_envInfo e)) + unat (t_gas t) \<le> unat (e_gasLimit (ex_envInfo e))
    \<and> t_nonce t = transactionsFrom (ex_s e) sender
    \<and> unat (t_value t) + unat (t_gas t) * unat (t_gasPrice t) \<le> unat (state_balance (ex_s e) sender)"
  using assms by (auto simp: exec_initialize_def Let_def not_less split: if_splits sum.splits)

text \<open>\<^verbatim>\<open>execute\<close> after a successful \<^verbatim>\<open>initialize\<close>: the nonce goes up, the price of all the
  gas is taken, and the call or creation is ready.\<close>

lemma exec_execute_ok:
  assumes seal: "seal_ok seal" and w: "world_ok B T {} s" and T: "T = total_balance s" and dat: "length (t_data t) < 2 ^ 63"
    and i: "exec_initialize recover seal t (new_executive s env 0 res) = Inr e"
  shows "\<exists>done e' s1 sender gas. exec_execute recover seal e = Inr (done, e')
    \<and> unat (t_gas t) * unat (t_gasPrice t) \<le> T
    \<and> ready seal B (T - unat (t_gas t) * unat (t_gasPrice t)) {sender} s1 0 gas done e'
    \<and> world_ok B (T - unat (t_gas t) * unat (t_gasPrice t)) {sender} s1
    \<and> t_gas (ex_t e') = t_gas t \<and> t_gasPrice (ex_t e') = t_gasPrice t
    \<and> unat gas + tx_gasRequired (evmSchedule seal env) t \<le> unat (t_gas t)"
proof -
  define cost where "cost = unat (t_gas t) * unat (t_gasPrice t)"
  define bs where "bs = tx_gasRequired (evmSchedule seal env) t"
  obtain sender t' where t': "tx_sender recover t = Inr (sender, t')"
    and e: "e = (new_executive s env 0 res)\<lparr>ex_t := t', ex_baseGasRequired := bs, ex_gasCost := cost\<rparr>"
    and base: "bs \<le> unat (t_gas t)"
    and bal: "unat (t_value t) + cost \<le> unat (state_balance s sender)"
    using exec_initialize_result [OF i] by (auto simp: new_executive_def cost_def bs_def)
  note m = tx_sender_memo [OF t']
  have le: "cost \<le> T" using bal bal_le_total [of s sender] T by (simp add: state_balance_view)
  obtain s1 where s1: "noteSending sender s = Inr s1" "world_ok B T {sender} s1" "total_balance s1 = T"
      "state_balance s1 = state_balance s" using noteSending_ok [OF w] T by blast
  then obtain x where x: "account_at s1 sender = Some x"
    using frame_account_at [of B "{sender}" s1 sender] by (auto simp: world_ok_frame)
  have bx: "unat (state_balance s sender) = unat (a_balance x)" using s1(4) x by (metis bal_simps(2) state_balance_view)
  then have cx: "int cost \<le> uint (a_balance x)" using bal by (metis add_leE of_nat_mono uint_nat)
  obtain s2 where s2: "subBalance sender (int cost) s1 = Inr s2" "world_ok B T {sender} s2"
      "total_balance s2 + cost = T" "s2 = cache_put sender (account_addBalance (- int cost) x) (fetch sender s1)"
    using subBalance_ok [OF s1(2) x _ cx] s1(3) by auto
  have w2: "world_ok B (T - cost) {sender} s2"
    using s2(2,3) world_okD(2) [OF w] by (auto simp: world_ok_def)
  have "unat (state_balance s2 sender) = unat (a_balance x) - cost"
    using unat_diff_u256 [OF _ cx] by (simp add: s2(4) state_balance_put)
  then have val: "t_value t \<le> state_balance s2 sender"
    using bal bx by (simp add: word_le_nat_alt)
  have "unat (word_of_nat bs :: u256) = bs" using base unat_u256_less [of "t_gas t"] by (intro unat_word_of_nat) simp
  then have gas: "unat (t_gas t - word_of_nat bs) = unat (t_gas t) - bs"
    using base by (simp add: unat_sub word_le_nat_alt)
  define gas' where "gas' = t_gas t - word_of_nat bs"
  let ?e = "e\<lparr>ex_s := s2\<rparr>"
  have e0: "ex_t e = t'" "ex_s e = s" "ex_gasCost e = cost" "ex_baseGasRequired e = bs"
    by (simp_all add: e new_executive_def)
  have e1: "ex_s ?e = s2" "ex_ext ?e = None" "ex_gas ?e = 0" "ex_excepted ?e = ExcNone" "ex_depth ?e = 0" "ex_t ?e = t'"
    by (simp_all add: e new_executive_def)
  let ?p = "\<lparr>senderAddress = sender, codeAddress = t_receiveAddress t, receiveAddress = t_receiveAddress t,
    valueTransfer = t_value t, apparentValue = t_value t, cp_gas = gas', cp_data = t_data t, cp_out = []\<rparr>"
  have "\<exists>done e'. (if isCreation t' then exec_create seal sender (t_value t) (t_gasPrice t) gas' (t_data t) sender ?e
        else exec_call seal ?p (t_gasPrice t) sender ?e) = Inr (done, e')
      \<and> ready seal B (T - cost) {sender} s2 0 gas' done e' \<and> ex_t e' = t'"
  proof (cases "isCreation t'")
    case True
    have "\<exists>done e'. exec_create seal sender (t_value t) (t_gasPrice t) gas' (t_data t) sender ?e = Inr (done, e')
        \<and> ready seal B (T - cost) {sender} (ex_s ?e) (ex_depth ?e) gas' done e' \<and> ex_isCreation e'"
      by (rule exec_create_ok) (use w2 val e1 dat in simp_all)
    then show ?thesis using True e1 exec_create_frame by fastforce
  next
    case False
    have "\<exists>done e'. exec_call seal ?p (t_gasPrice t) sender ?e = Inr (done, e')
        \<and> ready seal B (T - cost) {sender} (ex_s ?e) (ex_depth ?e) (cp_gas ?p) done e' \<and> length (ex_outRef e') = length (cp_out ?p)
        \<and> \<not> ex_isCreation e'"
      by (rule exec_call_ok [OF seal]) (use w2 val e1 dat in simp_all)
    then show ?thesis using False e1 exec_call_frame by fastforce
  qed
  then obtain dn e' where r: "(if isCreation t' then exec_create seal sender (t_value t) (t_gasPrice t) gas' (t_data t) sender ?e
        else exec_call seal ?p (t_gasPrice t) sender ?e) = Inr (dn, e')"
    "ready seal B (T - cost) {sender} s2 0 gas' dn e'" "ex_t e' = t'" by blast
  have "exec_execute recover seal e = Inr (dn, e')"
    using r(1) s1(1) s2(1) m e0 by (cases "isCreation t'") (simp_all add: exec_execute_def Let_def gas'_def [symmetric])
  moreover have "unat gas' + bs \<le> unat (t_gas t)" using gas base by (simp add: gas'_def)
  moreover have "t_gas (ex_t e') = t_gas t" "t_gasPrice (ex_t e') = t_gasPrice t" using m(2,3) r(3) by simp_all
  ultimately show ?thesis
    using r(2) w2 le unfolding cost_def [symmetric] bs_def [symmetric] by blast
qed

lemma run_transaction_ok:
  assumes seal: "seal_ok seal" and w: "world_ok B T {} s" and T: "T = total_balance s" and dat: "length (t_data t) < 2 ^ 63"
    and gas: "unat (t_gas t) < 2 ^ 45"
    and i: "exec_initialize recover seal t (new_executive s env 0 (Some empty_result)) = Inr e"
  shows "\<exists>e'. run_transaction recover seal env t s = Some (Inr e') \<and> world_ok B T {} (ex_s e')
    \<and> unat (exec_gasUsed e') \<le> unat (t_gas t)
    \<and> tx_gasRequired (evmSchedule seal env) t \<le> 2 * unat (exec_gasUsed e')"
proof -
  define cost where "cost = unat (t_gas t) * unat (t_gasPrice t)"
  obtain dn e1 s1 sender g where e1: "exec_execute recover seal e = Inr (dn, e1)" "cost \<le> T"
    "ready seal B (T - cost) {sender} s1 0 g dn e1" "world_ok B (T - cost) {sender} s1"
    "t_gas (ex_t e1) = t_gas t" "t_gasPrice (ex_t e1) = t_gasPrice t"
    "unat g + tx_gasRequired (evmSchedule seal env) t \<le> unat (t_gas t)"
    using exec_execute_ok [OF seal w T dat i] unfolding cost_def by blast
  have "\<exists>e2. (if dn then Some e1 else exec_go (vm_ops seal 1024) e1) = Some e2
      \<and> world_ok B (T - cost) {sender} (ex_s e2) \<and> unat (ex_gas e2) \<le> unat g \<and> ex_t e2 = ex_t e1"
  proof (cases dn)
    case True
    then show ?thesis using e1(3) by (simp add: ready_def)
  next
    case False
    have vm: "vm_world (vm_ops seal 1024 (ev_env x)) (ev_env x) (world_ok B (T - cost) (insert (x_myAddress (ev_env x)) {sender})) (unat g)"
      if "ex_ext e1 = Some x" for x
      using that e1(3) by (intro vm_ops_world [OF seal]) (auto simp: ready_def)
    have "\<exists>e2. exec_go (vm_ops seal 1024) e1 = Some e2 \<and> go_ok B (T - cost) {sender} s1 e1 e2"
      by (rule exec_go_ok [OF seal _ e1(4) vm]) (use e1(3,7) gas False in auto)
    then show ?thesis using False e1(3) by (auto simp: go_ok_def ready_def)
  qed
  then obtain e2 where e2: "(if dn then Some e1 else exec_go (vm_ops seal 1024) e1) = Some e2"
      "world_ok B (T - cost) {sender} (ex_s e2)" "unat (ex_gas e2) \<le> unat g" "ex_t e2 = ex_t e1" by blast
  obtain e3 where e3: "exec_finalize recover e2 = Inr e3" "world_ok B T {} (ex_s e3)"
     "unat (ex_gas e2) \<le> unat (ex_gas e3)" "unat (ex_gas e3) \<le> unat (t_gas (ex_t e3))" "ex_t e3 = ex_t e2"
     "2 * unat (ex_refunded e3) \<le> unat (t_gas (ex_t e2)) - unat (ex_gas e2)"
     "unat (ex_gas e3) = unat (ex_gas e2) + unat (ex_refunded e3)"
    using exec_finalize_ok [OF e2(2), of T recover] e2(3,4) e1(2,5,6,7) world_okD(2) [OF w] by (auto simp: cost_def)
  have used: "unat (exec_gasUsed e3) = unat (t_gas t) - unat (ex_gas e3)"
    using e3(4,5) e2(4) e1(5) by (simp add: exec_gasUsed_def unat_sub word_le_nat_alt)
  have "run_transaction recover seal env t s = Some (Inr e3)"
    using i e1(1) e2(1) e3(1) by (simp add: run_transaction_def)
  moreover have "tx_gasRequired (evmSchedule seal env) t \<le> 2 * unat (exec_gasUsed e3)"
    using used e3(4-7) e2(3,4) e1(5,7) by simp
  ultimately show ?thesis using e3(2) used by auto
qed

lemma sub_add_empty: "sub_add sub sub_empty = sub"
  by (simp add: sub_add_def sub_empty_def)

lemma call_failure:
  assumes seal: "seal_ok seal" and G: "unat (cp_gas p) < 2 ^ 45" and w: "world_ok B T A s"
    and sender: "senderAddress p \<in> A" and val: "valueTransfer p \<le> state_balance s (senderAddress p)"
    and dat: "length (cp_data p) < 2 ^ 32" and depth: "1024 \<le> x_depth E + 1 + n"
  shows "\<exists>ok g out w' sub'. ext_call (vm_ops seal n) seal E p (s, sub) = Some (ok, g, out, w', sub')
    \<and> unat g \<le> unat (cp_gas p) \<and> world_ok B T A w' \<and> (\<not> ok \<longrightarrow> w' = s \<and> sub' = sub \<and> out = cp_out p \<and> g = 0)"
proof -
  let ?e = "new_executive s (x_envInfo E) (x_depth E + 1) None"
  have e: "ex_s ?e = s" "ex_depth ?e = x_depth E + 1" "ex_ext ?e = None" "ex_gas ?e = 0" "ex_excepted ?e = ExcNone"
    by (simp_all add: new_executive_def)
  obtain dn e' where e': "exec_call seal p (x_gasPrice E) (x_origin E) ?e = Inr (dn, e')"
    "ready seal B T A s (x_depth E + 1) (cp_gas p) dn e'"
    using exec_call_ok [OF seal, of B T A ?e p "x_gasPrice E" "x_origin E"] w sender val dat e by auto
  have out: "\<not> dn \<longrightarrow> ex_outRef e' = cp_out p"
    and low: "dn \<Longrightarrow> ex_excepted e' \<noteq> ExcNone \<Longrightarrow> ex_s e' = s \<and> ex_outRef e' = cp_out p \<and> ex_gas e' = 0"
    using e'(1) e by (auto simp: exec_call_def Let_def res_bind_Inr_iff split: if_splits)
  show ?thesis
  proof (cases dn)
    case True
    then show ?thesis using e' low by (auto simp: ext_call_def Let_def ready_def)
  next
    case False
    have vm: "vm_world (vm_ops seal n (ev_env x)) (ev_env x) (world_ok B T (insert (x_myAddress (ev_env x)) A)) (unat (cp_gas p))"
      if "ex_ext e' = Some x" for x
      using that e'(2) depth by (intro vm_ops_world [OF seal]) (auto simp: ready_def)
    have "\<exists>e2. exec_go (vm_ops seal n) e' = Some e2 \<and> go_ok B T A s e' e2"
      by (rule exec_go_ok [OF seal _ w vm]) (use e'(2) G False in auto)
    then obtain e2 where e2: "exec_go (vm_ops seal n) e' = Some e2" "go_ok B T A s e' e2" by blast
    have "accrueSubState e2 sub = sub" if "ex_excepted e2 \<noteq> ExcNone"
      using e2(2) that by (auto simp: go_ok_def accrueSubState_def sub_add_empty split: option.splits)
    then show ?thesis
      using False e' e2 out by (auto simp: ext_call_def Let_def ready_def go_ok_def)
  qed
qed

section \<open>Plain transfers\<close>

lemma hasCode_put:
  "addressHasCode (cache_put a x (fetch a s)) b = (if b = a then isFreshCode x \<or> codeBearing x else addressHasCode s b)"
  by (simp add: view_defs)

lemma addBalance_exact:
  assumes w: "world_ok B T A s" and le: "total_balance s + unat v \<le> T"
  shows "\<exists>s'. addBalance a v s = Inr s' \<and> world_ok B T A s' \<and> total_balance s' = total_balance s + unat v
    \<and> (\<forall>b. unat (state_balance s' b) = unat (state_balance s b) + (if b = a then unat v else 0))"
proof -
  obtain s' where s': "addBalance a v s = Inr s'" "world_ok B T (insert a A) s'" "total_balance s' = total_balance s + unat v"
    using addBalance_ok [OF w le] by blast
  have sb: "state_balance s' = (state_balance s)(a := state_balance s a + v)"
    using addBalance_view [of s a v] world_okD(4) [OF w] s'(1) by auto
  have "unat (state_balance s a + v) = unat (state_balance s a) + unat v"
    using bal_le_total [of s a] le world_okD(2) [OF w] by (intro unat_add_u256) (simp add: state_balance_view)
  moreover have "world_ok B T A s'" by (rule world_ok_mono [OF s'(2)]) auto
  ultimately show ?thesis using s' sb by simp
qed

text \<open>Taking the price of the gas from the sender.\<close>

lemma pay_exact:
  assumes w: "world_ok B T A s" and ex: "account_at s a = Some x" and n: "n \<le> unat (state_balance s a)"
  shows "\<exists>s'. res_bind (noteSending a s) (subBalance a (int n)) = Inr s' \<and> world_ok B T (insert a A) s'
    \<and> total_balance s' + n = total_balance s \<and> addressHasCode s' = addressHasCode s
    \<and> (\<forall>b. unat (state_balance s' b) + (if b = a then n else 0) = unat (state_balance s b))"
proof -
  let ?s1 = "cache_put a (account_incNonce x) (fetch a s)"
  have r1: "noteSending a s = Inr ?s1" using ex by (simp add: noteSending_def)
  have s1: "world_ok B T (insert a A) ?s1" "total_balance ?s1 = total_balance s" "state_balance ?s1 = state_balance s"
    using noteSending_ok [OF w, of a] r1 by auto
  have b: "state_balance s a = a_balance x" using ex by (simp add: view_defs)
  have n': "int n \<le> uint (a_balance x)" using n unfolding b by (metis of_nat_mono uint_nat)
  have x1: "account_at ?s1 a = Some (account_incNonce x)" by simp
  have bx: "a_balance (account_incNonce x) = a_balance x" by (simp add: account_incNonce_def account_changed_def)
  obtain s2 where s2: "subBalance a (int n) ?s1 = Inr s2" "world_ok B T (insert a (insert a A)) s2"
      "total_balance s2 + nat (int n) = total_balance ?s1"
      "s2 = cache_put a (account_addBalance (- int n) (account_incNonce x)) (fetch a ?s1)"
    using subBalance_ok [OF s1(1) x1, of "int n"] n' bx by auto
  have "unat (a_balance x - word_of_int (int n)) = unat (a_balance x) - n" using unat_diff_u256 [OF _ n'] by simp
  then have v: "unat (state_balance s2 c) + (if c = a then n else 0) = unat (state_balance s c)" for c
    using s1(3) n by (auto simp: s2(4) state_balance_put b bx)
  have h: "addressHasCode s2 = addressHasCode s"
  proof
    fix c
    have "isFreshCode (account_addBalance (- int n) (account_incNonce x)) = isFreshCode x"
      "codeBearing (account_addBalance (- int n) (account_incNonce x)) = codeBearing x"
      by (simp_all add: isFreshCode_def codeBearing_def account_incNonce_def account_changed_def)
    then show "addressHasCode s2 c = addressHasCode s c"
      unfolding s2(4) hasCode_put using ex by (simp add: view_defs)
  qed
  show ?thesis using r1 s1(2) s2(1-3) v h by simp
qed

lemma plain_call:
  assumes "\<not> isPrecompiled seal (codeAddress p)" and "\<not> addressHasCode (ex_s e) (codeAddress p)"
    and "transferBalance (senderAddress p) (receiveAddress p) (valueTransfer p) (ex_s e) = Inr s" and "ex_ext e = None"
  shows "exec_call seal p gasPrice origin e =
    Inr (True, e\<lparr>ex_isCreation := False, ex_outRef := cp_out p, ex_gas := cp_gas p, ex_s := s\<rparr>)"
  using assms by (simp add: exec_call_def Let_def)

lemma world_ok_transfer:
  assumes w: "world_ok B T A s" and src: "src \<in> A" and v: "v \<le> state_balance s src"
  shows "\<exists>s'. transferBalance src dst v s = Inr s' \<and> world_ok B T A s' \<and> total_balance s' = total_balance s
    \<and> (\<forall>a. unat (state_balance s' a) + (if a = src then unat v else 0)
            = unat (state_balance s a) + (if a = dst then unat v else 0))"
proof -
  have ex: "account_at s src \<noteq> None" using w src frame_account_at by (auto simp: world_ok_frame)
  have t: "total_balance s < 2 ^ 256" "m_accountStartNonce s \<noteq> Invalid256"
    using world_okD [OF w] by auto
  obtain s' where s': "transferBalance src dst v s = Inr s'" "world_ok B T (insert dst A) s'"
    using transferBalance_ok [OF w ex, of v dst] v by auto
  have "world_ok B T A s'" by (rule world_ok_mono [OF s'(2)]) auto
  then show ?thesis using transfer_exact [OF t ex v, of dst] s'(1) by auto
qed

text \<open>Without a machine \<^verbatim>\<open>finalize\<close> gives the unused gas back and pays the rest to the author.\<close>

lemma plain_finalize:
  assumes w: "world_ok B T A (ex_s e)" and x: "ex_ext e = None" and t: "t_type (ex_t e) \<noteq> NullTransaction"
    and gas: "unat (ex_gas e) + used = unat (t_gas (ex_t e))"
    and le: "total_balance (ex_s e) + unat (t_gas (ex_t e)) * unat (t_gasPrice (ex_t e)) \<le> T"
  shows "\<exists>e'. exec_finalize recover e = Inr e' \<and> unat (exec_gasUsed e') = used \<and> ex_excepted e' = ex_excepted e
    \<and> (\<forall>a. unat (state_balance (ex_s e') a) = unat (state_balance (ex_s e) a)
         + (if a = tx_safeSender recover (ex_t e) then unat (ex_gas e) * unat (t_gasPrice (ex_t e)) else 0)
         + (if a = e_author (ex_envInfo e) then used * unat (t_gasPrice (ex_t e)) else 0))"
proof -
  let ?t = "ex_t e" and ?p = "unat (t_gasPrice (ex_t e))"
  have rest: "unat (t_gas ?t - ex_gas e) = used" using gas by (simp add: unat_sub word_le_nat_alt)
  have T: "T < 2 ^ 256" by (rule world_okD(2) [OF w])
  have sum: "unat (ex_gas e) * ?p + used * ?p = unat (t_gas ?t) * ?p"
    unfolding gas [symmetric] by (rule add_mult_distrib [symmetric])
  have pay: "unat (ex_gas e * t_gasPrice ?t) = unat (ex_gas e) * ?p" "unat ((t_gas ?t - ex_gas e) * t_gasPrice ?t) = used * ?p"
    using unat_mult_u256 [of "ex_gas e" "t_gasPrice ?t"] unat_mult_u256 [of "t_gas ?t - ex_gas e" "t_gasPrice ?t"]
      sum le T rest by auto
  obtain s1 where s1: "addBalance (tx_safeSender recover ?t) (ex_gas e * t_gasPrice ?t) (ex_s e) = Inr s1" "world_ok B T A s1"
      "total_balance s1 = total_balance (ex_s e) + unat (ex_gas e) * ?p"
      "\<forall>b. unat (state_balance s1 b) = unat (state_balance (ex_s e) b) + (if b = tx_safeSender recover ?t then unat (ex_gas e) * ?p else 0)"
    using addBalance_exact [OF w, of "ex_gas e * t_gasPrice ?t" "tx_safeSender recover ?t"] sum le unfolding pay by auto
  obtain s2 where s2: "addBalance (e_author (ex_envInfo e)) ((t_gas ?t - ex_gas e) * t_gasPrice ?t) s1 = Inr s2"
      "\<forall>b. unat (state_balance s2 b) = unat (state_balance s1 b) + (if b = e_author (ex_envInfo e) then used * ?p else 0)"
    using addBalance_exact [OF s1(2), of "(t_gas ?t - ex_gas e) * t_gasPrice ?t" "e_author (ex_envInfo e)"] sum le s1(3)
    unfolding pay by auto
  show ?thesis
    using s1(1,4) s2 x t rest by (auto simp: exec_finalize_def Let_def exec_gasUsed_def)
qed

section \<open>An example\<close>

text \<open>An engine with one precompiled contract, at 9, a block with a limit of a million, and two transactions of
  account 1: it sends 30 to account 2, or 1000, which it does not have.\<close>

definition plain_seal :: seal_engine where
  "plain_seal =
     \<lparr>isPrecompiled = (\<lambda>a. a = 9), costOfPrecompiled = (\<lambda>_ _. 100), executePrecompiled = (\<lambda>_ _ out. out),
      evmSchedule = (\<lambda>_. DefaultSchedule)\<rparr>"

definition plain_env :: env_info where
  "plain_env =
     \<lparr>e_number = 1, e_author = 3, e_timestamp = 0, e_difficulty = 0, e_gasLimit = 1000000, e_lastHashes = [], e_gasUsed = 0\<rparr>"

definition plain_tx :: "u256 \<Rightarrow> transaction" where
  "plain_tx v = (new_message_call v 0 21000 2 [] 0)\<lparr>t_sender := 1\<rparr>"

lemma plain_seal_ok: "seal_ok plain_seal"
  by (auto simp: seal_ok_def plain_seal_def DefaultSchedule_def)

lemma one_account_good:
  "total_balance one_account < 2 ^ 256" "m_accountStartNonce one_account \<noteq> Invalid256" "code_sizes one_account"
  "state_balance one_account a = (if a = 1 then 100 else 0)" "transactionsFrom one_account 1 = 0"
  "addressInUse one_account 1" "\<not> addressHasCode one_account 2"
  by (simp_all add: one_account_total)
    (auto simp: one_account_def Invalid256_def code_sizes_def account_at_def view_defs account_plain_def)

lemma plain_tx_fields:
  "t_gas (plain_tx v) = 21000" "t_data (plain_tx v) = []" "t_gasPrice (plain_tx v) = 0" "t_value (plain_tx v) = v"
  "t_type (plain_tx v) = MessageCall" "t_nonce (plain_tx v) = 0" "t_receiveAddress (plain_tx v) = 2"
  "tx_sender rec (plain_tx v) = Inr (1, plain_tx v)"
  "tx_gasRequired (evmSchedule plain_seal env) (plain_tx v) = 21000"
  by (simp_all add: plain_tx_def new_message_call_def null_transaction_def tx_sender_def tx_gasRequired_def
      gasRequired_def plain_seal_def DefaultSchedule_def EVMSchedule_def)

lemma plain_initialize:
  "exec_initialize rec plain_seal (plain_tx v) (new_executive one_account plain_env 0 res) =
    (if unat v \<le> 100 then Inr ((new_executive one_account plain_env 0 res)\<lparr>ex_t := plain_tx v, ex_baseGasRequired := 21000, ex_gasCost := 0\<rparr>)
     else Inl (ExecState NotEnoughCash))"
  by (simp add: exec_initialize_def Let_def new_executive_def plain_tx_fields one_account_good plain_env_def)

text \<open>A richer account 1, and a transaction with a gas price and more gas than it needs.\<close>

definition rich_account :: state where
  "rich_account = cache_put 1 (account_plain 0 200000 Changed) one_account"

definition priced_tx :: transaction where
  "priced_tx = (new_message_call 30 3 30000 2 [] 0)\<lparr>t_sender := 1\<rparr>"

lemma rich_account_good:
  "total_balance rich_account < 2 ^ 256" "m_accountStartNonce rich_account \<noteq> Invalid256" "code_sizes rich_account"
  "state_balance rich_account a = (if a = 1 then 200000 else 0)" "transactionsFrom rich_account 1 = 0"
  "addressInUse rich_account 1" "\<not> addressHasCode rich_account 2"
proof -
  have "total_balance rich_account + 100 = 100 + 200000"
    using total_cache_put [of 1 "account_plain 0 200000 Changed" one_account]
    by (simp add: rich_account_def one_account_total one_account_at bal_def account_plain_def)
  then show "total_balance rich_account < 2 ^ 256" by simp
qed (auto simp: rich_account_def one_account_def cache_put_def Invalid256_def code_sizes_def account_at_def view_defs
    account_plain_def account_dead_def)

lemma priced_tx_fields:
  "t_gas priced_tx = 30000" "t_data priced_tx = []" "t_gasPrice priced_tx = 3" "t_value priced_tx = 30"
  "t_type priced_tx = MessageCall" "t_nonce priced_tx = 0" "t_receiveAddress priced_tx = 2"
  "tx_sender rec priced_tx = Inr (1, priced_tx)"
  "tx_gasRequired (evmSchedule plain_seal env) priced_tx = 21000"
  by (simp_all add: priced_tx_def new_message_call_def null_transaction_def tx_sender_def tx_gasRequired_def
      gasRequired_def plain_seal_def DefaultSchedule_def EVMSchedule_def)

section \<open>Properties\<close>

text \<open>C14: transactions complete.  On a state whose balances sum up to less than 2^256, whose start nonce is
  not the sentinel \<^verbatim>\<open>Invalid256\<close> and whose codes are shorter than 2^63 bytes, with gas below
  2^45 and data below 2^63 bytes, on an engine with the built-in schedules whose precompiled contracts keep the
  size of the output, \<^verbatim>\<open>initialize\<close>, \<^verbatim>\<open>execute\<close>, \<^verbatim>\<open>go\<close> and \<^verbatim>\<open>finalize\<close> return, however deep
  the calls and creations nest; the only exceptions are those of \<^verbatim>\<open>initialize\<close>.  When the
  transaction runs, the sum of all balances does not grow, nothing below the cache changes, and the gas
  used is at most the gas bought and at least half of the intrinsic gas.\<close>

theorem transaction_completes:
  assumes "seal_ok seal" and "total_balance s < 2 ^ 256" and "m_accountStartNonce s \<noteq> Invalid256" and "code_sizes s"
    and "unat (t_gas t) < 2 ^ 45" and "length (t_data t) < 2 ^ 63"
  shows "\<exists>r. run_transaction recover seal env t s = Some r \<and>
    (case r of
       Inl err \<Rightarrow> exec_initialize recover seal t (new_executive s env 0 (Some empty_result)) = Inl err
     | Inr e \<Rightarrow> total_balance (ex_s e) \<le> total_balance s \<and> base (ex_s e) = base s
           \<and> unat (exec_gasUsed e) \<le> unat (t_gas t)
           \<and> tx_gasRequired (evmSchedule seal env) t \<le> 2 * unat (exec_gasUsed e))"
proof (cases "exec_initialize recover seal t (new_executive s env 0 (Some empty_result))")
  case (Inl err)
  then show ?thesis by (simp add: run_transaction_def)
next
  case (Inr e)
  have w: "world_ok (base s) (total_balance s) {} s" using assms by (simp add: world_ok_def)
  show ?thesis
    using run_transaction_ok [OF assms(1) w HOL.refl assms(6,5) Inr] world_okD(1,3) by fastforce
qed

theorem transaction_completes_witness:
  "(\<exists>e. run_transaction (\<lambda>_ _. []) plain_seal plain_env (plain_tx 30) one_account = Some (Inr e)
      \<and> total_balance (ex_s e) \<le> 100 \<and> unat (exec_gasUsed e) \<le> 21000 \<and> 21000 \<le> 2 * unat (exec_gasUsed e))
   \<and> run_transaction (\<lambda>_ _. []) plain_seal plain_env (plain_tx 1000) one_account = Some (Inl (ExecState NotEnoughCash))"
proof -
  note c = transaction_completes [OF plain_seal_ok one_account_good(1-3), of _ "\<lambda>_ _. []" plain_env]
  obtain r where r: "run_transaction (\<lambda>_ _. []) plain_seal plain_env (plain_tx 30) one_account = Some r"
      and ok: "case r of Inl err \<Rightarrow> exec_initialize (\<lambda>_ _. []) plain_seal (plain_tx 30)
            (new_executive one_account plain_env 0 (Some empty_result)) = Inl err
        | Inr e \<Rightarrow> total_balance (ex_s e) \<le> total_balance one_account \<and> base (ex_s e) = base one_account
            \<and> unat (exec_gasUsed e) \<le> unat (t_gas (plain_tx 30))
            \<and> tx_gasRequired (evmSchedule plain_seal plain_env) (plain_tx 30) \<le> 2 * unat (exec_gasUsed e)"
    using c [of "plain_tx 30"] plain_tx_fields(1,2) [of 30] by fastforce
  from ok have "\<exists>e. r = Inr e \<and> total_balance (ex_s e) \<le> 100 \<and> unat (exec_gasUsed e) \<le> 21000
      \<and> 21000 \<le> 2 * unat (exec_gasUsed e)"
    by (cases r) (simp_all add: plain_initialize plain_tx_fields one_account_total)
  moreover have "run_transaction (\<lambda>_ _. []) plain_seal plain_env (plain_tx 1000) one_account = Some (Inl (ExecState NotEnoughCash))"
    by (simp add: run_transaction_def plain_initialize)
  ultimately show ?thesis using r by auto
qed

text \<open>C16: plain transfers.  A message call that \<^verbatim>\<open>initialize\<close> accepts, from an account that exists
  to an address that has no code and is not a precompiled contract (one costs gas of its own and may fail), succeeds
  and uses exactly the intrinsic gas: the sender pays the value and the fee, the intrinsic gas at the gas price, the
  receiver gets the value, the author gets the fee, and no other balance changes.  The balances of the state sum up to
  less than 2^256, its start nonce is not the sentinel \<^verbatim>\<open>Invalid256\<close> and its codes are shorter than
  2^63 bytes.\<close>

theorem plain_transfer:
  assumes total: "total_balance s < 2 ^ 256" and nonce: "m_accountStartNonce s \<noteq> Invalid256" and code: "code_sizes s"
    and call: "t_type t = MessageCall" and sender: "tx_sender recover t = Inr (sender, t')" and ex: "addressInUse s sender"
    and pre: "\<not> isPrecompiled seal (t_receiveAddress t)" and dst: "\<not> addressHasCode s (t_receiveAddress t)"
    and i: "exec_initialize recover seal t (new_executive s env 0 (Some empty_result)) = Inr e"
  shows "\<exists>e'. run_transaction recover seal env t s = Some (Inr e') \<and> ex_excepted e' = ExcNone
    \<and> unat (exec_gasUsed e') = tx_gasRequired (evmSchedule seal env) t
    \<and> (let fee = tx_gasRequired (evmSchedule seal env) t * unat (t_gasPrice t) in
       \<forall>a. unat (state_balance (ex_s e') a) + (if a = sender then unat (t_value t) + fee else 0)
          = unat (state_balance s a) + (if a = t_receiveAddress t then unat (t_value t) else 0)
            + (if a = e_author env then fee else 0))"
proof -
  define bs where "bs = tx_gasRequired (evmSchedule seal env) t"
  define cost where "cost = unat (t_gas t) * unat (t_gasPrice t)"
  define gas where "gas = t_gas t - word_of_nat bs"
  have w: "world_ok (base s) (total_balance s) {} s" using total nonce code by (simp add: world_ok_def)
  note m = tx_sender_memo [OF sender]
  have e: "e = (new_executive s env 0 (Some empty_result))\<lparr>ex_t := t', ex_baseGasRequired := bs, ex_gasCost := cost\<rparr>"
    and fit: "bs \<le> unat (t_gas t)" "unat (t_value t) + cost \<le> unat (state_balance s sender)"
    using exec_initialize_result [OF i] sender by (auto simp: new_executive_def cost_def bs_def)
  obtain x where x: "account_at s sender = Some x" using ex by (auto simp: view_defs)
  obtain s1 where s1: "res_bind (noteSending sender s) (subBalance sender (int cost)) = Inr s1"
      "world_ok (base s) (total_balance s) {sender} s1" "total_balance s1 + cost = total_balance s"
      "addressHasCode s1 = addressHasCode s"
      "\<forall>b. unat (state_balance s1 b) + (if b = sender then cost else 0) = unat (state_balance s b)"
    using pay_exact [OF w x, of cost] fit by auto
  have "t_value t \<le> state_balance s1 sender" using fit(2) spec [OF s1(5), of sender] by (simp add: word_le_nat_alt)
  then obtain s2 where s2: "transferBalance sender (t_receiveAddress t) (t_value t) s1 = Inr s2"
      "world_ok (base s) (total_balance s) {sender} s2" "total_balance s2 = total_balance s1"
      "\<forall>a. unat (state_balance s2 a) + (if a = sender then unat (t_value t) else 0)
         = unat (state_balance s1 a) + (if a = t_receiveAddress t then unat (t_value t) else 0)"
    using world_ok_transfer [OF s1(2), of sender "t_value t" "t_receiveAddress t"] by auto
  let ?e1 = "e\<lparr>ex_s := s2, ex_isCreation := False, ex_outRef := [], ex_gas := gas\<rparr>"
  have "exec_execute recover seal e = Inr (True, ?e1)"
    using s1(1,4) s2(1) m pre dst call
    by (auto simp: exec_execute_def e new_executive_def res_bind_Inr_iff isCreation_def plain_call Let_def gas_def)
  moreover
  have "unat (word_of_nat bs :: u256) = bs" using fit(1) unat_u256_less [of "t_gas t"] by (intro unat_word_of_nat) simp
  then have g: "unat gas + bs = unat (t_gas t)" using fit(1) by (simp add: gas_def unat_sub word_le_nat_alt)
  obtain e' where e': "exec_finalize recover ?e1 = Inr e'" "unat (exec_gasUsed e') = bs" "ex_excepted e' = ExcNone"
    "\<forall>a. unat (state_balance (ex_s e') a) = unat (state_balance s2 a)
      + (if a = sender then unat gas * unat (t_gasPrice t) else 0) + (if a = e_author env then bs * unat (t_gasPrice t) else 0)"
    using plain_finalize [of "base s" "total_balance s" "{sender}" ?e1 bs recover] s2(2,3) s1(3) m call g
    by (auto simp: e new_executive_def cost_def)
  moreover have "cost = unat gas * unat (t_gasPrice t) + bs * unat (t_gasPrice t)"
    unfolding cost_def g [symmetric] by (rule add_mult_distrib)
  then have "unat (state_balance (ex_s e') a) + (if a = sender then unat (t_value t) + bs * unat (t_gasPrice t) else 0)
      = unat (state_balance s a) + (if a = t_receiveAddress t then unat (t_value t) else 0)
        + (if a = e_author env then bs * unat (t_gasPrice t) else 0)" for a
    using spec [OF e'(4), of a] spec [OF s2(4), of a] spec [OF s1(5), of a] by (auto split: if_splits)
  ultimately show ?thesis
    using i unfolding bs_def [symmetric] Let_def by (auto simp: run_transaction_def)
qed

theorem plain_transfer_witness:
  "\<exists>e. run_transaction (\<lambda>_ _. []) plain_seal plain_env priced_tx rich_account = Some (Inr e)
     \<and> ex_excepted e = ExcNone \<and> unat (exec_gasUsed e) = 21000
     \<and> unat (state_balance (ex_s e) 1) = 200000 - 30 - 21000 * 3 \<and> unat (state_balance (ex_s e) 2) = 30
     \<and> unat (state_balance (ex_s e) 3) = 21000 * 3"
proof -
  obtain e0 where i: "exec_initialize (\<lambda>_ _. []) plain_seal priced_tx (new_executive rich_account plain_env 0 (Some empty_result)) = Inr e0"
    by (simp add: exec_initialize_def Let_def new_executive_def priced_tx_fields rich_account_good plain_env_def)
  have "\<not> isPrecompiled plain_seal (t_receiveAddress priced_tx)" "\<not> addressHasCode rich_account (t_receiveAddress priced_tx)"
    by (simp_all add: priced_tx_fields rich_account_good(7)) (simp add: plain_seal_def)
  from plain_transfer [OF rich_account_good(1-3) priced_tx_fields(5,8) rich_account_good(6) this i]
  obtain e where e: "run_transaction (\<lambda>_ _. []) plain_seal plain_env priced_tx rich_account = Some (Inr e)"
     "ex_excepted e = ExcNone" "unat (exec_gasUsed e) = 21000"
     "\<forall>a. unat (state_balance (ex_s e) a) + (if a = 1 then 63030 else 0)
        = unat (state_balance rich_account a) + (if a = 2 then 30 else 0) + (if a = 3 then 63000 else 0)"
    by (auto simp: priced_tx_fields plain_env_def Let_def cong: if_cong)
  show ?thesis
    using e(1-3) spec [OF e(4), of 1] spec [OF e(4), of 2] spec [OF e(4), of 3] by (simp add: rich_account_good)
qed

text \<open>C15: a failed call changes nothing that can be read.  A message call that the machine makes returns with at most
  the gas it was given and without a larger sum of balances; when it reports failure (an exception in the callee at any
  depth below it, or too little gas for a precompiled contract), every account reads as before the call (its
  existence, balance, nonce, storage, code and whether it has code), the tries, codes and touched accounts under the
  cache are the same, the sub-state and the output buffer are what they were, and the gas given to it is gone.
  Nothing is said of the cache: entries that reads of the source add to it may stay.  Named conditions: the gas of the
  call is below 2^45, the balances sum up to less than 2^256, the start nonce is not the sentinel, codes are shorter
  than 2^63 bytes, the sender is in the cache and has the value transferred (\<^verbatim>\<open>VM\<close> and
  \<^verbatim>\<open>ExtVM\<close> ensure both), the data is shorter than 2^32 bytes, the engine has the built-in schedules
  and its precompiled contracts keep the size of the output, and the nesting still allowed reaches the depth limit.\<close>

theorem failed_call_reverts:
  assumes "seal_ok seal" and "unat (cp_gas p) < 2 ^ 45" and "total_balance s < 2 ^ 256"
    and "m_accountStartNonce s \<noteq> Invalid256" and "code_sizes s"
    and "m_cache s (senderAddress p) \<noteq> None" and "valueTransfer p \<le> state_balance s (senderAddress p)"
    and "length (cp_data p) < 2 ^ 32" and "1024 \<le> x_depth E + 1 + n"
  shows "\<exists>ok g out w' sub'. ext_call (vm_ops seal n) seal E p (s, sub) = Some (ok, g, out, w', sub')
    \<and> unat g \<le> unat (cp_gas p) \<and> total_balance w' \<le> total_balance s
    \<and> (\<not> ok \<longrightarrow> same_view w' s \<and> base w' = base s \<and> sub' = sub \<and> out = cp_out p \<and> g = 0)"
proof -
  have "world_ok (base s) (total_balance s) {senderAddress p} s" using assms by (simp add: world_ok_def)
  from call_failure [OF assms(1,2) this _ assms(7-9)] show ?thesis
    using world_okD(3) by (fastforce simp: same_view_def)
qed

text \<open>A call that gives a precompiled contract less gas than it costs.\<close>

definition low_gas_call :: call_params where
  "low_gas_call =
     \<lparr>senderAddress = 1, codeAddress = 9, receiveAddress = 9, valueTransfer = 5, apparentValue = 5, cp_gas = 50,
      cp_data = [], cp_out = [7]\<rparr>"

theorem failed_call_reverts_witness:
  "\<exists>w'. ext_call (vm_ops plain_seal 1023) plain_seal (null_env []) low_gas_call (one_account, sub_empty)
     = Some (False, 0, [7], w', sub_empty)
    \<and> state_balance w' 1 = 100 \<and> state_balance w' 9 = 0 \<and> \<not> addressInUse w' 9"
proof -
  have p: "unat (cp_gas low_gas_call) < 2 ^ 45" "m_cache one_account (senderAddress low_gas_call) \<noteq> None"
    "valueTransfer low_gas_call \<le> state_balance one_account (senderAddress low_gas_call)" "length (cp_data low_gas_call) < 2 ^ 32"
    "1024 \<le> x_depth (null_env []) + 1 + 1023" "cp_out low_gas_call = [7]"
    using one_account_good(4) [of 1] by (simp_all add: low_gas_call_def null_env_def) (simp add: one_account_def)
  obtain ok g out w' sub' where r: "ext_call (vm_ops plain_seal 1023) plain_seal (null_env []) low_gas_call (one_account, sub_empty)
        = Some (ok, g, out, w', sub')" "\<not> ok \<longrightarrow> same_view w' one_account \<and> sub' = sub_empty \<and> out = [7] \<and> g = 0"
    using failed_call_reverts [OF plain_seal_ok p(1) one_account_good(1-3) p(2-5), of sub_empty] unfolding p(6) by blast
  have "\<not> ok"
    using r(1) by (simp add: ext_call_def exec_call_def low_gas_call_def plain_seal_def new_executive_def Let_def)
  moreover have "\<not> addressInUse one_account 9" by (simp add: view_defs one_account_at)
  ultimately show ?thesis using r by (auto simp: same_view_def one_account_good(4))
qed

end
