(* ===== verification/Trie_Db.thy ===== *)
theory Trie_Db
  imports Hex_Prefix Memory_Db Rlp_Records Sha3
begin

text \<open>
  \<^verbatim>\<open>libdevcore/TrieDB.h\<close>: the Merkle-Patricia trie \<^verbatim>\<open>GenericTrieDB<DB>\<close> on
  the RLP bytes of its nodes, with its hashed and key-remembering variants.  An \<^verbatim>\<open>RLP\<close>
  object is the byte string it refers to; a node of 32 bytes or more is stored in the database under
  its hash, a shorter one is written in place.  The template parameter \<^verbatim>\<open>DB\<close> is a record of
  the methods the class calls.  The recursion follows hashes through the database, so it has fuel;
  \<open>key_fuel\<close> is enough for every well-formed trie (\<open>Trie_Correct\<close>).
\<close>

section \<open>The database\<close>

record 'd node_ops =
  nd_lookup :: "'d \<Rightarrow> h256 \<Rightarrow> bytes"
  nd_exists :: "'d \<Rightarrow> h256 \<Rightarrow> bool"
  nd_insert :: "h256 \<Rightarrow> bytes \<Rightarrow> 'd \<Rightarrow> 'd"
  nd_kill :: "h256 \<Rightarrow> 'd \<Rightarrow> 'd"

definition mdb_ops :: "memory_db node_ops" where
  "mdb_ops =
     \<lparr>nd_lookup = mdb_lookup, nd_exists = mdb_exists, nd_insert = mdb_insert, nd_kill = (\<lambda>h m. snd (mdb_kill h m))\<rparr>"

definition odb_ops :: "'l ldb \<Rightarrow> 'l overlay_db node_ops" where
  "odb_ops L =
     \<lparr>nd_lookup = odb_lookup L, nd_exists = odb_exists L, nd_insert = odb_insert, nd_kill = odb_kill\<rparr>"

datatype trie_error = TrieRLP rlp_error | RootNotFound | BadRoot | TrieAssert | TrieOutOfRange | TrieFuel

definition trie_rlp :: "rlp_error + 'a \<Rightarrow> trie_error + 'a" where
  "trie_rlp m = (case m of Inl e \<Rightarrow> Inl (TrieRLP e) | Inr x \<Rightarrow> Inr x)"

definition RLPNull :: bytes where "RLPNull = [0x80]"

definition c_shaNull :: h256 where "c_shaNull = sha3 RLPNull"

section \<open>Nodes\<close>

definition forceInsertNode :: "'d node_ops \<Rightarrow> bytes \<Rightarrow> 'd \<Rightarrow> h256 \<times> 'd" where
  "forceInsertNode D v d = (sha3 v, nd_insert D (sha3 v) v d)"

definition killNode_hash :: "'d node_ops \<Rightarrow> bytes \<Rightarrow> h256 \<Rightarrow> 'd \<Rightarrow> 'd" where
  "killNode_hash D b h d = (if length b \<ge> 32 then nd_kill D h d else d)"

definition killNode :: "'d node_ops \<Rightarrow> bytes \<Rightarrow> 'd \<Rightarrow> 'd" where
  "killNode D b d = (if length b \<ge> 32 then nd_kill D (sha3 b) d else d)"

text \<open>\<^verbatim>\<open>toHash<h256>()\<close>, and \<^verbatim>\<open>RLP(node(h))\<close>.\<close>

definition rlp_h256 :: "bytes \<Rightarrow> trie_error + h256" where
  "rlp_h256 r = trie_rlp (res_bind (toHash 32 r Strict) (\<lambda>b. Inr (fromBigEndian b)))"

definition node_rlp :: "'d node_ops \<Rightarrow> 'd \<Rightarrow> h256 \<Rightarrow> trie_error + bytes" where
  "node_rlp D d h = trie_rlp (rlp_new (nd_lookup D d h) VeryStrict)"

text \<open>A child: in place if it is a list, behind a hash otherwise.\<close>

definition child_rlp :: "'d node_ops \<Rightarrow> 'd \<Rightarrow> bytes \<Rightarrow> trie_error + bytes" where
  "child_rlp D d r = (if isList r then Inr r else res_bind (rlp_h256 r) (node_rlp D d))"

definition deref :: "'d node_ops \<Rightarrow> 'd \<Rightarrow> bytes \<Rightarrow> trie_error + bytes" where
  "deref D d r = (if isList r then Inr r else res_bind (rlp_h256 r) (\<lambda>h. Inr (nd_lookup D d h)))"

definition item :: "bytes \<Rightarrow> nat \<Rightarrow> trie_error + bytes" where
  "item r i = trie_rlp (rlp_nth r i)"

definition node_count :: "bytes \<Rightarrow> trie_error + nat" where
  "node_count r =
     res_bind (trie_rlp (itemCount r)) (\<lambda>n. res_bind (guard (isList r \<and> (n = 2 \<or> n = 17)) TrieAssert) (\<lambda>_. Inr n))"

fun res_map :: "('a \<Rightarrow> 'e + 'b) \<Rightarrow> 'a list \<Rightarrow> 'e + 'b list" where
  "res_map f [] = Inr []"
| "res_map f (x # xs) = res_bind (f x) (\<lambda>y. res_bind (res_map f xs) (\<lambda>ys. Inr (y # ys)))"

definition copies :: "bytes list \<Rightarrow> (rlp_stream \<Rightarrow> rlp_error + rlp_stream) list" where
  "copies rs = map (\<lambda>r. appendRaw r 1) rs"

definition out_list :: "(rlp_stream \<Rightarrow> rlp_error + rlp_stream) list \<Rightarrow> trie_error + bytes" where
  "out_list fs = trie_rlp (rlpList fs)"

text \<open>\<^verbatim>\<open>streamNode\<close>: what it appends to the stream, and the database.\<close>

definition streamNode :: "'d node_ops \<Rightarrow> bytes \<Rightarrow> 'd \<Rightarrow> (rlp_stream \<Rightarrow> rlp_error + rlp_stream) \<times> 'd" where
  "streamNode D b d =
     (if length b < 32 then (appendRaw b 1, d)
      else let (h, d') = forceInsertNode D b d in (append_bytes (toBigEndian 32 (unat h)) False, d'))"

section \<open>Lookup\<close>

primrec atAux :: "'d node_ops \<Rightarrow> 'd \<Rightarrow> nat \<Rightarrow> bytes \<Rightarrow> nibble_slice \<Rightarrow> trie_error + bytes" where
  "atAux D d 0 here key = Inl TrieFuel"
| "atAux D d (Suc n) here key =
     (if isEmpty here \<or> isNull here then Inr []
      else
        res_bind (node_count here) (\<lambda>cnt.
        if cnt = 2 then
          res_bind (trie_rlp (keyOf_rlp here)) (\<lambda>k.
          res_bind (trie_rlp (isLeaf here)) (\<lambda>leaf.
            if slice_eq key k \<and> leaf then
              res_bind (item here 1) (\<lambda>r. trie_rlp (toBytes r LaissezFaire))
            else if slice_contains key k \<and> \<not> leaf then
              res_bind (item here 1) (\<lambda>r.
              res_bind (child_rlp D d r) (\<lambda>c. atAux D d n c (slice_mid key (slice_size k))))
            else Inr []))
        else if slice_size key = 0 then
          res_bind (item here 16) (\<lambda>r. trie_rlp (toBytes r LaissezFaire))
        else
          res_bind (item here (unat (slice_at key 0))) (\<lambda>r.
            if isEmpty r then Inr []
            else res_bind (child_rlp D d r) (\<lambda>c. atAux D d n c (slice_mid key 1)))))"

section \<open>Insertion\<close>

definition place :: "'d node_ops \<Rightarrow> bytes \<Rightarrow> nibble_slice \<Rightarrow> bytes \<Rightarrow> 'd \<Rightarrow> trie_error + bytes \<times> 'd" where
  "place D orig k s d =
     (let d' = killNode D orig d; ret = (\<lambda>fs. res_bind (out_list fs) (\<lambda>b. Inr (b, d'))) in
      if isEmpty orig then ret [append_bytes (hexPrefixEncode_slice k True 0 (- 1)) False, append_bytes s False]
      else
        res_bind (node_count orig) (\<lambda>cnt.
          if cnt = 2 then res_bind (item orig 0) (\<lambda>r. ret [appendRaw r 1, append_bytes s False])
          else res_bind (res_map (item orig) [0..<16]) (\<lambda>rs. ret (copies rs @ [append_bytes s False]))))"

definition cleve :: "'d node_ops \<Rightarrow> bytes \<Rightarrow> nat \<Rightarrow> 'd \<Rightarrow> trie_error + bytes \<times> 'd" where
  "cleve D orig s d =
     (let d1 = killNode D orig d in
      res_bind (node_count orig) (\<lambda>cnt.
      res_bind (guard (cnt = 2) TrieAssert) (\<lambda>_.
      res_bind (trie_rlp (keyOf_rlp orig)) (\<lambda>k.
      res_bind (guard (s \<noteq> 0 \<and> s \<le> slice_size k) TrieAssert) (\<lambda>_.
      res_bind (trie_rlp (isLeaf orig)) (\<lambda>leaf.
      res_bind (item orig 1) (\<lambda>v.
      res_bind (out_list [append_bytes (hexPrefixEncode_slice k leaf s (- 1)) False, appendRaw v 1]) (\<lambda>bottom.
        let (a, d2) = streamNode D bottom d1 in
        res_bind (out_list [append_bytes (hexPrefixEncode_slice k False 0 (int s)) False, a]) (\<lambda>top.
          Inr (top, d2))))))))))"

definition branch :: "'d node_ops \<Rightarrow> bytes \<Rightarrow> 'd \<Rightarrow> trie_error + bytes \<times> 'd" where
  "branch D orig d =
     (let d1 = killNode D orig d in
      res_bind (node_count orig) (\<lambda>cnt.
      res_bind (guard (cnt = 2) TrieAssert) (\<lambda>_.
      res_bind (trie_rlp (keyOf_rlp orig)) (\<lambda>k.
      res_bind (trie_rlp (isLeaf orig)) (\<lambda>leaf.
      res_bind (item orig 1) (\<lambda>v.
        let none = append_bytes [] False in
        if slice_size k = 0 then
          res_bind (guard leaf TrieAssert) (\<lambda>_.
          res_bind (out_list (replicate 16 none @ [appendRaw v 1])) (\<lambda>b. Inr (b, d1)))
        else
          res_bind
            (if leaf \<or> slice_size k > 1 then
               res_bind (out_list [append_bytes (hexPrefixEncode_slice (slice_mid k 1) leaf 0 (- 1)) False, appendRaw v 1])
                 (\<lambda>n. Inr (streamNode D n d1))
             else Inr (appendRaw v 1, d1)) (\<lambda>(a, d2).
          res_bind (out_list ((replicate 16 none)[unat (slice_at k 0) := a] @ [none])) (\<lambda>b. Inr (b, d2)))))))))"

text \<open>\<^verbatim>\<open>mergeAtAux\<close>, with \<^verbatim>\<open>mergeAt\<close> as an argument.\<close>

definition mergeAtAux ::
  "'d node_ops \<Rightarrow> (bytes \<Rightarrow> h256 \<Rightarrow> nibble_slice \<Rightarrow> bool \<Rightarrow> 'd \<Rightarrow> trie_error + bytes \<times> 'd)
    \<Rightarrow> bytes \<Rightarrow> nibble_slice \<Rightarrow> 'd \<Rightarrow> trie_error + (rlp_stream \<Rightarrow> rlp_error + rlp_stream) \<times> 'd" where
  "mergeAtAux D rec orig k d =
     res_bind
       (if \<not> isList orig \<and> \<not> isEmpty orig then
          res_bind (rlp_h256 orig) (\<lambda>h.
          res_bind (node_rlp D d h) (\<lambda>r.
          res_bind (guard (\<not> isNull r) TrieAssert) (\<lambda>_. Inr (r, True))))
        else Inr (orig, False)) (\<lambda>(r, isRemovable).
     res_bind (rec r (sha3 r) k (\<not> isRemovable) d) (\<lambda>(b, d'). Inr (streamNode D b d')))"

primrec mergeAt ::
  "'d node_ops \<Rightarrow> bytes \<Rightarrow> nat \<Rightarrow> bytes \<Rightarrow> h256 \<Rightarrow> nibble_slice \<Rightarrow> bool \<Rightarrow> 'd \<Rightarrow> trie_error + bytes \<times> 'd" where
  "mergeAt D v 0 orig origHash k inLine d = Inl TrieFuel"
| "mergeAt D v (Suc n) orig origHash k inLine d =
     (if isEmpty orig then place D orig k v d
      else
        res_bind (node_count orig) (\<lambda>cnt.
        if cnt = 2 then
          res_bind (trie_rlp (keyOf_rlp orig)) (\<lambda>ok.
          res_bind (trie_rlp (isLeaf orig)) (\<lambda>leaf.
            if slice_eq ok k \<and> leaf then place D orig k v d
            else if slice_contains k ok \<and> \<not> leaf then
              (let d1 = (if inLine then d else killNode_hash D orig origHash d) in
               res_bind (item orig 0) (\<lambda>a.
               res_bind (item orig 1) (\<lambda>r.
               res_bind (mergeAtAux D (mergeAt D v n) r (slice_mid k (slice_size ok)) d1) (\<lambda>(app, d2).
               res_bind (out_list [appendRaw a 1, app]) (\<lambda>b. Inr (b, d2))))))
            else
              (let sh = slice_shared k ok in
               res_bind (if sh \<noteq> 0 then cleve D orig sh d else branch D orig d) (\<lambda>(c, d1).
               res_bind (trie_rlp (rlp_new c VeryStrict)) (\<lambda>r.
                 mergeAt D v n r (sha3 r) k True d1)))))
        else if slice_size k = 0 then place D orig k v d
        else
          (let d1 = (if inLine then d else killNode_hash D orig origHash d); i = unat (slice_at k 0) in
           res_bind (res_map (item orig) [0..<17]) (\<lambda>rs.
           res_bind (mergeAtAux D (mergeAt D v n) (rs ! i) (slice_mid k 1) d1) (\<lambda>(app, d2).
           res_bind (out_list ((copies rs)[i := app])) (\<lambda>b. Inr (b, d2)))))))"

section \<open>Deletion\<close>

text \<open>In \<^verbatim>\<open>deleteAt\<close> an empty key at a branch without a value goes on to read
  \<^verbatim>\<open>_k[0]\<close>, beyond the end of the key: \<open>TrieOutOfRange\<close>.\<close>

definition isTwoItemNode :: "'d node_ops \<Rightarrow> 'd \<Rightarrow> bytes \<Rightarrow> trie_error + bool" where
  "isTwoItemNode D d r =
     res_bind
       (if isData r then
          res_bind (rlp_h256 r) (\<lambda>h. res_bind (node_rlp D d h) (\<lambda>c. res_bind (trie_rlp (itemCount c)) (\<lambda>n. Inr (n = 2))))
        else Inr False) (\<lambda>two.
     if two then Inr True
     else if isList r then res_bind (trie_rlp (itemCount r)) (\<lambda>n. Inr (n = 2))
     else Inr False)"

definition merge :: "bytes \<Rightarrow> nat \<Rightarrow> trie_error + bytes" where
  "merge orig i =
     res_bind (node_count orig) (\<lambda>cnt.
     res_bind (guard (cnt = 17) TrieAssert) (\<lambda>_.
     res_bind (item orig i) (\<lambda>r.
       if i \<noteq> 16 then
         res_bind (guard (\<not> isEmpty r) TrieAssert) (\<lambda>_.
           out_list [append_bytes (hexPrefixEncode_range [word_of_nat i] False 1 2 0) False, appendRaw r 1])
       else out_list [append_bytes (hexPrefixEncode_vector [] True 0 (- 1)) False, appendRaw r 1])))"

definition graft :: "'d node_ops \<Rightarrow> bytes \<Rightarrow> 'd \<Rightarrow> trie_error + bytes \<times> 'd" where
  "graft D orig d =
     res_bind (node_count orig) (\<lambda>cnt.
     res_bind (guard (cnt = 2) TrieAssert) (\<lambda>_.
     res_bind (item orig 1) (\<lambda>r.
     res_bind
       (if isList r then Inr (r, d)
        else res_bind (rlp_h256 r) (\<lambda>lh. res_bind (node_rlp D d lh) (\<lambda>n. Inr (n, nd_kill D lh d)))) (\<lambda>(n, d').
     res_bind (trie_rlp (itemCount n)) (\<lambda>ncnt.
     res_bind (guard (ncnt = 2) TrieAssert) (\<lambda>_.
     res_bind (trie_rlp (keyOf_rlp orig)) (\<lambda>k1.
     res_bind (trie_rlp (keyOf_rlp n)) (\<lambda>k2.
     res_bind (trie_rlp (isLeaf n)) (\<lambda>leaf.
     res_bind (item n 1) (\<lambda>v.
     res_bind (out_list [append_bytes (hexPrefixEncode_slices k1 k2 leaf) False, appendRaw v 1]) (\<lambda>b.
       Inr (b, d'))))))))))))"

text \<open>The empty byte string means that there was nothing to delete.\<close>

definition deleteAtAux ::
  "'d node_ops \<Rightarrow> (bytes \<Rightarrow> nibble_slice \<Rightarrow> 'd \<Rightarrow> trie_error + bytes \<times> 'd)
    \<Rightarrow> bytes \<Rightarrow> nibble_slice \<Rightarrow> 'd \<Rightarrow> trie_error + (rlp_stream \<Rightarrow> rlp_error + rlp_stream) option \<times> 'd" where
  "deleteAtAux D rec orig k d =
     res_bind (if isEmpty orig then Inr ([], d) else res_bind (child_rlp D d orig) (\<lambda>c. rec c k d)) (\<lambda>(b, d').
       if length b = 0 then Inr (None, d')
       else let (app, d'') = streamNode D b d' in Inr (Some app, d''))"

text \<open>A branch that is left with one child or only its value becomes a two-item node.\<close>

definition collapse :: "'d node_ops \<Rightarrow> bytes \<Rightarrow> nat \<Rightarrow> 'd \<Rightarrow> trie_error + bytes \<times> 'd" where
  "collapse D orig used d =
     res_bind (item orig used) (\<lambda>r.
     res_bind (isTwoItemNode D d r) (\<lambda>two.
     res_bind (merge orig used) (\<lambda>merged.
       if two then res_bind (trie_rlp (rlp_new merged VeryStrict)) (\<lambda>m. graft D m d)
       else Inr (merged, d))))"

primrec deleteAt :: "'d node_ops \<Rightarrow> nat \<Rightarrow> bytes \<Rightarrow> nibble_slice \<Rightarrow> 'd \<Rightarrow> trie_error + bytes \<times> 'd" where
  "deleteAt D 0 orig k d = Inl TrieFuel"
| "deleteAt D (Suc n) orig k d =
     (if isEmpty orig then Inr ([], d)
      else
        res_bind (node_count orig) (\<lambda>cnt.
        if cnt = 2 then
          res_bind (trie_rlp (keyOf_rlp orig)) (\<lambda>ok.
          res_bind (trie_rlp (isLeaf orig)) (\<lambda>leaf.
            if slice_eq ok k \<and> leaf then Inr (RLPNull, killNode D orig d)
            else if slice_contains k ok then
              res_bind (item orig 0) (\<lambda>a.
              res_bind (item orig 1) (\<lambda>r.
              res_bind (deleteAtAux D (deleteAt D n) r (slice_mid k (slice_size ok)) d) (\<lambda>(app, d1).
                case app of
                  None \<Rightarrow> Inr ([], d1)
                | Some f \<Rightarrow>
                    (let d2 = killNode D orig d1 in
                     res_bind (out_list [appendRaw a 1, f]) (\<lambda>s.
                     res_bind (trie_rlp (rlp_new s VeryStrict)) (\<lambda>rl.
                     res_bind (item rl 1) (\<lambda>r1.
                     res_bind (isTwoItemNode D d2 r1) (\<lambda>two. if two then graft D rl d2 else Inr (s, d2)))))))))
            else Inr ([], d)))
        else
          res_bind (item orig 16) (\<lambda>r16.
          if slice_size k = 0 \<and> \<not> isEmpty r16 then
            (let d1 = killNode D orig d in
             res_bind (trie_rlp (uniqueInUse orig 16)) (\<lambda>used.
               if used \<noteq> 255 then collapse D orig used d1
               else
                 res_bind (res_map (item orig) [0..<16]) (\<lambda>rs.
                 res_bind (out_list (copies rs @ [append_bytes [] False])) (\<lambda>b. Inr (b, d1)))))
          else
            (let i = unat (slice_at k 0) in
             res_bind (guard (slice_size k \<noteq> 0) TrieOutOfRange) (\<lambda>_.
             res_bind (res_map (item orig) [0..<17]) (\<lambda>rs.
             res_bind (deleteAtAux D (deleteAt D n) (rs ! i) (slice_mid k 1) d) (\<lambda>(app, d1).
               case app of
                 None \<Rightarrow> Inr ([], d1)
               | Some f \<Rightarrow>
                   (let d2 = killNode D orig d1 in
                    res_bind (out_list ((copies rs)[i := f])) (\<lambda>s.
                    res_bind (trie_rlp (rlp_new s VeryStrict)) (\<lambda>rl.
                    res_bind (trie_rlp (uniqueInUse rl 255)) (\<lambda>used.
                      if used = 255 then Inr (s, d2) else collapse D rl used d2)))))))))))"

section \<open>The trie\<close>

record 'd trie_db =
  m_root :: h256
  t_db :: 'd

definition key_slice :: "bytes \<Rightarrow> nibble_slice" where
  "key_slice key = \<lparr>ns_data = key, ns_offset = 0\<rparr>"

definition key_fuel :: "bytes \<Rightarrow> nat" where
  "key_fuel key = 2 * length key + 5"

definition trie_init :: "'d node_ops \<Rightarrow> 'd \<Rightarrow> 'd trie_db" where
  "trie_init D d = (let (h, d') = forceInsertNode D RLPNull d in \<lparr>m_root = h, t_db = d'\<rparr>)"

text \<open>\<^verbatim>\<open>open\<close> and \<^verbatim>\<open>setRoot\<close>; \<open>verify\<close> is \<^verbatim>\<open>Verification::Normal\<close>.\<close>

definition trie_open :: "'d node_ops \<Rightarrow> 'd \<Rightarrow> h256 \<Rightarrow> bool \<Rightarrow> trie_error + 'd trie_db" where
  "trie_open D d root verify =
     (let t = (if verify \<and> root = c_shaNull \<and> \<not> nd_exists D d root then trie_init D d else \<lparr>m_root = root, t_db = d\<rparr>) in
      if nd_lookup D (t_db t) (m_root t) = [] then Inl RootNotFound else Inr t)"

definition trie_isNull :: "'d node_ops \<Rightarrow> 'd trie_db \<Rightarrow> bool" where
  "trie_isNull D t = (nd_lookup D (t_db t) (m_root t) = [])"

definition trie_isEmpty :: "'d node_ops \<Rightarrow> 'd trie_db \<Rightarrow> bool" where
  "trie_isEmpty D t = (m_root t = c_shaNull \<and> nd_lookup D (t_db t) (m_root t) \<noteq> [])"

definition trie_root :: "'d node_ops \<Rightarrow> 'd trie_db \<Rightarrow> trie_error + h256" where
  "trie_root D t = (if nd_lookup D (t_db t) (m_root t) = [] then Inl BadRoot else Inr (m_root t))"

definition trie_at :: "'d node_ops \<Rightarrow> bytes \<Rightarrow> 'd trie_db \<Rightarrow> trie_error + bytes" where
  "trie_at D key t =
     res_bind (node_rlp D (t_db t) (m_root t)) (\<lambda>r. atAux D (t_db t) (key_fuel key) r (key_slice key))"

definition trie_contains :: "'d node_ops \<Rightarrow> bytes \<Rightarrow> 'd trie_db \<Rightarrow> trie_error + bool" where
  "trie_contains D key t = res_bind (trie_at D key t) (\<lambda>v. Inr (v \<noteq> []))"

definition trie_insert :: "'d node_ops \<Rightarrow> bytes \<Rightarrow> bytes \<Rightarrow> 'd trie_db \<Rightarrow> trie_error + 'd trie_db" where
  "trie_insert D key v t =
     (let rootValue = nd_lookup D (t_db t) (m_root t) in
      res_bind (guard (rootValue \<noteq> []) TrieAssert) (\<lambda>_.
      res_bind (trie_rlp (rlp_new rootValue VeryStrict)) (\<lambda>r.
      res_bind (mergeAt D v (key_fuel key) r (m_root t) (key_slice key) False (t_db t)) (\<lambda>(b, d1).
        let d2 = (if length rootValue < 32 then nd_kill D (m_root t) d1 else d1);
            (h, d3) = forceInsertNode D b d2 in
        Inr \<lparr>m_root = h, t_db = d3\<rparr>))))"

definition trie_remove :: "'d node_ops \<Rightarrow> bytes \<Rightarrow> 'd trie_db \<Rightarrow> trie_error + 'd trie_db" where
  "trie_remove D key t =
     (let rv = nd_lookup D (t_db t) (m_root t) in
      res_bind (trie_rlp (rlp_new rv VeryStrict)) (\<lambda>r.
      res_bind (deleteAt D (key_fuel key) r (key_slice key) (t_db t)) (\<lambda>(b, d1).
        if length b \<noteq> 0 then
          (let d2 = (if length rv < 32 then nd_kill D (m_root t) d1 else d1);
               (h, d3) = forceInsertNode D b d2 in
           Inr \<lparr>m_root = h, t_db = d3\<rparr>)
        else Inr (t\<lparr>t_db := d1\<rparr>))))"

text \<open>\<^verbatim>\<open>HashedGenericTrieDB\<close>, the trie of the world state: the key is its hash.\<close>

definition hashed_key :: "bytes \<Rightarrow> bytes" where
  "hashed_key key = toBigEndian 32 (unat (sha3 key))"

definition hashed_at :: "'d node_ops \<Rightarrow> bytes \<Rightarrow> 'd trie_db \<Rightarrow> trie_error + bytes" where
  "hashed_at D key = trie_at D (hashed_key key)"

definition hashed_contains :: "'d node_ops \<Rightarrow> bytes \<Rightarrow> 'd trie_db \<Rightarrow> trie_error + bool" where
  "hashed_contains D key = trie_contains D (hashed_key key)"

definition hashed_insert :: "'d node_ops \<Rightarrow> bytes \<Rightarrow> bytes \<Rightarrow> 'd trie_db \<Rightarrow> trie_error + 'd trie_db" where
  "hashed_insert D key v = trie_insert D (hashed_key key) v"

definition hashed_remove :: "'d node_ops \<Rightarrow> bytes \<Rightarrow> 'd trie_db \<Rightarrow> trie_error + 'd trie_db" where
  "hashed_remove D key = trie_remove D (hashed_key key)"

text \<open>\<^verbatim>\<open>FatGenericTrieDB\<close> also remembers the key in the auxiliary table of the
  \<^verbatim>\<open>MemoryDB\<close>.\<close>

definition fat_insert :: "bytes \<Rightarrow> bytes \<Rightarrow> memory_db trie_db \<Rightarrow> trie_error + memory_db trie_db" where
  "fat_insert key v t =
     res_bind (trie_insert mdb_ops (hashed_key key) v t) (\<lambda>t'.
       Inr (t'\<lparr>t_db := mdb_insertAux (sha3 key) key (t_db t')\<rparr>))"

end
