(* ===== verification/Trie_Spec.thy ===== *)
theory Trie_Spec
  imports Trie_Db
begin

text \<open>
  The tries that the nodes of \<open>Trie_Db\<close> represent: a tree of leaves, extensions and branches over
  nibbles, the bytes of its nodes, and lookup and insertion on the tree itself.
\<close>

section \<open>Tries\<close>

datatype ptrie = PNull | PLeaf bytes bytes | PExt bytes ptrie | PBranch "ptrie list" bytes

text \<open>A node of 32 bytes or more is referred to by its hash.\<close>

definition ref_of :: "rlp_item \<Rightarrow> rlp_item" where
  "ref_of x = (if length (encode x) < 32 then x else Data (toBigEndian 32 (unat (sha3 (encode x)))))"

fun pitem :: "ptrie \<Rightarrow> rlp_item" where
  "pitem PNull = Data []"
| "pitem (PLeaf k v) = Items [Data (hex_prefix True k), Data v]"
| "pitem (PExt k t) = Items [Data (hex_prefix False k), ref_of (pitem t)]"
| "pitem (PBranch ts v) = Items (map (\<lambda>t. ref_of (pitem t)) ts @ [Data v])"

definition pnode :: "ptrie \<Rightarrow> bytes" where
  "pnode t = encode (pitem t)"

definition nibs :: "bytes \<Rightarrow> bool" where
  "nibs k = ((\<forall>n\<in>set k. unat n < 16) \<and> length k < 2 ^ 31)"

fun pt_wf :: "ptrie \<Rightarrow> bool" where
  "pt_wf PNull = True"
| "pt_wf (PLeaf k v) = (nibs k \<and> length v < 2 ^ 62)"
| "pt_wf (PExt k t) = (nibs k \<and> k \<noteq> [] \<and> t \<noteq> PNull \<and> pt_wf t)"
| "pt_wf (PBranch ts v) = (length ts = 16 \<and> (\<forall>t\<in>set ts. pt_wf t) \<and> length v < 2 ^ 62)"

fun psubs :: "ptrie \<Rightarrow> ptrie set" where
  "psubs PNull = {}"
| "psubs (PLeaf k v) = {}"
| "psubs (PExt k t) = insert t (psubs t)"
| "psubs (PBranch ts v) = (\<Union>t\<in>set ts. insert t (psubs t))"

function t_at :: "ptrie \<Rightarrow> bytes \<Rightarrow> bytes" where
  "t_at PNull k = []"
| "t_at (PLeaf k' v) k = (if k = k' then v else [])"
| "t_at (PExt k' t) k = (if prefix k' k then t_at t (drop (length k') k) else [])"
| "t_at (PBranch ts v) [] = v"
| "t_at (PBranch ts v) (n # k) = (if unat n < length ts then t_at (ts ! unat n) k else [])"
  by pat_completeness auto

lemma size_nth_less: "i < length ts \<Longrightarrow> size (ts ! i) < Suc (size_list size ts)"
  by (metis less_Suc_eq_le nth_mem order_refl size_list_estimation')

termination t_at
  by (relation "measure (\<lambda>(t, k). size t)") (auto simp: size_nth_less)

section \<open>Insertion\<close>

text \<open>A two-item node, without the first \<open>s\<close> nibbles of its key, and as a branch.\<close>

fun t_drop :: "nat \<Rightarrow> ptrie \<Rightarrow> ptrie" where
  "t_drop s (PLeaf k v) = PLeaf (drop s k) v"
| "t_drop s (PExt k t) = PExt (drop s k) t"
| "t_drop s t = t"

fun t_key :: "ptrie \<Rightarrow> bytes" where
  "t_key (PLeaf k v) = k"
| "t_key (PExt k t) = k"
| "t_key t = []"

definition no_kids :: "ptrie list" where "no_kids = replicate 16 PNull"

fun t_branch :: "ptrie \<Rightarrow> ptrie" where
  "t_branch (PLeaf [] v) = PBranch no_kids v"
| "t_branch (PLeaf (n # k) v) = PBranch (no_kids[unat n := PLeaf k v]) []"
| "t_branch (PExt [] t) = t"
| "t_branch (PExt (n # k) t) = PBranch (no_kids[unat n := (if k = [] then t else PExt k t)]) []"
| "t_branch t = t"

text \<open>Insertion where the rest of the key leaves the branch at once.\<close>

fun t_put :: "ptrie \<Rightarrow> bytes \<Rightarrow> bytes \<Rightarrow> ptrie" where
  "t_put (PBranch ts w) [] v = PBranch ts v"
| "t_put (PBranch ts w) (n # k) v = PBranch (ts[unat n := PLeaf k v]) w"
| "t_put t k v = t"

definition t_wrap :: "bytes \<Rightarrow> ptrie \<Rightarrow> ptrie" where
  "t_wrap k t = (if k = [] then t else PExt k t)"

definition shared :: "bytes \<Rightarrow> bytes \<Rightarrow> nat" where
  "shared k k' = length (longest_common_prefix k k')"

definition t_fork :: "ptrie \<Rightarrow> bytes \<Rightarrow> bytes \<Rightarrow> ptrie" where
  "t_fork u k v =
     (let s = shared k (t_key u) in t_wrap (take s k) (t_put (t_branch (t_drop s u)) (drop s k) v))"

function t_insert :: "ptrie \<Rightarrow> bytes \<Rightarrow> bytes \<Rightarrow> ptrie" where
  "t_insert PNull k v = PLeaf k v"
| "t_insert (PLeaf k' v') k v = (if k = k' then PLeaf k v else t_fork (PLeaf k' v') k v)"
| "t_insert (PExt k' t) k v =
     (if prefix k' k then PExt k' (t_insert t (drop (length k') k) v) else t_fork (PExt k' t) k v)"
| "t_insert (PBranch ts w) [] v = PBranch ts v"
| "t_insert (PBranch ts w) (n # k) v =
     (if unat n < length ts then PBranch (ts[unat n := t_insert (ts ! unat n) k v]) w else PBranch ts w)"
  by pat_completeness auto

termination t_insert
  by (relation "measure (\<lambda>(t, k, v). size t)") (auto simp: size_nth_less)

section \<open>Lookup after insertion\<close>

lemma nibs_simps [simp]:
  "nibs []" "nibs (n # k) \<longleftrightarrow> unat n < 16 \<and> nibs k \<and> length k < 2 ^ 31 - 1"
  "nibs k \<Longrightarrow> nibs (drop s k)" "nibs k \<Longrightarrow> nibs (take s k)"
  by (auto simp: nibs_def dest: in_set_dropD in_set_takeD)

text \<open>Nibbles of any number.\<close>

definition nkey :: "bytes \<Rightarrow> bool" where
  "nkey k = (\<forall>n\<in>set k. unat n < 16)"

lemma nkey_simps [simp]:
  "nkey []" "nkey (n # k) \<longleftrightarrow> unat n < 16 \<and> nkey k" "nkey (k @ l) \<longleftrightarrow> nkey k \<and> nkey l"
  "nkey k \<Longrightarrow> nkey (drop s k)" "nkey k \<Longrightarrow> nkey (take s k)"
  by (auto simp: nkey_def dest: in_set_dropD in_set_takeD)

lemma nibs_nkey: "nibs k \<Longrightarrow> nkey k"
  by (simp add: nibs_def nkey_def)

lemma shared_le: "shared k k' \<le> length k" "shared k k' \<le> length k'"
  unfolding shared_def
  using longest_common_prefix_prefix1 longest_common_prefix_prefix2 prefix_length_le by blast+

lemma take_shared: "take (shared k k') k' = take (shared k k') k"
proof -
  obtain a b where "k = longest_common_prefix k k' @ a" "k' = longest_common_prefix k k' @ b"
    using longest_common_prefix_prefix1 longest_common_prefix_prefix2 by (metis prefixE)
  then show ?thesis unfolding shared_def by (metis append_eq_conv_conj)
qed

lemma shared_split:
  assumes "drop (shared k k') k = n # a" and "drop (shared k k') k' = m # b"
  shows "n \<noteq> m"
proof
  assume "n = m"
  let ?c = "longest_common_prefix k k'"
  have "k = take (shared k k') k @ n # a" "k' = take (shared k k') k @ m # b"
    using assms take_shared [of k k'] by (metis append_take_drop_id)+
  with \<open>n = m\<close> have "prefix (take (shared k k') k @ [n]) k" "prefix (take (shared k k') k @ [n]) k'"
    by (metis Cons_eq_appendI append.assoc append_Nil prefixI)+
  then have "prefix (take (shared k k') k @ [n]) ?c" by (rule longest_common_prefix_max_prefix)
  from prefix_length_le [OF this] show False using shared_le(1) [of k k'] by (simp add: shared_def)
qed

lemma length_no_kids [simp]: "length no_kids = 16"
  by (simp add: no_kids_def)

lemma nth_no_kids [simp]: "i < 16 \<Longrightarrow> no_kids ! i = PNull"
  by (simp add: no_kids_def)

lemma byte_unat_inj: "unat (a :: byte) = unat b \<longleftrightarrow> a = b"
  by (simp add: unat_eq_iff)

lemma t_at_no_kids_update:
  fixes n m :: byte
  shows "unat n < 16 \<Longrightarrow> unat m < 16 \<Longrightarrow> t_at ((no_kids[unat n := t]) ! unat m) k = (if m = n then t_at t k else [])"
  using byte_unat_inj [of n m] by (auto simp: nth_list_update)

definition two_item :: "ptrie \<Rightarrow> bool" where
  "two_item u = (case u of PLeaf _ _ \<Rightarrow> True | PExt _ _ \<Rightarrow> True | _ \<Rightarrow> False)"

lemma two_item_cases:
  assumes "two_item u"
  obtains k v where "u = PLeaf k v" | k t where "u = PExt k t"
  using assms by (cases u) (auto simp: two_item_def)

text \<open>A two-item node as a branch has the same contents.\<close>

lemma t_at_branch:
  assumes "pt_wf u" and "two_item u" and "nkey k"
  shows "t_at (t_branch u) k = t_at u k"
  using assms(2)
proof (cases rule: two_item_cases)
  case (1 k' v)
  then show ?thesis
    using assms by (cases k'; cases k) (auto simp: t_at_no_kids_update)
next
  case (2 k' t)
  then show ?thesis
    using assms by (cases k'; cases k) (auto simp: t_at_no_kids_update)
qed

lemma t_at_wrap: "t_at (t_wrap c t) k = (if prefix c k then t_at t (drop (length c) k) else [])"
  by (simp add: t_wrap_def)

lemma t_at_put:
  assumes t: "t = PBranch ts w" "length ts = 16" and k: "nibs k" "nkey k'" and null: "\<And>n a. k = n # a \<Longrightarrow> ts ! unat n = PNull"
  shows "t_at (t_put t k v) k' = (if k' = k then v else t_at t k')"
  using k null unfolding t(1)
  by (cases k; cases k') (auto simp: t(2) nth_list_update byte_unat_inj)

lemma t_branch_shape:
  assumes "pt_wf u" and "two_item u" and "u = PExt k' t \<Longrightarrow> k' \<noteq> []"
  obtains ts w where "t_branch u = PBranch ts w" "length ts = 16"
    "\<And>n. unat n < 16 \<Longrightarrow> (\<And>a. t_key u \<noteq> n # a) \<Longrightarrow> ts ! unat n = PNull"
  using assms(2)
proof (cases rule: two_item_cases)
  case (1 k v)
  have "no_kids[unat m := x] ! unat n = PNull" if "unat n < 16" "n \<noteq> m" for m n :: byte and x
    using that byte_unat_inj [of n m] by (auto simp: nth_list_update)
  then show ?thesis using 1 that by (cases k) fastforce+
next
  case (2 k t)
  have "no_kids[unat m := x] ! unat n = PNull" if "unat n < 16" "n \<noteq> m" for m n :: byte and x
    using that byte_unat_inj [of n m] by (auto simp: nth_list_update)
  then show ?thesis using 2 that assms(1) by (cases k) fastforce+
qed

lemma t_at_drop:
  assumes "two_item u" and "s \<le> length (t_key u)" and "take s k = take s (t_key u)" and "s \<le> length k"
  shows "t_at (t_drop s u) (drop s k) = t_at u k"
  using assms(1)
proof (cases rule: two_item_cases)
  case (1 k' v)
  then show ?thesis using assms by simp (metis append_take_drop_id)
next
  case (2 k' t)
  then have "prefix (drop s k') (drop s k) \<longleftrightarrow> prefix k' k"
    using assms by simp (metis append_take_drop_id same_prefix_prefix)
  then show ?thesis using 2 assms by simp
qed

lemma t_at_off_key:
  assumes "two_item u" and "\<not> prefix c k" and "prefix c (t_key u)"
  shows "t_at u k = []"
  using assms(1) by (cases rule: two_item_cases) (use assms in \<open>auto dest: prefix_order.trans\<close>)

lemma t_drop_simps [simp]:
  "two_item (t_drop s u) = two_item u" "t_key (t_drop s u) = drop s (t_key u)"
  by (cases u; simp add: two_item_def)+

lemma t_at_fork:
  assumes wf: "pt_wf u" and two: "two_item u" and k: "nibs k" "nkey k'"
    and off: "case u of PLeaf l _ \<Rightarrow> k \<noteq> l | PExt l _ \<Rightarrow> \<not> prefix l k | _ \<Rightarrow> True"
  shows "t_at (t_fork u k v) k' = (if k' = k then v else t_at u k')"
proof -
  define s where "s = shared k (t_key u)"
  let ?b = "t_drop s u"
  have s: "s \<le> length k" "s \<le> length (t_key u)" "take s (t_key u) = take s k"
    by (simp_all add: s_def shared_le take_shared)
  have ext: "drop s l \<noteq> []" if "u = PExt l t" for l t
    using off s that by (auto simp: prefix_def) (metis append_take_drop_id drop_all take_all)
  have wb: "pt_wf ?b" using wf ext by (cases u) auto
  have "?b = PExt l t \<Longrightarrow> l \<noteq> []" for l t using ext by (cases u) auto
  then obtain ts w where b: "t_branch ?b = PBranch ts w" "length ts = 16"
    "\<And>n. unat n < 16 \<Longrightarrow> (\<And>a. drop s (t_key u) \<noteq> n # a) \<Longrightarrow> ts ! unat n = PNull"
    using t_branch_shape [OF wb] two by (metis t_drop_simps)
  have null: "ts ! unat n = PNull" if "drop s k = n # a" for n a
  proof (rule b(3))
    have "n \<in> set k" using that by (metis in_set_dropD list.set_intros(1))
    then show "unat n < 16" using k(1) by (simp add: nibs_def)
    show "drop s (t_key u) \<noteq> n # c" for c using shared_split [of k "t_key u" n a n c] that by (auto simp: s_def)
  qed
  show ?thesis
  proof (cases "prefix (take s k) k'")
    case False
    then have "k' \<noteq> k" "t_at u k' = []" using t_at_off_key [OF two False] s(3) by (auto simp: take_is_prefix) (metis take_is_prefix)
    then show ?thesis using False by (simp add: t_fork_def s_def [symmetric] Let_def t_at_wrap)
  next
    case True
    then have p: "take s k' = take s k" "s \<le> length k'" using s(1) by (auto simp: prefix_def)
    have eq: "drop s k' = drop s k \<longleftrightarrow> k' = k" using p(1) by (metis append_take_drop_id)
    have "t_at (t_branch ?b) (drop s k') = t_at u k'"
      using t_at_branch [OF wb, of "drop s k'"] two k t_at_drop [OF two s(2), of k'] p s(3) by simp
    then have "t_at (t_put (t_branch ?b) (drop s k) v) (drop s k') = (if k' = k then v else t_at u k')"
      using t_at_put [OF b(1,2), of "drop s k" "drop s k'" v] k null eq by auto
    then show ?thesis using True s(1) p by (simp add: t_fork_def s_def [symmetric] Let_def t_at_wrap)
  qed
qed

lemma t_at_insert:
  "pt_wf t \<Longrightarrow> nibs k \<Longrightarrow> nkey k' \<Longrightarrow> t_at (t_insert t k v) k' = (if k' = k then v else t_at t k')"
proof (induction t k v arbitrary: k' rule: t_insert.induct)
  case (2 l v' k v)
  then show ?case using t_at_fork [of "PLeaf l v'" k k' v] by (auto simp: two_item_def)
next
  case (3 l t k v)
  show ?case
  proof (cases "prefix l k")
    case True
    then show ?thesis
      using "3.IH" [OF True, of "drop (length l) k'"] "3.prems" by (auto simp: prefix_def)
  next
    case False
    then show ?thesis using 3 t_at_fork [of "PExt l t" k k' v] by (auto simp: two_item_def)
  qed
next
  case (4 ts w v)
  then show ?case by (cases k') auto
next
  case (5 ts w n k v)
  then show ?case using byte_unat_inj by (cases k') (auto simp: nth_list_update)
qed auto

section \<open>Well-formedness\<close>

lemma pt_wf_no_kids: "t \<in> set no_kids \<Longrightarrow> pt_wf t"
  by (simp add: no_kids_def)

lemma pt_wf_branch:
  assumes "pt_wf u" and "two_item u"
  shows "pt_wf (t_branch u)"
  using assms(2) by (cases rule: two_item_cases)
    (use assms(1) in \<open>cases u rule: t_branch.cases; auto dest!: set_update_subset_insert [THEN subsetD] simp: pt_wf_no_kids\<close>)+

lemma pt_wf_put:
  "pt_wf t \<Longrightarrow> nibs k \<Longrightarrow> length v < 2 ^ 62 \<Longrightarrow> pt_wf (t_put t k v)"
  by (cases "(t, k, v)" rule: t_put.cases) (auto dest!: set_update_subset_insert [THEN subsetD])

lemma t_drop_wf:
  assumes "pt_wf u" and "two_item u" and "\<And>l t. u = PExt l t \<Longrightarrow> \<not> prefix l k"
  shows "pt_wf (t_drop (shared k (t_key u)) u)"
  using assms(2)
proof (cases rule: two_item_cases)
  case (2 l t)
  have "drop (shared k l) l \<noteq> []"
  proof
    assume "drop (shared k l) l = []"
    then have "l = take (shared k l) k" using take_shared [of k l] by simp
    then show False using assms(3) [OF 2] by (metis take_is_prefix)
  qed
  then show ?thesis using 2 assms(1) by simp
qed (use assms in simp)

lemma t_branch_ne: "two_item u \<Longrightarrow> pt_wf u \<Longrightarrow> \<exists>ts w. t_branch u = PBranch ts w"
  by (cases u rule: t_branch.cases) (auto simp: two_item_def)

lemma t_put_ne: "t = PBranch ts w \<Longrightarrow> t_put t k v \<noteq> PNull"
  by (cases k) auto

lemma pt_wf_fork:
  assumes "pt_wf u" and "two_item u" and "nibs k" and "length v < 2 ^ 62" and "\<And>l t. u = PExt l t \<Longrightarrow> \<not> prefix l k"
  shows "pt_wf (t_fork u k v) \<and> t_fork u k v \<noteq> PNull"
proof -
  define s where "s = shared k (t_key u)"
  have w: "pt_wf (t_drop s u)" "two_item (t_drop s u)" using t_drop_wf [OF assms(1,2,5)] assms(2) by (simp_all add: s_def)
  obtain ts x where b: "t_branch (t_drop s u) = PBranch ts x" using t_branch_ne [OF w(2,1)] by blast
  have "pt_wf (t_put (t_branch (t_drop s u)) (drop s k) v)" "t_put (t_branch (t_drop s u)) (drop s k) v \<noteq> PNull"
    using pt_wf_put [OF pt_wf_branch [OF w]] assms(3,4) t_put_ne [OF b] by auto
  then show ?thesis using assms(3) by (simp add: t_fork_def s_def [symmetric] Let_def t_wrap_def)
qed

lemma t_insert_wf:
  "pt_wf t \<Longrightarrow> nibs k \<Longrightarrow> length v < 2 ^ 62 \<Longrightarrow> pt_wf (t_insert t k v) \<and> t_insert t k v \<noteq> PNull"
proof (induction t k v rule: t_insert.induct)
  case (2 l w k v)
  then show ?case using pt_wf_fork [of "PLeaf l w" k v] by (simp add: two_item_def)
next
  case (3 l t k v)
  then show ?case using pt_wf_fork [of "PExt l t" k v] by (simp add: two_item_def)
next
  case (5 ts w n k v)
  then show ?case by (auto dest!: set_update_subset_insert [THEN subsetD])
qed auto

section \<open>Keys of one length\<close>

text \<open>All keys have \<open>n\<close> nibbles, as in the tries of the world state; the tree is canonical when no extension
  and no branch could be shorter.\<close>

fun pt_len :: "nat \<Rightarrow> ptrie \<Rightarrow> bool" where
  "pt_len n PNull = True"
| "pt_len n (PLeaf k v) = (length k = n)"
| "pt_len n (PExt k t) = (length k \<le> n \<and> pt_len (n - length k) t)"
| "pt_len n (PBranch ts v) = (0 < n \<and> v = [] \<and> (\<forall>t\<in>set ts. pt_len (n - 1) t))"

fun is_branch :: "ptrie \<Rightarrow> bool" where
  "is_branch (PBranch ts v) = True"
| "is_branch t = False"

definition used :: "ptrie list \<Rightarrow> nat list" where
  "used ts = filter (\<lambda>i. ts ! i \<noteq> PNull) [0..<length ts]"

fun canon :: "ptrie \<Rightarrow> bool" where
  "canon PNull = True"
| "canon (PLeaf k v) = (v \<noteq> [])"
| "canon (PExt k t) = (is_branch t \<and> canon t)"
| "canon (PBranch ts v) = (2 \<le> length (used ts) \<and> (\<forall>t\<in>set ts. canon t))"

definition t_join :: "bytes \<Rightarrow> ptrie \<Rightarrow> ptrie" where
  "t_join k t = (case t of PLeaf l v \<Rightarrow> PLeaf (k @ l) v | PExt l u \<Rightarrow> PExt (k @ l) u | _ \<Rightarrow> PExt k t)"

definition t_shrink :: "ptrie list \<Rightarrow> ptrie" where
  "t_shrink ts = (case used ts of [i] \<Rightarrow> t_join [word_of_nat i] (ts ! i) | _ \<Rightarrow> PBranch ts [])"

text \<open>Removal; \<open>None\<close> if the key is not there.\<close>

function t_remove :: "ptrie \<Rightarrow> bytes \<Rightarrow> ptrie option" where
  "t_remove PNull k = None"
| "t_remove (PLeaf l v) k = (if k = l then Some PNull else None)"
| "t_remove (PExt l t) k =
     (if prefix l k then map_option (t_join l) (t_remove t (drop (length l) k)) else None)"
| "t_remove (PBranch ts w) [] = None"
| "t_remove (PBranch ts w) (n # k) =
     (if unat n < length ts then map_option (\<lambda>t. t_shrink (ts[unat n := t])) (t_remove (ts ! unat n) k) else None)"
  by pat_completeness auto

termination t_remove
  by (relation "measure (\<lambda>(t, k). size t)") (auto simp: size_nth_less)

lemma t_at_join: "t_at (t_join l t) k = t_at (PExt l t) k"
proof (cases t)
  case (PLeaf a v)
  then show ?thesis by (auto simp: t_join_def prefix_def)
next
  case (PExt a u)
  then have "prefix (l @ a) k \<longleftrightarrow> prefix l k \<and> prefix a (drop (length l) k)" by (auto simp: prefix_def)
  then show ?thesis using PExt by (simp add: t_join_def add.commute)
qed (simp_all add: t_join_def)

lemma used_iff: "i \<in> set (used ts) \<longleftrightarrow> i < length ts \<and> ts ! i \<noteq> PNull"
  by (auto simp: used_def)

lemma t_at_shrink:
  assumes "length ts = 16" and "nibs k"
  shows "t_at (t_shrink ts) k = t_at (PBranch ts []) k"
proof (cases "\<exists>i. used ts = [i]")
  case True
  then obtain i where i: "used ts = [i]" by blast
  have u: "i < 16" "\<And>j. j < 16 \<Longrightarrow> j \<noteq> i \<Longrightarrow> ts ! j = PNull"
    using used_iff [of _ ts] i assms(1) by auto
  have w: "unat (word_of_nat i :: byte) = i" using u(1) by (intro unat_word_of_nat) simp
  show ?thesis
  proof (cases k)
    case (Cons n a)
    then have n: "unat n < 16" using assms(2) by simp
    show ?thesis
    proof (cases "unat n = i")
      case True
      then have "n = word_of_nat i" using w byte_unat_inj by metis
      then show ?thesis using Cons True n assms(1) by (simp add: t_shrink_def i t_at_join)
    next
      case False
      then have "n \<noteq> word_of_nat i" using w by auto
      then show ?thesis using Cons False n assms(1) u(2) by (simp add: t_shrink_def i t_at_join)
    qed
  qed (simp add: t_shrink_def i t_at_join)
qed (auto simp: t_shrink_def split: list.splits)

lemma t_remove_at:
  "pt_wf t \<Longrightarrow> pt_len m t \<Longrightarrow> nibs k \<Longrightarrow> nibs k' \<Longrightarrow> length k = m \<Longrightarrow>
    (case t_remove t k of None \<Rightarrow> t_at t k = [] | Some t' \<Rightarrow> t_at t' k' = (if k' = k then [] else t_at t k'))"
proof (induction t k arbitrary: m k' rule: t_remove.induct)
  case (3 l t k)
  show ?case
  proof (cases "prefix l k")
    case True
    then have "length (drop (length l) k) = m - length l" using "3.prems"(5) by simp
    then have "case t_remove t (drop (length l) k) of None \<Rightarrow> t_at t (drop (length l) k) = []
        | Some t' \<Rightarrow> t_at t' (drop (length l) k') = (if drop (length l) k' = drop (length l) k then [] else t_at t (drop (length l) k'))"
      using "3.prems" by (intro "3.IH" [OF True]) auto
    moreover have "drop (length l) k' = drop (length l) k \<longleftrightarrow> k' = k" if "prefix l k'" using that True by (auto simp: prefix_def)
    ultimately show ?thesis using True by (auto simp: t_at_join split: option.splits)
  qed simp
next
  case (5 ts w n k)
  then have n: "unat n < length ts" "length ts = 16" "pt_wf (ts ! unat n)" "pt_len (m - 1) (ts ! unat n)" "w = []" by auto
  have IH: "case t_remove (ts ! unat n) k of None \<Rightarrow> t_at (ts ! unat n) k = []
      | Some t' \<Rightarrow> t_at t' a = (if a = k then [] else t_at (ts ! unat n) a)" if "nibs a" for a
    using "5.prems" that n by (intro "5.IH") auto
  show ?case
  proof (cases "t_remove (ts ! unat n) k")
    case None
    then show ?thesis using IH [of k] "5.prems"(3) n by simp
  next
    case (Some t')
    then show ?thesis
      using IH "5.prems"(4) n byte_unat_inj
      by (cases k') (auto simp: t_at_shrink nth_list_update)
  qed
qed auto

end
