(* ===== verification/Trie_Correct.thy ===== *)
theory Trie_Correct
  imports Trie_Spec
begin

text \<open>
  \<open>Trie_Db\<close> implements the tries of \<open>Trie_Spec\<close>: on a database in which the nodes of a
  trie are stored, lookup, insertion and removal read and write the bytes of the tree operations.
\<close>

section \<open>Reading nodes\<close>

lemma trie_rlp_simps [simp]: "trie_rlp (Inr x) = Inr x" "trie_rlp (Inl e) = Inl (TrieRLP e)"
  by (simp_all add: trie_rlp_def)

lemma rlp_nth_encode:
  assumes "size_ok (length (concat (map encode xs)))" and "i < length xs"
  shows "rlp_nth (encode (Items xs)) i = Inr (encode (xs ! i))"
proof -
  have "length xs < 2 ^ 64" using length_le_concat_encode [of xs] assms(1) by (simp add: size_ok_def)
  from subscript_encode [OF assms(1) cache_ok_fresh [OF this], of "[]" i] show ?thesis
    using assms(2) by (auto simp: rlp_nth_def simp del: encode.simps)
qed

lemma item_encode:
  "size_ok (length (concat (map encode xs))) \<Longrightarrow> i < length xs \<Longrightarrow> item (encode (Items xs)) i = Inr (encode (xs ! i))"
  by (simp add: item_def rlp_nth_encode del: encode.simps)

lemma res_map_item:
  assumes ok: "size_ok (length (concat (map encode xs)))" and "\<forall>i\<in>set is. i < length xs"
  shows "res_map (item (encode (Items xs))) is = Inr (map (\<lambda>i. encode (xs ! i)) is)"
  using assms(2) by (induction "is") (simp_all add: item_encode [OF ok] del: encode.simps)

lemma payload_Data: "size_ok (length b) \<Longrightarrow> payload (encode (Data b)) = Inr b"
  using payload_encode [of "Data b" "[]"] by (simp del: encode.simps)

lemma head_encode:
  assumes "size_ok (length (concat (map encode (Data h # xs))))" and "size_ok (length h)"
  shows "keyOf_rlp (encode (Items (Data h # xs))) = Inr (keyOf h)"
    and "isLeaf (encode (Items (Data h # xs))) = Inr (isLeaf_payload h)"
  using rlp_nth_encode [OF assms(1), of 0] payload_Data [OF assms(2)]
  by (simp_all add: keyOf_rlp_def isLeaf_def del: encode.simps)

lemma node_count_encode:
  assumes "size_ok (length (concat (map encode xs)))" and "length xs = 2 \<or> length xs = 17"
  shows "node_count (encode (Items xs)) = Inr (length xs)"
  using itemCount_Items [OF assms(1)] isList_Items [OF assms(1)] assms(2)
  by (auto simp: node_count_def simp del: encode.simps)

lemma isEmpty_Items:
  assumes "size_ok (length (concat (map encode xs)))" and "xs \<noteq> []"
  shows "\<not> isEmpty (encode (Items xs))"
proof -
  have n: "0 < length (concat (map encode xs))"
    using length_le_concat_encode [of xs] assms(2) by (metis length_greater_0_conv less_le_trans)
  show ?thesis
  proof (cases "length (concat (map encode xs)) < 56")
    case True
    then show ?thesis
      using n len_prefix_short [OF True, of 192] by (auto simp: isEmpty_def isNull_def Let_def)
  next
    case False
    then have m: "56 \<le> length (concat (map encode xs))" by simp
    obtain h y ys where "len_prefix 192 (length (concat (map encode xs))) = h # y # ys"
        "unat h = 192 + 55 + bytesRequired (length (concat (map encode xs)))"
      by (rule len_prefix_long [OF m assms(1), of 192]) auto
    then show ?thesis by (auto simp: isEmpty_def isNull_def Let_def)
  qed
qed

lemma out_list_encode:
  assumes "list_all2 appends fs xs" and "size_ok (length (concat (map encode xs)))"
  shows "out_list fs = Inr (encode (Items xs))"
  using appends_out [OF appends_list [OF assms]]
  by (simp add: out_list_def rlpList_def res_bind_assoc del: encode.simps)

lemma appends_copies: "list_all2 appends (copies (map encode xs)) xs"
  using appends_raw by (simp add: copies_def list_all2_map1 list_all2_same)

section \<open>Sizes\<close>

lemma length_pack: "length (pack ns) = length ns div 2"
  by (induction ns rule: pack.induct) auto

lemma length_hex_prefix: "length (hex_prefix l ns) = length ns div 2 + 1"
  by (cases ns) (auto simp: hex_prefix_def Let_def length_pack)

lemma length_encode_ref: "length (encode (ref_of x)) \<le> 34"
  by (auto simp: ref_of_def intro: length_encode_small simp del: encode.simps)

lemma length_encode_hp:
  assumes "nibs k"
  shows "length (encode (Data (hex_prefix l k))) < 2 ^ 31"
proof -
  have "length k div 2 < 2 ^ 30" using assms by (auto simp: nibs_def)
  then show ?thesis using length_encode_data [of "hex_prefix l k"] by (simp add: length_hex_prefix del: encode.simps)
qed

lemma size_ok_hp: "nibs k \<Longrightarrow> size_ok (length (hex_prefix l k))"
  by (auto simp: size_ok_def nibs_def length_hex_prefix)

lemma sum_list_le_mult: "(\<And>x. x \<in> set xs \<Longrightarrow> f x \<le> c) \<Longrightarrow> sum_list (map f xs) \<le> length xs * (c :: nat)"
  by (induction xs) (auto intro: add_mono)

lemma pitem_size:
  assumes "pt_wf t" and "pitem t = Items xs"
  shows "size_ok (length (concat (map encode xs)))"
proof (cases t)
  case (PLeaf k v)
  then show ?thesis using assms length_encode_hp [of k True] length_encode_data [of v] by (auto simp: size_ok_def simp del: encode.simps)
next
  case (PExt k u)
  then show ?thesis
    using assms length_encode_hp [of k False] length_encode_ref [of "pitem u"] by (auto simp: size_ok_def simp del: encode.simps)
next
  case (PBranch ts v)
  have "(\<Sum>t\<leftarrow>ts. length (encode (ref_of (pitem t)))) \<le> length ts * 34"
    by (rule sum_list_le_mult) (rule length_encode_ref)
  then show ?thesis
    using assms PBranch length_encode_data [of v]
    by (auto simp: size_ok_def length_concat comp_def simp del: encode.simps)
qed (use assms in auto)

section \<open>References\<close>

lemma pitem_Items: "t \<noteq> PNull \<Longrightarrow> \<exists>xs. pitem t = Items xs \<and> xs \<noteq> []"
  by (cases t) auto

lemma pnode_read:
  assumes "pt_wf t" and "t \<noteq> PNull"
  shows "isList (pnode t)" and "\<not> isEmpty (pnode t)" and "\<not> isNull (pnode t)" and "pnode t \<noteq> []"
    and "rlp_new (pnode t) s = Inr (pnode t)"
proof -
  obtain xs where xs: "pitem t = Items xs" "xs \<noteq> []" using pitem_Items [OF assms(2)] by blast
  note ok = pitem_size [OF assms(1) xs(1)]
  show "isList (pnode t)" "\<not> isEmpty (pnode t)" "rlp_new (pnode t) s = Inr (pnode t)"
    using isList_Items [OF ok] isEmpty_Items [OF ok xs(2)] rlp_new_Items [OF ok] xs by (simp_all add: pnode_def del: encode.simps)
  then show "\<not> isNull (pnode t)" "pnode t \<noteq> []" by (auto simp: isList_def isNull_def)
qed

lemma pnode_PNull [simp]: "pnode PNull = [0x80]"
  by (simp add: pnode_def len_prefix_def)

lemma isList_isData: "isList b \<Longrightarrow> \<not> isData b"
  by (simp add: isList_def isData_def)

definition big :: "ptrie \<Rightarrow> bool" where
  "big t = (32 \<le> length (pnode t))"

abbreviation pref :: "ptrie \<Rightarrow> bytes" where
  "pref t \<equiv> encode (ref_of (pitem t))"

lemma size_ok_32: "size_ok 32"
  by (simp add: size_ok_def)

lemma pref_small: "\<not> big t \<Longrightarrow> pref t = pnode t"
  by (simp add: big_def pnode_def ref_of_def)

lemma pref_big:
  assumes "big t"
  shows "isData (pref t)" "\<not> isList (pref t)" "\<not> isEmpty (pref t)" "rlp_h256 (pref t) = Inr (sha3 (pnode t))"
proof -
  define b where "b = toBigEndian 32 (unat (sha3 (pnode t)))"
  have l: "length b = 32" by (simp add: b_def)
  then have nb: "b \<noteq> []" by auto
  have r: "ref_of (pitem t) = Data b" using assms by (simp add: ref_of_def big_def pnode_def b_def del: encode.simps)
  have ok: "size_ok (length b)" by (simp add: l size_ok_32)
  show "isData (pref t)" "\<not> isList (pref t)" "\<not> isEmpty (pref t)"
    using encode_Data_read(3,4) [OF ok, of "[]"] isEmpty_Data [OF ok] nb by (simp_all add: r del: encode.simps)
  show "rlp_h256 (pref t) = Inr (sha3 (pnode t))"
    using toHash_Data [OF ok l, of Strict] fromBigEndian_hash [of 32 "sha3 (pnode t)"]
    by (simp add: rlp_h256_def r b_def del: encode.simps)
qed

lemma pref_read:
  assumes "pt_wf t"
  shows "isEmpty (pref t) \<longleftrightarrow> t = PNull" and "isList (pref t) \<longleftrightarrow> t \<noteq> PNull \<and> \<not> big t"
    and "isData (pref t) \<longleftrightarrow> t = PNull \<or> big t"
proof -
  have "isEmpty [0x80]" "\<not> isList [0x80]" "isData [0x80]" "\<not> big PNull" by (simp_all add: isEmpty_def isList_def isNull_def isData_def big_def)
  then have "(isEmpty (pref t) \<longleftrightarrow> t = PNull) \<and> (isList (pref t) \<longleftrightarrow> t \<noteq> PNull \<and> \<not> big t) \<and> (isData (pref t) \<longleftrightarrow> t = PNull \<or> big t)"
    using pref_big [of t] pref_small [of t] pnode_read [OF assms] isList_isData
    by (cases "t = PNull"; cases "big t") (auto simp del: encode.simps)
  then show "isEmpty (pref t) \<longleftrightarrow> t = PNull" "isList (pref t) \<longleftrightarrow> t \<noteq> PNull \<and> \<not> big t" "isData (pref t) \<longleftrightarrow> t = PNull \<or> big t"
    by blast+
qed

definition bigs :: "ptrie set \<Rightarrow> bytes set" where
  "bigs S = pnode ` {t \<in> S. big t}"

lemma bigs_simps [simp]:
  "bigs {} = {}" "bigs (insert t S) = (if big t then {pnode t} else {}) \<union> bigs S" "bigs (S \<union> T) = bigs S \<union> bigs T"
  by (auto simp: bigs_def)

lemma bigs_mono: "S \<subseteq> T \<Longrightarrow> bigs S \<subseteq> bigs T"
  by (auto simp: bigs_def)

section \<open>Keys\<close>

lemma slice_mid_wf:
  assumes "slice_wf s" and "i \<le> length (nibbles_of s)"
  shows "slice_wf (slice_mid s i)" and "nibbles_of (slice_mid s i) = drop i (nibbles_of s)"
proof -
  have l: "length (nibbles_of s) = 2 * length (ns_data s) - ns_offset s" by (simp add: nibbles_of_def)
  show "slice_wf (slice_mid s i)" using assms l by (auto simp: slice_wf_def slice_mid_def)
  show "nibbles_of (slice_mid s i) = drop i (nibbles_of s)"
    by (simp add: nibbles_of_def slice_mid_def drop_map drop_upt)
qed

lemma slice_at_hd: "slice_wf s \<Longrightarrow> nibbles_of s = n # k \<Longrightarrow> slice_at s 0 = n"
  using nth_nibbles_of [of 0 s] length_nibbles_of [of s] slice_size_wf [of s] by simp

lemma hex_prefix_slice:
  assumes "nibs k"
  shows "slice_wf (keyOf (hex_prefix l k))" and "nibbles_of (keyOf (hex_prefix l k)) = k"
    and "isLeaf_payload (hex_prefix l k) = l"
proof -
  have ns: "\<forall>n\<in>set k. unat n < 16" and len: "length k < 2 ^ 31" using assms by (simp_all add: nibs_def)
  have "length (hex_prefix l k) = length k div 2 + 1" by (rule length_hex_prefix)
  then show "slice_wf (keyOf (hex_prefix l k))" using len by (auto simp: slice_wf_def keyOf_def)
  show "nibbles_of (keyOf (hex_prefix l k)) = k" by (rule nibbles_of_keyOf_hex_prefix [OF ns])
  show "isLeaf_payload (hex_prefix l k) = l" by (rule isLeaf_hex_prefix [OF ns])
qed

lemma hp_slice:
  assumes "slice_wf s" and "i \<le> length (nibbles_of s)"
  shows "hexPrefixEncode_slice s l i (- 1) = hex_prefix l (drop i (nibbles_of s))"
    and "hexPrefixEncode_slice s l 0 (int i) = hex_prefix l (take i (nibbles_of s))"
proof -
  show "hexPrefixEncode_slice s l i (- 1) = hex_prefix l (drop i (nibbles_of s))"
    by (rule hexPrefixEncode_slice_eq [OF assms])
  have "hexPrefixEncode_range (ns_data s) l 0 (int i) (ns_offset s) = hex_prefix l (map (nibble (ns_data s)) [0 + ns_offset s..<i + ns_offset s])"
    using assms by (intro hexPrefixEncode_range_eq) (auto simp: slice_wf_def nibbles_of_def)
  moreover have "take i [ns_offset s..<2 * length (ns_data s)] = [ns_offset s..<ns_offset s + i]"
    using assms by (intro take_upt) (auto simp: slice_wf_def nibbles_of_def)
  ultimately show "hexPrefixEncode_slice s l 0 (int i) = hex_prefix l (take i (nibbles_of s))"
    by (simp add: hexPrefixEncode_slice_def nibbles_of_def take_map add.commute)
qed

section \<open>The two kinds of node\<close>

fun t_leaf :: "ptrie \<Rightarrow> bool" where
  "t_leaf (PLeaf k v) = True"
| "t_leaf t = False"

fun t_rest :: "ptrie \<Rightarrow> rlp_item" where
  "t_rest (PLeaf k v) = Data v"
| "t_rest (PExt k t) = ref_of (pitem t)"
| "t_rest t = Data []"

lemma two_item_pitem: "two_item u \<Longrightarrow> pitem u = Items [Data (hex_prefix (t_leaf u) (t_key u)), t_rest u]"
  by (cases u) (auto simp: two_item_def)

lemma two_item_wf: "two_item u \<Longrightarrow> pt_wf u \<Longrightarrow> nibs (t_key u) \<and> u \<noteq> PNull"
  by (cases u) (auto simp: two_item_def)

lemma two_read:
  assumes "pt_wf u" and "two_item u"
  shows "node_count (pnode u) = Inr 2" and "keyOf_rlp (pnode u) = Inr (keyOf (hex_prefix (t_leaf u) (t_key u)))"
    and "isLeaf (pnode u) = Inr (t_leaf u)" and "item (pnode u) 0 = Inr (encode (Data (hex_prefix (t_leaf u) (t_key u))))"
    and "item (pnode u) 1 = Inr (encode (t_rest u))" and "itemCount (pnode u) = Inr 2"
proof -
  let ?h = "hex_prefix (t_leaf u) (t_key u)"
  have p: "pitem u = Items [Data ?h, t_rest u]" by (rule two_item_pitem [OF assms(2)])
  note ok = pitem_size [OF assms(1) p]
  have h: "nibs (t_key u)" using two_item_wf assms by blast
  show "node_count (pnode u) = Inr 2" "item (pnode u) 0 = Inr (encode (Data ?h))" "item (pnode u) 1 = Inr (encode (t_rest u))"
    "itemCount (pnode u) = Inr 2"
    using node_count_encode [OF ok] item_encode [OF ok, of 0] item_encode [OF ok, of 1] itemCount_Items [OF ok]
    by (simp_all add: pnode_def p del: encode.simps)
  show "keyOf_rlp (pnode u) = Inr (keyOf ?h)" "isLeaf (pnode u) = Inr (t_leaf u)"
    using head_encode [OF ok size_ok_hp [OF h]] hex_prefix_slice(3) [OF h] by (simp_all add: pnode_def p del: encode.simps)
qed

lemma branch_read:
  assumes "pt_wf (PBranch ts v)"
  shows "node_count (pnode (PBranch ts v)) = Inr 17"
    and "i < 16 \<Longrightarrow> item (pnode (PBranch ts v)) i = Inr (pref (ts ! i))"
    and "item (pnode (PBranch ts v)) 16 = Inr (encode (Data v))"
    and "res_map (item (pnode (PBranch ts v))) [0..<16] = Inr (map pref ts)"
    and "res_map (item (pnode (PBranch ts v))) [0..<17] = Inr (map pref ts @ [encode (Data v)])"
    and "itemCount (pnode (PBranch ts v)) = Inr 17"
proof -
  let ?xs = "map (\<lambda>t. ref_of (pitem t)) ts @ [Data v]"
  have p: "pitem (PBranch ts v) = Items ?xs" by simp
  note ok = pitem_size [OF assms p]
  have l: "length ts = 16" using assms by simp
  show "node_count (pnode (PBranch ts v)) = Inr 17" "itemCount (pnode (PBranch ts v)) = Inr 17"
    using node_count_encode [OF ok] itemCount_Items [OF ok] l by (simp_all add: pnode_def del: encode.simps)
  show "i < 16 \<Longrightarrow> item (pnode (PBranch ts v)) i = Inr (pref (ts ! i))"
    "item (pnode (PBranch ts v)) 16 = Inr (encode (Data v))"
    using item_encode [OF ok, of i] item_encode [OF ok, of 16] l by (simp_all add: pnode_def nth_append del: encode.simps)
  have m: "map (\<lambda>i. encode (?xs ! i)) [0..<16] = map pref ts"
    using l by (intro nth_equalityI) (simp_all add: nth_append del: encode.simps)
  then have m': "map (\<lambda>i. encode (?xs ! i)) [0..<17] = map pref ts @ [encode (Data v)]"
    using upt_Suc [of 0 16] l by (simp add: nth_append del: encode.simps upt_Suc)
  show "res_map (item (pnode (PBranch ts v))) [0..<16] = Inr (map pref ts)"
    using res_map_item [OF ok, of "[0..<16]"] l unfolding m by (simp add: pnode_def del: encode.simps)
  show "res_map (item (pnode (PBranch ts v))) [0..<17] = Inr (map pref ts @ [encode (Data v)])"
    using res_map_item [OF ok, of "[0..<17]"] l unfolding m' by (simp add: pnode_def del: encode.simps)
qed

section \<open>The store\<close>

text \<open>What the trie needs of its database: a lookup returns what was inserted, and a kill hides nothing
  (\<^verbatim>\<open>EnforceRefs\<close> is off).\<close>

locale trie_store =
  fixes D :: "'d node_ops" and inv :: "'d \<Rightarrow> bool"
  assumes look_insert: "inv d \<Longrightarrow> v \<noteq> [] \<Longrightarrow> nd_lookup D (nd_insert D h v d) h' = (if h' = h then v else nd_lookup D d h')"
    and look_kill: "inv d \<Longrightarrow> nd_lookup D (nd_kill D h d) = nd_lookup D d"
    and inv_insert: "inv d \<Longrightarrow> inv (nd_insert D h v d)"
    and inv_kill: "inv d \<Longrightarrow> inv (nd_kill D h d)"
begin

definition has :: "'d \<Rightarrow> bytes set \<Rightarrow> bool" where
  "has d B = (\<forall>b\<in>B. nd_lookup D d (sha3 b) = b)"

lemma has_simps [simp]: "has d {}" "has d (insert b B) \<longleftrightarrow> nd_lookup D d (sha3 b) = b \<and> has d B" "has d (A \<union> B) \<longleftrightarrow> has d A \<and> has d B"
  by (auto simp: has_def)

lemma has_mono: "has d B \<Longrightarrow> A \<subseteq> B \<Longrightarrow> has d A"
  by (auto simp: has_def)

lemma killNode_ok [simp]:
  "inv d \<Longrightarrow> inv (killNode D b d)" "inv d \<Longrightarrow> nd_lookup D (killNode D b d) = nd_lookup D d"
  "inv d \<Longrightarrow> inv (killNode_hash D b h d)" "inv d \<Longrightarrow> nd_lookup D (killNode_hash D b h d) = nd_lookup D d"
  by (simp_all add: killNode_def killNode_hash_def inv_kill look_kill)

lemma has_cong: "nd_lookup D d = nd_lookup D d' \<Longrightarrow> has d B = has d' B"
  by (simp add: has_def)

lemma child_read:
  assumes "pt_wf t" and "t \<noteq> PNull" and "big t \<Longrightarrow> has d {pnode t}"
  shows "child_rlp D d (pref t) = Inr (pnode t)"
proof (cases "big t")
  case True
  then show ?thesis
    using pref_big [OF True] pnode_read(5) [OF assms(1,2)] assms(3) by (simp add: child_rlp_def node_rlp_def del: encode.simps)
next
  case False
  then show ?thesis using pref_small [OF False] pnode_read(1) [OF assms(1,2)] by (simp add: child_rlp_def)
qed

text \<open>A slice and the nibbles it stands for.\<close>

definition keyed :: "nibble_slice \<Rightarrow> bytes \<Rightarrow> bool" where
  "keyed s k = (slice_wf s \<and> nibbles_of s = k)"

lemma keyedD:
  assumes "keyed s k"
  shows "slice_size s = length k" and "k = n # a \<Longrightarrow> slice_at s 0 = n" and "i \<le> length k \<Longrightarrow> keyed (slice_mid s i) (drop i k)"
    and "nibs l \<Longrightarrow> slice_eq s (keyOf (hex_prefix f l)) \<longleftrightarrow> k = l" and "nibs l \<Longrightarrow> slice_eq (keyOf (hex_prefix f l)) s \<longleftrightarrow> k = l"
    and "nibs l \<Longrightarrow> slice_contains s (keyOf (hex_prefix f l)) \<longleftrightarrow> prefix l k"
    and "nibs l \<Longrightarrow> slice_shared s (keyOf (hex_prefix f l)) = shared k l"
  using assms slice_at_hd slice_mid_wf hex_prefix_slice [of l f]
  by (auto simp: keyed_def shared_def slice_eq_iff slice_contains_iff slice_shared_eq dest: length_nibbles_of)

lemma key_size: "nibs l \<Longrightarrow> slice_size (keyOf (hex_prefix f l)) = length l"
  using hex_prefix_slice [of l f] length_nibbles_of by metis

lemma keyed_nibs: "keyed s k \<Longrightarrow> length k < 2 ^ 31 \<Longrightarrow> nibs k"
  using nibbles_of_less_16 by (auto simp: keyed_def nibs_def)

section \<open>Lookup\<close>

lemma atAux_correct:
  "pt_wf t \<Longrightarrow> has d (bigs (psubs t)) \<Longrightarrow> keyed s k \<Longrightarrow> length k < 2 ^ 31 \<Longrightarrow> length k < n
    \<Longrightarrow> atAux D d n (pnode t) s = Inr (t_at t k)"
proof (induction t k arbitrary: s n rule: t_at.induct)
  case (1 k)
  then show ?case by (cases n) (simp_all add: isEmpty_def isNull_def)
next
  case (2 l v k)
  note two = two_read [OF "2.prems"(1)] pnode_read [OF "2.prems"(1)]
  have "toBytes (encode (Data v)) LaissezFaire = Inr v" using "2.prems"(1) by (intro toBytes_Data) (simp add: size_ok_def)
  then show ?case
    using 2 two keyedD(4,6) [OF "2.prems"(3)] by (cases n) (simp_all add: two_item_def del: encode.simps)
next
  case (3 l t k)
  obtain m where m: "n = Suc m" using "3.prems" by (cases n) auto
  note two = two_read [OF "3.prems"(1)] pnode_read [OF "3.prems"(1)]
  have l: "nibs l" "l \<noteq> []" "t \<noteq> PNull" "pt_wf t" using "3.prems" by auto
  show ?case
  proof (cases "prefix l k")
    case True
    have "length l \<le> length k" "0 < length l" using True l(2) by (auto dest: prefix_length_le)
    then have len: "length l \<le> length k" "length (drop (length l) k) < 2 ^ 31" "length (drop (length l) k) < m"
      using "3.prems"(4,5) m unfolding length_drop by linarith+
    moreover have "has d (bigs (psubs t))" using "3.prems"(2) by simp
    ultimately have "atAux D d m (pnode t) (slice_mid s (length l)) = Inr (t_at t (drop (length l) k))"
      using "3.prems"(3) l(4) by (intro "3.IH" [OF True]) (auto intro: keyedD(3))
    moreover have "child_rlp D d (pref t) = Inr (pnode t)"
      using "3.prems" l by (intro child_read) (auto split: if_splits)
    ultimately show ?thesis
      using two True l keyedD(4,6) [OF "3.prems"(3)] by (simp add: m two_item_def key_size del: encode.simps)
  next
    case False
    then show ?thesis
      using two l keyedD(4,6) [OF "3.prems"(3)] by (simp add: m two_item_def del: encode.simps)
  qed
next
  case (4 ts v)
  note br = branch_read [OF "4.prems"(1)] pnode_read [OF "4.prems"(1)]
  have "toBytes (encode (Data v)) LaissezFaire = Inr v" using "4.prems"(1) by (intro toBytes_Data) (simp add: size_ok_def)
  then show ?case
    using 4 br keyedD(1) [OF "4.prems"(3)] by (cases n) (simp_all del: encode.simps)
next
  case (5 ts v c k)
  obtain m where m: "n = Suc m" using "5.prems" by (cases n) auto
  note br = branch_read [OF "5.prems"(1)] pnode_read [OF "5.prems"(1)]
  have l: "length ts = 16" "unat c < 16" using "5.prems" keyed_nibs [OF "5.prems"(3)] by auto
  then have t: "ts ! unat c \<in> set ts" "pt_wf (ts ! unat c)" using "5.prems"(1) by auto
  have sub: "has d (bigs (insert (ts ! unat c) (psubs (ts ! unat c))))"
    using "5.prems"(2) t(1) by (elim has_mono) (auto simp: bigs_def)
  show ?case
  proof (cases "ts ! unat c = PNull")
    case True
    then show ?thesis
      using br l t keyedD(1,2) [OF "5.prems"(3)] pref_read(1) [OF t(2)] by (simp add: m del: encode.simps)
  next
    case False
    have "child_rlp D d (pref (ts ! unat c)) = Inr (pnode (ts ! unat c))"
      using sub t False by (intro child_read) (auto split: if_splits)
    moreover have "atAux D d m (pnode (ts ! unat c)) (slice_mid s 1) = Inr (t_at (ts ! unat c) k)"
      using "5.prems" m t l sub keyedD(3) [OF "5.prems"(3), of 1] by (intro "5.IH") auto
    ultimately show ?thesis
      using br l t keyedD(1,2) [OF "5.prems"(3)] pref_read(1) [OF t(2)] False by (simp add: m del: encode.simps)
  qed
qed

end

end
