(* ===== verification/Trie_Update.thy ===== *)
theory Trie_Update
  imports Trie_Correct
begin

text \<open>
  Insertion and removal.  The database keeps every node it had, as long as the hashes of the nodes in
  play differ; these are the nodes of the trie before and after and, where a key is cloven, the lower
  half, which is stored and read back at once (\<open>cleved\<close>).
\<close>

section \<open>Intermediate nodes\<close>

definition cleft :: "ptrie \<Rightarrow> bytes \<Rightarrow> ptrie set" where
  "cleft u k = (let s = shared k (t_key u) in if s = 0 then {} else {t_drop s u})"

function cleved :: "ptrie \<Rightarrow> bytes \<Rightarrow> ptrie set" where
  "cleved PNull k = {}"
| "cleved (PLeaf l v) k = (if k = l then {} else cleft (PLeaf l v) k)"
| "cleved (PExt l t) k = (if prefix l k then cleved t (drop (length l) k) else cleft (PExt l t) k)"
| "cleved (PBranch ts w) [] = {}"
| "cleved (PBranch ts w) (n # k) = (if unat n < length ts then cleved (ts ! unat n) k else {})"
  by pat_completeness auto

termination cleved
  by (relation "measure (\<lambda>(t, k). size t)") (auto simp: size_nth_less)

text \<open>The nodes an insertion reads or writes, without the root.\<close>

definition touched :: "ptrie \<Rightarrow> bytes \<Rightarrow> bytes \<Rightarrow> ptrie set" where
  "touched t k v = psubs t \<union> psubs (t_insert t k v) \<union> cleved t k"

lemma touched_ext: "prefix l k \<Longrightarrow> touched t (drop (length l) k) v \<subseteq> touched (PExt l t) k v"
  by (auto simp: touched_def)

lemma touched_branch:
  assumes "unat n < length ts"
  shows "touched (ts ! unat n) k v \<subseteq> touched (PBranch ts w) (n # k) v"
proof -
  have "ts ! unat n \<in> set ts" "t_insert (ts ! unat n) k v \<in> set (ts[unat n := t_insert (ts ! unat n) k v])"
    using assms by (auto intro: set_update_memI)
  then show ?thesis using assms by (auto simp: touched_def)
qed

lemma psubs_branch_fork:
  assumes u: "pt_wf u" "two_item u" "nibs k"
    and off: "case u of PLeaf l _ \<Rightarrow> k \<noteq> l | PExt l _ \<Rightarrow> \<not> prefix l k | _ \<Rightarrow> True"
  shows "psubs (t_branch (t_drop (shared k (t_key u)) u)) \<subseteq> insert PNull (psubs (t_fork u k v))"
proof -
  define s where "s = shared k (t_key u)"
  have wb: "pt_wf (t_drop s u)" using t_drop_wf [OF u(1,2), of k] off by (auto simp: s_def split: ptrie.splits)
  obtain ts w where b: "t_branch (t_drop s u) = PBranch ts w" "length ts = 16"
    "\<And>n. unat n < 16 \<Longrightarrow> (\<And>a. t_key (t_drop s u) \<noteq> n # a) \<Longrightarrow> ts ! unat n = PNull"
    using t_branch_shape [OF wb] u(2) wb by (metis pt_wf.simps(3) t_drop_simps(1))
  have "psubs (PBranch ts w) \<subseteq> insert PNull (psubs (t_put (PBranch ts w) (drop s k) v))"
  proof (cases "drop s k")
    case (Cons n a)
    then have "unat n < 16" using u(3) by (metis in_set_dropD list.set_intros(1) nibs_def)
    then have "ts ! unat n = PNull" using shared_split [of k "t_key u" n a n] Cons by (intro b(3)) (auto simp: s_def)
    then have "set ts \<subseteq> insert PNull (set (ts[unat n := PLeaf a v]))"
      by (metis in_set_conv_nth insert_iff length_list_update nth_list_update_neq nth_mem subsetI)
    then show ?thesis using Cons by fastforce
  qed auto
  then show ?thesis by (auto simp: t_fork_def t_wrap_def s_def [symmetric] b(1) Let_def)
qed

context trie_store
begin

definition keeps :: "bytes set \<Rightarrow> 'd \<Rightarrow> 'd \<Rightarrow> bool" where
  "keeps N d d' = (inv d' \<and> (\<forall>B. B \<subseteq> N \<longrightarrow> has d B \<longrightarrow> has d' B))"

lemma keeps_refl [simp]: "inv d \<Longrightarrow> keeps N d d"
  by (simp add: keeps_def)

lemma keeps_trans: "keeps N d d1 \<Longrightarrow> keeps N d1 d2 \<Longrightarrow> keeps N d d2"
  by (simp add: keeps_def)

lemma keeps_look: "inv d' \<Longrightarrow> nd_lookup D d' = nd_lookup D d \<Longrightarrow> keeps N d d'"
  by (simp add: keeps_def has_def)

lemma keeps_has: "keeps N d d' \<Longrightarrow> has d B \<Longrightarrow> B \<subseteq> N \<Longrightarrow> has d' B"
  by (simp add: keeps_def)

lemma keeps_kill [simp]: "inv d \<Longrightarrow> keeps N d (killNode D b d)" "inv d \<Longrightarrow> keeps N d (killNode_hash D b h d)"
  by (simp_all add: keeps_look)

lemma insert_keeps:
  assumes "inv d" and "b \<in> N" and "inj_on sha3 N" and "b \<noteq> []"
  shows "keeps N d (nd_insert D (sha3 b) b d)" and "has (nd_insert D (sha3 b) b d) {b}"
  using assms by (auto simp: keeps_def has_def inv_insert look_insert dest: inj_onD)

lemma pnode_ne: "pt_wf t \<Longrightarrow> pnode t \<noteq> []"
  using pnode_read(4) by (cases "t = PNull") auto

lemma streamNode_ok:
  assumes "pt_wf t" and "inv d" and "bigs {t} \<subseteq> N" and "inj_on sha3 N"
  shows "\<exists>app d'. streamNode D (pnode t) d = (app, d') \<and> appends app (ref_of (pitem t)) \<and> keeps N d d' \<and> has d' (bigs {t})"
proof (cases "big t")
  case True
  then have N: "pnode t \<in> N" using assms(3) by simp
  have "appends (append_bytes (toBigEndian 32 (unat (sha3 (pnode t)))) False) (hash_item 32 (sha3 (pnode t)))"
    by (rule appends_hash [OF size_ok_32])
  moreover have "hash_item 32 (sha3 (pnode t)) = ref_of (pitem t)"
    using True by (simp add: hash_item_def ref_of_def big_def pnode_def)
  ultimately show ?thesis
    using True insert_keeps [OF assms(2) N assms(4) pnode_ne [OF assms(1)]]
    by (simp add: streamNode_def forceInsertNode_def big_def)
next
  case False
  then have "appends (appendRaw (pnode t) 1) (ref_of (pitem t))"
    using appends_raw [of "pitem t"] by (simp add: ref_of_def big_def pnode_def)
  then show ?thesis using False assms(2) by (simp add: streamNode_def big_def)
qed

section \<open>Writing nodes\<close>

lemma write_two:
  assumes "two_item u" and "pt_wf u" and "appends f (t_rest u)" and "h = hex_prefix (t_leaf u) (t_key u)"
  shows "out_list [append_bytes h False, f] = Inr (pnode u)"
proof -
  have p: "pitem u = Items [Data h, t_rest u]" using two_item_pitem [OF assms(1)] assms(4) by simp
  have "size_ok (length h)" using size_ok_hp two_item_wf assms by auto
  then have "list_all2 appends [append_bytes h False, f] [Data h, t_rest u]" using appends_bytes assms(3) by simp
  from out_list_encode [OF this pitem_size [OF assms(2) p]] show ?thesis by (simp add: pnode_def p del: encode.simps)
qed

lemma rewrite_two:
  assumes "two_item u" and "pt_wf u" and "appends f (t_rest u)"
  shows "out_list [appendRaw (encode (Data (hex_prefix (t_leaf u) (t_key u)))) 1, f] = Inr (pnode u)"
proof -
  let ?h = "hex_prefix (t_leaf u) (t_key u)"
  have p: "pitem u = Items [Data ?h, t_rest u]" by (rule two_item_pitem [OF assms(1)])
  have "list_all2 appends [appendRaw (encode (Data ?h)) 1, f] [Data ?h, t_rest u]"
    using appends_raw [of "Data ?h"] assms(3) by (simp del: encode.simps)
  from out_list_encode [OF this pitem_size [OF assms(2) p]] show ?thesis by (simp add: pnode_def p del: encode.simps)
qed

lemma write_branch:
  assumes "pt_wf (PBranch ts v)" and "list_all2 appends fs (map (\<lambda>t. ref_of (pitem t)) ts)" and "appends f (Data v)"
  shows "out_list (fs @ [f]) = Inr (pnode (PBranch ts v))"
proof -
  have p: "pitem (PBranch ts v) = Items (map (\<lambda>t. ref_of (pitem t)) ts @ [Data v])" by simp
  have "list_all2 appends (fs @ [f]) (map (\<lambda>t. ref_of (pitem t)) ts @ [Data v])"
    using assms(2,3) by (intro list_all2_appendI) auto
  from out_list_encode [OF this pitem_size [OF assms(1) p]] show ?thesis by (simp add: pnode_def del: encode.simps)
qed

lemma size_ok_value: "length v < 2 ^ 62 \<Longrightarrow> size_ok (length v)"
  by (simp add: size_ok_def)

lemma copies_pref: "list_all2 appends (copies (map pref ts)) (map (\<lambda>t. ref_of (pitem t)) ts)"
  using appends_copies [of "map (\<lambda>t. ref_of (pitem t)) ts"] by (simp add: comp_def)

lemma place_null:
  assumes "keyed s k" and "nibs k" and "length v < 2 ^ 62"
  shows "place D (pnode PNull) s v d = Inr (pnode (PLeaf k v), d)"
proof -
  have "hexPrefixEncode_slice s True 0 (- 1) = hex_prefix True k"
    using hp_slice(1) [of s 0] assms(1) by (simp add: keyed_def)
  then have "out_list [append_bytes (hexPrefixEncode_slice s True 0 (- 1)) False, append_bytes v False] = Inr (pnode (PLeaf k v))"
    using assms appends_bytes [OF size_ok_value [OF assms(3)]] by (intro write_two) (auto simp: two_item_def)
  then show ?thesis by (simp add: place_def Let_def isEmpty_def isNull_def killNode_def)
qed

lemma place_leaf:
  assumes "pt_wf (PLeaf k w)" and "length v < 2 ^ 62"
  shows "place D (pnode (PLeaf k w)) s v d = Inr (pnode (PLeaf k v), killNode D (pnode (PLeaf k w)) d)"
proof -
  have "out_list [appendRaw (encode (Data (hex_prefix True k))) 1, append_bytes v False] = Inr (pnode (PLeaf k v))"
    using rewrite_two [of "PLeaf k v"] assms appends_bytes [OF size_ok_value [OF assms(2)]] by (simp add: two_item_def del: encode.simps)
  then show ?thesis
    using two_read [OF assms(1)] pnode_read [OF assms(1)] by (simp add: place_def Let_def two_item_def del: encode.simps)
qed

lemma place_branch:
  assumes "pt_wf (PBranch ts w)" and "length v < 2 ^ 62"
  shows "place D (pnode (PBranch ts w)) s v d = Inr (pnode (PBranch ts v), killNode D (pnode (PBranch ts w)) d)"
proof -
  have "pt_wf (PBranch ts v)" using assms by simp
  from write_branch [OF this copies_pref appends_bytes [OF size_ok_value [OF assms(2)]]]
  show ?thesis
    using branch_read [OF assms(1)] pnode_read [OF assms(1)] by (simp add: place_def Let_def del: encode.simps)
qed

lemma cleve_ok:
  assumes u: "pt_wf u" "two_item u" and s: "s \<noteq> 0" "s \<le> length (t_key u)" and b: "pt_wf (t_drop s u)"
    and N: "inv d" "bigs {t_drop s u} \<subseteq> N" "inj_on sha3 N"
  shows "\<exists>d'. cleve D (pnode u) s d = Inr (pnode (PExt (take s (t_key u)) (t_drop s u)), d') \<and> keeps N d d'
    \<and> has d' (bigs {t_drop s u})"
proof -
  let ?h = "hex_prefix (t_leaf u) (t_key u)" and ?d = "killNode D (pnode u) d"
  have nk: "nibs (t_key u)" "u \<noteq> PNull" using two_item_wf u by blast+
  note sl = hex_prefix_slice [OF nk(1), of "t_leaf u"]
  have hp: "hexPrefixEncode_slice (keyOf ?h) l s (- 1) = hex_prefix l (drop s (t_key u))"
    "hexPrefixEncode_slice (keyOf ?h) l 0 (int s) = hex_prefix l (take s (t_key u))" for l
    using hp_slice [OF sl(1), of s] s(2) sl(2) by simp_all
  have rest: "t_rest (t_drop s u) = t_rest u" "t_leaf (t_drop s u) = t_leaf u" by (cases u; simp)+
  have "out_list [append_bytes (hexPrefixEncode_slice (keyOf ?h) (t_leaf u) s (- 1)) False, appendRaw (encode (t_rest u)) 1] = Inr (pnode (t_drop s u))"
    using u b hp(1) rest appends_raw [of "t_rest u"] by (intro write_two) simp_all
  moreover
  obtain a d2 where a: "streamNode D (pnode (t_drop s u)) ?d = (a, d2)" "appends a (ref_of (pitem (t_drop s u)))"
      "keeps N ?d d2" "has d2 (bigs {t_drop s u})"
    using streamNode_ok [OF b killNode_ok(1) N(2,3)] N(1) by blast
  moreover have "pt_wf (PExt (take s (t_key u)) (t_drop s u))"
    using nk b s u(2) by (cases u) (auto simp: two_item_def)
  then have "out_list [append_bytes (hexPrefixEncode_slice (keyOf ?h) False 0 (int s)) False, a] = Inr (pnode (PExt (take s (t_key u)) (t_drop s u)))"
    using a(2) hp(2) by (intro write_two) (simp_all add: two_item_def)
  ultimately show ?thesis
    using two_read [OF u] s key_size [OF nk(1), of "t_leaf u"] keeps_trans [OF keeps_kill(1) [OF N(1)] a(3)]
    by (simp add: cleve_def Let_def del: encode.simps)
qed

text \<open>The sixteen children of a fresh branch: all empty but one.\<close>

lemma appends_no_kids:
  "appends (append_bytes [] False) (ref_of (pitem PNull))"
  using appends_bytes [of "[]"] by (simp add: ref_of_def len_prefix_def size_ok_def)

lemma write_one_kid:
  assumes "appends a (ref_of (pitem t))" and "pt_wf (PBranch (no_kids[i := t]) [])"
  shows "out_list ((replicate 16 (append_bytes [] False))[i := a] @ [append_bytes [] False]) = Inr (pnode (PBranch (no_kids[i := t]) []))"
proof (rule write_branch [OF assms(2)])
  have "list_all2 appends (replicate 16 (append_bytes [] False)) (replicate 16 (ref_of (pitem PNull)))"
    using appends_no_kids by (simp add: list_all2_conv_all_nth)
  then have "list_all2 appends ((replicate 16 (append_bytes [] False))[i := a]) ((replicate 16 (ref_of (pitem PNull)))[i := ref_of (pitem t)])"
    by (rule list_all2_update_cong) (rule assms(1))
  then show "list_all2 appends ((replicate 16 (append_bytes [] False))[i := a]) (map (\<lambda>t. ref_of (pitem t)) (no_kids[i := t]))"
    by (simp add: no_kids_def map_update map_replicate del:)
  show "appends (append_bytes [] False) (Data [])" by (rule appends_bytes) (simp add: size_ok_def)
qed

lemma psubs_one_kid: "i < 16 \<Longrightarrow> psubs (PBranch (no_kids[i := t]) w) \<subseteq> {PNull, t} \<union> psubs t"
  by (auto dest!: set_update_subset_insert [THEN subsetD] simp: no_kids_def)

lemma not_big_PNull [simp]: "\<not> big PNull"
  by (simp add: big_def)

lemma bigs_insert_PNull: "S \<subseteq> {PNull, t} \<union> U \<Longrightarrow> bigs S \<subseteq> bigs {t} \<union> bigs U"
  by (auto simp: bigs_def)

lemma has_one_kid:
  assumes "has d (bigs {t})" and "has d (bigs (psubs t))" and "i < 16"
  shows "has d (bigs (psubs (PBranch (no_kids[i := t]) w)))"
  using assms(1,2) by (intro has_mono [OF _ bigs_insert_PNull [OF psubs_one_kid [OF assms(3)]]]) simp

lemma branch_key_ne:
  assumes u: "pt_wf u" "two_item u" and k: "t_key u = n # a"
    and N: "inv d" "bigs (psubs u) \<subseteq> N" "bigs (psubs (t_branch u)) \<subseteq> N" "inj_on sha3 N" and h: "has d (bigs (psubs u))"
  shows "\<exists>d'. branch D (pnode u) d = Inr (pnode (t_branch u), d') \<and> keeps N d d' \<and> has d' (bigs (psubs (t_branch u)))"
proof -
  let ?h = "hex_prefix (t_leaf u) (t_key u)" and ?d = "killNode D (pnode u) d"
  have nk: "nibs (t_key u)" "u \<noteq> PNull" "unat n < 16" using two_item_wf u k by fastforce+
  note sl = hex_prefix_slice [OF nk(1), of "t_leaf u"]
  have key: "keyed (keyOf ?h) (n # a)" using sl k by (simp add: keyed_def)
  have kd: "slice_at (keyOf ?h) 0 = n" "slice_size (keyOf ?h) = Suc (length a)" "keyed (slice_mid (keyOf ?h) 1) a"
    using keyedD(1,2) [OF key] keyedD(3) [OF key, of 1] by auto
  define x where "x = (case u of PLeaf _ v \<Rightarrow> PLeaf a v | PExt _ t \<Rightarrow> (if a = [] then t else PExt a t) | _ \<Rightarrow> PNull)"
  have b: "t_branch u = PBranch (no_kids[unat n := x]) []" using u(2) k by (cases u) (auto simp: two_item_def x_def)
  have wx: "pt_wf x" "pt_wf (t_branch u)" using u k pt_wf_branch [OF u] by (cases u; auto simp: x_def two_item_def)+
  have subs: "psubs x \<subseteq> psubs u" using u(2) by (cases u) (auto simp: x_def two_item_def)
  have Nx: "bigs {x} \<subseteq> N" using N(3) nk(3) by (force simp: b bigs_def set_update_memI)
  have hd: "has ?d (bigs (psubs u))" using h N(1) by (simp add: has_def)
  have app: "\<exists>app d2. (if t_leaf u \<or> slice_size (keyOf ?h) > 1 then
               res_bind (out_list [append_bytes (hexPrefixEncode_slice (slice_mid (keyOf ?h) 1) (t_leaf u) 0 (- 1)) False, appendRaw (encode (t_rest u)) 1])
                 (\<lambda>n. Inr (streamNode D n ?d))
             else Inr (appendRaw (encode (t_rest u)) 1, ?d)) = Inr (app, d2) \<and> appends app (ref_of (pitem x)) \<and> keeps N ?d d2
      \<and> has d2 (bigs {x})"
  proof (cases "t_leaf u \<or> a \<noteq> []")
    case True
    have two: "two_item x" "t_leaf x = t_leaf u" "t_key x = a" "t_rest x = t_rest u"
      using True u(2) by (cases u; auto simp: x_def two_item_def)+
    have "hexPrefixEncode_slice (slice_mid (keyOf ?h) 1) (t_leaf u) 0 (- 1) = hex_prefix (t_leaf u) a"
      using hp_slice(1) [of "slice_mid (keyOf ?h) 1" 0] kd(3) by (simp add: keyed_def)
    then have "out_list [append_bytes (hexPrefixEncode_slice (slice_mid (keyOf ?h) 1) (t_leaf u) 0 (- 1)) False, appendRaw (encode (t_rest u)) 1] = Inr (pnode x)"
      using two wx(1) appends_raw [of "t_rest u"] by (intro write_two) simp_all
    moreover obtain app d2 where "streamNode D (pnode x) ?d = (app, d2)" "appends app (ref_of (pitem x))" "keeps N ?d d2" "has d2 (bigs {x})"
      using streamNode_ok [OF wx(1) killNode_ok(1) Nx N(4)] N(1) by blast
    moreover have "t_leaf u \<or> slice_size (keyOf ?h) > 1" using True kd(2) by auto
    ultimately show ?thesis by simp
  next
    case False
    then obtain l t where t: "u = PExt l t" "x = t" "a = []" using u(2) by (cases u) (auto simp: x_def two_item_def)
    then have "has ?d (bigs {x})" using hd by (auto split: if_splits)
    then show ?thesis using False t kd(2) N(1) appends_raw [of "t_rest u"] by simp
  qed
  then obtain app d2 where a2: "(if t_leaf u \<or> slice_size (keyOf ?h) > 1 then
               res_bind (out_list [append_bytes (hexPrefixEncode_slice (slice_mid (keyOf ?h) 1) (t_leaf u) 0 (- 1)) False, appendRaw (encode (t_rest u)) 1])
                 (\<lambda>n. Inr (streamNode D n ?d))
             else Inr (appendRaw (encode (t_rest u)) 1, ?d)) = Inr (app, d2)" "appends app (ref_of (pitem x))" "keeps N ?d d2" "has d2 (bigs {x})" by blast
  have "out_list ((replicate 16 (append_bytes [] False))[unat n := app] @ [append_bytes [] False]) = Inr (pnode (t_branch u))"
    using write_one_kid [OF a2(2)] wx(2) unfolding b by blast
  moreover have "has d2 (bigs (psubs x))"
    by (rule keeps_has [OF a2(3) has_mono [OF hd bigs_mono [OF subs]]]) (use bigs_mono [OF subs] N(2) in blast)
  then have "has d2 (bigs (psubs (t_branch u)))" using has_one_kid [OF a2(4) _ nk(3)] by (simp add: b)
  ultimately show ?thesis
    using two_read [OF u] a2(1) kd(1,2) keeps_trans [OF keeps_kill(1) [OF N(1)] a2(3)]
    by (simp add: branch_def Let_def del: encode.simps)
qed

lemma branch_ok:
  assumes u: "pt_wf u" "two_item u"
    and N: "inv d" "bigs (psubs u) \<subseteq> N" "bigs (psubs (t_branch u)) \<subseteq> N" "inj_on sha3 N" and h: "has d (bigs (psubs u))"
  shows "\<exists>d'. branch D (pnode u) d = Inr (pnode (t_branch u), d') \<and> keeps N d d' \<and> has d' (bigs (psubs (t_branch u)))"
proof (cases "t_key u")
  case Nil
  then obtain v where v: "u = PLeaf [] v" using u by (cases u) (auto simp: two_item_def)
  have "list_all2 appends (replicate 16 (append_bytes [] False)) (map (\<lambda>t. ref_of (pitem t)) no_kids)"
    using appends_no_kids by (simp add: list_all2_conv_all_nth no_kids_def del:)
  moreover have "pt_wf (PBranch no_kids v)" using u pt_wf_branch [OF u] by (simp add: v)
  ultimately have "out_list (replicate 16 (append_bytes [] False) @ [appendRaw (encode (Data v)) 1]) = Inr (pnode (t_branch u))"
    using appends_raw [of "Data v"] write_branch by (simp add: v del: encode.simps)
  moreover have "bigs (psubs (t_branch u)) = {}" by (auto simp: v bigs_def no_kids_def)
  ultimately show ?thesis
    using two_read [OF u] key_size [of "[]" True] N(1) by (simp add: branch_def Let_def v del: encode.simps)
qed (rule branch_key_ne [OF u _ N h])

section \<open>Insertion\<close>

text \<open>The result is the node of a trie whose parts are stored, and nothing stored is lost.\<close>

definition writes :: "bytes set \<Rightarrow> 'd \<Rightarrow> ptrie \<Rightarrow> trie_error + bytes \<times> 'd \<Rightarrow> bool" where
  "writes N d t r = (\<exists>d'. r = Inr (pnode t, d') \<and> keeps N d d' \<and> has d' (bigs (psubs t)))"

lemma writes_after: "keeps N d d1 \<Longrightarrow> writes N d1 t r \<Longrightarrow> writes N d t r"
  by (auto simp: writes_def intro: keeps_trans)

lemma mergeAtAux_ok:
  assumes x: "pt_wf x" "has d (bigs {x})" "inv d" and rec: "\<And>h inl. writes N d x' (rec (pnode x) h s inl d)"
    and x': "pt_wf x'" "bigs (insert x' (psubs x')) \<subseteq> N" and N: "inj_on sha3 N"
  shows "\<exists>app d'. mergeAtAux D rec (pref x) s d = Inr (app, d') \<and> appends app (ref_of (pitem x')) \<and> keeps N d d'
    \<and> has d' (bigs (insert x' (psubs x')))"
proof -
  let ?b = "big x"
  obtain d1 where d1: "rec (pnode x) (sha3 (pnode x)) s (\<not> ?b) d = Inr (pnode x', d1)" "keeps N d d1" "has d1 (bigs (psubs x'))"
    using rec [of "sha3 (pnode x)" "\<not> ?b"] by (auto simp: writes_def)
  have Nx: "bigs {x'} \<subseteq> N" "bigs (psubs x') \<subseteq> N" using x'(2) by auto
  obtain app d2 where d2: "streamNode D (pnode x') d1 = (app, d2)" "appends app (ref_of (pitem x'))" "keeps N d1 d2" "has d2 (bigs {x'})"
    using streamNode_ok [OF x'(1) _ Nx(1) N, of d1] d1(2) by (auto simp: keeps_def)
  have r: "(if \<not> isList (pref x) \<and> \<not> isEmpty (pref x) then
          res_bind (rlp_h256 (pref x)) (\<lambda>h. res_bind (node_rlp D d h) (\<lambda>r. res_bind (guard (\<not> isNull r) TrieAssert) (\<lambda>_. Inr (r, True))))
        else Inr (pref x, False)) = Inr (pnode x, ?b)"
  proof (cases ?b)
    case True
    then have "x \<noteq> PNull" by auto
    then show ?thesis
      using True pref_big [OF True] pnode_read [OF x(1)] x(2) by (simp add: node_rlp_def del: encode.simps)
  next
    case False
    then show ?thesis using pref_read [OF x(1)] pref_small [OF False] by auto
  qed
  have "has d2 (bigs (psubs x'))" by (rule keeps_has [OF d2(3) d1(3) Nx(2)])
  then show ?thesis
    using r d1(1) d2 keeps_trans [OF d1(2) d2(3)] by (simp add: mergeAtAux_def del: encode.simps)
qed

lemma rewrite_kid:
  assumes t: "pt_wf (PBranch ts w)" and x: "pt_wf x" and i: "i < 16" and a: "appends app (ref_of (pitem x))"
  shows "out_list ((copies (map pref ts @ [encode (Data w)]))[i := app]) = Inr (pnode (PBranch (ts[i := x]) w))"
proof -
  have wf: "pt_wf (PBranch (ts[i := x]) w)" using t x by (auto dest!: set_update_subset_insert [THEN subsetD])
  have "list_all2 appends ((copies (map pref ts))[i := app]) (map (\<lambda>t. ref_of (pitem t)) (ts[i := x]))"
    using list_all2_update_cong [OF copies_pref, of app "ref_of (pitem x)" ts i] a by (simp add: map_update)
  from write_branch [OF wf this appends_raw] show ?thesis
    using t i by (simp add: copies_def list_update_append del: encode.simps)
qed

lemma has_kid:
  assumes "has d (bigs (psubs (PBranch ts w)))" and "has d (bigs (insert x (psubs x)))"
  shows "has d (bigs (psubs (PBranch (ts[i := x]) w)))"
proof -
  have "psubs (PBranch (ts[i := x]) w) \<subseteq> insert x (psubs x) \<union> psubs (PBranch ts w)"
    by (auto dest!: set_update_subset_insert [THEN subsetD])
  then show ?thesis using assms has_mono [OF _ bigs_mono] by (metis bigs_simps(3) has_simps(3))
qed

lemma merge_branch_step:
  assumes t: "pt_wf (PBranch ts w)" and k: "keyed s (c # a)" "unat c < 16" and d: "inv d" "has d (bigs (psubs (PBranch ts w)))"
    and rec: "\<And>h inl d1. inv d1 \<Longrightarrow> nd_lookup D d1 = nd_lookup D d
      \<Longrightarrow> writes N d1 x' (mergeAt D v n (pnode (ts ! unat c)) h (slice_mid s 1) inl d1)"
    and x': "pt_wf x'" and N: "inj_on sha3 N" "bigs (psubs (PBranch ts w)) \<subseteq> N" "bigs (psubs (PBranch (ts[unat c := x']) w)) \<subseteq> N"
  shows "writes N d (PBranch (ts[unat c := x']) w) (mergeAt D v (Suc n) (pnode (PBranch ts w)) h s inl d)"
proof -
  let ?i = "unat c" and ?d = "if inl then d else killNode_hash D (pnode (PBranch ts w)) h d"
  have l: "length ts = 16" using t by simp
  have dd: "inv ?d" "nd_lookup D ?d = nd_lookup D d" "keeps N d ?d" using d(1) by simp_all
  have x: "pt_wf (ts ! ?i)" "ts ! ?i \<in> set ts" using t k(2) by auto
  have hx: "has ?d (bigs {ts ! ?i})"
    using d(2) x(2) dd(2) by (intro has_mono [OF has_cong [THEN iffD2, OF dd(2) d(2)]]) (auto simp: bigs_def)
  have sub: "insert x' (psubs x') \<subseteq> psubs (PBranch (ts[?i := x']) w)" using l k(2) set_update_memI [of ?i ts x'] by fastforce
  have Nx: "bigs (insert x' (psubs x')) \<subseteq> N" using bigs_mono [OF sub] N(3) by blast
  obtain app d2 where a: "mergeAtAux D (mergeAt D v n) (pref (ts ! ?i)) (slice_mid s 1) ?d = Inr (app, d2)"
      "appends app (ref_of (pitem x'))" "keeps N ?d d2" "has d2 (bigs (insert x' (psubs x')))"
    using mergeAtAux_ok [where rec = "mergeAt D v n", OF x(1) hx dd(1) rec [OF dd(1,2)] x' Nx N(1)] by blast
  note out = rewrite_kid [OF t x'(1) k(2) a(2)]
  have "has d2 (bigs (psubs (PBranch ts w)))" using keeps_has [OF keeps_trans [OF dd(3) a(3)] d(2) N(2)] .
  then have "has d2 (bigs (psubs (PBranch (ts[?i := x']) w)))" by (rule has_kid [OF _ a(4)])
  moreover have "(map pref ts @ [encode (Data w)]) ! ?i = pref (ts ! ?i)" using l k(2) by (simp add: nth_append)
  ultimately show ?thesis
    using out branch_read [OF t] pnode_read [OF t] keyedD(1,2) [OF k(1)] a(1) keeps_trans [OF dd(3) a(3)]
    by (auto simp: writes_def Let_def simp del: encode.simps pitem.simps psubs.simps)
qed

lemma merge_ext_step:
  assumes t: "pt_wf (PExt l t)" and k: "keyed s k" "prefix l k" and d: "inv d" "has d (bigs (psubs (PExt l t)))"
    and rec: "\<And>h inl d1. inv d1 \<Longrightarrow> nd_lookup D d1 = nd_lookup D d
      \<Longrightarrow> writes N d1 x' (mergeAt D v n (pnode t) h (slice_mid s (length l)) inl d1)"
    and x': "pt_wf x'" "x' \<noteq> PNull" and N: "inj_on sha3 N" "bigs (psubs (PExt l x')) \<subseteq> N"
  shows "writes N d (PExt l x') (mergeAt D v (Suc n) (pnode (PExt l t)) h s inl d)"
proof -
  let ?d = "if inl then d else killNode_hash D (pnode (PExt l t)) h d"
  have l: "nibs l" "pt_wf t" using t by auto
  have dd: "inv ?d" "nd_lookup D ?d = nd_lookup D d" "keeps N d ?d" using d(1) by simp_all
  have hx: "has ?d (bigs {t})" by (rule has_mono [OF has_cong [THEN iffD2, OF dd(2) d(2)]]) (auto simp: bigs_def)
  have Nx: "bigs (insert x' (psubs x')) \<subseteq> N" using N(2) by simp
  obtain app d2 where a: "mergeAtAux D (mergeAt D v n) (pref t) (slice_mid s (length l)) ?d = Inr (app, d2)"
      "appends app (ref_of (pitem x'))" "keeps N ?d d2" "has d2 (bigs (insert x' (psubs x')))"
    using mergeAtAux_ok [where rec = "mergeAt D v n", OF l(2) hx dd(1) rec [OF dd(1,2)] x'(1) Nx N(1)] by blast
  have "out_list [appendRaw (encode (Data (hex_prefix False l))) 1, app] = Inr (pnode (PExt l x'))"
    using rewrite_two [of "PExt l x'" app] t x' a(2) by (simp add: two_item_def del: encode.simps)
  then show ?thesis
    using two_read [OF t] pnode_read [OF t] keyedD(5,6) [OF k(1) l(1)] k(2) key_size [OF l(1)] a(1,4) keeps_trans [OF dd(3) a(3)]
    by (auto simp: writes_def two_item_def Let_def simp del: encode.simps pitem.simps)
qed

lemma merge_null:
  assumes "keyed s k" and "nibs k" and "length v < 2 ^ 62" and "inv d" and "0 < n"
  shows "writes N d (PLeaf k v) (mergeAt D v n (pnode PNull) h s inl d)"
  using place_null [OF assms(1-3), of d] assms(4,5) by (cases n) (simp_all add: writes_def isEmpty_def isNull_def)

lemma merge_branch_value:
  assumes t: "pt_wf (PBranch ts w)" and k: "keyed s []" and v: "length v < 2 ^ 62" and d: "inv d" "has d (bigs (psubs (PBranch ts w)))"
    and N: "bigs (psubs (PBranch ts w)) \<subseteq> N" and n: "0 < n"
  shows "writes N d (PBranch ts v) (mergeAt D v n (pnode (PBranch ts w)) h s inl d)"
proof -
  have "has (killNode D (pnode (PBranch ts w)) d) (bigs (psubs (PBranch ts v)))"
    using keeps_has [OF keeps_kill(1) [OF d(1)] d(2) N] by simp
  moreover obtain m where "n = Suc m" using n by (cases n) auto
  ultimately show ?thesis
    using place_branch [OF t v, of s d] branch_read [OF t] pnode_read [OF t] keyedD(1) [OF k] d(1)
    by (simp add: writes_def del: encode.simps psubs.simps)
qed

lemma merge_put:
  assumes b: "pt_wf (PBranch ts w)" and k: "keyed s k" "nibs k" and v: "length v < 2 ^ 62"
    and null: "\<And>c a. k = c # a \<Longrightarrow> ts ! unat c = PNull" and d: "inv d" "has d (bigs (psubs (PBranch ts w)))"
    and N: "inj_on sha3 N" "bigs (psubs (PBranch ts w)) \<subseteq> N" "bigs (psubs (t_put (PBranch ts w) k v)) \<subseteq> N" and n: "2 \<le> n"
  shows "writes N d (t_put (PBranch ts w) k v) (mergeAt D v n (pnode (PBranch ts w)) h s inl d)"
proof (cases k)
  case Nil
  then show ?thesis using merge_branch_value [OF b _ v d N(2)] k n by simp
next
  case (Cons c a)
  obtain m where m: "n = Suc m" "0 < m" using n by (cases n) auto
  have a: "keyed (slice_mid s 1) a" "nibs a" using keyedD(3) [OF k(1), of 1] k(2) Cons by auto
  have rec: "writes N d1 (PLeaf a v) (mergeAt D v m (pnode (ts ! unat c)) h (slice_mid s 1) inl d1)" if "inv d1" for h inl d1
    using null [OF Cons] merge_null [OF a v that m(2)] by simp
  have "pt_wf (PLeaf a v)" using a v by simp
  from merge_branch_step [OF b _ _ d rec this N(1,2)] show ?thesis
    using N(3) k Cons unfolding m(1) by simp
qed

lemma mergeAt_split:
  assumes u: "pt_wf u" "two_item u" and k: "keyed s k"
    and off: "case u of PLeaf l _ \<Rightarrow> k \<noteq> l | PExt l _ \<Rightarrow> \<not> prefix l k | _ \<Rightarrow> True"
  shows "mergeAt D v (Suc n) (pnode u) h s inl d =
    res_bind (if shared k (t_key u) \<noteq> 0 then cleve D (pnode u) (shared k (t_key u)) d else branch D (pnode u) d) (\<lambda>(c, d1).
      res_bind (trie_rlp (rlp_new c VeryStrict)) (\<lambda>r. mergeAt D v n r (sha3 r) s True d1))"
proof -
  have key: "nibs (t_key u)" "u \<noteq> PNull" using two_item_wf u by blast+
  note kd = keyedD(5,6,7) [OF k key(1), of "t_leaf u"]
  have a: "(slice_eq (keyOf (hex_prefix (t_leaf u) (t_key u))) s \<and> t_leaf u) = False"
    and b: "(slice_contains s (keyOf (hex_prefix (t_leaf u) (t_key u))) \<and> \<not> t_leaf u) = False"
    using kd off u(2) by (cases u; simp add: two_item_def)+
  have e: "isEmpty (pnode u) = False" using pnode_read(2) [OF u(1) key(2)] by simp
  show ?thesis
    unfolding mergeAt.simps(2) e if_False two_read(1-3) [OF u] trie_rlp_simps res_bind_simps a b kd(3) Let_def by simp
qed

lemma merge_fork0:
  assumes u: "pt_wf u" "two_item u" and k: "keyed s k" "nibs k" and v: "length v < 2 ^ 62" and sh: "shared k (t_key u) = 0"
    and off: "case u of PLeaf l _ \<Rightarrow> k \<noteq> l | PExt l _ \<Rightarrow> \<not> prefix l k | _ \<Rightarrow> True"
    and d: "inv d" "has d (bigs (psubs u))"
    and N: "inj_on sha3 N" "bigs (psubs u) \<subseteq> N" "bigs (psubs (t_branch u)) \<subseteq> N" "bigs (psubs (t_put (t_branch u) k v)) \<subseteq> N"
    and n: "3 \<le> n"
  shows "writes N d (t_put (t_branch u) k v) (mergeAt D v n (pnode u) h s inl d)"
proof -
  obtain m where m: "n = Suc m" "2 \<le> m" using n by (cases n) auto
  have key: "nibs (t_key u)" "u \<noteq> PNull" using two_item_wf u by blast+
  obtain ts w where b: "t_branch u = PBranch ts w"
    "\<And>n. unat n < 16 \<Longrightarrow> (\<And>a. t_key u \<noteq> n # a) \<Longrightarrow> ts ! unat n = PNull"
    using t_branch_shape [OF u] u(1) by (metis pt_wf.simps(3))
  have null: "ts ! unat c = PNull" if "k = c # a" for c a
    using that k(2) sh shared_split [of k "t_key u" c a c] by (intro b(2)) auto
  have wb: "pt_wf (PBranch ts w)" using pt_wf_branch [OF u] by (simp add: b(1))
  obtain d1 where d1: "branch D (pnode u) d = Inr (pnode (t_branch u), d1)" "keeps N d d1" "has d1 (bigs (psubs (t_branch u)))"
    using branch_ok [OF u d(1) N(2,3,1) d(2)] by blast
  have w1: "writes N d1 (t_put (PBranch ts w) k v) (mergeAt D v m (pnode (PBranch ts w)) h' s True d1)" for h'
    by (rule merge_put [OF wb k v null]) (use d1(2,3) N m(2) b(1) in \<open>auto simp: keeps_def\<close>)
  have "mergeAt D v n (pnode u) h s inl d = mergeAt D v m (pnode (PBranch ts w)) (sha3 (pnode (PBranch ts w))) s True d1"
    unfolding m(1) mergeAt_split [OF u k(1) off] using d1(1) sh b(1) pnode_read(5) [OF wb] by simp
  then show ?thesis using writes_after [OF d1(2) w1] by (simp add: b(1))
qed

lemma merge_fork:
  assumes u: "pt_wf u" "two_item u" and k: "keyed s k" "nibs k" and v: "length v < 2 ^ 62"
    and off: "case u of PLeaf l _ \<Rightarrow> k \<noteq> l | PExt l _ \<Rightarrow> \<not> prefix l k | _ \<Rightarrow> True"
    and d: "inv d" "has d (bigs (psubs u))"
    and N: "inj_on sha3 N" "bigs (psubs u) \<subseteq> N" "bigs (psubs (t_branch (t_drop (shared k (t_key u)) u))) \<subseteq> N"
      "bigs (psubs (t_fork u k v)) \<subseteq> N" "bigs (cleft u k) \<subseteq> N"
    and n: "5 \<le> n"
  shows "writes N d (t_fork u k v) (mergeAt D v n (pnode u) h s inl d)"
proof (cases "shared k (t_key u) = 0")
  case True
  have "t_drop 0 u = u" by (cases u) auto
  then show ?thesis
    using merge_fork0 [OF u k v True off d N(1,2)] N n True by (simp add: t_fork_def t_wrap_def)
next
  case False
  define z where "z = shared k (t_key u)"
  let ?b = "t_drop z u" and ?c = "take z k"
  let ?x = "t_put (t_branch ?b) (drop z k) v"
  obtain m where m: "n = Suc (Suc m)" "3 \<le> m" using n by (cases n; cases "n - 1") auto
  have key: "nibs (t_key u)" "u \<noteq> PNull" using two_item_wf u by blast+
  have z: "z \<noteq> 0" "z \<le> length (t_key u)" "z \<le> length k" "take z (t_key u) = ?c"
    using False by (simp_all add: z_def shared_le take_shared)
  have c: "?c \<noteq> []" "nibs ?c" using z k(2) by auto
  have fork: "t_fork u k v = PExt ?c ?x" using c(1) by (simp add: t_fork_def t_wrap_def z_def Let_def)
  have wb: "pt_wf ?b" "two_item ?b" using t_drop_wf [OF u, of k] off u(2) by (auto simp: z_def split: ptrie.splits)
  have sb: "psubs ?b = psubs u" by (cases u) auto
  have Nb: "bigs {?b} \<subseteq> N" using N(5) z(1) by (simp add: cleft_def z_def Let_def)
  obtain d1 where d1: "cleve D (pnode u) z d = Inr (pnode (PExt ?c ?b), d1)" "keeps N d d1" "has d1 (bigs {?b})"
    using cleve_ok [OF u z(1,2) wb(1) d(1) Nb N(1)] unfolding z(4) by blast
  have top: "pt_wf (PExt ?c ?b)" using c wb two_item_wf by auto
  have sh: "shared (drop z k) (t_key ?b) = 0"
  proof (rule ccontr)
    assume "shared (drop z k) (t_key ?b) \<noteq> 0"
    then obtain e a a' where "drop z k = e # a" "t_key ?b = e # a'"
      by (cases "drop z k"; cases "t_key ?b") (auto simp: shared_def split: if_splits)
    then show False using shared_split [of k "t_key u" e a e a'] by (simp add: z_def)
  qed
  have koff: "case ?b of PLeaf l _ \<Rightarrow> drop z k \<noteq> l | PExt l _ \<Rightarrow> \<not> prefix l (drop z k) | _ \<Rightarrow> True"
  proof (cases u)
    case (PLeaf l w)
    then show ?thesis using off z(4) by simp (metis append_take_drop_id)
  next
    case (PExt l t)
    then show ?thesis using off z(4) by simp (metis append_take_drop_id same_prefix_prefix)
  qed (use u in \<open>auto simp: two_item_def\<close>)
  have kd: "keyed (slice_mid s (length ?c)) (drop z k)" using keyedD(3) [OF k(1), of z] z(3) by simp
  have inv1: "inv d1" using d1(2) by (simp add: keeps_def)
  have hb: "has d1 (bigs (psubs ?b))" using keeps_has [OF d1(2) d(2) N(2)] by (simp add: sb)
  have Nx: "bigs (psubs (PExt ?c ?x)) \<subseteq> N" using N(4) by (simp only: fork)
  then have Nx': "bigs (psubs ?x) \<subseteq> N" by simp
  have rec: "writes N d2 ?x (mergeAt D v m (pnode ?b) h (slice_mid s (length ?c)) inl d2)"
    if "inv d2" "nd_lookup D d2 = nd_lookup D d1" for h inl d2
  proof -
    have h2: "has d2 (bigs (psubs ?b))" using has_cong [OF that(2)] hb by blast
    have Nb2: "bigs (psubs ?b) \<subseteq> N" "bigs (psubs (t_branch ?b)) \<subseteq> N" using N(2,3) by (simp_all add: sb z_def [symmetric])
    have "nibs (drop z k)" using k(2) by simp
    from merge_fork0 [OF wb kd this v sh koff that(1) h2 N(1) Nb2 Nx' m(2)] show ?thesis .
  qed
  have wx: "pt_wf ?x" "?x \<noteq> PNull"
    using pt_wf_fork [OF u k(2) v] off top by (auto simp: fork split: ptrie.splits)
  have hp: "has d1 (bigs (psubs (PExt ?c ?b)))" using d1(3) hb by simp
  have "writes N d1 (PExt ?c ?x) (mergeAt D v (Suc m) (pnode (PExt ?c ?b)) (sha3 (pnode (PExt ?c ?b))) s True d1)"
    by (rule merge_ext_step [OF top k(1) _ inv1 hp rec wx N(1) Nx]) (auto simp: take_is_prefix)
  moreover
  have "mergeAt D v n (pnode u) h s inl d = mergeAt D v (Suc m) (pnode (PExt ?c ?b)) (sha3 (pnode (PExt ?c ?b))) s True d1"
    unfolding m(1) mergeAt_split [OF u k(1) off] z_def [symmetric] using d1(1) z(1) pnode_read(5) [OF top] by (simp del: mergeAt.simps)
  ultimately show ?thesis using writes_after [OF d1(2)] by (simp add: fork)
qed

lemma merge_leave:
  assumes u: "pt_wf u" "two_item u" and k: "keyed s k" "nibs k" and v: "length v < 2 ^ 62"
    and off: "case u of PLeaf l _ \<Rightarrow> k \<noteq> l | PExt l _ \<Rightarrow> \<not> prefix l k | _ \<Rightarrow> True"
    and d: "inv d" "has d (bigs (psubs u))" and N: "inj_on sha3 N" "bigs (touched u k v) \<subseteq> N" and n: "5 \<le> n"
  shows "writes N d (t_insert u k v) (mergeAt D v n (pnode u) h s inl d)"
proof -
  have i: "t_insert u k v = t_fork u k v" "cleved u k = cleft u k" using off u(2) by (cases u; auto simp: two_item_def)+
  have t: "psubs u \<subseteq> touched u k v" "psubs (t_fork u k v) \<subseteq> touched u k v" "cleft u k \<subseteq> touched u k v"
    using i by (auto simp: touched_def)
  have "bigs (psubs (t_branch (t_drop (shared k (t_key u)) u))) \<subseteq> bigs (insert PNull (psubs (t_fork u k v)))"
    by (rule bigs_mono [OF psubs_branch_fork [OF u k(2) off]])
  then have "bigs (psubs (t_branch (t_drop (shared k (t_key u)) u))) \<subseteq> N" using bigs_mono [OF t(2)] N(2) by auto
  then show ?thesis
    unfolding i using merge_fork [OF u k v off d N(1)] n t [THEN bigs_mono] N(2) by (meson order_trans)
qed

lemma mergeAt_correct:
  assumes N: "inj_on sha3 N" and v: "length v < 2 ^ 62"
  shows "pt_wf t \<Longrightarrow> inv d \<Longrightarrow> has d (bigs (psubs t)) \<Longrightarrow> keyed s k \<Longrightarrow> length k < 2 ^ 31 \<Longrightarrow> length k + 5 \<le> n
    \<Longrightarrow> bigs (touched t k v) \<subseteq> N \<Longrightarrow> writes N d (t_insert t k v) (mergeAt D v n (pnode t) h s inl d)"
proof (induction t k arbitrary: s n d h inl rule: t_at.induct)
  case (1 k)
  then show ?case using merge_null [OF "1.prems"(4) keyed_nibs v] by simp
next
  case (2 l w k)
  have k: "nibs k" using keyed_nibs "2.prems" by blast
  show ?case
  proof (cases "k = l")
    case True
    obtain m where m: "n = Suc m" using "2.prems"(6) by (cases n) auto
    have "place D (pnode (PLeaf l w)) s v d = Inr (pnode (PLeaf l v), killNode D (pnode (PLeaf l w)) d)"
      by (rule place_leaf [OF "2.prems"(1) v])
    then show ?thesis
      using True two_read [OF "2.prems"(1)] pnode_read [OF "2.prems"(1)] keyedD(5) [OF "2.prems"(4) k] "2.prems"(2)
      by (simp add: writes_def m two_item_def del: encode.simps pitem.simps)
  next
    case False
    then show ?thesis
      using merge_leave [OF "2.prems"(1) _ "2.prems"(4) k v _ "2.prems"(2,3) N "2.prems"(7)] "2.prems"(6) by (simp add: two_item_def)
  qed
next
  case (3 l t k)
  have k: "nibs k" using keyed_nibs "3.prems" by blast
  show ?case
  proof (cases "prefix l k")
    case True
    obtain m where m: "n = Suc m" using "3.prems"(6) by (cases n) auto
    let ?x = "t_insert t (drop (length l) k) v"
    have l: "length l \<le> length k" "0 < length l" using True "3.prems"(1) by (auto dest: prefix_length_le)
    then have len: "length (drop (length l) k) < 2 ^ 31" "length (drop (length l) k) + 5 \<le> m"
      using "3.prems"(5,6) m unfolding length_drop by linarith+
    have t: "pt_wf t" "has d (bigs (psubs t))" using "3.prems"(1,3) by auto
    have sub: "bigs (touched t (drop (length l) k) v) \<subseteq> N" using bigs_mono [OF touched_ext [OF True]] "3.prems"(7) by blast
    have rec: "writes N d1 ?x (mergeAt D v m (pnode t) h (slice_mid s (length l)) inl d1)"
      if "inv d1" "nd_lookup D d1 = nd_lookup D d" for h inl d1
      using "3.IH" [OF True t(1) that(1) has_cong [OF that(2), THEN iffD2, OF t(2)] keyedD(3) [OF "3.prems"(4) l(1)] len sub] .
    have x: "pt_wf ?x" "?x \<noteq> PNull" using t_insert_wf [OF t(1), of "drop (length l) k" v] k v by auto
    have "bigs (psubs (PExt l ?x)) \<subseteq> N" using "3.prems"(7) True by (simp add: touched_def)
    from merge_ext_step [OF "3.prems"(1,4) True "3.prems"(2,3) rec x N this] show ?thesis
      using True by (simp add: m del: mergeAt.simps)
  next
    case False
    then show ?thesis
      using merge_leave [OF "3.prems"(1) _ "3.prems"(4) k v _ "3.prems"(2,3) N "3.prems"(7)] "3.prems"(6) by (simp add: two_item_def)
  qed
next
  case (4 ts w)
  have "bigs (psubs (PBranch ts w)) \<subseteq> N" using "4.prems"(7) by (simp add: touched_def)
  then show ?case using merge_branch_value [OF "4.prems"(1,4) v "4.prems"(2,3)] "4.prems"(6) by simp
next
  case (5 ts w c k)
  obtain m where m: "n = Suc m" using "5.prems"(6) by (cases n) auto
  have l: "length ts = 16" "unat c < 16" "nibs k" using "5.prems"(1) keyed_nibs [OF "5.prems"(4)] "5.prems"(5) by auto
  then have i: "unat c < length ts" and t: "ts ! unat c \<in> set ts" "pt_wf (ts ! unat c)" using "5.prems"(1) by auto
  let ?x = "t_insert (ts ! unat c) k v"
  have kk: "keyed (slice_mid s 1) k" using keyedD(3) [OF "5.prems"(4), of 1] by simp
  have len: "length k < 2 ^ 31" "length k + 5 \<le> m" using "5.prems"(5,6) m by simp_all
  have hs: "has d (bigs (psubs (ts ! unat c)))" using "5.prems"(3) t(1) by (elim has_mono) (auto simp: bigs_def)
  have sub: "bigs (touched (ts ! unat c) k v) \<subseteq> N" using bigs_mono [OF touched_branch [OF i]] "5.prems"(7) by blast
  have rec: "writes N d1 ?x (mergeAt D v m (pnode (ts ! unat c)) h (slice_mid s 1) inl d1)"
    if "inv d1" "nd_lookup D d1 = nd_lookup D d" for h inl d1
    using "5.IH" [OF i t(2) that(1) has_cong [OF that(2), THEN iffD2, OF hs] kk len sub] .
  have x: "pt_wf ?x" using t_insert_wf [OF t(2) l(3) v] by simp
  have "bigs (psubs (PBranch ts w)) \<subseteq> N" "bigs (psubs (PBranch (ts[unat c := ?x]) w)) \<subseteq> N"
    using "5.prems"(7) i by (simp_all add: touched_def)
  from merge_branch_step [OF "5.prems"(1,4) l(2) "5.prems"(2,3) rec x N this] show ?case
    using i by (simp add: m del: mergeAt.simps)
qed

end

end
