(* ===== verification/Trie_Canon.thy ===== *)
theory Trie_Canon
  imports Trie_Spec
begin

text \<open>
  For keys of one length the tree operations keep the canonical shape, and a canonical tree is
  determined by its contents.
\<close>

section \<open>Used children\<close>

lemma used_length_ge2: "i \<noteq> j \<Longrightarrow> i \<in> set (used ts) \<Longrightarrow> j \<in> set (used ts) \<Longrightarrow> 2 \<le> length (used ts)"
  by (cases "used ts"; cases "tl (used ts)") auto

lemma distinct_used: "distinct (used ts)"
  by (simp add: used_def)

lemma used_two:
  assumes "2 \<le> length (used ts)"
  obtains i j where "i \<noteq> j" "i < length ts" "j < length ts" "ts ! i \<noteq> PNull" "ts ! j \<noteq> PNull"
proof -
  obtain i j r where "used ts = i # j # r" using assms by (cases "used ts"; cases "tl (used ts)") auto
  then show ?thesis using that [of i j] used_iff [of _ ts] distinct_used [of ts] by auto
qed

section \<open>Insertion\<close>

text \<open>Keys of the same length part at a nibble each.\<close>

lemma fork_shape:
  assumes u: "pt_wf u" "two_item u" and k: "nibs k" "length k = m" "pt_len m u"
    and off: "case u of PLeaf l _ \<Rightarrow> k \<noteq> l | PExt l _ \<Rightarrow> \<not> prefix l k | _ \<Rightarrow> True"
  obtains c n n' a x where "t_fork u k v = t_wrap c (PBranch (no_kids[unat n' := x, unat n := PLeaf a v]) [])"
    "n \<noteq> n'" "unat n < 16" "unat n' < 16" "k = c @ n # a" "nibs c" "pt_len (length a) x" "x \<noteq> PNull" "canon u \<longrightarrow> canon x"
proof -
  define s where "s = shared k (t_key u)"
  have s: "s \<le> length k" "s \<le> length (t_key u)" "take s (t_key u) = take s k" by (simp_all add: s_def shared_le take_shared)
  have kk: "k = take s k @ drop s k" "t_key u = take s k @ drop s (t_key u)" using s(3) by (metis append_take_drop_id)+
  have "drop s (t_key u) \<noteq> [] \<and> drop s k \<noteq> []"
    using u(2)
  proof (cases rule: two_item_cases)
    case (1 l w)
    then show ?thesis using off k kk s by simp (metis append_take_drop_id take_all)
  next
    case (2 l t)
    then show ?thesis using off k kk s by (auto simp: prefix_def) (metis append_take_drop_id drop_all take_all)+
  qed
  then obtain n a n' a' where d: "drop s k = n # a" "drop s (t_key u) = n' # a'" by (metis neq_Nil_conv)
  have ne: "n \<noteq> n'" using shared_split d by (simp add: s_def)
  have "nibs (drop s k)" "nibs (drop s (t_key u))" "nibs (take s k)"
    using k(1) u by (auto simp: two_item_def split: ptrie.splits)
  then have nb: "unat n < 16" "unat n' < 16" "nibs (take s k)" unfolding d by auto
  define x where "x = (case u of PLeaf _ w \<Rightarrow> PLeaf a' w | PExt _ t \<Rightarrow> (if a' = [] then t else PExt a' t) | _ \<Rightarrow> PNull)"
  have b: "t_branch (t_drop s u) = PBranch (no_kids[unat n' := x]) []"
    using u(2) d(2) by (cases rule: two_item_cases) (auto simp: x_def)
  have len: "length a' + s + 1 = length (t_key u)" "length a + s + 1 = m"
    using arg_cong [OF d(2), of length] arg_cong [OF d(1), of length] s k(2) by simp_all
  have xl: "pt_len (length a) x" "x \<noteq> PNull" "canon u \<longrightarrow> canon x"
  proof -
    have "pt_len (length a) x \<and> x \<noteq> PNull \<and> (canon u \<longrightarrow> canon x)"
      using u(2)
    proof (cases rule: two_item_cases)
      case (1 l w)
      then show ?thesis using k(3) len by (simp add: x_def)
    next
      case (2 l t)
      then have "m - length l = length a - length a'" "length a' \<le> length a" using k(3) len by simp_all
      then show ?thesis using 2 u(1) k(3) by (auto simp: x_def)
    qed
    then show "pt_len (length a) x" "x \<noteq> PNull" "canon u \<longrightarrow> canon x" by blast+
  qed
  have f: "t_fork u k v = t_wrap (take s k) (PBranch (no_kids[unat n' := x, unat n := PLeaf a v]) [])"
    by (simp add: t_fork_def s_def [symmetric] Let_def d b)
  have kc: "k = take s k @ n # a" using kk(1) d(1) by simp
  show ?thesis by (rule that [OF f ne nb(1,2) kc nb(3) xl])
qed

lemma two_kids:
  assumes "n \<noteq> n'" and "unat (n :: byte) < 16" and "unat n' < 16" and "x \<noteq> PNull" and "y \<noteq> PNull"
  shows "2 \<le> length (used (no_kids[unat n' := x, unat n := y]))"
    and "t \<in> set (no_kids[unat n' := x, unat n := y]) \<Longrightarrow> t \<in> {PNull, x, y}"
proof -
  have "unat n \<noteq> unat n'" using assms(1) byte_unat_inj by blast
  then show "2 \<le> length (used (no_kids[unat n' := x, unat n := y]))"
    using assms by (intro used_length_ge2 [of "unat n" "unat n'"]) (auto simp: used_iff)
  show "t \<in> {PNull, x, y}" if "t \<in> set (no_kids[unat n' := x, unat n := y])"
    using that by (auto dest!: set_update_subset_insert [THEN subsetD] simp: no_kids_def)
qed

lemma fork_canon:
  assumes u: "pt_wf u" "two_item u" and k: "nibs k" "length k = m" "pt_len m u"
    and off: "case u of PLeaf l _ \<Rightarrow> k \<noteq> l | PExt l _ \<Rightarrow> \<not> prefix l k | _ \<Rightarrow> True"
  shows "pt_len m (t_fork u k v) \<and> (v \<noteq> [] \<longrightarrow> canon u \<longrightarrow> canon (t_fork u k v))"
proof -
  obtain c n n' a x where f: "t_fork u k v = t_wrap c (PBranch (no_kids[unat n' := x, unat n := PLeaf a v]) [])"
    "n \<noteq> n'" "unat n < 16" "unat n' < 16" "k = c @ n # a" "nibs c" "pt_len (length a) x" "x \<noteq> PNull" "canon u \<longrightarrow> canon x"
    using fork_shape [OF assms, where v = v] by metis
  have kids: "pt_len (length a) t" "v \<noteq> [] \<Longrightarrow> canon u \<Longrightarrow> canon t" if "t \<in> set (no_kids[unat n' := x, unat n := PLeaf a v])" for t
    using two_kids(2) [OF f(2-4) f(8) _ that] f(7,9) by auto
  have u2: "2 \<le> length (used (no_kids[unat n' := x, unat n := PLeaf a v]))" using two_kids(1) [OF f(2-4,8)] by simp
  have m: "m = length c + Suc (length a)" using k(2) f(5) by simp
  show ?thesis using kids u2 by (auto simp: f(1) t_wrap_def m)
qed

lemma used_update:
  assumes "2 \<le> length (used ts)" and "x \<noteq> PNull" and "i < length ts"
  shows "2 \<le> length (used (ts[i := x]))"
proof -
  obtain a b where "a \<noteq> b" "a < length ts" "b < length ts" "ts ! a \<noteq> PNull" "ts ! b \<noteq> PNull" using used_two [OF assms(1)] by blast
  then show ?thesis using assms by (intro used_length_ge2 [of a b]) (auto simp: used_iff nth_list_update)
qed

lemma t_insert_canon:
  "pt_wf t \<Longrightarrow> nibs k \<Longrightarrow> length v < 2 ^ 62 \<Longrightarrow> length k = m \<Longrightarrow> pt_len m t
    \<Longrightarrow> pt_len m (t_insert t k v) \<and> (v \<noteq> [] \<longrightarrow> canon t \<longrightarrow> canon (t_insert t k v) \<and> (is_branch t \<longrightarrow> is_branch (t_insert t k v)))"
proof (induction t k v arbitrary: m rule: t_insert.induct)
  case (2 l w k v)
  then show ?case using fork_canon [of "PLeaf l w" k m v] by (auto simp: two_item_def)
next
  case (3 l t k v)
  show ?case
  proof (cases "prefix l k")
    case True
    then have "length l \<le> m" "length (drop (length l) k) = m - length l" using "3.prems" by (auto dest: prefix_length_le)
    then show ?thesis using True "3.IH" [OF True, of "m - length l"] "3.prems" by auto
  next
    case False
    then show ?thesis using 3 fork_canon [of "PExt l t" k m v] by (auto simp: two_item_def)
  qed
next
  case (5 ts w n k v)
  have n: "unat n < length ts" "pt_wf (ts ! unat n)" "pt_len (m - 1) (ts ! unat n)" "m - 1 = length k" using "5.prems" by auto
  have IH: "pt_len (m - 1) (t_insert (ts ! unat n) k v)"
    "v \<noteq> [] \<Longrightarrow> canon (ts ! unat n) \<Longrightarrow> canon (t_insert (ts ! unat n) k v)"
    using "5.IH" [OF n(1,2), of "m - 1"] "5.prems" n by auto
  have ne: "t_insert (ts ! unat n) k v \<noteq> PNull" using t_insert_wf [OF n(2), of k v] "5.prems"(2,3) by simp
  show ?case
    using n IH "5.prems" used_update [OF _ ne n(1)] by (auto dest!: set_update_subset_insert [THEN subsetD])
qed auto

section \<open>Removal\<close>

lemma join_keeps:
  assumes "pt_wf t" and "t \<noteq> PNull" and "nibs c" and "c \<noteq> []" and "pt_len m t" and "length c + m < 2 ^ 31"
  shows "pt_wf (t_join c t) \<and> pt_len (length c + m) (t_join c t) \<and> t_join c t \<noteq> PNull \<and> (canon t \<longrightarrow> canon (t_join c t))"
proof (cases t)
  case (PLeaf a v)
  then show ?thesis using assms by (auto simp: t_join_def nibs_def)
next
  case (PExt a u)
  then show ?thesis using assms by (auto simp: t_join_def nibs_def)
qed (use assms in \<open>auto simp: t_join_def\<close>)

lemma shrink_keeps:
  assumes ts: "length ts = 16" "\<forall>t\<in>set ts. pt_wf t" "\<forall>t\<in>set ts. pt_len m t" "\<forall>t\<in>set ts. canon t"
    and u: "used ts \<noteq> []" and m: "Suc m < 2 ^ 31"
  shows "pt_wf (t_shrink ts) \<and> pt_len (Suc m) (t_shrink ts) \<and> t_shrink ts \<noteq> PNull \<and> canon (t_shrink ts)"
proof (cases "\<exists>i. used ts = [i]")
  case True
  then obtain i where i: "used ts = [i]" by blast
  then have t: "i < 16" "ts ! i \<noteq> PNull" using used_iff [of i ts] ts(1) by auto
  then have mem: "ts ! i \<in> set ts" using ts(1) by simp
  have "unat (word_of_nat i :: byte) = i" using t(1) by (intro unat_word_of_nat) simp
  then have "nibs [word_of_nat i]" using t(1) by simp
  from join_keeps [OF _ t(2) this, of m] show ?thesis using ts(2-4) mem m by (simp add: t_shrink_def i)
next
  case False
  then have "t_shrink ts = PBranch ts []" "2 \<le> length (used ts)" using u by (cases "used ts"; cases "tl (used ts)"; auto simp: t_shrink_def)+
  then show ?thesis using ts by simp
qed

lemma t_remove_keeps:
  "pt_wf t \<Longrightarrow> canon t \<Longrightarrow> pt_len m t \<Longrightarrow> m < 2 ^ 31 \<Longrightarrow> t_remove t k = Some t'
    \<Longrightarrow> pt_wf t' \<and> canon t' \<and> pt_len m t' \<and> (is_branch t \<longrightarrow> t' \<noteq> PNull)"
proof (induction t k arbitrary: m t' rule: t_remove.induct)
  case (3 l t k)
  then obtain u where u: "prefix l k" "t_remove t (drop (length l) k) = Some u" "t' = t_join l u" by (auto split: if_splits)
  have "pt_wf u \<and> canon u \<and> pt_len (m - length l) u \<and> (is_branch t \<longrightarrow> u \<noteq> PNull)"
    using "3.prems" u by (intro "3.IH" [OF u(1)]) auto
  then show ?case
    using join_keeps [of u l "m - length l"] "3.prems" u(3) by auto
next
  case (5 ts w n k)
  then obtain u where u: "unat n < length ts" "t_remove (ts ! unat n) k = Some u" "t' = t_shrink (ts[unat n := u])" by (auto split: if_splits)
  have uw: "pt_wf u \<and> canon u \<and> pt_len (m - 1) u" using "5.prems" u by (intro conjI) (use "5.IH" [OF u(1), of "m - 1" u] in auto)
  let ?ts = "ts[unat n := u]"
  have all: "\<forall>t\<in>set ?ts. pt_wf t" "\<forall>t\<in>set ?ts. pt_len (m - 1) t" "\<forall>t\<in>set ?ts. canon t"
    using "5.prems" uw by (auto dest!: set_update_subset_insert [THEN subsetD])
  have "used ?ts \<noteq> []"
  proof -
    obtain i j where ij: "i \<noteq> j" "i < length ts" "j < length ts" "ts ! i \<noteq> PNull" "ts ! j \<noteq> PNull"
      using used_two [of ts] "5.prems"(2) by auto
    define e where "e = (if i = unat n then j else i)"
    have "e \<in> set (used ?ts)" using ij u(1) by (auto simp: used_iff e_def nth_list_update)
    then show ?thesis by auto
  qed
  from shrink_keeps [OF _ all this] show ?case using "5.prems" u(3) by auto
qed (auto split: if_splits)

section \<open>Uniqueness\<close>

definition key_of_len :: "nat \<Rightarrow> bytes \<Rightarrow> bool" where
  "key_of_len m k = ((\<forall>n\<in>set k. unat n < 16) \<and> length k = m)"

lemma key_of_len_simps [simp]:
  "key_of_len m [] \<longleftrightarrow> m = 0" "key_of_len m (n # k) \<longleftrightarrow> unat n < 16 \<and> 0 < m \<and> key_of_len (m - 1) k"
  "key_of_len m (k @ l) \<longleftrightarrow> length k \<le> m \<and> (\<forall>n\<in>set k. unat n < 16) \<and> key_of_len (m - length k) l"
  by (auto simp: key_of_len_def)

text \<open>A canonical trie that is not empty has a key, and a branch has two that differ at once.\<close>

lemma canon_key: "pt_wf t \<Longrightarrow> canon t \<Longrightarrow> pt_len m t \<Longrightarrow> t \<noteq> PNull \<Longrightarrow> \<exists>k. key_of_len m k \<and> t_at t k \<noteq> []"
proof (induction t arbitrary: m)
  case (PLeaf l v)
  then show ?case by (intro exI [of _ l]) (auto simp: key_of_len_def nibs_def)
next
  case (PExt l t)
  then obtain k where "key_of_len (m - length l) k" "t_at t k \<noteq> []" by fastforce
  then show ?case using PExt.prems by (intro exI [of _ "l @ k"]) (auto simp: nibs_def)
next
  case (PBranch ts w)
  have "2 \<le> length (used ts)" using PBranch.prems(2) by simp
  then obtain i where i: "i < length ts" "ts ! i \<noteq> PNull" by (rule used_two)
  then have t: "i < 16" "ts ! i \<in> set ts" using PBranch.prems by auto
  then obtain k where k: "key_of_len (m - 1) k" "t_at (ts ! i) k \<noteq> []"
    using PBranch.IH [OF t(2), of "m - 1"] PBranch.prems i(2) by auto
  have "unat (word_of_nat i :: byte) = i" using t(1) by (intro unat_word_of_nat) simp
  then show ?case using k i t PBranch.prems by (intro exI [of _ "word_of_nat i # k"]) auto
qed simp

lemma branch_key:
  assumes t: "pt_wf (PBranch ts w)" "canon (PBranch ts w)" "pt_len m (PBranch ts w)" and i: "i < 16" "ts ! i \<noteq> PNull"
  obtains n k where "unat n = i" "key_of_len m (n # k)" "t_at (PBranch ts w) (n # k) \<noteq> []"
proof -
  have mem: "ts ! i \<in> set ts" using t(1) i(1) by simp
  then obtain k where k: "key_of_len (m - 1) k" "t_at (ts ! i) k \<noteq> []"
    using canon_key [of "ts ! i" "m - 1"] t i(2) by auto
  have "unat (word_of_nat i :: byte) = i" using i(1) by (intro unat_word_of_nat) simp
  then show ?thesis using that [of "word_of_nat i" k] k t i by auto
qed

lemma branch_two_keys:
  assumes t: "pt_wf (PBranch ts w)" "canon (PBranch ts w)" "pt_len m (PBranch ts w)"
  obtains n n' k k' where "n \<noteq> n'" "key_of_len m (n # k)" "t_at (PBranch ts w) (n # k) \<noteq> []"
    "key_of_len m (n' # k')" "t_at (PBranch ts w) (n' # k') \<noteq> []"
proof -
  obtain i j where ij: "i \<noteq> j" "i < length ts" "j < length ts" "ts ! i \<noteq> PNull" "ts ! j \<noteq> PNull"
    using used_two [of ts] t(2) by (metis canon.simps(4))
  then have l: "i < 16" "j < 16" using t(1) by auto
  obtain n k where 1: "unat n = i" "key_of_len m (n # k)" "t_at (PBranch ts w) (n # k) \<noteq> []" using branch_key [OF t l(1) ij(4)] by blast
  obtain n' k' where 2: "unat n' = j" "key_of_len m (n' # k')" "t_at (PBranch ts w) (n' # k') \<noteq> []" using branch_key [OF t l(2) ij(5)] by blast
  have "n \<noteq> n'" using ij(1) 1(1) 2(1) by auto
  then show ?thesis using that 1 2 by blast
qed

lemma ext_two_keys:
  assumes t: "pt_wf (PExt l t)" "canon (PExt l t)" "pt_len m (PExt l t)"
  obtains n n' k k' where "n \<noteq> n'" "key_of_len m (l @ n # k)" "t_at (PExt l t) (l @ n # k) \<noteq> []"
    "key_of_len m (l @ n' # k')" "t_at (PExt l t) (l @ n' # k') \<noteq> []"
proof -
  obtain ts w where b: "t = PBranch ts w" using t(2) by (cases t) auto
  have "pt_wf (PBranch ts w)" "canon (PBranch ts w)" "pt_len (m - length l) (PBranch ts w)" using t b by simp_all
  from branch_two_keys [OF this] obtain n n' k k' where k: "n \<noteq> n'" "key_of_len (m - length l) (n # k)" "t_at t (n # k) \<noteq> []"
    "key_of_len (m - length l) (n' # k')" "t_at t (n' # k') \<noteq> []" unfolding b by blast
  have l: "length l \<le> m" "\<forall>n\<in>set l. unat n < 16" using t by (auto simp: nibs_def)
  show ?thesis
    by (rule that [of n n' k k']) (use k l in \<open>simp_all del: key_of_len_simps(2) add: key_of_len_simps(3)\<close>)
qed

lemma prefix_of_diverging:
  assumes "prefix c (l @ n # k)" and "prefix c (l @ n' # k')" and "n \<noteq> n'"
  shows "prefix c l"
proof (rule ccontr)
  assume "\<not> prefix c l"
  then have "prefix l c" "l \<noteq> c" using assms(1) by (metis prefix_same_cases prefixI, auto)
  then obtain e r where "c = l @ e # r" by (metis append_Nil2 neq_Nil_conv prefixE)
  then show False using assms by (auto simp: prefix_def)
qed

text \<open>The shape of the root: with the same contents, both are empty, leaves, extensions or branches.\<close>

definition same :: "nat \<Rightarrow> ptrie \<Rightarrow> ptrie \<Rightarrow> bool" where
  "same m t t' = (\<forall>k. key_of_len m k \<longrightarrow> t_at t k = t_at t' k)"

lemma sameD: "same m t t' \<Longrightarrow> key_of_len m k \<Longrightarrow> t_at t k \<noteq> [] \<Longrightarrow> t_at t' k \<noteq> []"
  by (simp add: same_def)

lemma same_sym: "same m t t' \<Longrightarrow> same m t' t"
  by (simp add: same_def)

lemma leaf_one_key: "t_at (PLeaf l v) k \<noteq> [] \<Longrightarrow> k = l"
  by (auto split: if_splits)

lemma ext_key: "t_at (PExt l t) k \<noteq> [] \<Longrightarrow> prefix l k"
  by (auto split: if_splits)

definition tidy :: "nat \<Rightarrow> ptrie \<Rightarrow> bool" where
  "tidy m t = (pt_wf t \<and> canon t \<and> pt_len m t)"

lemma tidyD: "tidy m t \<Longrightarrow> pt_wf t" "tidy m t \<Longrightarrow> canon t" "tidy m t \<Longrightarrow> pt_len m t"
  by (simp_all add: tidy_def)

lemma same_not_leaf:
  assumes t: "tidy m t" "tidy m (PLeaf l v)" and s: "same m t (PLeaf l v)"
  shows "t = PLeaf l v"
proof (cases t)
  case PNull
  have "key_of_len m l" "v \<noteq> []" using t(2) by (auto simp: tidy_def key_of_len_def nibs_def)
  then show ?thesis using s PNull by (auto simp: same_def)
next
  case (PLeaf l' v')
  have "key_of_len m l'" "v' \<noteq> []" using t(1) PLeaf by (auto simp: tidy_def key_of_len_def nibs_def)
  then show ?thesis using s PLeaf by (auto simp: same_def split: if_splits)
next
  case (PExt c u)
  then obtain n n' k k' where "n \<noteq> n'" "key_of_len m (c @ n # k)" "t_at t (c @ n # k) \<noteq> []"
      "key_of_len m (c @ n' # k')" "t_at t (c @ n' # k') \<noteq> []"
    using ext_two_keys [OF tidyD [OF t(1) [unfolded PExt]]] by blast
  then have "c @ n # k = l" "c @ n' # k' = l" using leaf_one_key sameD [OF s] by blast+
  then show ?thesis using \<open>n \<noteq> n'\<close> by auto
next
  case (PBranch ts w)
  then obtain n n' k k' where "n \<noteq> n'" "key_of_len m (n # k)" "t_at t (n # k) \<noteq> []"
      "key_of_len m (n' # k')" "t_at t (n' # k') \<noteq> []"
    using branch_two_keys [OF tidyD [OF t(1) [unfolded PBranch]]] by blast
  then have "n # k = l" "n' # k' = l" using leaf_one_key sameD [OF s] by blast+
  then show ?thesis using \<open>n \<noteq> n'\<close> by auto
qed

lemma same_ext_prefix:
  assumes t: "tidy m (PExt l t)" "tidy m (PExt l' t')" and s: "same m (PExt l t) (PExt l' t')"
  shows "prefix l' l"
proof -
  obtain n n' k k' where k: "n \<noteq> n'" "key_of_len m (l @ n # k)" "t_at (PExt l t) (l @ n # k) \<noteq> []"
      "key_of_len m (l @ n' # k')" "t_at (PExt l t) (l @ n' # k') \<noteq> []"
    by (rule ext_two_keys [OF tidyD [OF t(1)]])
  have "prefix l' (l @ n # k)" "prefix l' (l @ n' # k')" 
    using ext_key [OF sameD [OF s k(2,3)]] ext_key [OF sameD [OF s k(4,5)]] .
  then show ?thesis by (rule prefix_of_diverging [OF _ _ k(1)])
qed

lemma same_ext_branch:
  assumes t: "tidy m (PExt l t)" "tidy m (PBranch ts w)" and s: "same m (PExt l t) (PBranch ts w)"
  shows False
proof -
  obtain n n' k k' where k: "n \<noteq> n'" "key_of_len m (n # k)" "t_at (PBranch ts w) (n # k) \<noteq> []"
      "key_of_len m (n' # k')" "t_at (PBranch ts w) (n' # k') \<noteq> []"
    by (rule branch_two_keys [OF tidyD [OF t(2)]])
  have "prefix l (n # k)" "prefix l (n' # k')" 
    using ext_key [OF sameD [OF same_sym [OF s] k(2,3)]] ext_key [OF sameD [OF same_sym [OF s] k(4,5)]] .
  moreover have "l \<noteq> []" using t(1) by (simp add: tidy_def)
  ultimately show False using k(1) by (cases l) auto
qed

lemma canon_unique: "tidy m t \<Longrightarrow> tidy m t' \<Longrightarrow> same m t t' \<Longrightarrow> t = t'"
proof (induction t arbitrary: m t')
  case PNull
  show ?case
  proof (rule ccontr)
    assume "PNull \<noteq> t'"
    then obtain k where "key_of_len m k" "t_at t' k \<noteq> []" using canon_key [of t' m] PNull.prems(2) by (auto simp: tidy_def)
    then show False using PNull.prems(3) by (auto simp: same_def)
  qed
next
  case (PLeaf l v)
  then show ?case using same_not_leaf [OF PLeaf.prems(2,1) same_sym] by simp
next
  case (PExt l t)
  show ?case
  proof (cases t')
    case 2: (PExt l' u)
    have "l = l'"
      using same_ext_prefix [OF PExt.prems(1) PExt.prems(2) [unfolded 2] PExt.prems(3) [unfolded 2]]
        same_ext_prefix [OF PExt.prems(2) [unfolded 2] PExt.prems(1) same_sym [OF PExt.prems(3) [unfolded 2]]]
      by (rule prefix_order.antisym [rotated])
    moreover have "same (m - length l) t u"
      unfolding same_def
    proof (intro allI impI)
      fix k assume "key_of_len (m - length l) k"
      then have "key_of_len m (l @ k)" using PExt.prems(1) by (auto simp: tidy_def nibs_def)
      then have "t_at (PExt l t) (l @ k) = t_at (PExt l' u) (l @ k)" using PExt.prems(3) 2 unfolding same_def by blast
      then show "t_at t k = t_at u k" using \<open>l = l'\<close> by simp
    qed
    ultimately show ?thesis using PExt.IH [of "m - length l" u] PExt.prems 2 by (simp add: tidy_def)
  next
    case PNull
    then show ?thesis using canon_key [of "PExt l t" m] PExt.prems by (auto simp: tidy_def same_def)
  next
    case (PLeaf a v)
    then show ?thesis using same_not_leaf PExt.prems by blast
  next
    case (PBranch ts w)
    then show ?thesis using same_ext_branch PExt.prems by blast
  qed
next
  case (PBranch ts w)
  show ?case
  proof (cases t')
    case 2: (PBranch ts' w')
    have l: "length ts = 16" "length ts' = 16" "w = []" "w' = []" "0 < m" using PBranch.prems 2 by (auto simp: tidy_def)
    have "ts ! i = ts' ! i" if i: "i < 16" for i
    proof (rule PBranch.IH [of _ "m - 1"])
      show "ts ! i \<in> set ts" using i l by simp
      show "tidy (m - 1) (ts ! i)" "tidy (m - 1) (ts' ! i)" using PBranch.prems 2 i l by (auto simp: tidy_def)
      have w: "unat (word_of_nat i :: byte) = i" using i by (intro unat_word_of_nat) simp
      show "same (m - 1) (ts ! i) (ts' ! i)"
        unfolding same_def
      proof (intro allI impI)
        fix k assume "key_of_len (m - 1) k"
        then have "key_of_len m (word_of_nat i # k)" using w i l by simp
        then have "t_at (PBranch ts w) (word_of_nat i # k) = t_at (PBranch ts' w') (word_of_nat i # k)"
          using PBranch.prems(3) 2 unfolding same_def by blast
        then show "t_at (ts ! i) k = t_at (ts' ! i) k" using w i l by simp
      qed
    qed
    then have "ts = ts'" using l by (intro nth_equalityI) auto
    then show ?thesis using 2 l by simp
  next
    case PNull
    then show ?thesis using canon_key [of "PBranch ts w" m] PBranch.prems by (auto simp: tidy_def same_def)
  next
    case (PLeaf a v)
    then show ?thesis using same_not_leaf PBranch.prems by blast
  next
    case (PExt a u)
    then show ?thesis using same_ext_branch PBranch.prems same_sym by blast
  qed
qed

end
