(* ===== verification/Trie_Delete.thy ===== *)
theory Trie_Delete
  imports Trie_Update Trie_Canon
begin

text \<open>Removal, for tries whose keys have one length.\<close>

section \<open>Nodes in play\<close>

function removed :: "ptrie \<Rightarrow> bytes \<Rightarrow> ptrie set" where
  "removed PNull k = {}"
| "removed (PLeaf l v) k = {}"
| "removed (PExt l t) k =
     (if prefix l k then
        removed t (drop (length l) k) \<union> (case t_remove t (drop (length l) k) of None \<Rightarrow> {} | Some u \<Rightarrow> insert u (psubs u))
      else {})"
| "removed (PBranch ts w) [] = {}"
| "removed (PBranch ts w) (n # k) =
     (if unat n < length ts then
        removed (ts ! unat n) k \<union> (case t_remove (ts ! unat n) k of None \<Rightarrow> {} | Some u \<Rightarrow> insert u (psubs u))
      else {})"
  by pat_completeness auto

termination removed
  by (relation "measure (\<lambda>(t, k). size t)") (auto simp: size_nth_less)

lemma psubs_join: "psubs (t_join c t) \<subseteq> insert t (psubs t)"
  by (cases t) (auto simp: t_join_def)

lemma psubs_shrink:
  assumes "length ts = 16"
  shows "psubs (t_shrink ts) \<subseteq> psubs (PBranch ts [])"
proof (cases "\<exists>i. used ts = [i]")
  case True
  then obtain i where i: "used ts = [i]" by blast
  then have "ts ! i \<in> set ts" using used_iff [of i ts] by auto
  then show ?thesis using psubs_join [of "[word_of_nat i]" "ts ! i"] by (fastforce simp: t_shrink_def i)
qed (auto simp: t_shrink_def split: list.splits)

section \<open>The unique child\<close>

lemma uniqueInUse_loop_encode:
  assumes ok: "size_ok (length (concat (map encode xs)))" "length xs = 17"
  shows "cache_ok xs c \<Longrightarrow> i \<le> 17 \<Longrightarrow> uniqueInUse_loop (encode (Items xs)) c 255 i u =
    Inr (let us = filter (\<lambda>j. \<not> isEmpty (encode (xs ! j))) [i..<17] in
         if us = [] then u else if u = 255 \<and> tl us = [] then hd us else 255)"
proof (induction "17 - i" arbitrary: i u c)
  case 0
  then show ?case by (simp add: uniqueInUse_loop.simps)
next
  case (Suc n)
  then have i: "i < 17" "n = 17 - Suc i" by simp_all
  obtain c' where c': "subscript (encode (Items xs)) c i = (Inr (encode (xs ! i)), c')" "cache_ok xs c'"
    using subscript_encode [OF ok(1) Suc.prems(1), of "[]" i] i(1) ok(2) by auto
  have IH: "uniqueInUse_loop (encode (Items xs)) c' 255 (Suc i) u =
    Inr (let us = filter (\<lambda>j. \<not> isEmpty (encode (xs ! j))) [Suc i..<17] in
         if us = [] then u else if u = 255 \<and> tl us = [] then hd us else 255)" for u
    using Suc.hyps(1) [OF i(2) c'(2)] i(1) by simp
  have "[i..<17] = i # [Suc i..<17]" using i(1) by (simp add: upt_conv_Cons)
  then show ?case
    using c'(1) i(1) IH by (simp add: uniqueInUse_loop.simps [of _ c] Let_def del: encode.simps)
qed

lemma uniqueInUse_branch:
  assumes t: "pt_wf (PBranch ts [])"
  shows "uniqueInUse (pnode (PBranch ts [])) 255 = Inr (case used ts of [i] \<Rightarrow> i | _ \<Rightarrow> 255)"
proof -
  let ?xs = "map (\<lambda>t. ref_of (pitem t)) ts @ [Data []]"
  have p: "pitem (PBranch ts []) = Items ?xs" by simp
  note ok = pitem_size [OF t p]
  have l: "length ts = 16" using t by simp
  have e: "isEmpty (encode (?xs ! j)) \<longleftrightarrow> j = 16 \<or> ts ! j = PNull" if "j < 17" for j
  proof (cases "j = 16")
    case True
    then show ?thesis using l isEmpty_Data [of "[]"] by (simp add: nth_append size_ok_def del: encode.simps)
  next
    case False
    then have "j < 16" using that by simp
    then show ?thesis using l t pref_read(1) [of "ts ! j"] by (simp add: nth_append del: encode.simps)
  qed
  have "filter (\<lambda>j. \<not> isEmpty (encode (?xs ! j))) [0..<17] = filter (\<lambda>j. j \<noteq> 16 \<and> ts ! j \<noteq> PNull) [0..<17]"
    by (rule filter_cong [OF HOL.refl]) (use e in auto)
  also have "\<dots> = filter (\<lambda>j. j \<noteq> 16 \<and> ts ! j \<noteq> PNull) ([0..<16] @ [16])" using upt_Suc [of 0 16] by simp
  also have "\<dots> = filter (\<lambda>j. j \<noteq> 16 \<and> ts ! j \<noteq> PNull) [0..<16]" by simp
  also have "\<dots> = used ts" unfolding used_def l by (rule filter_cong) auto
  finally have f: "filter (\<lambda>j. \<not> isEmpty (encode (?xs ! j))) [0..<17] = used ts" .
  have "uniqueInUse_loop (encode (Items ?xs)) fresh_cache 255 0 255 =
      Inr (if used ts = [] then 255 else if tl (used ts) = [] then hd (used ts) else 255)"
    using uniqueInUse_loop_encode [OF ok _ cache_ok_fresh, of 0 255] l by (simp add: f Let_def del: encode.simps)
  then show ?thesis
    unfolding uniqueInUse_def pnode_def p by (cases "used ts"; cases "tl (used ts)") (simp_all del: encode.simps)
qed

context trie_store
begin

section \<open>Joining nodes\<close>

lemma isTwoItemNode_ok:
  assumes "pt_wf t" and "t \<noteq> PNull" and "has d (bigs {t})"
  shows "isTwoItemNode D d (pref t) = Inr (two_item t)"
proof -
  have c: "itemCount (pnode t) = Inr (if two_item t then 2 else 17)"
    using two_read(6) [OF assms(1)] branch_read(6) assms(1,2) by (cases t) (auto simp: two_item_def)
  show ?thesis
  proof (cases "big t")
    case True
    then show ?thesis
      using pref_big [OF True] c pnode_read(5) [OF assms(1,2)] assms(3)
      by (simp add: isTwoItemNode_def node_rlp_def del: encode.simps)
  next
    case False
    then show ?thesis
      using pref_small [OF False] c pnode_read(1) [OF assms(1,2)] isList_isData by (simp add: isTwoItemNode_def)
  qed
qed

lemma merge_ok:
  assumes t: "pt_wf (PBranch ts w)" and i: "i < 16" "ts ! i \<noteq> PNull"
  shows "merge (pnode (PBranch ts w)) i = Inr (pnode (PExt [word_of_nat i] (ts ! i)))" and "pt_wf (PExt [word_of_nat i] (ts ! i))"
proof -
  let ?w = "word_of_nat i :: byte"
  have w: "unat ?w = i" using i(1) by (intro unat_word_of_nat) simp
  have mem: "pt_wf (ts ! i)" using t i(1) by simp
  show wf: "pt_wf (PExt [?w] (ts ! i))" using w i mem by simp
  have "?w AND 15 = ?w" using w i(1) by (simp add: unat_eq_iff [symmetric] unat_and_15)
  then have "nibble [?w] (Suc 0) = ?w" by (simp add: nibble_def)
  then have "hexPrefixEncode_range [?w] False 1 2 0 = hex_prefix False [?w]"
    using hexPrefixEncode_range_eq [of 1 0 2 2 "[?w]" False] by (simp add: upt_rec)
  then have "out_list [append_bytes (hexPrefixEncode_range [?w] False 1 2 0) False, appendRaw (pref (ts ! i)) 1] = Inr (pnode (PExt [?w] (ts ! i)))"
    using wf appends_raw [of "ref_of (pitem (ts ! i))"] by (intro write_two) (simp_all add: two_item_def)
  then show "merge (pnode (PBranch ts w)) i = Inr (pnode (PExt [?w] (ts ! i)))"
    using branch_read(1,2) [OF t] i pref_read(1) [OF mem] by (simp add: merge_def del: encode.simps)
qed

lemma graft_ok:
  assumes t: "pt_wf (PExt c t)" "two_item t" and j: "pt_wf (t_join c t)" and d: "inv d" "has d (bigs {t})"
  shows "\<exists>d'. graft D (pnode (PExt c t)) d = Inr (pnode (t_join c t), d') \<and> inv d' \<and> nd_lookup D d' = nd_lookup D d"
proof -
  have w: "pt_wf t" "t \<noteq> PNull" "nibs c" "nibs (t_key t)" using t two_item_wf [OF t(2)] by auto
  have e: "two_item (PExt c t)" by (simp add: two_item_def)
  let ?d = "if big t then nd_kill D (sha3 (pnode t)) d else d"
  have r: "(if isList (pref t) then Inr (pref t, d)
        else res_bind (rlp_h256 (pref t)) (\<lambda>lh. res_bind (node_rlp D d lh) (\<lambda>n. Inr (n, nd_kill D lh d)))) = Inr (pnode t, ?d)"
  proof (cases "big t")
    case True
    then show ?thesis using pref_big [OF True] pnode_read(5) [OF w(1,2)] d(2) by (simp add: node_rlp_def del: encode.simps)
  next
    case False
    then show ?thesis using pref_small [OF False] pnode_read(1) [OF w(1,2)] by simp
  qed
  have jt: "two_item (t_join c t)" "t_key (t_join c t) = c @ t_key t" "t_leaf (t_join c t) = t_leaf t" "t_rest (t_join c t) = t_rest t"
    using t(2) by (cases t; auto simp: t_join_def two_item_def)+
  have "hexPrefixEncode_slices (keyOf (hex_prefix False c)) (keyOf (hex_prefix (t_leaf t) (t_key t))) (t_leaf t)
      = hex_prefix (t_leaf t) (c @ t_key t)"
    using hexPrefixEncode_two_eq hex_prefix_slice w(3,4) by simp
  then have "out_list [append_bytes (hexPrefixEncode_slices (keyOf (hex_prefix False c)) (keyOf (hex_prefix (t_leaf t) (t_key t))) (t_leaf t)) False,
      appendRaw (encode (t_rest t)) 1] = Inr (pnode (t_join c t))"
    using j jt appends_raw [of "t_rest t"] by (intro write_two) simp_all
  then have "graft D (pnode (PExt c t)) d = Inr (pnode (t_join c t), ?d)"
    using two_read [OF t(1) e] two_read [OF w(1) t(2)] r by (simp add: graft_def del: encode.simps)
  then show ?thesis using d(1) by (simp add: inv_kill look_kill)
qed

lemma collapse_ok:
  assumes t: "pt_wf (PBranch ts w)" and i: "i < 16" "ts ! i \<noteq> PNull" and j: "pt_wf (t_join [word_of_nat i] (ts ! i))"
    and d: "inv d" "has d (bigs {ts ! i})"
  shows "\<exists>d'. collapse D (pnode (PBranch ts w)) i d = Inr (pnode (t_join [word_of_nat i] (ts ! i)), d') \<and> inv d'
    \<and> nd_lookup D d' = nd_lookup D d"
proof -
  have mem: "pt_wf (ts ! i)" using t i(1) by simp
  note m = merge_ok [OF t i] and two = isTwoItemNode_ok [OF mem i(2) d(2)] and it = branch_read(2) [OF t i(1)]
  show ?thesis
  proof (cases "two_item (ts ! i)")
    case True
    obtain d' where "graft D (pnode (PExt [word_of_nat i] (ts ! i))) d = Inr (pnode (t_join [word_of_nat i] (ts ! i)), d')"
        "inv d'" "nd_lookup D d' = nd_lookup D d"
      using graft_ok [OF m(2) True j d] by blast
    then show ?thesis using True it two m(1) pnode_read(5) [OF m(2)] by (simp add: collapse_def del: encode.simps)
  next
    case False
    then have "t_join [word_of_nat i] (ts ! i) = PExt [word_of_nat i] (ts ! i)" by (cases "ts ! i") (auto simp: two_item_def t_join_def)
    then show ?thesis using False it two m(1) d(1) by (simp add: collapse_def del: encode.simps)
  qed
qed

section \<open>Removal\<close>

definition deletes :: "bytes set \<Rightarrow> 'd \<Rightarrow> ptrie option \<Rightarrow> trie_error + bytes \<times> 'd \<Rightarrow> bool" where
  "deletes N d x r = (case x of None \<Rightarrow> r = Inr ([], d) | Some t \<Rightarrow> writes N d t r)"

lemma deleteAtAux_none:
  assumes "pt_wf x" and "has d (bigs {x})" and "x \<noteq> PNull \<Longrightarrow> deletes N d None (rec (pnode x) s d)"
  shows "deleteAtAux D rec (pref x) s d = Inr (None, d)"
proof (cases "x = PNull")
  case True
  then show ?thesis using pref_read(1) [OF assms(1)] by (simp add: deleteAtAux_def)
next
  case False
  then have "child_rlp D d (pref x) = Inr (pnode x)" using assms(1,2) by (intro child_read) auto
  then show ?thesis using assms(3) False pref_read(1) [OF assms(1)] by (simp add: deleteAtAux_def deletes_def)
qed

lemma deleteAtAux_some:
  assumes x: "pt_wf x" "has d (bigs {x})" "x \<noteq> PNull" and rec: "deletes N d (Some x') (rec (pnode x) s d)"
    and x': "pt_wf x'" "bigs (insert x' (psubs x')) \<subseteq> N" and N: "inj_on sha3 N"
  shows "\<exists>app d'. deleteAtAux D rec (pref x) s d = Inr (Some app, d') \<and> appends app (ref_of (pitem x')) \<and> keeps N d d'
    \<and> has d' (bigs (insert x' (psubs x')))"
proof -
  obtain d1 where d1: "rec (pnode x) s d = Inr (pnode x', d1)" "keeps N d d1" "has d1 (bigs (psubs x'))"
    using rec by (auto simp: deletes_def writes_def)
  have Nx: "bigs {x'} \<subseteq> N" "bigs (psubs x') \<subseteq> N" using x'(2) by auto
  obtain app d2 where d2: "streamNode D (pnode x') d1 = (app, d2)" "appends app (ref_of (pitem x'))" "keeps N d1 d2" "has d2 (bigs {x'})"
    using streamNode_ok [OF x'(1) _ Nx(1) N, of d1] d1(2) by (auto simp: keeps_def)
  have "has d2 (bigs (psubs x'))" by (rule keeps_has [OF d2(3) d1(3) Nx(2)])
  moreover have "child_rlp D d (pref x) = Inr (pnode x)" using x by (intro child_read) auto
  ultimately show ?thesis
    using x(3) pref_read(1) [OF x(1)] d1(1) d2 pnode_ne [OF x'(1)] keeps_trans [OF d1(2) d2(3)]
    by (simp add: deleteAtAux_def del: encode.simps)
qed

lemma delete_leaf:
  assumes t: "pt_wf (PLeaf l v)" and k: "keyed s k" "length k = length l" and d: "inv d" and n: "0 < n"
  shows "deletes N d (t_remove (PLeaf l v) k) (deleteAt D n (pnode (PLeaf l v)) s d)"
proof -
  have l: "nibs l" using t by simp
  have "prefix l k \<longleftrightarrow> k = l" using k(2) by (metis append_Nil2 append_eq_append_conv prefix_def)
  then show ?thesis
    using two_read [OF t] pnode_read [OF t] keyedD(5,6) [OF k(1) l] n d
    by (cases n) (auto simp: deletes_def writes_def two_item_def RLPNull_def simp del: encode.simps pitem.simps)
qed

lemma delete_ext_none:
  assumes t: "pt_wf (PExt l t)" and k: "keyed s k" and d: "has d (bigs {t})"
    and rec: "prefix l k \<Longrightarrow> deletes N d None (deleteAt D n (pnode t) (slice_mid s (length l)) d)"
  shows "deletes N d None (deleteAt D (Suc n) (pnode (PExt l t)) s d)"
proof -
  have l: "nibs l" "pt_wf t" using t by auto
  show ?thesis
    using two_read [OF t] pnode_read [OF t] keyedD(5,6) [OF k l(1)] key_size [OF l(1)]
      deleteAtAux_none [where rec = "deleteAt D n", OF l(2) d rec]
    by (auto simp: deletes_def two_item_def simp del: encode.simps pitem.simps)
qed

lemma delete_ext_some:
  assumes t: "pt_wf (PExt l t)" and k: "keyed s k" "prefix l k" and d: "has d (bigs {t})"
    and rec: "deletes N d (Some x) (deleteAt D n (pnode t) (slice_mid s (length l)) d)"
    and x: "pt_wf x" "x \<noteq> PNull" "pt_wf (t_join l x)" "bigs (insert x (psubs x)) \<subseteq> N" and N: "inj_on sha3 N"
  shows "deletes N d (Some (t_join l x)) (deleteAt D (Suc n) (pnode (PExt l t)) s d)"
proof -
  have l: "nibs l" "pt_wf t" "t \<noteq> PNull" using t by auto
  obtain app d1 where a: "deleteAtAux D (deleteAt D n) (pref t) (slice_mid s (length l)) d = Inr (Some app, d1)"
      "appends app (ref_of (pitem x))" "keeps N d d1" "has d1 (bigs (insert x (psubs x)))"
    using deleteAtAux_some [where rec = "deleteAt D n", OF l(2) d l(3) rec x(1,4) N] by blast
  let ?d = "killNode D (pnode (PExt l t)) d1"
  have i1: "inv d1" "inv ?d" "nd_lookup D ?d = nd_lookup D d1" using a(3) by (simp_all add: keeps_def)
  then have hd: "has ?d (bigs (insert x (psubs x)))" using a(4) has_cong by blast
  have wx: "pt_wf (PExt l x)" using t x by simp
  have out: "out_list [appendRaw (encode (Data (hex_prefix False l))) 1, app] = Inr (pnode (PExt l x))"
    using rewrite_two [OF _ wx] a(2) by (simp add: two_item_def del: encode.simps)
  have two: "isTwoItemNode D ?d (pref x) = Inr (two_item x)" using isTwoItemNode_ok [OF x(1,2)] hd by (simp split: if_splits)
  have "\<exists>d2. (if two_item x then graft D (pnode (PExt l x)) ?d else Inr (pnode (PExt l x), ?d)) = Inr (pnode (t_join l x), d2)
      \<and> inv d2 \<and> nd_lookup D d2 = nd_lookup D d1"
  proof (cases "two_item x")
    case True
    then show ?thesis using graft_ok [OF wx True x(3) i1(2)] hd i1(3) by (auto split: if_splits)
  next
    case False
    then have "t_join l x = PExt l x" using x(2) by (cases x) (auto simp: two_item_def t_join_def)
    then show ?thesis using False i1 by simp
  qed
  then obtain d2 where d2: "(if two_item x then graft D (pnode (PExt l x)) ?d else Inr (pnode (PExt l x), ?d)) = Inr (pnode (t_join l x), d2)"
      "inv d2" "nd_lookup D d2 = nd_lookup D d1" by blast
  have "has d2 (bigs (psubs (t_join l x)))"
    using has_mono [OF a(4) bigs_mono [OF psubs_join]] has_cong [OF d2(3)] by blast
  moreover have "keeps N d d2" using keeps_trans [OF a(3) keeps_look [OF d2(2,3)]] .
  ultimately show ?thesis
    using two_read [OF t] pnode_read [OF t] two_read(5) [OF wx] pnode_read(5) [OF wx] keyedD(5,6) [OF k(1) l(1)] k(2) key_size [OF l(1)]
      a(1) out two d2(1)
    by (auto simp: deletes_def writes_def two_item_def Let_def simp del: encode.simps pitem.simps)
qed

lemma delete_branch_none:
  assumes t: "pt_wf (PBranch ts [])" and k: "keyed s (c # a)" "unat c < 16" and d: "has d (bigs {ts ! unat c})"
    and rec: "deletes N d None (deleteAt D n (pnode (ts ! unat c)) (slice_mid s 1) d)"
  shows "deletes N d None (deleteAt D (Suc n) (pnode (PBranch ts [])) s d)"
proof -
  have l: "length ts = 16" "pt_wf (ts ! unat c)" using t k(2) by auto
  have nth: "(map pref ts @ [encode (Data [])]) ! unat c = pref (ts ! unat c)" using l k(2) by (simp add: nth_append)
  show ?thesis
    using branch_read [OF t] pnode_read [OF t] keyedD(1,2) [OF k(1)] nth deleteAtAux_none [where rec = "deleteAt D n", OF l(2) d rec]
    by (simp add: deletes_def Let_def del: encode.simps pitem.simps)
qed

lemma shrink_node:
  assumes t: "pt_wf (PBranch ts [])" "pt_wf (t_shrink ts)" and d: "inv d" "has d (bigs (psubs (PBranch ts [])))"
  shows "\<exists>d'. res_bind (trie_rlp (uniqueInUse (pnode (PBranch ts [])) 255)) (\<lambda>used.
      if used = 255 then Inr (pnode (PBranch ts []), d) else collapse D (pnode (PBranch ts [])) used d)
    = Inr (pnode (t_shrink ts), d') \<and> inv d' \<and> nd_lookup D d' = nd_lookup D d"
proof (cases "\<exists>i. used ts = [i]")
  case True
  then obtain i where i: "used ts = [i]" by blast
  have u: "i < 16" "ts ! i \<noteq> PNull" "ts ! i \<in> set ts" using used_iff [of i ts] t(1) i by auto
  have "has d (bigs {ts ! i})" using d(2) u(3) by (elim has_mono) (auto simp: bigs_def)
  from collapse_ok [OF t(1) u(1,2) _ d(1) this] show ?thesis
    using t(2) u(1) uniqueInUse_branch [OF t(1)] by (simp add: i t_shrink_def)
next
  case False
  then have "t_shrink ts = PBranch ts []" "uniqueInUse (pnode (PBranch ts [])) 255 = Inr 255"
    using uniqueInUse_branch [OF t(1)] by (auto simp: t_shrink_def split: list.splits)
  then show ?thesis using d(1) by simp
qed

lemma delete_branch_some:
  assumes t: "pt_wf (PBranch ts [])" and k: "keyed s (c # a)" "unat c < 16" and d: "has d (bigs (psubs (PBranch ts [])))"
    and rec: "deletes N d (Some x) (deleteAt D n (pnode (ts ! unat c)) (slice_mid s 1) d)"
    and x: "ts ! unat c \<noteq> PNull" "pt_wf x" "pt_wf (t_shrink (ts[unat c := x]))" "bigs (insert x (psubs x)) \<subseteq> N"
    and N: "inj_on sha3 N" "bigs (psubs (PBranch ts [])) \<subseteq> N"
  shows "deletes N d (Some (t_shrink (ts[unat c := x]))) (deleteAt D (Suc n) (pnode (PBranch ts [])) s d)"
proof -
  let ?i = "unat c" and ?us = "ts[unat c := x]"
  have l: "length ts = 16" "pt_wf (ts ! ?i)" "ts ! ?i \<in> set ts" using t k(2) by auto
  have hx: "has d (bigs {ts ! ?i})" using d l(3) by (elim has_mono) (auto simp: bigs_def)
  obtain app d1 where a: "deleteAtAux D (deleteAt D n) (pref (ts ! ?i)) (slice_mid s 1) d = Inr (Some app, d1)"
      "appends app (ref_of (pitem x))" "keeps N d d1" "has d1 (bigs (insert x (psubs x)))"
    using deleteAtAux_some [where rec = "deleteAt D n", OF l(2) hx x(1) rec x(2,4) N(1)] by blast
  let ?d = "killNode D (pnode (PBranch ts [])) d1"
  have i1: "inv ?d" "nd_lookup D ?d = nd_lookup D d1" using a(3) by (simp_all add: keeps_def)
  have wf: "pt_wf (PBranch ?us [])" using t x(2) by (auto dest!: set_update_subset_insert [THEN subsetD])
  have h1: "has d1 (bigs (psubs (PBranch ?us [])))" by (rule has_kid [OF keeps_has [OF a(3) d N(2)] a(4)])
  then have "has ?d (bigs (psubs (PBranch ?us [])))" using has_cong [OF i1(2)] by blast
  then obtain d2 where d2: "res_bind (trie_rlp (uniqueInUse (pnode (PBranch ?us [])) 255)) (\<lambda>used.
      if used = 255 then Inr (pnode (PBranch ?us []), ?d) else collapse D (pnode (PBranch ?us [])) used ?d) = Inr (pnode (t_shrink ?us), d2)"
      "inv d2" "nd_lookup D d2 = nd_lookup D d1"
    using shrink_node [OF wf x(3) i1(1)] i1(2) by metis
  have "has d2 (bigs (psubs (t_shrink ?us)))"
    using has_mono [OF h1 bigs_mono [OF psubs_shrink]] has_cong [OF d2(3)] l(1) by fastforce
  moreover have "keeps N d d2" using keeps_trans [OF a(3) keeps_look [OF d2(2,3)]] .
  moreover have "(map pref ts @ [encode (Data [])]) ! ?i = pref (ts ! ?i)" using l k(2) by (simp add: nth_append)
  ultimately show ?thesis
    using branch_read [OF t] pnode_read [OF t] pnode_read(5) [OF wf] keyedD(1,2) [OF k(1)] a(1) rewrite_kid [OF t x(2) k(2) a(2)] d2(1)
    by (simp add: deletes_def writes_def Let_def del: encode.simps pitem.simps psubs.simps)
qed

lemma deleteAt_correct:
  assumes N: "inj_on sha3 N"
  shows "tidy m t \<Longrightarrow> inv d \<Longrightarrow> has d (bigs (psubs t)) \<Longrightarrow> keyed s k \<Longrightarrow> length k = m \<Longrightarrow> m < 2 ^ 31 \<Longrightarrow> m < n
    \<Longrightarrow> bigs (psubs t \<union> removed t k) \<subseteq> N \<Longrightarrow> deletes N d (t_remove t k) (deleteAt D n (pnode t) s d)"
proof (induction t k arbitrary: m s n rule: t_remove.induct)
  case (1 k)
  then show ?case by (cases n) (simp_all add: deletes_def isEmpty_def isNull_def)
next
  case (2 l v k)
  then show ?case using delete_leaf [of l v s k d n N] by (simp add: tidy_def)
next
  case (3 l t k)
  obtain j where j: "n = Suc j" using "3.prems"(7) by (cases n) auto
  have t: "pt_wf (PExt l t)" "tidy (m - length l) t" "is_branch t" "0 < length l" "has d (bigs (psubs t))"
    using "3.prems"(1,3) by (auto simp: tidy_def)
  have h: "has d (bigs {t})" using "3.prems"(3) by (simp split: if_splits)
  have rec: "deletes N d (t_remove t (drop (length l) k)) (deleteAt D j (pnode t) (slice_mid s (length l)) d)" if "prefix l k"
  proof -
    have "length l \<le> length k" "m - length l < j" using prefix_length_le [OF that] "3.prems"(5,7) j t(4) by linarith+
    then show ?thesis using "3.prems"(2,4-6,8) that t by (intro "3.IH" [OF that, of "m - length l"] keyedD(3)) auto
  qed
  show ?case
  proof (cases "t_remove (PExt l t) k")
    case None
    then show ?thesis using delete_ext_none [OF t(1) "3.prems"(4) h, where n = j] rec j by (auto split: if_splits)
  next
    case (Some t')
    then obtain x where x: "prefix l k" "t_remove t (drop (length l) k) = Some x" "t' = t_join l x" by (auto split: if_splits)
    have "pt_wf x" "x \<noteq> PNull" using t_remove_keeps [of t "m - length l" "drop (length l) k" x] t(2,3) x(2) "3.prems"(6) by (auto simp: tidy_def)
    moreover have "pt_wf (t_join l x)"
      using t_remove_keeps [of "PExt l t" m k t'] "3.prems"(1,6) Some x(3) by (auto simp: tidy_def)
    moreover have "bigs (insert x (psubs x)) \<subseteq> N" using "3.prems"(8) x by (auto simp: bigs_def)
    ultimately show ?thesis
      using delete_ext_some [OF t(1) "3.prems"(4) x(1) h, where n = j and x = x] rec [OF x(1)] x j N by simp
  qed
next
  case (4 ts w)
  then show ?case by (simp add: tidy_def)
next
  case (5 ts w c k)
  obtain j where j: "n = Suc j" using "5.prems"(7) by (cases n) auto
  have w: "w = []" "pt_wf (PBranch ts [])" "unat c < 16" "length ts = 16"
    using "5.prems"(1) keyed_nibs [OF "5.prems"(4)] "5.prems"(5,6) by (auto simp: tidy_def)
  have i: "unat c < length ts" and tc: "ts ! unat c \<in> set ts" "tidy (m - 1) (ts ! unat c)" using w "5.prems"(1) by (auto simp: tidy_def)
  have hb: "has d (bigs (psubs (PBranch ts [])))" using "5.prems"(3) by simp
  have h: "has d (bigs {ts ! unat c})" "has d (bigs (psubs (ts ! unat c)))"
    using hb tc(1) by (auto elim!: has_mono simp: bigs_def)
  have sub: "bigs (psubs (ts ! unat c) \<union> removed (ts ! unat c) k) \<subseteq> N"
    using "5.prems"(8) tc(1) i by (fastforce simp: bigs_def)
  have Nb: "bigs (psubs (PBranch ts [])) \<subseteq> N" using "5.prems"(8) by (fastforce simp: bigs_def)
  have key: "keyed (slice_mid s 1) k" using keyedD(3) [OF "5.prems"(4), of 1] by simp
  have rec: "deletes N d (t_remove (ts ! unat c) k) (deleteAt D j (pnode (ts ! unat c)) (slice_mid s 1) d)"
    using "5.IH" [OF i tc(2) "5.prems"(2) h(2) key, of j] "5.prems"(5-7) j sub by simp
  show ?case
  proof (cases "t_remove (ts ! unat c) k")
    case None
    then show ?thesis using delete_branch_none [OF w(2) "5.prems"(4) w(3) h(1), where n = j] rec j i w(1) by simp
  next
    case (Some x)
    have "ts ! unat c \<noteq> PNull" using Some by auto
    moreover have "pt_wf x" using t_remove_keeps [of "ts ! unat c" "m - 1" k x] tc(2) Some "5.prems"(6) by (simp add: tidy_def)
    moreover have "pt_wf (t_shrink (ts[unat c := x]))"
      using t_remove_keeps [of "PBranch ts w" m "c # k" "t_shrink (ts[unat c := x])"] "5.prems"(1,6) Some i by (simp add: tidy_def)
    moreover have "bigs (insert x (psubs x)) \<subseteq> N" using "5.prems"(8) Some i by (auto simp: bigs_def)
    ultimately show ?thesis
      using delete_branch_some [OF w(2) "5.prems"(4) w(3) hb, where n = j and x = x] rec Some i w(1) Nb j N by simp
  qed
qed

end

end
