(* ===== verification/Trie_Refine.thy ===== *)
theory Trie_Refine
  imports Trie_Delete
begin

text \<open>
  The trie class against the tree it stands for, and the runs of insertions and removals on the two
  node databases of the program.
\<close>

lemma psubs_removed:
  assumes "pt_wf t" and "t_remove t k = Some t'"
  shows "psubs t' \<subseteq> psubs t \<union> removed t k"
proof (cases t)
  case (PExt l u)
  then obtain x where "t_remove u (drop (length l) k) = Some x" "t' = t_join l x" "prefix l k" using assms(2) by (auto split: if_splits)
  then show ?thesis using psubs_join [of l x] by (auto simp: PExt)
next
  case (PBranch ts w)
  then obtain c a x where x: "k = c # a" "t_remove (ts ! unat c) a = Some x" "t' = t_shrink (ts[unat c := x])" "unat c < length ts"
    using assms(2) by (cases k) (auto split: if_splits)
  have "psubs (PBranch (ts[unat c := x]) []) \<subseteq> insert x (psubs x) \<union> psubs (PBranch ts w)"
    by (auto dest!: set_update_subset_insert [THEN subsetD])
  then show ?thesis using psubs_shrink [of "ts[unat c := x]"] assms(1) x by (fastforce simp: PBranch)
qed (use assms in \<open>auto split: if_splits\<close>)

section \<open>Runs\<close>

datatype trie_op = Put bytes bytes | Del bytes

definition trie_step :: "'d node_ops \<Rightarrow> trie_op \<Rightarrow> 'd trie_db \<Rightarrow> trie_error + 'd trie_db" where
  "trie_step D x T = (case x of Put k v \<Rightarrow> trie_insert D k v T | Del k \<Rightarrow> trie_remove D k T)"

primrec trie_run :: "'d node_ops \<Rightarrow> trie_op list \<Rightarrow> 'd trie_db \<Rightarrow> trie_error + 'd trie_db" where
  "trie_run D [] T = Inr T"
| "trie_run D (x # xs) T = res_bind (trie_step D x T) (trie_run D xs)"

text \<open>The map from keys to values that a run leaves; no value is the empty string.\<close>

primrec contents :: "trie_op list \<Rightarrow> (bytes \<Rightarrow> bytes) \<Rightarrow> bytes \<Rightarrow> bytes" where
  "contents [] m = m"
| "contents (x # xs) m = contents xs (case x of Put k v \<Rightarrow> m(k := v) | Del k \<Rightarrow> m(k := []))"

definition ns :: "bytes \<Rightarrow> bytes" where
  "ns key = nibbles_of (key_slice key)"

definition t_step :: "trie_op \<Rightarrow> ptrie \<Rightarrow> ptrie" where
  "t_step x t = (case x of Put k v \<Rightarrow> t_insert t (ns k) v | Del k \<Rightarrow> (case t_remove t (ns k) of None \<Rightarrow> t | Some t' \<Rightarrow> t'))"

text \<open>The nodes a step hashes: the two roots and the nodes of 32 bytes or more.\<close>

definition step_nodes :: "trie_op \<Rightarrow> ptrie \<Rightarrow> bytes set" where
  "step_nodes x t = {pnode t, pnode (t_step x t)}
     \<union> bigs (case x of Put k v \<Rightarrow> touched t (ns k) v | Del k \<Rightarrow> psubs t \<union> removed t (ns k))"

primrec run_nodes :: "trie_op list \<Rightarrow> ptrie \<Rightarrow> bytes set" where
  "run_nodes [] t = insert (pnode t) (bigs (psubs t))"
| "run_nodes (x # xs) t = step_nodes x t \<union> run_nodes xs (t_step x t)"

definition collides :: "bytes set \<Rightarrow> bool" where
  "collides N = (\<exists>a\<in>N. \<exists>b\<in>N. a \<noteq> b \<and> sha3 a = sha3 b)"

lemma not_collides: "\<not> collides N \<longleftrightarrow> inj_on sha3 N"
  by (auto simp: collides_def inj_on_def)

text \<open>What the steps need: keys and values that fit, and for a removal keys of one length.\<close>

definition step_ok :: "trie_op \<Rightarrow> ptrie \<Rightarrow> bool" where
  "step_ok x t = (case x of Put k v \<Rightarrow> length k < 2 ^ 30 \<and> length v < 2 ^ 62
     | Del k \<Rightarrow> length k < 2 ^ 30 \<and> tidy (2 * length k) t)"

primrec run_ok :: "trie_op list \<Rightarrow> ptrie \<Rightarrow> bool" where
  "run_ok [] t = True"
| "run_ok (x # xs) t = (step_ok x t \<and> run_ok xs (t_step x t))"

section \<open>Keys\<close>

lemma ns_wf:
  assumes "length k < 2 ^ 30"
  shows "slice_wf (key_slice k)" and "nibs (ns k)" and "length (ns k) = 2 * length k" and "length (ns k) < 2 ^ 31"
  using assms nibble_less_16 by (auto simp: slice_wf_def key_slice_def ns_def nibs_def nibbles_of_def)

lemma ns_simps [simp]: "ns [] = []" "ns (x # xs) = drop_bit 4 x # (x AND 15) # ns xs"
proof -
  have "[0..<2 * length (x # xs)] = 0 # 1 # [2..<2 * length (x # xs)]"
    using upt_conv_Cons [of 0 "2 * length (x # xs)"] upt_conv_Cons [of 1 "2 * length (x # xs)"] by (simp add: numeral_2_eq_2 del: upt.simps)
  then have "ns (x # xs) = nibble (x # xs) 0 # nibble (x # xs) 1 # map (nibble (x # xs)) [2..<2 * length (x # xs)]"
    by (simp add: ns_def key_slice_def nibbles_of_def del: upt.simps)
  then show "ns (x # xs) = drop_bit 4 x # (x AND 15) # ns xs"
    unfolding map_nibble_Cons by (simp add: nibble_def ns_def key_slice_def nibbles_of_def)
qed (simp add: ns_def key_slice_def nibbles_of_def)

lemma ns_append: "ns (j @ r) = ns j @ ns r"
  by (induction j) simp_all

lemma ns_inj: "ns k = ns k' \<longleftrightarrow> k = k'"
proof (induction k arbitrary: k')
  case Nil
  then show ?case by (cases k') simp_all
next
  case (Cons x k)
  have "drop_bit 4 x = drop_bit 4 y \<and> x AND 15 = y AND 15 \<longleftrightarrow> x = y" for y
    using unat_and_15 unat_shift_4 byte_unat_inj by (metis div_mult_mod_eq)
  then show ?case by (cases k') (auto simp: Cons.IH)
qed

lemma ns_pack:
  assumes "key_of_len (2 * m) k"
  shows "ns (pack k) = k" and "length (pack k) = m"
  using assms nibbles_pack [of k] nibble_pack(1) [of k] by (auto simp: key_of_len_def ns_def key_slice_def nibbles_of_def)

section \<open>The tree after a run\<close>

lemma t_step_wf:
  assumes "pt_wf t" and "step_ok x t"
  shows "pt_wf (t_step x t)"
proof (cases x)
  case (Put k v)
  then show ?thesis using assms t_insert_wf ns_wf(2) by (simp add: step_ok_def t_step_def)
next
  case (Del k)
  then have k: "2 * length k < 2 ^ 31" "tidy (2 * length k) t" using assms(2) by (simp_all add: step_ok_def)
  then show ?thesis
    using t_remove_keeps [of t "2 * length k" "ns k"] assms(1) by (auto simp: Del t_step_def tidy_def split: option.splits)
qed

lemma t_step_at:
  assumes "pt_wf t" and "step_ok x t" and "length k < 2 ^ 30"
  shows "t_at (t_step x t) (ns k) = contents [x] (\<lambda>k. t_at t (ns k)) k"
proof (cases x)
  case (Put j v)
  then show ?thesis using assms t_at_insert [OF assms(1), of "ns j" "ns k" v] ns_wf nibs_nkey by (simp add: t_step_def step_ok_def ns_inj)
next
  case (Del j)
  then have j: "length j < 2 ^ 30" "tidy (2 * length j) t" using assms(2) by (simp_all add: step_ok_def)
  from t_remove_at [OF assms(1) tidyD(3) [OF j(2)] ns_wf(2) [OF j(1)] ns_wf(2) [OF assms(3)] ns_wf(3) [OF j(1)]]
  show ?thesis by (auto simp: Del t_step_def ns_inj split: option.splits)
qed

lemma contents_cong: "(\<And>k. P k \<Longrightarrow> m k = m' k) \<Longrightarrow> P k \<Longrightarrow> contents xs m k = contents xs m' k"
proof (induction xs arbitrary: m m')
  case (Cons x xs)
  show ?case using Cons.prems(2) by (cases x) (auto intro!: Cons.IH simp: Cons.prems(1))
qed simp

primrec t_run :: "trie_op list \<Rightarrow> ptrie \<Rightarrow> ptrie" where
  "t_run [] t = t"
| "t_run (x # xs) t = t_run xs (t_step x t)"

lemma t_run_at:
  "pt_wf t \<Longrightarrow> run_ok xs t \<Longrightarrow> length k < 2 ^ 30 \<Longrightarrow> t_at (t_run xs t) (ns k) = contents xs (\<lambda>k. t_at t (ns k)) k"
proof (induction xs arbitrary: t)
  case (Cons x xs)
  then have "t_at (t_run (x # xs) t) (ns k) = contents xs (\<lambda>k. t_at (t_step x t) (ns k)) k" using t_step_wf by simp
  also have "\<dots> = contents xs (contents [x] (\<lambda>k. t_at t (ns k))) k"
    using t_step_at [OF Cons.prems(1)] Cons.prems(2,3) by (intro contents_cong [where P = "\<lambda>k. length k < 2 ^ 30"]) simp_all
  finally show ?case by simp
qed simp

lemma puts_run_ok: "list_all (\<lambda>x. case x of Put k v \<Rightarrow> length k < 2 ^ 30 \<and> length v < 2 ^ 62 | Del _ \<Rightarrow> False) xs \<Longrightarrow> run_ok xs t"
  by (induction xs arbitrary: t) (auto simp: step_ok_def split: trie_op.splits)

text \<open>Runs on keys of one length, with no empty values.\<close>

definition fixed :: "nat \<Rightarrow> trie_op \<Rightarrow> bool" where
  "fixed m x = (case x of Put k v \<Rightarrow> length k = m \<and> v \<noteq> [] \<and> length v < 2 ^ 62 | Del k \<Rightarrow> length k = m)"

lemma fixed_step:
  assumes t: "tidy (2 * m) t" and x: "fixed m x" and m: "m < 2 ^ 30"
  shows "step_ok x t" and "tidy (2 * m) (t_step x t)"
proof -
  show ok: "step_ok x t" using assms by (auto simp: step_ok_def fixed_def split: trie_op.splits)
  show "tidy (2 * m) (t_step x t)"
  proof (cases x)
    case (Put k v)
    then have k: "length k = m" "v \<noteq> []" "length v < 2 ^ 62" using x by (auto simp: fixed_def)
    then show ?thesis
      using t_insert_canon [of t "ns k" v "2 * m"] ns_wf(2,3) [of k] m t t_step_wf [OF tidyD(1) [OF t] ok]
      by (auto simp: Put tidy_def t_step_def)
  next
    case (Del k)
    then show ?thesis using t_remove_keeps [of t "2 * m" "ns k"] t m by (auto simp: tidy_def t_step_def split: option.splits)
  qed
qed

lemma fixed_run:
  "tidy (2 * m) t \<Longrightarrow> list_all (fixed m) xs \<Longrightarrow> m < 2 ^ 30 \<Longrightarrow> run_ok xs t \<and> tidy (2 * m) (t_run xs t)"
  using fixed_step by (induction xs arbitrary: t) auto

lemma tidy_PNull [simp]: "tidy m PNull"
  by (simp add: tidy_def)

section \<open>The class\<close>

context trie_store
begin

definition rep :: "'d trie_db \<Rightarrow> ptrie \<Rightarrow> bool" where
  "rep T t = (inv (t_db T) \<and> pt_wf t \<and> m_root T = sha3 (pnode t) \<and> has (t_db T) (insert (pnode t) (bigs (psubs t))))"

lemma keyed_ns: "length k < 2 ^ 30 \<Longrightarrow> keyed (key_slice k) (ns k)"
  using ns_wf(1) by (simp add: keyed_def ns_def)

lemma rlp_new_pnode: "pt_wf t \<Longrightarrow> rlp_new (pnode t) VeryStrict = Inr (pnode t)"
  using pnode_read(5) rlp_new_encode(1) [of "Data []" VeryStrict] by (cases "t = PNull") (auto simp: pnode_def size_ok_def)

lemma rep_at:
  assumes "rep T t" and "length k < 2 ^ 30"
  shows "trie_at D k T = Inr (t_at t (ns k))"
  using assms atAux_correct [of t "t_db T" "key_slice k" "ns k" "key_fuel k"] keyed_ns [OF assms(2)] ns_wf [OF assms(2)] rlp_new_pnode
  by (simp add: trie_at_def node_rlp_def rep_def key_fuel_def)

lemma rep_stored:
  assumes r: "rep T t" and k: "keeps N (t_db T) d" and N: "insert (pnode t) (bigs (psubs t)) \<subseteq> N"
  shows "rep (T\<lparr>t_db := d\<rparr>) t"
proof -
  have "has (t_db T) (insert (pnode t) (bigs (psubs t)))" "inv d" using r k by (simp_all add: rep_def keeps_def)
  then show ?thesis using keeps_has [OF k _ N] r by (simp add: rep_def)
qed

lemma store_root:
  assumes w: "writes N d t (Inr (b, d1))" and N: "inj_on sha3 N" "insert (pnode t) (bigs (psubs t)) \<subseteq> N" and t: "pt_wf t"
  shows "\<exists>d3. forceInsertNode D b (if c then nd_kill D h d1 else d1) = (sha3 (pnode t), d3)
    \<and> rep \<lparr>m_root = sha3 (pnode t), t_db = d3\<rparr> t \<and> keeps N d d3"
proof -
  define d2 where "d2 = (if c then nd_kill D h d1 else d1)"
  define d3 where "d3 = nd_insert D (sha3 (pnode t)) (pnode t) d2"
  have b: "b = pnode t" "keeps N d d1" "has d1 (bigs (psubs t))" using w by (auto simp: writes_def)
  then have "inv d1" by (simp add: keeps_def)
  then have k: "inv d2" "keeps N d1 d2" by (auto intro: keeps_look simp: d2_def inv_kill look_kill)
  have n: "keeps N d2 d3" "has d3 {pnode t}" unfolding d3_def using insert_keeps [OF k(1) _ N(1) pnode_ne [OF t]] N(2) by auto
  have k3: "keeps N d1 d3" by (rule keeps_trans [OF k(2) n(1)])
  have "has d3 (bigs (psubs t))" by (rule keeps_has [OF k3 b(3)]) (use N(2) in blast)
  moreover have "inv d3" using k3 by (simp add: keeps_def)
  ultimately have "rep \<lparr>m_root = sha3 (pnode t), t_db = d3\<rparr> t" using n(2) t by (simp add: rep_def)
  then show ?thesis using keeps_trans [OF b(2) k3] by (simp add: forceInsertNode_def b(1) d2_def [symmetric] d3_def)
qed

lemma rep_insert:
  assumes r: "rep T t" and k: "length k < 2 ^ 30" "length v < 2 ^ 62" and N: "inj_on sha3 N" "step_nodes (Put k v) t \<subseteq> N"
  shows "\<exists>T'. trie_insert D k v T = Inr T' \<and> rep T' (t_insert t (ns k) v) \<and> keeps N (t_db T) (t_db T')"
proof -
  let ?t = "t_insert t (ns k) v"
  have t: "pt_wf t" "inv (t_db T)" "nd_lookup D (t_db T) (m_root T) = pnode t" "has (t_db T) (bigs (psubs t))"
    using r by (auto simp: rep_def)
  have wf: "pt_wf ?t" using t_insert_wf [OF t(1) ns_wf(2) [OF k(1)] k(2)] by simp
  have s: "bigs (touched t (ns k) v) \<subseteq> N" "insert (pnode ?t) (bigs (psubs ?t)) \<subseteq> N"
    using N(2) by (auto simp: step_nodes_def t_step_def touched_def)
  have "writes N (t_db T) ?t (mergeAt D v (key_fuel k) (pnode t) (m_root T) (key_slice k) False (t_db T))"
    using mergeAt_correct [OF N(1) k(2) t(1,2,4) keyed_ns [OF k(1)] ns_wf(4) [OF k(1)] _ s(1)] ns_wf(3) [OF k(1)] by (simp add: key_fuel_def)
  then obtain b d1 where b: "mergeAt D v (key_fuel k) (pnode t) (m_root T) (key_slice k) False (t_db T) = Inr (b, d1)"
      "writes N (t_db T) ?t (Inr (b, d1))" by (auto simp: writes_def)
  show ?thesis
    using store_root [OF b(2) N(1) s(2) wf, of "length (pnode t) < 32" "m_root T"] b(1) t rlp_new_pnode [OF t(1)] pnode_ne [OF t(1)]
    by (auto simp: trie_insert_def Let_def)
qed

lemma rep_remove:
  assumes r: "rep T t" and k: "length k < 2 ^ 30" "tidy (2 * length k) t" and N: "inj_on sha3 N" "step_nodes (Del k) t \<subseteq> N"
  shows "\<exists>T'. trie_remove D k T = Inr T' \<and> rep T' (t_step (Del k) t) \<and> keeps N (t_db T) (t_db T')"
proof -
  have t: "pt_wf t" "inv (t_db T)" "nd_lookup D (t_db T) (m_root T) = pnode t" "has (t_db T) (bigs (psubs t))"
    using r by (auto simp: rep_def)
  have "deletes N (t_db T) (t_remove t (ns k)) (deleteAt D (key_fuel k) (pnode t) (key_slice k) (t_db T))"
    using deleteAt_correct [OF N(1) k(2) t(2,4) keyed_ns [OF k(1)] ns_wf(3) [OF k(1)]] k N(2)
    by (simp add: key_fuel_def step_nodes_def)
  then have del: "case t_remove t (ns k) of None \<Rightarrow> deleteAt D (key_fuel k) (pnode t) (key_slice k) (t_db T) = Inr ([], t_db T)
      | Some t' \<Rightarrow> writes N (t_db T) t' (deleteAt D (key_fuel k) (pnode t) (key_slice k) (t_db T))"
    by (simp add: deletes_def)
  show ?thesis
  proof (cases "t_remove t (ns k)")
    case None
    then show ?thesis using del r t rlp_new_pnode [OF t(1)] by (simp add: trie_remove_def t_step_def)
  next
    case (Some t')
    then have wf: "pt_wf t'" using t_remove_keeps [of t "2 * length k" "ns k" t'] k by (simp add: tidy_def)
    have t': "t_step (Del k) t = t'" by (simp add: t_step_def Some)
    have "bigs (psubs t') \<subseteq> N"
      using bigs_mono [OF psubs_removed [OF t(1) Some]] N(2) by (auto simp: step_nodes_def)
    then have s: "insert (pnode t') (bigs (psubs t')) \<subseteq> N" using N(2) by (simp add: step_nodes_def t')
    obtain b d1 where b: "deleteAt D (key_fuel k) (pnode t) (key_slice k) (t_db T) = Inr (b, d1)" "writes N (t_db T) t' (Inr (b, d1))"
      using del Some by (auto simp: writes_def)
    then have "b \<noteq> []" using pnode_ne [OF wf] by (simp add: writes_def)
    then show ?thesis
      using store_root [OF b(2) N(1) s wf, of "length (pnode t) < 32" "m_root T"] b(1) t rlp_new_pnode [OF t(1)] t'
      by (auto simp: trie_remove_def Let_def)
  qed
qed

lemma rep_init:
  assumes "inv d"
  shows "rep (trie_init D d) PNull"
  using assms by (simp add: trie_init_def forceInsertNode_def rep_def RLPNull_def inv_insert look_insert)

lemma run_nodes_first: "insert (pnode t) (bigs (psubs t)) \<subseteq> run_nodes xs t"
  by (cases xs) (auto simp: step_nodes_def touched_def split: trie_op.splits)

lemma rep_run:
  assumes N: "inj_on sha3 N"
  shows "rep T t \<Longrightarrow> run_ok xs t \<Longrightarrow> run_nodes xs t \<subseteq> N
    \<Longrightarrow> \<exists>T'. trie_run D xs T = Inr T' \<and> rep T' (t_run xs t) \<and> keeps N (t_db T) (t_db T')"
proof (induction xs arbitrary: T t)
  case Nil
  then show ?case by (simp add: rep_def)
next
  case (Cons x xs)
  have n: "step_nodes x t \<subseteq> N" and ok: "step_ok x t" using Cons.prems by simp_all
  have "\<exists>T'. trie_step D x T = Inr T' \<and> rep T' (t_step x t) \<and> keeps N (t_db T) (t_db T')"
  proof (cases x)
    case (Put k v)
    then show ?thesis using rep_insert [OF Cons.prems(1) _ _ N] n ok by (simp add: trie_step_def t_step_def step_ok_def)
  next
    case (Del k)
    then show ?thesis using rep_remove [OF Cons.prems(1) _ _ N] n ok by (simp add: trie_step_def step_ok_def)
  qed
  then obtain T1 where T1: "trie_step D x T = Inr T1" "rep T1 (t_step x t)" "keeps N (t_db T) (t_db T1)" by blast
  from Cons.IH [OF T1(2)] Cons.prems(2,3) show ?case using T1(1) keeps_trans [OF T1(3)] by fastforce
qed

text \<open>A run from the empty trie, unless two of its nodes have one hash.\<close>

lemma run_from_empty:
  assumes "inv d" and "run_ok xs PNull" and "\<not> collides (run_nodes xs PNull)"
  obtains T where "trie_run D xs (trie_init D d) = Inr T" and "rep T (t_run xs PNull)"
  using rep_run [OF _ rep_init [OF assms(1)] assms(2) order_refl] assms(3) by (auto simp: not_collides)

lemma run_contents:
  assumes "inv d" and "run_ok xs PNull" and "length k < 2 ^ 30"
  shows "res_bind (trie_run D xs (trie_init D d)) (trie_at D k) = Inr (contents xs (\<lambda>_. []) k) \<or> collides (run_nodes xs PNull)"
proof (rule disjCI)
  assume "\<not> collides (run_nodes xs PNull)"
  then obtain T where T: "trie_run D xs (trie_init D d) = Inr T" "rep T (t_run xs PNull)" using run_from_empty [OF assms(1,2)] by blast
  have "t_at (t_run xs PNull) (ns k) = contents xs (\<lambda>_. []) k" using t_run_at [OF _ assms(2,3)] by simp
  then show "res_bind (trie_run D xs (trie_init D d)) (trie_at D k) = Inr (contents xs (\<lambda>_. []) k)"
    using T(1) rep_at [OF T(2) assms(3)] by simp
qed

lemma rep_root: "rep T t \<Longrightarrow> trie_root D T = Inr (sha3 (pnode t))"
  using pnode_ne by (simp add: trie_root_def rep_def)

lemma run_root:
  assumes "inv d" and "run_ok xs PNull"
  shows "res_bind (trie_run D xs (trie_init D d)) (trie_root D) = Inr (sha3 (pnode (t_run xs PNull))) \<or> collides (run_nodes xs PNull)"
  using run_from_empty [OF assms] rep_root by (metis res_bind_simps(2))

lemma t_run_append: "t_run (xs @ ys) t = t_run ys (t_run xs t)"
  by (induction xs arbitrary: t) simp_all

lemma run_nodes_append: "run_nodes (xs @ ys) t \<supseteq> run_nodes xs t \<union> run_nodes ys (t_run xs t)"
proof (induction xs arbitrary: t)
  case Nil
  then show ?case using run_nodes_first by simp
qed auto

lemma run_ok_append: "run_ok (xs @ ys) t \<longleftrightarrow> run_ok xs t \<and> run_ok ys (t_run xs t)"
  by (induction xs arbitrary: t) simp_all

lemma run_history:
  assumes "inv d" and "run_ok (xs @ ys) PNull" and "length k < 2 ^ 30"
  shows "res_bind (trie_run D xs (trie_init D d)) (\<lambda>T1.
      res_bind (trie_run D ys T1) (\<lambda>T2. res_bind (trie_open D (t_db T2) (m_root T1) False) (trie_at D k))) = Inr (contents xs (\<lambda>_. []) k)
    \<or> collides (run_nodes (xs @ ys) PNull)"
proof (rule disjCI)
  let ?N = "run_nodes (xs @ ys) PNull" and ?t = "t_run xs PNull"
  assume "\<not> collides ?N"
  then have N: "inj_on sha3 ?N" by (simp add: not_collides)
  have ok: "run_ok xs PNull" "run_ok ys ?t" and sub: "run_nodes xs PNull \<subseteq> ?N" "run_nodes ys ?t \<subseteq> ?N"
    using assms(2) run_nodes_append [of xs PNull ys] by (auto simp: run_ok_append)
  obtain T1 where T1: "trie_run D xs (trie_init D d) = Inr T1" "rep T1 ?t" using rep_run [OF N rep_init [OF assms(1)] ok(1) sub(1)] by blast
  obtain T2 where T2: "trie_run D ys T1 = Inr T2" "keeps ?N (t_db T1) (t_db T2)" using rep_run [OF N T1(2) ok(2) sub(2)] by blast
  have r: "rep (T1\<lparr>t_db := t_db T2\<rparr>) ?t" using rep_stored [OF T1(2) T2(2)] run_nodes_first [of ?t ys] sub(2) by blast
  then have "nd_lookup D (t_db T2) (m_root T1) \<noteq> []" using pnode_ne by (auto simp: rep_def)
  moreover have "\<lparr>m_root = m_root T1, t_db = t_db T2\<rparr> = T1\<lparr>t_db := t_db T2\<rparr>" by simp
  ultimately have "trie_open D (t_db T2) (m_root T1) False = Inr (T1\<lparr>t_db := t_db T2\<rparr>)" by (simp add: trie_open_def)
  then show "res_bind (trie_run D xs (trie_init D d)) (\<lambda>T1.
      res_bind (trie_run D ys T1) (\<lambda>T2. res_bind (trie_open D (t_db T2) (m_root T1) False) (trie_at D k))) = Inr (contents xs (\<lambda>_. []) k)"
    using T1(1) T2(1) rep_at [OF r assms(3)] t_run_at [OF _ ok(1) assms(3)] by simp
qed

end

section \<open>The two databases\<close>

interpretation mem_trie: trie_store mdb_ops "\<lambda>m. \<not> m_enforceRefs m"
  by unfold_locales
    (auto simp: mdb_ops_def mdb_lookup_def mdb_insert_def mdb_kill_def fun_eq_iff split: option.splits prod.splits)

interpretation overlay_trie: trie_store "odb_ops L" "\<lambda>ov. \<not> m_enforceRefs (o_mem ov)" for L
  by unfold_locales
    (auto simp: odb_ops_def odb_lookup_def odb_insert_def odb_kill_def mdb_lookup_def mdb_insert_def mdb_kill_def Let_def fun_eq_iff
      split: option.splits prod.splits)

section \<open>Properties\<close>

text \<open>C22: insertion and lookup.  Any sequence of insertions into an empty trie over a
  \<^verbatim>\<open>MemoryDB\<close>, with keys of any lengths and where one key may be a prefix of another, runs
  without an exception, and \<^verbatim>\<open>at\<close> then returns for every key the last value inserted for it
  and the empty string if there is none; the only other case is that two different nodes of the run
  have the same hash.\<close>

theorem trie_insertions:
  assumes "list_all (\<lambda>x. case x of Put k v \<Rightarrow> length k < 2 ^ 30 \<and> length v < 2 ^ 62 | Del _ \<Rightarrow> False) xs"
    and "length k < 2 ^ 30" and "\<not> m_enforceRefs m"
  shows "res_bind (trie_run mdb_ops xs (trie_init mdb_ops m)) (trie_at mdb_ops k) = Inr (contents xs (\<lambda>_. []) k)
    \<or> collides (run_nodes xs PNull)"
  by (rule mem_trie.run_contents [OF assms(3) puts_run_ok [OF assms(1)] assms(2)])

theorem trie_insertions_witness:
  "res_bind (trie_run mdb_ops [Put [0x12] [1], Put [0x12, 0x34] [2], Put [0x13] [3], Put [0x12] [4]] (trie_init mdb_ops mdb_new))
      (trie_at mdb_ops [0x12]) = Inr [4]
    \<or> collides (run_nodes [Put [0x12] [1], Put [0x12, 0x34] [2], Put [0x13] [3], Put [0x12] [4]] PNull)"
  using trie_insertions [of "[Put [0x12] [1], Put [0x12, 0x34] [2], Put [0x13] [3], Put [0x12] [4]]" "[0x12]" mdb_new]
  by (simp add: mdb_new_def)

text \<open>C19: insertion and removal in any order, for keys of one length as in the tries of the world
  state, over the write-back \<^verbatim>\<open>OverlayDB\<close> on any database.  Every operation returns, and
  \<^verbatim>\<open>at\<close> then returns for every key what a map updated by the same operations holds, unless two
  different nodes of the run have the same hash.\<close>

theorem trie_fixed_keys:
  assumes "list_all (fixed m) xs" and "m < 2 ^ 30" and "length k < 2 ^ 30" and "\<not> m_enforceRefs (o_mem ov)"
  shows "res_bind (trie_run (odb_ops L) xs (trie_init (odb_ops L) ov)) (trie_at (odb_ops L) k) = Inr (contents xs (\<lambda>_. []) k)
    \<or> collides (run_nodes xs PNull)"
  using overlay_trie.run_contents [OF assms(4) _ assms(3)] fixed_run [OF _ assms(1,2), of PNull] by simp

definition no_ldb :: "unit ldb" where
  "no_ldb = \<lparr>ldb_Get = (\<lambda>_ _. []), ldb_Write = (\<lambda>_ d. (True, d)), ldb_Delete = (\<lambda>_ d. (True, d))\<rparr>"

definition empty_odb :: "unit overlay_db" where
  "empty_odb = \<lparr>o_mem = mdb_new, m_db = Some ()\<rparr>"

theorem trie_fixed_keys_witness:
  "res_bind (trie_run (odb_ops no_ldb) [Put [1] [5], Put [2] [6], Del [1], Del [3]] (trie_init (odb_ops no_ldb) empty_odb))
      (trie_at (odb_ops no_ldb) [1]) = Inr []
    \<or> collides (run_nodes [Put [1] [5], Put [2] [6], Del [1], Del [3]] PNull)"
  using trie_fixed_keys [of 1 "[Put [1] [5], Put [2] [6], Del [1], Del [3]]" "[1]" empty_odb no_ldb]
  by (simp add: fixed_def empty_odb_def mdb_new_def)

text \<open>C20: the root hash is a function of the contents.  Two runs on keys of one length that leave the
  same value for every key, in whatever order they inserted, overwrote and removed, end with the same
  root, unless two different nodes of one of the runs have the same hash.  Keys are shorter than
  \<open>2 ^ 30\<close> bytes, inserted values are not empty and shorter than \<open>2 ^ 62\<close> bytes, and references are not enforced.\<close>

theorem trie_root_canonical:
  assumes "list_all (fixed n) xs" and "list_all (fixed n) ys" and "n < 2 ^ 30" and "\<not> m_enforceRefs m" and "\<not> m_enforceRefs m'"
    and "\<forall>k. length k = n \<longrightarrow> contents xs (\<lambda>_. []) k = contents ys (\<lambda>_. []) k"
  shows "(\<exists>h. res_bind (trie_run mdb_ops xs (trie_init mdb_ops m)) (trie_root mdb_ops) = Inr h
      \<and> res_bind (trie_run mdb_ops ys (trie_init mdb_ops m')) (trie_root mdb_ops) = Inr h)
    \<or> collides (run_nodes xs PNull) \<or> collides (run_nodes ys PNull)"
proof -
  have x: "run_ok xs PNull" "tidy (2 * n) (t_run xs PNull)" and y: "run_ok ys PNull" "tidy (2 * n) (t_run ys PNull)"
    using fixed_run [OF tidy_PNull] assms(1-3) by blast+
  have "t_at (t_run xs PNull) k = t_at (t_run ys PNull) k" if "key_of_len (2 * n) k" for k
  proof -
    note p = ns_pack [OF that]
    have "t_at (t_run zs PNull) k = contents zs (\<lambda>_. []) (pack k)" if "run_ok zs PNull" for zs
      using t_run_at [OF _ that, of "pack k"] p assms(3) by simp
    then show ?thesis using x(1) y(1) assms(6) p(2) by simp
  qed
  then have "t_run xs PNull = t_run ys PNull" using canon_unique [OF x(2) y(2)] by (simp add: same_def)
  then show ?thesis using mem_trie.run_root [OF assms(4) x(1)] mem_trie.run_root [OF assms(5) y(1)] by auto
qed

theorem trie_root_canonical_witness:
  "(\<exists>h. res_bind (trie_run mdb_ops [Put [1] [5], Put [2] [6]] (trie_init mdb_ops mdb_new)) (trie_root mdb_ops) = Inr h
      \<and> res_bind (trie_run mdb_ops [Put [2] [7], Put [3] [8], Put [1] [5], Put [2] [6], Del [3]] (trie_init mdb_ops mdb_new)) (trie_root mdb_ops) = Inr h)
    \<or> collides (run_nodes [Put [1] [5], Put [2] [6]] PNull)
    \<or> collides (run_nodes [Put [2] [7], Put [3] [8], Put [1] [5], Put [2] [6], Del [3]] PNull)"
  using trie_root_canonical [of 1 "[Put [1] [5], Put [2] [6]]" "[Put [2] [7], Put [3] [8], Put [1] [5], Put [2] [6], Del [3]]" mdb_new mdb_new]
  by (simp add: fixed_def mdb_new_def)

text \<open>C23: old roots stay readable.  After a run \<open>xs\<close> and a further run \<open>ys\<close> on keys of one length,
  opening the same database at the root that \<open>xs\<close> left succeeds and reads what \<open>xs\<close> stored, whatever
  \<open>ys\<close> overwrote or removed: \<^verbatim>\<open>kill\<close> only counts, as long as the references are not enforced and
  nothing is purged.\<close>

theorem trie_old_roots:
  assumes "list_all (fixed m) (xs @ ys)" and "m < 2 ^ 30" and "length k < 2 ^ 30" and "\<not> m_enforceRefs (o_mem ov)"
  shows "res_bind (trie_run (odb_ops L) xs (trie_init (odb_ops L) ov)) (\<lambda>T1. res_bind (trie_run (odb_ops L) ys T1) (\<lambda>T2.
      res_bind (trie_open (odb_ops L) (t_db T2) (m_root T1) False) (trie_at (odb_ops L) k))) = Inr (contents xs (\<lambda>_. []) k)
    \<or> collides (run_nodes (xs @ ys) PNull)"
  using overlay_trie.run_history [OF assms(4) _ assms(3)] fixed_run [OF _ assms(1,2), of PNull] by simp

theorem trie_old_roots_witness:
  "res_bind (trie_run (odb_ops no_ldb) [Put [1] [5]] (trie_init (odb_ops no_ldb) empty_odb)) (\<lambda>T1.
      res_bind (trie_run (odb_ops no_ldb) [Put [2] [6], Del [1]] T1) (\<lambda>T2.
      res_bind (trie_open (odb_ops no_ldb) (t_db T2) (m_root T1) False) (trie_at (odb_ops no_ldb) [1]))) = Inr [5]
    \<or> collides (run_nodes ([Put [1] [5]] @ [Put [2] [6], Del [1]]) PNull)"
  using trie_old_roots [of 1 "[Put [1] [5]]" "[Put [2] [6], Del [1]]" "[1]" empty_odb no_ldb]
  by (simp add: fixed_def empty_odb_def mdb_new_def)

text \<open>C24: removing an absent key can raise.  In a trie that holds exactly one key \<open>j\<close>, stored by one
  insertion in an empty trie with a value longer than 32 bytes, removing any proper extension of \<open>j\<close>
  throws \<^verbatim>\<open>BadCast\<close> (keys are shorter than \<open>2 ^ 30\<close> bytes, the value than \<open>2 ^ 62\<close>,
  references are not enforced, and the nodes of the insertion have different hashes): \<^verbatim>\<open>deleteAt\<close>
  moves down from a two-item node whose key is a prefix of the key sought without asking whether it is a leaf,
  and takes the value of the leaf for the hash of a child, where \<^verbatim>\<open>at\<close> and
  \<^verbatim>\<open>insert\<close> test for the leaf.  The statement is about this trie only: where \<open>j\<close> is the
  value of a branch nothing is raised.\<close>

theorem remove_extended_key_raises:
  assumes "strict_prefix j k" and "length k < 2 ^ 30" and "32 < length v" and "length v < 2 ^ 62"
    and "\<not> m_enforceRefs m"
  shows "trie_run mdb_ops [Put j v, Del k] (trie_init mdb_ops m) = Inl (TrieRLP BadCast)
    \<or> collides (run_nodes [Put j v] PNull)"
proof (rule disjCI)
  assume nc: "\<not> collides (run_nodes [Put j v] PNull)"
  let ?u = "PLeaf (ns j) v"
  have l: "length j < length k" "prefix j k" using assms(1) prefix_length_less by (auto simp: strict_prefix_def)
  have j: "length j < 2 ^ 30" using l(1) assms(2) by simp
  have ok: "run_ok [Put j v] PNull" using j assms(4) by (simp add: step_ok_def)
  obtain T where T: "trie_run mdb_ops [Put j v] (trie_init mdb_ops m) = Inr T" "mem_trie.rep T ?u"
    using mem_trie.run_from_empty [OF assms(5) ok nc] by (auto simp: t_step_def)
  then have ins: "trie_insert mdb_ops j v (trie_init mdb_ops m) = Inr T" by (auto simp: trie_step_def res_bind_Inr_iff)
  have u: "pt_wf ?u" "two_item ?u" using ns_wf(2) [OF j] assms(4) by (simp_all add: two_item_def)
  have look: "nd_lookup mdb_ops (t_db T) (m_root T) = pnode ?u" using T(2) by (simp add: mem_trie.rep_def)
  have key: "mem_trie.keyed (key_slice k) (ns k)" by (rule mem_trie.keyed_ns [OF assms(2)])
  have pre: "prefix (ns j) (ns k)" using l(2) by (auto simp: prefix_def ns_append)
  have ne: "ns k \<noteq> ns j" using l(1) by (auto simp: ns_inj)
  have sz: "size_ok (length v)" using assms(4) by (simp add: size_ok_def)
  have r: "\<not> isEmpty (encode (Data v))" "\<not> isList (encode (Data v))" "rlp_h256 (encode (Data v)) = Inl (TrieRLP BadCast)"
    using isEmpty_Data [OF sz] assms(3) encode_Data_read [OF sz, of "[]"] payload_encode [of "Data v" "[]"] isList_isData [of "encode (Data v)"] sz
    by (auto simp: rlp_h256_def toHash_def Let_def rlp_flag_defs has_flag_def simp del: encode.simps)
  have "deleteAt mdb_ops (key_fuel k) (pnode ?u) (key_slice k) (t_db T) = Inl (TrieRLP BadCast)"
    using two_read [OF u] pnode_read [OF u(1)] mem_trie.keyedD(5,6) [OF key ns_wf(2) [OF j]] pre ne r
    by (simp add: key_fuel_def numeral_nat deleteAtAux_def child_rlp_def del: encode.simps)
  then show "trie_run mdb_ops [Put j v, Del k] (trie_init mdb_ops m) = Inl (TrieRLP BadCast)"
    using ins look mem_trie.rlp_new_pnode [OF u(1)] by (simp add: trie_step_def trie_remove_def)
qed

theorem remove_extended_key_raises_witness:
  "trie_run mdb_ops [Put [0x12] (replicate 33 1), Del [0x12, 0x34]] (trie_init mdb_ops mdb_new) = Inl (TrieRLP BadCast)
    \<or> collides (run_nodes [Put [0x12] (replicate 33 1)] PNull)"
  using remove_extended_key_raises [of "[0x12]" "[0x12, 0x34]" "replicate 33 1" mdb_new] by (simp add: mdb_new_def)

end
