(* ===== verification/Trie_Unique.thy ===== *)
theory Trie_Unique
  imports Trie_Canon
begin

text \<open>
  Uniqueness of the tree for keys of any lengths, as long as nothing is removed: insertions of values
  that are not empty keep the shape canonical (\<open>full\<close>), and a canonical tree is determined by its
  contents.
\<close>

section \<open>Canonical trees\<close>

fun full :: "ptrie \<Rightarrow> bool" where
  "full PNull = True"
| "full (PLeaf k v) = (v \<noteq> [])"
| "full (PExt k t) = (is_branch t \<and> full t)"
| "full (PBranch ts v) = (2 \<le> length (used ts) + (if v = [] then 0 else 1) \<and> (\<forall>t\<in>set ts. full t))"

lemma used_one: "i < length ts \<Longrightarrow> ts ! i \<noteq> PNull \<Longrightarrow> 1 \<le> length (used ts)"
  using used_iff [of i ts] by (cases "used ts") auto

lemma word_nib: "i < 16 \<Longrightarrow> unat (word_of_nat i :: byte) = i"
  by (intro unat_word_of_nat) simp

section \<open>Insertion\<close>

lemma fork_full:
  assumes u: "pt_wf u" "two_item u" "full u" and k: "nibs k" and v: "v \<noteq> []"
    and off: "case u of PLeaf l _ \<Rightarrow> k \<noteq> l | PExt l _ \<Rightarrow> \<not> prefix l k | _ \<Rightarrow> True"
  shows "full (t_fork u k v)"
proof -
  define s where "s = shared k (t_key u)"
  have kk: "k = take s k @ drop s k" "t_key u = take s k @ drop s (t_key u)"
    unfolding s_def using take_shared [of k "t_key u"] by (metis append_take_drop_id)+
  have nb: "nibs (drop s k)" "nibs (drop s (t_key u))" using k u by (auto simp: two_item_def split: ptrie.splits)
  have "\<exists>ts w. t_put (t_branch (t_drop s u)) (drop s k) v = PBranch ts w \<and> full (PBranch ts w)"
  proof (cases "drop s (t_key u)")
    case Nil
    then obtain w where w: "t_drop s u = PLeaf [] w" "w \<noteq> []"
    proof (cases u)
      case (PExt l t)
      then have "prefix l k" using kk Nil by (metis append_Nil2 prefixI t_key.simps(2))
      then show ?thesis using off PExt by simp
    qed (use u(2,3) Nil that in \<open>auto simp: two_item_def\<close>)
    have "drop s k \<noteq> []"
    proof
      assume "drop s k = []"
      then have "k = t_key u" using kk Nil by simp
      then show False using off u(2) by (auto simp: two_item_def split: ptrie.splits)
    qed
    then obtain n a where d: "drop s k = n # a" by (cases "drop s k") auto
    then have n: "unat n < 16" using nb(1) by simp
    have "1 \<le> length (used (no_kids[unat n := PLeaf a v]))" using n by (intro used_one [of "unat n"]) simp_all
    then show ?thesis using d w v by (auto dest!: set_update_subset_insert [THEN subsetD] simp: no_kids_def)
  next
    case (Cons n' a')
    define x where "x = (case u of PLeaf _ w \<Rightarrow> PLeaf a' w | PExt _ t \<Rightarrow> (if a' = [] then t else PExt a' t) | _ \<Rightarrow> PNull)"
    have b: "t_branch (t_drop s u) = PBranch (no_kids[unat n' := x]) []" "full x" "x \<noteq> PNull"
      using u Cons by (cases u; auto simp: x_def two_item_def)+
    have n': "unat n' < 16" using nb(2) Cons by simp
    show ?thesis
    proof (cases "drop s k")
      case Nil
      have "1 \<le> length (used (no_kids[unat n' := x]))" using n' b(3) by (intro used_one [of "unat n'"]) simp_all
      then show ?thesis using Nil b v by (auto dest!: set_update_subset_insert [THEN subsetD] simp: no_kids_def)
    next
      case 2: (Cons n a)
      have ne: "n \<noteq> n'" using shared_split 2 Cons by (simp add: s_def)
      have n: "unat n < 16" using nb(1) 2 by simp
      have "2 \<le> length (used (no_kids[unat n' := x, unat n := PLeaf a v]))" using two_kids(1) [OF ne n n' b(3)] by simp
      moreover have "full t" if "t \<in> set (no_kids[unat n' := x, unat n := PLeaf a v])" for t
        using two_kids(2) [OF ne n n' b(3) _ that] b(2) v by auto
      ultimately show ?thesis using 2 b(1) by simp
    qed
  qed
  then show ?thesis by (auto simp: t_fork_def s_def [symmetric] Let_def t_wrap_def)
qed

lemma used_update_any:
  assumes "x \<noteq> PNull" and "i < length ts"
  shows "length (used ts) \<le> length (used (ts[i := x]))"
proof -
  have "set (used ts) \<subseteq> set (used (ts[i := x]))" using assms by (auto simp: used_iff nth_list_update)
  then show ?thesis using card_mono [of "set (used (ts[i := x]))"] distinct_card [OF distinct_used] by (metis List.finite_set)
qed

lemma t_insert_full:
  "pt_wf t \<Longrightarrow> nibs k \<Longrightarrow> length v < 2 ^ 62 \<Longrightarrow> v \<noteq> [] \<Longrightarrow> full t
    \<Longrightarrow> full (t_insert t k v) \<and> (is_branch t \<longrightarrow> is_branch (t_insert t k v))"
proof (induction t k v rule: t_insert.induct)
  case (2 l w k v)
  then show ?case using fork_full [of "PLeaf l w" k v] by (auto simp: two_item_def)
next
  case (3 l t k v)
  then show ?case using fork_full [of "PExt l t" k v] by (auto simp: two_item_def)
next
  case (5 ts w n k v)
  have n: "unat n < length ts" "pt_wf (ts ! unat n)" "full (ts ! unat n)" "nibs k" using "5.prems" by auto
  have IH: "full (t_insert (ts ! unat n) k v)" using "5.IH" [OF n(1,2,4)] "5.prems" n(3) by simp
  have ne: "t_insert (ts ! unat n) k v \<noteq> PNull" using t_insert_wf [OF n(2,4)] "5.prems"(3) by simp
  show ?case
    using n(1) IH "5.prems" used_update_any [OF ne n(1)] by (auto dest!: set_update_subset_insert [THEN subsetD])
qed (auto split: if_splits)

section \<open>Uniqueness\<close>

text \<open>Two keys whose common prefixes are prefixes of \<open>c\<close>.\<close>

definition apart :: "bytes \<Rightarrow> bytes \<Rightarrow> bytes \<Rightarrow> bool" where
  "apart c k l = (k \<noteq> l \<and> (\<forall>p. prefix p k \<longrightarrow> prefix p l \<longrightarrow> prefix p c))"

definition present :: "ptrie \<Rightarrow> bytes \<Rightarrow> bool" where
  "present t k = (nkey k \<and> t_at t k \<noteq> [])"

lemma full_key: "pt_wf t \<Longrightarrow> full t \<Longrightarrow> t \<noteq> PNull \<Longrightarrow> \<exists>k. present t k"
proof (induction t)
  case (PLeaf l v)
  then show ?case by (intro exI [of _ l]) (auto simp: present_def nibs_nkey)
next
  case (PExt l t)
  then obtain k where "present t k" by auto
  then show ?case using PExt.prems by (intro exI [of _ "l @ k"]) (auto simp: present_def nibs_nkey)
next
  case (PBranch ts w)
  show ?case
  proof (cases "w = []")
    case False
    then show ?thesis by (intro exI [of _ "[]"]) (simp add: present_def)
  next
    case True
    then have "2 \<le> length (used ts)" using PBranch.prems(2) by simp
    then obtain i where i: "i < length ts" "ts ! i \<noteq> PNull" by (rule used_two)
    then have t: "i < 16" "ts ! i \<in> set ts" using PBranch.prems by auto
    then obtain k where "present (ts ! i) k" using PBranch.IH [OF t(2)] PBranch.prems i(2) by auto
    then show ?thesis
      using word_nib [OF t(1)] i t by (intro exI [of _ "word_of_nat i # k"]) (auto simp: present_def)
  qed
qed simp

lemma branch_child_key:
  assumes t: "pt_wf (PBranch ts w)" "full (PBranch ts w)" and i: "i < 16" "ts ! i \<noteq> PNull"
  obtains n k where "unat n = i" "present (PBranch ts w) (n # k)"
proof -
  have "ts ! i \<in> set ts" using t(1) i(1) by simp
  then obtain k where "present (ts ! i) k" using full_key [of "ts ! i"] t i(2) by auto
  then show ?thesis using that [of "word_of_nat i" k] word_nib [OF i(1)] t i by (auto simp: present_def)
qed

lemma branch_apart:
  assumes t: "pt_wf (PBranch ts w)" "full (PBranch ts w)"
  obtains k l where "present (PBranch ts w) k" "present (PBranch ts w) l" "apart [] k l"
proof (cases "w = []")
  case True
  then have "2 \<le> length (used ts)" using t(2) by simp
  then obtain i j where ij: "i \<noteq> j" "i < length ts" "j < length ts" "ts ! i \<noteq> PNull" "ts ! j \<noteq> PNull" by (rule used_two)
  then have l: "i < 16" "j < 16" using t(1) by auto
  obtain n k where 1: "unat n = i" "present (PBranch ts w) (n # k)" using branch_child_key [OF t l(1) ij(4)] by blast
  obtain n' k' where 2: "unat n' = j" "present (PBranch ts w) (n' # k')" using branch_child_key [OF t l(2) ij(5)] by blast
  have "n \<noteq> n'" using 1(1) 2(1) ij(1) by auto
  then have "apart [] (n # k) (n' # k')" by (auto simp: apart_def prefix_Cons)
  then show ?thesis using that 1(2) 2(2) by blast
next
  case False
  then have "1 \<le> length (used ts)" using t(2) by simp
  then obtain i where "i \<in> set (used ts)" by (cases "used ts") auto
  then have i: "i < 16" "ts ! i \<noteq> PNull" using used_iff [of i ts] t(1) by auto
  obtain n k where 1: "unat n = i" "present (PBranch ts w) (n # k)" using branch_child_key [OF t i] by blast
  moreover have "present (PBranch ts w) []" using False by (simp add: present_def)
  moreover have "apart [] (n # k) []" by (simp add: apart_def)
  ultimately show ?thesis using that by blast
qed

lemma ext_apart:
  assumes t: "pt_wf (PExt l t)" "full (PExt l t)"
  obtains a b where "present (PExt l t) a" "present (PExt l t) b" "apart l a b"
proof -
  obtain ts w where b: "t = PBranch ts w" using t(2) by (cases t) auto
  then obtain k k' where k: "present t k" "present t k'" "apart [] k k'" using branch_apart [of ts w] t by auto
  have "present (PExt l t) (l @ k)" "present (PExt l t) (l @ k')" using k(1,2) t(1) nibs_nkey by (auto simp: present_def)
  moreover have "apart l (l @ k) (l @ k')"
    unfolding apart_def
  proof (intro conjI allI impI)
    show "l @ k \<noteq> l @ k'" using k(3) by (simp add: apart_def)
    fix p assume p: "prefix p (l @ k)" "prefix p (l @ k')"
    show "prefix p l"
    proof (rule ccontr)
      assume n: "\<not> prefix p l"
      then obtain q where q: "p = l @ q" using p(1) by (metis prefix_same_cases prefixE prefixI)
      then have "prefix q k" "prefix q k'" using p by auto
      then have "q = []" using k(3) by (auto simp: apart_def)
      then show False using n q by simp
    qed
  qed
  ultimately show ?thesis using that by blast
qed

definition same_at :: "ptrie \<Rightarrow> ptrie \<Rightarrow> bool" where
  "same_at t t' = (\<forall>k. nkey k \<longrightarrow> t_at t k = t_at t' k)"

lemma same_at_sym: "same_at t t' \<Longrightarrow> same_at t' t"
  by (simp add: same_at_def)

lemma same_at_present: "same_at t t' \<Longrightarrow> present t k \<longleftrightarrow> present t' k"
  by (auto simp: same_at_def present_def)

lemma present_ext: "present (PExt l t) k \<Longrightarrow> prefix l k"
  by (auto simp: present_def split: if_splits)

lemma present_leaf: "present (PLeaf l v) k \<Longrightarrow> k = l"
  by (auto simp: present_def split: if_splits)

lemma apart_cases:
  assumes "pt_wf t" and "full t"
  obtains "t = PNull" | l v where "t = PLeaf l v" | a b c where "present t a" "present t b" "apart c a b"
      "(\<exists>ts w. t = PBranch ts w \<and> c = []) \<or> (\<exists>u. t = PExt c u \<and> c \<noteq> [])"
proof (cases t)
  case (PExt l u)
  then obtain a b where "present t a" "present t b" "apart l a b" using ext_apart [of l u] assms by blast
  then show ?thesis using that(3) PExt assms(1) by auto
next
  case (PBranch ts w)
  then obtain a b where "present t a" "present t b" "apart [] a b" using branch_apart [of ts w] assms by blast
  then show ?thesis using that(3) PBranch by blast
qed (use that in blast)+

lemma same_leaf:
  assumes t: "pt_wf t" "full t" "pt_wf (PLeaf l v)" "full (PLeaf l v)" and s: "same_at t (PLeaf l v)"
  shows "t = PLeaf l v"
  using t(1,2)
proof (cases rule: apart_cases)
  case 1
  have "nkey l" using t(3) nibs_nkey by simp
  then show ?thesis using s t(4) 1 by (auto simp: same_at_def)
next
  case (2 l' v')
  have "nkey l'" "v' \<noteq> []" using t(1,2) nibs_nkey 2 by auto
  then show ?thesis using s 2 by (auto simp: same_at_def split: if_splits)
next
  case (3 a b c)
  then show ?thesis using present_leaf same_at_present [OF s] by (metis apart_def)
qed

lemma full_unique: "pt_wf t \<Longrightarrow> full t \<Longrightarrow> pt_wf t' \<Longrightarrow> full t' \<Longrightarrow> same_at t t' \<Longrightarrow> t = t'"
proof (induction t arbitrary: t')
  case PNull
  show ?case
  proof (rule ccontr)
    assume "PNull \<noteq> t'"
    then obtain k where "present t' k" using full_key [of t'] PNull.prems by auto
    then show False using same_at_present [OF PNull.prems(5)] by (auto simp: present_def)
  qed
next
  case (PLeaf l v)
  then show ?case using same_leaf [OF PLeaf.prems(3,4,1,2) same_at_sym] by simp
next
  case (PExt l t)
  obtain a b where ab: "present (PExt l t) a" "present (PExt l t) b" "apart l a b" using ext_apart [OF PExt.prems(1,2)] by blast
  note p = same_at_present [OF PExt.prems(5)]
  from PExt.prems(3,4) show ?case
  proof (cases rule: apart_cases)
    case 1
    then show ?thesis using ab(1) p by (auto simp: present_def)
  next
    case (2 l' v')
    then show ?thesis using same_leaf PExt.prems by blast
  next
    case (3 a' b' c)
    have "prefix l c" using 3(1-3) p present_ext unfolding apart_def by blast
    moreover have "l \<noteq> []" using PExt.prems(1) by simp
    ultimately obtain u where u: "t' = PExt c u" using 3(4) by auto
    have "prefix c l" using ab p present_ext unfolding u apart_def by blast
    then have lc: "l = c" using \<open>prefix l c\<close> by (simp add: prefix_order.eq_iff)
    have "same_at t u"
      unfolding same_at_def
    proof (intro allI impI)
      fix k assume "nkey k"
      then have "nkey (l @ k)" using PExt.prems(1) nibs_nkey by simp
      then have "t_at (PExt l t) (l @ k) = t_at (PExt c u) (l @ k)" using PExt.prems(5) u unfolding same_at_def by blast
      then show "t_at t k = t_at u k" using lc by simp
    qed
    then show ?thesis using PExt.IH [of u] PExt.prems u lc by simp
  qed
next
  case (PBranch ts w)
  obtain a b where ab: "present (PBranch ts w) a" "present (PBranch ts w) b" "apart [] a b" using branch_apart [OF PBranch.prems(1,2)] by blast
  note p = same_at_present [OF PBranch.prems(5)]
  from PBranch.prems(3,4) show ?case
  proof (cases rule: apart_cases)
    case 1
    then show ?thesis using ab(1) p by (auto simp: present_def)
  next
    case (2 l' v')
    then show ?thesis using same_leaf PBranch.prems by blast
  next
    case (3 a' b' c)
    have "\<nexists>u. t' = PExt c u \<and> c \<noteq> []"
    proof
      assume "\<exists>u. t' = PExt c u \<and> c \<noteq> []"
      then have "prefix c a" "prefix c b" "c \<noteq> []" using ab p present_ext by blast+
      then show False using ab(3) by (auto simp: apart_def)
    qed
    then obtain ts' w' where t': "t' = PBranch ts' w'" using 3(4) by blast
    have l: "length ts = 16" "length ts' = 16" using PBranch.prems t' by auto
    have "ts ! i = ts' ! i" if i: "i < 16" for i
    proof (rule PBranch.IH)
      show "ts ! i \<in> set ts" using i l by simp
      show "pt_wf (ts ! i)" "full (ts ! i)" "pt_wf (ts' ! i)" "full (ts' ! i)" using PBranch.prems t' i l by auto
      show "same_at (ts ! i) (ts' ! i)"
        unfolding same_at_def
      proof (intro allI impI)
        fix k assume "nkey k"
        then have "nkey (word_of_nat i # k)" using word_nib [OF i] i by simp
        then have "t_at (PBranch ts w) (word_of_nat i # k) = t_at (PBranch ts' w') (word_of_nat i # k)"
          using PBranch.prems(5) t' unfolding same_at_def by blast
        then show "t_at (ts ! i) k = t_at (ts' ! i) k" using word_nib [OF i] i l by simp
      qed
    qed
    then have "ts = ts'" using l by (intro nth_equalityI) auto
    moreover have "w = w'" using PBranch.prems(5) t' unfolding same_at_def by (metis nkey_simps(1) t_at.simps(4))
    ultimately show ?thesis using t' by simp
  qed
qed

end
