(* ===== verification/Trie_Hash.thy ===== *)
theory Trie_Hash
  imports Trie_Unique Trie_Refine
begin

text \<open>
  The root of a trie computed from the whole map at once (\<^verbatim>\<open>TrieHash.cpp\<close>), with which the
  roots of transactions and receipts in a block header are made, and that it is the root the class
  \<^verbatim>\<open>TrieDB\<close> reaches by inserting the pairs one by one.
\<close>

section \<open>Maps\<close>

text \<open>
  \<^verbatim>\<open>std::map<bytes, bytes>\<close> as the list of its pairs in iteration order, which is the
  lexicographic order of the keys; \<open>bm_set\<close> is \<^verbatim>\<open>m[k] = v\<close>.  A range of iterators is
  the list of the pairs in it.
\<close>

type_synonym bytes_map = "(bytes \<times> bytes) list"

fun bm_set :: "bytes \<Rightarrow> bytes \<Rightarrow> bytes_map \<Rightarrow> bytes_map" where
  "bm_set k v [] = [(k, v)]"
| "bm_set k v ((k', v') # m) =
     (if k = k' then (k, v) # m
      else if ord_class.lexordp k k' then (k, v) # (k', v') # m
      else (k', v') # bm_set k v m)"

section \<open>The hash of a range\<close>

text \<open>A read past the end of a key is \<open>HashUndefined\<close>.  What the functions append to the stream they
  are given is their result.\<close>

datatype hash_error = HashRLP rlp_error | HashUndefined | HashFuel

type_synonym appender = "rlp_stream \<Rightarrow> rlp_error + rlp_stream"

definition hash_rlp :: "rlp_error + 'a \<Rightarrow> hash_error + 'a" where
  "hash_rlp r = (case r of Inl e \<Rightarrow> Inl (HashRLP e) | Inr x \<Rightarrow> Inr x)"

definition stream_list :: "appender list \<Rightarrow> appender" where
  "stream_list fs = (\<lambda>s. res_bind (appendList (length fs) s) (append_all fs))"

function shared_from :: "bytes \<Rightarrow> bytes \<Rightarrow> nat \<Rightarrow> nat \<Rightarrow> nat" where
  "shared_from a b x i = (if i < x \<and> a ! i = b ! i then shared_from a b x (Suc i) else i)"
  by auto

termination shared_from
  by (relation "measure (\<lambda>(a, b, x, i). x - i)") auto

declare shared_from.simps [simp del]

text \<open>The conversion to \<^verbatim>\<open>unsigned\<close>.\<close>

definition as_unsigned :: "nat \<Rightarrow> nat" where
  "as_unsigned n = n mod 2 ^ 32"

fun shared_pre :: "nat \<Rightarrow> bytes \<Rightarrow> bytes_map \<Rightarrow> nat \<Rightarrow> nat" where
  "shared_pre p k [] sp = sp"
| "shared_pre p k ((k', v) # r) sp =
     (if sp = 0 then 0
      else let x = min sp (min (as_unsigned (length k)) (as_unsigned (length k'))) in
        shared_pre p k r (min (shared_from k k' x p) sp))"

fun nibble_run :: "nat \<Rightarrow> nat \<Rightarrow> bytes_map \<Rightarrow> hash_error + nat" where
  "nibble_run p i [] = Inr 0"
| "nibble_run p i ((k, v) # r) =
     (if length k \<le> p then Inl HashUndefined
      else if unat (k ! p) = i then res_bind (nibble_run p i r) (\<lambda>n. Inr (Suc n))
      else Inr 0)"

definition hash256aux :: "(bytes_map \<Rightarrow> nat \<Rightarrow> hash_error + appender) \<Rightarrow> bytes_map \<Rightarrow> nat \<Rightarrow> hash_error + appender" where
  "hash256aux rec xs p =
     res_bind (rec xs p) (\<lambda>f.
     res_bind (hash_rlp (res_bind (f empty_stream) stream_out)) (\<lambda>b.
       Inr (if length b < 32 then appendRaw b 1 else append_bytes (toBigEndian 32 (unat (sha3 b))) False)))"

primrec hash_kids ::
  "(bytes_map \<Rightarrow> nat \<Rightarrow> hash_error + appender) \<Rightarrow> nat \<Rightarrow> nat list \<Rightarrow> bytes_map \<Rightarrow> hash_error + appender list" where
  "hash_kids rec p [] b = Inr []"
| "hash_kids rec p (i # is) b =
     res_bind (nibble_run p i b) (\<lambda>n.
     res_bind (if n = 0 then Inr (append_bytes [] False) else hash256aux rec (take n b) (p + 1)) (\<lambda>f.
     res_bind (hash_kids rec p is (drop n b)) (\<lambda>fs. Inr (f # fs))))"

primrec hash256rlp :: "nat \<Rightarrow> bytes_map \<Rightarrow> nat \<Rightarrow> hash_error + appender" where
  "hash256rlp 0 xs p = Inl HashFuel"
| "hash256rlp (Suc n) xs p =
     (case xs of
        [] \<Rightarrow> Inr (append_bytes [] False)
      | (k, v) # r \<Rightarrow>
          if r = [] then Inr (stream_list [append_bytes (hexPrefixEncode_vector k True p (- 1)) False, append_bytes v False])
          else let sp = shared_pre p k r (2 ^ 32 - 1) in
            if p < sp then
              res_bind (hash256aux (hash256rlp n) xs sp) (\<lambda>f.
                Inr (stream_list [append_bytes (hexPrefixEncode_vector k False p (if sp < 2 ^ 31 then int sp else int sp - 2 ^ 32)) False, f]))
            else
              res_bind (hash_kids (hash256rlp n) p [0..<16] (if p = length k then r else xs)) (\<lambda>fs.
                Inr (stream_list (fs @ [append_bytes (if p = length k then v else []) False]))))"

text \<open>Every level of the recursion moves at least one nibble down the keys.\<close>

definition hash_fuel :: "bytes_map \<Rightarrow> nat" where
  "hash_fuel m = Suc (foldr (\<lambda>(k, v). max (length k)) m 0)"

definition hex_map :: "bytes_map \<Rightarrow> bytes_map" where
  "hex_map m = fold (\<lambda>(k, v). bm_set (asNibbles k) v) (rev m) []"

definition rlp256 :: "bytes_map \<Rightarrow> hash_error + bytes" where
  "rlp256 s =
     (if s = [] then hash_rlp (rlp_bytes [])
      else let h = hex_map s in
        res_bind (hash256rlp (hash_fuel h) h 0) (\<lambda>f. hash_rlp (res_bind (f empty_stream) stream_out)))"

definition hash256 :: "bytes_map \<Rightarrow> hash_error + h256" where
  "hash256 s = res_bind (rlp256 s) (\<lambda>b. Inr (sha3 b))"

definition trieRootOver :: "nat \<Rightarrow> (nat \<Rightarrow> bytes) \<Rightarrow> (nat \<Rightarrow> bytes) \<Rightarrow> hash_error + h256" where
  "trieRootOver cnt getKey getValue =
     hash256 (fold (\<lambda>i. bm_set (getKey i) (getValue i)) [0..<cnt] [])"

fun ordered_map :: "nat \<Rightarrow> bytes list \<Rightarrow> bytes_map \<Rightarrow> hash_error + bytes_map" where
  "ordered_map j [] m = Inr m"
| "ordered_map j (x # xs) m =
     res_bind (hash_rlp (rlp_int j)) (\<lambda>k. ordered_map (as_unsigned (j + 1)) xs (bm_set k x m))"

definition orderedTrieRoot :: "bytes list \<Rightarrow> hash_error + h256" where
  "orderedTrieRoot dat = res_bind (ordered_map 0 dat []) hash256"



section \<open>The tree of a map\<close>

text \<open>The tree whose nodes \<open>hash256rlp\<close> writes: \<open>strip\<close> is a range seen below a prefix of its keys,
  \<open>kid\<close> the part of it below one nibble and \<open>common\<close> the length of the prefix its keys share.\<close>

definition strip :: "nat \<Rightarrow> bytes_map \<Rightarrow> bytes_map" where
  "strip p xs = map (\<lambda>(k, v). (drop p k, v)) xs"

definition kid :: "nat \<Rightarrow> bytes_map \<Rightarrow> bytes_map" where
  "kid i xs = map (\<lambda>(k, v). (tl k, v)) (filter (\<lambda>(k, v). k \<noteq> [] \<and> unat (hd k) = i) xs)"

fun common :: "bytes \<Rightarrow> bytes_map \<Rightarrow> nat" where
  "common k [] = length k"
| "common k ((k', v) # r) = min (shared k k') (common k r)"

primrec build :: "nat \<Rightarrow> bytes_map \<Rightarrow> ptrie" where
  "build 0 xs = PNull"
| "build (Suc n) xs =
     (case xs of
        [] \<Rightarrow> PNull
      | (k, v) # r \<Rightarrow>
          if r = [] then PLeaf k v
          else if 0 < common k r then PExt (take (common k r) k) (build n (strip (common k r) xs))
          else PBranch (map (\<lambda>i. build n (kid i xs)) [0..<16]) (if k = [] then v else []))"

definition gd :: "nat \<Rightarrow> bytes_map \<Rightarrow> bool" where
  "gd n xs = (sorted_wrt (\<lambda>a b. ord_class.lexordp (fst a) (fst b)) xs
     \<and> (\<forall>(k, v)\<in>set xs. nibs k \<and> length k < n \<and> v \<noteq> [] \<and> length v < 2 ^ 62))"

subsection \<open>Shared prefixes\<close>

lemma shared_simps [simp]:
  "shared [] k = 0" "shared k [] = 0" "shared (a # k) (b # l) = (if a = b then Suc (shared k l) else 0)"
  by (simp_all add: shared_def)

lemma shared_drop: "p \<le> shared a b \<Longrightarrow> shared (drop p a) (drop p b) = shared a b - p"
proof (induction p arbitrary: a b)
  case (Suc p)
  then show ?case by (cases a; cases b) (auto split: if_splits)
qed simp

lemma common_le: "common k r \<le> length k"
  by (induction r rule: common.induct) (auto simp: min_le_iff_disj)

lemma common_shared: "(k', v) \<in> set r \<Longrightarrow> common k r \<le> shared k k'"
  by (induction r) (auto simp: min_le_iff_disj)

lemma common_take:
  assumes "(k', v) \<in> set r" and "c \<le> common k r"
  shows "c \<le> length k'" and "take c k' = take c k"
proof -
  have c: "c \<le> shared k k'" using common_shared [OF assms(1)] assms(2) by (rule order_trans [rotated])
  then show "c \<le> length k'" using shared_le(2) order_trans by blast
  show "take c k' = take c k" using take_shared [of k k'] c by (metis min.absorb1 take_take)
qed

lemma common_strip: "c \<le> common k r \<Longrightarrow> common (drop c k) (strip c r) = common k r - c"
  by (induction r) (auto simp: strip_def shared_drop min_diff)

lemma common_zero:
  assumes "common k r = 0" and "k \<noteq> []"
  shows "\<exists>k' v. (k', v) \<in> set r \<and> shared k k' = 0"
  using assms(1)
proof (induction r)
  case (Cons x r)
  then show ?case by (cases x) (auto simp: min_def split: if_splits)
qed (use assms(2) in simp)

subsection \<open>Parts of a range\<close>

lemma gdD:
  assumes "gd n xs" and "(k, v) \<in> set xs"
  shows "nibs k" "length k < n" "v \<noteq> []" "length v < 2 ^ 62"
  using assms by (auto simp: gd_def)

lemma gd_sub: "gd n xs \<Longrightarrow> gd n (filter P xs)"
  by (auto simp: gd_def intro: sorted_wrt_filter)

lemma gd_Cons: "gd n ((k, v) # r) \<Longrightarrow> gd n r"
  by (simp add: gd_def)

lemma lexordp_head: "ord_class.lexordp (a # k) (b # (l :: bytes)) \<Longrightarrow> a = b \<and> ord_class.lexordp k l \<or> a < b"
  by (auto elim: ord_class.lexordp.cases)

lemma lexordp_Nil_right [simp]: "\<not> ord_class.lexordp k ([] :: bytes)"
  by (auto elim: ord_class.lexordp.cases)

lemma gd_tail_keys: "gd n ((k, v) # r) \<Longrightarrow> (k', v') \<in> set r \<Longrightarrow> k' \<noteq> []"
  by (auto simp: gd_def)

lemma lexordp_irrefl [simp]: "\<not> ord_class.lexordp k (k :: bytes)"
  by (rule lexordp_irreflexive) simp

lemma gd_distinct: "gd n xs \<Longrightarrow> distinct (map fst xs)"
proof (induction xs)
  case (Cons x xs)
  then have "gd n xs" "\<forall>y\<in>set xs. ord_class.lexordp (fst x) (fst y)" by (auto simp: gd_def)
  then show ?case using Cons.IH by auto
qed simp

lemma map_of_gd: "gd n xs \<Longrightarrow> map_of xs k = Some v \<longleftrightarrow> (k, v) \<in> set xs"
  using gd_distinct map_of_eq_Some_iff by metis

definition val :: "bytes_map \<Rightarrow> bytes \<Rightarrow> bytes" where
  "val xs k = (case map_of xs k of None \<Rightarrow> [] | Some v \<Rightarrow> v)"

lemma val_eq:
  assumes "gd n xs" and "gd m ys" and "\<And>v. (k, v) \<in> set xs \<longleftrightarrow> (l, v) \<in> set ys"
  shows "val xs k = val ys l"
proof -
  have "map_of xs k = map_of ys l"
    using map_of_gd [OF assms(1)] map_of_gd [OF assms(2)] assms(3) by (metis option.exhaust)
  then show ?thesis by (simp add: val_def)
qed

lemma val_none:
  assumes "\<And>v. (k, v) \<notin> set xs"
  shows "val xs k = []"
proof -
  have "map_of xs k = None" using assms by (meson map_of_SomeD not_None_eq)
  then show ?thesis by (simp add: val_def)
qed

lemma sorted_wrt_mono_in:
  "sorted_wrt P xs \<Longrightarrow> (\<And>x y. x \<in> set xs \<Longrightarrow> y \<in> set xs \<Longrightarrow> P x y \<Longrightarrow> Q x y) \<Longrightarrow> sorted_wrt Q xs"
  by (induction xs) auto

lemma gd_strip:
  assumes "gd (Suc n) xs" and "\<And>k v. (k, v) \<in> set xs \<Longrightarrow> c \<le> length k \<and> take c k = a" and "0 < c"
  shows "gd n (strip c xs)"
proof -
  have "sorted_wrt (\<lambda>x y. ord_class.lexordp (fst x) (fst y)) xs" using assms(1) by (simp add: gd_def)
  then have "sorted_wrt (\<lambda>x y. ord_class.lexordp (drop c (fst x)) (drop c (fst y))) xs"
  proof (rule sorted_wrt_mono_in)
    fix x y assume "x \<in> set xs" "y \<in> set xs" and l: "ord_class.lexordp (fst x) (fst y)"
    then have "fst x = a @ drop c (fst x)" "fst y = a @ drop c (fst y)"
      using assms(2) [of "fst x" "snd x"] assms(2) [of "fst y" "snd y"] by (metis append_take_drop_id prod.collapse)+
    with l show "ord_class.lexordp (drop c (fst x)) (drop c (fst y))" by (metis lexordp_append_leftD order_less_irrefl)
  qed
  moreover have "nibs (drop c k) \<and> length (drop c k) < n \<and> v \<noteq> [] \<and> length v < 2 ^ 62" if "(k, v) \<in> set xs" for k v
    using gdD [OF assms(1) that] assms(3) assms(2) [OF that] by auto
  ultimately show ?thesis by (auto simp: gd_def strip_def sorted_wrt_map case_prod_unfold)
qed

lemma strip_set:
  assumes "\<And>k v. (k, v) \<in> set xs \<Longrightarrow> take c k = a"
  shows "(k, v) \<in> set (strip c xs) \<longleftrightarrow> (a @ k, v) \<in> set xs"
proof -
  have "(k, v) \<in> set (strip c xs) \<longleftrightarrow> (\<exists>l. (l, v) \<in> set xs \<and> k = drop c l)" by (force simp: strip_def)
  also have "\<dots> \<longleftrightarrow> (a @ k, v) \<in> set xs"
    using assms by (metis append_take_drop_id same_append_eq)
  finally show ?thesis .
qed

lemma kid_set: "(k, v) \<in> set (kid i xs) \<longleftrightarrow> (\<exists>a. unat a = i \<and> (a # k, v) \<in> set xs)"
proof -
  have "(k, v) \<in> set (kid i xs) \<longleftrightarrow> (\<exists>l. (l, v) \<in> set xs \<and> l \<noteq> [] \<and> unat (hd l) = i \<and> k = tl l)"
    by (force simp: kid_def)
  then show ?thesis by (metis hd_Cons_tl list.sel(1,3) list.distinct(1))
qed

lemma gd_kid:
  assumes "gd (Suc n) xs"
  shows "gd n (kid i xs)"
proof -
  let ?ys = "filter (\<lambda>(k, v). k \<noteq> [] \<and> unat (hd k) = i) xs"
  have g: "gd (Suc n) ?ys" by (rule gd_sub [OF assms])
  then have "sorted_wrt (\<lambda>x y. ord_class.lexordp (tl (fst x)) (tl (fst y))) ?ys"
    unfolding gd_def
  proof (elim conjE, elim sorted_wrt_mono_in)
    fix x y assume "x \<in> set ?ys" "y \<in> set ?ys" and l: "ord_class.lexordp (fst x) (fst y)"
    then have "fst x \<noteq> []" "fst y \<noteq> []" "unat (hd (fst x)) = unat (hd (fst y))" by auto
    then have "fst x = hd (fst x) # tl (fst x)" "fst y = hd (fst x) # tl (fst y)"
      using byte_unat_inj [of "hd (fst x)" "hd (fst y)"] by (metis list.collapse)+
    with l show "ord_class.lexordp (tl (fst x)) (tl (fst y))" by (metis lexordp_head order_less_irrefl)
  qed
  then have "sorted_wrt (\<lambda>x y. ord_class.lexordp (fst x) (fst y)) (kid i xs)"
    unfolding kid_def sorted_wrt_map by (simp add: case_prod_unfold)
  moreover have "nibs k \<and> length k < n \<and> v \<noteq> [] \<and> length v < 2 ^ 62" if "(k, v) \<in> set (kid i xs)" for k v
  proof -
    obtain a where "(a # k, v) \<in> set xs" using \<open>(k, v) \<in> set (kid i xs)\<close> by (auto simp: kid_set)
    from gdD [OF assms this] show ?thesis by simp
  qed
  ultimately show ?thesis by (auto simp: gd_def)
qed

lemma kid_two:
  assumes g: "gd n ((k, v) # r)" and r: "r \<noteq> []" and c: "common k r = 0"
  shows "k = [] \<and> (\<exists>i<16. kid i ((k, v) # r) \<noteq> [])
    \<or> (\<exists>i j. i \<noteq> j \<and> i < 16 \<and> j < 16 \<and> kid i ((k, v) # r) \<noteq> [] \<and> kid j ((k, v) # r) \<noteq> [])"
proof -
  let ?xs = "(k, v) # r"
  have below: "unat a < 16 \<and> kid (unat a) ?xs \<noteq> []" if "(a # l, w) \<in> set ?xs" for a l w
    using gdD(1) [OF g that] kid_set [of l w "unat a" ?xs] that by auto
  show ?thesis
  proof (cases k)
    case Nil
    obtain l w where l: "(l, w) \<in> set r" using r by (cases r) auto
    then obtain a m where "l = a # m" using gd_tail_keys [OF g l] by (cases l) auto
    then show ?thesis using below [of a m w] l Nil by auto
  next
    case (Cons a m)
    then obtain l w where l: "(l, w) \<in> set r" "shared k l = 0" using common_zero [OF c] by auto
    then obtain b m' where b: "l = b # m'" using gd_tail_keys [OF g l(1)] by (cases l) auto
    then have "a \<noteq> b" using l(2) Cons by auto
    then show ?thesis using below [of a m v] below [of b m' w] l b Cons byte_unat_inj [of a b] by auto
  qed
qed

lemma is_branch_build: "length xs \<ge> 2 \<Longrightarrow> common (fst (hd xs)) (tl xs) = 0 \<Longrightarrow> is_branch (build (Suc n) xs)"
  by (cases xs; cases "tl xs") auto

lemma branch_tree:
  assumes g: "gd (Suc n) xs" and xs: "xs = (k, v) # r" and r: "r \<noteq> []" and c: "common k r = 0"
    and ih: "\<And>i. pt_wf (b i) \<and> full (b i) \<and> (b i = PNull \<longleftrightarrow> kid i xs = []) \<and> (\<forall>l. nkey l \<longrightarrow> t_at (b i) l = val (kid i xs) l)"
  shows "pt_wf (PBranch (map b [0..<16]) (if k = [] then v else [])) \<and> full (PBranch (map b [0..<16]) (if k = [] then v else []))
    \<and> (\<forall>l. nkey l \<longrightarrow> t_at (PBranch (map b [0..<16]) (if k = [] then v else [])) l = val xs l)"
proof -
  define ts w where "ts = map b [0..<16]" and "w = (if k = [] then v else [])"
  have v: "v \<noteq> []" "length v < 2 ^ 62" using gdD [OF g, of k v] xs by auto
  have ts: "length ts = 16" "\<And>i. i < 16 \<Longrightarrow> ts ! i = b i" by (simp_all add: ts_def del: upt_Suc upt_rec_numeral)
  have mem: "pt_wf t \<and> full t" if "t \<in> set ts" for t using that ih by (auto simp: ts_def simp del: upt_Suc upt_rec_numeral)
  have u: "i \<in> set (used ts) \<longleftrightarrow> i < 16 \<and> kid i xs \<noteq> []" for i using ih ts by (auto simp: used_iff)
  have "2 \<le> length (used ts) + (if w = [] then 0 else 1)"
    using kid_two [OF g [unfolded xs] r c]
  proof (elim disjE conjE exE)
    fix i assume "k = []" "i < 16" "kid i ((k, v) # r) \<noteq> []"
    then show ?thesis using used_one [of i ts] ih ts v by (simp add: xs w_def)
  next
    fix i j assume "i \<noteq> j" "i < 16" "j < 16" "kid i ((k, v) # r) \<noteq> []" "kid j ((k, v) # r) \<noteq> []"
    then show ?thesis using used_length_ge2 [of i j ts] u by (simp add: xs)
  qed
  moreover have "t_at (PBranch ts w) l = val xs l" if l: "nkey l" for l
  proof (cases l)
    case Nil
    have "val xs [] = w"
    proof (cases "k = []")
      case False
      then have "([], v') \<notin> set xs" for v' using gd_tail_keys [OF g [unfolded xs], of "[]"] by (auto simp: xs)
      then show ?thesis using False val_none [of "[]" xs] by (simp add: w_def)
    qed (simp add: xs w_def val_def)
    then show ?thesis by (simp add: Nil)
  next
    case (Cons a l')
    have "val (kid (unat a) xs) l' = val xs (a # l')"
      by (rule val_eq [OF gd_kid [OF g] g]) (simp add: kid_set byte_unat_inj)
    then show ?thesis using ih ts l Cons by simp
  qed
  ultimately show ?thesis using ih ts(1) v(2) mem unfolding ts_def [symmetric] w_def [symmetric] by (auto simp: w_def)
qed

text \<open>The tree is well-formed, canonical, and holds the pairs of the map.\<close>

lemma build_tree:
  "gd n xs \<Longrightarrow> pt_wf (build n xs) \<and> full (build n xs) \<and> (build n xs = PNull \<longleftrightarrow> xs = [])
     \<and> (\<forall>l. nkey l \<longrightarrow> t_at (build n xs) l = val xs l)"
proof (induction n arbitrary: xs)
  case 0
  then have "xs = []" by (cases xs) (auto simp: gd_def)
  then show ?case by (simp add: val_def)
next
  case (Suc n)
  note g = Suc.prems
  show ?case
  proof (cases xs)
    case Nil
    then show ?thesis by (simp add: val_def)
  next
    case (Cons x r)
    obtain k v where x: "x = (k, v)" by (cases x)
    then have xs: "xs = (k, v) # r" using Cons by simp
    have kv: "nibs k" "v \<noteq> []" "length v < 2 ^ 62" using gdD [OF g, of k v] xs by auto
    define c where "c = common k r"
    show ?thesis
    proof (cases "r = []")
      case True
      then show ?thesis using kv by (auto simp: xs val_def)
    next
      case False
      have tk: "c \<le> length l \<and> take c l = take c k" if "(l, w) \<in> set xs" for l w
        using that common_take [of l w r c k] common_le [of k r] by (auto simp: xs c_def)
      show ?thesis
      proof (cases "0 < c")
        case True
        have gs: "gd n (strip c xs)" by (rule gd_strip [OF g tk True])
        have "c < Suc n" using gdD(2) [OF g, of k v] common_le [of k r] by (simp add: xs c_def)
        then obtain m where m: "n = Suc m" using True by (cases n) auto
        have b: "is_branch (build n (strip c xs))"
          unfolding m by (rule is_branch_build) (use False common_strip [of c k r] in \<open>auto simp: xs strip_def c_def Suc_le_eq\<close>)
        have at: "t_at (PExt (take c k) (build n (strip c xs))) l = val xs l" if l: "nkey l" for l
        proof (cases "prefix (take c k) l")
          case True
          then obtain l' where l': "l = take c k @ l'" by (auto simp: prefix_def)
          have "val (strip c xs) l' = val xs l"
            unfolding l' by (rule val_eq [OF gs g]) (rule strip_set, use tk in blast)
          then show ?thesis using Suc.IH [OF gs] l l' tk [of k v] by (simp add: xs min_def)
        next
          case False
          then have "(l, w) \<notin> set xs" for w using tk [of l w] by (metis take_is_prefix)
          then show ?thesis using False val_none [of l xs] by simp
        qed
        have "take c k \<noteq> []" using True tk [of k v] by (auto simp: xs)
        then show ?thesis using Suc.IH [OF gs] at b True False kv(1) by (simp add: xs c_def strip_def)
      next
        case c0: False
        have "build (Suc n) xs = PBranch (map (\<lambda>i. build n (kid i xs)) [0..<16]) (if k = [] then v else [])"
          using False c0 by (simp add: xs c_def del: upt_Suc upt_rec_numeral)
        then show ?thesis using branch_tree [OF g xs False _ Suc.IH [OF gd_kid [OF g]]] c0 by (simp add: c_def xs)
      qed
    qed
  qed
qed


end
