(* ===== verification/Trie_Hash_Eq.thy ===== *)
theory Trie_Hash_Eq
  imports Trie_Hash
begin

text \<open>
  \<open>hash256\<close> writes the nodes of the tree of its map, so its result is the root that \<^verbatim>\<open>TrieDB\<close>
  reaches by inserting the pairs one by one.
\<close>

section \<open>The hash is the root of that tree\<close>

lemma hash_rlp_simps [simp]: "hash_rlp (Inr x) = Inr x" "hash_rlp (Inl e) = Inl (HashRLP e)"
  by (simp_all add: hash_rlp_def)

lemma shared_from_eq:
  "p \<le> x \<Longrightarrow> x \<le> length a \<Longrightarrow> x \<le> length b \<Longrightarrow> shared_from a b x p = min x (p + shared (drop p a) (drop p b))"
proof (induction a b x p rule: shared_from.induct)
  case (1 a b x p)
  show ?case
  proof (cases "p < x")
    case True
    then have "drop p a = a ! p # drop (Suc p) a" "drop p b = b ! p # drop (Suc p) b"
      using 1 by (simp_all add: Cons_nth_drop_Suc)
    then show ?thesis using 1 True by (subst shared_from.simps) auto
  next
    case False
    then show ?thesis using 1 by (subst shared_from.simps) auto
  qed
qed

lemma shared_pre_bounded:
  assumes "length k < 2 ^ 32" and "p \<le> length k" and "\<forall>(k', v)\<in>set r. p \<le> length k' \<and> length k' < 2 ^ 32"
    and "p \<le> sp" and "sp \<le> length k"
  shows "shared_pre p k r sp = min sp (p + common (drop p k) (strip p r))"
  using assms(3-5)
proof (induction r arbitrary: sp)
  case Nil
  then show ?case using assms(2) by (simp add: strip_def)
next
  case (Cons y r)
  obtain k' v where y: "y = (k', v)" by (cases y)
  let ?x = "min sp (min (length k) (length k'))" and ?s = "shared (drop p k) (drop p k')"
  have k': "p \<le> length k'" "as_unsigned (length k') = length k'" "as_unsigned (length k) = length k"
    using Cons.prems(1) assms(1) by (auto simp: y as_unsigned_def)
  have f: "shared_from k k' ?x p = min ?x (p + ?s)"
    using k' assms(2) Cons.prems by (intro shared_from_eq) auto
  have s: "p + ?s \<le> length k" "p + ?s \<le> length k'" using shared_le [of "drop p k" "drop p k'"] k'(1) assms(2) by auto
  have "shared_pre p k r (min sp (p + ?s)) = min (min sp (p + ?s)) (p + common (drop p k) (strip p r))"
    using Cons by (intro Cons.IH) auto
  then show ?case
    using f s k' Cons.prems(2,3) by (auto simp: y strip_def Let_def min_def split: if_splits)
qed

lemma shared_pre_eq:
  assumes k: "length k < 2 ^ 32 - 1" "p \<le> length k" and r: "\<forall>(k', v)\<in>set r. p \<le> length k' \<and> length k' < 2 ^ 32 - 1" "r \<noteq> []"
  shows "shared_pre p k r (2 ^ 32 - 1) = p + common (drop p k) (strip p r)"
proof -
  obtain k' v r' where y: "r = (k', v) # r'" using r(2) by (metis list.exhaust prod.exhaust)
  let ?x = "min (length k) (length k')" and ?s = "shared (drop p k) (drop p k')"
  have k': "p \<le> length k'" "length k' < 2 ^ 32 - 1" using r(1) by (auto simp: y)
  have u: "min (2 ^ 32 - 1) (min (as_unsigned (length k)) (as_unsigned (length k'))) = ?x"
    using k(1) k'(2) by (simp add: as_unsigned_def)
  have s: "p + ?s \<le> length k" "p + ?s \<le> length k'" using shared_le [of "drop p k" "drop p k'"] k'(1) k(2) by auto
  have "shared_from k k' ?x p = p + ?s" using k(2) k'(1) s shared_from_eq [of p ?x k k'] by simp
  then have "min (shared_from k k' ?x p) (2 ^ 32 - 1) = p + ?s" using s(1) k(1) by simp
  then have "shared_pre p k r (2 ^ 32 - 1) = shared_pre p k r' (p + ?s)" by (simp only: y shared_pre.simps u Let_def) simp
  also have "\<dots> = min (p + ?s) (p + common (drop p k) (strip p r'))"
    using k s r(1) by (intro shared_pre_bounded) (auto simp: y)
  finally show ?thesis by (simp add: y strip_def)
qed

lemma hash256aux_ok:
  assumes "rec xs p = Inr f" and "appends f (pitem t)"
  shows "\<exists>g. hash256aux rec xs p = Inr g \<and> appends g (ref_of (pitem t))"
  using assms appends_out [OF assms(2)] appends_raw [of "pitem t"] appends_hash [OF size_ok_32, of "sha3 (encode (pitem t))"]
  by (simp add: hash256aux_def ref_of_def hash_item_def)

subsection \<open>The sixteen parts of a range\<close>

abbreviation nib_at :: "nat \<Rightarrow> bytes \<times> bytes \<Rightarrow> nat" where
  "nib_at p x \<equiv> unat (fst x ! p)"

lemma nibble_run_eq: "\<forall>x\<in>set b. p < length (fst x) \<Longrightarrow> nibble_run p i b = Inr (length (takeWhile (\<lambda>x. nib_at p x = i) b))"
  by (induction p i b rule: nibble_run.induct) auto

lemma sorted_takeWhile:
  "sorted (map g b) \<Longrightarrow> \<forall>x\<in>set b. i \<le> g x \<Longrightarrow>
     takeWhile (\<lambda>x. g x = i) b = filter (\<lambda>x. g x = i) b \<and> dropWhile (\<lambda>x. g x = i) b = filter (\<lambda>x. g x \<noteq> i) b"
proof (induction b)
  case (Cons y b)
  show ?case
  proof (cases "g y = i")
    case False
    then have "\<forall>x\<in>set b. g x \<noteq> i" using Cons.prems by fastforce
    then show ?thesis using False by (simp add: filter_empty_conv)
  qed (use Cons in auto)
qed simp

lemma hash_kids_ok:
  assumes "\<And>j. i \<le> j \<Longrightarrow> filter (\<lambda>x. nib_at p x = j) b \<noteq> [] \<Longrightarrow>
      \<exists>f. rec (filter (\<lambda>x. nib_at p x = j) b) (p + 1) = Inr f \<and> appends f (pitem (t j))"
    and "\<And>j. i \<le> j \<Longrightarrow> filter (\<lambda>x. nib_at p x = j) b = [] \<Longrightarrow> t j = PNull"
    and "\<forall>x\<in>set b. p < length (fst x) \<and> i \<le> nib_at p x" and "sorted (map (nib_at p) b)"
  shows "\<exists>fs. hash_kids rec p [i..<i + m] b = Inr fs \<and> list_all2 appends fs (map (\<lambda>j. ref_of (pitem (t j))) [i..<i + m])"
  using assms
proof (induction m arbitrary: i b)
  case (Suc m)
  let ?P = "\<lambda>x. nib_at p x = i" and ?b = "filter (\<lambda>x. nib_at p x \<noteq> i) b"
  have sp: "takeWhile ?P b = filter ?P b" "dropWhile ?P b = ?b" using sorted_takeWhile [of "nib_at p" b i] Suc.prems(3,4) by auto
  have run: "nibble_run p i b = Inr (length (filter ?P b))" using nibble_run_eq [of b p i] Suc.prems(3) sp(1) by auto
  have cut: "take (length (filter ?P b)) b = filter ?P b" "drop (length (filter ?P b)) b = ?b"
    using takeWhile_eq_take [of ?P b] dropWhile_eq_drop [of ?P b] sp by simp_all
  have "\<exists>f. (if filter ?P b = [] then Inr (append_bytes [] False) else hash256aux rec (filter ?P b) (p + 1)) = Inr f
      \<and> appends f (ref_of (pitem (t i)))"
    using Suc.prems(1,2) [of i] hash256aux_ok mem_trie.appends_no_kids by fastforce
  then obtain f where f: "(if filter ?P b = [] then Inr (append_bytes [] False) else hash256aux rec (filter ?P b) (p + 1)) = Inr f"
    "appends f (ref_of (pitem (t i)))" by blast
  have same: "filter (\<lambda>x. nib_at p x = j) ?b = filter (\<lambda>x. nib_at p x = j) b" if "Suc i \<le> j" for j
    using that by (auto simp: filter_filter intro: filter_cong)
  have "\<exists>fs. hash_kids rec p [Suc i..<Suc i + m] ?b = Inr fs \<and> list_all2 appends fs (map (\<lambda>j. ref_of (pitem (t j))) [Suc i..<Suc i + m])"
  proof (rule Suc.IH)
    show "\<forall>x\<in>set ?b. p < length (fst x) \<and> Suc i \<le> nib_at p x" using Suc.prems(3) by (auto simp: Suc_le_eq le_neq_implies_less)
    show "sorted (map (nib_at p) ?b)" using Suc.prems(4) by (rule sorted_filter)
  qed (simp_all only: same, use Suc.prems(1,2) in auto)
  then obtain fs where "hash_kids rec p [Suc i..<Suc i + m] ?b = Inr fs"
    "list_all2 appends fs (map (\<lambda>j. ref_of (pitem (t j))) [Suc i..<Suc i + m])" by blast
  moreover have "[i..<i + Suc m] = i # [Suc i..<Suc i + m]" by (simp add: upt_conv_Cons del: upt_Suc)
  ultimately show ?case using f run cut by (auto simp del: upt_Suc)
qed simp

lemma kid_strip:
  "\<forall>x\<in>set b. p < length (fst x) \<Longrightarrow> strip (Suc p) (filter (\<lambda>x. nib_at p x = j) b) = kid j (strip p b)"
proof (induction b)
  case (Cons y b)
  then have "drop p (fst y) = fst y ! p # drop (Suc p) (fst y)" by (simp add: Cons_nth_drop_Suc)
  then show ?case using Cons by (cases y) (auto simp: strip_def kid_def)
qed (simp add: strip_def kid_def)

lemma gd_nibbles_sorted:
  assumes "gd n (strip p b)" and "\<forall>x\<in>set b. p < length (fst x)"
  shows "sorted (map (nib_at p) b)"
proof -
  have "sorted_wrt (\<lambda>x y. ord_class.lexordp (drop p (fst x)) (drop p (fst y))) b"
    using assms(1) by (auto simp: gd_def strip_def sorted_wrt_map case_prod_unfold)
  then have "sorted_wrt (\<lambda>x y. nib_at p x \<le> nib_at p y) b"
  proof (rule sorted_wrt_mono_in)
    fix x y assume "x \<in> set b" "y \<in> set b" and l: "ord_class.lexordp (drop p (fst x)) (drop p (fst y))"
    then have "drop p (fst x) = fst x ! p # drop (Suc p) (fst x)" "drop p (fst y) = fst y ! p # drop (Suc p) (fst y)"
      using assms(2) by (simp_all add: Cons_nth_drop_Suc)
    with l have "fst x ! p \<le> fst y ! p" using lexordp_head by fastforce
    then show "nib_at p x \<le> nib_at p y" by (simp add: word_le_nat_alt)
  qed
  then show ?thesis by (simp add: sorted_map)
qed

subsection \<open>All levels\<close>

lemma stream_list_appends:
  assumes "list_all2 appends fs is" and "pitem t = Items is" and "pt_wf t"
  shows "appends (stream_list fs) (pitem t)"
  using appends_list [OF assms(1) pitem_size [OF assms(3,2)]] by (simp add: stream_list_def assms(2))

text \<open>Below the root, keys keep the nibbles before \<open>p\<close>.\<close>

definition range_ok :: "nat \<Rightarrow> nat \<Rightarrow> bytes_map \<Rightarrow> bool" where
  "range_ok n p xs = (gd n (strip p xs) \<and> (\<forall>x\<in>set xs. p \<le> length (fst x) \<and> nibs (fst x)))"

lemma range_okD:
  assumes "range_ok n p xs" and "(k, v) \<in> set xs"
  shows "p \<le> length k" "nibs k" "nibs (drop p k)" "length v < 2 ^ 62" "length k < 2 ^ 31"
  using assms gdD [of n "strip p xs" "drop p k" v] by (force simp: range_ok_def strip_def nibs_def)+

lemma hp_vector:
  assumes "nibs k" and "p \<le> e" and "e \<le> length k" and "length k < 2 ^ 32"
  shows "hexPrefixEncode_vector k leaf p (int e) = hex_prefix leaf (take (e - p) (drop p k))"
    and "hexPrefixEncode_vector k leaf p (- 1) = hex_prefix leaf (drop p k)"
  using hexPrefixEncode_vector_eq [of k p e "int e" leaf] hexPrefixEncode_vector_eq [of k p "length k" "- 1" leaf] assms
  by (auto simp: nibs_def)

lemma range_kid:
  assumes "range_ok (Suc n) p xs" and "set b \<subseteq> set xs" and "kid j (strip p b) = kid j (strip p xs)"
    and "\<forall>x\<in>set b. p < length (fst x)"
  shows "range_ok n (Suc p) (filter (\<lambda>x. nib_at p x = j) b)"
    and "strip (Suc p) (filter (\<lambda>x. nib_at p x = j) b) = kid j (strip p xs)"
proof -
  show s: "strip (Suc p) (filter (\<lambda>x. nib_at p x = j) b) = kid j (strip p xs)" using kid_strip [OF assms(4)] assms(3) by simp
  have "gd n (kid j (strip p xs))" using assms(1) by (auto simp: range_ok_def intro: gd_kid)
  then show "range_ok n (Suc p) (filter (\<lambda>x. nib_at p x = j) b)"
    unfolding range_ok_def s using assms(1,2,4) by (fastforce simp: range_ok_def)
qed

lemma branch_part:
  assumes r: "range_ok (Suc n) p xs" and xs: "xs = (k, v) # r" and b: "b = (if p = length k then r else xs)"
  shows "set b \<subseteq> set xs" and "kid j (strip p b) = kid j (strip p xs)" and "\<forall>x\<in>set b. p < length (fst x)"
    and "sorted (map (nib_at p) b)"
proof -
  have le: "p \<le> length k" using range_okD(1) [OF r, of k v] by (simp add: xs)
  show "set b \<subseteq> set xs" by (auto simp: b xs)
  show "kid j (strip p b) = kid j (strip p xs)" using le by (auto simp: b xs strip_def kid_def)
  have g: "gd (Suc n) (strip p xs)" using r by (simp add: range_ok_def)
  have "p < length (fst x)" if "x \<in> set r" for x
    using gd_tail_keys [of "Suc n" "drop p k" v "strip p r" "drop p (fst x)" "snd x"] g that
    by (force simp: xs strip_def)
  then show len: "\<forall>x\<in>set b. p < length (fst x)" using le by (auto simp: b xs)
  have "gd (Suc n) (strip p b)" using g gd_Cons [of "Suc n" "drop p k" v "strip p r"] by (auto simp: b xs strip_def)
  then show "sorted (map (nib_at p) b)" using gd_nibbles_sorted len by blast
qed

lemma build_Nil: "build n [] = PNull"
  by (cases n) simp_all

lemma range_pos: "range_ok n p xs \<Longrightarrow> xs \<noteq> [] \<Longrightarrow> 0 < n"
  by (cases xs) (auto simp: range_ok_def gd_def strip_def)

lemma range_ext:
  assumes r: "range_ok (Suc n) p xs" and xs: "xs = (k, v) # rest" and rest: "rest \<noteq> []"
    and c: "c = common (drop p k) (strip p rest)" "0 < c"
  shows "range_ok n (p + c) xs" and "strip (p + c) xs = strip c (strip p xs)" and "0 < n" and "p + c \<le> length k"
proof -
  have g: "gd (Suc n) (strip p xs)" using r by (simp add: range_ok_def)
  show s: "strip (p + c) xs = strip c (strip p xs)" by (simp add: strip_def case_prod_unfold comp_def add.commute)
  have st: "strip p xs = (drop p k, v) # strip p rest" by (simp add: xs strip_def)
  have tk: "c \<le> length l \<and> take c l = take c (drop p k)" if "(l, w) \<in> set (strip p xs)" for l w
    using that common_take [of l w "strip p rest" c "drop p k"] common_le [of "drop p k" "strip p rest"] st by (auto simp: c(1))
  have "gd n (strip c (strip p xs))" by (rule gd_strip [OF g tk c(2)])
  moreover have "p + c \<le> length (fst x)" if "x \<in> set xs" for x
    using tk [of "drop p (fst x)" "snd x"] that c(2) by (force simp: strip_def)
  ultimately show ok: "range_ok n (p + c) xs" using r s by (auto simp: range_ok_def)
  show "0 < n" using range_pos [OF ok] by (simp add: xs)
  show "p + c \<le> length k" using ok by (simp add: range_ok_def xs)
qed

lemma hash256rlp_ok:
  "range_ok n p xs \<Longrightarrow> 0 < n \<Longrightarrow> \<exists>f. hash256rlp n xs p = Inr f \<and> appends f (pitem (build n (strip p xs)))"
proof (induction n arbitrary: p xs)
  case (Suc n)
  note r = Suc.prems(1)
  have wf: "pt_wf (build (Suc n) (strip p xs))" using r build_tree [of "Suc n" "strip p xs"] unfolding range_ok_def by blast
  show ?case
  proof (cases xs)
    case Nil
    then show ?thesis using appends_bytes [of "[]"] by (simp add: strip_def size_ok_def)
  next
    case (Cons x rest)
    obtain k v where x: "x = (k, v)" by (cases x)
    then have xs: "xs = (k, v) # rest" using Cons by simp
    have st: "strip p xs = (drop p k, v) # strip p rest" "strip p rest = [] \<longleftrightarrow> rest = []" by (simp_all add: xs strip_def)
    note kv = range_okD [OF r, of k v, unfolded xs, simplified]
    have v: "appends (append_bytes v False) (Data v)" using kv(4) by (intro appends_bytes) (simp add: size_ok_def)
    have hp: "appends (append_bytes (hex_prefix l (take m (drop p k))) False) (Data (hex_prefix l (take m (drop p k))))" for l m
      using size_ok_hp [of "take m (drop p k)" l] kv(3) by (intro appends_bytes) simp
    show ?thesis
    proof (cases "rest = []")
      case True
      then have "appends (stream_list [append_bytes (hex_prefix True (drop p k)) False, append_bytes v False]) (pitem (PLeaf (drop p k) v))"
        using hp [of True "length k"] v wf st by (intro stream_list_appends) (auto simp: strip_def)
      then show ?thesis using True st hp_vector(2) [of k p "length k"] kv(1,2,5) by (simp add: xs strip_def)
    next
      case False
      define c where "c = common (drop p k) (strip p rest)"
      have sp: "shared_pre p k rest (2 ^ 32 - 1) = p + c"
        unfolding c_def using kv False range_okD(1,5) [OF r] by (intro shared_pre_eq) (fastforce simp: xs)+
      show ?thesis
      proof (cases "0 < c")
        case True
        have ok: "range_ok n (p + c) xs" "strip (p + c) xs = strip c (strip p xs)" "0 < n" "p + c \<le> length k"
          using range_ext [OF r xs False c_def True] by auto
        obtain f where f: "hash256aux (hash256rlp n) xs (p + c) = Inr f" "appends f (ref_of (pitem (build n (strip c (strip p xs)))))"
          using Suc.IH [OF ok(1,3)] hash256aux_ok ok(2) by metis
        have t: "build (Suc n) (strip p xs) = PExt (take c (drop p k)) (build n (strip c (strip p xs)))"
          using True False st(2) by (simp add: st(1) c_def)
        have "appends (stream_list [append_bytes (hex_prefix False (take c (drop p k))) False, f]) (pitem (build (Suc n) (strip p xs)))"
          using hp f(2) wf t by (intro stream_list_appends) simp_all
        moreover have "hexPrefixEncode_vector k False p (int (p + c)) = hex_prefix False (take c (drop p k))"
          using hp_vector(1) [OF kv(2) _ ok(4), of p False] kv(5) by simp
        ultimately show ?thesis using True False f(1) sp ok(4) kv(5) by (simp add: xs Let_def)
      next
        case c0: False
        let ?b = "if p = length k then rest else xs" and ?t = "\<lambda>j. build n (kid j (strip p xs))"
        note bp = branch_part [OF r xs HOL.refl]
        have "\<exists>fs. hash_kids (hash256rlp n) p [0..<0 + 16] ?b = Inr fs
            \<and> list_all2 appends fs (map (\<lambda>j. ref_of (pitem (?t j))) [0..<0 + 16])"
        proof (rule hash_kids_ok)
          fix j
          note rk = range_kid [OF r bp(1,2,3), of j]
          show "\<exists>f. hash256rlp n (filter (\<lambda>x. nib_at p x = j) ?b) (p + 1) = Inr f \<and> appends f (pitem (?t j))"
            if "filter (\<lambda>x. nib_at p x = j) ?b \<noteq> []"
            using Suc.IH [OF rk(1)] rk(2) that range_pos [OF rk(1) that] by simp
          show "?t j = PNull" if "filter (\<lambda>x. nib_at p x = j) ?b = []"
            using rk(2) that build_Nil by (simp add: strip_def)
        qed (use bp in auto)
        then obtain fs where fs: "hash_kids (hash256rlp n) p [0..<16] ?b = Inr fs"
          "list_all2 appends fs (map (\<lambda>j. ref_of (pitem (?t j))) [0..<16])" by (auto simp del: upt_Suc upt_rec_numeral)
        let ?v = "if p = length k then v else []"
        have t: "build (Suc n) (strip p xs) = PBranch (map ?t [0..<16]) ?v"
          using c0 False st(2) kv(1) by (simp add: st(1) c_def le_antisym del: upt_Suc upt_rec_numeral)
        have "appends (append_bytes ?v False) (Data ?v)" using v appends_bytes [of "[]"] by (auto simp: size_ok_def)
        then have "appends (stream_list (fs @ [append_bytes ?v False])) (pitem (build (Suc n) (strip p xs)))"
          using fs(2) wf t by (intro stream_list_appends) (auto intro!: list_all2_appendI simp: comp_def simp del: upt_Suc upt_rec_numeral)
        moreover have "hash256rlp (Suc n) xs p = Inr (stream_list (fs @ [append_bytes ?v False]))"
          using c0 False fs(1) sp by (cases "p = length k") (simp_all add: xs Let_def del: upt_Suc upt_rec_numeral)
        ultimately show ?thesis by blast
      qed
    qed
  qed
qed simp


section \<open>The map of a run of insertions\<close>

lemma asNibbles_ns: "asNibbles k = ns k"
proof (induction k)
  case (Cons x k)
  have "x div 16 = drop_bit 4 x" "x mod 16 = x AND 15"
    by (simp_all flip: byte_unat_inj add: unat_div unat_mod unat_shift_4 unat_and_15)
  then show ?case using Cons by (simp add: asNibbles_def)
qed (simp add: asNibbles_def)

abbreviation bm_sorted :: "bytes_map \<Rightarrow> bool" where
  "bm_sorted m \<equiv> sorted_wrt (\<lambda>a b. ord_class.lexordp (fst a) (fst b)) m"

lemma bm_sorted_distinct: "bm_sorted m \<Longrightarrow> distinct (map fst m)"
  by (induction m) fastforce+

lemma bm_set_keys: "fst ` set (bm_set k v m) = insert k (fst ` set m)"
  by (induction k v m rule: bm_set.induct) auto

lemma bm_set_sorted: "bm_sorted m \<Longrightarrow> bm_sorted (bm_set k v m)"
proof (induction k v m rule: bm_set.induct)
  case (2 k v k' v' m)
  have "ord_class.lexordp k (fst y)" if "ord_class.lexordp k k'" "y \<in> set m" for y
    using lexordp_trans [OF that(1)] 2(2) that(2) by auto
  moreover have "ord_class.lexordp k' (fst y)" if "\<not> ord_class.lexordp k k'" "k \<noteq> k'" "y \<in> set (bm_set k v m)" for y
  proof -
    have "fst y \<in> insert k (fst ` set m)" using that(3) bm_set_keys by blast
    then show ?thesis using that(1,2) 2(2) lexordp_linear [of k k'] by auto
  qed
  ultimately show ?case using 2 by auto
qed simp

lemma bm_set_map_of: "map_of (bm_set k v m) = (map_of m)(k \<mapsto> v)"
  by (induction k v m rule: bm_set.induct) auto

lemma bm_fold:
  "bm_sorted m \<Longrightarrow> bm_sorted (fold (\<lambda>(k, v). bm_set (f k) v) xs m)
     \<and> map_of (fold (\<lambda>(k, v). bm_set (f k) v) xs m) = map_of (rev (map (\<lambda>(k, v). (f k, v)) xs) @ m)"
proof (induction xs arbitrary: m)
  case (Cons x xs)
  then show ?case using bm_set_sorted [of m "f (fst x)" "snd x"] bm_set_map_of
    by (cases x) (simp add: map_add_def fun_eq_iff split: option.splits)
qed simp

lemma map_of_ns: "map_of (map (\<lambda>(k, v). (ns k, v)) m) l = (if \<exists>k. l = ns k then map_of m (THE k. l = ns k) else None)"
  by (induction m) (auto simp: ns_inj)

lemma hex_map_ok:
  shows "bm_sorted (hex_map m)" and "map_of (hex_map m) = map_of (map (\<lambda>(k, v). (ns k, v)) m)"
  using bm_fold [of "[]" ns "rev m"] by (simp_all add: hex_map_def asNibbles_ns [abs_def] rev_map)

text \<open>The map of the pairs, each later one replacing an earlier one with its key.\<close>

definition bm_of :: "(bytes \<times> bytes) list \<Rightarrow> bytes_map" where
  "bm_of kvs = fold (\<lambda>(k, v). bm_set k v) kvs []"

definition pairs_ok :: "(bytes \<times> bytes) list \<Rightarrow> bool" where
  "pairs_ok kvs = (\<forall>(k, v)\<in>set kvs. length k < 2 ^ 30 \<and> v \<noteq> [] \<and> length v < 2 ^ 62)"

lemma hex_map_of: "map_of (hex_map (bm_of kvs)) = map_of (map (\<lambda>(k, v). (ns k, v)) (rev kvs))"
proof -
  have "map_of (bm_of kvs) = map_of (rev kvs)"
    using bm_fold [of "[]" "\<lambda>k. k" kvs] by (simp add: bm_of_def case_prod_unfold)
  then show ?thesis by (simp only: hex_map_ok(2) map_of_ns fun_eq_iff) simp
qed

lemma hex_map_gd:
  assumes "pairs_ok kvs"
  shows "gd (hash_fuel (hex_map (bm_of kvs))) (hex_map (bm_of kvs))"
proof -
  let ?h = "hex_map (bm_of kvs)"
  have "nibs l \<and> v \<noteq> [] \<and> length v < 2 ^ 62" if l: "(l, v) \<in> set ?h" for l v
  proof -
    have "distinct (map fst ?h)" by (rule bm_sorted_distinct [OF hex_map_ok(1)])
    then have "map_of ?h l = Some v" using l by simp
    then obtain k where "(k, v) \<in> set kvs" "l = ns k" unfolding hex_map_of by (auto dest!: map_of_SomeD)
    then show ?thesis using assms ns_wf(2) by (auto simp: pairs_ok_def)
  qed
  moreover have "length l < hash_fuel m" if "(l, v) \<in> set m" for l v and m :: bytes_map
    using that by (induction m) (auto simp: hash_fuel_def less_Suc_eq_le)
  ultimately show ?thesis using hex_map_ok(1) by (auto simp: gd_def)
qed

lemma hash256_build:
  assumes "pairs_ok kvs"
  shows "\<exists>t. hash256 (bm_of kvs) = Inr (sha3 (pnode t)) \<and> pt_wf t \<and> full t
    \<and> (\<forall>l. nkey l \<longrightarrow> t_at t l = val (map (\<lambda>(k, v). (ns k, v)) (rev kvs)) l)"
proof (cases "bm_of kvs = []")
  case True
  then have "val (map (\<lambda>(k, v). (ns k, v)) (rev kvs)) l = []" for l
    using fun_cong [OF hex_map_of [of kvs], of l] by (simp add: hex_map_def val_def)
  moreover have "rlp_bytes [] = Inr (pnode PNull)"
    using appends_out [OF appends_bytes [of "[]"]] by (simp add: rlp_bytes_def pnode_def size_ok_def)
  ultimately show ?thesis by (intro exI [of _ PNull]) (simp add: hash256_def rlp256_def True)
next
  case False
  let ?h = "hex_map (bm_of kvs)" and ?t = "build (hash_fuel (hex_map (bm_of kvs))) (hex_map (bm_of kvs))"
  have g: "gd (hash_fuel ?h) ?h" using hex_map_gd [OF assms] .
  then have "range_ok (hash_fuel ?h) 0 ?h" using gdD(1) by (fastforce simp: range_ok_def strip_def)
  then obtain f where f: "hash256rlp (hash_fuel ?h) ?h 0 = Inr f" "appends f (pitem ?t)"
    using hash256rlp_ok [of "hash_fuel ?h" 0 ?h] by (auto simp: strip_def hash_fuel_def)
  have "val ?h = val (map (\<lambda>(k, v). (ns k, v)) (rev kvs))" by (simp add: val_def [abs_def] hex_map_of)
  then show ?thesis
    using f appends_out [OF f(2)] build_tree [OF g] False
    by (intro exI [of _ ?t]) (simp add: hash256_def rlp256_def Let_def pnode_def)
qed

lemma t_run_puts:
  assumes "pairs_ok kvs"
  shows "pt_wf t \<Longrightarrow> full t \<Longrightarrow>
    pt_wf (t_run (map (\<lambda>(k, v). Put k v) kvs) t) \<and> full (t_run (map (\<lambda>(k, v). Put k v) kvs) t)
    \<and> (\<forall>l. nkey l \<longrightarrow> t_at (t_run (map (\<lambda>(k, v). Put k v) kvs) t) l =
        (case map_of (map (\<lambda>(k, v). (ns k, v)) (rev kvs)) l of None \<Rightarrow> t_at t l | Some v \<Rightarrow> v))"
  using assms
proof (induction kvs arbitrary: t)
  case (Cons x kvs)
  obtain k v where x: "x = (k, v)" by (cases x)
  then have kv: "length k < 2 ^ 30" "v \<noteq> []" "length v < 2 ^ 62" "pairs_ok kvs" using Cons.prems(3) by (auto simp: pairs_ok_def)
  have t: "pt_wf (t_insert t (ns k) v)" "full (t_insert t (ns k) v)"
    using t_insert_wf [OF Cons.prems(1) ns_wf(2) [OF kv(1)] kv(3)] t_insert_full [OF Cons.prems(1) ns_wf(2) [OF kv(1)] kv(3,2) Cons.prems(2)]
    by auto
  show ?case
    using Cons.IH [OF t kv(4)] t_at_insert [OF Cons.prems(1) ns_wf(2) [OF kv(1)], of _ v]
    by (auto simp: x t_step_def map_add_def split: option.splits)
qed simp

section \<open>Properties\<close>

text \<open>C21: the two ways to a root agree.  For any pairs with values that are not empty, in any order and
  with repeated keys, \<^verbatim>\<open>hash256\<close> of the map returns the root that \<^verbatim>\<open>TrieDB\<close> over a
  \<^verbatim>\<open>MemoryDB\<close> has after inserting the pairs one by one; the only other case is that two different
  nodes of the run have the same hash.\<close>

theorem hash256_is_trie_root:
  assumes "pairs_ok kvs" and "\<not> m_enforceRefs m"
  shows "\<exists>h. hash256 (bm_of kvs) = Inr h
    \<and> (res_bind (trie_run mdb_ops (map (\<lambda>(k, v). Put k v) kvs) (trie_init mdb_ops m)) (trie_root mdb_ops) = Inr h
       \<or> collides (run_nodes (map (\<lambda>(k, v). Put k v) kvs) PNull))"
proof -
  let ?xs = "map (\<lambda>(k, v). Put k v) kvs" and ?t = "t_run (map (\<lambda>(k, v). Put k v) kvs) PNull"
  have ok: "run_ok ?xs PNull" using assms(1) by (intro puts_run_ok) (auto simp: pairs_ok_def list_all_iff)
  obtain t where t: "hash256 (bm_of kvs) = Inr (sha3 (pnode t))" "pt_wf t" "full t"
    "\<forall>l. nkey l \<longrightarrow> t_at t l = val (map (\<lambda>(k, v). (ns k, v)) (rev kvs)) l" using hash256_build [OF assms(1)] by blast
  note r = t_run_puts [OF assms(1), of PNull, simplified]
  have "same_at t ?t" using t(4) r by (simp add: same_at_def val_def cong: option.case_cong)
  then have "t = ?t" using full_unique [OF t(2,3)] r by blast
  then show ?thesis using mem_trie.run_root [OF assms(2) ok] t(1) by blast
qed

theorem hash256_is_trie_root_witness:
  "\<exists>h. hash256 (bm_of [([0x12], [1]), ([0x12, 0x34], [2]), ([0x12], [3])]) = Inr h
    \<and> (res_bind (trie_run mdb_ops [Put [0x12] [1], Put [0x12, 0x34] [2], Put [0x12] [3]] (trie_init mdb_ops mdb_new)) (trie_root mdb_ops) = Inr h
       \<or> collides (run_nodes [Put [0x12] [1], Put [0x12, 0x34] [2], Put [0x12] [3]] PNull))"
  using hash256_is_trie_root [of "[([0x12], [1]), ([0x12, 0x34], [2]), ([0x12], [3])]" mdb_new]
  by (simp add: mdb_new_def pairs_ok_def)

end
