(* ===== verification/Block_Header.thy ===== *)
theory Block_Header
  imports Transactions Trie_Hash World_State
begin

text \<open>
  \<^verbatim>\<open>libelecore/BlockHeader.h\<close> and \<^verbatim>\<open>BlockHeader.cpp\<close>: the header of a block, its RLP form
  with and without the seal, the memoised hashes, parsing, and the checks of a header against its
  parent and its block.  The logging is left out.
\<close>

section \<open>Headers\<close>

datatype block_error =
    BlockRLP rlp_error | BlockHash hash_error | InvalidBlockFormat | InvalidNumber | TooMuchGasUsed | InvalidParentHash
  | InvalidTimestamp | InvalidTransactionsRoot | InvalidUnclesHash | InvalidDifficulty | InvalidGasLimit
  | ExtraDataTooBig | InvalidBlockNonce | GenesisBlockCannotBeCalculated | DivisionByZero

definition blk_rlp :: "rlp_error + 'a \<Rightarrow> block_error + 'a" where
  "blk_rlp r = (case r of Inl e \<Rightarrow> Inl (BlockRLP e) | Inr x \<Rightarrow> Inr x)"

datatype IncludeSeal = WithoutSeal | WithSeal | OnlySeal

datatype Strictness = CheckEverything | JustSeal | QuickNonce | IgnoreSeal | CheckNothingNew

datatype BlockDataType = HeaderData | BlockData

record block_header =
  h_parentHash :: h256
  h_sha3Uncles :: h256
  h_stateRoot :: h256
  h_transactionsRoot :: h256
  h_receiptsRoot :: h256
  h_logBloom :: "2048 word"
  h_number :: u256
  h_gasLimit :: u256
  h_gasUsed :: u256
  h_extraData :: bytes
  h_timestamp :: u256
  h_author :: address
  h_difficulty :: u256
  h_seal :: "bytes list"
  h_hash :: h256
  h_hashWithout :: h256

definition new_header :: block_header where
  "new_header =
     \<lparr>h_parentHash = 0, h_sha3Uncles = 0, h_stateRoot = 0, h_transactionsRoot = 0, h_receiptsRoot = 0,
      h_logBloom = 0, h_number = 0, h_gasLimit = 0, h_gasUsed = 0, h_extraData = [],
      h_timestamp = Invalid256, h_author = 0, h_difficulty = 0, h_seal = [], h_hash = 0, h_hashWithout = 0\<rparr>"

definition header_exists :: "block_header \<Rightarrow> bool" where
  "header_exists h = (h_timestamp h \<noteq> Invalid256)"

definition noteDirty :: "block_header \<Rightarrow> block_header" where
  "noteDirty h = h\<lparr>h_hashWithout := 0, h_hash := 0\<rparr>"

definition EmptyListSHA3 :: h256 where "EmptyListSHA3 = sha3 [0xc0]"

definition header_clear :: "block_header \<Rightarrow> block_header" where
  "header_clear h =
     noteDirty (h\<lparr>h_parentHash := 0, h_sha3Uncles := EmptyListSHA3, h_author := 0, h_stateRoot := EmptyTrie,
       h_transactionsRoot := EmptyTrie, h_receiptsRoot := EmptyTrie, h_logBloom := 0, h_difficulty := 0,
       h_number := 0, h_gasLimit := 0, h_gasUsed := 0, h_timestamp := Invalid256, h_extraData := [], h_seal := []\<rparr>)"

definition header_eq :: "block_header \<Rightarrow> block_header \<Rightarrow> bool" where
  "header_eq a b =
     (h_parentHash a = h_parentHash b \<and> h_sha3Uncles a = h_sha3Uncles b \<and> h_author a = h_author b
      \<and> h_stateRoot a = h_stateRoot b \<and> h_transactionsRoot a = h_transactionsRoot b
      \<and> h_receiptsRoot a = h_receiptsRoot b \<and> h_logBloom a = h_logBloom b \<and> h_difficulty a = h_difficulty b
      \<and> h_number a = h_number b \<and> h_gasLimit a = h_gasLimit b \<and> h_gasUsed a = h_gasUsed b
      \<and> h_timestamp a = h_timestamp b \<and> h_extraData a = h_extraData b)"

subsection \<open>Setters\<close>

definition setParentHash :: "h256 \<Rightarrow> block_header \<Rightarrow> block_header" where
  "setParentHash v h = noteDirty (h\<lparr>h_parentHash := v\<rparr>)"
definition setSha3Uncles :: "h256 \<Rightarrow> block_header \<Rightarrow> block_header" where
  "setSha3Uncles v h = noteDirty (h\<lparr>h_sha3Uncles := v\<rparr>)"
definition setTimestamp :: "u256 \<Rightarrow> block_header \<Rightarrow> block_header" where
  "setTimestamp v h = noteDirty (h\<lparr>h_timestamp := v\<rparr>)"
definition setAuthor :: "address \<Rightarrow> block_header \<Rightarrow> block_header" where
  "setAuthor v h = noteDirty (h\<lparr>h_author := v\<rparr>)"
definition setRoots :: "h256 \<Rightarrow> h256 \<Rightarrow> h256 \<Rightarrow> h256 \<Rightarrow> block_header \<Rightarrow> block_header" where
  "setRoots t r u s h = noteDirty (h\<lparr>h_transactionsRoot := t, h_receiptsRoot := r, h_stateRoot := s, h_sha3Uncles := u\<rparr>)"
definition setGasUsed :: "u256 \<Rightarrow> block_header \<Rightarrow> block_header" where
  "setGasUsed v h = noteDirty (h\<lparr>h_gasUsed := v\<rparr>)"
definition setNumber :: "u256 \<Rightarrow> block_header \<Rightarrow> block_header" where
  "setNumber v h = noteDirty (h\<lparr>h_number := v\<rparr>)"
definition setGasLimit :: "u256 \<Rightarrow> block_header \<Rightarrow> block_header" where
  "setGasLimit v h = noteDirty (h\<lparr>h_gasLimit := v\<rparr>)"
definition setExtraData :: "bytes \<Rightarrow> block_header \<Rightarrow> block_header" where
  "setExtraData v h = noteDirty (h\<lparr>h_extraData := v\<rparr>)"
definition setLogBloom :: "2048 word \<Rightarrow> block_header \<Rightarrow> block_header" where
  "setLogBloom v h = noteDirty (h\<lparr>h_logBloom := v\<rparr>)"
definition setDifficulty :: "u256 \<Rightarrow> block_header \<Rightarrow> block_header" where
  "setDifficulty v h = noteDirty (h\<lparr>h_difficulty := v\<rparr>)"

text \<open>\<^verbatim>\<open>setSeal\<close> for a hash of \<open>N\<close> bytes; the sequence grows with empty strings.\<close>

definition setSeal :: "nat \<Rightarrow> nat \<Rightarrow> 'a::len word \<Rightarrow> block_header \<Rightarrow> block_error + block_header" where
  "setSeal N off v h =
     (let s = (if length (h_seal h) \<le> off then h_seal h @ replicate (off + 1 - length (h_seal h)) [] else h_seal h) in
      res_bind (blk_rlp (rlp_bytes (toBigEndian N (unat v)))) (\<lambda>b. Inr (noteDirty (h\<lparr>h_seal := s[off := b]\<rparr>))))"

definition header_sealed :: "nat \<Rightarrow> nat \<Rightarrow> block_header \<Rightarrow> block_error + 'a::len word" where
  "header_sealed N off h =
     (if off < length (h_seal h) then
        blk_rlp (res_bind (rlp_new (h_seal h ! off) VeryStrict) (\<lambda>d. res_bind (toHash N d VeryStrict) (\<lambda>b. Inr (fromBigEndian b))))
      else Inr 0)"

section \<open>Serialisation and hashes\<close>

definition hash_out :: "nat \<Rightarrow> 'a::len word \<Rightarrow> rlp_stream \<Rightarrow> rlp_error + rlp_stream" where
  "hash_out N w = append_bytes (toBigEndian N (unat w)) False"

definition header_fields :: "block_header \<Rightarrow> (rlp_stream \<Rightarrow> rlp_error + rlp_stream) list" where
  "header_fields h =
     [hash_out 32 (h_parentHash h), hash_out 32 (h_sha3Uncles h), hash_out 20 (h_author h),
      hash_out 32 (h_stateRoot h), hash_out 32 (h_transactionsRoot h), hash_out 32 (h_receiptsRoot h),
      hash_out 256 (h_logBloom h), append_int (unat (h_difficulty h)), append_int (unat (h_number h)),
      append_int (unat (h_gasLimit h)), append_int (unat (h_gasUsed h)), append_int (unat (h_timestamp h)),
      append_bytes (h_extraData h) False]"

definition BasicFields :: nat where "BasicFields = 13"

definition header_streamRLP :: "IncludeSeal \<Rightarrow> block_header \<Rightarrow> rlp_stream \<Rightarrow> rlp_error + rlp_stream" where
  "header_streamRLP i h s =
     res_bind
       (if i \<noteq> OnlySeal then
          res_bind (appendList (BasicFields + (if i = WithoutSeal then 0 else length (h_seal h))) s) (append_all (header_fields h))
        else Inr s) (\<lambda>s.
        if i \<noteq> WithoutSeal then append_all (map (\<lambda>b. appendRaw b 1) (h_seal h)) s else Inr s)"

text \<open>\<^verbatim>\<open>hash\<close> returns the header with the memo it may fill.\<close>

definition header_hash :: "IncludeSeal \<Rightarrow> block_header \<Rightarrow> block_error + h256 \<times> block_header" where
  "header_hash i h =
     (let memo = (case i of WithSeal \<Rightarrow> h_hash h | WithoutSeal \<Rightarrow> h_hashWithout h | OnlySeal \<Rightarrow> 0) in
      if memo = 0 then
        res_bind (blk_rlp (res_bind (header_streamRLP i h empty_stream) stream_out)) (\<lambda>b.
          Inr (sha3 b, (case i of WithSeal \<Rightarrow> h\<lparr>h_hash := sha3 b\<rparr> | WithoutSeal \<Rightarrow> h\<lparr>h_hashWithout := sha3 b\<rparr> | OnlySeal \<Rightarrow> h)))
      else Inr (memo, h))"

definition headerHashFromBlock :: "bytes \<Rightarrow> block_error + h256" where
  "headerHashFromBlock b =
     blk_rlp (res_bind (rlp_new b VeryStrict) (\<lambda>d. res_bind (rlp_nth d 0) (\<lambda>it. Inr (sha3 it))))"

section \<open>Parsing\<close>

definition extractHeader :: "bytes \<Rightarrow> block_error + bytes" where
  "extractHeader b =
     res_bind (blk_rlp (rlp_new b VeryStrict)) (\<lambda>root.
       if \<not> isList root then Inl InvalidBlockFormat
       else
         field (\<lambda>_ e. Inl (BlockRLP e)) root 0 Inr fresh_cache (\<lambda>header c.
         if \<not> isList header then Inl InvalidBlockFormat
         else
           field (\<lambda>_ e. Inl (BlockRLP e)) root 1 Inr c (\<lambda>txs c.
           if \<not> isList txs then Inl InvalidBlockFormat
           else
             field (\<lambda>_ e. Inl (BlockRLP e)) root 2 Inr c (\<lambda>uncles c.
             if \<not> isList uncles then Inl InvalidBlockFormat else Inr header))))"

text \<open>The handler of \<^verbatim>\<open>populate\<close> reads the field again for the message, which may throw another
  exception in its place.\<close>

definition header_fail :: "bytes \<Rightarrow> nat \<Rightarrow> rlp_cache \<Rightarrow> rlp_error \<Rightarrow> block_error + 'a" where
  "header_fail d i c e = (case fst (subscript d c i) of Inl e' \<Rightarrow> Inl (BlockRLP e') | Inr _ \<Rightarrow> Inl (BlockRLP e))"

definition hfield ::
  "bytes \<Rightarrow> nat \<Rightarrow> (bytes \<Rightarrow> rlp_error + 'a) \<Rightarrow> rlp_cache \<Rightarrow> ('a \<Rightarrow> rlp_cache \<Rightarrow> block_error + 'r) \<Rightarrow> block_error + 'r" where
  "hfield d i = field (header_fail d i) d i"

definition to_hash :: "nat \<Rightarrow> bytes \<Rightarrow> rlp_error + 'a::len word" where
  "to_hash N it = res_bind (toHash N it VeryStrict) (\<lambda>b. Inr (fromBigEndian b))"

text \<open>The loop over the fields of the seal; \<^verbatim>\<open>field\<close> is still 12.\<close>

function seal_loop :: "bytes \<Rightarrow> nat \<Rightarrow> nat \<Rightarrow> rlp_cache \<Rightarrow> block_error + bytes list" where
  "seal_loop d n i c =
     (if i < n then
        field (header_fail d 12) d i Inr c (\<lambda>it c. res_bind (seal_loop d n (Suc i) c) (\<lambda>r. Inr (it # r)))
      else Inr [])"
  by pat_completeness auto

termination seal_loop
  by (relation "measure (\<lambda>(d, n, i, c). n - i)") auto

declare seal_loop.simps [simp del]

definition header_populate :: "bytes \<Rightarrow> h256 \<Rightarrow> block_error + block_header" where
  "header_populate d hash =
     hfield d 0 (to_hash 32) fresh_cache (\<lambda>parentHash c.
     hfield d 1 (to_hash 32) c (\<lambda>sha3Uncles c.
     hfield d 2 (to_hash 20) c (\<lambda>author c.
     hfield d 3 (to_hash 32) c (\<lambda>stateRoot c.
     hfield d 4 (to_hash 32) c (\<lambda>transactionsRoot c.
     hfield d 5 (to_hash 32) c (\<lambda>receiptsRoot c.
     hfield d 6 (to_hash 256) c (\<lambda>logBloom c.
     hfield d 7 (\<lambda>it. toInt_u256 it Strict) c (\<lambda>difficulty c.
     hfield d 8 (\<lambda>it. toInt_u256 it Strict) c (\<lambda>number c.
     hfield d 9 (\<lambda>it. toInt_u256 it Strict) c (\<lambda>gasLimit c.
     hfield d 10 (\<lambda>it. toInt_u256 it Strict) c (\<lambda>gasUsed c.
     hfield d 11 (\<lambda>it. toInt_u256 it Strict) c (\<lambda>timestamp c.
     hfield d 12 (\<lambda>it. toBytes it LaissezFaire) c (\<lambda>extraData c.
     case itemCount d of
       Inl e \<Rightarrow> header_fail d 12 c e
     | Inr n \<Rightarrow> res_bind (seal_loop d n BasicFields c) (\<lambda>seal.
         Inr \<lparr>h_parentHash = parentHash, h_sha3Uncles = sha3Uncles, h_stateRoot = stateRoot,
              h_transactionsRoot = transactionsRoot, h_receiptsRoot = receiptsRoot, h_logBloom = logBloom,
              h_number = number, h_gasLimit = gasLimit, h_gasUsed = gasUsed, h_extraData = extraData,
              h_timestamp = timestamp, h_author = author, h_difficulty = difficulty, h_seal = seal,
              h_hash = hash, h_hashWithout = 0\<rparr>))))))))))))))"

definition header_new :: "bytes \<Rightarrow> BlockDataType \<Rightarrow> h256 \<Rightarrow> block_error + block_header" where
  "header_new b bdt hashWith =
     res_bind (if bdt = BlockData then extractHeader b else blk_rlp (rlp_new b VeryStrict)) (\<lambda>d.
       header_populate d (if hashWith \<noteq> 0 then hashWith else sha3 d))"

section \<open>Against the parent and the block\<close>

definition header_populateFromParent :: "block_header \<Rightarrow> block_header \<Rightarrow> block_header" where
  "header_populateFromParent parent h =
     h\<lparr>h_stateRoot := h_stateRoot parent, h_number := h_number parent + 1, h_parentHash := h_hash parent,
       h_gasLimit := h_gasLimit parent, h_difficulty := 1, h_gasUsed := 0\<rparr>"

text \<open>The elements of the list \<open>d\<close>, one subscript after the other.\<close>

function list_elems :: "bytes \<Rightarrow> nat \<Rightarrow> nat \<Rightarrow> rlp_cache \<Rightarrow> block_error + bytes list" where
  "list_elems d n i c =
     (if i < n then
        field (\<lambda>_ e. Inl (BlockRLP e)) d i Inr c (\<lambda>it c. res_bind (list_elems d n (Suc i) c) (\<lambda>r. Inr (it # r)))
      else Inr [])"
  by pat_completeness auto

termination list_elems
  by (relation "measure (\<lambda>(d, n, i, c). n - i)") auto

declare list_elems.simps [simp del]

definition tx_root :: "bytes list \<Rightarrow> block_error + h256" where
  "tx_root txs =
     (case trieRootOver (length txs) (\<lambda>i. case rlp_int i of Inr k \<Rightarrow> k | Inl _ \<Rightarrow> []) (\<lambda>i. txs ! i) of
        Inl e \<Rightarrow> Inl (BlockHash e) | Inr h \<Rightarrow> Inr h)"

definition verify_block :: "block_header \<Rightarrow> bytes \<Rightarrow> block_error + unit" where
  "verify_block h block =
     res_bind (blk_rlp (rlp_new block VeryStrict)) (\<lambda>root.
     field (\<lambda>_ e. Inl (BlockRLP e)) root 1 Inr fresh_cache (\<lambda>txList c.
     res_bind (blk_rlp (itemCount txList)) (\<lambda>n.
     res_bind (list_elems txList n 0 fresh_cache) (\<lambda>txs.
     res_bind (tx_root txs) (\<lambda>expectedRoot.
       if h_transactionsRoot h \<noteq> expectedRoot then Inl InvalidTransactionsRoot
       else
         field (\<lambda>_ e. Inl (BlockRLP e)) root 2 Inr c (\<lambda>uncles c.
           if h_sha3Uncles h \<noteq> sha3 uncles then Inl InvalidUnclesHash else Inr ()))))))"

text \<open>\<^verbatim>\<open>verify\<close>; an empty view is no block, and the memo of the parent's hash is not returned.\<close>

definition header_verify :: "Strictness \<Rightarrow> block_header \<Rightarrow> block_header \<Rightarrow> bytes \<Rightarrow> block_error + unit" where
  "header_verify s h parent block =
     (if unat (h_number h) > 2 ^ 32 - 1 then Inl InvalidNumber
      else if s \<noteq> CheckNothingNew \<and> h_gasUsed h > h_gasLimit h then Inl TooMuchGasUsed
      else
        res_bind
          (if header_exists parent then
             res_bind
               (if h_parentHash h \<noteq> 0 then
                  res_bind (header_hash WithSeal parent) (\<lambda>(p, _). if p \<noteq> h_parentHash h then Inl InvalidParentHash else Inr ())
                else Inr ()) (\<lambda>_.
               if h_timestamp h \<le> h_timestamp parent then Inl InvalidTimestamp
               else if h_number h \<noteq> h_number parent + 1 then Inl InvalidNumber
               else Inr ())
           else Inr ()) (\<lambda>_.
        if block \<noteq> [] then verify_block h block else Inr ()))"

section \<open>The round trip\<close>

definition header_items :: "block_header \<Rightarrow> rlp_item list" where
  "header_items h =
     [hash_item 32 (h_parentHash h), hash_item 32 (h_sha3Uncles h), hash_item 20 (h_author h),
      hash_item 32 (h_stateRoot h), hash_item 32 (h_transactionsRoot h), hash_item 32 (h_receiptsRoot h),
      hash_item 256 (h_logBloom h), int_item (unat (h_difficulty h)), int_item (unat (h_number h)),
      int_item (unat (h_gasLimit h)), int_item (unat (h_gasUsed h)), int_item (unat (h_timestamp h)), Data (h_extraData h)]"

text \<open>The fields of the seal are RLP items; \<open>ss\<close> are those.\<close>

definition header_wf :: "rlp_item list \<Rightarrow> block_header \<Rightarrow> bool" where
  "header_wf ss h = (h_seal h = map encode ss \<and> length (h_extraData h) < 2 ^ 62 \<and> length (concat (map encode ss)) < 2 ^ 61)"

lemma blk_rlp_simps [simp]: "blk_rlp (Inr x) = Inr x" "blk_rlp (Inl e) = Inl (BlockRLP e)"
  by (simp_all add: blk_rlp_def)

lemma size_ok_num [simp]: "size_ok 20" "size_ok 32" "size_ok 256" "size_ok 8" "size_ok 0"
  by (simp_all add: size_ok_def)

lemma length_encode_bloom: "length (encode (hash_item 256 w)) \<le> 265"
  unfolding hash_item_def using length_encode_data [of "toBigEndian 256 (unat w)"] by (simp del: encode.simps)

lemma header_items_size:
  assumes "length (h_extraData h) < 2 ^ 62"
  shows "length (concat (map encode (header_items h))) < 2 ^ 62 + 1000"
proof -
  have i: "length (encode (int_item (unat w))) \<le> 34" for w :: u256
    by (rule length_encode_int [OF bytesRequired_u256])
  have a: "length (encode (hash_item 32 w)) \<le> 34" "length (encode (hash_item 20 v)) \<le> 34" for w :: h256 and v :: address
    using length_encode_hash [of 32 w] length_encode_hash [of 20 v] by simp_all
  have d: "length (encode (Data (h_extraData h))) \<le> length (h_extraData h) + 9" using assms by (intro length_encode_data) simp
  show ?thesis
    using i [of "h_difficulty h"] i [of "h_number h"] i [of "h_gasLimit h"] i [of "h_gasUsed h"] i [of "h_timestamp h"]
      a(1) [of "h_parentHash h"] a(1) [of "h_sha3Uncles h"] a(1) [of "h_stateRoot h"] a(1) [of "h_transactionsRoot h"]
      a(1) [of "h_receiptsRoot h"] a(2) [of "h_author h"] length_encode_bloom [of "h_logBloom h"] d assms
    by (simp add: header_items_def del: encode.simps)
qed

lemma header_fields_append:
  assumes "length (h_extraData h) < 2 ^ 62"
  shows "list_all2 appends (header_fields h) (header_items h)"
proof -
  have "size_ok (length (h_extraData h))" using assms by (simp add: size_ok_def)
  then show ?thesis
    by (simp add: header_fields_def header_items_def hash_out_def appends_hash appends_int appends_bytes bytesRequired_u256)
qed

lemma append_all_append: "append_all (fs @ gs) s = res_bind (append_all fs s) (append_all gs)"
  by (induction fs arbitrary: s) (auto simp: res_bind_def split: sum.splits)

definition header_full :: "IncludeSeal \<Rightarrow> rlp_item list \<Rightarrow> block_header \<Rightarrow> rlp_item list" where
  "header_full i ss h = header_items h @ (if i = WithoutSeal then [] else ss)"

lemma header_full_size: "header_wf ss h \<Longrightarrow> size_ok (length (concat (map encode (header_full i ss h))))"
  using header_items_size [of h] by (simp add: header_full_def header_wf_def size_ok_def)

lemma header_stream:
  assumes wf: "header_wf ss h" and i: "i \<noteq> OnlySeal"
  shows "appends (header_streamRLP i h) (Items (header_full i ss h))"
proof -
  let ?fs = "header_fields h @ (if i = WithoutSeal then [] else map (\<lambda>b. appendRaw b 1) (h_seal h))"
  have "list_all2 appends (map (\<lambda>b. appendRaw b 1) (h_seal h)) ss"
    using wf appends_raw by (simp add: header_wf_def list_all2_map1 list_all2_same)
  then have fs: "list_all2 appends ?fs (header_full i ss h)"
    using header_fields_append [of h] wf by (auto simp: header_full_def header_wf_def intro: list_all2_appendI)
  have "length ?fs = BasicFields + (if i = WithoutSeal then 0 else length (h_seal h))"
    by (simp add: BasicFields_def header_fields_def)
  then have "header_streamRLP i h = (\<lambda>s. res_bind (appendList (length ?fs) s) (append_all ?fs))"
    using i by (auto simp: header_streamRLP_def fun_eq_iff append_all_append res_bind_def split: sum.splits)
  then show ?thesis using appends_list [OF fs header_full_size [OF wf]] by simp
qed

lemma header_rlp:
  assumes "header_wf ss h" and "i \<noteq> OnlySeal"
  shows "res_bind (header_streamRLP i h empty_stream) stream_out = Inr (encode (Items (header_full i ss h)))"
  by (rule appends_out [OF header_stream [OF assms]])

lemma hfield_encode:
  assumes "size_ok (length (concat (map encode xs)))" and "cache_ok xs c" and "i < length xs"
    and "conv (encode (xs ! i)) = Inr v" and "\<And>c'. cache_ok xs c' \<Longrightarrow> k v c' = R"
  shows "hfield (encode (Items xs)) i conv c k = R"
  unfolding hfield_def using assms(1-4) by (rule field_encode) (rule assms(5))

lemma seal_loop_encode:
  assumes ok: "size_ok (length (concat (map encode xs)))"
  shows "cache_ok xs c \<Longrightarrow> i \<le> length xs \<Longrightarrow> seal_loop (encode (Items xs)) (length xs) i c = Inr (map encode (drop i xs))"
proof (induction "length xs - i" arbitrary: i c)
  case 0
  then show ?case by (subst seal_loop.simps) simp
next
  case (Suc n)
  then have i: "i < length xs" by simp
  have "field (header_fail (encode (Items xs)) 12) (encode (Items xs)) i Inr c
      (\<lambda>it c. res_bind (seal_loop (encode (Items xs)) (length xs) (Suc i) c) (\<lambda>r. Inr (it # r)))
    = Inr (map encode (drop i xs))"
    using Suc i by (intro field_encode [OF ok Suc.prems(1) i HOL.refl]) (simp add: Cons_nth_drop_Suc [symmetric] del: encode.simps)
  then show ?case using i by (subst seal_loop.simps) simp
qed

lemma to_hash_item:
  "to_hash 32 (encode (hash_item 32 (w :: h256))) = Inr w" "to_hash 20 (encode (hash_item 20 (a :: address))) = Inr a"
  "to_hash 256 (encode (hash_item 256 (b :: 2048 word))) = Inr b"
  unfolding to_hash_def by (rule toHash_item; simp)+

definition header_plain :: "h256 \<Rightarrow> block_header \<Rightarrow> block_header" where
  "header_plain hash h = h\<lparr>h_hash := hash, h_hashWithout := 0\<rparr>"

lemma header_populate_encode:
  assumes wf: "header_wf ss h"
  shows "header_populate (encode (Items (header_full WithSeal ss h))) hash = Inr (header_plain hash h)"
proof -
  let ?xs = "header_full WithSeal ss h"
  note ok = header_full_size [OF wf, of WithSeal]
  have n: "length ?xs = 13 + length ss" by (simp add: header_full_def header_items_def)
  have "length ?xs < 2 ^ 64" using length_le_concat_encode [of ?xs] ok by (simp add: size_ok_def)
  then have c: "cache_ok ?xs fresh_cache" by (rule cache_ok_fresh)
  have d: "size_ok (length (h_extraData h))" using wf by (simp add: header_wf_def size_ok_def)
  have conv: "to_hash 32 (encode (?xs ! 0)) = Inr (h_parentHash h)" "to_hash 32 (encode (?xs ! 1)) = Inr (h_sha3Uncles h)"
    "to_hash 20 (encode (?xs ! 2)) = Inr (h_author h)" "to_hash 32 (encode (?xs ! 3)) = Inr (h_stateRoot h)"
    "to_hash 32 (encode (?xs ! 4)) = Inr (h_transactionsRoot h)" "to_hash 32 (encode (?xs ! 5)) = Inr (h_receiptsRoot h)"
    "to_hash 256 (encode (?xs ! 6)) = Inr (h_logBloom h)"
    "toInt_u256 (encode (?xs ! 7)) Strict = Inr (h_difficulty h)" "toInt_u256 (encode (?xs ! 8)) Strict = Inr (h_number h)"
    "toInt_u256 (encode (?xs ! 9)) Strict = Inr (h_gasLimit h)" "toInt_u256 (encode (?xs ! 10)) Strict = Inr (h_gasUsed h)"
    "toInt_u256 (encode (?xs ! 11)) Strict = Inr (h_timestamp h)" "toBytes (encode (?xs ! 12)) LaissezFaire = Inr (h_extraData h)"
    using toBytes_Data [OF d] by (simp_all add: header_full_def header_items_def nth_append to_hash_item toInt_u256_item del: encode.simps)
  have seal: "map encode (drop 13 ?xs) = h_seal h" using wf by (simp add: header_full_def header_items_def header_wf_def)
  have loop: "seal_loop (encode (Items ?xs)) (13 + length ss) 13 c' = Inr (h_seal h)" if "cache_ok ?xs c'" for c'
    using seal_loop_encode [OF ok that, of 13] n seal by simp
  show ?thesis
    unfolding header_populate_def
    apply ((rule hfield_encode [OF ok], (rule c | assumption), simp add: n, rule conv)+)
    apply (simp add: itemCount_Items [OF ok] loop n BasicFields_def header_plain_def del: encode.simps)
    done
qed

lemma field_Inr_encode:
  assumes "size_ok (length (concat (map encode xs)))" and "cache_ok xs c" and "i < length xs"
    and "\<And>c'. cache_ok xs c' \<Longrightarrow> k (encode (xs ! i)) c' = R"
  shows "field fail (encode (Items xs)) i Inr c k = R"
  using assms(1-3) by (rule field_encode) (rule HOL.refl, rule assms(4))

lemma extractHeader_encode:
  assumes ok: "size_ok (length (concat (map encode (Items hs # Items txs # Items us # rest))))"
  shows "extractHeader (encode (Items (Items hs # Items txs # Items us # rest))) = Inr (encode (Items hs))"
proof -
  let ?xs = "Items hs # Items txs # Items us # rest"
  have "length ?xs < 2 ^ 64" using length_le_concat_encode [of ?xs] ok by (simp add: size_ok_def del: encode.simps)
  then have c: "cache_ok ?xs fresh_cache" by (rule cache_ok_fresh)
  have l: "isList (encode (?xs ! 0))" "isList (encode (?xs ! 1))" "isList (encode (?xs ! 2))"
    using size_ok_mono [OF ok] length_payload_of_le [of "Items hs"] length_payload_of_le [of "Items txs"] length_payload_of_le [of "Items us"]
    by (simp_all add: isList_Items del: encode.simps)
  show ?thesis
    unfolding extractHeader_def rlp_new_Items [OF ok] blk_rlp_simps res_bind_simps
    apply (simp only: isList_Items [OF ok] simp_thms if_False)
    apply (rule field_Inr_encode [OF ok c], simp, simp only: l simp_thms if_False)
    apply (rule field_Inr_encode [OF ok], assumption, simp, simp only: l simp_thms if_False)
    apply (rule field_Inr_encode [OF ok], assumption, simp, simp only: l simp_thms if_False)
    apply simp
    done
qed


lemma length_encode_items: "length (concat (map encode xs)) < 2 ^ 63 \<Longrightarrow> length (encode (Items xs)) \<le> length (concat (map encode xs)) + 9"
proof -
  assume "length (concat (map encode xs)) < 2 ^ 63"
  then have "bytesRequired (length (concat (map encode xs))) \<le> 8" by (simp add: bytesRequired_le_iff)
  then show ?thesis by (simp add: Let_def len_prefix_def)
qed

lemma block_size:
  assumes "header_wf ss h" and "length (concat (map encode (Items txs # Items us # rest))) < 2 ^ 62"
  shows "size_ok (length (concat (map encode (Items (header_full WithSeal ss h) # Items txs # Items us # rest))))"
proof -
  have "length (concat (map encode (header_full WithSeal ss h))) < 2 ^ 63 - 9"
    using header_items_size [of h] assms(1) by (simp add: header_full_def header_wf_def)
  then show ?thesis using length_encode_items [of "header_full WithSeal ss h"] assms(2) by (simp add: size_ok_def del: encode.simps)
qed

section \<open>Properties\<close>

text \<open>C25: block headers survive the wire.  A header whose seal fields are RLP items serialises, and both
  ways to read it, from the header's bytes and as the first item of a block, give back every field,
  the seal included, with the given hash or else the hash of exactly these bytes as the memo.\<close>

theorem header_roundtrip:
  assumes wf: "header_wf ss h" and blk: "length (concat (map encode (Items txs # Items us # rest))) < 2 ^ 62"
  shows "\<exists>b. res_bind (header_streamRLP WithSeal h empty_stream) stream_out = Inr b
    \<and> header_new b HeaderData hashWith = Inr (h\<lparr>h_hash := (if hashWith \<noteq> 0 then hashWith else sha3 b), h_hashWithout := 0\<rparr>)
    \<and> header_new (encode (Items (Items (header_full WithSeal ss h) # Items txs # Items us # rest))) BlockData hashWith
      = Inr (h\<lparr>h_hash := (if hashWith \<noteq> 0 then hashWith else sha3 b), h_hashWithout := 0\<rparr>)"
  using header_rlp [OF wf, of WithSeal] rlp_new_Items [OF header_full_size [OF wf, of WithSeal]] extractHeader_encode [OF block_size [OF wf blk]]
    header_populate_encode [OF wf]
  by (simp add: header_new_def header_plain_def del: encode.simps)

theorem header_roundtrip_witness:
  "\<exists>b. res_bind (header_streamRLP WithSeal (new_header\<lparr>h_seal := [[0x80], [0x05]]\<rparr>) empty_stream) stream_out = Inr b
    \<and> header_new b HeaderData 7 = Inr (new_header\<lparr>h_seal := [[0x80], [0x05]], h_hash := 7\<rparr>)"
proof -
  let ?h = "new_header\<lparr>h_seal := [[0x80], [0x05]]\<rparr>" and ?ss = "[Data [], Data [0x05]]"
  have wf: "header_wf ?ss ?h" by (simp add: header_wf_def new_header_def len_prefix_def)
  have "length (concat (map encode (Items [] # Items [] # []))) < 2 ^ 62" by (simp add: len_prefix_def)
  from header_roundtrip [OF wf this, of 7] show ?thesis by (auto simp: new_header_def)
qed

end
