(* ===== verification/Receipts.thy ===== *)
theory Receipts
  imports Block_Header Evm
begin

text \<open>
  The receipts of transactions and the entries of the log: \<^verbatim>\<open>LogEntry\<close> and the bloom filter of a
  log in \<^verbatim>\<open>libevm/ExtVMFace.h\<close>, \<^verbatim>\<open>TransactionReceipt\<close> in
  \<^verbatim>\<open>libelementrem/TransactionReceipt.h\<close> and \<^verbatim>\<open>TransactionReceipt.cpp\<close>, and the receipts of
  a block in \<^verbatim>\<open>BlockDetails.h\<close>.  A bloom filter is a word of 2048 bits, the big-endian value of
  the hash of 256 bytes of the code.
\<close>

section \<open>Vectors in RLP\<close>

text \<open>
  A range-based \<^verbatim>\<open>for\<close> over an RLP object that converts each item when it is reached.  A
  conversion may iterate itself, so it may not return.
\<close>

partial_function (option) iter_convert ::
  "(bytes \<Rightarrow> (rlp_error + 'a) option) \<Rightarrow> bytes \<Rightarrow> rlp_iter \<Rightarrow> 'a list \<Rightarrow> (rlp_error + 'a list) option" where
  "iter_convert conv d it acc =
     (if iter_eq it (iter_end d) then Some (Inr acc)
      else case iter_deref d it of
             Inl e \<Rightarrow> Some (Inl e)
           | Inr x \<Rightarrow> (case conv x of
                None \<Rightarrow> None
              | Some (Inl e) \<Rightarrow> Some (Inl e)
              | Some (Inr v) \<Rightarrow> (case iter_next d it of
                   Inl e \<Rightarrow> Some (Inl e)
                 | Inr it' \<Rightarrow> iter_convert conv d it' (acc @ [v]))))"

definition for_each :: "(bytes \<Rightarrow> (rlp_error + 'a) option) \<Rightarrow> bytes \<Rightarrow> (rlp_error + 'a list) option" where
  "for_each conv d = (case iter_begin d of Inl e \<Rightarrow> Some (Inl e) | Inr it \<Rightarrow> iter_convert conv d it [])"

definition toVector :: "(bytes \<Rightarrow> (rlp_error + 'a) option) \<Rightarrow> bytes \<Rightarrow> nat \<Rightarrow> (rlp_error + 'a list) option" where
  "toVector conv d flags =
     (if isList d then (case itemCount d of Inl e \<Rightarrow> Some (Inl e) | Inr _ \<Rightarrow> for_each conv d)
      else if has_flag flags ThrowOnFail then Some (Inl BadCast) else Some (Inr []))"

lemma iter_convert_at:
  assumes ok: "size_ok (length (concat (map encode xs)))" and "length pre = h" and "k \<le> length xs"
    and d: "d = pre @ concat (map encode xs) @ []"
    and conv: "\<And>j. j < length xs \<Longrightarrow> conv (encode (xs ! j)) = Some (Inr (v j))"
  shows "iter_convert conv d (iter_at h xs k) acc = Some (Inr (acc @ map v [k..<length xs]))"
  using assms(3)
proof (induction "length xs - k" arbitrary: k acc)
  case 0
  then have k: "k = length xs" by simp
  have "iter_eq (iter_at h xs k) (iter_end d)"
    using assms(2,4) by (simp add: k iter_eq_def iter_at_def iter_end_def offset_of_def)
  then show ?case by (subst iter_convert.simps) (simp add: k)
next
  case (Suc n)
  then have k: "k < length xs" by simp
  have "iter_convert conv d (iter_at h xs k) acc = iter_convert conv d (iter_at h xs (Suc k)) (acc @ [v k])"
    using iter_deref_at [OF ok assms(2) d k] iter_next_at [OF ok assms(2) d k] iter_at_not_end [OF k, of h d] conv [OF k]
    by (subst iter_convert.simps) simp
  also have "\<dots> = Some (Inr (acc @ v k # map v [Suc k..<length xs]))" using Suc k by simp
  finally show ?case using k by (simp add: upt_conv_Cons)
qed

lemma for_each_encode:
  assumes ok: "size_ok (length (concat (map encode (map g vs))))"
    and conv: "\<And>v. v \<in> set vs \<Longrightarrow> conv (encode (g v)) = Some (Inr v)"
  shows "for_each conv (encode (Items (map g vs))) = Some (Inr vs)"
proof -
  have c: "conv (encode (map g vs ! j)) = Some (Inr (vs ! j))" if "j < length (map g vs)" for j
    using conv that by simp
  from iter_convert_at [where v = "(!) vs", OF ok HOL.refl _ _ c, of 0 "encode (Items (map g vs))" "len_prefix 192 (length (concat (map encode (map g vs))))" "[]"]
  show ?thesis using iter_begin_encode [OF ok, of "[]"] by (simp add: for_each_def map_nth Let_def)
qed

lemma toVector_encode:
  assumes ok: "size_ok (length (concat (map encode (map g vs))))"
    and conv: "\<And>v. v \<in> set vs \<Longrightarrow> conv (encode (g v)) = Some (Inr v)"
  shows "toVector conv (encode (Items (map g vs))) flags = Some (Inr vs)"
  using for_each_encode [OF assms] isList_Items [OF ok] itemCount_Items [OF ok] by (simp add: toVector_def del: encode.simps)

lemma res_bind_return: "res_bind m Inr = m"
  by (cases m) simp_all

lemma appends_vector:
  assumes "\<And>x. x \<in> set xs \<Longrightarrow> appends (out x) (g x)" and "size_ok (length (concat (map encode (map g xs))))"
  shows "appends (appendVector out xs) (Items (map g xs))"
proof -
  have "list_all2 appends (map out xs) (map g xs)" using assms(1) by (simp add: list_all2_map1 list_all2_map2 list_all2_same)
  from appends_list [OF this assms(2)] show ?thesis by (simp add: appendVector_def [abs_def])
qed

section \<open>Log entries\<close>

text \<open>\<^verbatim>\<open>shiftBloom<3>\<close> and \<^verbatim>\<open>containsBloom<3>\<close> of a \<^verbatim>\<open>LogBloom\<close>, with the hash as its bytes.\<close>

type_synonym log_bloom = "2048 word"

definition bloom_bits :: "h256 \<Rightarrow> log_bloom" where
  "bloom_bits h = fromBigEndian (bloomPart 3 256 (toBigEndian 32 (unat h)))"

definition shift_bloom :: "log_bloom \<Rightarrow> h256 \<Rightarrow> log_bloom" where
  "shift_bloom b h = b OR bloom_bits h"

definition bloom_contains :: "log_bloom \<Rightarrow> log_bloom \<Rightarrow> bool" where
  "bloom_contains b c = (b AND c = c)"

definition contains_bloom :: "log_bloom \<Rightarrow> h256 \<Rightarrow> bool" where
  "contains_bloom b h = bloom_contains b (bloom_bits h)"

text \<open>The hashes that enter a filter, of the bytes of an address and of a topic.\<close>

definition sha3_address :: "address \<Rightarrow> h256" where "sha3_address a = sha3 (toBigEndian 20 (unat a))"
definition sha3_topic :: "h256 \<Rightarrow> h256" where "sha3_topic t = sha3 (toBigEndian 32 (unat t))"

definition log_bloom :: "log_entry \<Rightarrow> log_bloom" where
  "log_bloom e = fold (\<lambda>t b. shift_bloom b (sha3_topic t)) (log_topics e) (shift_bloom 0 (sha3_address (log_address e)))"

definition logs_bloom :: "log_entry list \<Rightarrow> log_bloom" where
  "logs_bloom ls = fold (\<lambda>e b. b OR log_bloom e) ls 0"

definition log_streamRLP :: "log_entry \<Rightarrow> rlp_stream \<Rightarrow> rlp_error + rlp_stream" where
  "log_streamRLP e s =
     res_bind (appendList 3 s)
       (append_all [hash_out 20 (log_address e), appendVector (hash_out 32) (log_topics e), append_bytes (log_data e) False])"

text \<open>A result of the reader that always returns.\<close>

definition ofield ::
  "bytes \<Rightarrow> nat \<Rightarrow> (bytes \<Rightarrow> (rlp_error + 'a) option) \<Rightarrow> rlp_cache \<Rightarrow> ('a \<Rightarrow> rlp_cache \<Rightarrow> (rlp_error + 'r) option) \<Rightarrow> (rlp_error + 'r) option" where
  "ofield d i conv c k =
     (case subscript d c i of
        (Inl e, c') \<Rightarrow> Some (Inl e)
      | (Inr it, c') \<Rightarrow> (case conv it of None \<Rightarrow> None | Some (Inl e) \<Rightarrow> Some (Inl e) | Some (Inr v) \<Rightarrow> k v c'))"

text \<open>\<^verbatim>\<open>(FixedHash<N>)r\<close> converts with \<^verbatim>\<open>Strict\<close>, \<^verbatim>\<open>toVector\<close> its items with \<^verbatim>\<open>LaissezFaire\<close>.\<close>

definition as_hash :: "nat \<Rightarrow> nat \<Rightarrow> bytes \<Rightarrow> rlp_error + 'a::len word" where
  "as_hash N flags it = res_bind (toHash N it flags) (\<lambda>b. Inr (fromBigEndian b))"

definition log_parse :: "bytes \<Rightarrow> (rlp_error + log_entry) option" where
  "log_parse d =
     ofield d 0 (\<lambda>it. Some (as_hash 20 Strict it)) fresh_cache (\<lambda>address c.
     ofield d 1 (\<lambda>it. toVector (\<lambda>t. Some (as_hash 32 LaissezFaire t)) it LaissezFaire) c (\<lambda>topics c.
     ofield d 2 (\<lambda>it. Some (toBytes it LaissezFaire)) c (\<lambda>data c.
       Some (Inr \<lparr>log_address = address, log_topics = topics, log_data = data\<rparr>))))"

section \<open>Receipts\<close>

record receipt =
  rc_stateRoot :: h256
  rc_gasUsed :: u256
  rc_bloom :: log_bloom
  rc_log :: "log_entry list"

definition receipt_new :: "h256 \<Rightarrow> u256 \<Rightarrow> log_entry list \<Rightarrow> receipt" where
  "receipt_new root gas l = \<lparr>rc_stateRoot = root, rc_gasUsed = gas, rc_bloom = logs_bloom l, rc_log = l\<rparr>"

definition receipt_streamRLP :: "receipt \<Rightarrow> rlp_stream \<Rightarrow> rlp_error + rlp_stream" where
  "receipt_streamRLP r s =
     res_bind (appendList 4 s) (\<lambda>s.
     res_bind (append_all [hash_out 32 (rc_stateRoot r), append_int (unat (rc_gasUsed r)), hash_out 256 (rc_bloom r)] s) (\<lambda>s.
     res_bind (appendList (length (rc_log r)) s) (\<lambda>s. append_all (map log_streamRLP (rc_log r)) s)))"

definition receipt_rlp :: "receipt \<Rightarrow> rlp_error + bytes" where
  "receipt_rlp r = res_bind (receipt_streamRLP r empty_stream) stream_out"

definition receipt_parse :: "bytes \<Rightarrow> (rlp_error + receipt) option" where
  "receipt_parse b =
     (case rlp_new b VeryStrict of
        Inl e \<Rightarrow> Some (Inl e)
      | Inr d \<Rightarrow>
          ofield d 0 (\<lambda>it. Some (as_hash 32 Strict it)) fresh_cache (\<lambda>root c.
          ofield d 1 (\<lambda>it. Some (toInt_u256 it Strict)) c (\<lambda>gas c.
          ofield d 2 (\<lambda>it. Some (as_hash 256 Strict it)) c (\<lambda>bloom c.
          ofield d 3 (for_each log_parse) c (\<lambda>logs c.
            Some (Inr \<lparr>rc_stateRoot = root, rc_gasUsed = gas, rc_bloom = bloom, rc_log = logs\<rparr>))))))"

text \<open>\<^verbatim>\<open>BlockReceipts\<close>, without the memo of its size\<close>

definition blockReceipts_rlp :: "receipt list \<Rightarrow> rlp_error + bytes" where
  "blockReceipts_rlp rs =
     res_bind (appendList (length rs) empty_stream) (\<lambda>s.
     res_bind (append_all (map receipt_streamRLP rs) s) stream_out)"

definition blockReceipts_parse :: "bytes \<Rightarrow> (rlp_error + receipt list) option" where
  "blockReceipts_parse d = for_each receipt_parse d"

section \<open>The items\<close>

definition log_items :: "log_entry \<Rightarrow> rlp_item list" where
  "log_items e = [hash_item 20 (log_address e), Items (map (hash_item 32) (log_topics e)), Data (log_data e)]"

definition receipt_items :: "receipt \<Rightarrow> rlp_item list" where
  "receipt_items r = [hash_item 32 (rc_stateRoot r), int_item (unat (rc_gasUsed r)), hash_item 256 (rc_bloom r),
     Items (map (\<lambda>e. Items (log_items e)) (rc_log r))]"

text \<open>An encoding whose length fits the integers of the code.\<close>

definition fits :: "rlp_item \<Rightarrow> bool" where
  "fits x = size_ok (length (encode x))"

lemma ofield_encode:
  assumes ok: "size_ok (length (concat (map encode xs)))" and c: "cache_ok xs c" and i: "i < length xs"
    and conv: "conv (encode (xs ! i)) = Some (Inr v)" and k: "\<And>c'. cache_ok xs c' \<Longrightarrow> k v c' = R"
  shows "ofield (encode (Items xs)) i conv c k = R"
proof -
  obtain c' where "subscript (encode (Items xs)) c i = (Inr (encode (xs ! i)), c')" "cache_ok xs c'"
    using subscript_encode [OF ok c, of "[]" i] i by auto
  then show ?thesis using conv k by (simp add: ofield_def)
qed

lemma fits_ItemsD:
  assumes "fits (Items xs)"
  shows "size_ok (length (concat (map encode xs)))" and "x \<in> set xs \<Longrightarrow> fits x" and "cache_ok xs fresh_cache"
proof -
  show ok: "size_ok (length (concat (map encode xs)))"
    using assms by (auto simp: fits_def Let_def elim: size_ok_mono)
  show "x \<in> set xs \<Longrightarrow> fits x" unfolding fits_def by (rule size_ok_encode_member [OF ok])
  have "length xs < 2 ^ 64" using length_le_concat_encode [of xs] ok by (simp add: size_ok_def)
  then show "cache_ok xs fresh_cache" by (rule cache_ok_fresh)
qed

lemma fits_DataD: "fits (Data b) \<Longrightarrow> size_ok (length b)"
proof (cases b rule: encode_Data_cases)
  case Prefixed
  assume "fits (Data b)"
  then show ?thesis unfolding fits_def Prefixed(1) by (auto elim: size_ok_mono)
qed (simp add: size_ok_def)

lemma as_hash_item [simp]:
  "as_hash 32 fl (encode (hash_item 32 (w :: h256))) = Inr w" "as_hash 20 fl (encode (hash_item 20 (a :: address))) = Inr a"
  "as_hash 256 fl (encode (hash_item 256 (b :: 2048 word))) = Inr b"
  unfolding as_hash_def by (rule toHash_item; simp)+

lemma length_encode_Items:
  "length (concat (map encode xs)) < 2 ^ 63 \<Longrightarrow> length (encode (Items xs)) \<le> length (concat (map encode xs)) + 9"
proof -
  assume "length (concat (map encode xs)) < 2 ^ 63"
  then have "bytesRequired (length (concat (map encode xs))) \<le> 8" by (simp only: bytesRequired_le_iff) simp
  then show ?thesis by (simp add: Let_def len_prefix_def)
qed

lemma log_stream:
  assumes "fits (Items (log_items e))"
  shows "appends (log_streamRLP e) (Items (log_items e))"
proof -
  note m = fits_ItemsD(2) [OF assms, unfolded log_items_def]
  have t: "size_ok (length (concat (map encode (map (hash_item 32) (log_topics e)))))"
    by (rule fits_ItemsD(1), rule m) simp
  have d: "size_ok (length (log_data e))" by (rule fits_DataD, rule m) simp
  have "appends (appendVector (hash_out 32) (log_topics e)) (Items (map (hash_item 32) (log_topics e)))"
    by (rule appends_vector [OF _ t]) (simp add: hash_out_def appends_hash)
  then have "list_all2 appends [hash_out 20 (log_address e), appendVector (hash_out 32) (log_topics e), append_bytes (log_data e) False]
      (log_items e)"
    by (simp add: log_items_def hash_out_def appends_hash appends_bytes d)
  from appends_list [OF this fits_ItemsD(1) [OF assms]] show ?thesis by (simp add: log_streamRLP_def [abs_def] numeral_3_eq_3)
qed

lemma log_parse_encode:
  assumes "fits (Items (log_items e))"
  shows "log_parse (encode (Items (log_items e))) = Some (Inr e)"
proof -
  let ?xs = "log_items e"
  note m = fits_ItemsD(2) [OF assms, unfolded log_items_def]
  have t: "size_ok (length (concat (map encode (map (hash_item 32) (log_topics e)))))"
    by (rule fits_ItemsD(1), rule m) simp
  have d: "size_ok (length (log_data e))" by (rule fits_DataD, rule m) simp
  have v: "toVector (\<lambda>t. Some (as_hash 32 LaissezFaire t)) (encode (Items (map (hash_item 32) (log_topics e)))) LaissezFaire = Some (Inr (log_topics e))"
    by (rule toVector_encode [OF t]) simp
  have conv: "Some (as_hash 20 Strict (encode (?xs ! 0))) = Some (Inr (log_address e))"
    "toVector (\<lambda>t. Some (as_hash 32 LaissezFaire t)) (encode (?xs ! 1)) LaissezFaire = Some (Inr (log_topics e))"
    "Some (toBytes (encode (?xs ! 2)) LaissezFaire) = Some (Inr (log_data e))"
    using v toBytes_Data [OF d] by (simp_all add: log_items_def del: encode.simps)
  show ?thesis
    unfolding log_parse_def
    by ((rule ofield_encode [OF fits_ItemsD(1) [OF assms]], (rule fits_ItemsD(3) [OF assms] | assumption), simp add: log_items_def, rule conv)+) simp
qed

lemma n4: "(4 :: nat) = Suc (Suc (Suc (Suc 0)))"
  by simp

lemma append_all_eq: "append_all [] = Inr" "append_all (f # fs) = (\<lambda>s. res_bind (f s) (append_all fs))"
  by (simp_all add: fun_eq_iff)

lemma receipt_stream:
  assumes "fits (Items (receipt_items r))"
  shows "appends (receipt_streamRLP r) (Items (receipt_items r))"
proof -
  let ?g = "\<lambda>e. Items (log_items e)"
  note m = fits_ItemsD(2) [OF assms, unfolded receipt_items_def]
  have l: "fits (Items (map ?g (rc_log r)))" by (rule m) simp
  have "appends (appendVector log_streamRLP (rc_log r)) (Items (map ?g (rc_log r)))"
    by (rule appends_vector [OF log_stream fits_ItemsD(1) [OF l]], rule fits_ItemsD(2) [OF l]) simp
  then have "list_all2 appends [hash_out 32 (rc_stateRoot r), append_int (unat (rc_gasUsed r)), hash_out 256 (rc_bloom r),
      appendVector log_streamRLP (rc_log r)] (receipt_items r)"
    by (simp add: receipt_items_def hash_out_def appends_hash appends_int bytesRequired_u256)
  from appends_list [OF this fits_ItemsD(1) [OF assms]]
  have a: "appends (\<lambda>s. res_bind (appendList 4 s) (append_all [hash_out 32 (rc_stateRoot r), append_int (unat (rc_gasUsed r)),
      hash_out 256 (rc_bloom r), appendVector log_streamRLP (rc_log r)])) (Items (receipt_items r))"
    by (simp add: n4)
  then show ?thesis by (simp add: receipt_streamRLP_def [abs_def] append_all_eq appendVector_def [abs_def] res_bind_assoc res_bind_return)
qed

lemma receipt_parse_encode:
  assumes "fits (Items (receipt_items r))"
  shows "receipt_parse (encode (Items (receipt_items r))) = Some (Inr r)"
proof -
  let ?xs = "receipt_items r"
  let ?g = "\<lambda>e. Items (log_items e)"
  note ok = fits_ItemsD(1) [OF assms] and m = fits_ItemsD(2) [OF assms, unfolded receipt_items_def]
  have l: "fits (Items (map ?g (rc_log r)))" by (rule m) simp
  have "for_each log_parse (encode (Items (map ?g (rc_log r)))) = Some (Inr (rc_log r))"
    by (rule for_each_encode [OF fits_ItemsD(1) [OF l] log_parse_encode], rule fits_ItemsD(2) [OF l]) simp
  then have conv: "Some (as_hash 32 Strict (encode (?xs ! 0))) = Some (Inr (rc_stateRoot r))"
    "Some (toInt_u256 (encode (?xs ! 1)) Strict) = Some (Inr (rc_gasUsed r))"
    "Some (as_hash 256 Strict (encode (?xs ! 2))) = Some (Inr (rc_bloom r))"
    "for_each log_parse (encode (?xs ! 3)) = Some (Inr (rc_log r))"
    by (simp_all add: receipt_items_def toInt_u256_item del: encode.simps)
  show ?thesis
    unfolding receipt_parse_def rlp_new_Items [OF ok] sum.case
    by ((rule ofield_encode [OF ok], (rule fits_ItemsD(3) [OF assms] | assumption), simp add: receipt_items_def, rule conv)+) simp
qed

text \<open>
  C28: a list of receipts that is written and read back is the list that was written, where the
  encoding fits the integers of the code: state roots, gas, filters, addresses, topics and data, with
  nested vectors of any length.
\<close>

theorem receipts_roundtrip:
  assumes "fits (Items (map (\<lambda>r. Items (receipt_items r)) rs))"
  shows "\<exists>b. blockReceipts_rlp rs = Inr b \<and> blockReceipts_parse b = Some (Inr rs)"
proof -
  let ?g = "\<lambda>r. Items (receipt_items r)"
  have r: "fits (?g r)" if "r \<in> set rs" for r by (rule fits_ItemsD(2) [OF assms]) (use that in simp)
  have "appends (appendVector receipt_streamRLP rs) (Items (map ?g rs))"
    by (rule appends_vector [OF receipt_stream [OF r] fits_ItemsD(1) [OF assms]])
  from appends_out [OF this] have "blockReceipts_rlp rs = Inr (encode (Items (map ?g rs)))"
    by (simp add: blockReceipts_rlp_def appendVector_def res_bind_assoc del: encode.simps)
  moreover have "blockReceipts_parse (encode (Items (map ?g rs))) = Some (Inr rs)"
    unfolding blockReceipts_parse_def by (rule for_each_encode [OF fits_ItemsD(1) [OF assms] receipt_parse_encode [OF r]])
  ultimately show ?thesis by blast
qed

definition sample_entry :: log_entry where
  "sample_entry = \<lparr>log_address = 7, log_topics = [1, 2], log_data = [5, 6]\<rparr>"

lemma receipts_roundtrip_witness:
  "\<exists>b. blockReceipts_rlp [receipt_new 3 21000 [sample_entry]] = Inr b
     \<and> blockReceipts_parse b = Some (Inr [receipt_new 3 21000 [sample_entry]])"
proof (rule receipts_roundtrip)
  let ?r = "receipt_new 3 21000 [sample_entry]"
  have w: "length (encode (hash_item 32 w)) \<le> 34" "length (encode (hash_item 20 v)) \<le> 34" for w :: h256 and v :: address
    using length_encode_hash [of 32 w] length_encode_hash [of 20 v] by simp_all
  note i = length_encode_int [OF bytesRequired_u256]
  have t: "length (encode (Items (map (hash_item 32) [1, 2 :: h256]))) \<le> 77"
    using length_encode_Items [of "map (hash_item 32) [1, 2 :: h256]"] w(1) [of 1] w(1) [of 2] by (simp del: encode.simps)
  have e: "length (encode (Items (log_items sample_entry))) \<le> 154"
    using length_encode_Items [of "log_items sample_entry"] w(2) [of 7] length_encode_small [of "[5, 6]"] t
    by (simp add: log_items_def sample_entry_def del: encode.simps)
  have l: "length (encode (Items [Items (log_items sample_entry)])) \<le> 163"
    using length_encode_Items [of "[Items (log_items sample_entry)]"] e by (simp del: encode.simps)
  have r: "length (encode (Items (receipt_items ?r))) \<le> 505"
    using length_encode_Items [of "receipt_items ?r"] w(1) [of 3] i [of 21000] length_encode_bloom [of "rc_bloom ?r"] l
    by (simp add: receipt_items_def receipt_new_def del: encode.simps)
  show "fits (Items (map (\<lambda>r. Items (receipt_items r)) [?r]))"
    using length_encode_Items [of "[Items (receipt_items ?r)]"] r by (simp add: fits_def size_ok_def del: encode.simps)
qed

end
