(* ===== verification/Log_Filter.thy ===== *)
theory Log_Filter
  imports Receipts
begin

text \<open>
  \<^verbatim>\<open>libelementrem/LogFilter.h\<close> and \<^verbatim>\<open>LogFilter.cpp\<close>: which entries of a log a client asked for.
  A hash set is the list of its elements in the order of its iteration; where a new element goes in
  that order is left to the parameter \<open>slot\<close>.
\<close>

section \<open>Filters\<close>

record log_filter =
  f_addresses :: "address list"
  f_topics :: "h256 list list"
  f_earliest :: h256
  f_latest :: h256

definition PendingBlockHash :: h256 where "PendingBlockHash = 0"
definition EarliestBlockHash :: h256 where "EarliestBlockHash = 1"

definition filter_new :: "h256 \<Rightarrow> h256 \<Rightarrow> log_filter" where
  "filter_new e l = \<lparr>f_addresses = [], f_topics = replicate 4 [], f_earliest = e, f_latest = l\<rparr>"

definition hash_insert :: "('a \<Rightarrow> 'a list \<Rightarrow> 'a list) \<Rightarrow> 'a \<Rightarrow> 'a list \<Rightarrow> 'a list" where
  "hash_insert slot x xs = (if x \<in> set xs then xs else slot x xs)"

definition filter_address :: "(address \<Rightarrow> address list \<Rightarrow> address list) \<Rightarrow> address \<Rightarrow> log_filter \<Rightarrow> log_filter" where
  "filter_address slot a f = f\<lparr>f_addresses := hash_insert slot a (f_addresses f)\<rparr>"

definition filter_topic :: "(h256 \<Rightarrow> h256 list \<Rightarrow> h256 list) \<Rightarrow> nat \<Rightarrow> h256 \<Rightarrow> log_filter \<Rightarrow> log_filter" where
  "filter_topic slot i t f = (if i < 4 then f\<lparr>f_topics := (f_topics f)[i := hash_insert slot t (f_topics f ! i)]\<rparr> else f)"

definition withEarliest :: "h256 \<Rightarrow> log_filter \<Rightarrow> log_filter" where "withEarliest e f = f\<lparr>f_earliest := e\<rparr>"
definition withLatest :: "h256 \<Rightarrow> log_filter \<Rightarrow> log_filter" where "withLatest e f = f\<lparr>f_latest := e\<rparr>"

definition filter_streamRLP :: "log_filter \<Rightarrow> rlp_stream \<Rightarrow> rlp_error + rlp_stream" where
  "filter_streamRLP f s =
     res_bind (appendList 4 s)
       (append_all [appendVector (hash_out 20) (f_addresses f), appendVector (appendVector (hash_out 32)) (f_topics f),
          hash_out 32 (f_earliest f), hash_out 32 (f_latest f)])"

definition filter_sha3 :: "log_filter \<Rightarrow> rlp_error + h256" where
  "filter_sha3 f = res_bind (res_bind (filter_streamRLP f empty_stream) stream_out) (\<lambda>b. Inr (sha3 b))"

definition isRangeFilter :: "log_filter \<Rightarrow> bool" where
  "isRangeFilter f = (f_addresses f = [] \<and> list_all (\<lambda>t. t = []) (f_topics f))"

definition matches_bloom :: "log_filter \<Rightarrow> log_bloom \<Rightarrow> bool" where
  "matches_bloom f b =
     ((f_addresses f \<noteq> [] \<longrightarrow> list_ex (\<lambda>a. contains_bloom b (sha3_address a)) (f_addresses f))
      \<and> list_all (\<lambda>t. t \<noteq> [] \<longrightarrow> list_ex (\<lambda>i. contains_bloom b (sha3_topic i)) t) (f_topics f))"

text \<open>The three cases of \<^verbatim>\<open>bloomPossibilities\<close>, each appended to what the earlier ones found.\<close>

definition topic_blooms :: "log_bloom \<Rightarrow> h256 list list \<Rightarrow> log_bloom list" where
  "topic_blooms start ts = map (\<lambda>t. fold (\<lambda>j b. shift_bloom b (sha3_topic j)) t start) (filter (\<lambda>t. t \<noteq> []) ts)"

definition bloomPossibilities :: "log_filter \<Rightarrow> log_bloom list" where
  "bloomPossibilities f =
     (let ret = concat (map (\<lambda>a. topic_blooms (shift_bloom 0 (sha3_address a)) (f_topics f)) (f_addresses f));
          ret = (if ret = [] then ret @ map (\<lambda>a. shift_bloom 0 (sha3_address a)) (f_addresses f) else ret)
      in if f_addresses f = [] then ret @ topic_blooms 0 (f_topics f) else ret)"

text \<open>
  The loop over the four sets of topics for one entry.  \<^verbatim>\<open>e.topics.size() < i\<close> lets the index that
  is one past the last topic through, and \<^verbatim>\<open>e.topics[i]\<close> then reads past the end of the vector.
\<close>

datatype filter_error = PastEnd

fun topic_loop :: "h256 list list \<Rightarrow> h256 list \<Rightarrow> nat \<Rightarrow> filter_error + bool" where
  "topic_loop [] ts i = Inr True"
| "topic_loop (m # ms) ts i =
     (if m = [] then topic_loop ms ts (Suc i)
      else if length ts < i then Inr False
      else if i < length ts then (if ts ! i \<in> set m then topic_loop ms ts (Suc i) else Inr False)
      else Inl PastEnd)"

definition entry_matches :: "log_filter \<Rightarrow> log_entry \<Rightarrow> filter_error + bool" where
  "entry_matches f e =
     (if f_addresses f \<noteq> [] \<and> log_address e \<notin> set (f_addresses f) then Inr False
      else topic_loop (f_topics f) (log_topics e) 0)"

fun matches_loop :: "log_filter \<Rightarrow> log_entry list \<Rightarrow> filter_error + log_entry list" where
  "matches_loop f [] = Inr []"
| "matches_loop f (e # es) =
     res_bind (entry_matches f e) (\<lambda>m. res_bind (matches_loop f es) (\<lambda>r. Inr (if m then e # r else r)))"

definition matches_receipt :: "log_filter \<Rightarrow> receipt \<Rightarrow> filter_error + log_entry list" where
  "matches_receipt f r =
     (if isRangeFilter f then Inr (rc_log r)
      else if matches_bloom f (rc_bloom r) then matches_loop f (rc_log r) else Inr [])"

section \<open>Which entries are wanted\<close>

text \<open>The specification: the address is one of those asked for, and each set of topics that is not empty
  has the topic at its position.\<close>

definition log_wanted :: "log_filter \<Rightarrow> log_entry \<Rightarrow> bool" where
  "log_wanted f e =
     ((f_addresses f = [] \<or> log_address e \<in> set (f_addresses f))
      \<and> (\<forall>i<length (f_topics f). f_topics f ! i = [] \<or> (i < length (log_topics e) \<and> log_topics e ! i \<in> set (f_topics f ! i))))"

lemma bloom_contains_bit: "bloom_contains b c \<longleftrightarrow> (\<forall>n. bit c n \<longrightarrow> bit b n)"
proof -
  have "b AND c = c \<longleftrightarrow> (\<forall>n. bit (b AND c) n = bit c n)" by (metis bit_eqI)
  then show ?thesis by (auto simp: bloom_contains_def bit_and_iff)
qed

lemma bloom_contains_refl [simp]: "bloom_contains b b"
  by (simp add: bloom_contains_def)

lemma bloom_contains_trans: "bloom_contains a b \<Longrightarrow> bloom_contains b c \<Longrightarrow> bloom_contains a c"
  by (simp add: bloom_contains_bit)

lemma bloom_contains_or [simp]: "bloom_contains a (b OR c) \<longleftrightarrow> bloom_contains a b \<and> bloom_contains a c"
  by (auto simp: bloom_contains_bit bit_or_iff)

lemma bloom_contains_zero [simp]: "bloom_contains a 0"
  by (simp add: bloom_contains_def)

lemma bloom_or_contains: "bloom_contains a c \<Longrightarrow> bloom_contains (a OR b) c" "bloom_contains b c \<Longrightarrow> bloom_contains (a OR b) c"
  by (auto simp: bloom_contains_bit bit_or_iff)

lemma fold_shift_contains:
  "bloom_contains a (fold (\<lambda>j b. shift_bloom b (g j)) t s) \<longleftrightarrow> bloom_contains a s \<and> (\<forall>j\<in>set t. contains_bloom a (g j))"
  by (induction t arbitrary: s) (auto simp: shift_bloom_def contains_bloom_def)

lemma log_bloom_contains:
  "bloom_contains a (log_bloom e) \<longleftrightarrow> contains_bloom a (sha3_address (log_address e)) \<and> (\<forall>t\<in>set (log_topics e). contains_bloom a (sha3_topic t))"
  by (simp add: log_bloom_def fold_shift_contains) (simp add: shift_bloom_def contains_bloom_def)

lemma fold_or_contains: "bloom_contains a (fold (\<lambda>e b. b OR g e) l s) \<longleftrightarrow> bloom_contains a s \<and> (\<forall>e\<in>set l. bloom_contains a (g e))"
  by (induction l arbitrary: s) auto

lemma logs_bloom_contains: "e \<in> set l \<Longrightarrow> bloom_contains (logs_bloom l) (log_bloom e)"
  using fold_or_contains [of "logs_bloom l" log_bloom l 0] by (simp add: logs_bloom_def)

lemma wanted_matches_bloom:
  assumes "log_wanted f e" and b: "bloom_contains b (log_bloom e)"
  shows "matches_bloom f b"
proof -
  have t: "list_ex (\<lambda>i. contains_bloom b (sha3_topic i)) t" if "t \<in> set (f_topics f)" "t \<noteq> []" for t
  proof -
    from that obtain i where "i < length (f_topics f)" "f_topics f ! i = t" by (auto simp: in_set_conv_nth)
    with assms that have "i < length (log_topics e)" "log_topics e ! i \<in> set t" by (auto simp: log_wanted_def)
    then show ?thesis using b by (auto simp: log_bloom_contains list_ex_iff)
  qed
  then show ?thesis
    using assms by (auto simp: matches_bloom_def log_wanted_def log_bloom_contains list_ex_iff list_all_iff)
qed

lemma topic_loop_wanted:
  assumes "\<And>j. j < length ms \<Longrightarrow> ms ! j \<noteq> [] \<Longrightarrow> length ts \<noteq> i + j"
  shows "topic_loop ms ts i = Inr (\<forall>j<length ms. ms ! j = [] \<or> (i + j < length ts \<and> ts ! (i + j) \<in> set (ms ! j)))"
  using assms
proof (induction ms ts i rule: topic_loop.induct)
  case (2 m ms ts i)
  have IH: "\<And>j. j < length ms \<Longrightarrow> ms ! j \<noteq> [] \<Longrightarrow> length ts \<noteq> Suc i + j" using 2(3) [of "Suc j" for j] by fastforce
  have "m \<noteq> [] \<Longrightarrow> length ts \<noteq> i" using 2(3) [of 0] by simp
  then show ?case using 2(1,2) IH by (auto simp: less_Suc_eq_0_disj)
qed simp

lemma entry_matches_wanted:
  assumes "\<And>i. i < length (f_topics f) \<Longrightarrow> f_topics f ! i \<noteq> [] \<Longrightarrow> length (log_topics e) \<noteq> i"
  shows "entry_matches f e = Inr (log_wanted f e)"
  using topic_loop_wanted [of "f_topics f" "log_topics e" 0] assms by (auto simp: entry_matches_def log_wanted_def)

lemma matches_loop_wanted:
  "(\<And>e. e \<in> set l \<Longrightarrow> entry_matches f e = Inr (log_wanted f e)) \<Longrightarrow> matches_loop f l = Inr (filter (log_wanted f) l)"
  by (induction l) simp_all

lemma range_filter_wanted: "isRangeFilter f \<Longrightarrow> log_wanted f e"
  by (auto simp: isRangeFilter_def log_wanted_def list_all_iff)

text \<open>
  C29: the bloom filter in front of the log never hides an entry.  For a receipt made from a log, the
  filter returns exactly the wanted entries in their order, as long as no entry has exactly as many
  topics as the index of a set of topics that the filter asks for.
\<close>

theorem log_filter_exact:
  assumes "\<forall>e\<in>set l. \<forall>i<length (f_topics f). f_topics f ! i \<noteq> [] \<longrightarrow> length (log_topics e) \<noteq> i"
  shows "matches_receipt f (receipt_new root gas l) = Inr (filter (log_wanted f) l)"
proof -
  have loop: "matches_loop f l = Inr (filter (log_wanted f) l)"
    using assms by (intro matches_loop_wanted entry_matches_wanted) blast
  consider "isRangeFilter f" | "\<not> isRangeFilter f" "matches_bloom f (logs_bloom l)" | "\<not> isRangeFilter f" "\<not> matches_bloom f (logs_bloom l)"
    by blast
  then show ?thesis
  proof cases
    case 1
    then show ?thesis by (simp add: matches_receipt_def receipt_new_def range_filter_wanted)
  next
    case 3
    then have "\<not> log_wanted f e" if "e \<in> set l" for e
      using wanted_matches_bloom logs_bloom_contains [OF that] by blast
    then have "filter (log_wanted f) l = []" by (simp add: filter_empty_conv)
    then show ?thesis using 3 by (simp add: matches_receipt_def receipt_new_def)
  qed (simp add: matches_receipt_def receipt_new_def loop)
qed

definition sample_filter :: log_filter where
  "sample_filter = filter_topic (#) 1 2 (filter_address (#) 7 (filter_new EarliestBlockHash PendingBlockHash))"

lemma log_filter_exact_witness:
  "matches_receipt sample_filter (receipt_new 3 21000 [sample_entry, sample_entry\<lparr>log_address := 8\<rparr>, sample_entry\<lparr>log_topics := []\<rparr>])
    = Inr [sample_entry]"
proof -
  have s: "sample_filter = \<lparr>f_addresses = [7], f_topics = [[], [2], [], []], f_earliest = 1, f_latest = 0\<rparr>"
    by (simp add: sample_filter_def filter_topic_def filter_address_def filter_new_def hash_insert_def
        EarliestBlockHash_def PendingBlockHash_def eval_nat_numeral)
  have "\<forall>e\<in>set [sample_entry, sample_entry\<lparr>log_address := 8\<rparr>, sample_entry\<lparr>log_topics := []\<rparr>].
      \<forall>i<length (f_topics sample_filter). f_topics sample_filter ! i \<noteq> [] \<longrightarrow> length (log_topics e) \<noteq> i"
    by (auto simp: s sample_entry_def less_Suc_eq)
  from log_filter_exact [OF this, of 3 21000] show ?thesis
    by (simp add: s log_wanted_def sample_entry_def less_Suc_eq)
qed

text \<open>
  C30: an entry with no topics makes a filter on the first topic read past the end of the vector.  This
  happens when the entry's own address passes the address filter (the filter names no address, or names
  this one) and some entry of the same receipt is wanted, so that the bloom filter lets the receipt
  through.  An entry without topics whose address is not among those of the filter is skipped and is
  not covered.
\<close>

theorem log_filter_past_end:
  assumes w: "e \<in> set l" "log_wanted f e" and f: "f_topics f = m # ms" "m \<noteq> []"
    and e': "e' \<in> set l" "log_topics e' = []" "f_addresses f = [] \<or> log_address e' \<in> set (f_addresses f)"
  shows "matches_receipt f (receipt_new root gas l) = Inl PastEnd"
proof -
  have "matches_bloom f (logs_bloom l)" by (rule wanted_matches_bloom [OF w(2) logs_bloom_contains [OF w(1)]])
  moreover have "\<not> isRangeFilter f" using f by (simp add: isRangeFilter_def)
  moreover have "entry_matches f e' = Inl PastEnd" using f e' by (auto simp: entry_matches_def)
  then have "matches_loop f l = Inl PastEnd"
    using e'(1)
  proof (induction l)
    case (Cons x l)
    show ?case
    proof (cases "x = e'")
      case False
      then have "matches_loop f l = Inl PastEnd" using Cons by simp
      then show ?thesis by (cases "entry_matches f x") (simp_all add: filter_error.nchotomy [THEN spec])
    qed (use Cons in simp)
  qed simp
  ultimately show ?thesis by (simp add: matches_receipt_def receipt_new_def)
qed

lemma log_filter_past_end_witness:
  "matches_receipt \<lparr>f_addresses = [], f_topics = [[1], [], [], []], f_earliest = 1, f_latest = 0\<rparr>
     (receipt_new 3 21000 [sample_entry, sample_entry\<lparr>log_topics := []\<rparr>]) = Inl PastEnd"
  by (rule log_filter_past_end [where e = sample_entry and e' = "sample_entry\<lparr>log_topics := []\<rparr>"])
    (auto simp: log_wanted_def sample_entry_def less_Suc_eq)

section \<open>The filters that the index is searched with\<close>

text \<open>Where a set of topics has one element, each combination is a consequence of a wanted entry.\<close>

definition single_topics :: "log_filter \<Rightarrow> bool" where
  "single_topics f = list_all (\<lambda>t. length t \<le> 1) (f_topics f)"

lemma topic_blooms_contains:
  "(\<exists>p\<in>set (topic_blooms s ts). bloom_contains b p) \<longleftrightarrow>
     (\<exists>t\<in>set ts. t \<noteq> [] \<and> bloom_contains b s \<and> (\<forall>j\<in>set t. contains_bloom b (sha3_topic j)))"
  by (auto simp: topic_blooms_def fold_shift_contains)

lemma topic_blooms_Nil: "topic_blooms s ts = [] \<longleftrightarrow> list_all (\<lambda>t. t = []) ts"
  by (auto simp: topic_blooms_def filter_empty_conv list_all_iff)

lemma bloomPossibilities_wanted:
  assumes w: "log_wanted f e" and r: "\<not> isRangeFilter f" and s: "single_topics f" and b: "bloom_contains b (log_bloom e)"
  shows "\<exists>p\<in>set (bloomPossibilities f). bloom_contains b p"
proof -
  note lb = log_bloom_contains [THEN iffD1, OF b]
  have topic: "\<forall>j\<in>set t. contains_bloom b (sha3_topic j)" if "t \<in> set (f_topics f)" for t
  proof
    fix j assume j: "j \<in> set t"
    from that obtain i where i: "i < length (f_topics f)" "f_topics f ! i = t" by (auto simp: in_set_conv_nth)
    with w j have "i < length (log_topics e)" "log_topics e ! i \<in> set t" by (auto simp: log_wanted_def)
    moreover have "length t \<le> 1" using s that by (simp add: single_topics_def list_all_iff)
    ultimately have "j = log_topics e ! i" using j by (cases t) auto
    then show "contains_bloom b (sha3_topic j)" using lb \<open>i < length (log_topics e)\<close> by simp
  qed
  show ?thesis
  proof (cases "f_addresses f = []")
    case True
    with r obtain t where "t \<in> set (f_topics f)" "t \<noteq> []" by (auto simp: isRangeFilter_def list_all_iff)
    then have "\<exists>p\<in>set (topic_blooms 0 (f_topics f)). bloom_contains b p" using topic by (auto simp: topic_blooms_contains)
    then show ?thesis using True by (simp add: bloomPossibilities_def)
  next
    case False
    let ?a = "log_address e"
    have a: "?a \<in> set (f_addresses f)" using w False by (simp add: log_wanted_def)
    have sa: "bloom_contains b (shift_bloom 0 (sha3_address ?a))" using lb by (simp add: shift_bloom_def contains_bloom_def)
    show ?thesis
    proof (cases "list_all (\<lambda>t. t = []) (f_topics f)")
      case True
      then have "topic_blooms s (f_topics f) = []" for s by (simp add: topic_blooms_Nil)
      then show ?thesis using False a sa by (auto simp: bloomPossibilities_def)
    next
      case F: False
      then obtain t where "t \<in> set (f_topics f)" "t \<noteq> []" by (auto simp: list_all_iff)
      then have "\<exists>p\<in>set (topic_blooms (shift_bloom 0 (sha3_address ?a)) (f_topics f)). bloom_contains b p"
        using topic sa by (auto simp: topic_blooms_contains)
      moreover have "concat (map (\<lambda>a. topic_blooms (shift_bloom 0 (sha3_address a)) (f_topics f)) (f_addresses f)) \<noteq> []"
        using F a by (auto simp: topic_blooms_Nil)
      ultimately show ?thesis using False a by (auto simp: bloomPossibilities_def Let_def)
    qed
  qed
qed

text \<open>
  With alternatives for a topic the filters for the index ask for all of them at once: a block
  passes \<^verbatim>\<open>bloomPossibilities\<close> only where its filter has both topics, while the entries of either
  are wanted and pass \<^verbatim>\<open>matches\<close>, so blocks with one of them are skipped.
\<close>

theorem bloomPossibilities_conjoins:
  "let f = filter_topic (\<lambda>x xs. xs @ [x]) 0 t (filter_topic (\<lambda>x xs. xs @ [x]) 0 s (filter_new earliest latest)) in
     ((\<exists>p\<in>set (bloomPossibilities f). bloom_contains b p) \<longleftrightarrow> contains_bloom b (sha3_topic s) \<and> contains_bloom b (sha3_topic t))
     \<and> (matches_bloom f b \<longleftrightarrow> contains_bloom b (sha3_topic s) \<or> contains_bloom b (sha3_topic t))
     \<and> log_wanted f \<lparr>log_address = a, log_topics = s # ts, log_data = d\<rparr>"
proof -
  let ?f = "filter_topic (\<lambda>x xs. xs @ [x]) 0 t (filter_topic (\<lambda>x xs. xs @ [x]) 0 s (filter_new earliest latest))"
  have f: "f_addresses ?f = []" "f_topics ?f = [if s = t then [s] else [s, t], [], [], []]"
    by (simp_all add: filter_topic_def filter_new_def hash_insert_def eval_nat_numeral)
  show ?thesis
    by (auto simp: Let_def f bloomPossibilities_def topic_blooms_def matches_bloom_def log_wanted_def less_Suc_eq
        shift_bloom_def contains_bloom_def)
qed

end
