(* ===== verification/Block_Details.thy ===== *)
theory Block_Details
  imports Log_Filter
begin

text \<open>
  \<^verbatim>\<open>libelementrem/BlockDetails.h\<close> and \<^verbatim>\<open>BlockDetails.cpp\<close>: what the chain keeps about a block
  beside the block itself, in the form of the extras database.  The memo of the size, which only the
  statistics use, is left out.
\<close>

section \<open>Structures\<close>

type_synonym uint32 = "32 word"

definition InvalidBlockNumber :: uint32 where "InvalidBlockNumber = - 1"

record block_details =
  bd_number :: uint32
  bd_totalDifficulty :: u256
  bd_parent :: h256
  bd_children :: "h256 list"

definition NullBlockDetails :: block_details where
  "NullBlockDetails = \<lparr>bd_number = InvalidBlockNumber, bd_totalDifficulty = Invalid256, bd_parent = 0, bd_children = []\<rparr>"

definition details_isNull :: "block_details \<Rightarrow> bool" where
  "details_isNull d = (bd_number d = InvalidBlockNumber)"

definition c_bloomIndexSize :: uint32 where "c_bloomIndexSize = 16"
definition c_bloomIndexLevels :: nat where "c_bloomIndexLevels = 2"

definition NullBlocksBlooms :: "log_bloom list" where
  "NullBlocksBlooms = replicate (unat c_bloomIndexSize) 0"

record transaction_address =
  ta_blockHash :: h256
  ta_index :: uint32

definition NullTransactionAddress :: transaction_address where
  "NullTransactionAddress = \<lparr>ta_blockHash = 0, ta_index = 0\<rparr>"

section \<open>Serialisation\<close>

definition details_rlp :: "block_details \<Rightarrow> rlp_error + bytes" where
  "details_rlp d =
     rlpList [append_int (unat (bd_number d)), append_int (unat (bd_totalDifficulty d)), hash_out 32 (bd_parent d),
       appendVector (hash_out 32) (bd_children d)]"

definition details_parse :: "bytes \<Rightarrow> (rlp_error + block_details) option" where
  "details_parse d =
     ofield d 0 (\<lambda>it. Some (toInt 4 it Strict)) fresh_cache (\<lambda>number c.
     ofield d 1 (\<lambda>it. Some (toInt_u256 it Strict)) c (\<lambda>td c.
     ofield d 2 (\<lambda>it. Some (as_hash 32 Strict it)) c (\<lambda>parent c.
     ofield d 3 (\<lambda>it. toVector (\<lambda>t. Some (as_hash 32 LaissezFaire t)) it LaissezFaire) c (\<lambda>children c.
       Some (Inr \<lparr>bd_number = number, bd_totalDifficulty = td, bd_parent = parent, bd_children = children\<rparr>)))))"

definition logBlooms_rlp :: "log_bloom list \<Rightarrow> rlp_error + bytes" where
  "logBlooms_rlp bs = res_bind (appendVector (hash_out 256) bs empty_stream) stream_out"

definition logBlooms_parse :: "bytes \<Rightarrow> (rlp_error + log_bloom list) option" where
  "logBlooms_parse d = toVector (\<lambda>t. Some (as_hash 256 LaissezFaire t)) d LaissezFaire"

text \<open>\<^verbatim>\<open>toArray<LogBloom, 16>\<close>; the conversions read \<^verbatim>\<open>operator[]\<close> in order.\<close>

fun array_loop :: "bytes \<Rightarrow> (bytes \<Rightarrow> rlp_error + 'a) \<Rightarrow> nat \<Rightarrow> nat \<Rightarrow> rlp_cache \<Rightarrow> rlp_error + 'a list" where
  "array_loop d conv 0 i c = Inr []"
| "array_loop d conv (Suc n) i c =
     field (\<lambda>_ e. Inl e) d i conv c (\<lambda>v c. res_bind (array_loop d conv n (Suc i) c) (\<lambda>vs. Inr (v # vs)))"

definition blocksBlooms_rlp :: "log_bloom list \<Rightarrow> rlp_error + bytes" where
  "blocksBlooms_rlp bs = res_bind (appendVector (hash_out 256) bs empty_stream) stream_out"

definition blocksBlooms_parse :: "bytes \<Rightarrow> rlp_error + log_bloom list" where
  "blocksBlooms_parse d =
     res_bind (itemCountStrict d) (\<lambda>n.
       if n \<noteq> unat c_bloomIndexSize then Inr NullBlocksBlooms
       else array_loop d (as_hash 256 LaissezFaire) (unat c_bloomIndexSize) 0 fresh_cache)"

definition blockHash_rlp :: "h256 \<Rightarrow> rlp_error + bytes" where
  "blockHash_rlp h = res_bind (hash_out 32 h empty_stream) stream_out"

definition blockHash_parse :: "bytes \<Rightarrow> rlp_error + h256" where
  "blockHash_parse d = as_hash 32 Strict d"

definition ta_rlp :: "transaction_address \<Rightarrow> rlp_error + bytes" where
  "ta_rlp a =
     res_bind (appendList 2 empty_stream) (\<lambda>s.
     res_bind (append_all [hash_out 32 (ta_blockHash a), append_int (unat (ta_index a))] s) stream_out)"

definition ta_parse :: "bytes \<Rightarrow> (rlp_error + transaction_address) option" where
  "ta_parse d =
     ofield d 0 (\<lambda>it. Some (as_hash 32 Strict it)) fresh_cache (\<lambda>h c.
     ofield d 1 (\<lambda>it. Some (toInt 4 it Strict)) c (\<lambda>i c. Some (Inr \<lparr>ta_blockHash = h, ta_index = i\<rparr>)))"

section \<open>Round trips\<close>

definition details_items :: "block_details \<Rightarrow> rlp_item list" where
  "details_items d = [int_item (unat (bd_number d)), int_item (unat (bd_totalDifficulty d)), hash_item 32 (bd_parent d),
     Items (map (hash_item 32) (bd_children d))]"

lemma bytesRequired_u32: "bytesRequired (unat (w :: uint32)) \<le> 4"
  using bytesRequired_word [of w] by simp

lemma toInt_u32_item: "toInt 4 (encode (int_item (unat (v :: uint32)))) flags = Inr v"
proof -
  have "toInt 4 (encode (int_item (unat v))) flags = (Inr (word_of_nat (unat v)) :: rlp_error + uint32)"
    by (rule toInt_item [OF bytesRequired_u32]) simp_all
  then show ?thesis by simp
qed

lemma vector_hash_item:
  assumes "size_ok (length (concat (map encode (map (hash_item 32) (hs :: h256 list)))))"
  shows "toVector (\<lambda>t. Some (as_hash 32 LaissezFaire t)) (encode (Items (map (hash_item 32) hs))) flags = Some (Inr hs)"
  by (rule toVector_encode [OF assms]) simp

lemma rlpList_encode:
  assumes fs: "list_all2 appends fs xs" and ok: "size_ok (length (concat (map encode xs)))"
  shows "rlpList fs = Inr (encode (Items xs))"
  using appends_out [OF appends_list [OF fs ok]] by (simp add: rlpList_def res_bind_assoc del: encode.simps)

lemma details_rlp_encode:
  assumes "fits (Items (details_items d))"
  shows "details_rlp d = Inr (encode (Items (details_items d)))"
  unfolding details_rlp_def
proof (rule rlpList_encode)
  have c: "size_ok (length (concat (map encode (map (hash_item 32) (bd_children d)))))"
    by (rule fits_ItemsD(1), rule fits_ItemsD(2) [OF assms]) (simp add: details_items_def)
  have "appends (appendVector (hash_out 32) (bd_children d)) (Items (map (hash_item 32) (bd_children d)))"
    by (rule appends_vector [OF _ c]) (simp add: hash_out_def appends_hash)
  then show "list_all2 appends [append_int (unat (bd_number d)), append_int (unat (bd_totalDifficulty d)), hash_out 32 (bd_parent d),
      appendVector (hash_out 32) (bd_children d)] (details_items d)"
    using bytesRequired_u32 [of "bd_number d"] by (simp add: details_items_def hash_out_def appends_hash appends_int bytesRequired_u256)
qed (rule fits_ItemsD(1) [OF assms])

lemma details_parse_encode:
  assumes "fits (Items (details_items d))"
  shows "details_parse (encode (Items (details_items d))) = Some (Inr d)"
proof -
  let ?xs = "details_items d"
  have c: "size_ok (length (concat (map encode (map (hash_item 32) (bd_children d)))))"
    by (rule fits_ItemsD(1), rule fits_ItemsD(2) [OF assms]) (simp add: details_items_def)
  have conv: "Some (toInt 4 (encode (?xs ! 0)) Strict) = Some (Inr (bd_number d))"
    "Some (toInt_u256 (encode (?xs ! 1)) Strict) = Some (Inr (bd_totalDifficulty d))"
    "Some (as_hash 32 Strict (encode (?xs ! 2))) = Some (Inr (bd_parent d))"
    "toVector (\<lambda>t. Some (as_hash 32 LaissezFaire t)) (encode (?xs ! 3)) LaissezFaire = Some (Inr (bd_children d))"
    using vector_hash_item [OF c] by (simp_all add: details_items_def toInt_u256_item toInt_u32_item del: encode.simps)
  show ?thesis
    unfolding details_parse_def
    by ((rule ofield_encode [OF fits_ItemsD(1) [OF assms]], (rule fits_ItemsD(3) [OF assms] | assumption), simp add: details_items_def, rule conv)+) simp
qed

lemma blooms_rlp:
  assumes "size_ok (length (concat (map encode (map (hash_item 256) (bs :: log_bloom list)))))"
  shows "res_bind (appendVector (hash_out 256) bs empty_stream) stream_out = Inr (encode (Items (map (hash_item 256) bs)))"
  by (rule appends_out, rule appends_vector [OF _ assms]) (simp add: hash_out_def appends_hash)

lemma logBlooms_roundtrip:
  assumes "fits (Items (map (hash_item 256) bs))"
  shows "logBlooms_rlp bs = Inr (encode (Items (map (hash_item 256) bs)))"
    and "logBlooms_parse (encode (Items (map (hash_item 256) bs))) = Some (Inr bs)"
  using blooms_rlp [OF fits_ItemsD(1) [OF assms]] toVector_encode [OF fits_ItemsD(1) [OF assms], of "\<lambda>t. Some (as_hash 256 LaissezFaire t)"]
  by (simp_all add: logBlooms_rlp_def logBlooms_parse_def del: encode.simps)

lemma array_loop_encode:
  assumes ok: "size_ok (length (concat (map encode (map g vs))))"
    and conv: "\<And>v. v \<in> set vs \<Longrightarrow> conv (encode (g v)) = Inr v"
  shows "i + n = length vs \<Longrightarrow> cache_ok (map g vs) c \<Longrightarrow> array_loop (encode (Items (map g vs))) conv n i c = Inr (drop i vs)"
proof (induction n arbitrary: i c)
  case (Suc n)
  then have i: "i < length (map g vs)" by simp
  then have v: "conv (encode (map g vs ! i)) = Inr (vs ! i)" using conv by simp
  have "array_loop (encode (Items (map g vs))) conv n (Suc i) c' = Inr (drop (Suc i) vs)" if "cache_ok (map g vs) c'" for c'
    using Suc that by simp
  then have "field (\<lambda>_ e. Inl e) (encode (Items (map g vs))) i conv c (\<lambda>v c. res_bind (array_loop (encode (Items (map g vs))) conv n (Suc i) c) (\<lambda>vs. Inr (v # vs)))
     = Inr (vs ! i # drop (Suc i) vs)"
    using v by (intro field_encode [where xs = "map g vs", OF ok Suc.prems(2) i]) simp_all
  then show ?case using i by (simp add: Cons_nth_drop_Suc del: encode.simps)
qed simp

lemma blocksBlooms_fits:
  assumes "length bs = 16" shows "fits (Items (map (hash_item 256) (bs :: log_bloom list)))"
proof -
  have "length (concat (map encode (map (hash_item 256) bs))) \<le> length bs * 265"
  proof (induction bs)
    case (Cons b bs)
    then show ?case using length_encode_bloom [of b] by (simp del: encode.simps)
  qed simp
  then show ?thesis using length_encode_Items [of "map (hash_item 256) bs"] assms by (simp add: fits_def size_ok_def del: encode.simps)
qed

text \<open>A chunk of the index always has sixteen filters, so it always survives the database.\<close>

lemma blocksBlooms_roundtrip:
  assumes n: "length bs = 16"
  shows "blocksBlooms_rlp bs = Inr (encode (Items (map (hash_item 256) bs)))"
    and "blocksBlooms_parse (encode (Items (map (hash_item 256) bs))) = Inr bs"
proof -
  note f = blocksBlooms_fits [OF n]
  note ok = fits_ItemsD(1) [OF f]
  show "blocksBlooms_rlp bs = Inr (encode (Items (map (hash_item 256) bs)))"
    unfolding blocksBlooms_rlp_def by (rule blooms_rlp [OF ok])
  have "itemCountStrict (encode (Items (map (hash_item 256) bs))) = Inr 16"
    using itemCount_Items [OF ok] isList_Items [OF ok] n by (simp add: itemCountStrict_def itemCount_def del: encode.simps)
  moreover have "array_loop (encode (Items (map (hash_item 256) bs))) (as_hash 256 LaissezFaire) 16 0 fresh_cache = Inr (drop 0 bs)"
    by (rule array_loop_encode [OF ok]) (simp_all add: n fits_ItemsD(3) [OF f])
  ultimately show "blocksBlooms_parse (encode (Items (map (hash_item 256) bs))) = Inr bs"
    by (simp add: blocksBlooms_parse_def c_bloomIndexSize_def del: encode.simps)
qed

lemma fits_hash_int:
  "fits (hash_item 32 (h :: h256))" "fits (Items [hash_item 32 (h :: h256), int_item (unat (i :: uint32))])"
proof -
  have h: "length (encode (hash_item 32 h)) \<le> 34" using length_encode_hash [of 32 h] by simp
  have i: "length (encode (int_item (unat i))) \<le> 34" using length_encode_int [of "unat i"] bytesRequired_u32 [of i] by simp
  show "fits (hash_item 32 h)" using h by (simp add: fits_def size_ok_def)
  show "fits (Items [hash_item 32 h, int_item (unat i)])"
    using length_encode_Items [of "[hash_item 32 h, int_item (unat i)]"] h i by (simp add: fits_def size_ok_def del: encode.simps)
qed

lemma blockHash_roundtrip: "\<exists>b. blockHash_rlp h = Inr b \<and> blockHash_parse b = Inr h"
proof -
  have "blockHash_rlp h = Inr (encode (hash_item 32 h))"
    unfolding blockHash_rlp_def by (rule appends_out) (simp add: hash_out_def appends_hash)
  then show ?thesis by (simp add: blockHash_parse_def)
qed

lemma ta_roundtrip: "\<exists>b. ta_rlp a = Inr b \<and> ta_parse b = Some (Inr a)"
proof -
  let ?xs = "[hash_item 32 (ta_blockHash a), int_item (unat (ta_index a))]"
  note f = fits_hash_int(2) [of "ta_blockHash a" "ta_index a"]
  note ok = fits_ItemsD(1) [OF f]
  have "list_all2 appends [hash_out 32 (ta_blockHash a), append_int (unat (ta_index a))] ?xs"
    using bytesRequired_u32 [of "ta_index a"] by (simp add: hash_out_def appends_hash appends_int)
  from rlpList_encode [OF this ok] have "ta_rlp a = Inr (encode (Items ?xs))"
    by (simp add: ta_rlp_def rlpList_def numeral_2_eq_2)
  moreover have conv: "Some (as_hash 32 Strict (encode (?xs ! 0))) = Some (Inr (ta_blockHash a))"
    "Some (toInt 4 (encode (?xs ! 1)) Strict) = Some (Inr (ta_index a))"
    by (simp_all add: toInt_u32_item del: encode.simps)
  have "ta_parse (encode (Items ?xs)) = Some (Inr a)"
    unfolding ta_parse_def
    by ((rule ofield_encode [OF ok], (rule fits_ItemsD(3) [OF f] | assumption), simp, rule conv)+) simp
  ultimately show ?thesis by blast
qed

end
