(* ===== verification/Chain_Store.thy ===== *)
theory Chain_Store
  imports Block_Details
begin

text \<open>
  The stores of \<^verbatim>\<open>libelementrem/BlockChain.h\<close> and \<^verbatim>\<open>BlockChain.cpp\<close>: the two databases, the
  caches in front of them with the sets that record their use, the head of the chain, and the lookups,
  which fill the caches as they go.  The databases hold the RLP form of the structures of
  \<open>Block_Details\<close>, whose round trips are shown there; here a database is the map of the structures
  themselves, and the extras database one map for each of its kinds of keys.
\<close>

section \<open>State\<close>

datatype extra =
  WholeBlock | ExtraDetails | ExtraBlockHash | ExtraTransactionAddress | ExtraLogBlooms | ExtraReceipts | ExtraBlocksBlooms

type_synonym cache_id = "h256 \<times> extra"

record chain =
  m_blocks :: "h256 \<Rightarrow> bytes option"
  m_details :: "h256 \<Rightarrow> block_details option"
  m_logBlooms :: "h256 \<Rightarrow> log_bloom list option"
  m_receipts :: "h256 \<Rightarrow> receipt list option"
  m_transactionAddresses :: "h256 \<Rightarrow> transaction_address option"
  m_blockHashes :: "nat \<Rightarrow> h256 option"
  m_blocksBlooms :: "h256 \<Rightarrow> log_bloom list option"
  m_cacheUsage :: "cache_id set list"
  m_inUse :: "cache_id set"
  m_lastLastHashes :: "h256 list"
  m_lastBlockHash :: h256
  m_lastBlockNumber :: nat
  m_genesisHash :: h256
  m_genesisBlock :: bytes
  m_genesisHeaderBytes :: bytes
  db_blocks :: "h256 \<Rightarrow> bytes option"
  db_details :: "h256 \<Rightarrow> block_details option"
  db_logBlooms :: "h256 \<Rightarrow> log_bloom list option"
  db_receipts :: "h256 \<Rightarrow> receipt list option"
  db_transactionAddresses :: "h256 \<Rightarrow> transaction_address option"
  db_blockHashes :: "nat \<Rightarrow> h256 option"
  db_blocksBlooms :: "h256 \<Rightarrow> log_bloom list option"
  db_best :: "h256 option"

definition c_collectionQueueSize :: nat where "c_collectionQueueSize = 20"

section \<open>Use of the caches\<close>

definition noteUsed :: "h256 \<Rightarrow> extra \<Rightarrow> chain \<Rightarrow> chain" where
  "noteUsed h e c =
     (let id = (h, e); u = (m_cacheUsage c)[0 := insert id (m_cacheUsage c ! 0)] in
      if id \<in> u ! 1 then c\<lparr>m_cacheUsage := u[1 := u ! 1 - {id}]\<rparr>
      else c\<lparr>m_cacheUsage := u, m_inUse := insert id (m_inUse c)\<rparr>)"

text \<open>\<^verbatim>\<open>garbageCollect\<close> past its two early returns, which look at the clock and at the sizes of the
  caches; \<open>due\<close> is their outcome.  Block hashes by number are not collected.\<close>

definition forget :: "cache_id set \<Rightarrow> extra \<Rightarrow> (h256 \<Rightarrow> 'a option) \<Rightarrow> h256 \<Rightarrow> 'a option" where
  "forget ids e m = (\<lambda>h. if (h, e) \<in> ids then None else m h)"

definition garbageCollect :: "bool \<Rightarrow> chain \<Rightarrow> chain" where
  "garbageCollect due c =
     (if due then
        let ids = last (m_cacheUsage c) in
        c\<lparr>m_inUse := m_inUse c - ids,
          m_blocks := forget ids WholeBlock (m_blocks c),
          m_details := forget ids ExtraDetails (m_details c),
          m_receipts := forget ids ExtraReceipts (m_receipts c),
          m_logBlooms := forget ids ExtraLogBlooms (m_logBlooms c),
          m_transactionAddresses := forget ids ExtraTransactionAddress (m_transactionAddresses c),
          m_blocksBlooms := forget ids ExtraBlocksBlooms (m_blocksBlooms c),
          m_cacheUsage := {} # butlast (m_cacheUsage c)\<rparr>
      else c)"

section \<open>Lookups\<close>

text \<open>\<^verbatim>\<open>queryExtras\<close> over a cache, its update, the database behind it and the note of the use.\<close>

definition queryExtras ::
  "(chain \<Rightarrow> 'k \<Rightarrow> 'v option) \<Rightarrow> (('k \<Rightarrow> 'v option) \<Rightarrow> chain \<Rightarrow> chain) \<Rightarrow> (chain \<Rightarrow> 'k \<Rightarrow> 'v option) \<Rightarrow> ('k \<Rightarrow> chain \<Rightarrow> chain)
    \<Rightarrow> 'v \<Rightarrow> 'k \<Rightarrow> chain \<Rightarrow> 'v \<times> chain" where
  "queryExtras cache set_cache db note null k c =
     (case cache c k of
        Some v \<Rightarrow> (v, c)
      | None \<Rightarrow> (case db c k of
          None \<Rightarrow> (null, c)
        | Some v \<Rightarrow> (v, let c = note k c in set_cache ((cache c)(k \<mapsto> v)) c)))"

definition details :: "h256 \<Rightarrow> chain \<Rightarrow> block_details \<times> chain" where
  "details = queryExtras m_details (\<lambda>m c. c\<lparr>m_details := m\<rparr>) db_details (\<lambda>h. noteUsed h ExtraDetails) NullBlockDetails"

definition logBlooms :: "h256 \<Rightarrow> chain \<Rightarrow> log_bloom list \<times> chain" where
  "logBlooms = queryExtras m_logBlooms (\<lambda>m c. c\<lparr>m_logBlooms := m\<rparr>) db_logBlooms (\<lambda>h. noteUsed h ExtraLogBlooms) []"

definition receipts :: "h256 \<Rightarrow> chain \<Rightarrow> receipt list \<times> chain" where
  "receipts = queryExtras m_receipts (\<lambda>m c. c\<lparr>m_receipts := m\<rparr>) db_receipts (\<lambda>h. noteUsed h ExtraReceipts) []"

definition txAddress :: "h256 \<Rightarrow> chain \<Rightarrow> transaction_address \<times> chain" where
  "txAddress = queryExtras m_transactionAddresses (\<lambda>m c. c\<lparr>m_transactionAddresses := m\<rparr>) db_transactionAddresses
     (\<lambda>h. noteUsed h ExtraTransactionAddress) NullTransactionAddress"

definition blocksBlooms :: "h256 \<Rightarrow> chain \<Rightarrow> log_bloom list \<times> chain" where
  "blocksBlooms = queryExtras m_blocksBlooms (\<lambda>m c. c\<lparr>m_blocksBlooms := m\<rparr>) db_blocksBlooms (\<lambda>h. noteUsed h ExtraBlocksBlooms)
     NullBlocksBlooms"

definition numberHash :: "nat \<Rightarrow> chain \<Rightarrow> h256 \<times> chain" where
  "numberHash i c =
     (if i = 0 then (m_genesisHash c, c)
      else queryExtras m_blockHashes (\<lambda>m c. c\<lparr>m_blockHashes := m\<rparr>) db_blockHashes (\<lambda>_ c. c) 0 i c)"

definition chain_number :: "h256 \<Rightarrow> chain \<Rightarrow> nat \<times> chain" where
  "chain_number h c = (let (d, c) = details h c in (unat (bd_number d), c))"

definition isKnownTransaction :: "h256 \<Rightarrow> chain \<Rightarrow> bool \<times> chain" where
  "isKnownTransaction h c = (let (a, c) = txAddress h c in (ta_blockHash a \<noteq> 0, c))"

definition transactionLocation :: "h256 \<Rightarrow> chain \<Rightarrow> (h256 \<times> uint32) \<times> chain" where
  "transactionLocation h c = (let (a, c) = txAddress h c in (if ta_blockHash a \<noteq> 0 then (ta_blockHash a, ta_index a) else (0, 0), c))"

text \<open>\<^verbatim>\<open>block\<close>; an empty result is a block that was not found.\<close>

definition chain_block :: "h256 \<Rightarrow> chain \<Rightarrow> bytes \<times> chain" where
  "chain_block h c =
     (if h = m_genesisHash c then (m_genesisBlock c, c)
      else case m_blocks c h of
        Some b \<Rightarrow> (b, c)
      | None \<Rightarrow> (case db_blocks c h of
          None \<Rightarrow> ([], c)
        | Some b \<Rightarrow> if b = [] then ([], c) else (b, let c = noteUsed h WholeBlock c in c\<lparr>m_blocks := (m_blocks c)(h \<mapsto> b)\<rparr>)))"

definition headerData :: "h256 \<Rightarrow> chain \<Rightarrow> (block_error + bytes) \<times> chain" where
  "headerData h c =
     (if h = m_genesisHash c then (Inr (m_genesisHeaderBytes c), c)
      else case m_blocks c h of
        Some b \<Rightarrow> (extractHeader b, c)
      | None \<Rightarrow> (case db_blocks c h of
          None \<Rightarrow> (Inr [], c)
        | Some b \<Rightarrow> if b = [] then (Inr [], c)
            else (extractHeader b, let c = noteUsed h WholeBlock c in c\<lparr>m_blocks := (m_blocks c)(h \<mapsto> b)\<rparr>)))"

definition chain_info :: "h256 \<Rightarrow> chain \<Rightarrow> (block_error + block_header) \<times> chain" where
  "chain_info h c = (case headerData h c of (r, c) \<Rightarrow> (res_bind r (\<lambda>b. header_new b HeaderData 0), c))"

definition isKnown :: "h256 \<Rightarrow> bool \<Rightarrow> chain \<Rightarrow> bool \<times> chain" where
  "isKnown h isCurrent c =
     (if h = m_genesisHash c then (True, c)
      else if m_blocks c h = None \<and> (db_blocks c h = None \<or> db_blocks c h = Some []) then (False, c)
      else if m_details c h = None \<and> db_details c h = None then (False, c)
      else if \<not> isCurrent then (True, c)
      else (case details h c of (d, c) \<Rightarrow> (unat (bd_number d) \<le> m_lastBlockNumber c, c)))"

text \<open>\<^verbatim>\<open>close\<close>, without the closing of the files\<close>

definition chain_close :: "chain \<Rightarrow> chain" where
  "chain_close c =
     c\<lparr>m_lastBlockHash := m_genesisHash c, m_lastBlockNumber := 0, m_details := (\<lambda>_. None), m_blocks := (\<lambda>_. None),
       m_logBlooms := (\<lambda>_. None), m_receipts := (\<lambda>_. None), m_transactionAddresses := (\<lambda>_. None), m_blockHashes := (\<lambda>_. None),
       m_blocksBlooms := (\<lambda>_. None), m_cacheUsage := [], m_inUse := {}, m_lastLastHashes := []\<rparr>"

text \<open>\<^verbatim>\<open>init\<close> and \<^verbatim>\<open>open\<close> on the databases of a chain that was closed; \<open>d0\<close> is the difficulty of
  the genesis block.\<close>

definition chain_open :: "u256 \<Rightarrow> chain \<Rightarrow> chain" where
  "chain_open d0 c =
     (let c = c\<lparr>m_cacheUsage := replicate c_collectionQueueSize {}\<rparr>;
          (d, c) = details (m_genesisHash c) c;
          g = \<lparr>bd_number = 0, bd_totalDifficulty = d0, bd_parent = 0, bd_children = []\<rparr>;
          c = (if details_isNull d then
                 c\<lparr>m_details := (m_details c)(m_genesisHash c \<mapsto> g), db_details := (db_details c)(m_genesisHash c \<mapsto> g)\<rparr>
               else c);
          c = c\<lparr>m_lastBlockHash := (case db_best c of None \<Rightarrow> m_genesisHash c | Some h \<Rightarrow> h)\<rparr>;
          (n, c) = chain_number (m_lastBlockHash c) c
      in c\<lparr>m_lastBlockNumber := n\<rparr>)"

section \<open>Lookups are transparent\<close>

text \<open>\<open>reads c c'\<close>: from \<open>c\<close> to \<open>c'\<close> the caches were filled from the databases, or the memo of the last
  hashes, and nothing else happened.\<close>

definition fills :: "('k \<Rightarrow> 'v option) \<Rightarrow> ('k \<Rightarrow> 'v option) \<Rightarrow> ('k \<Rightarrow> 'v option) \<Rightarrow> bool" where
  "fills db m m' = (\<forall>k. m' k = m k \<or> (m k = None \<and> m' k = db k))"

definition frame :: "chain \<Rightarrow> chain \<Rightarrow> bool" where
  "frame c c' =
     (m_lastBlockHash c' = m_lastBlockHash c \<and> m_lastBlockNumber c' = m_lastBlockNumber c
      \<and> m_genesisHash c' = m_genesisHash c \<and> m_genesisBlock c' = m_genesisBlock c \<and> m_genesisHeaderBytes c' = m_genesisHeaderBytes c
      \<and> db_blocks c' = db_blocks c \<and> db_details c' = db_details c \<and> db_logBlooms c' = db_logBlooms c \<and> db_receipts c' = db_receipts c
      \<and> db_transactionAddresses c' = db_transactionAddresses c \<and> db_blockHashes c' = db_blockHashes c
      \<and> db_blocksBlooms c' = db_blocksBlooms c \<and> db_best c' = db_best c)"

definition reads :: "chain \<Rightarrow> chain \<Rightarrow> bool" where
  "reads c c' =
     (frame c c' \<and> fills (db_blocks c) (m_blocks c) (m_blocks c') \<and> fills (db_details c) (m_details c) (m_details c')
      \<and> fills (db_logBlooms c) (m_logBlooms c) (m_logBlooms c') \<and> fills (db_receipts c) (m_receipts c) (m_receipts c')
      \<and> fills (db_transactionAddresses c) (m_transactionAddresses c) (m_transactionAddresses c')
      \<and> fills (db_blockHashes c) (m_blockHashes c) (m_blockHashes c')
      \<and> fills (db_blocksBlooms c) (m_blocksBlooms c) (m_blocksBlooms c'))"

lemma fills_refl [simp]: "fills db m m"
  by (simp add: fills_def)

lemma fills_trans: "fills db m m' \<Longrightarrow> fills db m' m'' \<Longrightarrow> fills db m m''"
  unfolding fills_def by metis

lemma fills_upd [simp]: "m k = None \<Longrightarrow> db k = Some v \<Longrightarrow> fills db m (m(k \<mapsto> v))"
  by (simp add: fills_def)

lemma reads_refl [simp]: "reads c c"
  by (simp add: reads_def frame_def)

lemma reads_trans [trans]: "reads c c' \<Longrightarrow> reads c' c'' \<Longrightarrow> reads c c''"
  unfolding reads_def frame_def by (elim conjE, intro conjI) (simp_all, (erule fills_trans, assumption)+)

lemma noteUsed_simps [simp]:
  "m_blocks (noteUsed h e c) = m_blocks c" "m_details (noteUsed h e c) = m_details c" "m_logBlooms (noteUsed h e c) = m_logBlooms c"
  "m_receipts (noteUsed h e c) = m_receipts c" "m_transactionAddresses (noteUsed h e c) = m_transactionAddresses c"
  "m_blockHashes (noteUsed h e c) = m_blockHashes c" "m_blocksBlooms (noteUsed h e c) = m_blocksBlooms c"
  "m_lastLastHashes (noteUsed h e c) = m_lastLastHashes c" "m_lastBlockHash (noteUsed h e c) = m_lastBlockHash c"
  "m_lastBlockNumber (noteUsed h e c) = m_lastBlockNumber c" "m_genesisHash (noteUsed h e c) = m_genesisHash c"
  "m_genesisBlock (noteUsed h e c) = m_genesisBlock c" "m_genesisHeaderBytes (noteUsed h e c) = m_genesisHeaderBytes c"
  "db_blocks (noteUsed h e c) = db_blocks c" "db_details (noteUsed h e c) = db_details c" "db_logBlooms (noteUsed h e c) = db_logBlooms c"
  "db_receipts (noteUsed h e c) = db_receipts c" "db_transactionAddresses (noteUsed h e c) = db_transactionAddresses c"
  "db_blockHashes (noteUsed h e c) = db_blockHashes c" "db_blocksBlooms (noteUsed h e c) = db_blocksBlooms c" "db_best (noteUsed h e c) = db_best c"
  by (simp_all add: noteUsed_def Let_def)

text \<open>What a lookup finds: the cache, then the database, then nothing.\<close>

definition through :: "('k \<Rightarrow> 'v option) \<Rightarrow> ('k \<Rightarrow> 'v option) \<Rightarrow> 'v \<Rightarrow> 'k \<Rightarrow> 'v" where
  "through m db null k = (case m k of Some v \<Rightarrow> v | None \<Rightarrow> (case db k of Some v \<Rightarrow> v | None \<Rightarrow> null))"

lemma through_fills: "fills db m m' \<Longrightarrow> through m' db null k = through m db null k"
  unfolding fills_def through_def by (drule spec [of _ k]) (auto split: option.splits)

lemma through_db: "(m k = None \<or> m k = db k) \<Longrightarrow> db k = Some v \<Longrightarrow> through m db null k = v"
  by (auto simp: through_def)

definition det :: "chain \<Rightarrow> h256 \<Rightarrow> block_details" where
  "det c = through (m_details c) (db_details c) NullBlockDetails"

definition chunk :: "chain \<Rightarrow> h256 \<Rightarrow> log_bloom list" where
  "chunk c = through (m_blocksBlooms c) (db_blocksBlooms c) NullBlocksBlooms"

definition blk :: "chain \<Rightarrow> h256 \<Rightarrow> bytes" where
  "blk c h = (if h = m_genesisHash c then m_genesisBlock c else through (m_blocks c) (db_blocks c) [] h)"

definition hash_at :: "chain \<Rightarrow> nat \<Rightarrow> h256" where
  "hash_at c i = (if i = 0 then m_genesisHash c else through (m_blockHashes c) (db_blockHashes c) 0 i)"

named_theorems chain_reads \<open>what a lookup of the chain returns, and that it only fills caches\<close>

lemma details_val [chain_reads]: "fst (details h c) = det c h"
  by (simp add: details_def queryExtras_def det_def through_def split: option.splits)

lemma details_reads [chain_reads]: "reads c (snd (details h c))"
  by (auto simp: details_def queryExtras_def reads_def frame_def Let_def split: option.splits)

lemma blocksBlooms_val [chain_reads]: "fst (blocksBlooms h c) = chunk c h"
  by (simp add: blocksBlooms_def queryExtras_def chunk_def through_def split: option.splits)

lemma blocksBlooms_reads [chain_reads]: "reads c (snd (blocksBlooms h c))"
  by (auto simp: blocksBlooms_def queryExtras_def reads_def frame_def Let_def split: option.splits)

lemma receipts_reads [chain_reads]: "reads c (snd (receipts h c))"
  by (auto simp: receipts_def queryExtras_def reads_def frame_def Let_def split: option.splits)

lemma logBlooms_reads [chain_reads]: "reads c (snd (logBlooms h c))"
  by (auto simp: logBlooms_def queryExtras_def reads_def frame_def Let_def split: option.splits)

lemma txAddress_reads [chain_reads]: "reads c (snd (txAddress h c))"
  by (auto simp: txAddress_def queryExtras_def reads_def frame_def Let_def split: option.splits)

lemma numberHash_val [chain_reads]: "fst (numberHash i c) = hash_at c i"
  by (simp add: numberHash_def queryExtras_def hash_at_def through_def split: option.splits)

lemma numberHash_reads [chain_reads]: "reads c (snd (numberHash i c))"
  by (auto simp: numberHash_def queryExtras_def reads_def frame_def split: option.splits)

lemma chain_number_val [chain_reads]: "fst (chain_number h c) = unat (bd_number (det c h))"
  by (simp add: chain_number_def split_def chain_reads)

lemma chain_number_reads [chain_reads]: "reads c (snd (chain_number h c))"
  by (simp add: chain_number_def split_def chain_reads)

lemma chain_block_val [chain_reads]: "fst (chain_block h c) = blk c h"
  by (auto simp: chain_block_def blk_def through_def split: option.splits)

lemma chain_block_reads [chain_reads]: "reads c (snd (chain_block h c))"
  by (auto simp: chain_block_def reads_def frame_def Let_def split: option.splits)

lemma headerData_reads [chain_reads]: "reads c (snd (headerData h c))"
  by (auto simp: headerData_def reads_def frame_def Let_def split: option.splits)

lemma chain_info_reads [chain_reads]: "reads c (snd (chain_info h c))"
  by (simp add: chain_info_def split_def chain_reads)

lemma isKnown_reads [chain_reads]: "reads c (snd (isKnown h b c))"
  by (simp add: isKnown_def split_def chain_reads)

lemma reads_views [simp]:
  assumes "reads c c'"
  shows "det c' = det c" "chunk c' = chunk c" "blk c' = blk c" "hash_at c' = hash_at c"
  using assms by (auto simp: reads_def frame_def det_def chunk_def blk_def hash_at_def through_fills intro!: ext)

lemma reads_frame: "reads c c' \<Longrightarrow> frame c c'"
  by (simp add: reads_def)

end
