(* ===== verification/Tree_Route.thy ===== *)
theory Tree_Route
  imports Chain_Store
begin

text \<open>
  \<^verbatim>\<open>BlockChain::treeRoute\<close>: the way between two blocks over their latest common ancestor, and
  \<^verbatim>\<open>lastHashes\<close> and \<^verbatim>\<open>allKinFrom\<close>, which walk up the tree as well.  The numbers are the
  \<^verbatim>\<open>unsigned\<close> of the code; the decrements after the last comparison have no effect and are left out.
\<close>

section \<open>The operations\<close>

function up_loop :: "bool \<Rightarrow> nat \<Rightarrow> nat \<Rightarrow> h256 \<Rightarrow> h256 list \<Rightarrow> chain \<Rightarrow> h256 \<times> h256 list \<times> chain" where
  "up_loop keep n m h ret c =
     (if n > m then
        let (d, c) = details h c in up_loop keep (n - 1) m (bd_parent d) (if keep then ret @ [h] else ret) c
      else (h, ret, c))"
  by pat_completeness auto

termination up_loop
  by (relation "measure (\<lambda>(keep, n, m, h, ret, c). n - m)") auto

declare up_loop.simps [simp del]

text \<open>The last loop, which ends only where the two ways meet.\<close>

partial_function (option) meet_loop ::
  "bool \<Rightarrow> bool \<Rightarrow> bool \<Rightarrow> h256 \<Rightarrow> h256 \<Rightarrow> h256 list \<Rightarrow> h256 list \<Rightarrow> chain \<Rightarrow> (h256 list \<times> h256 list \<times> h256 \<times> chain) option" where
  "meet_loop comm pre post from to ret bk c =
     (let ret = (if pre \<and> (from \<noteq> to \<or> comm) then ret @ [from] else ret);
          bk = (if post \<and> (from \<noteq> to \<or> (\<not> pre \<and> comm)) then bk @ [to] else bk) in
      if from = to then Some (ret, bk, from, c)
      else
        let (d, c) = details from c; (e, c) = details to c in
        meet_loop comm pre post (bd_parent d) (bd_parent e) ret bk c)"

definition treeRoute ::
  "h256 \<Rightarrow> h256 \<Rightarrow> bool \<Rightarrow> bool \<Rightarrow> bool \<Rightarrow> chain \<Rightarrow> ((h256 list \<times> h256 \<times> nat) \<times> chain) option" where
  "treeRoute from to comm pre post c =
     (if from = 0 \<or> to = 0 then Some (([], 0, 0), c)
      else
        let (fd, c) = details from c; (td, c) = details to c;
            fn = unat (bd_number fd); tn = unat (bd_number td);
            (from, ret, c) = up_loop pre fn tn from [] c;
            (to, bk, c) = up_loop post tn (min fn tn) to [] c in
        case meet_loop comm pre post from to ret bk c of
          None \<Rightarrow> None
        | Some (ret, bk, from, c) \<Rightarrow>
            Some ((ret @ rev bk, from, length ret - (if comm \<and> ret \<noteq> [] \<and> bk \<noteq> [] then 1 else 0)), c))"

text \<open>\<^verbatim>\<open>lastHashes\<close>: the memo is kept when its last element is the block asked for.\<close>

fun last_loop :: "nat \<Rightarrow> h256 \<Rightarrow> chain \<Rightarrow> (block_error + h256 list) \<times> chain" where
  "last_loop 0 h c = (Inr [h], c)"
| "last_loop (Suc n) h c =
     (if h = 0 then (case last_loop n 0 c of (r, c) \<Rightarrow> (res_bind r (\<lambda>l. Inr (h # l)), c))
      else case chain_info h c of
        (Inl e, c) \<Rightarrow> (Inl e, c)
      | (Inr i, c) \<Rightarrow> (case last_loop n (h_parentHash i) c of (r, c) \<Rightarrow> (res_bind r (\<lambda>l. Inr (h # l)), c)))"

definition lastHashes :: "h256 \<Rightarrow> chain \<Rightarrow> (block_error + h256 list) \<times> chain" where
  "lastHashes parent c =
     (if m_lastLastHashes c = [] \<or> last (m_lastLastHashes c) \<noteq> parent then
        case last_loop 255 parent c of
          (Inl e, c) \<Rightarrow> (Inl e, c)
        | (Inr l, c) \<Rightarrow> (Inr l, c\<lparr>m_lastLastHashes := l\<rparr>)
      else (Inr (m_lastLastHashes c), c))"

text \<open>\<^verbatim>\<open>allKinFrom\<close>: \<open>uncles\<close> are the hashes of the uncles in a block.\<close>

definition block_uncles :: "bytes \<Rightarrow> (rlp_error + h256 list) option" where
  "block_uncles b =
     (case rlp_new b VeryStrict of
        Inl e \<Rightarrow> Some (Inl e)
      | Inr d \<Rightarrow> ofield d 2 (\<lambda>it. for_each (\<lambda>u. Some (Inr (sha3 u))) it) fresh_cache (\<lambda>us c. Some (Inr us)))"

fun kin_loop :: "nat \<Rightarrow> h256 \<Rightarrow> h256 set \<Rightarrow> chain \<Rightarrow> (rlp_error + h256 set) option \<times> chain" where
  "kin_loop 0 p ret c = (Some (Inr ret), c)"
| "kin_loop (Suc n) p ret c =
     (if p = m_genesisHash c then (Some (Inr ret), c)
      else
        let (d, c) = details p c; (b, c) = chain_block p c in
        case block_uncles b of
          None \<Rightarrow> (None, c)
        | Some (Inl e) \<Rightarrow> (Some (Inl e), c)
        | Some (Inr us) \<Rightarrow> (let (d, c) = details p c in kin_loop n (bd_parent d) (insert (bd_parent d) ret \<union> set us) c))"

definition allKinFrom :: "h256 \<Rightarrow> nat \<Rightarrow> chain \<Rightarrow> (rlp_error + h256 set) option \<times> chain" where
  "allKinFrom p generations c = kin_loop generations p {p} c"

section \<open>Trees of blocks\<close>

definition known :: "chain \<Rightarrow> h256 \<Rightarrow> bool" where "known c h = (\<not> details_isNull (det c h))"
definition num :: "chain \<Rightarrow> h256 \<Rightarrow> nat" where "num c h = unat (bd_number (det c h))"
definition par :: "chain \<Rightarrow> h256 \<Rightarrow> h256" where "par c h = bd_parent (det c h)"
definition anc :: "chain \<Rightarrow> h256 \<Rightarrow> nat \<Rightarrow> h256" where "anc c h n = (par c ^^ n) h"

text \<open>Every known block but the first has a known parent, one number below its own.\<close>

definition tree_ok :: "chain \<Rightarrow> bool" where
  "tree_ok c =
     (known c (m_genesisHash c) \<and> num c (m_genesisHash c) = 0
      \<and> (\<forall>h. known c h \<longrightarrow> h \<noteq> 0 \<and> (h \<noteq> m_genesisHash c \<longrightarrow> known c (par c h) \<and> num c h = Suc (num c (par c h)))))"

lemma anc_0 [simp]: "anc c h 0 = h"
  by (simp add: anc_def)

lemma anc_Suc: "anc c h (Suc n) = par c (anc c h n)" and anc_par: "anc c (par c h) n = anc c h (Suc n)"
  by (simp_all add: anc_def funpow_swap1)

lemma anc_add: "anc c (anc c h n) m = anc c h (n + m)"
  by (simp add: anc_def funpow_add funpow_swap1 add.commute)

lemma tree_okD:
  assumes "tree_ok c" and "known c h"
  shows "h \<noteq> 0" and "h \<noteq> m_genesisHash c \<Longrightarrow> known c (par c h)" and "h \<noteq> m_genesisHash c \<Longrightarrow> num c h = Suc (num c (par c h))"
    and "num c h = 0 \<longleftrightarrow> h = m_genesisHash c"
  using assms by (auto simp: tree_ok_def)

lemma anc_known:
  assumes "tree_ok c" and "known c h"
  shows "n \<le> num c h \<Longrightarrow> known c (anc c h n) \<and> num c (anc c h n) = num c h - n"
proof (induction n)
  case (Suc n)
  then have k: "known c (anc c h n)" "num c (anc c h n) = num c h - n" by simp_all
  then have "anc c h n \<noteq> m_genesisHash c" using tree_okD(4) [OF assms(1) k(1)] Suc.prems by simp
  then show ?case using tree_okD(2,3) [OF assms(1) k(1)] k(2) Suc.prems by (simp add: anc_Suc)
qed (simp add: assms)

lemma anc_genesis:
  assumes "tree_ok c" and "known c h" shows "anc c h (num c h) = m_genesisHash c"
  using anc_known [OF assms, of "num c h"] tree_okD(4) [OF assms(1), of "anc c h (num c h)"] by simp

lemma reads_tree [simp]:
  assumes "reads c c'"
  shows "known c' = known c" "num c' = num c" "par c' = par c" "anc c' = anc c" "m_genesisHash c' = m_genesisHash c"
proof -
  show p: "par c' = par c" using assms by (auto simp: par_def fun_eq_iff)
  show "anc c' = anc c" by (simp add: anc_def fun_eq_iff p)
qed (use assms reads_frame [OF assms] in \<open>auto simp: known_def num_def fun_eq_iff frame_def\<close>)

lemma details_eq: obtains c' where "details h c = (det c h, c')" and "reads c c'"
  using details_val [of h c] details_reads [of c h] by (metis prod.collapse)

section \<open>The route\<close>

lemma up_loop_anc:
  "m \<le> n \<Longrightarrow> \<exists>c'. up_loop keep n m h ret c = (anc c h (n - m), ret @ (if keep then map (anc c h) [0..<n - m] else []), c') \<and> reads c c'"
proof (induction "n - m" arbitrary: n h ret c)
  case 0
  then show ?case by (simp add: up_loop.simps)
next
  case (Suc k)
  then have n: "n > m" and k: "k = n - 1 - m" "m \<le> n - 1" and s: "n - m = Suc k" by auto
  obtain c1 where d: "details h c = (det c h, c1)" and r: "reads c c1" by (rule details_eq)
  let ?ret = "if keep then ret @ [h] else ret"
  obtain c' where u: "up_loop keep (n - 1) m (par c h) ?ret c1
      = (anc c1 (par c h) k, ?ret @ (if keep then map (anc c1 (par c h)) [0..<k] else []), c')" and r': "reads c1 c'"
    using Suc(1) [OF k(1) k(2), of "par c h" ?ret c1] k(1) by blast
  have "up_loop keep n m h ret c = up_loop keep (n - 1) m (par c h) ?ret c1"
    using n d by (subst up_loop.simps) (simp add: par_def)
  then show ?case
    unfolding s map_upt_Suc u using r reads_trans [OF r r'] by (intro exI [of _ c']) (simp add: anc_par map_upt_Suc del: upt_Suc)
qed

lemma meet_loop_anc:
  assumes "anc c f m = anc c t m" and "\<And>i. i < m \<Longrightarrow> anc c f i \<noteq> anc c t i"
  shows "\<exists>c'. meet_loop comm pre post f t ret bk c =
      Some (ret @ (if pre then map (anc c f) [0..<m] @ (if comm then [anc c f m] else []) else []),
            bk @ (if post then map (anc c t) [0..<m] @ (if \<not> pre \<and> comm then [anc c t m] else []) else []), anc c f m, c') \<and> reads c c'"
  using assms
proof (induction m arbitrary: f t ret bk c)
  case 0
  then show ?case by (subst meet_loop.simps) auto
next
  case (Suc m)
  have ne: "f \<noteq> t" using Suc.prems(2) [of 0] by simp
  obtain c1 where d: "details f c = (det c f, c1)" and r1: "reads c c1" by (rule details_eq)
  obtain c2 where e: "details t c1 = (det c1 t, c2)" and r2: "reads c1 c2" by (rule details_eq)
  note r = reads_trans [OF r1 r2]
  let ?ret = "if pre then ret @ [f] else ret" and ?bk = "if post then bk @ [t] else bk"
  have "\<exists>c'. meet_loop comm pre post (par c f) (par c t) ?ret ?bk c2 =
      Some (?ret @ (if pre then map (anc c2 (par c f)) [0..<m] @ (if comm then [anc c2 (par c f) m] else []) else []),
            ?bk @ (if post then map (anc c2 (par c t)) [0..<m] @ (if \<not> pre \<and> comm then [anc c2 (par c t) m] else []) else []),
            anc c2 (par c f) m, c') \<and> reads c2 c'"
  proof (rule Suc.IH)
    show "anc c2 (par c f) m = anc c2 (par c t) m" using Suc.prems(1) r by (simp add: anc_par)
    show "anc c2 (par c f) i \<noteq> anc c2 (par c t) i" if "i < m" for i using Suc.prems(2) [of "Suc i"] that r by (simp add: anc_par)
  qed
  then obtain c' where m: "meet_loop comm pre post (par c f) (par c t) ?ret ?bk c2 =
      Some (?ret @ (if pre then map (anc c (par c f)) [0..<m] @ (if comm then [anc c (par c f) m] else []) else []),
            ?bk @ (if post then map (anc c (par c t)) [0..<m] @ (if \<not> pre \<and> comm then [anc c (par c t) m] else []) else []),
            anc c (par c f) m, c')" "reads c2 c'"
    using r by auto
  have s: "meet_loop comm pre post f t ret bk c = meet_loop comm pre post (par c f) (par c t) ?ret ?bk c2"
    using ne d e r1 by (subst meet_loop.simps) (simp add: par_def [symmetric] cong: if_cong)
  show ?case
    unfolding s m(1) map_upt_Suc using reads_trans [OF r m(2)]
    by (intro exI [of _ c']) (simp add: anc_par map_upt_Suc del: upt_Suc)
qed

lemma map_anc_append: "map (anc c h) [0..<p] @ map (anc c (anc c h p)) [0..<q] = map (anc c h) [0..<p + q]"
  by (induction q) (simp_all add: anc_add)

text \<open>The two numbers of steps to the latest common ancestor.\<close>

definition meets :: "chain \<Rightarrow> h256 \<Rightarrow> h256 \<Rightarrow> nat \<Rightarrow> nat \<Rightarrow> bool" where
  "meets c f t a b =
     (a \<le> num c f \<and> b \<le> num c t \<and> anc c f a = anc c t b
      \<and> (\<forall>i j. i \<le> num c f \<longrightarrow> j \<le> num c t \<longrightarrow> anc c f i = anc c t j \<longrightarrow> a \<le> i \<and> b \<le> j))"

lemma meets_unique: "meets c f t a b \<Longrightarrow> meets c f t a' b' \<Longrightarrow> a' = a \<and> b' = b"
  unfolding meets_def by (meson le_antisym)

lemma meeting_point:
  assumes t: "tree_ok c" and f: "known c from" and k: "known c to"
  obtains m where "meets c from to (num c from - min (num c from) (num c to) + m) (num c to - min (num c from) (num c to) + m)"
    and "anc c (anc c from (num c from - min (num c from) (num c to))) m = anc c (anc c to (num c to - min (num c from) (num c to))) m"
    and "\<And>i. i < m \<Longrightarrow> anc c (anc c from (num c from - min (num c from) (num c to))) i \<noteq> anc c (anc c to (num c to - min (num c from) (num c to))) i"
proof -
  let ?k = "min (num c from) (num c to)"
  let ?f = "anc c from (num c from - ?k)" and ?t = "anc c to (num c to - ?k)"
  define P where "P = (\<lambda>i. anc c ?f i = anc c ?t i)"
  have "P ?k" using anc_genesis [OF t f] anc_genesis [OF t k] by (simp add: P_def anc_add)
  then have P: "P (LEAST i. P i)" and le: "(LEAST i. P i) \<le> ?k" and least: "\<And>i. P i \<Longrightarrow> (LEAST i. P i) \<le> i"
    using LeastI [of P] Least_le [of P] by blast+
  let ?m = "LEAST i. P i"
  have "num c from - ?k + ?m \<le> i \<and> num c to - ?k + ?m \<le> j" if i: "i \<le> num c from" and j: "j \<le> num c to" and eq: "anc c from i = anc c to j" for i j
  proof -
    have n: "num c from - i = num c to - j" using anc_known [OF t f i] anc_known [OF t k j] eq by simp
    let ?i = "?k - (num c from - i)"
    have "num c from - ?k + ?i = i" "num c to - ?k + ?i = j" using i j n by (auto simp: min_def split: if_splits)
    then have "P ?i" using eq by (simp add: P_def anc_add)
    then show ?thesis using least [of ?i] \<open>num c from - ?k + ?i = i\<close> \<open>num c to - ?k + ?i = j\<close> by linarith
  qed
  moreover have "num c from - ?k + ?m \<le> num c from" "num c to - ?k + ?m \<le> num c to" using le by linarith+
  moreover have "anc c from (num c from - ?k + ?m) = anc c to (num c to - ?k + ?m)" using P unfolding P_def anc_add .
  ultimately have "meets c from to (num c from - ?k + ?m) (num c to - ?k + ?m)"
    unfolding meets_def by blast
  moreover have "\<not> P i" if "i < ?m" for i using that by (rule not_less_Least)
  ultimately show thesis using that [of ?m] P unfolding P_def by blast
qed

lemma treeRoute_meets:
  assumes t: "tree_ok c" and f: "known c from" and k: "known c to"
  shows "\<exists>a b c'. meets c from to a b \<and> reads c c'
    \<and> treeRoute from to comm pre post c =
        (let ret = (if pre then map (anc c from) [0..<a] @ (if comm then [anc c from a] else []) else []);
             bk = (if post then map (anc c to) [0..<b] @ (if \<not> pre \<and> comm then [anc c to b] else []) else [])
         in Some ((ret @ rev bk, anc c from a, if comm \<and> ret \<noteq> [] \<and> bk \<noteq> [] then length ret - 1 else length ret), c'))"
proof -
  let ?k = "min (num c from) (num c to)"
  let ?f = "anc c from (num c from - ?k)" and ?t = "anc c to (num c to - ?k)"
  obtain m where m: "meets c from to (num c from - ?k + m) (num c to - ?k + m)" "anc c ?f m = anc c ?t m"
    "\<And>i. i < m \<Longrightarrow> anc c ?f i \<noteq> anc c ?t i"
    by (rule meeting_point [OF t f k]) blast
  let ?a = "num c from - ?k + m" and ?b = "num c to - ?k + m"
  obtain c1 where d1: "details from c = (det c from, c1)" and r1: "reads c c1" by (rule details_eq)
  obtain c2 where d2: "details to c1 = (det c to, c2)" and r2: "reads c c2"
    proof -
    obtain c2 where "details to c1 = (det c1 to, c2)" "reads c1 c2" by (rule details_eq)
    then show thesis using that [of c2] reads_trans [OF r1] reads_views(1) [OF r1] by simp
  qed
  have n: "num c from - num c to = num c from - ?k" by simp
  have up: "\<exists>c'. up_loop keep n' m' h [] c0 = (anc c0 h (n' - m'), (if keep then map (anc c0 h) [0..<n' - m'] else []), c') \<and> reads c0 c'"
    for keep n' m' h c0
    using up_loop_anc [of m' n' keep h "[]" c0] by (cases "m' \<le> n'") (auto simp: up_loop.simps [of keep n' m'])
  obtain c3 where "up_loop pre (num c from) (num c to) from [] c2
      = (anc c2 from (num c from - num c to), (if pre then map (anc c2 from) [0..<num c from - num c to] else []), c3)" and "reads c2 c3"
    using up by blast
  then have u1: "up_loop pre (num c from) (num c to) from [] c2 = (?f, (if pre then map (anc c from) [0..<num c from - ?k] else []), c3)" and r3: "reads c c3"
    unfolding n reads_tree(4) [OF r2] using reads_trans [OF r2] by simp_all
  obtain c4 where "up_loop post (num c to) ?k to [] c3 = (anc c3 to (num c to - ?k), (if post then map (anc c3 to) [0..<num c to - ?k] else []), c4)"
      and "reads c3 c4"
    using up by blast
  then have u2: "up_loop post (num c to) ?k to [] c3 = (?t, (if post then map (anc c to) [0..<num c to - ?k] else []), c4)" and r4: "reads c c4"
    unfolding reads_tree(4) [OF r3] using reads_trans [OF r3] by simp_all
  let ?r = "if pre then map (anc c from) [0..<num c from - ?k] else []" and ?s = "if post then map (anc c to) [0..<num c to - ?k] else []"
  obtain c5 where l: "meet_loop comm pre post ?f ?t ?r ?s c4 =
      Some (?r @ (if pre then map (anc c ?f) [0..<m] @ (if comm then [anc c ?f m] else []) else []),
            ?s @ (if post then map (anc c ?t) [0..<m] @ (if \<not> pre \<and> comm then [anc c ?t m] else []) else []), anc c ?f m, c5)" and r5: "reads c c5"
    using meet_loop_anc [of c4 ?f m ?t comm pre post ?r ?s, unfolded reads_tree(4) [OF r4]] m(2,3) reads_trans [OF r4] by blast
  have "from \<noteq> 0" "to \<noteq> 0" using tree_okD(1) [OF t] f k by auto
  moreover have ret: "?r @ (if pre then map (anc c ?f) [0..<m] @ (if comm then [anc c ?f m] else []) else [])
      = (if pre then map (anc c from) [0..<?a] @ (if comm then [anc c from ?a] else []) else [])"
    using map_anc_append [of c "from" "num c from - ?k" m] by (cases pre) (simp_all only: if_True if_False append_Nil append_assoc [symmetric] anc_add)
  moreover have bk: "?s @ (if post then map (anc c ?t) [0..<m] @ (if \<not> pre \<and> comm then [anc c ?t m] else []) else [])
      = (if post then map (anc c to) [0..<?b] @ (if \<not> pre \<and> comm then [anc c to ?b] else []) else [])"
    using map_anc_append [of c to "num c to - ?k" m] by (cases post) (simp_all only: if_True if_False append_Nil append_assoc [symmetric] anc_add)
  define R where "R = (if pre then map (anc c from) [0..<?a] @ (if comm then [anc c from ?a] else []) else [])"
  define B where "B = (if post then map (anc c to) [0..<?b] @ (if \<not> pre \<and> comm then [anc c to ?b] else []) else [])"
  have "treeRoute from to comm pre post c =
      Some ((R @ rev B, anc c from ?a, length R - (if comm \<and> R \<noteq> [] \<and> B \<noteq> [] then 1 else 0)), c5)"
    using \<open>from \<noteq> 0\<close> \<open>to \<noteq> 0\<close> l [unfolded ret bk, folded R_def B_def]
    by (simp only: treeRoute_def d1 d2 u1 u2 num_def [symmetric] Let_def split_conv if_False HOL.simp_thms option.case anc_add)
  then have "treeRoute from to comm pre post c =
      Some ((R @ rev B, anc c from ?a, if comm \<and> R \<noteq> [] \<and> B \<noteq> [] then length R - 1 else length R), c5)"
    by (simp split: if_splits)
  with m(1) r5 show ?thesis unfolding R_def B_def Let_def by blast
qed


text \<open>Three blocks: the first one and two children of it.\<close>

definition chain_on :: "h256 \<Rightarrow> (h256 \<Rightarrow> block_details option) \<Rightarrow> chain" where
  "chain_on g ds =
     \<lparr>m_blocks = (\<lambda>_. None), m_details = (\<lambda>_. None), m_logBlooms = (\<lambda>_. None), m_receipts = (\<lambda>_. None),
      m_transactionAddresses = (\<lambda>_. None), m_blockHashes = (\<lambda>_. None), m_blocksBlooms = (\<lambda>_. None),
      m_cacheUsage = replicate c_collectionQueueSize {}, m_inUse = {}, m_lastLastHashes = [], m_lastBlockHash = g, m_lastBlockNumber = 0,
      m_genesisHash = g, m_genesisBlock = [], m_genesisHeaderBytes = [], db_blocks = (\<lambda>_. None), db_details = ds,
      db_logBlooms = (\<lambda>_. None), db_receipts = (\<lambda>_. None), db_transactionAddresses = (\<lambda>_. None), db_blockHashes = (\<lambda>_. None),
      db_blocksBlooms = (\<lambda>_. None), db_best = None\<rparr>"

definition fork_details :: "h256 \<Rightarrow> block_details option" where
  "fork_details h =
     (if h = 1 then Some \<lparr>bd_number = 0, bd_totalDifficulty = 1, bd_parent = 0, bd_children = [2, 3]\<rparr>
      else if h = 2 \<or> h = 3 then Some \<lparr>bd_number = 1, bd_totalDifficulty = 2, bd_parent = 1, bd_children = []\<rparr> else None)"

lemma det_fork: "det (chain_on 1 fork_details) h = (case fork_details h of None \<Rightarrow> NullBlockDetails | Some d \<Rightarrow> d)"
  by (simp add: det_def through_def chain_on_def)

lemma fork_tree:
  "tree_ok (chain_on 1 fork_details)" "known (chain_on 1 fork_details) h \<longleftrightarrow> h = 1 \<or> h = 2 \<or> h = 3"
  "num (chain_on 1 fork_details) 1 = 0" "num (chain_on 1 fork_details) 2 = 1" "num (chain_on 1 fork_details) 3 = 1"
  "par (chain_on 1 fork_details) 2 = 1" "par (chain_on 1 fork_details) 3 = 1"
proof -
  let ?c = "chain_on 1 fork_details"
  show k: "known ?c h \<longleftrightarrow> h = 1 \<or> h = 2 \<or> h = 3" for h
    by (auto simp: known_def details_isNull_def det_fork fork_details_def NullBlockDetails_def InvalidBlockNumber_def split: if_splits)
  show n: "num ?c 1 = 0" "num ?c 2 = 1" "num ?c 3 = 1" "par ?c 2 = 1" "par ?c 3 = 1"
    by (simp_all add: num_def par_def det_fork fork_details_def)
  have "m_genesisHash ?c = 1" by (simp add: chain_on_def)
  then show "tree_ok ?c" by (auto simp: tree_ok_def k n)
qed


section \<open>The last hashes\<close>

lemma last_loop_fst:
  "last_loop n h c = (Inr l, c') \<Longrightarrow> length l = Suc n \<and> l ! 0 = h"
  by (induction n arbitrary: h c l c') (auto simp: res_bind_Inr_iff split: if_splits prod.splits sum.splits)

text \<open>
  The memo of the last 256 hashes answers for the wrong block.  It is kept when its last, oldest
  element is the block asked for, but its first element is the block it was made for: asked for the
  oldest of them right after, it returns the hashes of the newer block.
\<close>

theorem lastHashes_wrong_memo:
  assumes "m_lastLastHashes c = []" and "lastHashes h c = (Inr l, c')"
  shows "lastHashes (last l) c' = (Inr l, c') \<and> length l = 256 \<and> hd l = h"
proof -
  obtain c1 where l: "last_loop 255 h c = (Inr l, c1)" and c': "c' = c1\<lparr>m_lastLastHashes := l\<rparr>"
    using assms by (auto simp: lastHashes_def split: prod.splits sum.splits)
  from last_loop_fst [OF l] have n: "length l = 256" "l ! 0 = h" by simp_all
  then have "hd l = h" by (cases l) simp_all
  moreover have "lastHashes (last l) c' = (Inr l, c')" using n by (auto simp: lastHashes_def c')
  ultimately show ?thesis using n by simp
qed

end
