(* ===== verification/Bloom_Index.thy ===== *)
theory Bloom_Index
  imports Tree_Route
begin

text \<open>
  The index of the blooms of the blocks in \<^verbatim>\<open>BlockChain.cpp\<close>: two levels of chunks of sixteen
  filters, those of single blocks and those of sixteen blocks.  Block numbers are \<^verbatim>\<open>unsigned\<close>; where
  the arithmetic can wrap this is written out with \<open>as32\<close>.
\<close>

section \<open>Searching\<close>

definition as32 :: "nat \<Rightarrow> nat" where "as32 n = n mod 2 ^ 32"

lemma as32_small [simp]: "n < 2 ^ 32 \<Longrightarrow> as32 n = n"
  by (simp add: as32_def)

fun square_loop :: "nat \<Rightarrow> nat \<Rightarrow> nat" where
  "square_loop 0 a = a"
| "square_loop (Suc n) a = square_loop n (as32 (a * a))"

definition upow :: "nat \<Rightarrow> nat \<Rightarrow> nat" where
  "upow a b = (if b = 0 then 1 else square_loop (b - 1) a)"

definition ceilDiv :: "nat \<Rightarrow> nat \<Rightarrow> nat" where
  "ceilDiv n d = as32 (n + d - 1) div d"

definition chunkId :: "nat \<Rightarrow> nat \<Rightarrow> h256" where
  "chunkId level index = word_of_nat (as32 (index * 0xff + level))"

definition bsize :: nat where "bsize = unat c_bloomIndexSize"

text \<open>The loop over the offsets of a chunk; \<open>step\<close> is what happens with a number whose filter matches.\<close>

fun offset_loop :: "(nat \<Rightarrow> chain \<Rightarrow> nat list \<times> chain) \<Rightarrow> log_bloom \<Rightarrow> log_bloom list \<Rightarrow> nat \<Rightarrow> nat list \<Rightarrow> chain \<Rightarrow> nat list \<times> chain" where
  "offset_loop step b bb index [] c = ([], c)"
| "offset_loop step b bb index (o' # os) c =
     (if bloom_contains (bb ! o') b then
        let (r, c) = step (as32 (o' + index * bsize)) c; (r', c) = offset_loop step b bb index os c in (r @ r', c)
      else offset_loop step b bb index os c)"

definition search_chunk ::
  "(nat \<Rightarrow> chain \<Rightarrow> nat list \<times> chain) \<Rightarrow> nat \<Rightarrow> log_bloom \<Rightarrow> nat \<Rightarrow> nat \<Rightarrow> nat \<Rightarrow> chain \<Rightarrow> nat list \<times> chain" where
  "search_chunk step level b earliest latest index c =
     (let uCourse = upow bsize (level + 1);
          uFine = upow bsize level;
          obegin = (if index = earliest div uCourse then earliest div uFine mod bsize else 0);
          oend = (if index = latest div uCourse then (latest div uFine) mod bsize + 1 else bsize);
          (bb, c) = blocksBlooms (chunkId level index) c
      in offset_loop step b bb index [obegin..<oend] c)"

fun withBlockBloom_at :: "log_bloom \<Rightarrow> nat \<Rightarrow> nat \<Rightarrow> nat \<Rightarrow> nat \<Rightarrow> chain \<Rightarrow> nat list \<times> chain" where
  "withBlockBloom_at b earliest latest 0 index c = search_chunk (\<lambda>n c. ([n], c)) 0 b earliest latest index c"
| "withBlockBloom_at b earliest latest (Suc level) index c =
     search_chunk (withBlockBloom_at b earliest latest level) (Suc level) b earliest latest index c"

fun index_loop :: "(nat \<Rightarrow> chain \<Rightarrow> nat list \<times> chain) \<Rightarrow> nat list \<Rightarrow> chain \<Rightarrow> nat list \<times> chain" where
  "index_loop f [] c = ([], c)"
| "index_loop f (i # is) c = (let (r, c) = f i c; (r', c) = index_loop f is c in (r @ r', c))"

definition withBlockBloom :: "log_bloom \<Rightarrow> nat \<Rightarrow> nat \<Rightarrow> chain \<Rightarrow> nat list \<times> chain" where
  "withBlockBloom b earliest latest c =
     (let u = upow bsize c_bloomIndexLevels in
      index_loop (withBlockBloom_at b earliest latest (c_bloomIndexLevels - 1)) [earliest div u..<ceilDiv latest u + 1] c)"

section \<open>Changing the index\<close>

text \<open>\<^verbatim>\<open>m_blocksBlooms[cid].blooms[o]\<close>, which makes an empty chunk where there is none.\<close>

definition cached_chunk :: "h256 \<Rightarrow> chain \<Rightarrow> log_bloom list" where
  "cached_chunk cid c = (case m_blocksBlooms c cid of None \<Rightarrow> NullBlocksBlooms | Some bs \<Rightarrow> bs)"

definition set_slot :: "h256 \<Rightarrow> nat \<Rightarrow> log_bloom \<Rightarrow> chain \<Rightarrow> chain" where
  "set_slot cid o' b c = c\<lparr>m_blocksBlooms := (m_blocksBlooms c)(cid \<mapsto> (cached_chunk cid c)[o' := b])\<rparr>"

text \<open>The part of \<^verbatim>\<open>import\<close> that enters the filter of a block, first the lookups, then the changes.\<close>

fun memo_loop :: "nat \<Rightarrow> nat \<Rightarrow> nat \<Rightarrow> chain \<Rightarrow> chain" where
  "memo_loop 0 level index c = c"
| "memo_loop (Suc n) level index c = memo_loop n (Suc level) (index div bsize) (snd (blocksBlooms (chunkId level (index div bsize)) c))"

fun insert_loop :: "nat \<Rightarrow> nat \<Rightarrow> nat \<Rightarrow> log_bloom \<Rightarrow> h256 list \<Rightarrow> chain \<Rightarrow> h256 list \<times> chain" where
  "insert_loop 0 level index b altered c = (altered, c)"
| "insert_loop (Suc n) level index b altered c =
     (let cid = chunkId level (index div bsize); o' = index mod bsize in
      insert_loop n (Suc level) (index div bsize) b (altered @ [cid]) (set_slot cid o' (cached_chunk cid c ! o' OR b) c))"

definition bloom_insert :: "nat \<Rightarrow> log_bloom \<Rightarrow> chain \<Rightarrow> h256 list \<times> chain" where
  "bloom_insert number b c = insert_loop c_bloomIndexLevels 0 number b [] (memo_loop c_bloomIndexLevels 0 number c)"

definition clear_item :: "nat \<Rightarrow> uint32 \<Rightarrow> chain \<Rightarrow> chain" where
  "clear_item level it c =
     (let bunch = unat it div bsize; offset = unat it mod bsize; cid = chunkId level bunch;
          (acc, c) = (if level \<noteq> 0 then
                        let (bb, c) = blocksBlooms (chunkId (level - 1) (unat it)) c in (fold (\<lambda>b acc. acc OR b) bb 0, c)
                      else (0, c));
          c = snd (blocksBlooms cid c)
      in set_slot cid offset acc c)"

function item_loop :: "nat \<Rightarrow> uint32 \<Rightarrow> uint32 \<Rightarrow> chain \<Rightarrow> chain" where
  "item_loop level it end c = (if it \<noteq> end then item_loop level (it + 1) end (clear_item level it c) else c)"
  by pat_completeness auto

termination item_loop
proof (relation "measure (\<lambda>(level, it, end, c). unat (end - it))")
  fix level :: nat and it "end" :: uint32 and c :: chain
  assume "it \<noteq> end"
  then have "end - it \<noteq> 0" by simp
  then have "unat (end - it - 1) < unat (end - it)" by (rule measure_unat)
  then show "((level, it + 1, end, clear_item level it c), level, it, end, c) \<in> measure (\<lambda>(level, it, end, c). unat (end - it))"
    by (simp add: algebra_simps)
qed simp

declare item_loop.simps [simp del]

fun level_loop :: "nat \<Rightarrow> nat \<Rightarrow> uint32 \<Rightarrow> uint32 \<Rightarrow> chain \<Rightarrow> chain" where
  "level_loop 0 level beginDirty endDirty c = c"
| "level_loop (Suc n) level beginDirty endDirty c =
     level_loop n (Suc level) (beginDirty div c_bloomIndexSize) ((endDirty - 1) div c_bloomIndexSize + 1)
       (item_loop level beginDirty endDirty c)"

definition clearBlockBlooms :: "uint32 \<Rightarrow> uint32 \<Rightarrow> chain \<Rightarrow> chain" where
  "clearBlockBlooms begin' end' c = level_loop c_bloomIndexLevels 0 begin' end' c"

section \<open>What the search finds\<close>

lemma bsize [simp]: "bsize = 16"
  by (simp add: bsize_def c_bloomIndexSize_def)

lemma upow_16: "upow 16 0 = 1" "upow 16 (Suc 0) = 16" "upow 16 2 = 256"
  by (simp_all add: upow_def as32_def square_loop.simps(2) [of 0, simplified])

text \<open>The filters of a number in a view of the chunks, at both levels.\<close>

definition slot0 :: "(h256 \<Rightarrow> log_bloom list) \<Rightarrow> nat \<Rightarrow> log_bloom" where
  "slot0 f n = f (chunkId 0 (n div 16)) ! (n mod 16)"

definition slot1 :: "(h256 \<Rightarrow> log_bloom list) \<Rightarrow> nat \<Rightarrow> log_bloom" where
  "slot1 f n = f (chunkId 1 (n div 16 div 16)) ! (n div 16 mod 16)"

text \<open>A search step: it finds the numbers that \<open>P\<close> says and only fills caches.\<close>

definition finds :: "(chain \<Rightarrow> nat list \<times> chain) \<Rightarrow> chain \<Rightarrow> nat set \<Rightarrow> bool" where
  "finds f c S = (\<forall>c'. reads c c' \<longrightarrow> set (fst (f c')) = S \<and> reads c (snd (f c')))"

lemma finds_seq:
  assumes f: "finds f c S" and g: "finds g c T"
  shows "finds (\<lambda>c. let (r, c) = f c; (r', c) = g c in (r @ r', c)) c (S \<union> T)"
  unfolding finds_def Let_def split_def fst_conv snd_conv set_append
proof (intro allI impI)
  fix c' assume r: "reads c c'"
  have "set (fst (f c')) = S" "reads c (snd (f c'))" using f r by (simp_all add: finds_def)
  moreover from this(2) have "set (fst (g (snd (f c')))) = T" "reads c (snd (g (snd (f c'))))" using g by (simp_all add: finds_def)
  ultimately show "set (fst (f c')) \<union> set (fst (g (snd (f c')))) = S \<union> T \<and> reads c (snd (g (snd (f c'))))" by simp
qed

lemma index_loop_finds:
  assumes "\<And>i. i \<in> set is \<Longrightarrow> finds (f i) c (S i)"
  shows "finds (index_loop f is) c (\<Union>i\<in>set is. S i)"
  using assms
proof (induction "is")
  case (Cons i "is")
  have "finds (\<lambda>c. let (r, c) = f i c; (r', c) = index_loop f is c in (r @ r', c)) c (S i \<union> (\<Union>i\<in>set is. S i))"
    using Cons by (intro finds_seq) simp_all
  then show ?case by (simp add: index_loop.simps [abs_def])
qed (simp add: finds_def)

lemma offset_loop_finds:
  assumes "\<And>o'. o' \<in> set os \<Longrightarrow> finds (step (as32 (o' + index * bsize))) c (S o')"
  shows "finds (offset_loop step b bb index os) c (\<Union>o'\<in>{o'\<in>set os. bloom_contains (bb ! o') b}. S o')"
  using assms
proof (induction os)
  case (Cons x os)
  let ?T = "\<Union>o'\<in>{o'\<in>set os. bloom_contains (bb ! o') b}. S o'"
  have IH: "finds (offset_loop step b bb index os) c ?T" by (rule Cons.IH, rule Cons.prems) simp
  have x: "finds (step (as32 (x + index * bsize))) c (S x)" by (rule Cons.prems) simp
  show ?case
  proof (cases "bloom_contains (bb ! x) b")
    case True
    then have "{o' \<in> set (x # os). bloom_contains (bb ! o') b} = insert x {o' \<in> set os. bloom_contains (bb ! o') b}" by auto
    then show ?thesis using True finds_seq [OF x IH] by (simp add: offset_loop.simps [abs_def])
  next
    case False
    then have "{o' \<in> set (x # os). bloom_contains (bb ! o') b} = {o' \<in> set os. bloom_contains (bb ! o') b}" by auto
    then show ?thesis using False IH by (simp add: finds_def)
  qed
qed (simp add: finds_def)

lemma div_256: "x div 256 = x div 16 div (16 :: nat)"
  using div_mult2_eq [of x 16 16] by simp

definition offsets :: "nat \<Rightarrow> nat \<Rightarrow> nat \<Rightarrow> nat list" where
  "offsets i e l = [(if i = e div 16 then e mod 16 else 0)..<(if i = l div 16 then l mod 16 + 1 else 16)]"

lemma search_chunk_levels:
  "search_chunk step 0 b e l i = (\<lambda>c. let (bb, c) = blocksBlooms (chunkId 0 i) c in offset_loop step b bb i (offsets i e l) c)"
  "search_chunk step (Suc 0) b e l i =
     (\<lambda>c. let (bb, c) = blocksBlooms (chunkId 1 i) c in offset_loop step b bb i (offsets i (e div 16) (l div 16)) c)"
proof -
  have l: "0 + 1 = Suc 0" "Suc 0 + 1 = 2" "Suc 0 + Suc 0 = 2" by simp_all
  show "search_chunk step 0 b e l i = (\<lambda>c. let (bb, c) = blocksBlooms (chunkId 0 i) c in offset_loop step b bb i (offsets i e l) c)"
    unfolding search_chunk_def [abs_def] l bsize upow_16 div_by_1 offsets_def Let_def by (rule HOL.refl)
  show "search_chunk step (Suc 0) b e l i =
     (\<lambda>c. let (bb, c) = blocksBlooms (chunkId 1 i) c in offset_loop step b bb i (offsets i (e div 16) (l div 16)) c)"
    unfolding search_chunk_def [abs_def] l bsize upow_16 div_256 offsets_def Let_def One_nat_def by (rule HOL.refl)
qed

lemma finds_chunk:
  assumes "finds (offset_loop step b (chunk c cid) i os) c S"
  shows "finds (\<lambda>c. let (bb, c) = blocksBlooms cid c in offset_loop step b bb i os c) c S"
  unfolding finds_def
proof (intro allI impI)
  fix c' assume r: "reads c c'"
  have v: "fst (blocksBlooms cid c') = chunk c cid" using r by (simp add: chain_reads)
  have r': "reads c (snd (blocksBlooms cid c'))" by (rule reads_trans [OF r blocksBlooms_reads])
  show "set (fst (let (bb, c) = blocksBlooms cid c' in offset_loop step b bb i os c)) = S
      \<and> reads c (snd (let (bb, c) = blocksBlooms cid c' in offset_loop step b bb i os c))"
    using assms r' unfolding Let_def split_def v finds_def by blast
qed

lemma finds_eq: "finds f c S \<Longrightarrow> S = T \<Longrightarrow> finds f c T"
  by simp

text \<open>Positions that a chunk of a range from \<open>e\<close> to \<open>l\<close> leaves to the search.\<close>

definition within :: "nat \<Rightarrow> nat \<Rightarrow> nat \<Rightarrow> bool" where
  "within e l n = ((n div 16 = e div 16 \<longrightarrow> e mod 16 \<le> n mod 16) \<and> (n div 16 = l div 16 \<longrightarrow> n mod 16 \<le> l mod 16))"

lemma in_offsets:
  "x \<in> set (offsets i e l) \<longleftrightarrow> x < 16 \<and> within e l (x + i * 16)"
proof -
  have "x < 16 \<Longrightarrow> (x + i * 16) div 16 = i \<and> (x + i * 16) mod 16 = x" by simp
  moreover have "l mod 16 < 16" by simp
  ultimately show ?thesis by (auto simp: offsets_def within_def less_Suc_eq_le split: if_splits)
qed

lemma div_mod_16: "n div 16 = i \<longleftrightarrow> (\<exists>x<16. n = x + i * 16)" for n :: nat
  by (metis add.commute div_mult_mod_eq mod_less_divisor mult.commute div_mult_self1 add.left_neutral div_less zero_less_numeral zero_neq_numeral)

lemma finds_level0:
  assumes "i < 2 ^ 28"
  shows "finds (withBlockBloom_at b e l 0 i) c {n. n div 16 = i \<and> within e l n \<and> bloom_contains (slot0 (chunk c) n) b}"
proof -
  have "finds (offset_loop (\<lambda>n c. ([n], c)) b (chunk c (chunkId 0 i)) i (offsets i e l)) c
      (\<Union>x\<in>{x \<in> set (offsets i e l). bloom_contains (chunk c (chunkId 0 i) ! x) b}. {as32 (x + i * bsize)})"
    by (rule offset_loop_finds) (simp add: finds_def)
  from finds_chunk [OF this]
  have "finds (withBlockBloom_at b e l 0 i) c (\<Union>x\<in>{x \<in> set (offsets i e l). bloom_contains (chunk c (chunkId 0 i) ! x) b}. {as32 (x + i * bsize)})"
    by (simp add: withBlockBloom_at.simps(1) [abs_def] search_chunk_levels)
  then show ?thesis
  proof (rule finds_eq)
    have "as32 (x + i * 16) = x + i * 16" "slot0 (chunk c) (x + i * 16) = chunk c (chunkId 0 i) ! x" if "x < 16" for x
      using assms that by (simp_all add: slot0_def)
    then show "(\<Union>x\<in>{x \<in> set (offsets i e l). bloom_contains (chunk c (chunkId 0 i) ! x) b}. {as32 (x + i * bsize)})
        = {n. n div 16 = i \<and> within e l n \<and> bloom_contains (slot0 (chunk c) n) b}"
      unfolding in_offsets div_mod_16 by auto
  qed
qed

lemma finds_level1:
  assumes "j < 2 ^ 24"
  shows "finds (withBlockBloom_at b e l (Suc 0) j) c {n. n div 16 div 16 = j \<and> within (e div 16) (l div 16) (n div 16)
      \<and> within e l n \<and> bloom_contains (slot1 (chunk c) n) b \<and> bloom_contains (slot0 (chunk c) n) b}"
proof -
  define S where "S = (\<lambda>i. {n. n div 16 = i \<and> within e l n \<and> bloom_contains (slot0 (chunk c) n) b})"
  let ?os = "offsets j (e div 16) (l div 16)"
  have small: "as32 (x + j * 16) = x + j * 16" "x + j * 16 < 2 ^ 28" if "x < 16" for x using assms that by simp_all
  have "finds (offset_loop (withBlockBloom_at b e l 0) b (chunk c (chunkId 1 j)) j ?os) c
      (\<Union>x\<in>{x \<in> set ?os. bloom_contains (chunk c (chunkId 1 j) ! x) b}. S (x + j * 16))"
  proof (rule offset_loop_finds)
    fix x assume "x \<in> set ?os"
    then have "x < 16" unfolding in_offsets by simp
    then show "finds (withBlockBloom_at b e l 0 (as32 (x + j * bsize))) c (S (x + j * 16))"
      using small [of x] finds_level0 [of "x + j * 16" b e l c] unfolding S_def by simp
  qed
  from finds_chunk [OF this]
  have "finds (withBlockBloom_at b e l (Suc 0) j) c (\<Union>x\<in>{x \<in> set ?os. bloom_contains (chunk c (chunkId 1 j) ! x) b}. S (x + j * 16))"
    by (simp add: withBlockBloom_at.simps(2) [abs_def] search_chunk_levels)
  then show ?thesis
  proof (rule finds_eq)
    have "slot1 (chunk c) n = chunk c (chunkId 1 j) ! x" if "x < 16" "n div 16 = x + j * 16" for x n
      using that by (simp add: slot1_def)
    then show "(\<Union>x\<in>{x \<in> set ?os. bloom_contains (chunk c (chunkId 1 j) ! x) b}. S (x + j * 16))
      = {n. n div 16 div 16 = j \<and> within (e div 16) (l div 16) (n div 16) \<and> within e l n
          \<and> bloom_contains (slot1 (chunk c) n) b \<and> bloom_contains (slot0 (chunk c) n) b}"
      unfolding in_offsets div_mod_16 [of "_ div 16"] S_def by auto
  qed
qed

lemma eq_div_16: "a = b \<longleftrightarrow> a div 16 = b div 16 \<and> a mod 16 = b mod 16" for a b :: nat
  by (metis div_mult_mod_eq)

lemma less_div_16: "a < b \<longleftrightarrow> a div 16 < b div 16 \<or> a div 16 = b div 16 \<and> a mod 16 < b mod 16" for a b :: nat
proof -
  have "a = 16 * (a div 16) + a mod 16" "b = 16 * (b div 16) + b mod 16" "a mod 16 < 16" "b mod 16 < 16" by simp_all
  then show ?thesis by linarith
qed

lemma le_div_256: "a \<le> b \<longleftrightarrow> a div 16 div 16 < b div 16 div 16 \<or> a div 16 div 16 = b div 16 div 16 \<and>
    (a div 16 mod 16 < b div 16 mod 16 \<or> a div 16 mod 16 = b div 16 mod 16 \<and> a mod 16 \<le> b mod 16)" for a b :: nat
  unfolding le_less using less_div_16 [of a b] less_div_16 [of "a div 16" "b div 16"] eq_div_16 [of "a div 16" "b div 16"] eq_div_16 [of a b] by blast

text \<open>What the search looks at past the first number: the range, and the whole chunk of 256 after it; but
  only the first 256 numbers when rounding up the last number wraps around.\<close>

definition searched :: "nat \<Rightarrow> nat \<Rightarrow> bool" where
  "searched l n =
     (if l + 255 < 2 ^ 32 then n \<le> l \<or> (l mod 256 \<noteq> 0 \<and> n div 256 = l div 256 + 1) else n < 256)"

lemma ceil_256: "(l + 255) div 256 = (if l mod 256 = 0 then l div 256 else l div 256 + 1)" for l :: nat
proof (cases "l mod 256")
  case 0
  then obtain q where "l = 256 * q" by (auto elim: dvdE simp: dvd_eq_mod_eq_0 [symmetric])
  then show ?thesis by simp
next
  case (Suc r)
  then have "l + 255 = r + (l div 256 + 1) * 256" using div_mult_mod_eq [of l 256] unfolding add_mult_distrib by (simp del: div_mult_mod_eq mult_div_mod_eq)
  moreover have "r < 256" using Suc mod_less_divisor [of 256 l] by simp
  ultimately show ?thesis using Suc by simp
qed

lemma search_range_low:
  assumes "e \<le> l" and "l + 255 < 2 ^ 32"
  shows "n div 16 div 16 \<in> {e div 256..<(l + 255) div 256 + 1} \<and> within (e div 16) (l div 16) (n div 16) \<and> within e l n \<longleftrightarrow> e \<le> n \<and> searched l n"
proof -
  have c: "(l + 255) div 256 = (if l mod 256 = 0 then l div 256 else l div 256 + 1)" by (rule ceil_256)
  have l0: "l mod 256 = 0 \<longleftrightarrow> l div 16 mod 16 = 0 \<and> l mod 16 = 0" using mod_mult2_eq [of l 16 16] by auto
  define en em el nn nm nl ln lm ll where "en = e div 16 div 16" and "em = e div 16 mod 16" and "el = e mod 16"
    and "nn = n div 16 div 16" and "nm = n div 16 mod 16" and "nl = n mod 16"
    and "ln = l div 16 div 16" and "lm = l div 16 mod 16" and "ll = l mod 16"
  note d = this
  have en: "e \<le> n \<longleftrightarrow> en < nn \<or> en = nn \<and> (em < nm \<or> em = nm \<and> el \<le> nl)"
    unfolding d by (rule le_div_256)
  have nl: "n \<le> l \<longleftrightarrow> nn < ln \<or> nn = ln \<and> (nm < lm \<or> nm = lm \<and> nl \<le> ll)"
    unfolding d by (rule le_div_256)
  have el: "en < ln \<or> en = ln \<and> (em < lm \<or> em = lm \<and> el \<le> ll)"
    unfolding d using assms(1) by (rule le_div_256 [THEN iffD1])
  have eq: "n div 16 = e div 16 \<longleftrightarrow> nn = en \<and> nm = em" "n div 16 = l div 16 \<longleftrightarrow> nn = ln \<and> nm = lm"
    unfolding d by (metis div_mult_mod_eq)+
  have w: "within (e div 16) (l div 16) (n div 16) \<longleftrightarrow> (nn = en \<longrightarrow> em \<le> nm) \<and> (nn = ln \<longrightarrow> nm \<le> lm)"
    "within e l n \<longleftrightarrow> (nn = en \<and> nm = em \<longrightarrow> el \<le> nl) \<and> (nn = ln \<and> nm = lm \<longrightarrow> nl \<le> ll)"
    unfolding within_def eq unfolding d by simp_all
  show ?thesis
  proof (cases "l mod 256 = 0")
    case True
    then have z: "lm = 0" "ll = 0" using l0 unfolding d by simp_all
    have B: "searched l n \<longleftrightarrow> n \<le> l" using True assms(2) by (auto simp: searched_def)
    have A: "n div 16 div 16 \<in> {e div 256..<(l + 255) div 256 + 1} \<longleftrightarrow> en \<le> nn \<and> nn \<le> ln"
      using True c unfolding d div_256 [symmetric] by auto
    show ?thesis unfolding A B w en nl using el z by (cases "nn = en"; cases "nn = ln"; simp; linarith)
  next
    case False
    then have B: "searched l n \<longleftrightarrow> n \<le> l \<or> nn = ln + 1" using assms(2) unfolding searched_def d div_256 by simp
    have A: "n div 16 div 16 \<in> {e div 256..<(l + 255) div 256 + 1} \<longleftrightarrow> en \<le> nn \<and> nn \<le> ln + 1"
      using False c unfolding d div_256 [symmetric] by auto
    show ?thesis unfolding A B w en nl using el by (cases "nn = en"; cases "nn = ln"; simp; linarith)
  qed
qed

lemma ceilDiv_256: "ceilDiv l 256 = as32 (l + 255) div 256"
  by (simp add: ceilDiv_def add.commute)

lemma search_range_wrap:
  assumes "2 ^ 32 \<le> l + 255" and "n div 16 div 16 = 0"
  shows "e div 256 = 0 \<and> within (e div 16) (l div 16) (n div 16) \<and> within e l n \<longleftrightarrow> e \<le> n"
proof (cases "e < 256")
  case True
  have l: "1 \<le> l div 256" using assms(1) div_le_mono [of 256 l 256] by simp
  have n: "n < 256" using assms(2) unfolding div_256 [symmetric] by simp
  have ne: "n div 16 div 16 \<noteq> l div 16 div 16" "n div 16 \<noteq> l div 16" using l assms(2) unfolding div_256 by auto
  have z: "e div 16 div 16 = 0" "e div 16 mod 16 = e div 16" "n div 16 mod 16 = n div 16" using True n by simp_all
  have "within (e div 16) (l div 16) (n div 16) \<and> within e l n \<longleftrightarrow>
      e div 16 \<le> n div 16 \<and> (n div 16 = e div 16 \<longrightarrow> e mod 16 \<le> n mod 16)"
    using ne z assms(2) by (simp add: within_def)
  also have "\<dots> \<longleftrightarrow> e \<le> n" using less_div_16 [of e n] eq_div_16 [of e n] by auto
  finally show ?thesis using True by simp
next
  case False
  moreover have "n < 256" using assms(2) unfolding div_256 [symmetric] by simp
  ultimately show ?thesis by (auto simp: div_eq_0_iff)
qed

lemma search_range:
  assumes "e \<le> l" and "l < 2 ^ 32"
  shows "n div 16 div 16 \<in> {e div 256..<ceilDiv l 256 + 1} \<and> within (e div 16) (l div 16) (n div 16) \<and> within e l n
    \<longleftrightarrow> e \<le> n \<and> searched l n"
proof (cases "l + 255 < 2 ^ 32")
  case True
  then show ?thesis using search_range_low [OF assms(1), of n] by (simp add: ceilDiv_256)
next
  case False
  then have "(l + 255) mod 2 ^ 32 = l + 255 - 2 ^ 32" using assms(2) by (simp add: mod_if)
  then have c: "ceilDiv l 256 = 0" using assms(2) False by (simp add: ceilDiv_256 as32_def)
  have s: "searched l n \<longleftrightarrow> n div 16 div 16 = 0" using False unfolding searched_def div_256 [symmetric] by auto
  show ?thesis unfolding c s using search_range_wrap [of l n e] False by auto
qed

lemma withBlockBloom_finds:
  assumes "e \<le> l" and "l < 2 ^ 32"
  shows "finds (withBlockBloom b e l) c
      {n. e \<le> n \<and> searched l n \<and> bloom_contains (slot1 (chunk c) n) b \<and> bloom_contains (slot0 (chunk c) n) b}"
proof -
  have u: "upow bsize c_bloomIndexLevels = 256" "c_bloomIndexLevels - 1 = Suc 0"
    by (simp_all add: c_bloomIndexLevels_def upow_16)
  let ?S = "\<lambda>j. {n. n div 16 div 16 = j \<and> within (e div 16) (l div 16) (n div 16) \<and> within e l n
      \<and> bloom_contains (slot1 (chunk c) n) b \<and> bloom_contains (slot0 (chunk c) n) b}"
  have "finds (index_loop (withBlockBloom_at b e l (Suc 0)) [e div 256..<ceilDiv l 256 + 1]) c
      (\<Union>j\<in>set [e div 256..<ceilDiv l 256 + 1]. ?S j)"
  proof (rule index_loop_finds, rule finds_level1)
    fix j assume "j \<in> set [e div 256..<ceilDiv l 256 + 1]"
    then have "j \<le> as32 (l + 255) div 256" by (auto simp: ceilDiv_256)
    also have "\<dots> \<le> (2 ^ 32 - 1) div 256" by (intro div_le_mono) (simp add: as32_def)
    finally show "j < 2 ^ 24" by simp
  qed
  moreover have "(\<Union>j\<in>set [e div 256..<ceilDiv l 256 + 1]. ?S j)
    = {n. (n div 16 div 16 \<in> {e div 256..<ceilDiv l 256 + 1} \<and> within (e div 16) (l div 16) (n div 16) \<and> within e l n)
      \<and> bloom_contains (slot1 (chunk c) n) b \<and> bloom_contains (slot0 (chunk c) n) b}"
    unfolding set_upt by blast
  ultimately show ?thesis
    unfolding withBlockBloom_def [abs_def] u Let_def search_range [OF assms] by (simp add: conj_assoc)
qed

text \<open>
  C35: what the search of the index finds, for every range \<open>e \<le> l\<close> of 32-bit block numbers.  If
  \<open>l\<close> is at most \<open>2 ^ 32 - 256\<close>, it finds exactly the numbers of the range whose filters match at both
  levels and, unless \<open>l\<close> is a multiple of 256, with them those of the next 256 numbers whose filters
  match: the loop over the top level runs to the quotient rounded up, and past the range nothing bounds it.  If
  \<open>l\<close> is greater, as \<^verbatim>\<open>(unsigned)-1\<close> is, rounding up wraps around to 0 and only the
  numbers from \<open>e\<close> to 255 are searched.  (The comments in the code trace the range 14 to 32 through
  the top-level chunk 0 only; the loop goes on to chunk 1.)  The filters of a number are those in its slots of the two
  levels; numbers from about \<open>2 ^ 28\<close> on share slots, since the identifiers of the chunks wrap around.
\<close>

theorem withBlockBloom_exact:
  assumes "e \<le> l" and "l < 2 ^ 32"
  shows "set (fst (withBlockBloom b e l c)) =
      (if l + 255 < 2 ^ 32
       then {n. e \<le> n \<and> (n \<le> l \<or> (l mod 256 \<noteq> 0 \<and> n div 256 = l div 256 + 1))
             \<and> bloom_contains (slot1 (chunk c) n) b \<and> bloom_contains (slot0 (chunk c) n) b}
       else {n. e \<le> n \<and> n < 256 \<and> bloom_contains (slot1 (chunk c) n) b \<and> bloom_contains (slot0 (chunk c) n) b})"
  using withBlockBloom_finds [OF assms, of b c] by (simp add: finds_def searched_def)

theorem withBlockBloom_exact_witness:
  "set (fst (withBlockBloom 1 5 10 ((chain_on 1 (\<lambda>_. None))\<lparr>db_blocksBlooms := \<lambda>_. Some (replicate 16 1)\<rparr>))) = {5..10} \<union> {256..<512}
   \<and> set (fst (withBlockBloom 1 5 (2 ^ 32 - 1) ((chain_on 1 (\<lambda>_. None))\<lparr>db_blocksBlooms := \<lambda>_. Some (replicate 16 1)\<rparr>))) = {5..255}"
    (is "set (fst (withBlockBloom _ _ _ ?c)) = _ \<and> _")
proof -
  have "chunk ?c h = replicate 16 1" for h by (simp add: chunk_def through_def chain_on_def)
  then have s: "slot0 (chunk ?c) n = 1" "slot1 (chunk ?c) n = 1" for n by (simp_all add: slot0_def slot1_def)
  have "set (fst (withBlockBloom 1 5 10 ?c)) = {n. 5 \<le> n \<and> (n \<le> 10 \<or> n div 256 = 1)}"
    using withBlockBloom_exact [of 5 10 1 ?c] s by (simp add: bloom_contains_def)
  also have "\<dots> = {5..10} \<union> {256..<512}" by auto
  finally have "set (fst (withBlockBloom 1 5 10 ?c)) = {5..10} \<union> {256..<512}" .
  moreover have "set (fst (withBlockBloom 1 5 (2 ^ 32 - 1) ?c)) = {n. 5 \<le> n \<and> n < 256}"
    using withBlockBloom_exact [of 5 "2 ^ 32 - 1" 1 ?c] s by (simp add: bloom_contains_def)
  ultimately show ?thesis by auto
qed

lemma withBlockBloom_reads:
  assumes "e \<le> l" and "l < 2 ^ 32" shows "reads c (snd (withBlockBloom b e l c))"
  using withBlockBloom_finds [OF assms, of b c] by (simp add: finds_def)

section \<open>The slots of the index\<close>

text \<open>A view of the chunks as a map from level and number to filters.\<close>

definition get :: "(h256 \<Rightarrow> log_bloom list) \<Rightarrow> nat \<Rightarrow> nat \<Rightarrow> log_bloom" where
  "get f level i = f (chunkId level (i div 16)) ! (i mod 16)"

definition put :: "(h256 \<Rightarrow> log_bloom list) \<Rightarrow> nat \<Rightarrow> nat \<Rightarrow> log_bloom \<Rightarrow> h256 \<Rightarrow> log_bloom list" where
  "put f level i v = f(chunkId level (i div 16) := (f (chunkId level (i div 16)))[i mod 16 := v])"

definition sized :: "(h256 \<Rightarrow> log_bloom list) \<Rightarrow> bool" where
  "sized f = (\<forall>cid. length (f cid) = 16)"

lemma slots_get: "slot0 f n = get f 0 n" "slot1 f n = get f 1 (n div 16)"
  by (simp_all add: slot0_def slot1_def get_def)

lemma chunkId_inject:
  assumes "level < 2" "level' < 2" "i < 2 ^ 24" "i' < 2 ^ 24"
  shows "chunkId level i = chunkId level' i' \<longleftrightarrow> level = level' \<and> i = i'"
proof -
  have "i * 255 + level < 2 ^ 32" "i' * 255 + level' < 2 ^ 32" using assms by simp_all
  then have "chunkId level i = word_of_nat (i * 255 + level)" "chunkId level' i' = word_of_nat (i' * 255 + level')"
    "unat (word_of_nat (i * 255 + level) :: h256) = i * 255 + level" "unat (word_of_nat (i' * 255 + level') :: h256) = i' * 255 + level'"
    by (simp_all add: chunkId_def unsigned_of_nat take_bit_nat_eq_self del: of_nat_add of_nat_mult)
  then have "chunkId level i = chunkId level' i' \<longleftrightarrow> i * 255 + level = i' * 255 + level'" by metis
  also have "\<dots> \<longleftrightarrow> level = level' \<and> i = i'"
  proof -
    have "(i * 255 + level) div 255 = i" "(i * 255 + level) mod 255 = level" "(i' * 255 + level') div 255 = i'" "(i' * 255 + level') mod 255 = level'"
      using assms(1,2) by simp_all
    then show ?thesis by metis
  qed
  finally show ?thesis .
qed

lemma get_put:
  assumes "sized f" "level < 2" "level' < 2" "i < 2 ^ 28" "i' < 2 ^ 28"
  shows "get (put f level i v) level' i' = (if level = level' \<and> i = i' then v else get f level' i')"
proof -
  have "i div 16 < 2 ^ 24" "i' div 16 < 2 ^ 24" using assms(4,5) by (simp_all add: div_less_iff_less_mult)
  note inj = chunkId_inject [OF assms(2,3) this]
  show ?thesis
    using inj assms(1) eq_div_16 [of i i'] by (auto simp: get_def put_def sized_def nth_list_update)
qed

lemma sized_put [simp]: "sized f \<Longrightarrow> sized (put f level i v)"
  by (simp add: sized_def put_def)

lemma chunk_get:
  assumes "sized f" shows "f (chunkId level k) = map (\<lambda>o'. get f level (k * 16 + o')) [0..<16]"
  using assms by (intro nth_equalityI) (simp_all add: sized_def get_def)

text \<open>The filter of a block is in the index: the search for anything in it finds the block.\<close>

definition indexed :: "(h256 \<Rightarrow> log_bloom list) \<Rightarrow> nat \<Rightarrow> log_bloom \<Rightarrow> bool" where
  "indexed f n b = (bloom_contains (get f 0 n) b \<and> bloom_contains (get f 1 (n div 16)) b)"

subsection \<open>Changes of the slots\<close>

text \<open>\<open>bloomed c c'\<close>: only the cache of the chunks and the notes of use have changed.\<close>

definition bloomed :: "chain \<Rightarrow> chain \<Rightarrow> bool" where
  "bloomed c c' =
     (frame c c' \<and> m_blocks c' = m_blocks c \<and> m_details c' = m_details c \<and> m_logBlooms c' = m_logBlooms c \<and> m_receipts c' = m_receipts c
      \<and> m_transactionAddresses c' = m_transactionAddresses c \<and> m_blockHashes c' = m_blockHashes c)"

lemma bloomed_refl [simp]: "bloomed c c"
  by (simp add: bloomed_def frame_def)

lemma bloomed_trans [trans]: "bloomed c c' \<Longrightarrow> bloomed c' c'' \<Longrightarrow> bloomed c c''"
  by (simp add: bloomed_def frame_def)

lemma blocksBlooms_bloomed [simp]: "bloomed c (snd (blocksBlooms cid c))"
  by (auto simp: bloomed_def frame_def blocksBlooms_def queryExtras_def Let_def split: option.splits)

lemma set_slot_bloomed [simp]: "bloomed c (set_slot cid o' b c)"
  by (simp add: bloomed_def frame_def set_slot_def)

definition memoed :: "h256 \<Rightarrow> chain \<Rightarrow> bool" where
  "memoed cid c = (cached_chunk cid c = chunk c cid)"

lemma memoed_lookup: "memoed cid (snd (blocksBlooms cid c))"
  by (auto simp: memoed_def cached_chunk_def chunk_def through_def blocksBlooms_def queryExtras_def Let_def split: option.splits)

lemma memoed_reads: "reads c c' \<Longrightarrow> memoed cid c \<Longrightarrow> memoed cid c'"
  unfolding reads_def frame_def memoed_def cached_chunk_def chunk_def through_def fills_def
  by (elim conjE, drule spec [of _ cid], drule spec [of _ cid], drule spec [of _ cid], drule spec [of _ cid],
      drule spec [of _ cid]) (auto split: option.splits)

lemma chunk_set_slot: "chunk (set_slot cid o' b c) = (chunk c)(cid := (cached_chunk cid c)[o' := b])"
  by (auto simp: chunk_def set_slot_def through_def fun_eq_iff)

lemma memoed_set_slot: "memoed cid c \<Longrightarrow> memoed cid (set_slot cid' o' b c)"
  by (auto simp: memoed_def chunk_set_slot) (auto simp: cached_chunk_def set_slot_def)

lemma chunk_blocksBlooms [simp]: "chunk (snd (blocksBlooms cid c)) = chunk c"
  by (simp add: chain_reads)

lemma chunk_or_slot:
  "memoed (chunkId level (i div 16)) c \<Longrightarrow>
    chunk (set_slot (chunkId level (i div 16)) (i mod 16) (cached_chunk (chunkId level (i div 16)) c ! (i mod 16) OR b) c)
      = put (chunk c) level i (get (chunk c) level i OR b)"
  by (simp add: chunk_set_slot memoed_def put_def get_def)

lemma bloom_insert_spec:
  "fst (bloom_insert n b c) = [chunkId 0 (n div 16), chunkId 1 (n div 16 div 16)]
   \<and> chunk (snd (bloom_insert n b c)) =
      (let f = put (chunk c) 0 n (get (chunk c) 0 n OR b) in put f 1 (n div 16) (get f 1 (n div 16) OR b))
   \<and> bloomed c (snd (bloom_insert n b c))
   \<and> memoed (chunkId 0 (n div 16)) (snd (bloom_insert n b c)) \<and> memoed (chunkId 1 (n div 16 div 16)) (snd (bloom_insert n b c))"
proof -
  let ?i = "chunkId 0 (n div 16)" and ?j = "chunkId 1 (n div 16 div 16)"
  let ?c1 = "snd (blocksBlooms ?i c)"
  let ?c2 = "snd (blocksBlooms ?j ?c1)"
  let ?c3 = "set_slot ?i (n mod 16) (cached_chunk ?i ?c2 ! (n mod 16) OR b) ?c2"
  let ?c4 = "set_slot ?j (n div 16 mod 16) (cached_chunk ?j ?c3 ! (n div 16 mod 16) OR b) ?c3"
  have e: "bloom_insert n b c = ([?i, ?j], ?c4)"
    by (simp add: bloom_insert_def c_bloomIndexLevels_def numeral_2_eq_2 Let_def)
  have m: "memoed ?i ?c2" by (rule memoed_reads [OF blocksBlooms_reads memoed_lookup])
  have m': "memoed ?j ?c3" by (rule memoed_set_slot [OF memoed_lookup])
  have c3: "chunk ?c3 = put (chunk c) 0 n (get (chunk c) 0 n OR b)"
    using chunk_or_slot [OF m] by simp
  have "chunk ?c4 = put (chunk ?c3) 1 (n div 16) (get (chunk ?c3) 1 (n div 16) OR b)"
    by (rule chunk_or_slot [OF m'])
  moreover have "bloomed c ?c4"
    by (meson bloomed_trans blocksBlooms_bloomed set_slot_bloomed)
  ultimately show ?thesis
    unfolding e fst_conv snd_conv c3 Let_def using memoed_set_slot [OF m'] memoed_set_slot [OF memoed_set_slot [OF m]] by simp
qed

lemma bloom_insert_get:
  assumes sz: "sized (chunk c)" and n: "n < 2 ^ 28"
  shows "sized (chunk (snd (bloom_insert n b c)))"
    and "m < 2 ^ 28 \<Longrightarrow> get (chunk (snd (bloom_insert n b c))) 0 m = (if m = n then get (chunk c) 0 m OR b else get (chunk c) 0 m)"
    and "k < 2 ^ 28 \<Longrightarrow> get (chunk (snd (bloom_insert n b c))) 1 k = (if k = n div 16 then get (chunk c) 1 k OR b else get (chunk c) 1 k)"
proof -
  have d: "n div 16 < 2 ^ 28" using n by (simp add: div_less_iff_less_mult)
  let ?f = "put (chunk c) 0 n (get (chunk c) 0 n OR b)"
  have e: "chunk (snd (bloom_insert n b c)) = put ?f 1 (n div 16) (get ?f 1 (n div 16) OR b)"
    using bloom_insert_spec [of n b c] by (simp add: Let_def)
  have f: "sized ?f" using sz by simp
  have l: "(0 :: nat) < 2" "(1 :: nat) < 2" by simp_all
  note g = get_put [OF f l(2) _ d] get_put [OF sz l(1) _ n]
  show "sized (chunk (snd (bloom_insert n b c)))" unfolding e using f by simp
  show "get (chunk (snd (bloom_insert n b c))) 0 m = (if m = n then get (chunk c) 0 m OR b else get (chunk c) 0 m)" if "m < 2 ^ 28"
    unfolding e using that g(1) [OF l(1) that] g(2) [OF l(1) that] by auto
  show "get (chunk (snd (bloom_insert n b c))) 1 k = (if k = n div 16 then get (chunk c) 1 k OR b else get (chunk c) 1 k)" if "k < 2 ^ 28"
    unfolding e using g(1) [OF l(2) that] g(2) [OF l(2) that] g(2) [OF l(2) d] by auto
qed

lemma indexed_insert:
  assumes "sized (chunk c)" "n < 2 ^ 28" "m < 2 ^ 28"
  shows "indexed (chunk c) m B \<Longrightarrow> indexed (chunk (snd (bloom_insert n b c))) m B"
    and "indexed (chunk (snd (bloom_insert n b c))) n b"
proof -
  have d: "m div 16 < 2 ^ 28" "n div 16 < 2 ^ 28" using assms by (simp_all add: div_less_iff_less_mult)
  show "indexed (chunk c) m B \<Longrightarrow> indexed (chunk (snd (bloom_insert n b c))) m B"
    unfolding indexed_def bloom_insert_get(2) [OF assms] bloom_insert_get(3) [OF assms(1,2) d(1)] by (auto intro: bloom_or_contains(1))
  show "indexed (chunk (snd (bloom_insert n b c))) n b"
    unfolding indexed_def bloom_insert_get(2) [OF assms(1,2,2)] bloom_insert_get(3) [OF assms(1,2) d(2)] by (simp add: bloom_or_contains(2))
qed

subsection \<open>Clearing\<close>

definition rebuilt :: "(h256 \<Rightarrow> log_bloom list) \<Rightarrow> nat \<Rightarrow> nat \<Rightarrow> log_bloom" where
  "rebuilt f level k = (if level = 0 then 0 else fold (\<lambda>b acc. acc OR b) (f (chunkId (level - 1) k)) 0)"

lemma clear_item_spec:
  "chunk (clear_item level it c) =
     put (chunk c) level (unat it) (rebuilt (chunk c) level (unat it))
   \<and> bloomed c (clear_item level it c)"
proof -
  let ?i = "chunkId level (unat it div 16)"
  let ?c1 = "if level \<noteq> 0 then snd (blocksBlooms (chunkId (level - 1) (unat it)) c) else c"
  let ?acc = "rebuilt (chunk c) level (unat it)"
  let ?c2 = "snd (blocksBlooms ?i ?c1)"
  have e: "clear_item level it c = set_slot ?i (unat it mod 16) ?acc ?c2"
    by (simp add: clear_item_def rebuilt_def Let_def split_def blocksBlooms_val)
  have "chunk ?c2 = chunk c" by simp
  moreover have "memoed ?i ?c2" by (rule memoed_lookup)
  ultimately have "chunk (set_slot ?i (unat it mod 16) ?acc ?c2) = put (chunk c) level (unat it) ?acc"
    by (simp add: chunk_set_slot memoed_def put_def)
  moreover have "bloomed c ?c1" by simp
  then have "bloomed c (set_slot ?i (unat it mod 16) ?acc ?c2)" by (meson bloomed_trans blocksBlooms_bloomed set_slot_bloomed)
  ultimately show ?thesis unfolding e by simp
qed

lemma item_loop_spec:
  assumes "level < 2" "it \<le> e" "unat e \<le> 2 ^ 28" "level \<noteq> 0 \<longrightarrow> unat e \<le> 2 ^ 24" "sized (chunk c)"
  shows "sized (chunk (item_loop level it e c)) \<and> bloomed c (item_loop level it e c)
    \<and> (\<forall>l' k. l' < 2 \<longrightarrow> k < 2 ^ 28 \<longrightarrow> get (chunk (item_loop level it e c)) l' k =
         (if l' = level \<and> unat it \<le> k \<and> k < unat e then rebuilt (chunk c) level k else get (chunk c) l' k))"
  using assms
proof (induction level it e c rule: item_loop.induct)
  case (1 level it e c)
  show ?case
  proof (cases "it = e")
    case True
    then have "item_loop level it e c = c" by (subst item_loop.simps) simp
    moreover have "\<not> (unat it \<le> k \<and> k < unat e)" for k using True by simp
    ultimately show ?thesis using 1(6) by (simp only: bloomed_refl simp_thms if_False)
  next
    case False
    then have lt: "it < e" using 1(3) by simp
    then have un: "unat it < unat e" by (simp add: word_less_nat_alt)
    then have "Suc (unat it) < 2 ^ 32" using 1(4) by simp
    then have i1: "unat (it + 1) = Suc (unat it)" by (simp add: unat_word_ariths)
    then have le: "it + 1 \<le> e" using un by (simp add: word_le_nat_alt)
    let ?c = "clear_item level it c"
    have s: "chunk ?c = put (chunk c) level (unat it) (rebuilt (chunk c) level (unat it))" "bloomed c ?c"
      using clear_item_spec [of level it c] by simp_all
    have sz: "sized (chunk ?c)" using s 1(6) by simp
    note IH = 1(1) [OF False 1(2) le 1(4,5) sz]
    have e: "item_loop level it e c = item_loop level (it + 1) e ?c" using False by (subst item_loop.simps) simp
    have low: "rebuilt (chunk ?c) level k = rebuilt (chunk c) level k" if "k < unat e" for k
    proof (cases "level = 0")
      case L: False
      have "unat it div 16 < 2 ^ 24" using un 1(4) by (simp add: div_less_iff_less_mult)
      then have "chunkId (level - 1) k \<noteq> chunkId level (unat it div 16)"
        using chunkId_inject [of "level - 1" level k "unat it div 16"] L that 1(2,5) by simp
      then show ?thesis using s(1) by (simp add: rebuilt_def put_def)
    qed (simp add: rebuilt_def)
    have at: "get (chunk ?c) l' k = (if level = l' \<and> unat it = k then rebuilt (chunk c) level (unat it) else get (chunk c) l' k)"
      if "l' < 2" "k < 2 ^ 28" for l' k
      unfolding s(1) using un 1(4) that by (intro get_put [OF 1(6) 1(2)]) simp_all
    have "get (chunk (item_loop level it e c)) l' k =
         (if l' = level \<and> unat it \<le> k \<and> k < unat e then rebuilt (chunk c) level k else get (chunk c) l' k)" if "l' < 2" "k < 2 ^ 28" for l' k
      unfolding e using IH that at [OF that] low [of k] un unfolding i1 by (auto simp: Suc_le_eq)
    then show ?thesis using IH bloomed_trans [OF s(2)] unfolding e by simp
  qed
qed

lemma rebuilt_contains:
  assumes "sized f" and "bloom_contains (get f 0 m) B"
  shows "bloom_contains (rebuilt f 1 (m div 16)) B"
proof -
  let ?bb = "f (chunkId 0 (m div 16))"
  have "get f 0 m \<in> set ?bb" using assms(1) by (simp add: get_def sized_def)
  moreover have "\<forall>x\<in>set ?bb. bloom_contains (fold (\<lambda>b acc. acc OR b) ?bb 0) x"
    using fold_or_contains [of "fold (\<lambda>b acc. acc OR b) ?bb 0" "\<lambda>b. b" ?bb 0] by simp
  ultimately show ?thesis using assms(2) bloom_contains_trans by (auto simp: rebuilt_def)
qed

lemma clearBlockBlooms_spec:
  assumes be: "b < e" and e: "unat e \<le> 2 ^ 28" and sz: "sized (chunk c)"
  shows "sized (chunk (clearBlockBlooms b e c)) \<and> bloomed c (clearBlockBlooms b e c)
    \<and> (\<forall>m B. m < 2 ^ 28 \<longrightarrow> (m < unat b \<or> unat e \<le> m) \<longrightarrow> indexed (chunk c) m B \<longrightarrow> indexed (chunk (clearBlockBlooms b e c)) m B)"
proof -
  let ?c = "item_loop 0 b e c"
  let ?b = "b div c_bloomIndexSize" and ?e = "(e - 1) div c_bloomIndexSize + 1"
  have cl: "clearBlockBlooms b e c = item_loop 1 ?b ?e ?c"
    by (simp add: clearBlockBlooms_def c_bloomIndexLevels_def numeral_2_eq_2)
  have ub: "unat ?b = unat b div 16" by (simp add: c_bloomIndexSize_def unat_div)
  have e0: "e \<noteq> 0" using be by auto
  have u1: "unat (e - 1) = unat e - 1" using unat_minus_one [OF e0] .
  have "unat ((e - 1) div c_bloomIndexSize) = (unat e - 1) div 16" by (simp add: c_bloomIndexSize_def unat_div u1)
  moreover have le: "(unat e - 1) div 16 < 2 ^ 24" using e e0 by (simp add: div_less_iff_less_mult unat_gt_0 [symmetric])
  ultimately have ue: "unat ?e = (unat e - 1) div 16 + 1" by (simp add: unat_word_ariths)
  have "unat b < unat e" using be by (simp add: word_less_nat_alt)
  then have "unat b div 16 \<le> (unat e - 1) div 16" by (intro div_le_mono) simp
  then have bes: "?b \<le> ?e" using ub ue by (simp add: word_le_nat_alt)
  have s0: "sized (chunk ?c)" "bloomed c ?c" and g0: "l' < 2 \<Longrightarrow> k < 2 ^ 28 \<Longrightarrow> get (chunk ?c) l' k =
      (if l' = 0 \<and> unat b \<le> k \<and> k < unat e then rebuilt (chunk c) 0 k else get (chunk c) l' k)" for l' k
    using item_loop_spec [of 0 b e c] be e sz by simp_all
  have "unat ?e \<le> 2 ^ 24" "unat ?e \<le> 2 ^ 28" using le ue by simp_all
  then have s1: "sized (chunk (item_loop 1 ?b ?e ?c))" "bloomed ?c (item_loop 1 ?b ?e ?c)"
    and g1: "l' < 2 \<Longrightarrow> k < 2 ^ 28 \<Longrightarrow> get (chunk (item_loop 1 ?b ?e ?c)) l' k =
      (if l' = 1 \<and> unat ?b \<le> k \<and> k < unat ?e then rebuilt (chunk ?c) 1 k else get (chunk ?c) l' k)" for l' k
    using item_loop_spec [of 1 ?b ?e ?c] bes s0(1) by (simp_all del: One_nat_def)
  have "indexed (chunk (item_loop 1 ?b ?e ?c)) m B" if m: "m < 2 ^ 28" "m < unat b \<or> unat e \<le> m" "indexed (chunk c) m B" for m B
  proof -
    have d: "m div 16 < 2 ^ 28" using m(1) by (simp add: div_less_iff_less_mult)
    have l: "(0 :: nat) < 2" "(1 :: nat) < 2" by simp_all
    have a: "bloom_contains (get (chunk ?c) 0 m) B" "bloom_contains (get (chunk ?c) 1 (m div 16)) B"
    proof -
      have "get (chunk ?c) 0 m = get (chunk c) 0 m" unfolding g0 [OF l(1) m(1)] using m(2) by auto
      moreover have "get (chunk ?c) 1 (m div 16) = get (chunk c) 1 (m div 16)" unfolding g0 [OF l(2) d] by simp
      ultimately show "bloom_contains (get (chunk ?c) 0 m) B" "bloom_contains (get (chunk ?c) 1 (m div 16)) B"
        using m(3) unfolding indexed_def by (simp_all only: simp_thms)
    qed
    have "get (chunk (item_loop 1 ?b ?e ?c)) 0 m = get (chunk ?c) 0 m" unfolding g1 [OF l(1) m(1)] by simp
    moreover have "bloom_contains (get (chunk (item_loop 1 ?b ?e ?c)) 1 (m div 16)) B"
      unfolding g1 [OF l(2) d] using a(2) rebuilt_contains [OF s0(1) a(1)] by (cases "unat ?b \<le> m div 16 \<and> m div 16 < unat ?e") simp_all
    ultimately show ?thesis unfolding indexed_def using a(1) by (simp only: simp_thms)
  qed
  then show ?thesis unfolding cl using s1 bloomed_trans [OF s0(2) s1(2)] by blast
qed

end
