(* ===== verification/Elhash.thy ===== *)
theory Elhash
  imports Block_Header
begin

text \<open>
  \<^verbatim>\<open>libelhashseal/Elhash.cpp\<close>, \<^verbatim>\<open>Elhash.h\<close>, the seed hashes of \<^verbatim>\<open>ElhashAux.cpp\<close> and
  the parameters of \<^verbatim>\<open>ChainOperationParams.cpp\<close>: the rules of a proof-of-work chain for the
  difficulty, the gas limit and the seal of a block.  The proof-of-work function of \<^verbatim>\<open>libelhash\<close> is a
  parameter; farming and the choice of miners are left out.
\<close>

section \<open>Parameters of the chain\<close>

record chain_params =
  maximumExtraDataSize :: u256
  otherParams :: "string \<rightharpoonup> string"

definition default_params :: chain_params where
  "default_params =
     \<lparr>maximumExtraDataSize = 1024,
      otherParams = map_of
        [(''minGasLimit'', ''0x1388''), (''maxGasLimit'', ''0x7fffffffffffffff''),
         (''gasLimitBoundDivisor'', ''0x0400''), (''minimumDifficulty'', ''0x020000''),
         (''difficultyBoundDivisor'', ''0x0800''), (''durationLimit'', ''0x0d''),
         (''registrar'', ''5e70c0bbcd5636e0f9f9316e9f8633feb64d4050''), (''networkID'', ''0x0'')]\<rparr>"

definition u256Param :: "chain_params \<Rightarrow> string \<Rightarrow> u256" where
  "u256Param P name =
     (let at = (case otherParams P name of None \<Rightarrow> '''' | Some s \<Rightarrow> s) in
      case fromHex at DontThrow of Inl _ \<Rightarrow> 0 | Inr b \<Rightarrow> fromBigEndian b)"

section \<open>Seed hashes\<close>

text \<open>\<^verbatim>\<open>ElhashAux::seedHash\<close> keeps the seeds of the epochs it has seen.  \<open>ret\<close> is the seed of
  epoch \<open>n\<close>.\<close>

definition ELHASH_EPOCH_LENGTH :: nat where "ELHASH_EPOCH_LENGTH = 30000"

definition next_seed :: "h256 \<Rightarrow> h256" where
  "next_seed h = sha3 (toBigEndian 32 (unat h))"

function seed_loop :: "nat \<Rightarrow> nat \<Rightarrow> h256 \<Rightarrow> h256 list \<Rightarrow> h256 list" where
  "seed_loop epoch n ret m = (if n \<le> epoch then seed_loop epoch (Suc n) (next_seed ret) (m[n := ret]) else m)"
  by pat_completeness auto

termination seed_loop
  by (relation "measure (\<lambda>(epoch, n, ret, m). Suc epoch - n)") auto

declare seed_loop.simps [simp del]

definition aux_seedHash :: "nat \<Rightarrow> h256 list \<Rightarrow> h256 \<times> h256 list" where
  "aux_seedHash number m =
     (let epoch = number div ELHASH_EPOCH_LENGTH;
          m' = (if epoch \<ge> length m then
                  seed_loop epoch (if m \<noteq> [] then length m - 1 else 0) (if m \<noteq> [] then last m else 0)
                    (m @ replicate (epoch + 1 - length m) 0)
                else m)
      in (m' ! epoch, m'))"

section \<open>Difficulty and gas limit\<close>

definition calculateDifficulty :: "chain_params \<Rightarrow> block_header \<Rightarrow> block_header \<Rightarrow> block_error + u256" where
  "calculateDifficulty P bi parent =
     (if h_number bi = 0 then Inl GenesisBlockCannotBeCalculated
      else
        let minimumDifficulty = u256Param P ''minimumDifficulty'';
            difficultyBoundDivisor = u256Param P ''difficultyBoundDivisor'';
            durationLimit = u256Param P ''durationLimit'';
            pd = h_difficulty parent in
        res_bind
          (if h_number bi < u256Param P ''frontierCompatibilityModeLimit'' then
             (if difficultyBoundDivisor = 0 then Inl DivisionByZero
              else Inr (uint (if h_timestamp bi \<ge> h_timestamp parent + durationLimit then pd - pd div difficultyBoundDivisor
                              else pd + pd div difficultyBoundDivisor)))
           else Inr (uint pd + uint (pd div 2048) * max (1 - (uint (h_timestamp bi) - uint (h_timestamp parent)) sdiv 10) (- 99)))
          (\<lambda>target.
            let periodCount = unat (h_number parent + 1) mod 2 ^ 32 div 100000;
                o1 = (if periodCount > 1 then target + 2 ^ (periodCount - 2) else target);
                o2 = max (uint minimumDifficulty) o1
            in Inr (word_of_int (min o2 (2 ^ 256 - 1)))))"

definition childGasLimit :: "chain_params \<Rightarrow> block_header \<Rightarrow> u256 \<Rightarrow> block_error + u256" where
  "childGasLimit P bi floor =
     (let gasFloorTarget = (if floor = Invalid256 then 3141562 else floor);
          gasLimit = h_gasLimit bi;
          boundDivisor = u256Param P ''gasLimitBoundDivisor'' in
      if boundDivisor = 0 then Inl DivisionByZero
      else if gasLimit < gasFloorTarget then Inr (min gasFloorTarget (gasLimit + gasLimit div boundDivisor - 1))
      else Inr (max gasFloorTarget (gasLimit - gasLimit div boundDivisor + 1 + (h_gasUsed bi * 6 div 5) div boundDivisor)))"

definition elhash_populateFromParent :: "chain_params \<Rightarrow> block_header \<Rightarrow> block_header \<Rightarrow> block_error + block_header" where
  "elhash_populateFromParent P bi parent =
     (let b = header_populateFromParent parent bi in
      res_bind (calculateDifficulty P b parent) (\<lambda>d.
      let b1 = setDifficulty d b in
      res_bind (childGasLimit P parent Invalid256) (\<lambda>g. Inr (setGasLimit g b1))))"

section \<open>The seal\<close>

text \<open>The functions of \<^verbatim>\<open>libelhash\<close>: \<^verbatim>\<open>elhash_quick_check_difficulty\<close>, and \<^verbatim>\<open>ElhashAux::eval\<close>
  with the value and the mix hash as its result.\<close>

record pow_funs =
  quick_check_difficulty :: "h256 \<Rightarrow> u64 \<Rightarrow> h256 \<Rightarrow> h256 \<Rightarrow> bool"
  aux_eval :: "h256 \<Rightarrow> h256 \<Rightarrow> u64 \<Rightarrow> h256 \<times> h256"

definition header_nonce :: "block_header \<Rightarrow> block_error + u64" where
  "header_nonce bi = header_sealed 8 1 bi"

definition header_mixHash :: "block_header \<Rightarrow> block_error + h256" where
  "header_mixHash bi = header_sealed 32 0 bi"

definition boundary :: "block_header \<Rightarrow> h256" where
  "boundary bi = (if h_difficulty bi \<noteq> 0 then word_of_nat (2 ^ 256 div unat (h_difficulty bi)) else 0)"

definition quickVerifySeal :: "pow_funs \<Rightarrow> block_header \<Rightarrow> block_error + bool" where
  "quickVerifySeal F bi =
     (if unat (h_number bi) \<ge> ELHASH_EPOCH_LENGTH * 2048 then Inr False
      else
        res_bind (header_hash WithoutSeal bi) (\<lambda>(h, _).
        res_bind (header_mixHash bi) (\<lambda>m.
        res_bind (header_nonce bi) (\<lambda>n. Inr (quick_check_difficulty F h n m (boundary bi))))))"

text \<open>\<^verbatim>\<open>verifySeal\<close> as it is built without \<^verbatim>\<open>ELE_DEBUG\<close>; \<open>m\<close> are the seeds of \<^verbatim>\<open>ElhashAux\<close>.\<close>

definition verifySeal :: "pow_funs \<Rightarrow> h256 list \<Rightarrow> block_header \<Rightarrow> block_error + bool" where
  "verifySeal F m bi =
     res_bind (quickVerifySeal F bi) (\<lambda>pre.
       if \<not> pre then Inr False
       else
         res_bind (header_hash WithoutSeal bi) (\<lambda>(h, _).
         res_bind (header_nonce bi) (\<lambda>n.
         res_bind (header_mixHash bi) (\<lambda>mix.
           let seed = fst (aux_seedHash (unat (h_number bi) mod 2 ^ 32) m); (value, mixHash) = aux_eval F seed h n
           in Inr (value \<le> boundary bi \<and> mixHash = mix)))))"

section \<open>Verification\<close>

definition verify_parent :: "chain_params \<Rightarrow> block_header \<Rightarrow> block_header \<Rightarrow> block_error + unit" where
  "verify_parent P bi parent =
     res_bind (calculateDifficulty P bi parent) (\<lambda>expected.
       if h_difficulty bi \<noteq> expected then Inl InvalidDifficulty
       else
         let gasLimit = h_gasLimit bi; parentGasLimit = h_gasLimit parent; d = u256Param P ''gasLimitBoundDivisor'' in
         if gasLimit < u256Param P ''minGasLimit'' \<or> gasLimit > u256Param P ''maxGasLimit'' then Inl InvalidGasLimit
         else if d = 0 then Inl DivisionByZero
         else if gasLimit \<le> parentGasLimit - parentGasLimit div d \<or> gasLimit \<ge> parentGasLimit + parentGasLimit div d
         then Inl InvalidGasLimit
         else Inr ())"

definition elhash_verify ::
  "chain_params \<Rightarrow> pow_funs \<Rightarrow> h256 list \<Rightarrow> Strictness \<Rightarrow> block_header \<Rightarrow> block_header \<Rightarrow> bytes \<Rightarrow> block_error + unit" where
  "elhash_verify P F m s bi parent block =
     res_bind (header_verify s bi parent block) (\<lambda>_.
     if s \<noteq> CheckNothingNew \<and> h_difficulty bi < u256Param P ''minimumDifficulty'' then Inl InvalidDifficulty
     else if s \<noteq> CheckNothingNew \<and> h_gasLimit bi < u256Param P ''minGasLimit'' then Inl InvalidGasLimit
     else if s \<noteq> CheckNothingNew \<and> h_gasLimit bi > u256Param P ''maxGasLimit'' then Inl InvalidGasLimit
     else if s \<noteq> CheckNothingNew \<and> h_number bi \<noteq> 0 \<and> length (h_extraData bi) > unat (maximumExtraDataSize P) then Inl ExtraDataTooBig
     else
       res_bind (if header_exists parent then verify_parent P bi parent else Inr ()) (\<lambda>_.
       if s = CheckEverything \<and> h_parentHash bi \<noteq> 0 then
         res_bind (verifySeal F m bi) (\<lambda>ok. if ok then Inr () else Inl InvalidBlockNonce)
       else if s = QuickNonce \<and> h_parentHash bi \<noteq> 0 then
         res_bind (quickVerifySeal F bi) (\<lambda>ok. if ok then Inr () else Inl InvalidBlockNonce)
       else Inr ()))"

section \<open>Transactions\<close>

definition TransactionBasic :: nat where "TransactionBasic = 8"
definition TransactionSignatures :: nat where "TransactionSignatures = 32"

datatype verify_error = VerifyTx tx_error | OutOfGasIntrinsic

definition elhash_evmSchedule :: "chain_params \<Rightarrow> u256 \<Rightarrow> schedule" where
  "elhash_evmSchedule P number =
     (if number \<ge> u256Param P ''frontierCompatibilityModeLimit'' then HomesteadSchedule else FrontierSchedule)"

definition elhash_verifyTransaction :: "chain_params \<Rightarrow> nat \<Rightarrow> transaction \<Rightarrow> block_header \<Rightarrow> verify_error + unit" where
  "elhash_verifyTransaction P ir t bi =
     res_bind
       (if has_flag ir TransactionSignatures \<and> h_number bi \<ge> u256Param P ''frontierCompatibilityModeLimit'' then
          (case checkLowS t of Inl e \<Rightarrow> Inl (VerifyTx e) | Inr _ \<Rightarrow> Inr ())
        else Inr ()) (\<lambda>_.
       if has_flag ir TransactionBasic \<and> tx_gasRequired (elhash_evmSchedule P (h_number bi)) t > unat (t_gas t)
       then Inl OutOfGasIntrinsic else Inr ())"

section \<open>Seeds\<close>

definition seed :: "nat \<Rightarrow> h256" where
  "seed i = (next_seed ^^ i) 0"

definition seeds_ok :: "h256 list \<Rightarrow> bool" where
  "seeds_ok m = (\<forall>i<length m. m ! i = seed i)"

lemma seed_Suc: "next_seed (seed i) = seed (Suc i)"
  by (simp add: seed_def)

lemma seed_loop_seeds:
  assumes "\<forall>i<n. i < length m \<longrightarrow> m ! i = seed i" and "length m = Suc epoch" and "n \<le> Suc epoch"
  shows "seeds_ok (seed_loop epoch n (seed n) m) \<and> length (seed_loop epoch n (seed n) m) = Suc epoch"
  using assms
proof (induction "Suc epoch - n" arbitrary: n m)
  case 0
  then have "n = Suc epoch" by simp
  then show ?case using 0 by (subst (1 2) seed_loop.simps) (auto simp: seeds_ok_def)
next
  case (Suc k)
  then have n: "n \<le> epoch" by simp
  have "\<forall>i<Suc n. i < length (m[n := seed n]) \<longrightarrow> m[n := seed n] ! i = seed i"
    using Suc.prems by (auto simp: nth_list_update less_Suc_eq)
  then have "seeds_ok (seed_loop epoch (Suc n) (seed (Suc n)) (m[n := seed n]))
      \<and> length (seed_loop epoch (Suc n) (seed (Suc n)) (m[n := seed n])) = Suc epoch"
    using Suc n by (intro Suc.hyps(1)) auto
  then show ?case using n by (subst (1 2) seed_loop.simps) (simp add: seed_Suc)
qed

lemma aux_seedHash_ok:
  assumes "seeds_ok m"
  shows "fst (aux_seedHash number m) = seed (number div ELHASH_EPOCH_LENGTH) \<and> seeds_ok (snd (aux_seedHash number m))"
proof (cases "length m \<le> number div ELHASH_EPOCH_LENGTH")
  case True
  let ?e = "number div ELHASH_EPOCH_LENGTH" and ?n = "if m \<noteq> [] then length m - 1 else 0"
  let ?m = "m @ replicate (?e + 1 - length m) 0"
  have r: "(if m \<noteq> [] then last m else 0) = seed ?n" using assms by (simp add: seeds_ok_def last_conv_nth seed_def)
  have "seeds_ok (seed_loop ?e ?n (seed ?n) ?m) \<and> length (seed_loop ?e ?n (seed ?n) ?m) = Suc ?e"
    using True assms by (intro seed_loop_seeds) (auto simp: seeds_ok_def nth_append)
  then show ?thesis using True r by (simp add: aux_seedHash_def seeds_ok_def Let_def)
qed (use assms in \<open>simp add: aux_seedHash_def seeds_ok_def Let_def\<close>)

section \<open>Bounds\<close>

definition bomb :: "block_header \<Rightarrow> int" where
  "bomb parent = (let n = unat (h_number parent + 1) mod 2 ^ 32 div 100000 in if n > 1 then 2 ^ (n - 2) else 0)"

definition homestead_target :: "u256 \<Rightarrow> u256 \<Rightarrow> u256 \<Rightarrow> int" where
  "homestead_target d t pt = uint d + uint (d div 2048) * max (1 - (uint t - uint pt) sdiv 10) (- 99)"

definition capped :: "u256 \<Rightarrow> int \<Rightarrow> u256" where
  "capped m x = word_of_int (min (max (uint m) x) (2 ^ 256 - 1))"

definition frontier_target :: "u256 \<Rightarrow> u256 \<Rightarrow> u256 \<Rightarrow> u256 \<Rightarrow> u256 \<Rightarrow> int" where
  "frontier_target b l d t pt = uint (if t \<ge> pt + l then d - d div b else d + d div b)"

lemma calculateDifficulty_eq:
  "calculateDifficulty P bi parent =
     (let b = u256Param P ''difficultyBoundDivisor''; fr = h_number bi < u256Param P ''frontierCompatibilityModeLimit''
      in if h_number bi = 0 then Inl GenesisBlockCannotBeCalculated
         else if fr \<and> b = 0 then Inl DivisionByZero
         else Inr (capped (u256Param P ''minimumDifficulty'')
           ((if fr then frontier_target b (u256Param P ''durationLimit'') (h_difficulty parent) (h_timestamp bi) (h_timestamp parent)
             else homestead_target (h_difficulty parent) (h_timestamp bi) (h_timestamp parent)) + bomb parent)))"
  unfolding calculateDifficulty_def Let_def capped_def homestead_target_def frontier_target_def bomb_def
  by (cases "h_number bi = 0"; cases "u256Param P ''difficultyBoundDivisor'' = 0";
      cases "h_number bi < u256Param P ''frontierCompatibilityModeLimit''";
      cases "unat (h_number parent + 1) mod 2 ^ 32 div 100000 > 1")
    (simp_all only: res_bind_simps if_True if_False simp_thms add_0_right)

lemma calculateDifficulty_homestead:
  assumes "h_number bi \<noteq> 0" and "\<not> h_number bi < u256Param P ''frontierCompatibilityModeLimit''"
  shows "calculateDifficulty P bi parent =
    Inr (capped (u256Param P ''minimumDifficulty'') (homestead_target (h_difficulty parent) (h_timestamp bi) (h_timestamp parent) + bomb parent))"
  using assms by (simp add: calculateDifficulty_eq)

lemma capped_bounds:
  shows "uint (capped m x) = min (max (uint m) x) (2 ^ 256 - 1)"
proof -
  have "uint m < 2 ^ 256" "0 \<le> uint m" using uint_bounded [of m] by auto
  then have "0 \<le> min (max (uint m) x) (2 ^ 256 - 1)" "min (max (uint m) x) (2 ^ 256 - 1) < 2 ^ 256" by (auto simp: le_max_iff_disj)
  then show ?thesis unfolding capped_def by (simp add: uint_word_of_int)
qed

lemma capped_ge: "m \<le> capped m x"
  using capped_bounds [of m x] uint_bounded [of m] by (simp add: word_le_def)

lemma capped_mono: "x \<le> y \<Longrightarrow> capped m x \<le> capped m y"
  using capped_bounds [of m x] capped_bounds [of m y] by (simp add: word_le_def)

lemma sdiv_10_mono: "(a :: int) \<le> b \<Longrightarrow> a sdiv 10 \<le> b sdiv 10"
  by (auto simp: signed_divide_int_def sgn_if zdiv_mono1) presburger

lemma homestead_target_antimono: "t \<le> t' \<Longrightarrow> homestead_target d t' pt \<le> homestead_target d t pt"
  unfolding homestead_target_def
  using sdiv_10_mono [of "uint t - uint pt" "uint t' - uint pt"]
  by (intro add_left_mono mult_left_mono) (auto simp: word_le_def)

lemma homestead_target_bounds:
  shows "pt \<le> t \<Longrightarrow> homestead_target d t pt \<le> uint d + uint (d div 2048)"
    and "uint d - 99 * uint (d div 2048) \<le> homestead_target d t pt"
proof -
  let ?q = "uint (d div 2048)" and ?f = "max (1 - (uint t - uint pt) sdiv 10) (- 99)"
  have q: "0 \<le> ?q" by simp
  show "uint d - 99 * ?q \<le> homestead_target d t pt"
    using mult_left_mono [OF _ q, of "- 99" ?f] by (simp add: homestead_target_def mult.commute)
  assume "pt \<le> t"
  then have "(uint t - uint pt) sdiv 10 \<ge> 0" using sdiv_10_mono [of 0 "uint t - uint pt"] by (simp add: word_le_def)
  then have "?f \<le> 1" by simp
  then show "homestead_target d t pt \<le> uint d + ?q"
    using mult_left_mono [OF _ q, of ?f 1] by (simp add: homestead_target_def)
qed

text \<open>Whatever the era, the difficulty is a function of the two headers' numbers and times and the parent's
  difficulty, and not below the minimum.\<close>

lemma calculateDifficulty_returns:
  assumes "h_number bi \<noteq> 0" and "u256Param P ''difficultyBoundDivisor'' \<noteq> 0"
  shows "\<exists>d. calculateDifficulty P bi parent = Inr d \<and> u256Param P ''minimumDifficulty'' \<le> d"
  using assms capped_ge by (simp add: calculateDifficulty_eq Let_def)

lemma calculateDifficulty_cong:
  "h_number b = h_number bi \<Longrightarrow> h_timestamp b = h_timestamp bi \<Longrightarrow> calculateDifficulty P b parent = calculateDifficulty P bi parent"
  by (simp add: calculateDifficulty_eq Let_def)

subsection \<open>The gas limit of a child\<close>

text \<open>What the rules need of the chain's parameters and the parent's gas limit \<open>p\<close>: a limit that the
  bound divisor moves by at least four, room below the maximum, a floor target within the limits.\<close>

definition gas_params_ok :: "chain_params \<Rightarrow> u256 \<Rightarrow> bool" where
  "gas_params_ok P p =
     (let d = unat (u256Param P ''gasLimitBoundDivisor'') in
      0 < d \<and> 4 * d \<le> unat p \<and> unat (u256Param P ''minGasLimit'') \<le> 3141562
      \<and> u256Param P ''minGasLimit'' \<le> p \<and> 3141562 \<le> unat (u256Param P ''maxGasLimit'')
      \<and> unat p + unat p div d \<le> unat (u256Param P ''maxGasLimit'') \<and> unat p * 6 < 2 ^ 256)"

lemma used_share:
  fixes p d u :: nat
  assumes "0 < d" and "4 * d \<le> p" and "u \<le> p"
  shows "u * 6 div 5 div d + 1 < 2 * (p div d)"
proof -
  let ?q = "p div d"
  have q: "4 \<le> ?q" using assms by (simp add: less_eq_div_iff_mult_less_eq mult.commute)
  have "u * 6 div 5 div d = u * 6 div (5 * d)" by (simp add: div_mult2_eq)
  also have "\<dots> \<le> p * 6 div (5 * d)" using assms(3) by (intro div_le_mono) simp
  also have "p * 6 < (?q + 1) * d * 6" using assms(1) dividend_less_div_times [of d p] by (simp add: algebra_simps)
  then have "p * 6 div (5 * d) < 2 * ?q - 1"
  proof -
    assume p: "p * 6 < (?q + 1) * d * 6"
    have "(?q + 1) * 6 \<le> (2 * ?q - 1) * 5" using q by simp
    then have "(?q + 1) * 6 * d \<le> (2 * ?q - 1) * 5 * d" by (rule mult_le_mono1)
    then have "p * 6 < (2 * ?q - 1) * (5 * d)" using p by (simp add: algebra_simps)
    then show ?thesis using assms(1) by (simp add: div_less_iff_less_mult)
  qed
  finally show ?thesis by simp
qed

lemma childGasLimit_ok:
  assumes ok: "gas_params_ok P (h_gasLimit bi)" and used: "h_gasUsed bi \<le> h_gasLimit bi"
  shows "\<exists>g. childGasLimit P bi Invalid256 = Inr g \<and> u256Param P ''minGasLimit'' \<le> g \<and> g \<le> u256Param P ''maxGasLimit''
    \<and> h_gasLimit bi - h_gasLimit bi div u256Param P ''gasLimitBoundDivisor'' < g
    \<and> g < h_gasLimit bi + h_gasLimit bi div u256Param P ''gasLimitBoundDivisor''"
proof -
  define p d u f :: u256 where "p = h_gasLimit bi" and "d = u256Param P ''gasLimitBoundDivisor''" and "u = h_gasUsed bi" and "f = 3141562"
  define q where "q = unat p div unat d"
  note ok' = ok [unfolded gas_params_ok_def Let_def, folded p_def d_def]
  have d: "0 < unat d" "4 * unat d \<le> unat p" using ok' by auto
  have q: "4 \<le> q" "q \<le> unat p" using d by (simp_all add: q_def less_eq_div_iff_mult_less_eq mult.commute)
  have u: "unat u \<le> unat p" using used by (simp add: u_def p_def word_le_nat_alt)
  have f: "unat f = 3141562" by (simp add: f_def)
  have M: "unat p + q < 2 ^ 256" using ok' unat_u256_less [of "u256Param P ''maxGasLimit''"] by (simp add: q_def)
  have qw: "unat (p div d) = q" by (simp add: q_def unat_div)
  define r where "r = unat u * 6 div 5 div unat d"
  have r: "r + 1 < 2 * q" using used_share [OF d u] by (simp add: r_def q_def)
  have "unat (u * 6) = unat u * 6" using u ok' by (simp add: unat_word_ariths)
  then have rw: "unat (u * 6 div 5 div d) = r" by (simp add: r_def unat_div)
  have add: "unat (p + p div d) = unat p + q" using M qw by (simp add: unat_add_u256)
  have sub: "unat (p - p div d) = unat p - q" using q qw by (simp add: unat_sub word_le_nat_alt)
  have lo: "unat (p + p div d - 1) = unat p + q - 1" using add q by (subst unat_sub) (simp_all add: word_le_nat_alt)
  have hi: "unat (p - p div d + 1 + u * 6 div 5 div d) = unat p - q + 1 + r"
    using sub rw r M q by (simp add: unat_add_u256)
  have dn: "d \<noteq> 0" using d by auto
  have c: "childGasLimit P bi Invalid256 = Inr (if p < f then min f (p + p div d - 1) else max f (p - p div d + 1 + u * 6 div 5 div d))"
    using dn by (simp add: childGasLimit_def Let_def p_def d_def u_def f_def)
  have m: "unat (u256Param P ''minGasLimit'') \<le> unat f" "unat (u256Param P ''minGasLimit'') \<le> unat p"
    "unat f \<le> unat (u256Param P ''maxGasLimit'')" "unat p + q \<le> unat (u256Param P ''maxGasLimit'')"
    using ok' f by (simp_all add: word_le_nat_alt q_def)
  have bnd: "unat p - q < unat g \<and> unat g < unat p + q \<and> unat (u256Param P ''minGasLimit'') \<le> unat g \<and> unat g \<le> unat (u256Param P ''maxGasLimit'')"
    if "g = (if p < f then min f (p + p div d - 1) else max f (p - p div d + 1 + u * 6 div 5 div d))" for g
  proof (cases "unat p < unat f")
    case True
    then have "unat g = min (unat f) (unat p + q - 1)" using that lo by (simp add: word_less_nat_alt word_le_nat_alt min_def)
    then show ?thesis using True m q by linarith
  next
    case False
    then have "unat g = max (unat f) (unat p - q + 1 + r)" using that hi by (simp add: word_less_nat_alt word_le_nat_alt max_def)
    then show ?thesis using False m q r by linarith
  qed
  define g where "g = (if p < f then min f (p + p div d - 1) else max f (p - p div d + 1 + u * 6 div 5 div d))"
  have "childGasLimit P bi Invalid256 = Inr g" using c by (simp add: g_def)
  moreover have "u256Param P ''minGasLimit'' \<le> g" "g \<le> u256Param P ''maxGasLimit''" "p - p div d < g" "g < p + p div d"
    unfolding word_le_nat_alt word_less_nat_alt add sub using bnd [OF g_def] by blast+
  ultimately show ?thesis unfolding p_def d_def by blast
qed

section \<open>Properties\<close>

text \<open>C26: a block that is built follows the rules.  \<^verbatim>\<open>populateFromParent\<close> returns a header that
  \<^verbatim>\<open>verify\<close> accepts as the parent's child, at every strictness that does not look at the seal (all but
  \<^verbatim>\<open>CheckEverything\<close> and \<^verbatim>\<open>QuickNonce\<close>): the number, the parent's hash, the difficulty
  and the gas limit are the ones the verifier computes.  It holds for every parent that exists, whose number plus
  one is below \<open>2 ^ 32\<close> and whose used gas is within its gas limit, every later timestamp, and a header whose
  extra data is no longer than \<^verbatim>\<open>maximumExtraDataSize\<close>, on a chain whose
  \<^verbatim>\<open>difficultyBoundDivisor\<close> is not zero and whose gas parameters fit the parent's gas limit
  (\<open>gas_params_ok\<close>: the bound divisor \<open>d\<close> is not zero and the limit is at least \<open>4 * d\<close>, at least
  \<^verbatim>\<open>minGasLimit\<close> and, with its \<open>d\<close>th part added, at most \<^verbatim>\<open>maxGasLimit\<close>; the
  built-in floor target is between the two; six times the limit fits 256 bits).\<close>

theorem elhash_child_verifies:
  assumes par: "header_exists parent" "unat (h_number parent) + 1 < 2 ^ 32" "h_gasUsed parent \<le> h_gasLimit parent"
    and P: "gas_params_ok P (h_gasLimit parent)" "u256Param P ''difficultyBoundDivisor'' \<noteq> 0"
    and bi: "h_timestamp parent < ts" "length (h_extraData bi) \<le> unat (maximumExtraDataSize P)"
    and s: "s \<noteq> CheckEverything" "s \<noteq> QuickNonce"
  shows "\<exists>b. elhash_populateFromParent P (setTimestamp ts bi) parent = Inr b \<and> elhash_verify P F m s b parent [] = Inr ()"
proof -
  let ?b0 = "header_populateFromParent parent (setTimestamp ts bi)"
  have n: "unat (h_number parent + 1) = unat (h_number parent) + 1" using par(2) unat_add_u256 [of "h_number parent" 1] by simp
  then have "h_number ?b0 \<noteq> 0" by (auto simp: header_populateFromParent_def simp flip: unat_eq_0)
  then obtain d where d: "calculateDifficulty P ?b0 parent = Inr d" "u256Param P ''minimumDifficulty'' \<le> d"
    using calculateDifficulty_returns [OF _ P(2)] by blast
  obtain g where g: "childGasLimit P parent Invalid256 = Inr g" "u256Param P ''minGasLimit'' \<le> g" "g \<le> u256Param P ''maxGasLimit''"
    "h_gasLimit parent - h_gasLimit parent div u256Param P ''gasLimitBoundDivisor'' < g"
    "g < h_gasLimit parent + h_gasLimit parent div u256Param P ''gasLimitBoundDivisor''"
    using childGasLimit_ok [OF P(1) par(3)] by blast
  define b where "b = setGasLimit g (setDifficulty d ?b0)"
  have b: "elhash_populateFromParent P (setTimestamp ts bi) parent = Inr b"
    using d g by (simp add: elhash_populateFromParent_def b_def)
  note sets = b_def setGasLimit_def setDifficulty_def setTimestamp_def noteDirty_def header_populateFromParent_def
  have f: "h_number b = h_number parent + 1" "h_timestamp b = ts" "h_gasUsed b = 0" "h_gasLimit b = g" "h_difficulty b = d"
    "h_extraData b = h_extraData bi" "h_parentHash b = h_hash parent" by (simp_all add: sets)
  have cd: "calculateDifficulty P b parent = Inr d"
    unfolding d(1) [symmetric] by (rule calculateDifficulty_cong) (simp_all add: sets)
  have "header_verify s b parent [] = Inr ()"
    using par bi n by (simp add: header_verify_def f header_hash_def not_le)
  moreover have "u256Param P ''gasLimitBoundDivisor'' \<noteq> 0" using P(1) by (auto simp: gas_params_ok_def Let_def)
  then have "verify_parent P b parent = Inr ()"
    using g cd by (simp add: verify_parent_def Let_def f not_le not_less)
  ultimately have "elhash_verify P F m s b parent [] = Inr ()"
    using s d g bi(2) by (simp add: elhash_verify_def f not_le not_less)
  then show ?thesis using b by blast
qed

lemma default_param_values [simp]:
  "u256Param default_params ''minGasLimit'' = 5000" "u256Param default_params ''maxGasLimit'' = 0x7fffffffffffffff"
  "u256Param default_params ''gasLimitBoundDivisor'' = 1024" "u256Param default_params ''minimumDifficulty'' = 131072"
  "u256Param default_params ''difficultyBoundDivisor'' = 2048" "u256Param default_params ''frontierCompatibilityModeLimit'' = 0"
  by code_simp+

definition any_pow :: pow_funs where
  "any_pow = \<lparr>quick_check_difficulty = (\<lambda>_ _ _ _. True), aux_eval = (\<lambda>_ _ _. (0, 0))\<rparr>"

theorem elhash_child_verifies_witness:
  "\<exists>b. elhash_populateFromParent default_params (setTimestamp 11 new_header)
       (new_header\<lparr>h_timestamp := 10, h_gasLimit := 3141562, h_difficulty := 131072\<rparr>) = Inr b
    \<and> elhash_verify default_params any_pow [] IgnoreSeal b
       (new_header\<lparr>h_timestamp := 10, h_gasLimit := 3141562, h_difficulty := 131072\<rparr>) [] = Inr ()"
  by (rule elhash_child_verifies) (simp_all add: new_header_def header_exists_def gas_params_ok_def Let_def Invalid256_def)

text \<open>C27: the difficulty moves within bounds.  From the Homestead block on, the difficulty of a child is never
  below the minimum, never more than a 2048th of the parent's and the period's increment above the parent's (unless
  the minimum is), never more than 99 of these steps below it, and it does not grow when the block comes
  later.\<close>

theorem elhash_difficulty_bounds:
  assumes "h_number bi \<noteq> 0" and "u256Param P ''frontierCompatibilityModeLimit'' \<le> h_number bi"
    and "h_timestamp parent \<le> h_timestamp bi" and "h_timestamp bi \<le> ts"
  shows "\<exists>d d'. calculateDifficulty P bi parent = Inr d \<and> calculateDifficulty P (setTimestamp ts bi) parent = Inr d' \<and> d' \<le> d
    \<and> u256Param P ''minimumDifficulty'' \<le> d'
    \<and> uint d \<le> max (uint (u256Param P ''minimumDifficulty'')) (uint (h_difficulty parent) + uint (h_difficulty parent div 2048) + bomb parent)
    \<and> uint (h_difficulty parent) - 99 * uint (h_difficulty parent div 2048) \<le> uint d'"
proof -
  let ?m = "u256Param P ''minimumDifficulty''" and ?D = "h_difficulty parent" and ?T = "\<lambda>t. homestead_target (h_difficulty parent) t (h_timestamp parent)"
  let ?d = "capped ?m (?T (h_timestamp bi) + bomb parent)" and ?d' = "capped ?m (?T ts + bomb parent)"
  have "0 \<le> bomb parent" by (simp add: bomb_def Let_def)
  moreover have "?T (h_timestamp bi) \<le> uint ?D + uint (?D div 2048)" using homestead_target_bounds(1) [OF assms(3)] .
  moreover have "uint ?D - 99 * uint (?D div 2048) \<le> ?T ts" using homestead_target_bounds(2) .
  moreover have "uint ?D - 99 * uint (?D div 2048) \<le> 2 ^ 256 - 1" 
  proof -
    have "uint ?D < 2 ^ 256" using uint_bounded [of ?D] by simp
    moreover have "0 \<le> uint (?D div 2048)" by simp
    ultimately show ?thesis by linarith
  qed
  ultimately have b: "uint ?d \<le> max (uint ?m) (uint ?D + uint (?D div 2048) + bomb parent)"
    "uint ?D - 99 * uint (?D div 2048) \<le> uint ?d'"
    unfolding capped_bounds by linarith+
  have "calculateDifficulty P bi parent = Inr ?d" "calculateDifficulty P (setTimestamp ts bi) parent = Inr ?d'"
    using assms(1,2) by (simp_all add: calculateDifficulty_homestead setTimestamp_def noteDirty_def not_less)
  moreover have "?d' \<le> ?d" using capped_mono homestead_target_antimono [OF assms(4)] by simp
  ultimately show ?thesis using b capped_ge by blast
qed

theorem elhash_difficulty_bounds_witness:
  "\<exists>d d'. calculateDifficulty default_params (new_header\<lparr>h_number := 1, h_timestamp := 20\<rparr>)
       (new_header\<lparr>h_timestamp := 10, h_difficulty := 131072\<rparr>) = Inr d
     \<and> calculateDifficulty default_params (setTimestamp 500 (new_header\<lparr>h_number := 1, h_timestamp := 20\<rparr>))
       (new_header\<lparr>h_timestamp := 10, h_difficulty := 131072\<rparr>) = Inr d' \<and> d' \<le> d"
  using elhash_difficulty_bounds [of "new_header\<lparr>h_number := 1, h_timestamp := 20\<rparr>" default_params
      "new_header\<lparr>h_timestamp := 10, h_difficulty := 131072\<rparr>" 500]
  by (auto simp: new_header_def)

text \<open>The cache of seed hashes is transparent.  Whatever epochs have been asked for before,
  \<^verbatim>\<open>seedHash\<close> returns the hash iterated once for each epoch of 30000 blocks, and leaves a cache of which
  this is true again.\<close>

theorem seedHash_iterates:
  assumes "seeds_ok m"
  shows "fst (aux_seedHash number m) = (next_seed ^^ (number div 30000)) 0 \<and> seeds_ok (snd (aux_seedHash number m))"
  using aux_seedHash_ok [OF assms] by (simp add: seed_def ELHASH_EPOCH_LENGTH_def)

theorem seedHash_iterates_witness:
  "fst (aux_seedHash 70000 (snd (aux_seedHash 31000 []))) = next_seed (next_seed 0)"
proof -
  have "seeds_ok (snd (aux_seedHash 31000 []))" using seedHash_iterates [of "[]" 31000] by (simp add: seeds_ok_def)
  from seedHash_iterates [OF this, of 70000] show ?thesis by (simp add: numeral_2_eq_2)
qed

text \<open>The difficulty that \<^verbatim>\<open>BlockHeader::populateFromParent\<close> sets has the boundary zero: the quotient
  \<open>2 ^ 256\<close> does not fit the type.\<close>

lemma boundary_of_one: "boundary (header_populateFromParent parent bi) = 0"
  by (simp add: boundary_def header_populateFromParent_def)

text \<open>\<^verbatim>\<open>BlockHeader::populateFromParent\<close> leaves the memo, so the hash of the header it fills in is the
  hash it had before.\<close>

lemma populateFromParent_stale_hash:
  "h_hash bi \<noteq> 0 \<Longrightarrow> header_hash WithSeal (header_populateFromParent parent bi) = Inr (h_hash bi, header_populateFromParent parent bi)"
  by (simp add: header_hash_def header_populateFromParent_def)

end
