(* ===== verification/Block_Chain.thy ===== *)
theory Block_Chain
  imports Bloom_Index Elhash
begin

text \<open>
  \<^verbatim>\<open>libelementrem/BlockChain.cpp\<close>: verification, import and insertion of blocks, the choice of the
  canonical chain, and \<^verbatim>\<open>rewind\<close> and \<^verbatim>\<open>sync\<close>.  The seal engine and the enactment of a block on
  the state (\<^verbatim>\<open>Block::enactOn\<close>) are parameters.  An action may throw, with the state it leaves, or not
  return; \<^verbatim>\<open>exit\<close> is an error of its own.
\<close>

section \<open>Actions\<close>

datatype chain_error =
    AlreadyHaveBlock | UnknownParent | FutureTime | TransientError | InvalidReceiptsStateRoot | InvalidUncleParentHash
  | ChainBlock block_error | ChainTx tx_error | ChainVerify verify_error | ChainRLP rlp_error | ChainHash hash_error | ExitProcess

type_synonym 'a act = "chain \<Rightarrow> ((chain_error + 'a) \<times> chain) option"

definition act_bind :: "'a act \<Rightarrow> ('a \<Rightarrow> 'b act) \<Rightarrow> 'b act" where
  "act_bind m f c =
     (case m c of None \<Rightarrow> None | Some (Inl e, c) \<Rightarrow> Some (Inl e, c) | Some (Inr x, c) \<Rightarrow> f x c)"

definition act_ret :: "'a \<Rightarrow> 'a act" where "act_ret x c = Some (Inr x, c)"
definition act_throw :: "chain_error \<Rightarrow> 'a act" where "act_throw e c = Some (Inl e, c)"
definition act_look :: "(chain \<Rightarrow> 'a \<times> chain) \<Rightarrow> 'a act" where "act_look f c = (case f c of (x, c) \<Rightarrow> Some (Inr x, c))"
definition act_res :: "(chain \<Rightarrow> (block_error + 'a) \<times> chain) \<Rightarrow> 'a act" where
  "act_res f c = (case f c of (Inl e, c) \<Rightarrow> Some (Inl (ChainBlock e), c) | (Inr x, c) \<Rightarrow> Some (Inr x, c))"
definition act_blk :: "block_error + 'a \<Rightarrow> 'a act" where
  "act_blk r c = (case r of Inl e \<Rightarrow> Some (Inl (ChainBlock e), c) | Inr x \<Rightarrow> Some (Inr x, c))"
definition act_rlp :: "rlp_error + 'a \<Rightarrow> 'a act" where
  "act_rlp r c = (case r of Inl e \<Rightarrow> Some (Inl (ChainRLP e), c) | Inr x \<Rightarrow> Some (Inr x, c))"
definition act_opt :: "(rlp_error + 'a) option \<Rightarrow> 'a act" where
  "act_opt r c = (case r of None \<Rightarrow> None | Some r \<Rightarrow> act_rlp r c)"
definition act_mod :: "(chain \<Rightarrow> chain) \<Rightarrow> unit act" where "act_mod f c = Some (Inr (), f c)"

text \<open>A range-based \<^verbatim>\<open>for\<close> over an RLP object with an action as its body.\<close>

partial_function (option) iter_do :: "(bytes \<Rightarrow> 'a \<Rightarrow> 'a act) \<Rightarrow> bytes \<Rightarrow> rlp_iter \<Rightarrow> 'a \<Rightarrow> 'a act" where
  "iter_do body d it x c =
     (if iter_eq it (iter_end d) then Some (Inr x, c)
      else case iter_deref d it of
             Inl e \<Rightarrow> Some (Inl (ChainRLP e), c)
           | Inr u \<Rightarrow> (case body u x c of
                None \<Rightarrow> None
              | Some (Inl e, c) \<Rightarrow> Some (Inl e, c)
              | Some (Inr y, c) \<Rightarrow> (case iter_next d it of
                   Inl e \<Rightarrow> Some (Inl (ChainRLP e), c)
                 | Inr it' \<Rightarrow> iter_do body d it' y c)))"

definition for_do :: "(bytes \<Rightarrow> 'a \<Rightarrow> 'a act) \<Rightarrow> bytes \<Rightarrow> 'a \<Rightarrow> 'a act" where
  "for_do body d x c = (case iter_begin d of Inl e \<Rightarrow> Some (Inl (ChainRLP e), c) | Inr it \<Rightarrow> iter_do body d it x c)"

section \<open>Verification\<close>

record verified_block =
  vb_block :: bytes
  vb_info :: block_header
  vb_transactions :: "transaction list"

text \<open>What the chain asks of its seal engine and of its parameters.\<close>

record seal_engine =
  se_verify :: "Strictness \<Rightarrow> block_header \<Rightarrow> block_header \<Rightarrow> bytes \<Rightarrow> block_error + unit"
  se_verifyTransaction :: "nat \<Rightarrow> transaction \<Rightarrow> block_header \<Rightarrow> verify_error + unit"
  se_recover :: recover_fun
  se_tieBreakingGas :: bool
  se_allowFutureBlocks :: bool

definition ValidSeal :: nat where "ValidSeal = 1"
definition UncleBasic :: nat where "UncleBasic = 4"
definition UncleSeals :: nat where "UncleSeals = 16"
definition ParentCheck :: nat where "ParentCheck = 64"
definition UncleParent :: nat where "UncleParent = 128"
definition PostGenesis :: nat where "PostGenesis = 256"
definition CheckUncles :: nat where "CheckUncles = UncleBasic OR UncleSeals"
definition CheckTransactions :: nat where "CheckTransactions = TransactionBasic OR TransactionSignatures"
definition OutOfOrderChecks :: nat where "OutOfOrderChecks = ValidSeal OR CheckUncles OR CheckTransactions"
definition InOrderChecks :: nat where "InOrderChecks = ParentCheck OR UncleParent"

definition parent_header :: "chain_error \<Rightarrow> bool \<Rightarrow> h256 \<Rightarrow> block_header act" where
  "parent_header e check p =
     (if check then
        act_bind (act_res (headerData p)) (\<lambda>b.
        if b = [] then act_throw e else act_blk (header_new b HeaderData p))
      else act_ret new_header)"

definition verify_uncle :: "seal_engine \<Rightarrow> nat \<Rightarrow> bytes \<Rightarrow> unit \<Rightarrow> unit act" where
  "verify_uncle E ir u _ =
     act_bind (act_blk (header_new u HeaderData 0)) (\<lambda>uh.
     act_bind (parent_header InvalidUncleParentHash (has_flag ir UncleParent) (h_parentHash uh)) (\<lambda>parent.
     act_blk (se_verify E (if has_flag ir UncleSeals then CheckEverything else IgnoreSeal) uh parent [])))"

definition verify_tx :: "seal_engine \<Rightarrow> nat \<Rightarrow> block_header \<Rightarrow> bytes \<Rightarrow> transaction list \<Rightarrow> transaction list act" where
  "verify_tx E ir h d ts c =
     (case tx_parse (se_recover E) (if has_flag ir TransactionSignatures then Everything else CheckNone) d of
        Inl e \<Rightarrow> Some (Inl (ChainTx e), c)
      | Inr t \<Rightarrow> (case se_verifyTransaction E ir t h of
          Inl e \<Rightarrow> Some (Inl (ChainVerify e), c)
        | Inr _ \<Rightarrow> Some (Inr (ts @ [t]), c)))"

text \<open>The guards in front of the uncles and the transactions are \<^verbatim>\<open>_ir && !!(...)\<close>, so they only ask
  that some flag is set.\<close>

definition verifyBlock :: "seal_engine \<Rightarrow> bytes \<Rightarrow> nat \<Rightarrow> verified_block act" where
  "verifyBlock E block ir =
     act_bind (act_blk (header_new block BlockData 0)) (\<lambda>h.
     if has_flag ir PostGenesis \<and> (h_parentHash h = 0 \<or> h_number h = 0) then act_throw (ChainBlock InvalidParentHash)
     else
       act_bind (parent_header (ChainBlock InvalidParentHash) (has_flag ir ParentCheck) (h_parentHash h)) (\<lambda>parent.
       act_bind (act_blk (se_verify E (if has_flag ir ValidSeal then CheckEverything else QuickNonce) h parent block)) (\<lambda>_.
       act_bind (act_rlp (rlp_new block VeryStrict)) (\<lambda>r.
       act_bind (if ir \<noteq> 0 then (\<lambda>c. case subscript r fresh_cache 2 of
                     (Inl e, _) \<Rightarrow> Some (Inl (ChainRLP e), c)
                   | (Inr us, k) \<Rightarrow> act_bind (for_do (verify_uncle E ir) us ()) (\<lambda>_. act_ret k) c)
                 else act_ret fresh_cache) (\<lambda>k.
       act_bind (if ir \<noteq> 0 then (\<lambda>c. case subscript r k 1 of
                     (Inl e, _) \<Rightarrow> Some (Inl (ChainRLP e), c)
                   | (Inr ts, _) \<Rightarrow> for_do (verify_tx E ir h) ts [] c)
                 else act_ret []) (\<lambda>ts.
       act_ret \<lparr>vb_block = block, vb_info = h, vb_transactions = ts\<rparr>))))))"

section \<open>Batches\<close>

datatype put =
    PutDetails h256 block_details | PutLogBlooms h256 "log_bloom list" | PutReceipts h256 "receipt list"
  | PutTransactionAddress h256 transaction_address | PutBlockHash nat h256 | PutBlocksBlooms h256 "log_bloom list"

fun write_put :: "put \<Rightarrow> chain \<Rightarrow> chain" where
  "write_put (PutDetails h d) c = c\<lparr>db_details := (db_details c)(h \<mapsto> d)\<rparr>"
| "write_put (PutLogBlooms h bs) c = c\<lparr>db_logBlooms := (db_logBlooms c)(h \<mapsto> bs)\<rparr>"
| "write_put (PutReceipts h rs) c = c\<lparr>db_receipts := (db_receipts c)(h \<mapsto> rs)\<rparr>"
| "write_put (PutTransactionAddress h a) c = c\<lparr>db_transactionAddresses := (db_transactionAddresses c)(h \<mapsto> a)\<rparr>"
| "write_put (PutBlockHash n h) c = c\<lparr>db_blockHashes := (db_blockHashes c)(n \<mapsto> h)\<rparr>"
| "write_put (PutBlocksBlooms i bs) c = c\<lparr>db_blocksBlooms := (db_blocksBlooms c)(i \<mapsto> bs)\<rparr>"

definition write_extras :: "put list \<Rightarrow> chain \<Rightarrow> chain" where
  "write_extras = fold write_put"

section \<open>Import\<close>

text \<open>The checks that \<^verbatim>\<open>import\<close> and \<^verbatim>\<open>insert\<close> share; the details of the parent.\<close>

definition import_new :: "bool \<Rightarrow> verified_block \<Rightarrow> unit act" where
  "import_new mustBeNew vb =
     act_bind (act_look (isKnown (h_hash (vb_info vb)) True)) (\<lambda>k.
     if k \<and> mustBeNew then act_throw AlreadyHaveBlock
     else
       act_bind (act_look (isKnown (h_parentHash (vb_info vb)) False)) (\<lambda>k.
       if \<not> k then act_throw UnknownParent else act_ret ()))"

definition import_parent :: "seal_engine \<Rightarrow> u256 \<Rightarrow> verified_block \<Rightarrow> block_details act" where
  "import_parent E now vb =
     act_bind (act_look (details (h_parentHash (vb_info vb)))) (\<lambda>pd.
     if details_isNull pd then act_throw ExitProcess
     else if h_timestamp (vb_info vb) > now \<and> \<not> se_allowFutureBlocks E then act_throw FutureTime
     else act_bind (verifyBlock E (vb_block vb) InOrderChecks) (\<lambda>_. act_ret pd))"

text \<open>The entry of the block among the children of its parent, in the cache.\<close>

definition add_child :: "h256 \<Rightarrow> h256 \<Rightarrow> chain \<Rightarrow> chain" where
  "add_child p h c =
     (let c = snd (details p c);
          d = (case m_details c p of None \<Rightarrow> NullBlockDetails | Some d \<Rightarrow> d)
      in c\<lparr>m_details := (m_details c)(p \<mapsto> d\<lparr>bd_children := bd_children d @ [h]\<rparr>)\<rparr>)"

definition cached_details :: "h256 \<Rightarrow> chain \<Rightarrow> block_details" where
  "cached_details p c = (case m_details c p of None \<Rightarrow> NullBlockDetails | Some d \<Rightarrow> d)"

definition store_puts :: "block_details \<Rightarrow> u256 \<Rightarrow> receipt list \<Rightarrow> verified_block \<Rightarrow> chain \<Rightarrow> put list" where
  "store_puts pd td rs vb c =
     (let h = h_hash (vb_info vb); p = h_parentHash (vb_info vb) in
      [PutDetails p (cached_details p c),
       PutDetails h \<lparr>bd_number = bd_number pd + 1, bd_totalDifficulty = td, bd_parent = p, bd_children = []\<rparr>,
       PutLogBlooms h (map rc_bloom rs), PutReceipts h rs])"

text \<open>One block that becomes canonical: its filter, its transactions and its number.\<close>

definition block_txs :: "bytes \<Rightarrow> block_error + bytes list" where
  "block_txs b =
     res_bind (blk_rlp (rlp_new b VeryStrict)) (\<lambda>r.
     field (\<lambda>_ e. Inl (BlockRLP e)) r 1 Inr fresh_cache (\<lambda>txs _.
     res_bind (blk_rlp (itemCount txs)) (\<lambda>n. list_elems txs n 0 fresh_cache)))"

definition block_bloom :: "block_header \<Rightarrow> log_bloom" where
  "block_bloom h = shift_bloom (h_logBloom h) (sha3_address (h_author h))"

definition header_no :: "block_header \<Rightarrow> nat" where
  "header_no h = as32 (unat (h_number h))"

definition canon_block :: "verified_block \<Rightarrow> h256 \<Rightarrow> put list act" where
  "canon_block vb i =
     act_bind (if i = h_hash (vb_info vb) then act_ret (vb_info vb)
               else act_bind (act_look (chain_block i)) (\<lambda>b. act_blk (header_new b BlockData 0))) (\<lambda>tbi.
     act_bind (act_look (bloom_insert (header_no tbi) (block_bloom tbi))) (\<lambda>altered.
     act_bind (if i = h_hash (vb_info vb) then act_ret (vb_block vb) else act_look (chain_block i)) (\<lambda>b.
     act_bind (act_blk (block_txs b)) (\<lambda>txs c.
       Some (Inr (map (\<lambda>(k, t). PutTransactionAddress (sha3 t) \<lparr>ta_blockHash = h_hash tbi, ta_index = word_of_nat k\<rparr>) (enumerate 0 txs)
         @ map (\<lambda>a. PutBlocksBlooms a (cached_chunk a c)) altered
         @ [PutBlockHash (unat (h_number tbi)) (h_hash tbi)]), c)))))"

fun canon_loop :: "verified_block \<Rightarrow> h256 list \<Rightarrow> put list \<Rightarrow> put list act" where
  "canon_loop vb [] ps = act_ret ps"
| "canon_loop vb (i # is) ps = act_bind (canon_block vb i) (\<lambda>qs. canon_loop vb is (ps @ qs))"

text \<open>The erasure of the numbers of the blocks that leave the chain.\<close>

fun erase_loop :: "h256 list \<Rightarrow> nat \<Rightarrow> h256 \<Rightarrow> chain \<Rightarrow> chain" where
  "erase_loop [] n comm c = c"
| "erase_loop (i # is) n comm c =
     (if i = comm then c
      else erase_loop is (as32 (n + 2 ^ 32 - 1)) comm (c\<lparr>m_blockHashes := (m_blockHashes c)(n := None)\<rparr>))"

definition revert :: "h256 list \<Rightarrow> h256 \<Rightarrow> h256 \<Rightarrow> chain \<Rightarrow> chain" where
  "revert route comm old c =
     (let (n, c) = chain_number (hd route) c;
          c = erase_loop route n comm c;
          c = c\<lparr>m_transactionAddresses := (\<lambda>_. None)\<rparr>;
          (nc, c) = chain_number comm c;
          (nl, c) = chain_number old c
      in clearBlockBlooms (word_of_nat nc + 1) (word_of_nat nl + 1) c)"

definition canon_change :: "verified_block \<Rightarrow> put list \<Rightarrow> (h256 list \<times> h256 \<times> put list) act" where
  "canon_change vb ps c =
     (let old = m_lastBlockHash c in
      case treeRoute old (h_parentHash (vb_info vb)) True True True c of
        None \<Rightarrow> None
      | Some ((route, comm, _), c) \<Rightarrow>
          (let route = route @ [h_hash (vb_info vb)];
               c = (if comm \<noteq> old then revert route comm old c else c) in
           act_bind (canon_loop vb (takeWhile (\<lambda>i. i \<noteq> comm) (rev route)) ps) (\<lambda>ps. act_ret (route, comm, ps)) c))"

text \<open>The condition for a new head; the second part reads the header of the old one.\<close>

definition is_better :: "seal_engine \<Rightarrow> u256 \<Rightarrow> verified_block \<Rightarrow> bool act" where
  "is_better E td vb c =
     act_bind (act_look (details (m_lastBlockHash c))) (\<lambda>ld.
     if td > bd_totalDifficulty ld then act_ret True
     else if se_tieBreakingGas E then
       act_bind (act_look (details (m_lastBlockHash c))) (\<lambda>ld.
       if td = bd_totalDifficulty ld then
         act_bind (act_res (chain_info (m_lastBlockHash c))) (\<lambda>li. act_ret (h_gasUsed (vb_info vb) > h_gasUsed li))
       else act_ret False)
     else act_ret False) c"

record import_route =
  deadBlocks :: "h256 list"
  liveBlocks :: "h256 list"
  goodTransactions :: "transaction list"

definition set_head :: "h256 \<Rightarrow> nat \<Rightarrow> chain \<Rightarrow> chain" where
  "set_head h n c =
     (if m_lastBlockHash c \<noteq> h then c\<lparr>m_lastBlockHash := h, m_lastBlockNumber := n, db_best := Some h\<rparr> else c)"

text \<open>\<open>enactOn\<close> is \<^verbatim>\<open>Block::enactOn\<close> with the \<^verbatim>\<open>cleanup\<close> after it and the handlers around them: the
  difficulty it adds, the receipts and the transactions.\<close>

definition import_block ::
  "seal_engine \<Rightarrow> (verified_block \<Rightarrow> (u256 \<times> receipt list \<times> transaction list) act) \<Rightarrow> u256 \<Rightarrow> bool \<Rightarrow> verified_block \<Rightarrow> import_route act" where
  "import_block E enactOn now mustBeNew vb =
     act_bind (import_new mustBeNew vb) (\<lambda>_.
     act_bind (import_parent E now vb) (\<lambda>pd.
     act_bind (enactOn vb) (\<lambda>(tdIncrease, rs, good).
     let td = bd_totalDifficulty pd + tdIncrease; h = h_hash (vb_info vb) in
     act_bind (act_mod (add_child (h_parentHash (vb_info vb)) h)) (\<lambda>_ c.
     let ps = store_puts pd td rs vb c in
     act_bind (is_better E td vb) (\<lambda>better.
     act_bind (if better then canon_change vb ps else act_ret ([], 0, ps)) (\<lambda>(route, comm, ps).
     act_bind (act_mod (\<lambda>c. write_extras ps (c\<lparr>db_blocks := (db_blocks c)(h \<mapsto> vb_block vb)\<rparr>))) (\<lambda>_.
     act_bind (act_mod (\<lambda>c. if better then set_head h (header_no (vb_info vb)) c else c)) (\<lambda>_.
     act_bind (act_mod (\<lambda>c. if route \<noteq> [] then c\<lparr>m_lastLastHashes := []\<rparr> else c)) (\<lambda>_.
     act_ret \<lparr>deadBlocks = takeWhile (\<lambda>i. i \<noteq> comm) route, liveBlocks = filter (\<lambda>i. i \<noteq> comm) (dropWhile (\<lambda>i. i \<noteq> comm) route),
       goodTransactions = good\<rparr>))))) c))))"

section \<open>The other ways in\<close>

definition insert_block :: "seal_engine \<Rightarrow> u256 \<Rightarrow> bytes \<Rightarrow> bool \<Rightarrow> verified_block \<Rightarrow> unit act" where
  "insert_block E now rcs mustBeNew vb =
     act_bind (import_new mustBeNew vb) (\<lambda>_.
     act_bind (act_rlp (rlp_new rcs VeryStrict)) (\<lambda>d.
     act_bind (act_opt (for_each (\<lambda>i. Some (Inr i)) d)) (\<lambda>is.
     act_bind (\<lambda>c. case orderedTrieRoot is of Inl e \<Rightarrow> Some (Inl (ChainHash e), c) | Inr r \<Rightarrow> Some (Inr r, c)) (\<lambda>root.
     if h_receiptsRoot (vb_info vb) \<noteq> root then act_throw InvalidReceiptsStateRoot
     else
       act_bind (import_parent E now vb) (\<lambda>pd.
       act_bind (act_opt (for_each receipt_parse d)) (\<lambda>rs.
       act_bind (act_mod (add_child (h_parentHash (vb_info vb)) (h_hash (vb_info vb)))) (\<lambda>_ c.
       let ps = store_puts pd (bd_totalDifficulty pd + h_difficulty (vb_info vb)) rs vb c in
       Some (Inr (), write_extras ps (c\<lparr>db_blocks := (db_blocks c)(h_hash (vb_info vb) \<mapsto> vb_block vb)\<rparr>)))))))))"

definition import_bytes ::
  "seal_engine \<Rightarrow> (verified_block \<Rightarrow> (u256 \<times> receipt list \<times> transaction list) act) \<Rightarrow> u256 \<Rightarrow> bool \<Rightarrow> bytes \<Rightarrow> import_route act" where
  "import_bytes E enactOn now mustBeNew b =
     act_bind (verifyBlock E b OutOfOrderChecks) (\<lambda>vb. import_block E enactOn now mustBeNew vb)"

definition insert_bytes :: "seal_engine \<Rightarrow> u256 \<Rightarrow> bytes \<Rightarrow> bool \<Rightarrow> bytes \<Rightarrow> unit act" where
  "insert_bytes E now rcs mustBeNew b =
     act_bind (verifyBlock E b OutOfOrderChecks) (\<lambda>vb. insert_block E now rcs mustBeNew vb)"

datatype import_result = ImportSuccess | ImportUnknownParent | ImportAlreadyKnown | ImportFutureTimeKnown | ImportMalformed | ImportExit

definition attemptImport ::
  "seal_engine \<Rightarrow> (verified_block \<Rightarrow> (u256 \<times> receipt list \<times> transaction list) act) \<Rightarrow> u256 \<Rightarrow> bool \<Rightarrow> bytes \<Rightarrow> chain
    \<Rightarrow> ((import_result \<times> import_route) \<times> chain) option" where
  "attemptImport E enactOn now mustBeNew b c =
     (let none = \<lparr>deadBlocks = [], liveBlocks = [], goodTransactions = []\<rparr> in
      case import_bytes E enactOn now mustBeNew b c of
        None \<Rightarrow> None
      | Some (Inr r, c) \<Rightarrow> Some ((ImportSuccess, r), c)
      | Some (Inl e, c) \<Rightarrow>
          Some ((case e of UnknownParent \<Rightarrow> ImportUnknownParent | AlreadyHaveBlock \<Rightarrow> ImportAlreadyKnown | FutureTime \<Rightarrow> ImportFutureTimeKnown
                 | ExitProcess \<Rightarrow> ImportExit | _ \<Rightarrow> ImportMalformed, none), c))"

text \<open>\<^verbatim>\<open>rewind\<close>\<close>

definition rewind :: "nat \<Rightarrow> chain \<Rightarrow> chain" where
  "rewind newHead c =
     (if newHead \<ge> m_lastBlockNumber c then c
      else let (h, c) = numberHash newHead c in c\<lparr>m_lastBlockHash := h, m_lastBlockNumber := newHead, db_best := Some h\<rparr>)"

text \<open>
  The loop of \<^verbatim>\<open>sync\<close> over the blocks of the queue.  Its body is \<^verbatim>\<open>do { ... } while (false)\<close>, so the
  \<^verbatim>\<open>continue\<close> after a block of the future or a transient error leaves the body as well, and the block is
  not tried again; \<open>times\<close> is the clock at each block.
\<close>

record sync_state =
  sy_fresh :: "h256 list"
  sy_dead :: "h256 list"
  sy_bad :: "h256 list"
  sy_good :: "transaction list"
  sy_count :: nat

fun sync_loop ::
  "seal_engine \<Rightarrow> (verified_block \<Rightarrow> (u256 \<times> receipt list \<times> transaction list) act) \<Rightarrow> (u256 \<times> verified_block) list \<Rightarrow> sync_state
    \<Rightarrow> sync_state act" where
  "sync_loop E enactOn [] s c = Some (Inr s, c)"
| "sync_loop E enactOn ((now, vb) # vbs) s c =
     (case import_block E enactOn now True vb c of
        None \<Rightarrow> None
      | Some (Inr r, c) \<Rightarrow>
          sync_loop E enactOn vbs
            (s\<lparr>sy_fresh := sy_fresh s @ liveBlocks r, sy_dead := sy_dead s @ deadBlocks r, sy_good := sy_good s @ goodTransactions r,
               sy_count := sy_count s + 1\<rparr>) c
      | Some (Inl FutureTime, c) \<Rightarrow> sync_loop E enactOn vbs s c
      | Some (Inl TransientError, c) \<Rightarrow> sync_loop E enactOn vbs s c
      | Some (Inl ExitProcess, c) \<Rightarrow> Some (Inl ExitProcess, c)
      | Some (Inl _, c) \<Rightarrow> sync_loop E enactOn vbs (s\<lparr>sy_bad := sy_bad s @ [h_hash (vb_info vb)]\<rparr>) c)"

end
