(* ===== verification/Chain_Inv.thy ===== *)
theory Chain_Inv
  imports Block_Chain
begin

text \<open>
  The invariant of the chain over every run of imports, lookups, garbage collections and rewinds: the
  details form a tree, the head is one of its blocks, the numbers in the database are those of the
  ancestors of the head, and the index of the blooms covers their filters.
\<close>

section \<open>Actions that only look\<close>

definition only_reads :: "'a act \<Rightarrow> bool" where
  "only_reads m = (\<forall>c r c'. m c = Some (r, c') \<longrightarrow> reads c c')"

lemma only_readsD: "only_reads m \<Longrightarrow> m c = Some (r, c') \<Longrightarrow> reads c c'"
  by (simp add: only_reads_def)

named_theorems only_reads_intros \<open>actions that only look\<close>

lemma only_reads_bind [only_reads_intros]:
  assumes m: "only_reads m" and f: "\<And>x. only_reads (f x)" shows "only_reads (act_bind m f)"
  unfolding only_reads_def
proof (intro allI impI)
  fix c r c' assume b: "act_bind m f c = Some (r, c')"
  then obtain r1 c1 where s: "m c = Some (r1, c1)" by (auto simp: act_bind_def split: option.splits)
  from only_readsD [OF m this] have r1: "reads c c1" .
  show "reads c c'"
  proof (cases r1)
    case (Inl e)
    then show ?thesis using b s r1 by (simp add: act_bind_def)
  next
    case (Inr x)
    then have "f x c1 = Some (r, c')" using b s by (simp add: act_bind_def)
    then show ?thesis using only_readsD [OF f] reads_trans [OF r1] by blast
  qed
qed

lemma only_reads_basic [only_reads_intros]:
  "only_reads (act_ret x)" "only_reads (act_throw e)" "only_reads (act_blk r)" "only_reads (act_rlp r')" "only_reads (act_opt r'')"
  by (auto simp: only_reads_def act_ret_def act_throw_def act_blk_def act_rlp_def act_opt_def split: sum.splits option.splits)

lemma only_reads_look [only_reads_intros]: "(\<And>c. reads c (snd (f c))) \<Longrightarrow> only_reads (act_look f)"
  by (auto simp: only_reads_def act_look_def split: prod.splits) (metis snd_conv)

lemma only_reads_res [only_reads_intros]: "(\<And>c. reads c (snd (f c))) \<Longrightarrow> only_reads (act_res f)"
  unfolding only_reads_def act_res_def by (auto split: prod.splits sum.splits) (metis snd_conv)+

lemma only_reads_if [only_reads_intros]: "only_reads m \<Longrightarrow> only_reads m' \<Longrightarrow> only_reads (if b then m else m')"
  by simp

lemma iter_do_reads:
  fixes body :: "bytes \<Rightarrow> 'a \<Rightarrow> 'a act"
  assumes "iter_do body d it x c = Some y" and "\<And>u x. only_reads (body u x)" shows "reads c (snd y)"
proof -
  define P where "P = (\<lambda>(body :: bytes \<Rightarrow> 'a \<Rightarrow> 'a act) (d :: bytes) (it :: rlp_iter) (x :: 'a) c y. (\<forall>u x. only_reads (body u x)) \<longrightarrow> reads c (snd (y :: (chain_error + 'a) \<times> chain)))"
  have "P body d it x c y"
  proof (rule iter_do.raw_induct [where P = P and xa = "((((body, d), it), x), c)" and y = y, unfolded split_conv])
    fix F body d it x c and y :: "(chain_error + 'a) \<times> chain"
    assume IH: "\<And>body d it x c y. F body d it x c = Some y \<Longrightarrow> P body d it x c y"
      and eq: "(if iter_eq it (iter_end d) then Some (Inr x, c)
        else case iter_deref d it of Inl e \<Rightarrow> Some (Inl (ChainRLP e), c)
           | Inr u \<Rightarrow> (case body u x c of None \<Rightarrow> None | Some (Inl e, c) \<Rightarrow> Some (Inl e, c)
               | Some (Inr y, c) \<Rightarrow> (case iter_next d it of Inl e \<Rightarrow> Some (Inl (ChainRLP e), c) | Inr it' \<Rightarrow> F body d it' y c))) = Some y"
    show "P body d it x c y"
      unfolding P_def
    proof
      assume b: "\<forall>u x. only_reads (body u x)"
      have step: "reads c c1" if "body u x c = Some (r, c1)" for u r c1 using b that by (auto simp: only_reads_def)
      have F: "reads c1 (snd y)" if "F body d it' y' c1 = Some y" for it' y' c1 using IH [OF that] b by (simp add: P_def)
      show "reads c (snd y)"
        using eq step F by (fastforce split: if_splits sum.splits option.splits prod.splits intro: reads_trans)
    qed
  qed (rule assms(1))
  then show ?thesis using assms(2) by (simp add: P_def)
qed

lemma only_reads_for [only_reads_intros]:
  "(\<And>u x. only_reads (body u x)) \<Longrightarrow> only_reads (for_do body d x)"
  unfolding only_reads_def for_do_def using iter_do_reads [of body d _ x]
  by (auto split: sum.splits) (metis snd_conv only_reads_def)

lemma verify_tx_reads [only_reads_intros]: "only_reads (verify_tx E ir h d ts)"
  by (auto simp: only_reads_def verify_tx_def split: sum.splits)

lemma parent_header_reads [only_reads_intros]: "only_reads (parent_header e b p)"
  unfolding parent_header_def by (intro only_reads_intros headerData_reads)

lemma verify_uncle_reads [only_reads_intros]: "only_reads (verify_uncle E ir u x)"
  unfolding verify_uncle_def by (intro only_reads_intros)

lemma verifyBlock_reads [only_reads_intros]: "only_reads (verifyBlock E b ir)"
proof -
  have "only_reads (\<lambda>c. case subscript r k 2 of (Inl e, _) \<Rightarrow> Some (Inl (ChainRLP e), c)
      | (Inr us, k) \<Rightarrow> act_bind (for_do (verify_uncle E ir) us ()) (\<lambda>_. act_ret k) c)" for r k
    unfolding only_reads_def using only_readsD [OF only_reads_bind [OF only_reads_for [OF verify_uncle_reads] only_reads_basic(1)]]
    by (auto split: prod.splits sum.splits)
  moreover have "only_reads (\<lambda>c. case subscript r k 1 of (Inl e, _) \<Rightarrow> Some (Inl (ChainRLP e), c)
      | (Inr ts, _) \<Rightarrow> for_do (verify_tx E ir h) ts [] c)" for r k h
    unfolding only_reads_def using only_readsD [OF only_reads_for [OF verify_tx_reads]]
    by (auto split: prod.splits sum.splits)
  ultimately show ?thesis
    unfolding verifyBlock_def by (intro only_reads_bind only_reads_basic only_reads_if parent_header_reads) simp_all
qed

lemma import_new_reads [only_reads_intros]: "only_reads (import_new b vb)"
  unfolding import_new_def by (intro only_reads_intros isKnown_reads)

lemma import_parent_reads [only_reads_intros]: "only_reads (import_parent E now vb)"
  unfolding import_parent_def by (intro only_reads_intros details_reads)

lemma is_better_reads: "is_better E td vb c = Some (r, c') \<Longrightarrow> reads c c'"
  unfolding is_better_def
  by (erule only_readsD [rotated]) (intro only_reads_intros details_reads chain_info_reads)

lemma act_bind_Inr: "act_bind m f c = Some (Inr y, c') \<longleftrightarrow> (\<exists>x c1. m c = Some (Inr x, c1) \<and> f x c1 = Some (Inr y, c'))"
  by (auto simp: act_bind_def split: option.splits sum.splits prod.splits)

lemma act_bind_step: "m c = Some (Inr x, c1) \<Longrightarrow> act_bind m f c = f x c1"
  by (simp add: act_bind_def)

section \<open>The tree\<close>

definition core :: "block_details \<Rightarrow> uint32 \<times> u256 \<times> h256" where
  "core d = (bd_number d, bd_totalDifficulty d, bd_parent d)"

definition td :: "chain \<Rightarrow> h256 \<Rightarrow> u256" where "td c h = bd_totalDifficulty (det c h)"

lemma core_views:
  assumes "\<And>h. core (det c' h) = core (det c h)"
  shows "known c' = known c" "num c' = num c" "par c' = par c" "anc c' = anc c" "td c' = td c"
proof -
  have e: "bd_number (det c' h) = bd_number (det c h)" "bd_totalDifficulty (det c' h) = bd_totalDifficulty (det c h)"
    "bd_parent (det c' h) = bd_parent (det c h)" for h
    using assms [of h] by (simp_all add: core_def)
  show p: "par c' = par c" by (simp add: par_def fun_eq_iff e)
  show "known c' = known c" "num c' = num c" "td c' = td c" by (simp_all add: known_def details_isNull_def num_def td_def fun_eq_iff e)
  show "anc c' = anc c" by (simp add: anc_def fun_eq_iff p)
qed

text \<open>\<open>quiet c c'\<close>: databases and head are the same, blocks and details were at most filled in.\<close>

definition quiet :: "chain \<Rightarrow> chain \<Rightarrow> bool" where
  "quiet c c' = (frame c c' \<and> fills (db_blocks c) (m_blocks c) (m_blocks c') \<and> fills (db_details c) (m_details c) (m_details c'))"

lemma quiet_reads: "reads c c' \<Longrightarrow> quiet c c'"
  by (simp add: reads_def quiet_def)

lemma quiet_bloomed: "bloomed c c' \<Longrightarrow> quiet c c'"
  by (simp add: bloomed_def quiet_def)

lemma quiet_refl [simp]: "quiet c c"
  by (simp add: quiet_def frame_def)

lemma quiet_trans [trans]: "quiet c c' \<Longrightarrow> quiet c' c'' \<Longrightarrow> quiet c c''"
  unfolding quiet_def frame_def by (elim conjE, intro conjI) (simp_all, (erule fills_trans, assumption)+)

lemma quiet_views:
  assumes "quiet c c'"
  shows "det c' = det c" "blk c' = blk c" "m_genesisHash c' = m_genesisHash c" "m_lastBlockHash c' = m_lastBlockHash c"
    "m_lastBlockNumber c' = m_lastBlockNumber c" "m_genesisHeaderBytes c' = m_genesisHeaderBytes c" "db_blocks c' = db_blocks c"
    "db_details c' = db_details c" "db_blockHashes c' = db_blockHashes c" "db_blocksBlooms c' = db_blocksBlooms c" "db_best c' = db_best c"
  using assms by (auto simp: quiet_def frame_def det_def blk_def through_fills intro!: ext)

lemma quiet_tree:
  assumes "quiet c c'"
  shows "known c' = known c" "num c' = num c" "par c' = par c" "anc c' = anc c" "td c' = td c"
  by (rule core_views; simp add: quiet_views [OF assms])+

section \<open>The invariant\<close>

text \<open>The view of the chunks in the database alone.\<close>

definition dchunk_of :: "(h256 \<Rightarrow> log_bloom list option) \<Rightarrow> h256 \<Rightarrow> log_bloom list" where
  "dchunk_of m cid = (case m cid of Some bs \<Rightarrow> bs | None \<Rightarrow> NullBlocksBlooms)"

text \<open>A stored block reads back as the header with its hash, whole or from its header alone.\<close>

definition block_ok :: "bytes \<Rightarrow> h256 \<Rightarrow> block_header \<Rightarrow> bool" where
  "block_ok b h hx =
     (b \<noteq> [] \<and> header_new b BlockData 0 = Inr hx \<and> h_hash hx = h \<and> header_exists hx \<and> (\<exists>txs. block_txs b = Inr txs)
      \<and> (\<exists>d. extractHeader b = Inr d \<and> d \<noteq> []
           \<and> (\<forall>x. \<exists>hx'. header_new d HeaderData x = Inr hx' \<and> h_number hx' = h_number hx \<and> header_exists hx')))"

definition stored_ok :: "chain \<Rightarrow> bool" where
  "stored_ok c =
     ((\<forall>h d. m_details c h = Some d \<longrightarrow> (\<exists>d'. db_details c h = Some d' \<and> core d' = core d))
      \<and> (\<forall>h b. m_blocks c h = Some b \<longrightarrow> db_blocks c h = Some b)
      \<and> (\<forall>h d. db_details c h = Some d \<longrightarrow> \<not> details_isNull d) \<and> (\<forall>h b. db_blocks c h = Some b \<longrightarrow> known c h)
      \<and> (\<forall>h. known c h \<longrightarrow> num c h < 2 ^ 28)
      \<and> (\<forall>h. known c h \<longrightarrow> h \<noteq> m_genesisHash c \<longrightarrow> (\<exists>b hx. db_blocks c h = Some b \<and> block_ok b h hx
           \<and> unat (h_number hx) = num c h \<and> h_parentHash hx = par c h \<and> td c h = td c (par c h) + h_difficulty hx))
      \<and> m_genesisHeaderBytes c \<noteq> []
      \<and> (\<forall>x. \<exists>g. header_new (m_genesisHeaderBytes c) HeaderData x = Inr g \<and> h_number g = 0 \<and> header_exists g))"

definition canon_at :: "chain \<Rightarrow> nat \<Rightarrow> h256" where
  "canon_at c n = anc c (m_lastBlockHash c) (num c (m_lastBlockHash c) - n)"

text \<open>The head that \<^verbatim>\<open>open\<close> would find.\<close>

definition stored_head :: "chain \<Rightarrow> h256" where
  "stored_head c = (case db_best c of None \<Rightarrow> m_genesisHash c | Some h \<Rightarrow> h)"

lemma stored_head_cong: "db_best c' = db_best c \<Longrightarrow> m_genesisHash c' = m_genesisHash c \<Longrightarrow> stored_head c' = stored_head c"
  by (simp add: stored_head_def split: option.split)

definition head_ok :: "chain \<Rightarrow> bool" where
  "head_ok c = (known c (m_lastBlockHash c) \<and> m_lastBlockNumber c = num c (m_lastBlockHash c)
     \<and> stored_head c = m_lastBlockHash c
     \<and> (\<forall>n. 0 < n \<longrightarrow> n \<le> num c (m_lastBlockHash c) \<longrightarrow> db_blockHashes c n = Some (canon_at c n)))"

definition covered :: "(h256 \<Rightarrow> log_bloom list) \<Rightarrow> (h256 \<Rightarrow> log_bloom list) \<Rightarrow> nat \<Rightarrow> log_bloom \<Rightarrow> bool" where
  "covered f g n b = (indexed f n b \<and> indexed g n b)"

definition index_ok :: "chain \<Rightarrow> bool" where
  "index_ok c =
     (sized (chunk c) \<and> sized (dchunk_of (db_blocksBlooms c))
      \<and> (\<forall>n b hx. 0 < n \<longrightarrow> n \<le> num c (m_lastBlockHash c) \<longrightarrow> db_blocks c (canon_at c n) = Some b \<longrightarrow> header_new b BlockData 0 = Inr hx
           \<longrightarrow> covered (chunk c) (dchunk_of (db_blocksBlooms c)) n (block_bloom hx)))"

definition best_ok :: "chain \<Rightarrow> bool" where
  "best_ok c = (\<forall>h. known c h \<longrightarrow> td c h \<le> td c (m_lastBlockHash c))"

definition chain_inv :: "chain \<Rightarrow> bool" where
  "chain_inv c = (tree_ok c \<and> stored_ok c \<and> head_ok c \<and> index_ok c)"

lemma quiet_stored:
  assumes q: "quiet c c'"
  shows "stored_ok c' = stored_ok c" "tree_ok c' = tree_ok c" "head_ok c' = head_ok c" "best_ok c' = best_ok c"
proof -
  note v = quiet_views [OF q] quiet_tree [OF q]
  have f: "fills (db_details c) (m_details c) (m_details c')" "fills (db_blocks c) (m_blocks c) (m_blocks c')"
    using q by (simp_all add: quiet_def)
  have "(\<forall>h d. m_details c' h = Some d \<longrightarrow> (\<exists>d'. db_details c h = Some d' \<and> core d' = core d))
      = (\<forall>h d. m_details c h = Some d \<longrightarrow> (\<exists>d'. db_details c h = Some d' \<and> core d' = core d))"
    using f(1) unfolding fills_def by (metis option.inject option.distinct(1))
  moreover have "(\<forall>h b. m_blocks c' h = Some b \<longrightarrow> db_blocks c h = Some b) = (\<forall>h b. m_blocks c h = Some b \<longrightarrow> db_blocks c h = Some b)"
    using f(2) unfolding fills_def by (metis option.distinct(1))
  ultimately show "stored_ok c' = stored_ok c" by (simp add: stored_ok_def v)
  show "tree_ok c' = tree_ok c" by (simp add: tree_ok_def v)
  show "head_ok c' = head_ok c" using stored_head_cong [of c' c] by (simp add: head_ok_def canon_at_def v)
  show "best_ok c' = best_ok c" by (simp add: best_ok_def v)
qed

lemma quiet_inv:
  assumes q: "quiet c c'" and k: "chunk c' = chunk c"
  shows "chain_inv c' = chain_inv c" and "best_ok c' = best_ok c"
proof -
  note v = quiet_views [OF q] quiet_tree [OF q]
  have "index_ok c' = index_ok c" by (simp add: index_ok_def canon_at_def v k)
  then show "chain_inv c' = chain_inv c" "best_ok c' = best_ok c" by (simp_all add: chain_inv_def quiet_stored [OF q])
qed

lemma reads_inv: "reads c c' \<Longrightarrow> chain_inv c' = chain_inv c" "reads c c' \<Longrightarrow> best_ok c' = best_ok c"
  by (rule quiet_inv [OF quiet_reads]; simp)+

lemma det_db:
  assumes "stored_ok c" shows "core (det c h) = core (through (\<lambda>_. None) (db_details c) NullBlockDetails h)"
proof (cases "m_details c h")
  case (Some d)
  then obtain d' where "db_details c h = Some d'" "core d' = core d" using assms unfolding stored_ok_def by blast
  then show ?thesis using Some by (simp add: det_def through_def)
qed (simp add: det_def through_def split: option.splits)

text \<open>\<open>shrinks c c'\<close>: entries of the caches were dropped; the databases and the head are the same.\<close>

definition shrinks :: "chain \<Rightarrow> chain \<Rightarrow> bool" where
  "shrinks c c' =
     (m_genesisHash c' = m_genesisHash c \<and> m_genesisHeaderBytes c' = m_genesisHeaderBytes c
      \<and> m_lastBlockHash c' = m_lastBlockHash c \<and> m_lastBlockNumber c' = m_lastBlockNumber c
      \<and> db_blocks c' = db_blocks c \<and> db_details c' = db_details c \<and> db_blockHashes c' = db_blockHashes c
      \<and> db_blocksBlooms c' = db_blocksBlooms c \<and> db_best c' = db_best c
      \<and> (\<forall>h. m_details c' h = m_details c h \<or> m_details c' h = None) \<and> (\<forall>h. m_blocks c' h = m_blocks c h \<or> m_blocks c' h = None)
      \<and> (\<forall>h. m_blocksBlooms c' h = m_blocksBlooms c h \<or> m_blocksBlooms c' h = None))"

lemma shrinks_inv:
  assumes inv: "chain_inv c" and s: "shrinks c c'"
  shows "chain_inv c'" and "best_ok c' = best_ok c" "known c' = known c" "num c' = num c"
proof -
  have st: "stored_ok c" using inv by (simp add: chain_inv_def)
  have same: "m_genesisHash c' = m_genesisHash c" "m_genesisHeaderBytes c' = m_genesisHeaderBytes c"
    "m_lastBlockHash c' = m_lastBlockHash c" "m_lastBlockNumber c' = m_lastBlockNumber c"
    "db_blocks c' = db_blocks c" "db_details c' = db_details c" "db_blockHashes c' = db_blockHashes c"
    "db_blocksBlooms c' = db_blocksBlooms c" "db_best c' = db_best c"
    and d: "\<And>h. m_details c' h = m_details c h \<or> m_details c' h = None" and b: "\<And>h. m_blocks c' h = m_blocks c h \<or> m_blocks c' h = None"
    and k0: "\<And>h. m_blocksBlooms c' h = m_blocksBlooms c h \<or> m_blocksBlooms c' h = None"
    using s unfolding shrinks_def by simp_all
  have k: "chunk c' cid = chunk c cid \<or> chunk c' cid = dchunk_of (db_blocksBlooms c) cid" for cid
    using k0 [of cid] by (auto simp: chunk_def through_def dchunk_of_def same)
  have core: "core (det c' h) = core (det c h)" for h
    using d [of h] det_db [OF st, of h] by (auto simp: det_def through_def same)
  note v = core_views [OF core]
  have "stored_ok c'"
  proof -
    have "m_details c h = Some x" if "m_details c' h = Some x" for h x using d [of h] that by auto
    moreover have "m_blocks c h = Some x" if "m_blocks c' h = Some x" for h x using b [of h] that by auto
    ultimately show ?thesis using st unfolding stored_ok_def same v by (elim conjE, intro conjI) blast+
  qed
  moreover have "index_ok c'"
  proof -
    have i: "indexed (chunk c') n B" if "covered (chunk c) (dchunk_of (db_blocksBlooms c)) n B" for n B
      using that k [of "chunkId 0 (n div 16)"] k [of "chunkId 1 (n div 16 div 16)"] by (auto simp: covered_def indexed_def get_def)
    have "sized (chunk c')" using inv k by (auto simp: chain_inv_def index_ok_def sized_def) (metis (no_types))
    then show ?thesis using inv i unfolding chain_inv_def index_ok_def canon_at_def same v by (auto simp: covered_def)
  qed
  ultimately show "chain_inv c'"
    using inv stored_head_cong [of c' c] by (simp add: chain_inv_def tree_ok_def head_ok_def canon_at_def same v)
  show "best_ok c' = best_ok c" by (simp add: best_ok_def same v)
  show "known c' = known c" "num c' = num c" by (simp_all add: v)
qed

lemma gc_shrinks: "shrinks c (garbageCollect due c)"
  by (simp add: shrinks_def garbageCollect_def Let_def forget_def)

section \<open>Batches\<close>

fun hash_puts :: "put list \<Rightarrow> (nat \<Rightarrow> h256 option) \<Rightarrow> nat \<Rightarrow> h256 option" where
  "hash_puts [] m = m"
| "hash_puts (PutBlockHash n h # ps) m = hash_puts ps (m(n \<mapsto> h))"
| "hash_puts (_ # ps) m = hash_puts ps m"

fun bloom_puts :: "put list \<Rightarrow> (h256 \<Rightarrow> log_bloom list option) \<Rightarrow> h256 \<Rightarrow> log_bloom list option" where
  "bloom_puts [] m = m"
| "bloom_puts (PutBlocksBlooms i bs # ps) m = bloom_puts ps (m(i \<mapsto> bs))"
| "bloom_puts (_ # ps) m = bloom_puts ps m"

fun detail_puts :: "put list \<Rightarrow> (h256 \<Rightarrow> block_details option) \<Rightarrow> h256 \<Rightarrow> block_details option" where
  "detail_puts [] m = m"
| "detail_puts (PutDetails h d # ps) m = detail_puts ps (m(h \<mapsto> d))"
| "detail_puts (_ # ps) m = detail_puts ps m"

lemma puts_append [simp]:
  "hash_puts (ps @ qs) m = hash_puts qs (hash_puts ps m)" "bloom_puts (ps @ qs) m' = bloom_puts qs (bloom_puts ps m')"
  "detail_puts (ps @ qs) m'' = detail_puts qs (detail_puts ps m'')"
proof -
  show "hash_puts (ps @ qs) m = hash_puts qs (hash_puts ps m)" by (induction ps m rule: hash_puts.induct) (simp_all add: fun_upd_def)
  show "bloom_puts (ps @ qs) m' = bloom_puts qs (bloom_puts ps m')" by (induction ps m' rule: bloom_puts.induct) (simp_all add: fun_upd_def)
  show "detail_puts (ps @ qs) m'' = detail_puts qs (detail_puts ps m'')" by (induction ps m'' rule: detail_puts.induct) (simp_all add: fun_upd_def)
qed

lemma write_extras_simps:
  "db_blockHashes (write_extras ps c) = hash_puts ps (db_blockHashes c)"
  "db_blocksBlooms (write_extras ps c) = bloom_puts ps (db_blocksBlooms c)"
  "db_details (write_extras ps c) = detail_puts ps (db_details c)"
  "m_blocks (write_extras ps c) = m_blocks c" "m_details (write_extras ps c) = m_details c"
  "m_blocksBlooms (write_extras ps c) = m_blocksBlooms c" "m_genesisHash (write_extras ps c) = m_genesisHash c"
  "m_genesisHeaderBytes (write_extras ps c) = m_genesisHeaderBytes c" "m_lastBlockHash (write_extras ps c) = m_lastBlockHash c"
  "m_lastBlockNumber (write_extras ps c) = m_lastBlockNumber c" "db_blocks (write_extras ps c) = db_blocks c"
  "m_blockHashes (write_extras ps c) = m_blockHashes c" "db_best (write_extras ps c) = db_best c"
proof -
  have "db_blockHashes (write_extras ps c) = hash_puts ps (db_blockHashes c)
    \<and> db_blocksBlooms (write_extras ps c) = bloom_puts ps (db_blocksBlooms c)
    \<and> db_details (write_extras ps c) = detail_puts ps (db_details c)
    \<and> m_blocks (write_extras ps c) = m_blocks c \<and> m_details (write_extras ps c) = m_details c
    \<and> m_blocksBlooms (write_extras ps c) = m_blocksBlooms c \<and> m_genesisHash (write_extras ps c) = m_genesisHash c
    \<and> m_genesisHeaderBytes (write_extras ps c) = m_genesisHeaderBytes c \<and> m_lastBlockHash (write_extras ps c) = m_lastBlockHash c
    \<and> m_lastBlockNumber (write_extras ps c) = m_lastBlockNumber c \<and> db_blocks (write_extras ps c) = db_blocks c
    \<and> m_blockHashes (write_extras ps c) = m_blockHashes c \<and> db_best (write_extras ps c) = db_best c"
  proof (induction ps arbitrary: c)
    case (Cons p ps)
    have e: "write_extras (p # ps) c = write_extras ps (write_put p c)" by (simp add: write_extras_def)
    show ?case unfolding e by (cases p) (simp_all add: Cons fun_upd_def)
  qed (simp add: write_extras_def)
  then show "db_blockHashes (write_extras ps c) = hash_puts ps (db_blockHashes c)"
    "db_blocksBlooms (write_extras ps c) = bloom_puts ps (db_blocksBlooms c)"
    "db_details (write_extras ps c) = detail_puts ps (db_details c)"
    "m_blocks (write_extras ps c) = m_blocks c" "m_details (write_extras ps c) = m_details c"
    "m_blocksBlooms (write_extras ps c) = m_blocksBlooms c" "m_genesisHash (write_extras ps c) = m_genesisHash c"
    "m_genesisHeaderBytes (write_extras ps c) = m_genesisHeaderBytes c" "m_lastBlockHash (write_extras ps c) = m_lastBlockHash c"
    "m_lastBlockNumber (write_extras ps c) = m_lastBlockNumber c" "db_blocks (write_extras ps c) = db_blocks c"
    "m_blockHashes (write_extras ps c) = m_blockHashes c" "db_best (write_extras ps c) = db_best c"
    by simp_all
qed

section \<open>Blocks and their headers\<close>

lemma stored_okD:
  assumes "stored_ok c"
  shows "m_details c h = Some d \<Longrightarrow> \<exists>d'. db_details c h = Some d' \<and> core d' = core d"
    and "m_blocks c h = Some b \<Longrightarrow> db_blocks c h = Some b"
    and "db_details c h = Some d \<Longrightarrow> \<not> details_isNull d" and "db_blocks c h = Some b \<Longrightarrow> known c h"
    and "known c h \<Longrightarrow> num c h < 2 ^ 28"
    and "known c h \<Longrightarrow> h \<noteq> m_genesisHash c \<Longrightarrow> \<exists>b hx. db_blocks c h = Some b \<and> block_ok b h hx
      \<and> unat (h_number hx) = num c h \<and> h_parentHash hx = par c h \<and> td c h = td c (par c h) + h_difficulty hx"
    and "m_genesisHeaderBytes c \<noteq> []"
    and "\<exists>g. header_new (m_genesisHeaderBytes c) HeaderData x = Inr g \<and> h_number g = 0 \<and> header_exists g"
  using assms unfolding stored_ok_def by blast+

lemma core_isNull: "core d = core d' \<Longrightarrow> details_isNull d = details_isNull d'"
  by (simp add: core_def details_isNull_def)

lemma unknown_new:
  assumes st: "stored_ok c" and k: "\<not> known c h"
  shows "db_details c h = None" "m_details c h = None" "db_blocks c h = None" "m_blocks c h = None"
proof -
  show db: "db_details c h = None"
  proof (rule ccontr)
    assume "db_details c h \<noteq> None"
    then obtain d where d: "db_details c h = Some d" by blast
    then have "core (det c h) = core d" using det_db [OF st, of h] by (simp add: through_def)
    then show False using k stored_okD(3) [OF st d] core_isNull [of "det c h" d] by (simp add: known_def)
  qed
  show "m_details c h = None" using stored_okD(1) [OF st, of h] db by (cases "m_details c h") fastforce+
  show "db_blocks c h = None" using stored_okD(4) [OF st, of h] k by (cases "db_blocks c h") auto
  then show "m_blocks c h = None" using stored_okD(2) [OF st, of h] by (cases "m_blocks c h") auto
qed

lemma blk_stored:
  assumes "stored_ok c" and "db_blocks c h = Some b" and "h \<noteq> m_genesisHash c" shows "blk c h = b"
  using assms stored_okD(2) [OF assms(1), of h] by (auto simp: blk_def through_def split: option.splits)

text \<open>The header that a lookup finds for a known block has its number.\<close>

lemma headerData_known:
  assumes st: "stored_ok c" and tr: "tree_ok c" and k: "known c h"
  obtains d c' where "headerData h c = (Inr d, c')" and "d \<noteq> []" and "reads c c'"
    and "\<And>x. \<exists>hx. header_new d HeaderData x = Inr hx \<and> unat (h_number hx) = num c h \<and> header_exists hx"
proof (cases "h = m_genesisHash c")
  case True
  then have "num c h = 0" using tr by (simp add: tree_ok_def)
  moreover have "headerData h c = (Inr (m_genesisHeaderBytes c), c)" using True by (simp add: headerData_def)
  ultimately show thesis using that [OF _ stored_okD(7) [OF st] reads_refl] stored_okD(8) [OF st] by (metis unat_0)
next
  case False
  obtain b hx where b: "db_blocks c h = Some b" "block_ok b h hx" "unat (h_number hx) = num c h"
    using stored_okD(6) [OF st k False] by blast
  obtain d where d: "extractHeader b = Inr d" "d \<noteq> []"
    "\<forall>x. \<exists>hx'. header_new d HeaderData x = Inr hx' \<and> h_number hx' = h_number hx \<and> header_exists hx'" and ne: "b \<noteq> []"
    using b(2) by (auto simp: block_ok_def)
  have "fst (headerData h c) = Inr d"
    using False b(1) d(1) ne stored_okD(2) [OF st, of h] by (auto simp: headerData_def split: option.splits)
  then have "headerData h c = (Inr d, snd (headerData h c))" by (metis prod.collapse)
  then show thesis using that [OF _ d(2) headerData_reads] d(3) b(3) by metis
qed

end
