(* ===== verification/Chain_Canon.thy ===== *)
theory Chain_Canon
  imports Chain_Inv
begin

text \<open>
  A change of the canonical chain, \<^verbatim>\<open>canon_change\<close> of \<open>Block_Chain\<close>: what the loop over the blocks that become canonical
  writes for each of them, and what the details, the blocks, the numbers and the index of the blooms are when it has ended.
\<close>

section \<open>Blocks that become canonical\<close>

text \<open>\<open>ready vb c H B i\<close>: the loop finds the header \<open>H i\<close> and the bytes \<open>B i\<close> for the block \<open>i\<close>.\<close>

definition ready :: "verified_block \<Rightarrow> chain \<Rightarrow> (h256 \<Rightarrow> block_header) \<Rightarrow> (h256 \<Rightarrow> bytes) \<Rightarrow> h256 \<Rightarrow> bool" where
  "ready vb c H B i =
     ((if i = h_hash (vb_info vb) then H i = vb_info vb \<and> B i = vb_block vb
       else blk c i = B i \<and> header_new (B i) BlockData 0 = Inr (H i))
      \<and> h_hash (H i) = i \<and> (\<exists>txs. block_txs (B i) = Inr txs) \<and> unat (h_number (H i)) < 2 ^ 28)"

definition no :: "(h256 \<Rightarrow> block_header) \<Rightarrow> h256 \<Rightarrow> nat" where "no H i = unat (h_number (H i))"

lemma ready_quiet: "quiet c c' \<Longrightarrow> ready vb c' H B i = ready vb c H B i"
  by (simp add: ready_def quiet_views)

text \<open>What the puts of one block do to a view of the chunks in the database.\<close>

definition stored_over :: "(h256 \<Rightarrow> log_bloom list) \<Rightarrow> nat \<Rightarrow> (h256 \<Rightarrow> log_bloom list option) \<Rightarrow> h256 \<Rightarrow> log_bloom list option" where
  "stored_over f n m = m(chunkId 0 (n div 16) \<mapsto> f (chunkId 0 (n div 16)), chunkId 1 (n div 16 div 16) \<mapsto> f (chunkId 1 (n div 16 div 16)))"

lemma tx_puts_none:
  "hash_puts (map (\<lambda>(k, t). PutTransactionAddress (f t) (g k)) ts @ qs) m = hash_puts qs m"
  "bloom_puts (map (\<lambda>(k, t). PutTransactionAddress (f t) (g k)) ts @ qs) m' = bloom_puts qs m'"
  "detail_puts (map (\<lambda>(k, t). PutTransactionAddress (f t) (g k)) ts @ qs) m'' = detail_puts qs m''"
proof -
  have "hash_puts (map (\<lambda>(k, t). PutTransactionAddress (f t) (g k)) ts) m = m" by (induction ts) auto
  moreover have "bloom_puts (map (\<lambda>(k, t). PutTransactionAddress (f t) (g k)) ts) m' = m'" by (induction ts) auto
  moreover have "detail_puts (map (\<lambda>(k, t). PutTransactionAddress (f t) (g k)) ts) m'' = m''" by (induction ts) auto
  ultimately show "hash_puts (map (\<lambda>(k, t). PutTransactionAddress (f t) (g k)) ts @ qs) m = hash_puts qs m"
    "bloom_puts (map (\<lambda>(k, t). PutTransactionAddress (f t) (g k)) ts @ qs) m' = bloom_puts qs m'"
    "detail_puts (map (\<lambda>(k, t). PutTransactionAddress (f t) (g k)) ts @ qs) m'' = detail_puts qs m''"
    by simp_all
qed

lemma look_block: "act_look (chain_block i) c = Some (Inr (blk c i), snd (chain_block i c))"
  by (simp add: act_look_def split_def chain_reads)

lemma canon_block_ok:
  assumes r: "ready vb c H B i" and sz: "sized (chunk c)"
  shows "\<exists>qs c'. canon_block vb i c = Some (Inr qs, c') \<and> quiet c c' \<and> chunk c' = chunk (snd (bloom_insert (no H i) (block_bloom (H i)) c))
    \<and> (\<forall>m. detail_puts qs m = m) \<and> (\<forall>m. hash_puts qs m = m(no H i \<mapsto> i)) \<and> (\<forall>m. bloom_puts qs m = stored_over (chunk c') (no H i) m)"
proof -
  let ?h = "h_hash (vb_info vb)"
  let ?n = "no H i" and ?b = "block_bloom (H i)"
  obtain txs where txs: "block_txs (B i) = Inr txs" using r by (auto simp: ready_def)
  define c1 where "c1 = (if i = ?h then c else snd (chain_block i c))"
  have r1: "reads c c1" by (simp add: c1_def chain_reads)
  have s1: "(if i = ?h then act_ret (vb_info vb) else act_bind (act_look (chain_block i)) (\<lambda>b. act_blk (header_new b BlockData 0))) c
      = Some (Inr (H i), c1)"
    using r by (auto simp: c1_def ready_def act_ret_def act_bind_step [OF look_block] act_blk_def)
  have no: "header_no (H i) = ?n" using r by (simp add: header_no_def no_def ready_def)
  define c2 where "c2 = snd (bloom_insert ?n ?b c1)"
  note spec = bloom_insert_spec [of ?n ?b c1]
  have q12: "quiet c1 c2" unfolding c2_def using spec by (intro quiet_bloomed) blast
  have s2: "act_look (bloom_insert (header_no (H i)) ?b) c1 = Some (Inr [chunkId 0 (?n div 16), chunkId 1 (?n div 16 div 16)], c2)"
    using spec unfolding no c2_def by (simp add: act_look_def split_def)
  define c3 where "c3 = (if i = ?h then c2 else snd (chain_block i c2))"
  have r3: "reads c2 c3" by (simp add: c3_def chain_reads)
  have q: "quiet c c3" using quiet_reads [OF r1] q12 quiet_reads [OF r3] quiet_trans by blast
  have bl: "blk c2 i = blk c i" using quiet_views(2) [OF q12] quiet_views(2) [OF quiet_reads [OF r1]] by simp
  have s3: "(if i = ?h then act_ret (vb_block vb) else act_look (chain_block i)) c2 = Some (Inr (B i), c3)"
    using r by (auto simp: c3_def ready_def act_ret_def look_block bl)
  have s4: "act_blk (block_txs (B i)) c3 = Some (Inr txs, c3)" by (simp add: act_blk_def txs)
  let ?i = "chunkId 0 (?n div 16)" and ?j = "chunkId 1 (?n div 16 div 16)"
  define qs where "qs = map (\<lambda>(k, t). PutTransactionAddress (sha3 t) \<lparr>ta_blockHash = h_hash (H i), ta_index = word_of_nat k\<rparr>) (enumerate 0 txs)
    @ map (\<lambda>a. PutBlocksBlooms a (cached_chunk a c3)) [?i, ?j] @ [PutBlockHash (unat (h_number (H i))) (h_hash (H i))]"
  have run: "canon_block vb i c = Some (Inr qs, c3)"
    unfolding canon_block_def qs_def by (simp only: act_bind_def s1 s2 s3 s4 option.case sum.case prod.case)
  have k3: "chunk c3 = chunk c2" using r3 by simp
  have "memoed ?i c3" "memoed ?j c3" using spec memoed_reads [OF r3] unfolding c2_def by blast+
  then have m: "cached_chunk ?i c3 = chunk c3 ?i" "cached_chunk ?j c3 = chunk c3 ?j" by (simp_all add: memoed_def)
  have "chunk c2 = chunk (snd (bloom_insert ?n ?b c))"
    using spec bloom_insert_spec [of ?n ?b c] r1 unfolding c2_def by (simp add: Let_def)
  then have k: "chunk c3 = chunk (snd (bloom_insert ?n ?b c))" using k3 by simp
  have hi: "h_hash (H i) = i" using r by (simp add: ready_def)
  have "detail_puts qs m = m" "hash_puts qs m' = m'(?n \<mapsto> i)" "bloom_puts qs m'' = stored_over (chunk c3) ?n m''" for m m' m''
    unfolding qs_def tx_puts_none by (simp_all add: hi no_def stored_over_def m [unfolded no_def] del: One_nat_def)
  then show ?thesis using run q k by blast
qed

text \<open>
  \<open>carried c c' qs N\<close>: what was indexed stays so, and the puts \<open>qs\<close> bring the database up to the cache in
  all the chunks that the numbers \<open>N\<close> touch; the other chunks are as they were.
\<close>

definition touched :: "nat set \<Rightarrow> h256 set" where
  "touched N = (\<Union>n\<in>N. {chunkId 0 (n div 16), chunkId 1 (n div 16 div 16)})"

definition carried :: "chain \<Rightarrow> chain \<Rightarrow> put list \<Rightarrow> nat set \<Rightarrow> bool" where
  "carried c c' qs N =
     (quiet c c' \<and> sized (chunk c') \<and> (\<forall>m. detail_puts qs m = m)
      \<and> (\<forall>n b. n < 2 ^ 28 \<longrightarrow> indexed (chunk c) n b \<longrightarrow> indexed (chunk c') n b)
      \<and> (\<forall>m cid. cid \<in> touched N \<longrightarrow> dchunk_of (bloom_puts qs m) cid = chunk c' cid)
      \<and> (\<forall>m cid. cid \<notin> touched N \<longrightarrow> dchunk_of (bloom_puts qs m) cid = dchunk_of m cid \<and> chunk c' cid = chunk c cid))"

lemma carriedD:
  assumes "carried c c' qs N"
  shows "quiet c c'" "sized (chunk c')" "detail_puts qs d = d"
    and "n < 2 ^ 28 \<Longrightarrow> indexed (chunk c) n b \<Longrightarrow> indexed (chunk c') n b"
    and "cid \<in> touched N \<Longrightarrow> dchunk_of (bloom_puts qs m) cid = chunk c' cid"
    and "cid \<notin> touched N \<Longrightarrow> dchunk_of (bloom_puts qs m) cid = dchunk_of m cid" "cid \<notin> touched N \<Longrightarrow> chunk c' cid = chunk c cid"
  using assms unfolding carried_def by blast+

lemma carried_trans:
  assumes a: "carried c c1 qs N" and b: "carried c1 c' qs' N'"
  shows "carried c c' (qs @ qs') (N \<union> N')"
proof -
  have t: "cid \<in> touched (N \<union> N') \<longleftrightarrow> cid \<in> touched N \<or> cid \<in> touched N'" for cid by (auto simp: touched_def)
  show ?thesis
    unfolding carried_def puts_append
  proof (intro conjI allI impI)
    show "quiet c c'" using quiet_trans carriedD(1) [OF a] carriedD(1) [OF b] by blast
    fix m cid assume "cid \<in> touched (N \<union> N')"
    then show "dchunk_of (bloom_puts qs' (bloom_puts qs m)) cid = chunk c' cid"
      using carriedD(5) [OF a] carriedD(5-7) [OF b] by (cases "cid \<in> touched N'") (simp_all add: t)
  next
    fix m cid assume "cid \<notin> touched (N \<union> N')"
    then show "dchunk_of (bloom_puts qs' (bloom_puts qs m)) cid = dchunk_of m cid" "chunk c' cid = chunk c cid"
      using carriedD(6,7) [OF a] carriedD(6,7) [OF b] by (simp_all add: t)
  qed (use carriedD(2-4) [OF b] carriedD(3,4) [OF a] in simp_all)
qed

lemma carried_refl: "sized (chunk c) \<Longrightarrow> carried c c [] {}"
  by (simp add: carried_def touched_def)

lemma canon_block_carried:
  assumes r: "ready vb c H B i" and sz: "sized (chunk c)"
  obtains qs c' where "canon_block vb i c = Some (Inr qs, c')" and "carried c c' qs {no H i}"
    and "\<And>m. hash_puts qs m = m(no H i \<mapsto> i)" and "indexed (chunk c') (no H i) (block_bloom (H i))"
proof -
  let ?n = "no H i" and ?b = "block_bloom (H i)"
  obtain qs c' where run: "canon_block vb i c = Some (Inr qs, c')" and q: "quiet c c'"
    and k: "chunk c' = chunk (snd (bloom_insert ?n ?b c))" and d: "\<And>m. detail_puts qs m = m"
    and h: "\<And>m. hash_puts qs m = m(?n \<mapsto> i)" and b: "\<And>m. bloom_puts qs m = stored_over (chunk c') ?n m"
    using canon_block_ok [OF assms] by blast
  have n: "?n < 2 ^ 28" using r by (simp add: ready_def no_def)
  have t: "touched {?n} = {chunkId 0 (?n div 16), chunkId 1 (?n div 16 div 16)}" by (simp add: touched_def)
  have "dchunk_of (bloom_puts qs m) cid = chunk c' cid" if "cid \<in> touched {?n}" for m cid
    using that unfolding t b by (auto simp: dchunk_of_def stored_over_def)
  moreover have "dchunk_of (bloom_puts qs m) cid = dchunk_of m cid \<and> chunk c' cid = chunk c cid" if "cid \<notin> touched {?n}" for m cid
    using that bloom_insert_spec [of ?n ?b c] unfolding t b k by (simp add: dchunk_of_def stored_over_def put_def Let_def)
  ultimately have "carried c c' qs {?n}"
    unfolding carried_def k using q d bloom_insert_get(1) [OF sz n] indexed_insert(1) [OF sz n] by (simp add: k)
  then show thesis using that run h indexed_insert(2) [OF sz n n, of ?b] by (simp add: k)
qed

lemma canon_loop_carried:
  assumes "\<And>i. i \<in> set is \<Longrightarrow> ready vb c H B i" and "sized (chunk c)"
  shows "\<exists>qs c'. canon_loop vb is ps c = Some (Inr (ps @ qs), c') \<and> carried c c' qs (no H ` set is)
    \<and> (\<forall>m. hash_puts qs m = fold (\<lambda>i m. m(no H i \<mapsto> i)) is m)
    \<and> (\<forall>i\<in>set is. indexed (chunk c') (no H i) (block_bloom (H i)))"
  using assms
proof (induction "is" arbitrary: ps c)
  case Nil
  then show ?case using carried_refl [of c] by (auto simp: act_ret_def intro!: exI [of _ "[]"])
next
  case (Cons i "is")
  have r: "ready vb c H B i" using Cons.prems(1) [of i] by simp
  obtain qs c1 where run: "canon_block vb i c = Some (Inr qs, c1)" and ca: "carried c c1 qs {no H i}"
    and h: "\<And>m. hash_puts qs m = m(no H i \<mapsto> i)" and ix: "indexed (chunk c1) (no H i) (block_bloom (H i))"
    using canon_block_carried [OF r Cons.prems(2)] by blast
  have q: "quiet c c1" and sz: "sized (chunk c1)" using ca by (simp_all add: carried_def)
  have "\<And>j. j \<in> set is \<Longrightarrow> ready vb c1 H B j" using Cons.prems(1) ready_quiet [OF q] by simp
  from Cons.IH [OF this sz, of "ps @ qs"] obtain qs' c' where
    run': "canon_loop vb is (ps @ qs) c1 = Some (Inr ((ps @ qs) @ qs'), c')" and ca': "carried c1 c' qs' (no H ` set is)"
    and h': "\<forall>m. hash_puts qs' m = fold (\<lambda>i m. m(no H i \<mapsto> i)) is m"
    and ix': "\<forall>i\<in>set is. indexed (chunk c') (no H i) (block_bloom (H i))" by blast
  have "canon_loop vb (i # is) ps c = Some (Inr (ps @ qs @ qs'), c')" using run run' by (simp add: act_bind_def)
  moreover have "carried c c' (qs @ qs') (no H ` set (i # is))" using carried_trans [OF ca ca'] by simp
  moreover have "indexed (chunk c') (no H i) (block_bloom (H i))"
    using ca' ix r by (auto simp: carried_def ready_def no_def)
  ultimately show ?case using h h' ix' by (auto intro!: exI [of _ "qs @ qs'"] exI [of _ c'] simp: fun_upd_def)
qed

section \<open>Blocks that leave the chain\<close>

lemma erase_loop_quiet: "quiet c (erase_loop is n comm c) \<and> chunk (erase_loop is n comm c) = chunk c"
proof (induction "is" arbitrary: n c)
  case (Cons i "is")
  let ?c = "c\<lparr>m_blockHashes := (m_blockHashes c)(n := None)\<rparr>"
  have "quiet c ?c" "chunk ?c = chunk c" by (simp_all add: quiet_def frame_def chunk_def)
  then show ?case using Cons [of ?c "as32 (n + 2 ^ 32 - 1)"] quiet_trans by auto
qed simp

lemma revert_index:
  assumes sz: "sized (chunk c)" and less: "num c comm < num c old" and old: "num c old < 2 ^ 28"
  shows "quiet c (revert route comm old c)" "sized (chunk (revert route comm old c))"
    and "n \<le> num c comm \<Longrightarrow> indexed (chunk c) n b \<Longrightarrow> indexed (chunk (revert route comm old c)) n b"
proof -
  define c1 where "c1 = snd (chain_number (hd route) c)"
  define c2 where "c2 = erase_loop route (fst (chain_number (hd route) c)) comm c1"
  define c3 where "c3 = c2\<lparr>m_transactionAddresses := (\<lambda>_. None)\<rparr>"
  define c4 where "c4 = snd (chain_number comm c3)"
  define c5 where "c5 = snd (chain_number old c4)"
  have r: "reads c c1" "reads c3 c4" "reads c4 c5" by (simp_all add: c1_def c4_def c5_def chain_reads)
  have "quiet c1 c2" "chunk c2 = chunk c1" by (simp_all add: c2_def erase_loop_quiet)
  moreover have "quiet c2 c3" "chunk c3 = chunk c2" by (simp_all add: c3_def quiet_def frame_def chunk_def)
  ultimately have q3: "quiet c c3" and k3: "chunk c3 = chunk c" using quiet_reads [OF r(1)] quiet_trans r(1) by (blast, simp)
  have q: "quiet c c5" and k5: "chunk c5 = chunk c" using q3 quiet_reads [OF r(2)] quiet_reads [OF r(3)] quiet_trans r k3 by (blast, simp)
  have nc: "fst (chain_number comm c3) = num c comm"
    using quiet_tree(2) [OF q3] by (simp add: chain_number_val num_def fun_eq_iff)
  have nl: "fst (chain_number old c4) = num c old"
    using quiet_tree(2) [OF q3] r(2) by (simp add: chain_number_val num_def fun_eq_iff)
  let ?b = "word_of_nat (num c comm) + 1 :: uint32" and ?e = "word_of_nat (num c old) + 1 :: uint32"
  have e: "revert route comm old c = clearBlockBlooms ?b ?e c5"
    unfolding revert_def Let_def split_def nc [symmetric] nl [symmetric] unfolding c5_def c4_def c3_def c2_def c1_def ..
  have u: "unat (word_of_nat m + 1 :: uint32) = m + 1" if "m < 2 ^ 28" for m
    using that by (simp add: unat_word_ariths unat_of_nat)
  have ub: "unat ?b = num c comm + 1" "unat ?e = num c old + 1" using u old less by simp_all
  have "?b < ?e" "unat ?e \<le> 2 ^ 28" "sized (chunk c5)" using ub less old sz k5 by (simp_all add: word_less_nat_alt)
  note cl = clearBlockBlooms_spec [OF this]
  show "quiet c (revert route comm old c)" "sized (chunk (revert route comm old c))"
    unfolding e using cl quiet_trans [OF q] quiet_bloomed by blast+
  show "indexed (chunk (revert route comm old c)) n b" if "n \<le> num c comm" "indexed (chunk c) n b"
    unfolding e using cl ub(1) that less old by (simp add: k5)
qed

section \<open>The change of the canonical chain\<close>

text \<open>The headers and the bytes that the loop finds.\<close>

definition hdr :: "verified_block \<Rightarrow> chain \<Rightarrow> h256 \<Rightarrow> block_header" where
  "hdr vb c i = (if i = h_hash (vb_info vb) then vb_info vb else projr (header_new (blk c i) BlockData 0))"

definition body :: "verified_block \<Rightarrow> chain \<Rightarrow> h256 \<Rightarrow> bytes" where
  "body vb c i = (if i = h_hash (vb_info vb) then vb_block vb else blk c i)"

lemma ready_known:
  assumes st: "stored_ok c" and k: "known c i" and g: "i \<noteq> m_genesisHash c" and n: "i \<noteq> h_hash (vb_info vb)"
  shows "ready vb c (hdr vb c) (body vb c) i" and "no (hdr vb c) i = num c i"
proof -
  obtain b hx where b: "db_blocks c i = Some b" "block_ok b i hx" "unat (h_number hx) = num c i"
    using stored_okD(6) [OF st k g] by blast
  then show "ready vb c (hdr vb c) (body vb c) i" "no (hdr vb c) i = num c i"
    using n blk_stored [OF st b(1) g] stored_okD(5) [OF st k] by (auto simp: ready_def hdr_def body_def no_def block_ok_def)
qed

lemma ready_new:
  assumes "block_ok (vb_block vb) (h_hash (vb_info vb)) (vb_info vb)" and "unat (h_number (vb_info vb)) < 2 ^ 28"
  shows "ready vb c (hdr vb c) (body vb c) (h_hash (vb_info vb))"
  using assms by (simp add: ready_def hdr_def body_def block_ok_def)

text \<open>The blocks that the change makes canonical: the new one and the ancestors of it up to the old chain.\<close>

definition new_blocks :: "verified_block \<Rightarrow> chain \<Rightarrow> nat \<Rightarrow> h256 list" where
  "new_blocks vb c b = h_hash (vb_info vb) # map (anc c (h_parentHash (vb_info vb))) [0..<b]"

lemma takeWhile_route:
  assumes "\<And>x. x \<in> set xs \<Longrightarrow> x \<noteq> k" shows "takeWhile (\<lambda>i. i \<noteq> k) (xs @ k # ys) = xs"
  using assms by (induction xs) auto

lemma canon_change_carried:
  assumes inv: "chain_inv c" and k: "known c (h_parentHash (vb_info vb))" and new: "\<not> known c (h_hash (vb_info vb))"
    and ok: "block_ok (vb_block vb) (h_hash (vb_info vb)) (vb_info vb)" and small: "unat (h_number (vb_info vb)) < 2 ^ 28"
  obtains a b route qs c1 c' where "meets c (m_lastBlockHash c) (h_parentHash (vb_info vb)) a b"
    and "canon_change vb ps c = Some (Inr (route, anc c (m_lastBlockHash c) a, ps @ qs), c')"
    and "route = map (anc c (m_lastBlockHash c)) [0..<Suc a] @ rev (map (anc c (h_parentHash (vb_info vb))) [0..<b]) @ [h_hash (vb_info vb)]"
    and "quiet c c1" and "\<And>n B. n \<le> num c (m_lastBlockHash c) - a \<Longrightarrow> indexed (chunk c) n B \<Longrightarrow> indexed (chunk c1) n B"
    and "carried c1 c' qs (no (hdr vb c) ` set (new_blocks vb c b))"
    and "\<And>m. hash_puts qs m = fold (\<lambda>i m. m(no (hdr vb c) i \<mapsto> i)) (new_blocks vb c b) m"
    and "\<And>i. i \<in> set (new_blocks vb c b)
           \<Longrightarrow> indexed (chunk c') (no (hdr vb c) i) (block_bloom (hdr vb c i))"
proof -
  let ?h = "h_hash (vb_info vb)" and ?p = "h_parentHash (vb_info vb)" and ?l = "m_lastBlockHash c"
  have tr: "tree_ok c" and st: "stored_ok c" and kl: "known c ?l" and sz: "sized (chunk c)"
    using inv by (simp_all add: chain_inv_def head_ok_def index_ok_def)
  obtain a b c0 where m: "meets c ?l ?p a b" and r0: "reads c c0"
    and route: "treeRoute ?l ?p True True True c =
      Some ((map (anc c ?l) [0..<a] @ [anc c ?l a] @ rev (map (anc c ?p) [0..<b]), anc c ?l a,
        if map (anc c ?p) [0..<b] \<noteq> [] then length (map (anc c ?l) [0..<a] @ [anc c ?l a]) - 1 else length (map (anc c ?l) [0..<a] @ [anc c ?l a])), c0)"
    using treeRoute_meets [OF tr kl k, of True True True] by (auto simp: Let_def)
  let ?comm = "anc c ?l a" and ?xs = "map (anc c ?p) [0..<b]"
  have a: "a \<le> num c ?l" and b: "b \<le> num c ?p" and eq: "?comm = anc c ?p b" using m by (simp_all add: meets_def)
  have kc: "known c ?comm" "num c ?comm = num c ?l - a" using anc_known [OF tr kl a] by simp_all
  have up: "known c (anc c ?p j)" "num c (anc c ?p j) = num c ?p - j" "anc c ?p j \<noteq> m_genesisHash c" "anc c ?p j \<noteq> ?comm" if "j < b" for j
  proof -
    show x: "known c (anc c ?p j)" "num c (anc c ?p j) = num c ?p - j" using anc_known [OF tr k, of j] that b by simp_all
    then show "anc c ?p j \<noteq> m_genesisHash c" using tree_okD(4) [OF tr x(1)] that b by auto
    have "num c (anc c ?p b) = num c ?p - b" using anc_known [OF tr k b] by simp
    then have "num c (anc c ?p b) < num c (anc c ?p j)" using x(2) that b by linarith
    then show "anc c ?p j \<noteq> ?comm" unfolding eq by (metis less_irrefl)
  qed
  let ?route = "map (anc c ?l) [0..<Suc a] @ rev ?xs @ [?h]"
  have rt: "(map (anc c ?l) [0..<a] @ [?comm] @ rev ?xs) @ [?h] = ?route" by simp
  have rv: "rev ?route = (?h # ?xs) @ ?comm # rev (map (anc c ?l) [0..<a])" by (simp add: rev_map)
  have hc: "?h \<noteq> ?comm" using new kc by auto
  have ne: "x \<noteq> ?comm" if "x \<in> set (?h # ?xs)" for x
  proof (cases "x = ?h")
    case False
    then obtain j where j: "j < b" "x = anc c ?p j" using \<open>x \<in> set (?h # ?xs)\<close> by auto
    show ?thesis unfolding j(2) by (rule up(4) [OF j(1)])
  qed (use hc in simp)
  have tw: "takeWhile (\<lambda>i. i \<noteq> ?comm) (rev ?route) = ?h # ?xs"
    unfolding rv by (rule takeWhile_route) (rule ne)
  define c1 where "c1 = (if ?comm \<noteq> ?l then revert ?route ?comm ?l c0 else c0)"
  have r0s: "num c0 = num c" "chunk c0 = chunk c" using r0 by simp_all
  have c1: "quiet c0 c1" "sized (chunk c1)" "\<And>n B. n \<le> num c ?l - a \<Longrightarrow> indexed (chunk c) n B \<Longrightarrow> indexed (chunk c1) n B"
  proof -
    have "quiet c0 c1 \<and> sized (chunk c1) \<and> (\<forall>n B. n \<le> num c ?l - a \<longrightarrow> indexed (chunk c) n B \<longrightarrow> indexed (chunk c1) n B)"
    proof (cases "?comm = ?l")
      case True
      then show ?thesis using sz by (simp add: c1_def r0s)
    next
      case False
      then have "a \<noteq> 0" by (intro notI) simp
      then have less: "num c0 ?comm < num c0 ?l" using kc(2) a r0s by simp
      have "num c0 ?l < 2 ^ 28" "sized (chunk c0)" using stored_okD(5) [OF st kl] sz r0s by simp_all
      from revert_index [OF this(2) less this(1)] show ?thesis using False kc(2) r0s by (simp add: c1_def)
    qed
    then show "quiet c0 c1" "sized (chunk c1)" "\<And>n B. n \<le> num c ?l - a \<Longrightarrow> indexed (chunk c) n B \<Longrightarrow> indexed (chunk c1) n B" by blast+
  qed
  have q1: "quiet c c1" using quiet_trans [OF quiet_reads [OF r0] c1(1)] .
  have "ready vb c (hdr vb c) (body vb c) i" if "i \<in> set (?h # ?xs)" for i
  proof (cases "i = ?h")
    case True then show ?thesis using ready_new [OF ok small] by simp
  next
    case False
    then obtain j where j: "j < b" "i = anc c ?p j" using \<open>i \<in> set (?h # ?xs)\<close> by auto
    then show ?thesis using ready_known(1) [OF st up(1,3) [OF j(1)]] False by simp
  qed
  then have "\<And>i. i \<in> set (?h # ?xs) \<Longrightarrow> ready vb c1 (hdr vb c) (body vb c) i" using ready_quiet [OF q1] by simp
  from canon_loop_carried [OF this c1(2), where ps = ps] obtain qs c' where
    run: "canon_loop vb (?h # ?xs) ps c1 = Some (Inr (ps @ qs), c')" and ca: "carried c1 c' qs (no (hdr vb c) ` set (?h # ?xs))"
    and hp: "\<forall>m. hash_puts qs m = fold (\<lambda>i m. m(no (hdr vb c) i \<mapsto> i)) (?h # ?xs) m"
    and ix: "\<forall>i\<in>set (?h # ?xs). indexed (chunk c') (no (hdr vb c) i) (block_bloom (hdr vb c i))" by blast
  have "canon_change vb ps c = act_bind (canon_loop vb (?h # ?xs) ps) (\<lambda>ps. act_ret (?route, ?comm, ps)) c1"
    unfolding canon_change_def Let_def route option.case prod.case rt c1_def [symmetric] tw ..
  also have "\<dots> = Some (Inr (?route, ?comm, ps @ qs), c')" by (simp only: act_bind_def run option.case prod.case sum.case act_ret_def)
  finally have "canon_change vb ps c = Some (Inr (?route, ?comm, ps @ qs), c')" .
  then show thesis using hp ix by (intro that [OF m _ HOL.refl q1 c1(3) ca [folded new_blocks_def]]) (simp_all only: new_blocks_def)
qed

section \<open>The new block\<close>

text \<open>\<open>stores vb t c c'\<close>: the block is in the databases, with the total difficulty \<open>t\<close>; the details of its
  parent may have a new child.\<close>

definition stores :: "verified_block \<Rightarrow> u256 \<Rightarrow> chain \<Rightarrow> chain \<Rightarrow> bool" where
  "stores vb t c c' =
     (\<exists>dp. core dp = core (det c (h_parentHash (vb_info vb)))
       \<and> db_details c' = (db_details c)(h_parentHash (vb_info vb) \<mapsto> dp,
           h_hash (vb_info vb) \<mapsto> \<lparr>bd_number = bd_number (det c (h_parentHash (vb_info vb))) + 1, bd_totalDifficulty = t,
             bd_parent = h_parentHash (vb_info vb), bd_children = []\<rparr>)
       \<and> db_blocks c' = (db_blocks c)(h_hash (vb_info vb) \<mapsto> vb_block vb)
       \<and> m_details c' = m_details c \<and> m_blocks c' = m_blocks c
       \<and> m_genesisHash c' = m_genesisHash c \<and> m_genesisHeaderBytes c' = m_genesisHeaderBytes c)"

text \<open>A block that may be imported: it is new, well formed, its number follows that of its known parent.\<close>

definition fresh_block :: "verified_block \<Rightarrow> chain \<Rightarrow> bool" where
  "fresh_block vb c =
     (\<not> known c (h_hash (vb_info vb)) \<and> h_hash (vb_info vb) \<noteq> 0 \<and> known c (h_parentHash (vb_info vb))
      \<and> block_ok (vb_block vb) (h_hash (vb_info vb)) (vb_info vb)
      \<and> unat (h_number (vb_info vb)) = Suc (num c (h_parentHash (vb_info vb))) \<and> unat (h_number (vb_info vb)) < 2 ^ 28)"

lemma core_iff: "core d = core d' \<longleftrightarrow> bd_number d = bd_number d' \<and> bd_totalDifficulty d = bd_totalDifficulty d' \<and> bd_parent d = bd_parent d'"
  by (simp add: core_def)

lemma stores_views:
  assumes st: "stored_ok c" and s: "stores vb t c c'" and f: "fresh_block vb c"
  shows "known c' = (known c)(h_hash (vb_info vb) := True)"
    and "num c' = (num c)(h_hash (vb_info vb) := Suc (num c (h_parentHash (vb_info vb))))"
    and "par c' = (par c)(h_hash (vb_info vb) := h_parentHash (vb_info vb))"
    and "td c' = (td c)(h_hash (vb_info vb) := t)"
proof -
  let ?h = "h_hash (vb_info vb)" and ?p = "h_parentHash (vb_info vb)"
  obtain dp where dp: "core dp = core (det c ?p)"
    and db: "db_details c' = (db_details c)(?p \<mapsto> dp, ?h \<mapsto> \<lparr>bd_number = bd_number (det c ?p) + 1, bd_totalDifficulty = t, bd_parent = ?p, bd_children = []\<rparr>)"
    and m: "m_details c' = m_details c" using s by (auto simp: stores_def)
  have new: "\<not> known c ?h" and k: "known c ?p" and n: "Suc (num c ?p) < 2 ^ 28" using f by (auto simp: fresh_block_def)
  have m0: "m_details c ?h = None" by (rule unknown_new(2) [OF st new])
  have dh: "det c' ?h = \<lparr>bd_number = bd_number (det c ?p) + 1, bd_totalDifficulty = t, bd_parent = ?p, bd_children = []\<rparr>"
    by (simp add: det_def through_def m m0 db)
  have cx: "core (det c' x) = core (det c x)" if "x \<noteq> ?h" for x
  proof (cases "x = ?p")
    case True
    then have "db_details c' x = Some dp" using that by (simp add: db)
    then have "det c' x = det c x \<or> det c' x = dp" by (auto simp: det_def through_def m split: option.splits)
    then show ?thesis using dp True by metis
  next
    case False
    then have "db_details c' x = db_details c x" using that by (simp add: db fun_upd_apply)
    then show ?thesis by (simp add: det_def through_def m split: option.split)
  qed
  have e: "bd_number (det c' x) = bd_number (det c x)" "bd_totalDifficulty (det c' x) = bd_totalDifficulty (det c x)"
    "bd_parent (det c' x) = bd_parent (det c x)" if "x \<noteq> ?h" for x using cx [OF that] by (simp_all add: core_iff)
  have nh: "unat (bd_number (det c ?p) + 1) = Suc (num c ?p)" using n by (simp add: num_def unat_word_ariths)
  have "bd_number (det c ?p) + 1 \<noteq> InvalidBlockNumber"
  proof
    assume "bd_number (det c ?p) + 1 = InvalidBlockNumber"
    moreover have "unat InvalidBlockNumber = 2 ^ 32 - 1" by (simp add: InvalidBlockNumber_def unsigned_minus_1_eq_mask mask_eq_exp_minus_1)
    ultimately show False using n nh by simp
  qed
  then show "known c' = (known c)(?h := True)" using e by (auto simp: known_def details_isNull_def fun_eq_iff dh)
  show "num c' = (num c)(?h := Suc (num c ?p))" "par c' = (par c)(?h := ?p)" "td c' = (td c)(?h := t)"
    using e nh by (auto simp: num_def par_def td_def fun_eq_iff dh)
qed

lemma stores_tree:
  assumes st: "stored_ok c" and tr: "tree_ok c" and s: "stores vb t c c'" and f: "fresh_block vb c"
  shows "tree_ok c'"
proof -
  note v = stores_views [OF st s f]
  have g: "m_genesisHash c' = m_genesisHash c" using s by (auto simp: stores_def)
  have new: "\<not> known c (h_hash (vb_info vb))" "h_hash (vb_info vb) \<noteq> 0" "known c (h_parentHash (vb_info vb))" using f by (simp_all add: fresh_block_def)
  have "known c x \<Longrightarrow> x \<noteq> h_hash (vb_info vb)" for x using new by auto
  then show ?thesis using tr new unfolding tree_ok_def v g by (simp add: fun_upd_apply)
qed

lemma stores_stored:
  assumes st: "stored_ok c" and tr: "tree_ok c" and s: "stores vb t c c'" and f: "fresh_block vb c"
    and t: "t = td c (h_parentHash (vb_info vb)) + h_difficulty (vb_info vb)"
  shows "stored_ok c'"
proof -
  let ?h = "h_hash (vb_info vb)" and ?p = "h_parentHash (vb_info vb)"
  note v = stores_views [OF st s f]
  obtain dp where dp: "core dp = core (det c ?p)"
    and db: "db_details c' = (db_details c)(?p \<mapsto> dp, ?h \<mapsto> \<lparr>bd_number = bd_number (det c ?p) + 1, bd_totalDifficulty = t, bd_parent = ?p, bd_children = []\<rparr>)"
    and bl: "db_blocks c' = (db_blocks c)(?h \<mapsto> vb_block vb)"
    and m: "m_details c' = m_details c" "m_blocks c' = m_blocks c" "m_genesisHash c' = m_genesisHash c" "m_genesisHeaderBytes c' = m_genesisHeaderBytes c"
    using s by (auto simp: stores_def)
  have new: "\<not> known c ?h" and k: "known c ?p" and n: "unat (h_number (vb_info vb)) = Suc (num c ?p)" "Suc (num c ?p) < 2 ^ 28"
    and ok: "block_ok (vb_block vb) ?h (vb_info vb)" using f by (auto simp: fresh_block_def)
  have ph: "?p \<noteq> ?h" using new k by auto
  note un = unknown_new [OF st new]
  have kx: "known c x \<Longrightarrow> x \<noteq> ?h" for x using new by auto
  show ?thesis
    unfolding stored_ok_def m
  proof (intro conjI allI impI)
    fix h d assume h: "m_details c h = Some d"
    then have "h \<noteq> ?h" using un by auto
    moreover have "h = ?p \<Longrightarrow> core dp = core d" using dp h by (simp add: det_def through_def)
    ultimately show "\<exists>d'. db_details c' h = Some d' \<and> core d' = core d"
      using stored_okD(1) [OF st h] by (cases "h = ?p") (simp_all add: db fun_upd_apply)
  next
    fix h b assume h: "m_blocks c h = Some b"
    then show "db_blocks c' h = Some b" using un stored_okD(2) [OF st h] by (auto simp: bl fun_upd_apply)
  next
    fix h d assume h: "db_details c' h = Some d"
    have "\<not> details_isNull dp" using core_isNull [OF dp] k by (simp add: known_def)
    moreover have "det c' ?h = \<lparr>bd_number = bd_number (det c ?p) + 1, bd_totalDifficulty = t, bd_parent = ?p, bd_children = []\<rparr>"
      by (simp add: det_def through_def m un db)
    then have "\<not> details_isNull \<lparr>bd_number = bd_number (det c ?p) + 1, bd_totalDifficulty = t, bd_parent = ?p, bd_children = []\<rparr>"
      using v(1) by (metis fun_upd_same known_def)
    ultimately show "\<not> details_isNull d" using h stored_okD(3) [OF st, of h d] by (auto simp: db fun_upd_apply split: if_splits)
  next
    fix h b assume "db_blocks c' h = Some b"
    then show "known c' h" using stored_okD(4) [OF st, of h] by (auto simp: bl v fun_upd_apply split: if_splits)
  next
    fix h assume "known c' h"
    then show "num c' h < 2 ^ 28" using stored_okD(5) [OF st, of h] n by (auto simp: v fun_upd_apply split: if_splits)
  next
    fix h assume h: "known c' h" "h \<noteq> m_genesisHash c"
    show "\<exists>b hx. db_blocks c' h = Some b \<and> block_ok b h hx \<and> unat (h_number hx) = num c' h \<and> h_parentHash hx = par c' h
        \<and> td c' h = td c' (par c' h) + h_difficulty hx"
    proof (cases "h = ?h")
      case True
      then show ?thesis using ok n t ph by (auto simp: bl v fun_upd_apply intro!: exI [of _ "vb_block vb"] exI [of _ "vb_info vb"])
    next
      case False
      then have kh: "known c h" using h by (simp add: v)
      then have "par c h \<noteq> ?h" using kx tree_okD(2) [OF tr kh h(2)] by blast
      then show ?thesis using stored_okD(6) [OF st kh h(2)] False by (simp add: bl v fun_upd_apply)
    qed
  qed (use stored_okD(7,8) [OF st] in blast)+
qed

lemma anc_new:
  assumes st: "stored_ok c" and tr: "tree_ok c" and s: "stores vb t c c'" and f: "fresh_block vb c"
    and k: "known c x" and n: "n \<le> num c x"
  shows "anc c' x n = anc c x n"
  using n
proof (induction n)
  case (Suc n)
  then have "known c (anc c x n)" using anc_known [OF tr k] by simp
  then have "anc c x n \<noteq> h_hash (vb_info vb)" using f by (auto simp: fresh_block_def)
  then show ?case using Suc by (simp add: anc_Suc stores_views(3) [OF st s f])
qed simp

lemma fresh_quiet: "quiet c c' \<Longrightarrow> fresh_block vb c' = fresh_block vb c"
  by (simp add: fresh_block_def quiet_tree)

text \<open>A block that does not become the head leaves the canonical chain as it was.\<close>

lemma stores_side:
  assumes inv: "chain_inv c" and s: "stores vb t c c'" and f: "fresh_block vb c"
    and same: "m_lastBlockHash c' = m_lastBlockHash c" "m_lastBlockNumber c' = m_lastBlockNumber c" "db_blockHashes c' = db_blockHashes c"
      "db_blocksBlooms c' = db_blocksBlooms c" "chunk c' = chunk c" "db_best c' = db_best c"
  shows "head_ok c'" "index_ok c'"
proof -
  let ?h = "h_hash (vb_info vb)" and ?l = "m_lastBlockHash c"
  have st: "stored_ok c" and tr: "tree_ok c" and hd: "head_ok c" and ix: "index_ok c" using inv by (simp_all add: chain_inv_def)
  have kl: "known c ?l" using hd by (simp add: head_ok_def)
  note v = stores_views [OF st s f]
  have lh: "?l \<noteq> ?h" using f kl by (auto simp: fresh_block_def)
  have ca: "canon_at c' n = canon_at c n" for n
    using anc_new [OF st tr s f kl, of "num c ?l - n"] lh by (simp add: canon_at_def same v)
  have g: "m_genesisHash c' = m_genesisHash c" using s by (auto simp: stores_def)
  show "head_ok c'" using hd lh stored_head_cong [of c' c] by (simp add: head_ok_def same v ca g)
  have "db_blocks c' (canon_at c n) = db_blocks c (canon_at c n)" for n
  proof -
    have "known c (canon_at c n)" using anc_known [OF tr kl, of "num c ?l - n"] by (simp add: canon_at_def)
    then have "canon_at c n \<noteq> ?h" using f by (auto simp: fresh_block_def)
    then show ?thesis using s by (auto simp: stores_def)
  qed
  then show "index_ok c'" using ix lh by (simp add: index_ok_def same v ca)
qed

lemma fold_upd:
  assumes "inj_on f (set xs)"
  shows "i \<in> set xs \<Longrightarrow> fold (\<lambda>i m. m(f i \<mapsto> i)) xs m (f i) = Some i"
    and "n \<notin> f ` set xs \<Longrightarrow> fold (\<lambda>i m. m(f i \<mapsto> i)) xs m n = m n"
proof -
  show out: "fold (\<lambda>i m. m(f i \<mapsto> i)) xs m n = m n" if "n \<notin> f ` set xs" for n xs m
    using that by (induction xs arbitrary: m) auto
  show "fold (\<lambda>i m. m(f i \<mapsto> i)) xs m (f i) = Some i" if "i \<in> set xs"
    using that assms
  proof (induction xs arbitrary: m)
    case (Cons x xs)
    show ?case
    proof (cases "i \<in> set xs")
      case False
      then have i: "i = x" using Cons.prems by simp
      then have "f i \<notin> f ` set xs" using Cons.prems False by (auto simp: inj_on_def)
      from out [OF this, of "m(f x \<mapsto> x)"] show ?thesis unfolding i by (simp add: fun_upd_def)
    qed (use Cons in simp)
  qed simp
qed

section \<open>A new head\<close>

text \<open>The canonical chain under a new head: the new block, then its ancestors, which from the meeting point on
  were canonical already.\<close>

lemma canon_new:
  assumes st: "stored_ok c" and tr: "tree_ok c" and s: "stores vb t c c'" and f: "fresh_block vb c" and l: "m_lastBlockHash c' = h_hash (vb_info vb)"
  shows "num c' (m_lastBlockHash c') = Suc (num c (h_parentHash (vb_info vb)))"
    and "canon_at c' (Suc (num c (h_parentHash (vb_info vb)))) = h_hash (vb_info vb)"
    and "n \<le> num c (h_parentHash (vb_info vb)) \<Longrightarrow> canon_at c' n = anc c (h_parentHash (vb_info vb)) (num c (h_parentHash (vb_info vb)) - n)"
proof -
  let ?h = "h_hash (vb_info vb)" and ?p = "h_parentHash (vb_info vb)"
  have k: "known c ?p" using f by (simp add: fresh_block_def)
  note v = stores_views [OF st s f]
  have nh: "num c' ?h = Suc (num c ?p)" by (simp add: v)
  then show "num c' (m_lastBlockHash c') = Suc (num c ?p)" by (simp add: l)
  show "canon_at c' (Suc (num c ?p)) = ?h" unfolding canon_at_def l nh by simp
  show "canon_at c' n = anc c ?p (num c ?p - n)" if "n \<le> num c ?p"
  proof -
    have "canon_at c' n = anc c' (par c' ?h) (num c ?p - n)" unfolding canon_at_def l nh anc_par using that by (simp add: Suc_diff_le)
    then show ?thesis using anc_new [OF st tr s f k, of "num c ?p - n"] by (simp add: v)
  qed
qed

lemma canon_meets:
  assumes inv: "chain_inv c" and k: "known c p" and m: "meets c (m_lastBlockHash c) p a b" and n: "n \<le> num c p - b"
  shows "anc c p (num c p - n) = canon_at c n" and "num c p - b = num c (m_lastBlockHash c) - a"
proof -
  let ?l = "m_lastBlockHash c"
  have tr: "tree_ok c" and kl: "known c ?l" using inv by (simp_all add: chain_inv_def head_ok_def)
  have a: "a \<le> num c ?l" "b \<le> num c p" "anc c ?l a = anc c p b" using m by (simp_all add: meets_def)
  show e: "num c p - b = num c ?l - a" using anc_known [OF tr kl a(1)] anc_known [OF tr k a(2)] a(3) by simp
  have "num c p - n = b + (num c p - b - n)" "num c ?l - n = a + (num c ?l - a - n)" using n a e by linarith+
  then show "anc c p (num c p - n) = canon_at c n" unfolding canon_at_def using a(3) e anc_add by metis
qed

lemma new_blocks_cases:
  assumes inv: "chain_inv c" and f: "fresh_block vb c" and b: "b \<le> num c (h_parentHash (vb_info vb))" and i: "i \<in> set (new_blocks vb c b)"
  obtains "i = h_hash (vb_info vb)" and "no (hdr vb c) i = Suc (num c (h_parentHash (vb_info vb)))"
  | j where "j < b" and "i = anc c (h_parentHash (vb_info vb)) j" and "no (hdr vb c) i = num c (h_parentHash (vb_info vb)) - j"
      and "known c i" and "i \<noteq> m_genesisHash c" and "i \<noteq> h_hash (vb_info vb)"
proof (cases "i = h_hash (vb_info vb)")
  case True
  then show thesis using that(1) f by (simp add: fresh_block_def no_def hdr_def)
next
  case False
  let ?p = "h_parentHash (vb_info vb)"
  have st: "stored_ok c" and tr: "tree_ok c" and k: "known c ?p" using inv f by (simp_all add: chain_inv_def fresh_block_def)
  obtain j where j: "j < b" "i = anc c ?p j" using i False by (auto simp: new_blocks_def)
  have x: "known c i" "num c i = num c ?p - j" using anc_known [OF tr k, of j] j b by simp_all
  then have g: "i \<noteq> m_genesisHash c" using tree_okD(4) [OF tr x(1)] j(1) b by auto
  show thesis using that(2) [OF j] ready_known(2) [OF st x(1) g False] x g False by simp
qed

lemma new_blocks_inj:
  assumes "chain_inv c" and "fresh_block vb c" and b: "b \<le> num c (h_parentHash (vb_info vb))"
  shows "inj_on (no (hdr vb c)) (set (new_blocks vb c b))"
proof (rule inj_on_inverseI)
  let ?p = "h_parentHash (vb_info vb)"
  fix i assume i: "i \<in> set (new_blocks vb c b)"
  show "(\<lambda>n. if n = Suc (num c ?p) then h_hash (vb_info vb) else anc c ?p (num c ?p - n)) (no (hdr vb c) i) = i"
  proof (rule new_blocks_cases [OF assms i])
    fix j assume "j < b" "i = anc c ?p j" "no (hdr vb c) i = num c ?p - j"
    moreover have "num c ?p - (num c ?p - j) = j" "num c ?p - j \<noteq> Suc (num c ?p)" using \<open>j < b\<close> b by linarith+
    ultimately show ?thesis by (simp only: if_False)
  qed simp
qed

lemma new_blocks_header:
  assumes inv: "chain_inv c" and f: "fresh_block vb c" and b: "b \<le> num c (h_parentHash (vb_info vb))" and i: "i \<in> set (new_blocks vb c b)"
    and q: "quiet c c2" and s: "stores vb t c2 c'" and d: "db_blocks c' i = Some bb" and h: "header_new bb BlockData 0 = Inr hx"
  shows "hdr vb c i = hx"
proof -
  have db: "db_blocks c' = (db_blocks c)(h_hash (vb_info vb) \<mapsto> vb_block vb)" using s quiet_views(7) [OF q] by (auto simp: stores_def)
  show ?thesis
  proof (rule new_blocks_cases [OF inv f b i])
    assume "i = h_hash (vb_info vb)"
    then show ?thesis using f h d by (simp add: db hdr_def fresh_block_def block_ok_def)
  next
    assume n: "i \<noteq> m_genesisHash c" "i \<noteq> h_hash (vb_info vb)"
    then have "db_blocks c i = Some bb" using d by (simp add: db)
    then have "blk c i = bb" using blk_stored inv n(1) by (simp add: chain_inv_def)
    then show ?thesis using n(2) h by (simp add: hdr_def)
  qed
qed

lemma indexed_puts:
  assumes ca: "carried c1 c2 qs N" and i: "indexed (chunk c2) n B" and m: "n \<in> N \<or> indexed (dchunk_of m) n B"
  shows "indexed (dchunk_of (bloom_puts qs m)) n B"
proof -
  have t: "chunkId 0 (n div 16) \<in> touched N" "chunkId 1 (n div 16 div 16) \<in> touched N" if "n \<in> N"
    using that by (auto simp: touched_def)
  have "bloom_contains (dchunk_of (bloom_puts qs m) cid ! x) B"
    if "bloom_contains (chunk c2 cid ! x) B" "cid \<in> touched N \<or> bloom_contains (dchunk_of m cid ! x) B" for cid x
    using that carriedD(5,6) [OF ca, of cid m] by (cases "cid \<in> touched N") auto
  then show ?thesis using i m t unfolding indexed_def get_def by blast
qed

lemma sized_puts: "carried c1 c2 qs N \<Longrightarrow> sized (dchunk_of m) \<Longrightarrow> sized (dchunk_of (bloom_puts qs m))"
  unfolding sized_def by (metis carriedD(2,5,6) sized_def)

lemma canon_split:
  assumes inv: "chain_inv c" and f: "fresh_block vb c" and m: "meets c (m_lastBlockHash c) (h_parentHash (vb_info vb)) a b"
    and q: "quiet c c2" and s: "stores vb t c2 c'" and l: "m_lastBlockHash c' = h_hash (vb_info vb)"
    and n: "n \<le> Suc (num c (h_parentHash (vb_info vb)))"
  obtains (new) "canon_at c' n \<in> set (new_blocks vb c b)" and "no (hdr vb c) (canon_at c' n) = n"
  | (old) "n \<le> num c (h_parentHash (vb_info vb)) - b" and "canon_at c' n = canon_at c n" and "n \<notin> no (hdr vb c) ` set (new_blocks vb c b)"
proof -
  let ?h = "h_hash (vb_info vb)" and ?p = "h_parentHash (vb_info vb)"
  have k: "known c ?p" and b: "b \<le> num c ?p" using f m by (simp_all add: fresh_block_def meets_def)
  have st2: "stored_ok c2" "tree_ok c2" using inv quiet_stored [OF q] by (simp_all add: chain_inv_def)
  have f2: "fresh_block vb c2" using f fresh_quiet [OF q] by simp
  note cn = canon_new [OF st2 s f2 l, unfolded quiet_tree [OF q]]
  have num: "n' = no (hdr vb c) i \<Longrightarrow> num c ?p - b < n'" if "i \<in> set (new_blocks vb c b)" for i n'
    by (rule new_blocks_cases [OF inv f b that]) (use b in simp_all)
  consider "n = Suc (num c ?p)" | "n \<le> num c ?p" "num c ?p - b < n" | "n \<le> num c ?p - b" using n by linarith
  then show thesis
  proof cases
    case 1
    then show thesis using new cn(2) f by (simp add: new_blocks_def fresh_block_def no_def hdr_def)
  next
    case 2
    let ?j = "num c ?p - n"
    have j: "?j < b" "num c ?p - ?j = n" using 2 b by linarith+
    have e: "canon_at c' n = anc c ?p ?j" using cn(3) [OF 2(1)] .
    have i: "anc c ?p ?j \<in> set (new_blocks vb c b)" using j(1) by (simp add: new_blocks_def)
    have x: "known c (anc c ?p ?j)" "num c (anc c ?p ?j) = n" using anc_known [OF _ k, of ?j] inv j by (simp_all add: chain_inv_def)
    have ne: "anc c ?p ?j \<noteq> h_hash (vb_info vb)" using x(1) f by (auto simp: fresh_block_def)
    have "no (hdr vb c) (anc c ?p ?j) = n"
      using ready_known(2) [OF _ x(1) _ ne] tree_okD(4) [OF _ x(1)] x 2 inv by (auto simp: chain_inv_def)
    then show thesis using new i e by simp
  next
    case 3
    have "canon_at c' n = canon_at c n" using cn(3) [of n] canon_meets(1) [OF inv k m 3] 3 by simp
    moreover have "n \<notin> no (hdr vb c) ` set (new_blocks vb c b)" using num 3 by (auto simp: not_less [symmetric])
    ultimately show thesis using old 3 by blast
  qed
qed

lemma head_better:
  assumes inv: "chain_inv c" and f: "fresh_block vb c" and m: "meets c (m_lastBlockHash c) (h_parentHash (vb_info vb)) a b"
    and q1: "quiet c c1" and keep: "\<And>n B. n \<le> num c (m_lastBlockHash c) - a \<Longrightarrow> indexed (chunk c) n B \<Longrightarrow> indexed (chunk c1) n B"
    and ca: "carried c1 c2 qs (no (hdr vb c) ` set (new_blocks vb c b))"
    and hp: "\<And>m. hash_puts qs m = fold (\<lambda>i m. m(no (hdr vb c) i \<mapsto> i)) (new_blocks vb c b) m"
    and ix: "\<And>i. i \<in> set (new_blocks vb c b) \<Longrightarrow> indexed (chunk c2) (no (hdr vb c) i) (block_bloom (hdr vb c i))"
    and s: "stores vb t c2 c'" and l: "m_lastBlockHash c' = h_hash (vb_info vb)"
    and ln: "m_lastBlockNumber c' = Suc (num c (h_parentHash (vb_info vb)))"
    and bh: "db_blockHashes c' = hash_puts qs (db_blockHashes c)" and bb: "db_blocksBlooms c' = bloom_puts qs (db_blocksBlooms c)"
    and kb: "m_blocksBlooms c' = m_blocksBlooms c2" and best: "db_best c' = Some (h_hash (vb_info vb))"
  shows "head_ok c'" and "index_ok c'"
proof -
  let ?h = "h_hash (vb_info vb)" and ?p = "h_parentHash (vb_info vb)" and ?N = "no (hdr vb c) ` set (new_blocks vb c b)"
  have q: "quiet c c2" using quiet_trans [OF q1 carriedD(1) [OF ca]] .
  have k: "known c ?p" and b: "b \<le> num c ?p" and nh: "Suc (num c ?p) < 2 ^ 28" using f m by (auto simp: fresh_block_def meets_def)
  have st2: "stored_ok c2" "tree_ok c2" using inv quiet_stored [OF q] by (simp_all add: chain_inv_def)
  have f2: "fresh_block vb c2" using f fresh_quiet [OF q] by simp
  note v = stores_views [OF st2(1) s f2] and cs = canon_split [OF inv f m q s l]
  note n0 = canon_new(1) [OF st2 s f2 l, unfolded quiet_tree(2) [OF q]]
  note fu = fold_upd [OF new_blocks_inj [OF inv f b]]
  have old: "num c ?p - b \<le> num c (m_lastBlockHash c)" "num c ?p - b = num c (m_lastBlockHash c) - a"
    using canon_meets(2) [OF inv k m le0] by simp_all
  have hs: "db_blockHashes c' n = Some (canon_at c' n)" if "0 < n" "n \<le> Suc (num c ?p)" for n
  proof (rule cs [OF that(2)])
    assume x: "canon_at c' n \<in> set (new_blocks vb c b)" "no (hdr vb c) (canon_at c' n) = n"
    show ?thesis unfolding bh hp using fu(1) [OF x(1), of "db_blockHashes c", unfolded x(2)] .
  next
    assume x: "n \<le> num c ?p - b" "canon_at c' n = canon_at c n" "n \<notin> ?N"
    have "db_blockHashes c n = Some (canon_at c n)" using x(1) that(1) old inv by (simp add: chain_inv_def head_ok_def)
    then show ?thesis unfolding bh hp fu(2) [OF x(3)] x(2) .
  qed
  then show "head_ok c'" unfolding head_ok_def n0 using ln best by (simp add: l v stored_head_def)
  have db0: "db_blocksBlooms c2 = db_blocksBlooms c" using quiet_views(10) [OF q] .
  have kc: "chunk c' = chunk c2"
  proof
    fix cid show "chunk c' cid = chunk c2 cid"
      using carriedD(5,6) [OF ca, of cid "db_blocksBlooms c"]
      by (cases "cid \<in> touched ?N") (auto simp: chunk_def through_def kb bb db0 dchunk_of_def split: option.splits)
  qed
  have cov: "covered (chunk c') (dchunk_of (db_blocksBlooms c')) n (block_bloom hx)"
    if n: "0 < n" "n \<le> Suc (num c ?p)" and d: "db_blocks c' (canon_at c' n) = Some bb'" and h: "header_new bb' BlockData 0 = Inr hx" for n bb' hx
  proof (rule cs [OF n(2)])
    assume c: "canon_at c' n \<in> set (new_blocks vb c b)" "no (hdr vb c) (canon_at c' n) = n"
    have "indexed (chunk c2) n (block_bloom hx)"
      using ix [OF c(1)] new_blocks_header [OF inv f b c(1) q s d h] c(2) by simp
    moreover have "n \<in> ?N" using c by force
    ultimately show ?thesis using indexed_puts [OF ca] by (simp add: covered_def kc bb)
  next
    assume c: "n \<le> num c ?p - b" "canon_at c' n = canon_at c n"
    have "canon_at c n \<noteq> ?h" using f anc_known [of c "m_lastBlockHash c" "num c (m_lastBlockHash c) - n"] inv
      by (auto simp: chain_inv_def head_ok_def canon_at_def fresh_block_def)
    then have "db_blocks c (canon_at c n) = Some bb'" using d s quiet_views(7) [OF q] by (auto simp: stores_def c(2))
    then have o: "covered (chunk c) (dchunk_of (db_blocksBlooms c)) n (block_bloom hx)"
      using inv n(1) c(1) old h by (simp add: chain_inv_def index_ok_def)
    have "n < 2 ^ 28" "n \<le> num c (m_lastBlockHash c) - a" using n(2) nh c(1) old by simp_all
    then have "indexed (chunk c2) n (block_bloom hx)" using carriedD(4) [OF ca] keep o by (simp add: covered_def)
    then show ?thesis using indexed_puts [OF ca] o by (simp add: covered_def kc bb)
  qed
  have sz: "sized (chunk c')" "sized (dchunk_of (db_blocksBlooms c'))"
    using carriedD(2) [OF ca] sized_puts [OF ca] inv by (simp_all add: kc bb chain_inv_def index_ok_def)
  show "index_ok c'" unfolding index_ok_def n0 using cov sz by blast
qed

end
