(* ===== verification/Chain_Commit.thy ===== *)
theory Chain_Commit
  imports Chain_Canon
begin

text \<open>
  The end of an import, from the details of the new block to the head: a block that is not better changes the head and the
  numbers in nothing, a better one makes its branch the canonical chain, and the route names the blocks that left it and those
  that joined it.
\<close>

section \<open>Steps of the import\<close>

lemma known_iff: "known c h \<Longrightarrow> m_details c h = None \<Longrightarrow> \<exists>d. db_details c h = Some d"
  by (auto simp: known_def det_def through_def NullBlockDetails_def details_isNull_def split: option.splits)

lemma add_child_eq:
  assumes "known c p"
  obtains c1 where "reads c c1" and "m_details c1 p = Some (det c p)"
    and "add_child p h c = c1\<lparr>m_details := (m_details c1)(p \<mapsto> (det c p)\<lparr>bd_children := bd_children (det c p) @ [h]\<rparr>)\<rparr>"
proof -
  have "m_details (snd (details p c)) p = Some (det c p)"
    using known_iff [OF assms] by (cases "m_details c p") (auto simp: details_def queryExtras_def det_def through_def Let_def)
  then show thesis using that [of "snd (details p c)"] by (simp add: add_child_def Let_def chain_reads)
qed

lemma add_child_inv:
  assumes inv: "chain_inv c" and k: "known c p"
  shows "chain_inv (add_child p h c)" and "best_ok (add_child p h c) = best_ok c"
    and "known (add_child p h c) = known c" "num (add_child p h c) = num c" "par (add_child p h c) = par c" "td (add_child p h c) = td c"
    and "bd_number (det (add_child p h c) x) = bd_number (det c x)" "m_lastBlockHash (add_child p h c) = m_lastBlockHash c"
    and "core (cached_details p (add_child p h c)) = core (det (add_child p h c) p)"
proof -
  obtain c1 where r: "reads c c1" and m: "m_details c1 p = Some (det c p)"
    and e: "add_child p h c = c1\<lparr>m_details := (m_details c1)(p \<mapsto> (det c p)\<lparr>bd_children := bd_children (det c p) @ [h]\<rparr>)\<rparr>"
    using add_child_eq [OF k] by blast
  let ?c = "add_child p h c"
  have inv1: "chain_inv c1" using reads_inv(1) [OF r] inv by simp
  have core1: "core (det ?c x) = core (det c1 x)" for x using m by (simp add: e det_def through_def core_def)
  note v = core_views [OF core1]
  have st: "stored_ok c1" using inv1 by (simp add: chain_inv_def)
  obtain d' where d': "db_details c1 p = Some d'" "core d' = core (det c p)" using stored_okD(1) [OF st m] by blast
  have "stored_ok ?c"
  proof -
    have "\<exists>d''. db_details ?c x = Some d'' \<and> core d'' = core d" if "m_details ?c x = Some d" for x d
      using that stored_okD(1) [OF st, of x d] d' by (cases "x = p") (auto simp: e core_def)
    moreover have "m_blocks ?c = m_blocks c1" "db_blocks ?c = db_blocks c1" "db_details ?c = db_details c1"
      "m_genesisHash ?c = m_genesisHash c1" "m_genesisHeaderBytes ?c = m_genesisHeaderBytes c1" by (simp_all add: e)
    ultimately show ?thesis using st unfolding stored_ok_def v by (elim conjE, intro conjI) simp_all
  qed
  moreover have sh: "stored_head ?c = stored_head c1" by (rule stored_head_cong) (simp_all add: e)
  have "tree_ok ?c = tree_ok c1" "head_ok ?c = head_ok c1" "index_ok ?c = index_ok c1" "best_ok ?c = best_ok c1"
    unfolding tree_ok_def head_ok_def index_ok_def best_ok_def canon_at_def v sh by (simp_all add: e chunk_def)
  ultimately show "chain_inv ?c" "best_ok ?c = best_ok c" using inv1 reads_inv(2) [OF r] by (simp_all add: chain_inv_def)
  show "known ?c = known c" "num ?c = num c" "par ?c = par c" using v r by simp_all
  show "td ?c = td c" using v(5) quiet_tree(5) [OF quiet_reads [OF r]] by simp
  show "bd_number (det ?c x) = bd_number (det c x)" using core1 [of x] r by (simp add: core_iff)
  show "m_lastBlockHash ?c = m_lastBlockHash c" using quiet_views(4) [OF quiet_reads [OF r]] by (simp add: e)
  show "core (cached_details p ?c) = core (det ?c p)" by (simp add: e cached_details_def det_def through_def)
qed

lemma is_better_ok:
  assumes inv: "chain_inv c"
  obtains better c' where "is_better E t vb c = Some (Inr better, c')" and "reads c c'"
    and "better \<Longrightarrow> td c (m_lastBlockHash c) \<le> t" and "\<not> better \<Longrightarrow> t \<le> td c (m_lastBlockHash c)"
proof -
  let ?l = "m_lastBlockHash c"
  have st: "stored_ok c" and tr: "tree_ok c" and kl: "known c ?l" using inv by (simp_all add: chain_inv_def head_ok_def)
  obtain c1 where d1: "details ?l c = (det c ?l, c1)" and r1: "reads c c1" by (rule details_eq)
  obtain c2 where d2: "details ?l c1 = (det c1 ?l, c2)" and r2: "reads c1 c2" by (rule details_eq)
  have r12: "reads c c2" using reads_trans [OF r1 r2] .
  have "stored_ok c2" "tree_ok c2" "known c2 ?l"
    using quiet_stored [OF quiet_reads [OF r12]] st tr kl r12 by simp_all
  then obtain d c3 where h: "headerData ?l c2 = (Inr d, c3)" and r3: "reads c2 c3" and hd: "\<exists>hx. header_new d HeaderData 0 = Inr hx"
    using headerData_known [of c2 ?l] by metis
  obtain hx where hx: "header_new d HeaderData 0 = Inr hx" using hd by blast
  have r: "reads c c3" using reads_trans [OF r12 r3] .
  have i: "chain_info ?l c2 = (Inr hx, c3)" by (simp add: chain_info_def h hx)
  have e: "is_better E t vb c =
      (if t > td c ?l then Some (Inr True, c1)
       else if se_tieBreakingGas E then (if t = td c ?l then Some (Inr (h_gasUsed (vb_info vb) > h_gasUsed hx), c3) else Some (Inr False, c2))
       else Some (Inr False, c1))"
    using r1 by (simp add: is_better_def act_bind_def act_look_def act_ret_def act_res_def d1 d2 i td_def)
  show thesis
    by (cases "t > td c ?l"; cases "se_tieBreakingGas E"; cases "t = td c ?l") (use e r1 r12 r that in auto)
qed

text \<open>The end of \<^verbatim>\<open>import\<close>: the writes, the head and the memo.\<close>

definition finished :: "verified_block \<Rightarrow> bool \<Rightarrow> h256 list \<Rightarrow> put list \<Rightarrow> chain \<Rightarrow> chain" where
  "finished vb better route ps c =
     (let c = write_extras ps (c\<lparr>db_blocks := (db_blocks c)(h_hash (vb_info vb) \<mapsto> vb_block vb)\<rparr>);
          c = (if better then set_head (h_hash (vb_info vb)) (header_no (vb_info vb)) c else c)
      in if route \<noteq> [] then c\<lparr>m_lastLastHashes := []\<rparr> else c)"

definition tail :: "verified_block \<Rightarrow> transaction list \<Rightarrow> bool \<Rightarrow> put list \<Rightarrow> import_route act" where
  "tail vb good better ps c =
     act_bind (if better then canon_change vb ps else act_ret ([], 0, ps)) (\<lambda>(route, comm, ps) c.
       Some (Inr \<lparr>deadBlocks = takeWhile (\<lambda>i. i \<noteq> comm) route, liveBlocks = filter (\<lambda>i. i \<noteq> comm) (dropWhile (\<lambda>i. i \<noteq> comm) route),
         goodTransactions = good\<rparr>, finished vb better route ps c)) c"

lemma import_block_tail:
  "import_block E enactOn now mustBeNew vb =
     act_bind (import_new mustBeNew vb) (\<lambda>_.
     act_bind (import_parent E now vb) (\<lambda>pd.
     act_bind (enactOn vb) (\<lambda>(tdIncrease, rs, good) c.
       let c = add_child (h_parentHash (vb_info vb)) (h_hash (vb_info vb)) c; t = bd_totalDifficulty pd + tdIncrease in
       act_bind (is_better E t vb) (\<lambda>better. tail vb good better (store_puts pd t rs vb c)) c)))"
proof -
  have md: "act_bind (act_mod f) g = (\<lambda>c. g () (f c))" for f and g :: "unit \<Rightarrow> import_route act"
    by (rule ext) (simp add: act_bind_def act_mod_def)
  have "act_bind (act_mod (\<lambda>c. write_extras ps (c\<lparr>db_blocks := (db_blocks c)(h_hash (vb_info vb) \<mapsto> vb_block vb)\<rparr>))) (\<lambda>_.
     act_bind (act_mod (\<lambda>c. if better then set_head (h_hash (vb_info vb)) (header_no (vb_info vb)) c else c)) (\<lambda>_.
     act_bind (act_mod (\<lambda>c. if route \<noteq> [] then c\<lparr>m_lastLastHashes := []\<rparr> else c)) (\<lambda>_. act_ret r))) =
    (\<lambda>c. Some (Inr r, finished vb better route ps c))" for ps better route and r :: import_route
    unfolding md by (rule ext) (simp add: act_ret_def finished_def Let_def)
  note fin = this
  show ?thesis unfolding import_block_def tail_def [abs_def] Let_def fin unfolding md ..
qed

lemma store_puts_simps:
  "detail_puts (store_puts pd t rs vb c0) m = m(h_parentHash (vb_info vb) \<mapsto> cached_details (h_parentHash (vb_info vb)) c0,
     h_hash (vb_info vb) \<mapsto> \<lparr>bd_number = bd_number pd + 1, bd_totalDifficulty = t, bd_parent = h_parentHash (vb_info vb), bd_children = []\<rparr>)"
  "hash_puts (store_puts pd t rs vb c0) m' = m'" "bloom_puts (store_puts pd t rs vb c0) m'' = m''"
  by (simp_all add: store_puts_def Let_def)

lemma finished_simps:
  assumes "h_hash (vb_info vb) \<noteq> m_lastBlockHash c"
  shows "m_lastBlockHash (finished vb better route ps c) = (if better then h_hash (vb_info vb) else m_lastBlockHash c)"
    "m_lastBlockNumber (finished vb better route ps c) = (if better then header_no (vb_info vb) else m_lastBlockNumber c)"
    "db_blockHashes (finished vb better route ps c) = hash_puts ps (db_blockHashes c)"
    "db_blocksBlooms (finished vb better route ps c) = bloom_puts ps (db_blocksBlooms c)"
    "db_details (finished vb better route ps c) = detail_puts ps (db_details c)"
    "db_blocks (finished vb better route ps c) = (db_blocks c)(h_hash (vb_info vb) \<mapsto> vb_block vb)"
    "m_blocksBlooms (finished vb better route ps c) = m_blocksBlooms c" "m_details (finished vb better route ps c) = m_details c"
    "m_blocks (finished vb better route ps c) = m_blocks c" "m_genesisHash (finished vb better route ps c) = m_genesisHash c"
    "m_genesisHeaderBytes (finished vb better route ps c) = m_genesisHeaderBytes c"
    "db_best (finished vb better route ps c) = (if better then Some (h_hash (vb_info vb)) else db_best c)"
  using assms by (simp_all add: finished_def Let_def set_head_def write_extras_simps)

lemma finished_stores:
  assumes "h_hash (vb_info vb) \<noteq> m_lastBlockHash c" and "bd_number pd = bd_number (det c (h_parentHash (vb_info vb)))"
    and "core (cached_details (h_parentHash (vb_info vb)) c0) = core (det c (h_parentHash (vb_info vb)))" and "\<And>m. detail_puts qs m = m"
  shows "stores vb t c (finished vb better route (store_puts pd t rs vb c0 @ qs) c)"
  using assms(2-4) unfolding stores_def finished_simps [OF assms(1)] puts_append store_puts_simps
  by (intro exI [of _ "cached_details (h_parentHash (vb_info vb)) c0"]) simp

section \<open>The canonical chain\<close>

definition canonical :: "chain \<Rightarrow> h256 set" where
  "canonical c = canon_at c ` {..num c (m_lastBlockHash c)}"

lemma atMost_split: "a \<le> N \<Longrightarrow> {..N} = {..<a} \<union> (\<lambda>n. N - n) ` {..N - a}" for N :: nat
proof (intro equalityI subsetI)
  fix x assume "x \<in> {..N}"
  then show "x \<in> {..<a} \<union> (\<lambda>n. N - n) ` {..N - a}" by (cases "x < a") (auto intro!: image_eqI [of _ _ "N - x"])
qed auto

lemma atMost_flip: "(\<lambda>n. N - n) ` {..N} = {..N}" for N :: nat
  using atMost_split [of 0 N] by simp

lemma canonical_anc: "canonical c = anc c (m_lastBlockHash c) ` {..num c (m_lastBlockHash c)}"
proof -
  have "canonical c = anc c (m_lastBlockHash c) ` (\<lambda>n. num c (m_lastBlockHash c) - n) ` {..num c (m_lastBlockHash c)}"
    by (simp add: canonical_def canon_at_def image_image)
  then show ?thesis unfolding atMost_flip .
qed

text \<open>A new head replaces the blocks above the meeting point by the new ones.\<close>

lemma canonical_change:
  assumes inv: "chain_inv c" and f: "fresh_block vb c" and m: "meets c (m_lastBlockHash c) (h_parentHash (vb_info vb)) a b"
    and q: "quiet c c2" and s: "stores vb t c2 c'" and l: "m_lastBlockHash c' = h_hash (vb_info vb)"
  shows "canonical c' - canonical c = set (new_blocks vb c b)"
    and "canonical c - canonical c' = anc c (m_lastBlockHash c) ` {..<a}"
proof -
  let ?h = "h_hash (vb_info vb)" and ?p = "h_parentHash (vb_info vb)" and ?l = "m_lastBlockHash c"
  have k: "known c ?p" and b: "b \<le> num c ?p" and a: "a \<le> num c ?l" using f m by (simp_all add: fresh_block_def meets_def)
  have tr: "tree_ok c" and kl: "known c ?l" using inv by (simp_all add: chain_inv_def head_ok_def)
  have st2: "stored_ok c2" "tree_ok c2" using inv quiet_stored [OF q] by (simp_all add: chain_inv_def)
  have f2: "fresh_block vb c2" using f fresh_quiet [OF q] by simp
  note cn = canon_new [OF st2 s f2 l, unfolded quiet_tree [OF q]]
  have e: "num c ?p - b = num c ?l - a" using canon_meets(2) [OF inv k m le0] .
  have least: "a \<le> i \<and> b \<le> j" if "i \<le> num c ?l" "j \<le> num c ?p" "anc c ?l i = anc c ?p j" for i j
    using m that unfolding meets_def by blast
  define old where "old = canon_at c ` {..num c ?p - b}"
  have C: "canonical c' = insert ?h (anc c ?p ` {..num c ?p})"
  proof -
    have "canonical c' = canon_at c' ` insert (Suc (num c ?p)) {..num c ?p}" unfolding canonical_def cn(1) atMost_Suc ..
    also have "\<dots> = insert ?h ((\<lambda>n. anc c ?p (num c ?p - n)) ` {..num c ?p})" using cn(2,3) by simp
    also have "(\<lambda>n. anc c ?p (num c ?p - n)) ` {..num c ?p} = anc c ?p ` {..num c ?p}"
      using arg_cong [OF atMost_flip, of "image (anc c ?p)" "num c ?p"] by (simp add: image_image)
    finally show ?thesis .
  qed
  have A: "canonical c' = set (new_blocks vb c b) \<union> old"
  proof -
    note C
    moreover note atMost_split [OF b]
    moreover have "anc c ?p ` (\<lambda>n. num c ?p - n) ` {..num c ?p - b} = old"
      unfolding old_def image_image using canon_meets(1) [OF inv k m] by (intro image_cong) simp_all
    ultimately show ?thesis by (auto simp: new_blocks_def image_Un)
  qed
  have B: "canonical c = anc c ?l ` {..<a} \<union> old"
  proof -
    note atMost_split [OF a]
    moreover have "anc c ?l ` (\<lambda>n. num c ?l - n) ` {..num c ?l - a} = old" by (simp add: old_def image_image canon_at_def e)
    ultimately show ?thesis by (simp add: canonical_anc image_Un)
  qed
  have "x \<notin> canonical c" if xn: "x \<in> set (new_blocks vb c b)" for x
  proof
    assume "x \<in> canonical c"
    then obtain i where i: "i \<le> num c ?l" "x = anc c ?l i" by (auto simp: canonical_anc)
    then have "known c x" using anc_known [OF tr kl i(1)] by simp
    then have "x \<noteq> ?h" using f by (auto simp: fresh_block_def)
    then obtain j where "j < b" "x = anc c ?p j" using xn by (auto simp: new_blocks_def)
    then show False using least [of i j] i b by simp
  qed
  then show "canonical c' - canonical c = set (new_blocks vb c b)" unfolding A using B by blast
  have "x \<notin> canonical c'" if xl: "x \<in> anc c ?l ` {..<a}" for x
  proof
    assume x: "x \<in> canonical c'"
    obtain i where i: "i < a" "x = anc c ?l i" using xl by blast
    then have "known c x" using anc_known [OF tr kl, of i] a by simp
    then have "x \<noteq> ?h" using f by (auto simp: fresh_block_def)
    then obtain j where "j \<le> num c ?p" "x = anc c ?p j" using x unfolding C by blast
    then show False using least [of i j] i a by simp
  qed
  then show "canonical c - canonical c' = anc c ?l ` {..<a}" unfolding B using A by blast
qed

section \<open>Import\<close>

text \<open>What a successful import reports and leaves: the tree has the new block, the reports are the changes of
  the canonical chain.\<close>

definition imported :: "verified_block \<Rightarrow> u256 \<Rightarrow> chain \<Rightarrow> chain \<Rightarrow> import_route \<Rightarrow> bool" where
  "imported vb t c c' r =
     (known c' = (known c)(h_hash (vb_info vb) := True) \<and> par c' = (par c)(h_hash (vb_info vb) := h_parentHash (vb_info vb))
      \<and> td c' = (td c)(h_hash (vb_info vb) := t)
      \<and> m_lastBlockHash c' \<in> {m_lastBlockHash c, h_hash (vb_info vb)}
      \<and> set (deadBlocks r) = canonical c - canonical c' \<and> set (liveBlocks r) = canonical c' - canonical c)"

lemma canonical_quiet: "quiet c c' \<Longrightarrow> canonical c' = canonical c"
  by (simp add: canonical_def canon_at_def quiet_tree quiet_views)

lemma route_split:
  assumes "\<And>i. i < a \<Longrightarrow> f i \<noteq> f a" and "\<And>x. x \<in> set ys \<Longrightarrow> x \<noteq> f a"
  shows "takeWhile (\<lambda>i. i \<noteq> f a) (map f [0..<Suc a] @ ys) = map f [0..<a]"
    and "filter (\<lambda>i. i \<noteq> f a) (dropWhile (\<lambda>i. i \<noteq> f a) (map f [0..<Suc a] @ ys)) = ys"
proof -
  have e: "map f [0..<Suc a] @ ys = map f [0..<a] @ f a # ys" by simp
  have "\<forall>x\<in>set (map f [0..<a]). x \<noteq> f a" using assms(1) by auto
  then show "takeWhile (\<lambda>i. i \<noteq> f a) (map f [0..<Suc a] @ ys) = map f [0..<a]"
    and "filter (\<lambda>i. i \<noteq> f a) (dropWhile (\<lambda>i. i \<noteq> f a) (map f [0..<Suc a] @ ys)) = ys"
    unfolding e using assms(2) by (simp_all add: takeWhile_append dropWhile_append filter_id_conv)
qed

lemma tail_better:
  assumes inv: "chain_inv c" and f: "fresh_block vb c" and n: "bd_number pd = bd_number (det c (h_parentHash (vb_info vb)))"
    and d: "core (cached_details (h_parentHash (vb_info vb)) c0) = core (det c (h_parentHash (vb_info vb)))"
    and t: "t = td c (h_parentHash (vb_info vb)) + h_difficulty (vb_info vb)"
  shows "\<exists>r c'. tail vb good True (store_puts pd t rs vb c0) c = Some (Inr r, c') \<and> chain_inv c' \<and> imported vb t c c' r
    \<and> m_lastBlockHash c' = h_hash (vb_info vb)"
proof -
  let ?h = "h_hash (vb_info vb)" and ?p = "h_parentHash (vb_info vb)" and ?l = "m_lastBlockHash c" and ?ps = "store_puts pd t rs vb c0"
  have st: "stored_ok c" and tr: "tree_ok c" and kl: "known c ?l" using inv by (simp_all add: chain_inv_def head_ok_def)
  have k: "known c ?p" and new: "\<not> known c ?h" and ok: "block_ok (vb_block vb) ?h (vb_info vb)"
    and nh: "unat (h_number (vb_info vb)) = Suc (num c ?p)" "unat (h_number (vb_info vb)) < 2 ^ 28" using f by (auto simp: fresh_block_def)
  obtain a b route qs c1 c2 where m: "meets c ?l ?p a b" and run: "canon_change vb ?ps c = Some (Inr (route, anc c ?l a, ?ps @ qs), c2)"
    and rt: "route = map (anc c ?l) [0..<Suc a] @ rev (map (anc c ?p) [0..<b]) @ [?h]"
    and q1: "quiet c c1" and keep: "\<And>n B. n \<le> num c ?l - a \<Longrightarrow> indexed (chunk c) n B \<Longrightarrow> indexed (chunk c1) n B"
    and ca: "carried c1 c2 qs (no (hdr vb c) ` set (new_blocks vb c b))"
    and hp: "\<And>m. hash_puts qs m = fold (\<lambda>i m. m(no (hdr vb c) i \<mapsto> i)) (new_blocks vb c b) m"
    and ix: "\<And>i. i \<in> set (new_blocks vb c b) \<Longrightarrow> indexed (chunk c2) (no (hdr vb c) i) (block_bloom (hdr vb c i))"
    by (rule canon_change_carried [OF inv k new ok nh(2), where ps = ?ps]) (rule that)
  have q: "quiet c c2" using quiet_trans [OF q1 carriedD(1) [OF ca]] .
  note v = quiet_views [OF q]
  have lh: "?h \<noteq> m_lastBlockHash c2" using new kl v(4) by auto
  let ?c = "finished vb True route (?ps @ qs) c2"
  have s: "stores vb t c2 ?c" using n d by (intro finished_stores [OF lh]) (simp_all add: v carriedD(3) [OF ca])
  have st2: "stored_ok c2" "tree_ok c2" using st tr quiet_stored [OF q] by simp_all
  have f2: "fresh_block vb c2" using f fresh_quiet [OF q] by simp
  note fs = finished_simps [OF lh]
  have l: "m_lastBlockHash ?c = ?h" by (simp add: fs)
  have "m_lastBlockNumber ?c = Suc (num c ?p)" using nh by (simp add: fs header_no_def)
  moreover have "db_blockHashes ?c = hash_puts qs (db_blockHashes c)" "db_blocksBlooms ?c = bloom_puts qs (db_blocksBlooms c)"
    by (simp_all add: fs store_puts_simps v)
  ultimately have "head_ok ?c" "index_ok ?c"
    using head_better [OF inv f m q1 keep ca hp ix s l] by (simp_all add: fs)
  moreover have "tree_ok ?c" by (rule stores_tree [OF st2 s f2])
  moreover have "stored_ok ?c" using t by (intro stores_stored [OF st2 s f2]) (simp add: quiet_tree [OF q])
  ultimately have ci: "chain_inv ?c" by (simp add: chain_inv_def)
  note cc = canonical_change [OF inv f m q s l]
  have ab: "a \<le> num c ?l" "b \<le> num c ?p" "anc c ?l a = anc c ?p b" using m by (simp_all add: meets_def)
  have ne: "anc c ?l i \<noteq> anc c ?l a" if "i < a" for i
  proof -
    have "num c (anc c ?l i) \<noteq> num c (anc c ?l a)" using anc_known [OF tr kl, of i] anc_known [OF tr kl ab(1)] that ab(1) by simp
    then show ?thesis by (rule contrapos_nn) simp
  qed
  have nx: "x \<noteq> anc c ?l a" if x: "x \<in> set (rev (map (anc c ?p) [0..<b]) @ [?h])" for x
  proof (cases "x = ?h")
    case True
    then show ?thesis using anc_known [OF tr kl ab(1)] new by auto
  next
    case False
    then obtain j where j: "j < b" "x = anc c ?p j" using x by auto
    have "num c x \<noteq> num c (anc c ?p b)" using anc_known [OF tr k, of j] anc_known [OF tr k ab(2)] j ab(2) by simp
    then show ?thesis unfolding ab(3) by blast
  qed
  let ?r = "\<lparr>deadBlocks = takeWhile (\<lambda>i. i \<noteq> anc c ?l a) route, liveBlocks = filter (\<lambda>i. i \<noteq> anc c ?l a) (dropWhile (\<lambda>i. i \<noteq> anc c ?l a) route),
      goodTransactions = good\<rparr>"
  have sp: "takeWhile (\<lambda>i. i \<noteq> anc c ?l a) route = map (anc c ?l) [0..<a]"
    "filter (\<lambda>i. i \<noteq> anc c ?l a) (dropWhile (\<lambda>i. i \<noteq> anc c ?l a) route) = rev (map (anc c ?p) [0..<b]) @ [?h]"
    unfolding rt by (rule route_split [of a "anc c ?l", OF ne nx], assumption+)+
  have r: "set (deadBlocks ?r) = canonical c - canonical ?c" "set (liveBlocks ?r) = canonical ?c - canonical c"
    unfolding cc import_route.simps sp by (auto simp: new_blocks_def)
  have "tail vb good True ?ps c = Some (Inr ?r, ?c)" by (simp add: tail_def act_bind_def run)
  moreover have "imported vb t c ?c ?r"
    unfolding imported_def using r l by (simp add: stores_views [OF st2(1) s f2] quiet_tree [OF q])
  ultimately show ?thesis using ci l by blast
qed

lemma tail_side:
  assumes inv: "chain_inv c" and f: "fresh_block vb c" and n: "bd_number pd = bd_number (det c (h_parentHash (vb_info vb)))"
    and d: "core (cached_details (h_parentHash (vb_info vb)) c0) = core (det c (h_parentHash (vb_info vb)))"
    and t: "t = td c (h_parentHash (vb_info vb)) + h_difficulty (vb_info vb)"
  shows "\<exists>r c'. tail vb good False (store_puts pd t rs vb c0) c = Some (Inr r, c') \<and> chain_inv c' \<and> imported vb t c c' r
    \<and> m_lastBlockHash c' = m_lastBlockHash c"
proof -
  let ?h = "h_hash (vb_info vb)" and ?c = "finished vb False [] (store_puts pd t rs vb c0) c"
  have st: "stored_ok c" "tree_ok c" and kl: "known c (m_lastBlockHash c)" using inv by (simp_all add: chain_inv_def head_ok_def)
  have lh: "?h \<noteq> m_lastBlockHash c" using f kl by (auto simp: fresh_block_def)
  have s: "stores vb t c ?c" using finished_stores [OF lh n d, of "[]"] by simp
  note fs = finished_simps [OF lh] and v = stores_views [OF st(1) s f]
  have same: "m_lastBlockHash ?c = m_lastBlockHash c" "m_lastBlockNumber ?c = m_lastBlockNumber c" "db_blockHashes ?c = db_blockHashes c"
    "db_blocksBlooms ?c = db_blocksBlooms c" "chunk ?c = chunk c" "db_best ?c = db_best c" by (simp_all add: fs store_puts_simps chunk_def)
  have ci: "chain_inv ?c"
    using stores_side [OF inv s f same] stores_tree [OF st s f] stores_stored [OF st s f t] by (simp add: chain_inv_def)
  have "canonical ?c = canonical c"
    unfolding canonical_anc same using anc_new [OF st s f kl] lh by (simp add: v)
  then have "imported vb t c ?c \<lparr>deadBlocks = [], liveBlocks = [], goodTransactions = good\<rparr>" by (simp add: imported_def v same)
  moreover have "tail vb good False (store_puts pd t rs vb c0) c = Some (Inr \<lparr>deadBlocks = [], liveBlocks = [], goodTransactions = good\<rparr>, ?c)"
    by (simp add: tail_def act_bind_def act_ret_def)
  ultimately show ?thesis using ci same by blast
qed

end
