(* ===== verification/Chain_Import.thy ===== *)
theory Chain_Import
  imports Chain_Commit
begin

text \<open>
  The whole import on a chain that satisfies the invariant: it returns, and it leaves the invariant, whether the block is
  refused, stored on a side chain or made the head.
\<close>

section \<open>What the import relies on\<close>

text \<open>
  A header that the engine accepts against an existing parent has the next number
  (\<^verbatim>\<open>BlockHeader::verify\<close>); \<^verbatim>\<open>Block::enactOn\<close> looks at the chain and does not change it, returns, and
  adds the difficulty of the block.
\<close>

type_synonym enactor = "verified_block \<Rightarrow> (u256 \<times> receipt list \<times> transaction list) act"

definition engine_ok :: "seal_engine \<Rightarrow> enactor \<Rightarrow> bool" where
  "engine_ok E enactOn =
     ((\<forall>s h p b. se_verify E s h p b = Inr () \<longrightarrow> header_exists p \<longrightarrow> h_number h = h_number p + 1)
      \<and> (\<forall>vb. only_reads (enactOn vb)) \<and> (\<forall>vb c. enactOn vb c \<noteq> None)
      \<and> (\<forall>vb c t rs ts c'. enactOn vb c = Some (Inr (t, rs, ts), c') \<longrightarrow> t = h_difficulty (vb_info vb)))"

lemma in_order_flags: "has_flag InOrderChecks PostGenesis = False" "has_flag InOrderChecks ParentCheck = True"
  by (simp_all add: has_flag_def InOrderChecks_def PostGenesis_def ParentCheck_def UncleParent_def)

lemma verify_number:
  assumes eng: "engine_ok E enactOn" and st: "stored_ok c" and tr: "tree_ok c" and k: "known c (h_parentHash hx)"
    and h: "header_new b BlockData 0 = Inr hx" and run: "verifyBlock E b InOrderChecks c = Some (Inr vb', c')"
  shows "unat (h_number hx) = Suc (num c (h_parentHash hx))"
proof -
  obtain d c1 where hd: "headerData (h_parentHash hx) c = (Inr d, c1)" "d \<noteq> []"
    "\<And>x. \<exists>p. header_new d HeaderData x = Inr p \<and> unat (h_number p) = num c (h_parentHash hx) \<and> header_exists p"
    using headerData_known [OF st tr k] by metis
  obtain p where p: "header_new d HeaderData (h_parentHash hx) = Inr p" "unat (h_number p) = num c (h_parentHash hx)" "header_exists p"
    using hd(3) by blast
  have "parent_header e True (h_parentHash hx) c = Some (Inr p, c1)" for e
    by (simp add: parent_header_def act_bind_def act_res_def act_blk_def hd p)
  then have "se_verify E (if has_flag InOrderChecks ValidSeal then CheckEverything else QuickNonce) hx p b = Inr ()"
    using run unfolding verifyBlock_def in_order_flags
    by (auto simp: act_bind_Inr h act_blk_def split: sum.splits)
  then have "h_number hx = h_number p + 1" using eng p(3) unfolding engine_ok_def by blast
  moreover have "unat (h_number p) < 2 ^ 28" using p(2) stored_okD(5) [OF st k] by simp
  ultimately show ?thesis using p(2) by (simp add: unat_word_ariths)
qed

lemma import_new_returns: "\<exists>x. import_new mustBeNew vb c = Some x"
  by (auto simp: import_new_def act_bind_def act_look_def act_throw_def act_ret_def split: prod.splits)

lemma import_parent_returns:
  assumes "\<And>c. verifyBlock E (vb_block vb) InOrderChecks c \<noteq> None" shows "\<exists>x. import_parent E now vb c = Some x"
proof -
  obtain d c1 where "details (h_parentHash (vb_info vb)) c = (d, c1)" by (metis surj_pair)
  then show ?thesis using assms [of c1]
    by (auto simp: import_parent_def act_bind_def act_look_def act_throw_def act_ret_def split: sum.splits option.splits prod.splits)
qed

lemma import_parent_known:
  assumes "import_parent E now vb c = Some (Inr pd, c')"
  obtains c1 c2 vb' where "pd = det c (h_parentHash (vb_info vb))" and "known c (h_parentHash (vb_info vb))"
    and "reads c c1" and "verifyBlock E (vb_block vb) InOrderChecks c1 = Some (Inr vb', c2)"
proof -
  obtain c1 where d: "details (h_parentHash (vb_info vb)) c = (det c (h_parentHash (vb_info vb)), c1)" and r: "reads c c1" by (rule details_eq)
  have k: "known c (h_parentHash (vb_info vb))"
    using assms by (auto simp: import_parent_def act_bind_def act_look_def d act_throw_def known_def)
  obtain vb' c2 where "verifyBlock E (vb_block vb) InOrderChecks c1 = Some (Inr vb', c2)" "pd = det c (h_parentHash (vb_info vb))"
    using assms by (auto simp: import_parent_def act_bind_Inr act_look_def d act_throw_def act_ret_def split: if_splits)
  then show thesis using that k r by blast
qed

section \<open>Import keeps the chain\<close>

lemma imported_reads:
  assumes q: "known c = known c0" "num c = num c0" "par c = par c0" "td c = td c0" "anc c = anc c0" "m_lastBlockHash c = m_lastBlockHash c0"
    and i: "imported vb t c c' r"
  shows "imported vb t c0 c' r"
  using i unfolding imported_def canonical_anc q by simp

lemma best_imported:
  assumes i: "imported vb t c c' r" and b: "best_ok c" and k: "known c (m_lastBlockHash c)" and new: "\<not> known c (h_hash (vb_info vb))"
    and l: "m_lastBlockHash c' = (if better then h_hash (vb_info vb) else m_lastBlockHash c)"
    and t: "better \<Longrightarrow> td c (m_lastBlockHash c) \<le> t" "\<not> better \<Longrightarrow> t \<le> td c (m_lastBlockHash c)"
  shows "best_ok c'"
proof -
  have v: "known c' = (known c)(h_hash (vb_info vb) := True)" "td c' = (td c)(h_hash (vb_info vb) := t)" using i by (simp_all add: imported_def)
  have "m_lastBlockHash c \<noteq> h_hash (vb_info vb)" using k new by auto
  then have "td c' (m_lastBlockHash c') = (if better then t else td c (m_lastBlockHash c))" by (simp add: v l)
  then show ?thesis using b t unfolding best_ok_def v by (cases better) (auto simp: fun_upd_apply intro: order_trans)
qed

lemma enacted_ok:
  assumes eng: "engine_ok E enactOn" and inv: "chain_inv c" and f: "fresh_block vb c" and pd: "core pd = core (det c (h_parentHash (vb_info vb)))"
    and t: "t = td c (h_parentHash (vb_info vb)) + h_difficulty (vb_info vb)"
  shows "\<exists>r c'. (let c = add_child (h_parentHash (vb_info vb)) (h_hash (vb_info vb)) c in
      act_bind (is_better E t vb) (\<lambda>better. tail vb good better (store_puts pd t rs vb c)) c) = Some (Inr r, c')
    \<and> chain_inv c' \<and> (best_ok c \<longrightarrow> best_ok c') \<and> imported vb t c c' r"
proof -
  let ?h = "h_hash (vb_info vb)" and ?p = "h_parentHash (vb_info vb)"
  have k: "known c ?p" and new: "\<not> known c ?h" using f by (simp_all add: fresh_block_def)
  define ca where "ca = add_child ?p ?h c"
  note a = add_child_inv [OF inv k, of ?h, folded ca_def]
  have inva: "chain_inv ca" by (rule a(1))
  obtain better cb where run: "is_better E t vb ca = Some (Inr better, cb)" and r: "reads ca cb"
    and bt: "better \<Longrightarrow> td ca (m_lastBlockHash ca) \<le> t" "\<not> better \<Longrightarrow> t \<le> td ca (m_lastBlockHash ca)"
    using is_better_ok [OF inva, of E t vb] by metis
  note q = quiet_reads [OF r]
  have invb: "chain_inv cb" using reads_inv(1) [OF r] inva by simp
  have views: "known cb = known c" "num cb = num c" "par cb = par c" "td cb = td c" "m_lastBlockHash cb = m_lastBlockHash c"
    using a(3-6,8) quiet_tree [OF q] quiet_views(4) [OF q] by simp_all
  have anc: "anc cb = anc c" by (simp add: anc_def fun_eq_iff views)
  have fb: "fresh_block vb cb" using f by (simp add: fresh_block_def views)
  have n: "bd_number pd = bd_number (det cb ?p)" using pd a(7) [of ?p] quiet_views(1) [OF q] by (simp add: core_iff)
  have d: "core (cached_details ?p ca) = core (det cb ?p)" using a(9) quiet_views(1) [OF q] by simp
  have tb: "t = td cb ?p + h_difficulty (vb_info vb)" using t views by simp
  have "\<exists>r c'. tail vb good better (store_puts pd t rs vb ca) cb = Some (Inr r, c') \<and> chain_inv c' \<and> imported vb t cb c' r
      \<and> m_lastBlockHash c' = (if better then ?h else m_lastBlockHash cb)"
    using tail_better [OF invb fb n d tb] tail_side [OF invb fb n d tb] by (cases better) simp_all
  then obtain r c' where t': "tail vb good better (store_puts pd t rs vb ca) cb = Some (Inr r, c')" and ci: "chain_inv c'"
    and im: "imported vb t cb c' r" and l: "m_lastBlockHash c' = (if better then ?h else m_lastBlockHash cb)" by blast
  have im': "imported vb t c c' r" by (rule imported_reads [OF views(1-4) anc views(5) im])
  have "best_ok c'" if "best_ok c"
    using best_imported [OF im' that _ new, of better] l bt inv a(6,8) views by (simp add: chain_inv_def head_ok_def)
  then show ?thesis using t' ci im' unfolding Let_def ca_def [symmetric] by (simp add: act_bind_def run)
qed

text \<open>What an import asks before it writes.\<close>

definition import_checks :: "seal_engine \<Rightarrow> enactor \<Rightarrow> u256 \<Rightarrow> bool \<Rightarrow> verified_block \<Rightarrow> (u256 \<times> receipt list \<times> transaction list) act" where
  "import_checks E enactOn now mustBeNew vb =
     act_bind (import_new mustBeNew vb) (\<lambda>_. act_bind (import_parent E now vb) (\<lambda>_. enactOn vb))"

lemma import_block_ok:
  assumes eng: "engine_ok E enactOn" and inv: "chain_inv c" and ok: "block_ok (vb_block vb) (h_hash (vb_info vb)) (vb_info vb)"
    and small: "unat (h_number (vb_info vb)) < 2 ^ 28" and ver: "\<And>c. verifyBlock E (vb_block vb) InOrderChecks c \<noteq> None"
    and new: "\<not> known c (h_hash (vb_info vb))" "h_hash (vb_info vb) \<noteq> 0"
  shows "\<exists>r c'. import_block E enactOn now mustBeNew vb c = Some (r, c') \<and> chain_inv c' \<and> (best_ok c \<longrightarrow> best_ok c')
    \<and> (case r of Inl e \<Rightarrow> reads c c' \<and> import_checks E enactOn now mustBeNew vb c = Some (Inl e, c')
       | Inr route \<Rightarrow> imported vb (td c (h_parentHash (vb_info vb)) + h_difficulty (vb_info vb)) c c' route)"
proof -
  let ?p = "h_parentHash (vb_info vb)"
  have fail: ?thesis if "import_block E enactOn now mustBeNew vb c = Some (Inl e, c')" "reads c c'"
      "import_checks E enactOn now mustBeNew vb c = Some (Inl e, c')" for e c'
    using that reads_inv [OF that(2)] inv by (intro exI [of _ "Inl e"] exI [of _ c']) simp
  obtain r1 c1 where s1: "import_new mustBeNew vb c = Some (r1, c1)" using import_new_returns by (metis surj_pair)
  have rd1: "reads c c1" by (rule only_readsD [OF import_new_reads s1])
  obtain r2 c2 where s2: "import_parent E now vb c1 = Some (r2, c2)" using import_parent_returns [OF ver] by (metis surj_pair)
  have rd2: "reads c c2" by (rule reads_trans [OF rd1 only_readsD [OF import_parent_reads s2]])
  obtain r3 c3 where s3: "enactOn vb c2 = Some (r3, c3)" using eng unfolding engine_ok_def by (metis option.exhaust surj_pair)
  have "only_reads (enactOn vb)" using eng by (simp add: engine_ok_def)
  then have rd3: "reads c c3" using reads_trans [OF rd2 only_readsD] s3 by blast
  show ?thesis
  proof (cases r1)
    case (Inl e) show ?thesis by (rule fail [OF _ rd1, of e]) (simp_all add: import_block_tail import_checks_def act_bind_def s1 Inl)
  next
    case i1: (Inr u)
    show ?thesis
    proof (cases r2)
      case (Inl e) show ?thesis by (rule fail [OF _ rd2, of e]) (simp_all add: import_block_tail import_checks_def act_bind_def s1 s2 i1 Inl)
    next
      case i2: (Inr pd)
      obtain c1' c2' vb' where pd: "pd = det c1 ?p" and k: "known c1 ?p" and rd: "reads c1 c1'"
        and vf: "verifyBlock E (vb_block vb) InOrderChecks c1' = Some (Inr vb', c2')"
        using import_parent_known [OF s2 [unfolded i2]] by metis
      show ?thesis
      proof (cases r3)
        case (Inl e) show ?thesis by (rule fail [OF _ rd3, of e]) (simp_all add: import_block_tail import_checks_def act_bind_def s1 s2 s3 i1 i2 Inl)
      next
        case i3: (Inr y)
        obtain t rs good where y: "y = (t, rs, good)" by (cases y)
        have td: "t = h_difficulty (vb_info vb)" using eng s3 unfolding engine_ok_def i3 y by blast
        have c1'r: "reads c c1'" by (rule reads_trans [OF rd1 rd])
        have "stored_ok c1'" "tree_ok c1'" "known c1' ?p"
          using quiet_stored [OF quiet_reads [OF c1'r]] inv k rd by (simp_all add: chain_inv_def)
        then have nr: "unat (h_number (vb_info vb)) = Suc (num c ?p)"
          using verify_number [OF eng _ _ _ _ vf, of "vb_info vb"] ok c1'r by (simp add: block_ok_def)
        have inv3: "chain_inv c3" using reads_inv(1) [OF rd3] inv by simp
        have kc: "known c ?p" using k rd1 by simp
        have f: "fresh_block vb c3" using new ok small nr kc rd3 by (simp add: fresh_block_def)
        have v3: "td c3 = td c" "det c3 = det c" "det c1 = det c" using quiet_tree(5) [OF quiet_reads [OF rd3]] rd3 rd1 by simp_all
        let ?t = "td c ?p + h_difficulty (vb_info vb)"
        have tt: "bd_totalDifficulty pd + t = ?t" by (simp add: pd td v3 td_def)
        obtain r c' where fin: "(let c = add_child ?p (h_hash (vb_info vb)) c3 in
            act_bind (is_better E ?t vb) (\<lambda>better. tail vb good better (store_puts pd ?t rs vb c)) c) = Some (Inr r, c')"
          and res: "chain_inv c'" "best_ok c3 \<longrightarrow> best_ok c'" "imported vb ?t c3 c' r"
          using enacted_ok [OF eng inv3 f, of pd ?t good rs] by (auto simp: pd v3)
        have run: "import_block E enactOn now mustBeNew vb c = Some (Inr r, c')"
          using fin [folded tt] by (simp add: import_block_tail act_bind_def s1 s2 s3 i1 i2 i3 y Let_def)
        have "imported vb ?t c c' r"
          using imported_reads [OF _ _ _ _ _ _ res(3), of c] rd3 quiet_tree [OF quiet_reads [OF rd3]] quiet_views(4) [OF quiet_reads [OF rd3]] by simp
        then show ?thesis using run res reads_inv(2) [OF rd3] by (intro exI [of _ "Inr r"] exI [of _ c']) simp
      qed
    qed
  qed
qed

end
