(* ===== verification/Chain_Runs.thy ===== *)
theory Chain_Runs
  imports Chain_Import
begin

text \<open>
  The other operations that write: insertion without execution, rewinding to a number, closing and opening the databases.
  Each keeps the invariant of \<open>Chain_Inv\<close>.
\<close>

section \<open>Insert\<close>

text \<open>\<open>keeps J I m\<close>: from states with \<open>J\<close>, however the action returns, it leaves a state with \<open>I\<close>.\<close>

definition keeps :: "(chain \<Rightarrow> bool) \<Rightarrow> (chain \<Rightarrow> bool) \<Rightarrow> 'a act \<Rightarrow> bool" where
  "keeps J I m = (\<forall>c r c'. J c \<longrightarrow> m c = Some (r, c') \<longrightarrow> I c')"

lemma keeps_peek:
  assumes m: "only_reads m" and f: "\<And>x. keeps J I (f x)" and J: "\<And>c c'. reads c c' \<Longrightarrow> J c \<Longrightarrow> J c'" and I: "\<And>c. J c \<Longrightarrow> I c"
  shows "keeps J I (act_bind m f)"
  unfolding keeps_def
proof (intro allI impI)
  fix c r c' assume c: "J c" and run: "act_bind m f c = Some (r, c')"
  then obtain r1 c1 where s: "m c = Some (r1, c1)" by (auto simp: act_bind_def split: option.splits)
  have "J c1" using J [OF only_readsD [OF m s] c] .
  then show "I c'" using run s I f by (cases r1) (auto simp: act_bind_def keeps_def)
qed

lemma keeps_throw: "(\<And>c. J c \<Longrightarrow> I c) \<Longrightarrow> keeps J I (act_throw e)"
  by (simp add: keeps_def act_throw_def)

lemma keeps_if: "keeps J I m \<Longrightarrow> keeps J I m' \<Longrightarrow> keeps J I (if b then m else m')"
  by simp

text \<open>The state before the block is stored: nothing has happened to the chain.\<close>

definition before :: "verified_block \<Rightarrow> h256 \<Rightarrow> chain \<Rightarrow> bool" where
  "before vb l c = (chain_inv c \<and> m_lastBlockHash c = l \<and> \<not> known c (h_hash (vb_info vb)))"

lemma before_reads: "reads c c' \<Longrightarrow> before vb l c \<Longrightarrow> before vb l c'"
  using reads_inv(1) [of c c'] quiet_views(4) [OF quiet_reads, of c c'] by (simp add: before_def)

lemma fresh_reads: "reads c c' \<Longrightarrow> fresh_block vb c \<Longrightarrow> fresh_block vb c'"
  using fresh_quiet [OF quiet_reads] by blast

lemma import_parent_fresh:
  assumes eng: "engine_ok E enactOn" and b: "before vb l c" and ok: "block_ok (vb_block vb) (h_hash (vb_info vb)) (vb_info vb)"
    and small: "unat (h_number (vb_info vb)) < 2 ^ 28" and h: "h_hash (vb_info vb) \<noteq> 0"
    and run: "import_parent E now vb c = Some (Inr pd, c')"
  shows "fresh_block vb c'" and "pd = det c' (h_parentHash (vb_info vb))"
proof -
  let ?p = "h_parentHash (vb_info vb)"
  have rd': "reads c c'" using only_readsD [OF import_parent_reads run] .
  obtain c1 c2 vb' where pd: "pd = det c ?p" and k: "known c ?p" and rd: "reads c c1"
    and vf: "verifyBlock E (vb_block vb) InOrderChecks c1 = Some (Inr vb', c2)" using import_parent_known [OF run] by metis
  have "stored_ok c1" "tree_ok c1" using before_reads [OF rd b] by (simp_all add: before_def chain_inv_def)
  then have "unat (h_number (vb_info vb)) = Suc (num c ?p)"
    using verify_number [OF eng _ _ _ _ vf, of "vb_info vb"] ok k rd by (simp add: block_ok_def)
  then have "fresh_block vb c" using b ok small h k by (simp add: fresh_block_def before_def)
  then show "fresh_block vb c'" by (rule fresh_reads [OF rd'])
  show "pd = det c' ?p" using pd rd' by simp
qed

lemma keeps_parent:
  assumes eng: "engine_ok E enactOn" and ok: "block_ok (vb_block vb) (h_hash (vb_info vb)) (vb_info vb)"
    and small: "unat (h_number (vb_info vb)) < 2 ^ 28" and h: "h_hash (vb_info vb) \<noteq> 0"
    and f: "\<And>pd. keeps (\<lambda>c. before vb l c \<and> fresh_block vb c \<and> pd = det c (h_parentHash (vb_info vb))) I (f pd)"
    and I: "\<And>c. before vb l c \<Longrightarrow> I c"
  shows "keeps (before vb l) I (act_bind (import_parent E now vb) f)"
  unfolding keeps_def
proof (intro allI impI)
  fix c r c' assume c: "before vb l c" and run: "act_bind (import_parent E now vb) f c = Some (r, c')"
  then obtain r1 c1 where s: "import_parent E now vb c = Some (r1, c1)" by (auto simp: act_bind_def split: option.splits)
  have b1: "before vb l c1" using before_reads [OF only_readsD [OF import_parent_reads s] c] .
  show "I c'"
  proof (cases r1)
    case (Inl e) then show ?thesis using run s I [OF b1] by (simp add: act_bind_def)
  next
    case (Inr pd)
    from import_parent_fresh [OF eng c ok small h s [unfolded Inr]] b1 show ?thesis
      using f [of pd] run s Inr by (auto simp: keeps_def act_bind_def)
  qed
qed

text \<open>\<^verbatim>\<open>insert\<close> puts the block into the tree and leaves the head.\<close>

lemma insert_block_ok:
  assumes eng: "engine_ok E enactOn" and inv: "chain_inv c" and ok: "block_ok (vb_block vb) (h_hash (vb_info vb)) (vb_info vb)"
    and small: "unat (h_number (vb_info vb)) < 2 ^ 28" and new: "\<not> known c (h_hash (vb_info vb))" and h: "h_hash (vb_info vb) \<noteq> 0"
    and run: "insert_block E now rcs mustBeNew vb c = Some (r, c')"
  shows "chain_inv c' \<and> m_lastBlockHash c' = m_lastBlockHash c"
proof -
  let ?p = "h_parentHash (vb_info vb)" and ?h = "h_hash (vb_info vb)" and ?l = "m_lastBlockHash c"
  define I where "I = (\<lambda>c. chain_inv c \<and> m_lastBlockHash c = ?l)"
  have BI: "\<And>c. before vb ?l c \<Longrightarrow> I c" by (simp add: before_def I_def)
  have look: "only_reads (\<lambda>c. case orderedTrieRoot is of Inl e \<Rightarrow> Some (Inl (ChainHash e), c) | Inr r \<Rightarrow> Some (Inr r, c))" for "is"
    by (auto simp: only_reads_def split: sum.splits)
  have store: "keeps (\<lambda>c. before vb ?l c \<and> fresh_block vb c \<and> pd = det c ?p) I (act_bind (act_mod (add_child ?p ?h)) (\<lambda>_ c.
       let ps = store_puts pd (bd_totalDifficulty pd + h_difficulty (vb_info vb)) rs vb c in
       Some (Inr (), write_extras ps (c\<lparr>db_blocks := (db_blocks c)(?h \<mapsto> vb_block vb)\<rparr>))))" for pd rs
    unfolding keeps_def
  proof (intro allI impI; elim conjE)
    fix c r c' assume b: "before vb ?l c" and f: "fresh_block vb c" and pd: "pd = det c ?p"
      and run: "act_bind (act_mod (add_child ?p ?h)) (\<lambda>_ c.
        let ps = store_puts pd (bd_totalDifficulty pd + h_difficulty (vb_info vb)) rs vb c in
        Some (Inr (), write_extras ps (c\<lparr>db_blocks := (db_blocks c)(?h \<mapsto> vb_block vb)\<rparr>))) c = Some (r, c')"
    define ca t where "ca = add_child ?p ?h c" and "t = bd_totalDifficulty pd + h_difficulty (vb_info vb)"
    have inv: "chain_inv c" and k: "known c ?p" using b f by (simp_all add: before_def fresh_block_def)
    note a = add_child_inv [OF inv k, of ?h, folded ca_def]
    have fa: "fresh_block vb ca" using f a by (simp add: fresh_block_def)
    have c': "c' = write_extras (store_puts pd t rs vb ca) (ca\<lparr>db_blocks := (db_blocks ca)(?h \<mapsto> vb_block vb)\<rparr>)"
      using run by (simp add: act_bind_def act_mod_def Let_def ca_def t_def)
    have e: "c' = finished vb False [] (store_puts pd t rs vb ca) ca" by (simp add: c' finished_def Let_def)
    have n: "bd_number pd = bd_number (det ca ?p)" "t = td ca ?p + h_difficulty (vb_info vb)"
      using pd a(6,7) by (simp_all add: t_def td_def fun_eq_iff)
    obtain r' where "tail vb [] False (store_puts pd t rs vb ca) ca = Some (Inr r', c')"
      by (simp add: tail_def act_bind_def act_ret_def e)
    then show "I c'" using tail_side [OF a(1) fa n(1) a(9) n(2), where good = "[]" and rs = rs] a(8) b by (auto simp: I_def before_def)
  qed
  have fb: "(\<And>c c'. reads c c' \<Longrightarrow> (before vb ?l c \<and> fresh_block vb c \<and> pd = det c ?p) \<Longrightarrow> before vb ?l c' \<and> fresh_block vb c' \<and> pd = det c' ?p)" for pd
    using before_reads fresh_reads by simp
  have "keeps (before vb ?l) I (insert_block E now rcs mustBeNew vb)"
    unfolding insert_block_def
    by (rule keeps_peek [OF import_new_reads _ before_reads BI] keeps_peek [OF only_reads_basic(4) _ before_reads BI]
        keeps_peek [OF only_reads_basic(5) _ before_reads BI] keeps_peek [OF look _ before_reads BI] keeps_if keeps_throw [OF BI]
        keeps_parent [OF eng ok small h _ BI] keeps_peek [OF only_reads_basic(5) store fb] | (elim conjE, erule BI) | assumption)+
  then show ?thesis using run inv new unfolding keeps_def before_def I_def by blast
qed

section \<open>The other operations\<close>

lemma rewind_inv:
  assumes inv: "chain_inv c" and h: "hash_at c n = canon_at c n"
  shows "chain_inv (rewind n c)"
proof (cases "n \<ge> m_lastBlockNumber c")
  case False
  let ?l = "m_lastBlockHash c"
  have tr: "tree_ok c" and st: "stored_ok c" and kl: "known c ?l" and ln: "m_lastBlockNumber c = num c ?l"
    and nh: "\<And>m. 0 < m \<Longrightarrow> m \<le> num c ?l \<Longrightarrow> db_blockHashes c m = Some (canon_at c m)"
    using inv by (simp_all add: chain_inv_def head_ok_def)
  have n: "n < num c ?l" using False ln by simp
  define c1 where "c1 = snd (numberHash n c)"
  have r: "reads c c1" by (simp add: c1_def numberHash_reads)
  note q = quiet_reads [OF r] and v = quiet_views [OF quiet_reads [OF r]] quiet_tree [OF quiet_reads [OF r]]
  let ?h = "canon_at c n" and ?c = "rewind n c"
  have e: "?c = c1\<lparr>m_lastBlockHash := ?h, m_lastBlockNumber := n, db_best := Some ?h\<rparr>"
    using False h numberHash_val [of n c] by (simp add: rewind_def c1_def split_def)
  have w: "det ?c = det c" "chunk ?c = chunk c" "known ?c = known c" "num ?c = num c" "par ?c = par c" "anc ?c = anc c" "td ?c = td c"
  proof -
    have "det ?c = det c1" "chunk ?c = chunk c1" by (simp_all add: e det_def chunk_def)
    then show d: "det ?c = det c" "chunk ?c = chunk c" using r by simp_all
    show "known ?c = known c" "num ?c = num c" "par ?c = par c" "anc ?c = anc c" "td ?c = td c"
      by (rule core_views; simp add: d)+
  qed
  have s: "m_details ?c = m_details c1" "m_blocks ?c = m_blocks c1" "db_details ?c = db_details c1" "db_blocks ?c = db_blocks c1"
    "m_genesisHash ?c = m_genesisHash c1" "m_genesisHeaderBytes ?c = m_genesisHeaderBytes c1" "db_blockHashes ?c = db_blockHashes c1"
    "db_blocksBlooms ?c = db_blocksBlooms c1" "m_lastBlockHash ?c = ?h" "m_lastBlockNumber ?c = n" "stored_head ?c = ?h"
    by (simp_all add: e stored_head_def)
  have kh: "known c ?h" "num c ?h = n" using anc_known [OF tr kl, of "num c ?l - n"] n by (simp_all add: canon_at_def)
  have ca: "canon_at ?c m = canon_at c m" if "m \<le> n" for m
  proof -
    have "num c ?l - n + (n - m) = num c ?l - m" using that n by simp
    then show ?thesis by (simp add: canon_at_def [of ?c] s w kh(2)) (simp add: canon_at_def anc_add)
  qed
  have "stored_ok c1" using st quiet_stored(1) [OF q] by simp
  then have "stored_ok ?c" unfolding stored_ok_def s w v .
  moreover have "tree_ok ?c" using tr unfolding tree_ok_def s w v .
  moreover have "head_ok ?c" using kh nh n by (simp add: head_ok_def s w v ca)
  moreover have "index_ok ?c" using inv n kh by (simp add: chain_inv_def index_ok_def s w v ca)
  ultimately show ?thesis by (simp add: chain_inv_def)
qed (simp add: rewind_def inv)

lemma known_stored: "stored_ok c \<Longrightarrow> known c h \<Longrightarrow> \<exists>d. db_details c h = Some d \<and> \<not> details_isNull d"
  using known_iff [of c h] stored_okD(1) [of c h] stored_okD(3) [of c h] by (cases "m_details c h") fastforce+

lemma reads_head: "reads c c' \<Longrightarrow> reads (c\<lparr>m_lastBlockHash := l, m_lastBlockNumber := n\<rparr>) (c'\<lparr>m_lastBlockHash := l, m_lastBlockNumber := n\<rparr>)"
  unfolding reads_def frame_def by simp

text \<open>A chain that is closed and opened again has the same head.\<close>

lemma reopen_inv:
  assumes inv: "chain_inv c"
  shows "chain_inv (chain_open d0 (chain_close c))" and "m_lastBlockHash (chain_open d0 (chain_close c)) = m_lastBlockHash c"
proof -
  let ?l = "m_lastBlockHash c"
  have st: "stored_ok c" and tr: "tree_ok c" and kl: "known c ?l" and sh: "stored_head c = ?l" and ln: "m_lastBlockNumber c = num c ?l"
    using inv by (simp_all add: chain_inv_def head_ok_def)
  define cc where "cc = (chain_close c)\<lparr>m_cacheUsage := replicate c_collectionQueueSize {}\<rparr>"
  obtain g where g: "db_details c (m_genesisHash c) = Some g" "\<not> details_isNull g"
    using known_stored [OF st] tr by (auto simp: tree_ok_def)
  define c1 where "c1 = snd (details (m_genesisHash c) cc)"
  have "fst (details (m_genesisHash c) cc) = g"
    using g by (simp add: details_val det_def through_def cc_def chain_close_def)
  then have d: "details (m_genesisHash c) cc = (g, c1)" unfolding c1_def by (metis prod.collapse)
  have r1: "reads cc c1" unfolding c1_def by (rule details_reads)
  define c2 where "c2 = c1\<lparr>m_lastBlockHash := ?l\<rparr>"
  define c3 where "c3 = snd (chain_number ?l c2)"
  have fr: "frame cc c1" by (rule reads_frame [OF r1])
  have sh1: "(case db_best c1 of None \<Rightarrow> m_genesisHash c1 | Some h \<Rightarrow> h) = ?l"
  proof -
    have "db_best c1 = db_best c" "m_genesisHash c1 = m_genesisHash c" using fr by (simp_all add: frame_def cc_def chain_close_def)
    then show ?thesis using sh by (simp add: stored_head_def split: option.splits)
  qed
  have gc: "m_genesisHash cc = m_genesisHash c" by (simp add: cc_def chain_close_def)
  have op: "chain_open d0 (chain_close c) = c3\<lparr>m_lastBlockNumber := fst (chain_number ?l c2)\<rparr>"
    unfolding chain_open_def Let_def cc_def [symmetric] gc d split_conv using g(2) sh1 by (simp add: split_def c3_def c2_def)
  let ?x = "cc\<lparr>m_lastBlockHash := ?l, m_lastBlockNumber := num c ?l\<rparr>"
  have sx: "shrinks c ?x" using ln by (simp add: shrinks_def cc_def chain_close_def)
  note ix = shrinks_inv [OF inv sx]
  have r3: "reads c2 c3" unfolding c3_def by (rule chain_number_reads)
  have "det ?x = det cc" "det c2 = det c1" by (simp_all add: det_def c2_def)
  then have "det c2 = det ?x" using r1 by simp
  then have nl: "fst (chain_number ?l c2) = num c ?l" using ix(4) by (simp add: chain_number_val num_def fun_eq_iff)
  have l3: "m_lastBlockHash c3 = ?l" using reads_frame [OF r3] by (simp add: frame_def c2_def)
  have "reads ?x (c1\<lparr>m_lastBlockHash := ?l, m_lastBlockNumber := num c ?l\<rparr>)" by (rule reads_head [OF r1])
  also have "c1\<lparr>m_lastBlockHash := ?l, m_lastBlockNumber := num c ?l\<rparr> = c2\<lparr>m_lastBlockHash := ?l, m_lastBlockNumber := num c ?l\<rparr>" by (simp add: c2_def)
  also have "reads \<dots> (c3\<lparr>m_lastBlockHash := ?l, m_lastBlockNumber := num c ?l\<rparr>)" by (rule reads_head [OF r3])
  also have "c3\<lparr>m_lastBlockHash := ?l, m_lastBlockNumber := num c ?l\<rparr> = c3\<lparr>m_lastBlockNumber := num c ?l\<rparr>" using l3 by simp
  finally have rx: "reads ?x (c3\<lparr>m_lastBlockNumber := num c ?l\<rparr>)" .
  show "chain_inv (chain_open d0 (chain_close c))" unfolding op nl using reads_inv(1) [OF rx] ix(1) by simp
  show "m_lastBlockHash (chain_open d0 (chain_close c)) = m_lastBlockHash c" unfolding op using l3 by simp
qed

end
