(* ===== verification/Wire_Block.thy ===== *)
theory Wire_Block
  imports Chain_Runs
begin

text \<open>
  Blocks in the form in which nodes send them: what \<^verbatim>\<open>BlockHeader\<close> and \<^verbatim>\<open>BlockChain::verifyBlock\<close> read from the encoding of a
  header, a list of transactions and a list of uncles, and that verifying it returns.
\<close>

section \<open>Blocks from the wire\<close>

text \<open>A block as nodes write it: the header with its seal, the transactions, the uncles.\<close>

definition wire :: "rlp_item list \<Rightarrow> block_header \<Rightarrow> rlp_item list \<Rightarrow> rlp_item list \<Rightarrow> rlp_item list" where
  "wire ss h txs us = [Items (header_full WithSeal ss h), Items txs, Items us]"

definition wire_header :: "rlp_item list \<Rightarrow> block_header \<Rightarrow> block_header" where
  "wire_header ss h = header_plain (sha3 (encode (Items (header_full WithSeal ss h)))) h"

definition wire_block :: "verified_block \<Rightarrow> bool" where
  "wire_block vb =
     (\<exists>ss h txs us. header_wf ss h \<and> length (concat (map encode [Items txs, Items us])) < 2 ^ 62 \<and> header_exists h
       \<and> vb_block vb = encode (Items (wire ss h txs us)) \<and> vb_info vb = wire_header ss h)"

lemma list_elems_encode:
  assumes ok: "size_ok (length (concat (map encode xs)))"
  shows "cache_ok xs c \<Longrightarrow> i \<le> length xs \<Longrightarrow> list_elems (encode (Items xs)) (length xs) i c = Inr (map encode (drop i xs))"
proof (induction "length xs - i" arbitrary: i c)
  case 0
  then show ?case by (subst list_elems.simps) simp
next
  case (Suc n)
  then have i: "i < length xs" by simp
  have "res_bind (list_elems (encode (Items xs)) (length xs) (Suc i) c') (\<lambda>r. Inr (encode (xs ! i) # r)) = Inr (map encode (drop i xs))"
    if "cache_ok xs c'" for c'
    using Suc.hyps(1) [of "Suc i" c'] Suc.hyps(2) i that by (simp add: Cons_nth_drop_Suc [symmetric, OF i] del: encode.simps)
  then show ?case by (subst list_elems.simps, simp only: i if_True) (rule field_Inr_encode [OF ok Suc.prems(1) i])
qed

lemma wire_size:
  assumes "header_wf ss h" and "length (concat (map encode [Items txs, Items us])) < 2 ^ 62"
  shows "size_ok (length (concat (map encode (wire ss h txs us))))" and "size_ok (length (concat (map encode txs)))"
    and "size_ok (length (concat (map encode us)))" and "cache_ok (wire ss h txs us) fresh_cache"
proof -
  show s: "size_ok (length (concat (map encode (wire ss h txs us))))"
    unfolding wire_def using block_size [OF assms(1), where rest = "[]"] assms(2) by simp
  show "size_ok (length (concat (map encode txs)))" "size_ok (length (concat (map encode us)))"
    using size_ok_mono [OF s] length_payload_of_le [of "Items txs"] length_payload_of_le [of "Items us"]
    by (simp_all add: wire_def del: encode.simps)
  show "cache_ok (wire ss h txs us) fresh_cache" by (rule cache_ok_fresh) (simp add: wire_def)
qed

lemma block_txs_wire:
  assumes "header_wf ss h" and "length (concat (map encode [Items txs, Items us])) < 2 ^ 62"
  shows "block_txs (encode (Items (wire ss h txs us))) = Inr (map encode txs)"
proof -
  note ok = wire_size [OF assms]
  have c: "cache_ok txs fresh_cache"
    using length_le_concat_encode [of txs] ok(2) by (intro cache_ok_fresh) (simp add: size_ok_def)
  have "res_bind (blk_rlp (itemCount (encode (wire ss h txs us ! 1)))) (\<lambda>n. list_elems (encode (wire ss h txs us ! 1)) n 0 fresh_cache) = Inr (map encode txs)"
    using list_elems_encode [OF ok(2) c, of 0] itemCount_Items [OF ok(2)] by (simp add: wire_def del: encode.simps)
  then show ?thesis
    unfolding block_txs_def rlp_new_Items [OF ok(1)] blk_rlp_simps res_bind_simps
    by (intro field_Inr_encode [OF ok(1) ok(4)]) (simp_all add: wire_def del: encode.simps)
qed

lemma wire_block_ok:
  assumes wf: "header_wf ss h" and sz: "length (concat (map encode [Items txs, Items us])) < 2 ^ 62" and e: "header_exists h"
  shows "block_ok (encode (Items (wire ss h txs us))) (h_hash (wire_header ss h)) (wire_header ss h)"
proof -
  note ok = wire_size(1) [OF wf sz]
  have x: "extractHeader (encode (Items (wire ss h txs us))) = Inr (encode (Items (header_full WithSeal ss h)))"
    unfolding wire_def by (rule extractHeader_encode [OF ok [unfolded wire_def]])
  note hn = header_populate_encode [OF wf] rlp_new_Items [OF header_full_size [OF wf, of WithSeal]]
  have "header_new (encode (Items (wire ss h txs us))) BlockData 0 = Inr (wire_header ss h)"
    by (simp add: header_new_def x hn wire_header_def del: encode.simps)
  moreover have "header_new (encode (Items (header_full WithSeal ss h))) HeaderData y
      = Inr (header_plain (if y \<noteq> 0 then y else sha3 (encode (Items (header_full WithSeal ss h)))) h)" for y
    by (simp add: header_new_def hn del: encode.simps)
  moreover have "encode (Items zs) \<noteq> []" for zs by (simp add: Let_def len_prefix_def)
  ultimately show ?thesis
    unfolding block_ok_def x using block_txs_wire [OF wf sz] e
    by (auto simp: wire_header_def header_plain_def header_exists_def simp del: encode.simps)
qed

text \<open>Iteration over a list that was written ends, so verification returns.\<close>

lemma iter_do_returns:
  assumes ok: "size_ok (length (concat (map encode xs)))" and "length pre = n" and "k \<le> length xs"
    and d: "d = pre @ concat (map encode xs) @ []" and B: "\<And>u x c. B u x c \<noteq> None"
  shows "iter_do B d (iter_at n xs k) x c \<noteq> None"
  using assms(3)
proof (induction "length xs - k" arbitrary: k x c)
  case 0
  then have k: "k = length xs" by simp
  have "iter_eq (iter_at n xs k) (iter_end d)"
    using assms(2,4) by (simp add: k iter_eq_def iter_at_def iter_end_def offset_of_def)
  then show ?case by (subst iter_do.simps) simp
next
  case (Suc j)
  then have k: "k < length xs" by simp
  have IH: "iter_do B d (iter_at n xs (Suc k)) y c' \<noteq> None" for y c' using Suc k by simp
  obtain r c' where b: "B (encode (xs ! k)) x c = Some (r, c')" using B by (metis option.exhaust surj_pair)
  show ?case
    using iter_deref_at [OF ok assms(2) d k] iter_next_at [OF ok assms(2) d k] iter_at_not_end [OF k, of n d] b IH
    by (subst iter_do.simps) (auto split: sum.split)
qed

lemma for_do_returns:
  assumes ok: "size_ok (length (concat (map encode xs)))" and B: "\<And>u x c. B u x c \<noteq> None"
  shows "for_do B (encode (Items xs)) x c \<noteq> None"
proof -
  have "encode (Items xs) = len_prefix 192 (length (concat (map encode xs))) @ concat (map encode xs) @ []" by (simp add: Let_def)
  from iter_do_returns [OF ok HOL.refl _ this B] show ?thesis
    using iter_begin_encode [OF ok, of "[]"] by (simp add: for_do_def del: encode.simps)
qed

lemma act_bind_returns: "m c \<noteq> None \<Longrightarrow> (\<And>x c'. m c = Some (Inr x, c') \<Longrightarrow> f x c' \<noteq> None) \<Longrightarrow> act_bind m f c \<noteq> None"
  by (cases "m c") (auto simp: act_bind_def split: sum.split)

lemma act_returns: "act_ret x c \<noteq> None" "act_throw e c \<noteq> None" "act_blk r c \<noteq> None" "act_rlp r' c \<noteq> None" "act_look g c \<noteq> None" "act_res g' c \<noteq> None"
  by (simp_all add: act_ret_def act_throw_def act_blk_def act_rlp_def act_look_def act_res_def split: sum.splits prod.splits)

lemma parent_header_returns: "parent_header e b p c \<noteq> None"
  unfolding parent_header_def by (split if_split, intro conjI impI act_bind_returns act_returns) (split if_split, intro conjI impI act_returns)

lemma verify_uncle_returns: "verify_uncle E ir u x c \<noteq> None"
  unfolding verify_uncle_def by (intro act_bind_returns act_returns parent_header_returns)

lemma verify_tx_returns: "verify_tx E ir h d ts c \<noteq> None"
  by (auto simp: verify_tx_def split: sum.splits)

lemma verifyBlock_returns:
  assumes wf: "header_wf ss h" and sz: "length (concat (map encode [Items txs, Items us])) < 2 ^ 62"
  shows "verifyBlock E (encode (Items (wire ss h txs us))) ir c \<noteq> None"
proof -
  let ?d = "encode (Items (wire ss h txs us))"
  note ok = wire_size [OF wf sz]
  obtain k where s2: "subscript ?d fresh_cache 2 = (Inr (encode (Items us)), k)" and k: "cache_ok (wire ss h txs us) k"
    using subscript_encode [OF ok(1,4), of "[]" 2] by (auto simp: wire_def simp del: encode.simps)
  obtain k' where s1: "subscript ?d k 1 = (Inr (encode (Items txs)), k')"
    using subscript_encode [OF ok(1) k, of "[]" 1] by (auto simp: wire_def simp del: encode.simps)
  have us: "act_bind (for_do (verify_uncle E ir) (encode (Items us)) ()) (\<lambda>_. act_ret k) c' \<noteq> None" for c'
    by (intro act_bind_returns for_do_returns [OF ok(3)] verify_uncle_returns act_returns)
  have ts: "for_do (verify_tx E ir hx) (encode (Items txs)) [] c' \<noteq> None" for hx c' by (rule for_do_returns [OF ok(2) verify_tx_returns])
  have k2: "k2 = k" if "act_bind (for_do (verify_uncle E ir) (encode (Items us)) ()) (\<lambda>_. act_ret k) c' = Some (Inr k2, c'')" for k2 c' c''
    using that by (auto simp: act_bind_Inr act_ret_def)
  have rn: "x = ?d" if "act_rlp (rlp_new ?d VeryStrict) c' = Some (Inr x, c'')" for x c' c''
    using that by (simp add: act_rlp_def rlp_new_Items [OF ok(1)] del: encode.simps)
  have U: "(if ir \<noteq> 0 then (\<lambda>c. case subscript ?d fresh_cache 2 of (Inl e, _) \<Rightarrow> Some (Inl (ChainRLP e), c)
      | (Inr us, k) \<Rightarrow> act_bind (for_do (verify_uncle E ir) us ()) (\<lambda>_. act_ret k) c) else act_ret fresh_cache) c' \<noteq> None" for c'
    unfolding s2 prod.case sum.case by (split if_split, intro conjI impI us act_returns)
  have T: "(if ir \<noteq> 0 then (\<lambda>c. case subscript ?d x 1 of (Inl e, _) \<Rightarrow> Some (Inl (ChainRLP e), c)
      | (Inr ts, _) \<Rightarrow> for_do (verify_tx E ir hx) ts [] c) else act_ret []) c' \<noteq> None"
    if "(if ir \<noteq> 0 then (\<lambda>c. case subscript ?d fresh_cache 2 of (Inl e, _) \<Rightarrow> Some (Inl (ChainRLP e), c)
      | (Inr us, k) \<Rightarrow> act_bind (for_do (verify_uncle E ir) us ()) (\<lambda>_. act_ret k) c) else act_ret fresh_cache) c'' = Some (Inr x, c')" for x hx c' c''
  proof (cases "ir = 0")
    case False
    then have "x = k" using that unfolding s2 prod.case sum.case by (simp only: simp_thms if_True) (rule k2)
    then show ?thesis using False ts by (simp add: s1 del: encode.simps not_None_eq One_nat_def)
  qed (simp add: act_ret_def)
  show ?thesis
    unfolding verifyBlock_def
    apply (intro act_bind_returns act_returns)
    apply (split if_split, intro conjI impI act_bind_returns act_returns parent_header_returns)
     apply (drule rn, hypsubst, rule U)
    apply (drule rn, hypsubst, erule T)
    done
qed

section \<open>Blocks with no transactions\<close>

lemma tx_root_Nil: "tx_root [] = Inr EmptyTrie"
  using appends_out [OF appends_bytes [of "[]"]]
  by (simp add: tx_root_def trieRootOver_def hash256_def rlp256_def EmptyTrie_def hash_rlp_def rlp_bytes_def size_ok_def len_prefix_def)

lemma in_order_strictness: "(if has_flag InOrderChecks ValidSeal then CheckEverything else QuickNonce) = QuickNonce"
  by (simp add: has_flag_def InOrderChecks_def ValidSeal_def ParentCheck_def UncleParent_def)

lemma verify_block_Nil:
  assumes wf: "header_wf ss h" and "h_transactionsRoot h' = EmptyTrie" and "h_sha3Uncles h' = EmptyListSHA3"
  shows "verify_block h' (encode (Items (wire ss h [] []))) = Inr ()"
proof -
  have "length (concat (map encode [Items [], Items []])) < 2 ^ 62" by (simp add: len_prefix_def)
  note ok = wire_size [OF wf this]
  have sz: "size_ok (length (concat (map encode [])))" by simp
  have e: "encode (Items []) = [0xc0]" by (simp add: len_prefix_def)
  have n: "itemCount (encode (Items [])) = Inr 0" using itemCount_Items [OF sz] by simp
  have l: "list_elems (encode (Items [])) 0 0 fresh_cache = Inr []" by (subst list_elems.simps) simp
  have "field (\<lambda>_ e. Inl (BlockRLP e)) (encode (Items (wire ss h [] []))) 2 Inr c (\<lambda>uncles c.
      if h_sha3Uncles h' \<noteq> sha3 uncles then Inl InvalidUnclesHash else Inr ()) = Inr ()" if "cache_ok (wire ss h [] []) c" for c
    by (rule field_Inr_encode [OF ok(1) that]) (simp_all add: wire_def assms(3) EmptyListSHA3_def e del: encode.simps)
  then show ?thesis
    unfolding verify_block_def rlp_new_Items [OF ok(1)] blk_rlp_simps res_bind_simps
    by (intro field_Inr_encode [OF ok(1) ok(4)]) (simp_all add: wire_def n l tx_root_Nil assms(2) del: encode.simps)
qed

lemma for_do_Nil: "for_do B (encode (Items [])) x c = Some (Inr x, c)"
proof -
  have e: "encode (Items []) = len_prefix 192 0" by simp
  have "iter_eq (iter_at (length (len_prefix 192 0)) [] 0) (iter_end (len_prefix 192 0))"
    by (simp add: iter_eq_def iter_at_def iter_end_def offset_of_def)
  then have "iter_do B (len_prefix 192 0) (iter_at (length (len_prefix 192 0)) [] 0) x c = Some (Inr x, c)" by (subst iter_do.simps) simp
  then show ?thesis using iter_begin_encode [of "[]" "[]"] by (simp add: for_do_def)
qed

lemma verifyBlock_Nil:
  assumes wf: "header_wf ss h" and ex: "header_exists h" and ir: "ir \<noteq> 0" "\<not> (has_flag ir PostGenesis \<and> (h_parentHash h = 0 \<or> h_number h = 0))"
    and p: "parent_header (ChainBlock InvalidParentHash) (has_flag ir ParentCheck) (h_parentHash h) c = Some (Inr p, c1)"
    and v: "se_verify E (if has_flag ir ValidSeal then CheckEverything else QuickNonce) (wire_header ss h) p (encode (Items (wire ss h [] []))) = Inr ()"
  shows "verifyBlock E (encode (Items (wire ss h [] []))) ir c
    = Some (Inr \<lparr>vb_block = encode (Items (wire ss h [] [])), vb_info = wire_header ss h, vb_transactions = []\<rparr>, c1)"
proof -
  let ?d = "encode (Items (wire ss h [] []))"
  have sz: "length (concat (map encode [Items [], Items []])) < 2 ^ 62" by (simp add: len_prefix_def)
  note ok = wire_size [OF wf sz]
  obtain k where s2: "subscript ?d fresh_cache 2 = (Inr (encode (Items [])), k)" and k: "cache_ok (wire ss h [] []) k"
    using subscript_encode [OF ok(1,4), of "[]" 2] by (auto simp: wire_def simp del: encode.simps)
  obtain k' where s1: "subscript ?d k 1 = (Inr (encode (Items [])), k')"
    using subscript_encode [OF ok(1) k, of "[]" 1] by (auto simp: wire_def simp del: encode.simps)
  have hn: "header_new ?d BlockData 0 = Inr (wire_header ss h)" using wire_block_ok [OF wf sz ex] by (simp add: block_ok_def del: encode.simps)
  have w: "h_parentHash (wire_header ss h) = h_parentHash h" "h_number (wire_header ss h) = h_number h"
    by (simp_all add: wire_header_def header_plain_def)
  show ?thesis
    unfolding verifyBlock_def
    by (simp add: w ir act_bind_def act_blk_def act_rlp_def act_ret_def hn p v rlp_new_Items [OF ok(1)] s1 s2 for_do_Nil del: encode.simps One_nat_def)
qed

end
