(* ===== verification/Chain_Safe.thy ===== *)
theory Chain_Safe
  imports Wire_Block
begin

text \<open>
  Every run of a \<^verbatim>\<open>BlockChain\<close> whose engine verifies with \<^verbatim>\<open>Elhash\<close>: the steps are the imports, insertions,
  lookups, collections, rewinds and restarts of \<open>Block_Chain\<close> and \<open>Chain_Store\<close>, and every state a run reaches from an
  empty database satisfies the invariant of \<open>Chain_Inv\<close>.
\<close>

section \<open>Runs\<close>

text \<open>A chain before it is opened for the first time.\<close>

definition blank :: "h256 \<Rightarrow> bytes \<Rightarrow> bytes \<Rightarrow> chain" where
  "blank g gb ghb = (chain_on g (\<lambda>_. None))\<lparr>m_genesisBlock := gb, m_genesisHeaderBytes := ghb\<rparr>"

definition genesis_ok :: "h256 \<Rightarrow> bytes \<Rightarrow> bool" where
  "genesis_ok g ghb = (g \<noteq> 0 \<and> ghb \<noteq> [] \<and> (\<forall>x. \<exists>hx. header_new ghb HeaderData x = Inr hx \<and> h_number hx = 0 \<and> header_exists hx))"

definition genesis_details :: "u256 \<Rightarrow> block_details" where
  "genesis_details d0 = \<lparr>bd_number = 0, bd_totalDifficulty = d0, bd_parent = 0, bd_children = []\<rparr>"

lemma chain_open_blank:
  "chain_open d0 (blank g gb ghb) = (blank g gb ghb)\<lparr>m_details := [g \<mapsto> genesis_details d0], db_details := [g \<mapsto> genesis_details d0]\<rparr>"
  by (simp add: chain_open_def Let_def blank_def chain_on_def details_def queryExtras_def details_isNull_def NullBlockDetails_def
      chain_number_def InvalidBlockNumber_def c_collectionQueueSize_def genesis_details_def)

lemma blank_det: "det (chain_open d0 (blank g gb ghb)) h = (if h = g then genesis_details d0 else NullBlockDetails)"
  unfolding chain_open_blank by (simp add: det_def through_def blank_def chain_on_def)

lemma blank_views:
  fixes d0 g gb ghb defines "c \<equiv> chain_open d0 (blank g gb ghb)"
  shows "known c h \<longleftrightarrow> h = g" "num c g = 0" "par c g = 0" "td c g = d0" "m_genesisHash c = g" "m_lastBlockHash c = g" "m_lastBlockNumber c = 0"
    "stored_head c = g" "m_genesisHeaderBytes c = ghb" "db_blocks c = (\<lambda>_. None)" "m_blocks c = (\<lambda>_. None)"
    "chunk c = (\<lambda>_. NullBlocksBlooms)" "db_blocksBlooms c = (\<lambda>_. None)"
    "m_details c = [g \<mapsto> genesis_details d0]" "db_details c = [g \<mapsto> genesis_details d0]"
proof -
  show "known c h \<longleftrightarrow> h = g" "num c g = 0" "par c g = 0" "td c g = d0"
    unfolding c_def by (simp_all add: known_def num_def par_def td_def blank_det genesis_details_def details_isNull_def NullBlockDetails_def InvalidBlockNumber_def)
qed (simp_all add: c_def chain_open_blank, simp_all add: blank_def chain_on_def stored_head_def chunk_def through_def fun_eq_iff)

lemma blank_inv:
  assumes g: "genesis_ok g ghb" shows "chain_inv (chain_open d0 (blank g gb ghb))" and "best_ok (chain_open d0 (blank g gb ghb))"
proof -
  let ?c = "chain_open d0 (blank g gb ghb)"
  note v = blank_views [of d0 g gb ghb]
  have "tree_ok ?c" using g v(2) by (simp add: tree_ok_def v genesis_ok_def)
  moreover have "stored_ok ?c" using g v(2)
    by (auto simp: stored_ok_def v genesis_ok_def genesis_details_def details_isNull_def InvalidBlockNumber_def fun_upd_apply split: if_splits)
  moreover have "head_ok ?c" using v(2) by (simp add: head_ok_def v)
  moreover have "index_ok ?c" using v(2) by (simp add: index_ok_def v sized_def dchunk_of_def NullBlocksBlooms_def c_bloomIndexSize_def)
  ultimately show "chain_inv ?c" by (simp add: chain_inv_def)
  show "best_ok ?c" by (simp add: best_ok_def v)
qed

text \<open>A block that is imported again is recognised: it is not known, or it has to be new and is not above
  the head.\<close>

definition recognised :: "bool \<Rightarrow> h256 \<Rightarrow> chain \<Rightarrow> bool" where
  "recognised mustBeNew h c = (known c h \<longrightarrow> mustBeNew \<and> num c h \<le> m_lastBlockNumber c)"

lemma isKnown_current:
  assumes st: "stored_ok c" and k: "known c h" and n: "num c h \<le> m_lastBlockNumber c"
  shows "fst (isKnown h True c)"
proof (cases "h = m_genesisHash c")
  case False
  then obtain b where b: "db_blocks c h = Some b" "b \<noteq> []" using stored_okD(6) [OF st k] by (auto simp: block_ok_def)
  obtain c1 where d: "details h c = (det c h, c1)" and r: "reads c c1" by (rule details_eq)
  have "m_lastBlockNumber c1 = m_lastBlockNumber c" using reads_frame [OF r] by (simp add: frame_def)
  then show ?thesis using False b d n known_iff [OF k] by (auto simp: isKnown_def num_def)
qed (simp add: isKnown_def)

text \<open>The second import of a recognised block throws, and only reads.\<close>

lemma import_new_known:
  assumes "stored_ok c" and "known c (h_hash (vb_info vb))" and "num c (h_hash (vb_info vb)) \<le> m_lastBlockNumber c"
  obtains c' where "import_new True vb c = Some (Inl AlreadyHaveBlock, c')" and "reads c c'"
proof -
  obtain c1 where k: "isKnown (h_hash (vb_info vb)) True c = (True, c1)"
    using isKnown_current [OF assms] by (metis prod.collapse)
  then have e: "import_new True vb c = Some (Inl AlreadyHaveBlock, c1)"
    by (simp add: import_new_def act_bind_def act_look_def act_throw_def)
  then show thesis using that only_readsD [OF import_new_reads e] by blast
qed

text \<open>
  The steps of a chain: imports and insertions, however they end, lookups, which may fill any cache from the
  database, collections, rewinds, restarts.  The conditions of a step:
  \<^item> the hash of a block that is imported or inserted is not zero and its number is below \<open>2 ^ 28\<close>;
  \<^item> if its hash is that of a known block, the caller asks for a new one (\<^verbatim>\<open>MustBeNew\<close>) and the known
    block is not above the head, so that \<^verbatim>\<open>isKnown\<close> recognises it (above the head it does not, and the
    block is stored a second time, without its children);
  \<^item> a rewind is to a number for which \<^verbatim>\<open>numberHash\<close> returns the ancestor of the head.  It may not:
    \<^verbatim>\<open>m_blockHashes\<close> keeps the hash of a number after \<^verbatim>\<open>import\<close> has changed it in the
    database, and a rewind to it makes a block of another branch the head, while the numbers below are those of the
    old one.
\<close>

inductive chain_step :: "seal_engine \<Rightarrow> enactor \<Rightarrow> chain \<Rightarrow> chain \<Rightarrow> bool" for E enactOn where
  importing: "wire_block vb \<Longrightarrow> unat (h_number (vb_info vb)) < 2 ^ 28 \<Longrightarrow> h_hash (vb_info vb) \<noteq> 0
    \<Longrightarrow> recognised mustBeNew (h_hash (vb_info vb)) c
    \<Longrightarrow> import_block E enactOn now mustBeNew vb c = Some (r, c') \<Longrightarrow> chain_step E enactOn c c'"
| inserting: "wire_block vb \<Longrightarrow> unat (h_number (vb_info vb)) < 2 ^ 28 \<Longrightarrow> h_hash (vb_info vb) \<noteq> 0
    \<Longrightarrow> recognised mustBeNew (h_hash (vb_info vb)) c
    \<Longrightarrow> insert_block E now rcs mustBeNew vb c = Some (r', c') \<Longrightarrow> chain_step E enactOn c c'"
| looking: "reads c c' \<Longrightarrow> chain_step E enactOn c c'"
| collecting: "chain_step E enactOn c (garbageCollect due c)"
| rewinding: "hash_at c n = canon_at c n \<Longrightarrow> chain_step E enactOn c (rewind n c)"
| restarting: "chain_step E enactOn c (chain_open d0 (chain_close c))"

lemma wire_blockD:
  assumes "wire_block vb"
  shows "block_ok (vb_block vb) (h_hash (vb_info vb)) (vb_info vb)" and "verifyBlock E (vb_block vb) ir c \<noteq> None"
  using assms wire_block_ok verifyBlock_returns unfolding wire_block_def by force+

lemma chain_step_inv:
  assumes "engine_ok E enactOn" shows "chain_step E enactOn c c' \<Longrightarrow> chain_inv c \<Longrightarrow> chain_inv c'"
proof (induction rule: chain_step.induct)
  case (importing vb mustBeNew c now r c')
  show ?case
  proof (cases "known c (h_hash (vb_info vb))")
    case True
    then obtain c1 where "import_new mustBeNew vb c = Some (Inl AlreadyHaveBlock, c1)" "reads c c1"
      using import_new_known [of c vb] importing by (auto simp: recognised_def chain_inv_def)
    then show ?thesis using importing.hyps(5) importing.prems reads_inv(1) [of c c1] by (auto simp: import_block_tail act_bind_def)
  next
    case False
    then show ?thesis
      using import_block_ok [OF assms importing.prems wire_blockD(1) [OF importing(1)] importing(2) wire_blockD(2) [OF importing(1)] False importing(3), where now = now and mustBeNew = mustBeNew]
        importing.hyps(5) by auto
  qed
next
  case (inserting vb mustBeNew c now rcs r' c')
  show ?case
  proof (cases "known c (h_hash (vb_info vb))")
    case True
    then obtain c1 where "import_new mustBeNew vb c = Some (Inl AlreadyHaveBlock, c1)" "reads c c1"
      using import_new_known [of c vb] inserting by (auto simp: recognised_def chain_inv_def)
    then show ?thesis using inserting.hyps(5) inserting.prems reads_inv(1) [of c c1] by (auto simp: insert_block_def act_bind_def)
  next
    case False
    then show ?thesis using insert_block_ok [OF assms inserting.prems wire_blockD(1) [OF inserting(1)] inserting(2) False inserting(3,5)] by blast
  qed
next
  case (looking c c') then show ?case using reads_inv(1) by blast
next
  case (collecting c due) then show ?case using shrinks_inv(1) [OF _ gc_shrinks] by blast
next
  case (rewinding c n) then show ?case by (intro rewind_inv)
next
  case (restarting c d0) then show ?case by (intro reopen_inv(1))
qed

lemma chain_steps_inv:
  assumes "engine_ok E enactOn" and "(chain_step E enactOn)\<^sup>*\<^sup>* c c'" and "chain_inv c"
  shows "chain_inv c'"
  using assms(2,3) by induction (auto dest: chain_step_inv [OF assms(1)])

text \<open>The search of the index finds every canonical block.\<close>

lemma canonical_found:
  assumes inv: "chain_inv c" and n: "0 < n" "n \<le> num c (m_lastBlockHash c)" and b: "db_blocks c (canon_at c n) = Some b" "header_new b BlockData 0 = Inr hx"
    and B: "bloom_contains (block_bloom hx) B" and el: "e \<le> n" "n \<le> l" "l + 255 < 2 ^ 32"
  shows "n \<in> set (fst (withBlockBloom B e l c))"
proof -
  have "indexed (chunk c) n (block_bloom hx)" using inv n b by (simp add: chain_inv_def index_ok_def covered_def)
  then have "bloom_contains (get (chunk c) 0 n) B" "bloom_contains (get (chunk c) 1 (n div 16)) B"
    using bloom_contains_trans [OF _ B] by (simp_all add: indexed_def)
  moreover have "set (fst (withBlockBloom B e l c)) =
      {n. e \<le> n \<and> searched l n \<and> bloom_contains (slot1 (chunk c) n) B \<and> bloom_contains (slot0 (chunk c) n) B}"
    using withBlockBloom_finds [of e l B c] el by (simp add: finds_def)
  ultimately show ?thesis using el by (simp add: slots_get searched_def)
qed

section \<open>The chain of a node that verifies with Elhash\<close>

text \<open>Enacting a block reads the chain, ends, and adds the difficulty of the block to the total.\<close>

definition enactor_ok :: "enactor \<Rightarrow> bool" where
  "enactor_ok enactOn =
     ((\<forall>vb. only_reads (enactOn vb)) \<and> (\<forall>vb c. enactOn vb c \<noteq> None)
      \<and> (\<forall>vb c t rs ts c'. enactOn vb c = Some (Inr (t, rs, ts), c') \<longrightarrow> t = h_difficulty (vb_info vb)))"

lemma header_verify_number:
  "header_verify s h p b = Inr () \<Longrightarrow> header_exists p \<Longrightarrow> h_number h = h_number p + 1"
  unfolding header_verify_def by (simp add: res_bind_Inr_iff split: if_splits)

lemma elhash_engine_ok:
  assumes "se_verify E = elhash_verify P F m" and "enactor_ok enactOn" shows "engine_ok E enactOn"
proof -
  have "header_verify s h p b = Inr ()" if "elhash_verify P F m s h p b = Inr ()" for s h p b
    using that by (cases "header_verify s h p b") (simp_all add: elhash_verify_def)
  then show ?thesis using assms(2) header_verify_number unfolding engine_ok_def enactor_ok_def assms(1) by blast
qed

definition node_runs :: "seal_engine \<Rightarrow> enactor \<Rightarrow> h256 \<Rightarrow> bytes \<Rightarrow> bytes \<Rightarrow> u256 \<Rightarrow> chain \<Rightarrow> bool" where
  "node_runs E enactOn g gb ghb d0 = (chain_step E enactOn)\<^sup>*\<^sup>* (chain_open d0 (blank g gb ghb))"

lemma node_runs_inv:
  assumes "se_verify E = elhash_verify P F m" and "enactor_ok enactOn" and "genesis_ok g ghb" and "node_runs E enactOn g gb ghb d0 c"
  shows "chain_inv c"
  using chain_steps_inv [OF elhash_engine_ok [OF assms(1,2)] assms(4) [unfolded node_runs_def] blank_inv(1) [OF assms(3)]] .

text \<open>A node with a block to import: its genesis block has the hash 1, the block has it as its parent.\<close>

definition trusting :: enactor where
  "trusting vb c = Some (Inr (h_difficulty (vb_info vb), [], []), c)"

definition a_parent :: block_header where
  "a_parent = new_header\<lparr>h_timestamp := 10, h_gasLimit := 3141562, h_difficulty := 131072\<rparr>"

definition a_child :: block_header where
  "a_child = new_header\<lparr>h_parentHash := 1, h_sha3Uncles := EmptyListSHA3, h_transactionsRoot := EmptyTrie, h_number := 1,
     h_timestamp := 11, h_gasLimit := 3141562, h_difficulty := 131136\<rparr>"

definition a_node :: seal_engine where
  "a_node = \<lparr>se_verify = elhash_verify default_params any_pow [], se_verifyTransaction = elhash_verifyTransaction default_params,
     se_recover = (\<lambda>_ _. []), se_tieBreakingGas = True, se_allowFutureBlocks = False\<rparr>"

definition a_genesis :: bytes where "a_genesis = encode (Items (header_full WithSeal [] a_parent))"

definition a_block :: verified_block where
  "a_block = \<lparr>vb_block = encode (Items (wire [] a_child [] [])), vb_info = wire_header [] a_child, vb_transactions = []\<rparr>"

lemma a_node_ok: "se_verify a_node = elhash_verify default_params any_pow []" "enactor_ok trusting" "genesis_ok 1 a_genesis"
proof -
  have "header_wf [] a_parent" by (simp add: header_wf_def new_header_def a_parent_def)
  note p = header_populate_encode [OF this] rlp_new_Items [OF header_full_size [OF this, of WithSeal]]
  show "genesis_ok 1 a_genesis"
    unfolding genesis_ok_def a_genesis_def header_new_def
    by (simp add: p del: encode.simps) (simp add: header_plain_def header_exists_def Invalid256_def new_header_def a_parent_def)
qed (simp_all add: a_node_def enactor_ok_def only_reads_def trusting_def reads_def)

lemma a_block_wire: "wire_block a_block" "h_number (vb_info a_block) = 1" "h_parentHash (vb_info a_block) = 1"
    "h_difficulty (vb_info a_block) = 131136"
proof -
  have "header_wf [] a_child" by (simp add: header_wf_def new_header_def a_child_def)
  moreover have "length (concat (map encode [Items [], Items []])) < 2 ^ 62" by (simp add: len_prefix_def)
  moreover have "header_exists a_child" by (simp add: header_exists_def a_child_def Invalid256_def)
  ultimately show "wire_block a_block" unfolding wire_block_def a_block_def by (intro exI [of _ "[]"] exI [of _ a_child]) simp
qed (simp_all add: a_block_def wire_header_def header_plain_def a_child_def)

lemma a_verify:
  "elhash_verify default_params any_pow [] QuickNonce (wire_header [] a_child) (header_plain 1 a_parent) (encode (Items (wire [] a_child [] []))) = Inr ()"
proof -
  have wf: "header_wf [] a_child" by (simp add: header_wf_def new_header_def a_child_def)
  then have wf': "header_wf [] (wire_header [] a_child)" by (simp add: header_wf_def wire_header_def header_plain_def)
  have "verify_block (wire_header [] a_child) (encode (Items (wire [] a_child [] []))) = Inr ()"
    by (rule verify_block_Nil [OF wf]) (simp_all add: wire_header_def header_plain_def a_child_def)
  then have "header_verify QuickNonce (wire_header [] a_child) (header_plain 1 a_parent) (encode (Items (wire [] a_child [] []))) = Inr ()"
    unfolding header_verify_def
    by (simp add: wire_header_def header_plain_def a_child_def a_parent_def header_exists_def header_hash_def new_header_def Let_def Invalid256_def del: encode.simps)
  moreover have "verify_parent default_params (wire_header [] a_child) (header_plain 1 a_parent) = Inr ()"
    unfolding verify_parent_def
    by (simp add: wire_header_def header_plain_def a_child_def a_parent_def new_header_def Let_def calculateDifficulty_def signed_divide_int_def)
  moreover have "quickVerifySeal any_pow (wire_header [] a_child) = Inr True"
    using header_rlp [OF wf', of WithoutSeal] unfolding quickVerifySeal_def header_hash_def
    by (simp add: wire_header_def header_plain_def a_child_def new_header_def ELHASH_EPOCH_LENGTH_def header_mixHash_def header_nonce_def
      header_sealed_def any_pow_def del: encode.simps)
  ultimately show ?thesis unfolding elhash_verify_def
    by (simp add: wire_header_def header_plain_def a_child_def new_header_def del: encode.simps)
qed

lemma InOrderChecks_pos: "InOrderChecks \<noteq> 0"
  by (simp add: InOrderChecks_def ParentCheck_def UncleParent_def)

lemma a_import:
  assumes "h_hash (vb_info a_block) \<noteq> 1" and "c = chain_open 131072 (blank 1 [] a_genesis)"
  shows "\<exists>r c'. import_checks a_node trusting 100 True a_block c = Some (Inr r, c')"
proof -
  have g: "m_genesisHash c = 1" "m_genesisHeaderBytes c = a_genesis" "db_blocks c = (\<lambda>_. None)" "m_blocks c = (\<lambda>_. None)"
      "\<not> details_isNull (det c 1)"
    using blank_views [of 131072 1 "[]" a_genesis] unfolding assms(2) known_def by simp_all
  have wf: "header_wf [] a_child" "header_wf [] a_parent" by (simp_all add: header_wf_def new_header_def a_child_def a_parent_def)
  have ex: "header_exists a_child" by (simp add: a_child_def header_exists_def Invalid256_def)
  have vi: "h_parentHash (vb_info a_block) = 1" "h_timestamp (vb_info a_block) = 11" "h_difficulty (vb_info a_block) = 131136"
      "h_parentHash a_child = 1"
    by (simp_all add: a_block_def wire_header_def header_plain_def a_child_def)
  obtain c1 where d: "details 1 c = (det c 1, c1)" and r: "reads c c1" by (rule details_eq)
  have g1: "m_genesisHash c1 = 1" "m_genesisHeaderBytes c1 = a_genesis" using r g(1,2) unfolding reads_def frame_def by simp_all
  have ne: "a_genesis \<noteq> []" by (simp add: a_genesis_def Let_def len_prefix_def)
  have "header_new a_genesis HeaderData 1 = Inr (header_plain 1 a_parent)"
    by (simp add: header_new_def a_genesis_def header_populate_encode [OF wf(2)] rlp_new_Items [OF header_full_size [OF wf(2), of WithSeal]] del: encode.simps)
  then have "parent_header e True (h_parentHash a_child) c1 = Some (Inr (header_plain 1 a_parent), c1)" for e
    by (simp add: parent_header_def act_bind_def act_res_def act_blk_def headerData_def g1 ne vi)
  then obtain v where "verifyBlock a_node (vb_block a_block) InOrderChecks c1 = Some (Inr v, c1)"
    using verifyBlock_Nil [OF wf(1) ex InOrderChecks_pos, of c1] a_verify
    by (simp add: in_order_flags in_order_strictness a_block_def a_node_def del: encode.simps)
  then have "import_parent a_node 100 a_block c = Some (Inr (det c 1), c1)"
    using g(5) by (simp add: import_parent_def act_bind_def act_look_def vi d act_ret_def)
  moreover have "import_new True a_block c = Some (Inr (), c)"
    using assms(1) g by (simp add: import_new_def act_bind_def act_look_def isKnown_def vi act_ret_def)
  ultimately show ?thesis by (simp add: import_checks_def act_bind_def trusting_def)
qed

lemma a_run:
  assumes "h_hash (vb_info a_block) \<noteq> 0" and "h_hash (vb_info a_block) \<noteq> 1"
  obtains c where "node_runs a_node trusting 1 [] a_genesis 131072 c" and "m_lastBlockHash c = h_hash (vb_info a_block)"
    and "m_genesisHash c = 1" and "m_lastBlockNumber c = 1"
proof -
  let ?h = "h_hash (vb_info a_block)" and ?c = "chain_open 131072 (blank 1 [] a_genesis)"
  note eng = elhash_engine_ok [OF a_node_ok(1,2)] and inv = blank_inv [OF a_node_ok(3), of 131072 "[]"]
  note v = blank_views [of 131072 1 "[]" a_genesis]
  have sm: "unat (h_number (vb_info a_block)) < 2 ^ 28" and new: "\<not> known ?c ?h" using assms(2) by (simp_all add: v a_block_wire)
  obtain r c' where run: "import_block a_node trusting 100 True a_block ?c = Some (r, c')" and ci: "chain_inv c'" and best: "best_ok c'"
    and r: "case r of Inl e \<Rightarrow> reads ?c c' \<and> import_checks a_node trusting 100 True a_block ?c = Some (Inl e, c')
      | Inr route \<Rightarrow> imported a_block (td ?c (h_parentHash (vb_info a_block)) + h_difficulty (vb_info a_block)) ?c c' route"
    using import_block_ok [OF eng inv(1) wire_blockD(1) [OF a_block_wire(1)] sm wire_blockD(2) [OF a_block_wire(1)] new assms(1), of 100 True] inv(2) by blast
  obtain route where im: "imported a_block 262208 ?c c' route" using r a_import [OF assms(2) HOL.refl] by (auto simp: a_block_wire v split: sum.splits)
  have k: "known c' h \<longleftrightarrow> h = 1 \<or> h = ?h" and p: "par c' 1 = 0" "par c' ?h = 1" and t: "td c' 1 = 131072" "td c' ?h = 262208" for h
    using im assms(2) by (auto simp: imported_def v a_block_wire fun_upd_apply)
  have l: "m_lastBlockHash c' = ?h" using im best assms(2) t k by (auto simp: imported_def v best_ok_def)
  have tr: "tree_ok c'" and hd: "head_ok c'" using ci by (simp_all add: chain_inv_def)
  have g: "m_genesisHash c' = 1" using tree_okD(1,2) [OF tr, of 1] k [of 1] k [of 0] p assms(1) tr by auto
  then have "num c' ?h = 1" using tree_okD(3) [OF tr, of ?h] k p tr assms(2) by (simp add: tree_ok_def)
  moreover have "chain_step a_node trusting ?c c'"
    using importing [OF a_block_wire(1) sm assms(1) _ run] new by (simp add: recognised_def)
  ultimately show thesis using that l g hd unfolding node_runs_def head_ok_def by (metis r_into_rtranclp)
qed

text \<open>C32: what every run of a chain keeps.  From an empty database, after any sequence of imports and insertions of
  blocks in wire form, however they end, of lookups, collections of the caches, rewinds and restarts: every
  known block but the genesis block is stored with the header of its hash, number and parent, its total
  difficulty is its parent's and its own; the head is known, its number and the head in the database are its own; and
  the hash the database has for each number up to the head's is that of the head's ancestor there.  The sequence
  is one of \<open>chain_step\<close>, whose conditions are these: imported and inserted blocks have a hash that is not zero and a
  number below \<open>2 ^ 28\<close>; a block whose hash is known already is imported again only with
  \<^verbatim>\<open>MustBeNew\<close> and when it is not above the head; and a rewind is to a number for which
  \<^verbatim>\<open>numberHash\<close> returns the head's ancestor there, which a stale entry of
  \<^verbatim>\<open>m_blockHashes\<close> can prevent (then the head becomes a block of another branch, and the last claim
  fails).  The engine verifies with \<^verbatim>\<open>Elhash::verify\<close>, and the enactment of blocks is a parameter that only
  reads the chain, ends, and returns the block's difficulty (\<open>enactor_ok\<close>).  The genesis block has a hash that is
  not zero and a header that parses and has the number 0 (\<open>genesis_ok\<close>).\<close>

theorem chain_reachable_ok:
  assumes "se_verify E = elhash_verify P F m" and "enactor_ok enactOn" and "genesis_ok g ghb" and "node_runs E enactOn g gb ghb d0 c"
  shows "(\<forall>h. known c h \<longrightarrow> h \<noteq> m_genesisHash c \<longrightarrow>
      known c (par c h) \<and> num c h = Suc (num c (par c h)) \<and>
      (\<exists>b hx. db_blocks c h = Some b \<and> header_new b BlockData 0 = Inr hx \<and> h_hash hx = h \<and> unat (h_number hx) = num c h
         \<and> h_parentHash hx = par c h \<and> td c h = td c (par c h) + h_difficulty hx))
    \<and> known c (m_lastBlockHash c) \<and> m_lastBlockNumber c = num c (m_lastBlockHash c) \<and> stored_head c = m_lastBlockHash c
    \<and> (\<forall>n. 0 < n \<longrightarrow> n \<le> m_lastBlockNumber c \<longrightarrow>
         db_blockHashes c n = Some (anc c (m_lastBlockHash c) (m_lastBlockNumber c - n)))"
proof -
  have tr: "tree_ok c" and st: "stored_ok c" and hd: "head_ok c" using node_runs_inv [OF assms] by (simp_all add: chain_inv_def)
  have "\<exists>b hx. db_blocks c h = Some b \<and> header_new b BlockData 0 = Inr hx \<and> h_hash hx = h \<and> unat (h_number hx) = num c h
      \<and> h_parentHash hx = par c h \<and> td c h = td c (par c h) + h_difficulty hx" if "known c h" "h \<noteq> m_genesisHash c" for h
    using stored_okD(6) [OF st that] unfolding block_ok_def by blast
  then show ?thesis using tree_okD(2,3) [OF tr] hd by (simp add: head_ok_def canon_at_def)
qed

theorem chain_reachable_ok_witness:
  "h_hash (vb_info a_block) = 0 \<or> h_hash (vb_info a_block) = 1 \<or>
    (\<exists>c. node_runs a_node trusting 1 [] a_genesis 131072 c \<and> m_lastBlockNumber c = 1
       \<and> m_lastBlockHash c = h_hash (vb_info a_block) \<and> db_blockHashes c 1 = Some (h_hash (vb_info a_block)))"
proof (cases "h_hash (vb_info a_block) = 0 \<or> h_hash (vb_info a_block) = 1")
  case False
  then obtain c where c: "node_runs a_node trusting 1 [] a_genesis 131072 c" "m_lastBlockHash c = h_hash (vb_info a_block)" "m_lastBlockNumber c = 1"
    using a_run by metis
  then show ?thesis using chain_reachable_ok [OF a_node_ok c(1)] by auto
qed blast



text \<open>C31: importing a block.  On a chain in a state that satisfies the invariant, importing a block in wire form whose
  number is below \<open>2 ^ 28\<close> and whose hash
  is neither zero nor that of a known block ends, with \<^verbatim>\<open>Elhash::verify\<close> as the verifier and the enactment
  of blocks (\<^verbatim>\<open>Block::enactOn\<close>) as a parameter that only reads the chain, ends, and returns the block's
  difficulty (\<open>enactor_ok\<close>); the invariant holds after it, and if no block was heavier than the
  head, none is after it.  If it fails, one of the checks in front of the first write has failed with that error, and only the caches have
  been filled; if it succeeds, the known blocks are
  those before and the new one, below its parent, with the parent's total difficulty and its own, the head is the old one
  or the new block, and the route names exactly the blocks that left the canonical chain and those that
  joined it.\<close>

theorem import_canonical:
  assumes "se_verify E = elhash_verify P F m" and "enactor_ok enactOn" and "chain_inv c"
    and "wire_block vb" and "unat (h_number (vb_info vb)) < 2 ^ 28"
  shows "h_hash (vb_info vb) = 0 \<or> known c (h_hash (vb_info vb)) \<or>
    (\<exists>r c'. import_block E enactOn now mustBeNew vb c = Some (r, c') \<and> chain_inv c' \<and> (best_ok c \<longrightarrow> best_ok c') \<and>
      (case r of Inl e \<Rightarrow> reads c c' \<and> import_checks E enactOn now mustBeNew vb c = Some (Inl e, c')
       | Inr route \<Rightarrow> imported vb (td c (h_parentHash (vb_info vb)) + h_difficulty (vb_info vb)) c c' route))"
proof (cases "h_hash (vb_info vb) = 0 \<or> known c (h_hash (vb_info vb))")
  case False
  then show ?thesis
    using import_block_ok [OF elhash_engine_ok [OF assms(1,2)] assms(3) wire_blockD(1) [OF assms(4)] assms(5) wire_blockD(2) [OF assms(4)],
        where now = now and mustBeNew = mustBeNew] by blast
qed blast

theorem import_canonical_witness:
  "let c = chain_open 131072 (blank 1 [] a_genesis) in
    h_hash (vb_info a_block) = 0 \<or> known c (h_hash (vb_info a_block)) \<or> h_hash (vb_info a_block) = 1 \<or>
    (\<exists>route c'. import_block a_node trusting 100 True a_block c = Some (Inr route, c') \<and> chain_inv c' \<and> best_ok c'
       \<and> imported a_block (td c 1 + 131136) c c' route)"
  using import_canonical [OF a_node_ok(1,2) blank_inv(1) [OF a_node_ok(3)] a_block_wire(1), of 131072 "[]" 100 True]
    blank_inv(2) [OF a_node_ok(3), of 131072 "[]"] a_import unfolding Let_def a_block_wire by (fastforce split: sum.splits)

end
