(* ===== verification/Block_Queue.thy ===== *)
theory Block_Queue
  imports Block_Chain
begin

text \<open>
  \<^verbatim>\<open>libelementrem/BlockQueue.cpp\<close>, \<^verbatim>\<open>BlockQueue.h\<close>, \<^verbatim>\<open>VerifiedBlock.h\<close>: the queue between the network and the chain.
  Its operations hold the locks while they change the state, so each is one step; a verifier thread is two of them,
  with the block it verifies in between.  The chain \<open>c\<close> that the queue asks is constant to it.  Signals and log output
  are left out, but for the flags that decide whether a signal is sent; so is the check of \<^verbatim>\<open>invariants\<close> in front of the operations,
  which changes nothing where it holds.
\<close>

section \<open>State\<close>

datatype bq_result =
    BqSuccess | BqUnknownParent | BqFutureTimeKnown | BqFutureTimeUnknown | BqAlreadyInChain | BqAlreadyKnown | BqMalformed | BqBadChain

datatype QueueStatus = StatusReady | StatusImporting | StatusUnknownParent | StatusBad | StatusUnknown

record unverified_block =
  ub_hash :: h256
  ub_parentHash :: h256
  ub_block :: bytes

text \<open>\<^verbatim>\<open>VerifiedBlock\<close>; as long as \<^verbatim>\<open>blockData\<close> is empty the block is being verified, with its hash in the
  place of the hash of the uncles.\<close>

record queued_block =
  qb_verified :: verified_block
  qb_blockData :: bytes

text \<open>\<^verbatim>\<open>m_unknown\<close> in the order of an iteration over it.  The order after an insertion is a parameter of the operation.\<close>

record block_queue =
  m_drainingSet :: "h256 set"
  m_readySet :: "h256 set"
  m_unknownSet :: "h256 set"
  m_unknown :: "(h256 \<times> h256 \<times> bytes) list"
  m_knownBad :: "h256 set"
  m_future :: "(nat \<times> h256 \<times> bytes) list"
  m_verified :: "queued_block list"
  m_verifying :: "queued_block list"
  m_unverified :: "unverified_block list"
  m_unknownSize :: u64
  m_knownSize :: u64
  m_unknownCount :: u64
  m_knownCount :: u64
  m_difficulty :: u256
  m_drainingDifficulty :: u256

definition new_block_queue :: block_queue where
  "new_block_queue =
     \<lparr>m_drainingSet = {}, m_readySet = {}, m_unknownSet = {}, m_unknown = [], m_knownBad = {}, m_future = [], m_verified = [],
      m_verifying = [], m_unverified = [], m_unknownSize = 0, m_knownSize = 0, m_unknownCount = 0, m_knownCount = 0,
      m_difficulty = 0, m_drainingDifficulty = 0\<rparr>"

definition c_maxKnownCount :: nat where "c_maxKnownCount = 100000"
definition c_maxKnownSize :: nat where "c_maxKnownSize = 128 * 1024 * 1024"
definition c_maxUnknownCount :: nat where "c_maxUnknownCount = 100000"
definition c_maxUnknownSize :: nat where "c_maxUnknownSize = 512 * 1024 * 1024"

definition bq_clear :: "block_queue \<Rightarrow> block_queue" where
  "bq_clear q =
     q\<lparr>m_readySet := {}, m_drainingSet := {}, m_verified := [], m_unverified := [], m_verifying := [], m_unknownSet := {},
       m_unknown := [], m_future := [], m_unknownSize := 0, m_unknownCount := 0, m_knownSize := 0, m_knownCount := 0,
       m_difficulty := 0, m_drainingDifficulty := 0\<rparr>"

definition knownFull :: "block_queue \<Rightarrow> bool" where
  "knownFull q = (unat (m_knownSize q) > c_maxKnownSize \<or> unat (m_knownCount q) > c_maxKnownCount)"

definition unknownFull :: "block_queue \<Rightarrow> bool" where
  "unknownFull q = (unat (m_unknownSize q) > c_maxUnknownSize \<or> unat (m_unknownCount q) > c_maxUnknownCount)"

definition blockStatus :: "h256 \<Rightarrow> block_queue \<Rightarrow> QueueStatus" where
  "blockStatus h q =
     (if h \<in> m_readySet q then StatusReady
      else if h \<in> m_drainingSet q then StatusImporting
      else if h \<in> m_unknownSet q then StatusUnknownParent
      else if h \<in> m_knownBad q then StatusBad
      else StatusUnknown)"

definition bq_isActive :: "block_queue \<Rightarrow> bool" where
  "bq_isActive q =
     (\<not> (m_readySet q = {} \<and> m_drainingSet q = {} \<and> m_verified q = [] \<and> m_verifying q = [] \<and> m_unverified q = []))"

definition bq_items :: "block_queue \<Rightarrow> nat \<times> nat" where
  "bq_items q = (as32 (card (m_readySet q)), as32 (card (m_unknownSet q)))"

text \<open>\<^verbatim>\<open>status\<close>: importing, verified, verifying, unverified, future, unknown, bad.\<close>

definition bq_status :: "block_queue \<Rightarrow> nat list" where
  "bq_status q =
     [card (m_drainingSet q), length (m_verified q), length (m_verifying q), length (m_unverified q), length (m_future q),
      length (m_unknown q), card (m_knownBad q)]"

text \<open>The test of \<^verbatim>\<open>invariants\<close>.\<close>

definition bq_invariants :: "block_queue \<Rightarrow> bool" where
  "bq_invariants q = (card (m_readySet q) = length (m_verified q) + length (m_unverified q) + length (m_verifying q))"

section \<open>Blocks whose parent is not known\<close>

definition equal_range :: "h256 \<Rightarrow> block_queue \<Rightarrow> (h256 \<times> h256 \<times> bytes) list" where
  "equal_range p q = filter (\<lambda>e. fst e = p) (m_unknown q)"

definition erase_range :: "h256 \<Rightarrow> block_queue \<Rightarrow> block_queue" where
  "erase_range p q = q\<lparr>m_unknown := filter (\<lambda>e. fst e \<noteq> p) (m_unknown q)\<rparr>"

lemma range_split: "length (equal_range p q) + length (m_unknown (erase_range p q')) = length (m_unknown q)" if "m_unknown q' = m_unknown q"
  using sum_length_filter_compl [of "\<lambda>e. fst e = p" "m_unknown q"] that by (simp add: equal_range_def erase_range_def)

fun bad_range :: "(h256 \<times> h256 \<times> bytes) list \<Rightarrow> block_queue \<Rightarrow> block_queue" where
  "bad_range [] q = q"
| "bad_range ((p, newBad, b) # es) q =
     bad_range es (q\<lparr>m_unknownSize := m_unknownSize q - word_of_nat (length b), m_unknownCount := m_unknownCount q - 1,
       m_unknownSet := m_unknownSet q - {newBad}, m_knownBad := insert newBad (m_knownBad q)\<rparr>)"

lemma bad_range_unknown [simp]: "m_unknown (bad_range es q) = m_unknown q"
  by (induction es q rule: bad_range.induct) simp_all

function collect_loop :: "h256 list \<Rightarrow> block_queue \<Rightarrow> block_queue" where
  "collect_loop [] q = q"
| "collect_loop (p # badQueue) q =
     (let r = equal_range p q in collect_loop (badQueue @ map (fst \<circ> snd) r) (erase_range p (bad_range r q)))"
  by pat_completeness auto
termination
  by (relation "measure (\<lambda>(badQueue, q). length badQueue + length (m_unknown q))")
    (auto simp: Let_def range_split)

definition collectUnknownBad_WITH_BOTH_LOCKS :: "h256 \<Rightarrow> block_queue \<Rightarrow> block_queue" where
  "collectUnknownBad_WITH_BOTH_LOCKS bad q = collect_loop [bad] q"

fun ready_range :: "(h256 \<times> h256 \<times> bytes) list \<Rightarrow> block_queue \<Rightarrow> block_queue" where
  "ready_range [] q = q"
| "ready_range ((p, newReady, b) # es) q =
     ready_range es (q\<lparr>m_unverified := m_unverified q @ [\<lparr>ub_hash = newReady, ub_parentHash = p, ub_block = b\<rparr>],
       m_knownSize := m_knownSize q + word_of_nat (length b), m_knownCount := m_knownCount q + 1,
       m_unknownSize := m_unknownSize q - word_of_nat (length b), m_unknownCount := m_unknownCount q - 1,
       m_unknownSet := m_unknownSet q - {newReady}, m_readySet := insert newReady (m_readySet q)\<rparr>)"

lemma ready_range_unknown [simp]: "m_unknown (ready_range es q) = m_unknown q"
  by (induction es q rule: ready_range.induct) simp_all

function ready_loop :: "h256 list \<Rightarrow> block_queue \<Rightarrow> block_queue" where
  "ready_loop [] q = q"
| "ready_loop (p # goodQueue) q =
     (let r = equal_range p q in ready_loop (goodQueue @ map (fst \<circ> snd) r) (erase_range p (ready_range r q)))"
  by pat_completeness auto
termination
  by (relation "measure (\<lambda>(goodQueue, q). length goodQueue + length (m_unknown q))")
    (auto simp: Let_def range_split)

definition noteReady_WITH_LOCK :: "h256 \<Rightarrow> block_queue \<Rightarrow> block_queue" where
  "noteReady_WITH_LOCK good q = ready_loop [good] q"

fun retry_loop :: "(h256 \<times> h256 \<times> bytes) list \<Rightarrow> block_queue \<Rightarrow> block_queue" where
  "retry_loop [] q = q"
| "retry_loop ((p, newReady, b) # es) q =
     retry_loop es (q\<lparr>m_unverified := m_unverified q @ [\<lparr>ub_hash = newReady, ub_parentHash = p, ub_block = b\<rparr>],
       m_unknownSet := m_unknownSet q - {newReady}, m_readySet := insert newReady (m_readySet q), m_knownCount := m_knownCount q + 1\<rparr>)"

definition retryAllUnknown :: "block_queue \<Rightarrow> block_queue" where
  "retryAllUnknown q =
     (let q = retry_loop (m_unknown q) q in
      q\<lparr>m_unknown := [], m_knownSize := m_knownSize q + m_unknownSize q, m_unknownSize := 0, m_unknownCount := 0\<rparr>)"

section \<open>Bad blocks\<close>

text \<open>The passes of \<^verbatim>\<open>updateBad_WITH_LOCK\<close> over the three lists; each says whether it found a bad block.\<close>

definition note_bad :: "h256 \<Rightarrow> block_queue \<Rightarrow> block_queue" where
  "note_bad h q =
     collectUnknownBad_WITH_BOTH_LOCKS h (q\<lparr>m_knownBad := insert h (m_knownBad q), m_readySet := m_readySet q - {h}\<rparr>)"

fun bad_verified :: "queued_block list \<Rightarrow> block_queue \<Rightarrow> bool \<times> block_queue" where
  "bad_verified [] q = (False, q)"
| "bad_verified (b # bs) q =
     (let i = vb_info (qb_verified b) in
      if h_parentHash i \<in> m_knownBad q \<or> h_hash i \<in> m_knownBad q then (True, snd (bad_verified bs (note_bad (h_hash i) q)))
      else bad_verified bs (q\<lparr>m_verified := m_verified q @ [b]\<rparr>))"

fun bad_unverified :: "unverified_block list \<Rightarrow> block_queue \<Rightarrow> bool \<times> block_queue" where
  "bad_unverified [] q = (False, q)"
| "bad_unverified (b # bs) q =
     (if ub_parentHash b \<in> m_knownBad q \<or> ub_hash b \<in> m_knownBad q then (True, snd (bad_unverified bs (note_bad (ub_hash b) q)))
      else bad_unverified bs (q\<lparr>m_unverified := m_unverified q @ [b]\<rparr>))"

definition job_hash :: "queued_block \<Rightarrow> h256" where
  "job_hash b = (if length (qb_blockData b) \<noteq> 0 then h_hash (vb_info (qb_verified b)) else h_sha3Uncles (vb_info (qb_verified b)))"

fun bad_verifying :: "queued_block list \<Rightarrow> block_queue \<Rightarrow> bool \<times> block_queue" where
  "bad_verifying [] q = (False, q)"
| "bad_verifying (b # bs) q =
     (let i = vb_info (qb_verified b) in
      if h_parentHash i \<in> m_knownBad q \<or> h_sha3Uncles i \<in> m_knownBad q then (True, snd (bad_verifying bs (note_bad (job_hash b) q)))
      else bad_verifying bs (q\<lparr>m_verifying := m_verifying q @ [b]\<rparr>))"

definition bad_pass :: "block_queue \<Rightarrow> bool \<times> block_queue" where
  "bad_pass q =
     (let (m1, q) = bad_verified (m_verified q) (q\<lparr>m_verified := []\<rparr>);
          (m2, q) = bad_unverified (m_unverified q) (q\<lparr>m_unverified := []\<rparr>);
          (m3, q) = bad_verifying (m_verifying q) (q\<lparr>m_verifying := []\<rparr>)
      in (m1 \<or> m2 \<or> m3, q))"

text \<open>Every pass that finds a bad block shortens the lists.\<close>

definition queued :: "block_queue \<Rightarrow> nat" where
  "queued q = length (m_verified q) + length (m_unverified q) + length (m_verifying q)"

lemma bad_range_lists [simp]:
  "m_verified (bad_range es q) = m_verified q" "m_verifying (bad_range es q) = m_verifying q" "m_unverified (bad_range es q) = m_unverified q"
  "m_readySet (bad_range es q) = m_readySet q" "m_drainingSet (bad_range es q) = m_drainingSet q" "m_future (bad_range es q) = m_future q"
  by (induction es q rule: bad_range.induct) simp_all

lemma collect_lists:
  "m_verified (collect_loop ps q) = m_verified q" "m_verifying (collect_loop ps q) = m_verifying q"
  "m_unverified (collect_loop ps q) = m_unverified q" "m_readySet (collect_loop ps q) = m_readySet q"
  "m_drainingSet (collect_loop ps q) = m_drainingSet q" "m_future (collect_loop ps q) = m_future q"
  by (induction ps q rule: collect_loop.induct) (simp_all add: Let_def erase_range_def)

declare collect_loop.simps [simp del] ready_loop.simps [simp del]

lemma note_bad_lists [simp]:
  "m_verified (note_bad h q) = m_verified q" "m_verifying (note_bad h q) = m_verifying q" "m_unverified (note_bad h q) = m_unverified q"
  "m_readySet (note_bad h q) = m_readySet q - {h}" "m_drainingSet (note_bad h q) = m_drainingSet q" "m_future (note_bad h q) = m_future q"
  by (simp_all add: note_bad_def collectUnknownBad_WITH_BOTH_LOCKS_def collect_lists)

lemma bad_verified_frame [simp]:
  "m_unverified (snd (bad_verified bs q)) = m_unverified q" "m_verifying (snd (bad_verified bs q)) = m_verifying q"
  by (induction bs arbitrary: q) (simp_all add: Let_def)

lemma bad_unverified_frame [simp]:
  "m_verified (snd (bad_unverified bs q)) = m_verified q" "m_verifying (snd (bad_unverified bs q)) = m_verifying q"
  by (induction bs arbitrary: q) simp_all

lemma bad_verifying_frame [simp]:
  "m_verified (snd (bad_verifying bs q)) = m_verified q" "m_unverified (snd (bad_verifying bs q)) = m_unverified q"
  by (induction bs arbitrary: q) (simp_all add: Let_def)

lemma bad_verified_length:
  "length (m_verified (snd (bad_verified bs q))) + (if fst (bad_verified bs q) then 1 else 0) \<le> length (m_verified q) + length bs"
proof (induction bs arbitrary: q)
  case (Cons b bs)
  show ?case using Cons [of "note_bad (h_hash (vb_info (qb_verified b))) q"] Cons [of "q\<lparr>m_verified := m_verified q @ [b]\<rparr>"]
    by (auto simp: Let_def split: if_splits)
qed simp

lemma bad_unverified_length:
  "length (m_unverified (snd (bad_unverified bs q))) + (if fst (bad_unverified bs q) then 1 else 0) \<le> length (m_unverified q) + length bs"
proof (induction bs arbitrary: q)
  case (Cons b bs)
  show ?case using Cons [of "note_bad (ub_hash b) q"] Cons [of "q\<lparr>m_unverified := m_unverified q @ [b]\<rparr>"] by (auto split: if_splits)
qed simp

lemma bad_verifying_length:
  "length (m_verifying (snd (bad_verifying bs q))) + (if fst (bad_verifying bs q) then 1 else 0) \<le> length (m_verifying q) + length bs"
proof (induction bs arbitrary: q)
  case (Cons b bs)
  show ?case using Cons [of "note_bad (job_hash b) q"] Cons [of "q\<lparr>m_verifying := m_verifying q @ [b]\<rparr>"]
    by (auto simp: Let_def split: if_splits)
qed simp

lemma bad_pass_shorter: "queued (snd (bad_pass q)) + (if fst (bad_pass q) then 1 else 0) \<le> queued q"
proof -
  obtain m1 q1 where p1: "bad_verified (m_verified q) (q\<lparr>m_verified := []\<rparr>) = (m1, q1)" by (metis surj_pair)
  obtain m2 q2 where p2: "bad_unverified (m_unverified q1) (q1\<lparr>m_unverified := []\<rparr>) = (m2, q2)" by (metis surj_pair)
  obtain m3 q3 where p3: "bad_verifying (m_verifying q2) (q2\<lparr>m_verifying := []\<rparr>) = (m3, q3)" by (metis surj_pair)
  have f: "m_unverified q1 = m_unverified q" "m_verifying q1 = m_verifying q" "m_verified q2 = m_verified q1" "m_verifying q2 = m_verifying q1"
    "m_verified q3 = m_verified q2" "m_unverified q3 = m_unverified q2"
    using bad_verified_frame [of "m_verified q" "q\<lparr>m_verified := []\<rparr>", unfolded p1]
      bad_unverified_frame [of "m_unverified q1" "q1\<lparr>m_unverified := []\<rparr>", unfolded p2]
      bad_verifying_frame [of "m_verifying q2" "q2\<lparr>m_verifying := []\<rparr>", unfolded p3] by simp_all
  show ?thesis
    using bad_verified_length [of "m_verified q" "q\<lparr>m_verified := []\<rparr>"] bad_unverified_length [of "m_unverified q1" "q1\<lparr>m_unverified := []\<rparr>"]
      bad_verifying_length [of "m_verifying q2" "q2\<lparr>m_verifying := []\<rparr>"]
    unfolding p1 p2 p3 by (simp add: bad_pass_def queued_def p1 p2 p3 [unfolded f] p2 [unfolded f] f split: if_splits)
qed

function bad_loop :: "block_queue \<Rightarrow> block_queue" where
  "bad_loop q = (let (moreBad, q') = bad_pass q in if moreBad then bad_loop q' else q')"
  by pat_completeness auto
termination
proof (relation "measure queued", simp)
  fix q :: block_queue and x m q' assume "x = bad_pass q" "(m, q') = x" "m"
  then show "(q', q) \<in> measure queued" using bad_pass_shorter [of q] by (metis add.commute fst_conv in_measure less_eq_Suc_le plus_1_eq_Suc snd_conv)
qed

declare bad_loop.simps [simp del]

definition updateBad_WITH_LOCK :: "h256 \<Rightarrow> block_queue \<Rightarrow> block_queue" where
  "updateBad_WITH_LOCK bad q = bad_loop (collectUnknownBad_WITH_BOTH_LOCKS bad q)"

section \<open>Verifiers\<close>

fun drain_loop :: "queued_block list \<Rightarrow> block_queue \<Rightarrow> block_queue" where
  "drain_loop [] q = q\<lparr>m_verifying := []\<rparr>"
| "drain_loop (v # vs) q =
     (if qb_blockData v = [] then q\<lparr>m_verifying := v # vs\<rparr>
      else
        let i = vb_info (qb_verified v) in
        if h_parentHash i \<in> m_knownBad q
        then drain_loop vs (q\<lparr>m_readySet := m_readySet q - {h_hash i}, m_knownBad := insert (h_hash i) (m_knownBad q)\<rparr>)
        else drain_loop vs (q\<lparr>m_verified := m_verified q @ [v]\<rparr>))"

definition drainVerified_WITH_BOTH_LOCKS :: "block_queue \<Rightarrow> block_queue" where
  "drainVerified_WITH_BOTH_LOCKS q = drain_loop (m_verifying q) q"

text \<open>A verifier takes the first block, and puts a header with its hash and the parent's in the list.\<close>

definition placeholder :: "unverified_block \<Rightarrow> queued_block" where
  "placeholder w =
     \<lparr>qb_verified = \<lparr>vb_block = [], vb_info = new_header\<lparr>h_sha3Uncles := ub_hash w, h_parentHash := ub_parentHash w\<rparr>, vb_transactions = []\<rparr>,
      qb_blockData = []\<rparr>"

definition verifier_take :: "block_queue \<Rightarrow> (unverified_block \<times> block_queue) option" where
  "verifier_take q =
     (case m_unverified q of
        [] \<Rightarrow> None
      | w # ws \<Rightarrow> Some (w, q\<lparr>m_unverified := ws, m_verifying := m_verifying q @ [placeholder w]\<rparr>))"

definition named :: "h256 \<Rightarrow> queued_block \<Rightarrow> bool" where
  "named h v = (h_sha3Uncles (vb_info (qb_verified v)) = h)"

definition erase_job :: "h256 \<Rightarrow> queued_block list \<Rightarrow> queued_block list" where
  "erase_job h vs = takeWhile (\<lambda>v. \<not> named h v) vs @ tl (dropWhile (\<lambda>v. \<not> named h v) vs)"

definition fill_job :: "h256 \<Rightarrow> queued_block \<Rightarrow> queued_block list \<Rightarrow> queued_block list" where
  "fill_job h res vs =
     (case dropWhile (\<lambda>v. \<not> named h v) vs of [] \<Rightarrow> vs | v # ws \<Rightarrow> takeWhile (\<lambda>v. \<not> named h v) vs @ res # ws)"

definition verifier_bad :: "unverified_block \<Rightarrow> block_queue \<Rightarrow> block_queue" where
  "verifier_bad w q =
     drainVerified_WITH_BOTH_LOCKS
       (q\<lparr>m_readySet := m_readySet q - {ub_hash w}, m_knownBad := insert (ub_hash w) (m_knownBad q),
          m_verifying := erase_job (ub_hash w) (m_verifying q)\<rparr>)"

text \<open>The flag says whether \<^verbatim>\<open>m_onReady\<close> is called.\<close>

definition verifier_good :: "unverified_block \<Rightarrow> verified_block \<Rightarrow> block_queue \<Rightarrow> bool \<times> block_queue" where
  "verifier_good w vb q =
     (let res = \<lparr>qb_verified = vb, qb_blockData = ub_block w\<rparr>; i = vb_info vb in
      if m_verifying q \<noteq> [] \<and> named (ub_hash w) (hd (m_verifying q)) then
        let q = q\<lparr>m_verifying := tl (m_verifying q)\<rparr>;
            q = (if h_parentHash i \<in> m_knownBad q
                 then q\<lparr>m_readySet := m_readySet q - {h_hash i}, m_knownBad := insert (h_hash i) (m_knownBad q)\<rparr>
                 else q\<lparr>m_verified := m_verified q @ [res]\<rparr>)
        in (True, drainVerified_WITH_BOTH_LOCKS q)
      else (False, q\<lparr>m_verifying := fill_job (ub_hash w) res (m_verifying q)\<rparr>))"

definition verifier_finish :: "seal_engine \<Rightarrow> chain \<Rightarrow> unverified_block \<Rightarrow> block_queue \<Rightarrow> (bool \<times> block_queue) option" where
  "verifier_finish E c w q =
     (case verifyBlock E (ub_block w) OutOfOrderChecks c of
        None \<Rightarrow> None
      | Some (Inl _, _) \<Rightarrow> Some (False, verifier_bad w q)
      | Some (Inr vb, _) \<Rightarrow> Some (verifier_good w vb q))"

section \<open>Import\<close>

text \<open>\<^verbatim>\<open>multimap::insert\<close> puts a new element behind those with the same key.\<close>

definition future_insert :: "nat \<times> h256 \<times> bytes \<Rightarrow> (nat \<times> h256 \<times> bytes) list \<Rightarrow> (nat \<times> h256 \<times> bytes) list" where
  "future_insert e fs = takeWhile (\<lambda>f. fst f \<le> fst e) fs @ e # dropWhile (\<lambda>f. fst f \<le> fst e) fs"

definition unknown_parent :: "chain \<Rightarrow> h256 \<Rightarrow> block_queue \<Rightarrow> bool" where
  "unknown_parent c p q = (p \<notin> m_readySet q \<and> p \<notin> m_drainingSet q \<and> \<not> fst (isKnown p True c))"

definition bq_import ::
  "((h256 \<times> h256 \<times> bytes) list \<Rightarrow> (h256 \<times> h256 \<times> bytes) list) \<Rightarrow> seal_engine \<Rightarrow> chain \<Rightarrow> u256 \<Rightarrow> bool \<Rightarrow> bytes \<Rightarrow> block_queue
    \<Rightarrow> ((block_error + bq_result) \<times> block_queue) option" where
  "bq_import order E c now isOurs b q =
     (case headerHashFromBlock b of
        Inl e \<Rightarrow> Some (Inl e, q)
      | Inr h \<Rightarrow>
          if h \<in> m_readySet q \<or> h \<in> m_drainingSet q \<or> h \<in> m_unknownSet q \<or> h \<in> m_knownBad q then Some (Inr BqAlreadyKnown, q)
          else
            (case verifyBlock E b PostGenesis c of
               None \<Rightarrow> None
             | Some (Inl _, _) \<Rightarrow> Some (Inr BqMalformed, q)
             | Some (Inr vb, _) \<Rightarrow>
                 let bi = vb_info vb; p = h_parentHash bi; n = word_of_nat (length b) in
                 if fst (isKnown h True c) then Some (Inr BqAlreadyInChain, q)
                 else if h_timestamp bi > now \<and> \<not> isOurs then
                   Some (Inr (if unknown_parent c p q then BqFutureTimeUnknown else BqFutureTimeKnown),
                     q\<lparr>m_future := future_insert (as32 (unat (h_timestamp bi)), h, b) (m_future q), m_unknownSize := m_unknownSize q + n,
                       m_unknownCount := m_unknownCount q + 1, m_difficulty := m_difficulty q + h_difficulty bi\<rparr>)
                 else if p \<in> m_knownBad q then
                   Some (Inr BqBadChain, updateBad_WITH_LOCK (h_hash bi) (q\<lparr>m_knownBad := insert (h_hash bi) (m_knownBad q)\<rparr>))
                 else if unknown_parent c p q then
                   Some (Inr BqUnknownParent,
                     q\<lparr>m_unknown := order (m_unknown q @ [(p, h, b)]), m_unknownSet := insert h (m_unknownSet q),
                       m_unknownSize := m_unknownSize q + n, m_difficulty := m_difficulty q + h_difficulty bi,
                       m_unknownCount := m_unknownCount q + 1\<rparr>)
                 else
                   Some (Inr BqSuccess,
                     noteReady_WITH_LOCK h
                       (q\<lparr>m_unverified := m_unverified q @ [\<lparr>ub_hash = h, ub_parentHash = p, ub_block = b\<rparr>],
                          m_readySet := insert h (m_readySet q), m_knownSize := m_knownSize q + n,
                          m_difficulty := m_difficulty q + h_difficulty bi, m_knownCount := m_knownCount q + 1\<rparr>))))"

fun take_futures :: "(nat \<times> h256 \<times> bytes) list \<Rightarrow> block_queue \<Rightarrow> block_queue" where
  "take_futures [] q = q"
| "take_futures ((t, h, b) # es) q =
     take_futures es (q\<lparr>m_unknownSize := m_unknownSize q - word_of_nat (length b), m_unknownCount := m_unknownCount q - 1\<rparr>)"

text \<open>The first part of \<^verbatim>\<open>tick\<close>, with the lock; \<open>t\<close> is \<^verbatim>\<open>utcTime()\<close>.\<close>

definition tick_take :: "nat \<Rightarrow> block_queue \<Rightarrow> bytes list \<times> block_queue" where
  "tick_take t q =
     (if m_future q = [] \<or> t < fst (hd (m_future q)) then ([], q)
      else
        let todo = takeWhile (\<lambda>f. fst f \<le> as32 t) (m_future q); q = take_futures todo q
        in (map (snd \<circ> snd) todo, q\<lparr>m_future := dropWhile (\<lambda>f. fst f \<le> as32 t) (m_future q)\<rparr>))"

text \<open>The second part imports the blocks one by one, without the lock in between; \<open>utc\<close> are the values of \<^verbatim>\<open>utcTime()\<close> there.  An
  exception ends it.\<close>

fun import_all ::
  "((h256 \<times> h256 \<times> bytes) list \<Rightarrow> (h256 \<times> h256 \<times> bytes) list) \<Rightarrow> seal_engine \<Rightarrow> chain \<Rightarrow> (bytes \<times> u256) list \<Rightarrow> block_queue
    \<Rightarrow> ((block_error + unit) \<times> block_queue) option" where
  "import_all order E c [] q = Some (Inr (), q)"
| "import_all order E c ((b, now) # bs) q =
     (case bq_import order E c now False b q of
        None \<Rightarrow> None
      | Some (Inl e, q) \<Rightarrow> Some (Inl e, q)
      | Some (Inr _, q) \<Rightarrow> import_all order E c bs q)"

definition bq_tick ::
  "((h256 \<times> h256 \<times> bytes) list \<Rightarrow> (h256 \<times> h256 \<times> bytes) list) \<Rightarrow> seal_engine \<Rightarrow> chain \<Rightarrow> nat \<Rightarrow> (nat \<Rightarrow> u256) \<Rightarrow> block_queue
    \<Rightarrow> ((block_error + unit) \<times> block_queue) option" where
  "bq_tick order E c t utc q =
     (let (todo, q) = tick_take t q in import_all order E c (zip todo (map utc [0..<length todo])) q)"

section \<open>Draining\<close>

fun drain_notes :: "queued_block list \<Rightarrow> block_queue \<Rightarrow> block_queue" where
  "drain_notes [] q = q"
| "drain_notes (b # bs) q =
     (let i = vb_info (qb_verified b) in
      drain_notes bs (q\<lparr>m_drainingSet := insert (h_hash i) (m_drainingSet q), m_drainingDifficulty := m_drainingDifficulty q + h_difficulty i,
        m_readySet := m_readySet q - {h_hash i}, m_knownSize := m_knownSize q - word_of_nat (length (vb_block (qb_verified b))),
        m_knownCount := m_knownCount q - 1\<rparr>))"

text \<open>The blocks, the flag for \<^verbatim>\<open>m_onRoomAvailable\<close>, the queue; \<open>o_out\<close> is what it holds before.\<close>

definition bq_drain :: "queued_block list \<Rightarrow> nat \<Rightarrow> block_queue \<Rightarrow> queued_block list \<times> bool \<times> block_queue" where
  "bq_drain o_out n_max q =
     (let wasFull = knownFull q;
          (out, q) =
            (if m_drainingSet q = {} then
               let n = min n_max (as32 (length (m_verified q))); out = take n (m_verified q)
               in (out, drain_notes out (q\<lparr>m_drainingDifficulty := 0, m_verified := drop n (m_verified q)\<rparr>))
             else (o_out, q))
      in (out, wasFull \<and> \<not> knownFull q, q))"

fun updateBads :: "h256 list \<Rightarrow> block_queue \<Rightarrow> block_queue" where
  "updateBads [] q = q"
| "updateBads (b # bs) q = updateBads bs (updateBad_WITH_LOCK b q)"

definition doneDrain :: "h256 list \<Rightarrow> block_queue \<Rightarrow> bool \<times> block_queue" where
  "doneDrain bad q =
     (let q = q\<lparr>m_drainingSet := {}, m_difficulty := m_difficulty q - m_drainingDifficulty q, m_drainingDifficulty := 0\<rparr>;
          q = (if bad \<noteq> [] then updateBads bad (q\<lparr>m_knownBad := m_knownBad q \<union> set bad\<rparr>) else q)
      in (m_readySet q \<noteq> {}, q))"

end
