(* ===== verification/Block_Queue_Safe.thy ===== *)
theory Block_Queue_Safe
  imports Block_Queue Wire_Block "HOL-Library.Multiset"
begin

text \<open>
  The invariant of the block queue over every sequence of operations and every interleaving of the verifier threads,
  and what the code does where its own bookkeeping is wrong.
\<close>

section \<open>Headers of queued blocks\<close>

lemma verifyBlock_header:
  assumes "verifyBlock E b ir c = Some (Inr vb, c')"
  shows "vb_block vb = b" and "header_new b BlockData 0 = Inr (vb_info vb)"
proof -
  obtain h where h: "header_new b BlockData 0 = Inr h"
    using assms by (cases "header_new b BlockData 0") (auto simp: verifyBlock_def act_bind_def act_blk_def)
  have "vb_block vb = b \<and> vb_info vb = h"
    using assms unfolding verifyBlock_def
    by (simp add: act_bind_def act_blk_def h act_throw_def act_ret_def split: if_splits option.splits prod.splits sum.splits) auto
  then show "vb_block vb = b" and "header_new b BlockData 0 = Inr (vb_info vb)" using h by simp_all
qed

lemma hfield_Inr: "hfield d i conv c k = Inr x \<Longrightarrow> \<exists>v c'. k v c' = Inr x"
  by (auto simp: hfield_def field_def header_fail_def split: prod.splits sum.splits if_splits)

lemma populate_hash: "header_populate d hash = Inr hx \<Longrightarrow> h_hash hx = hash"
  unfolding header_populate_def by (auto dest!: hfield_Inr simp: header_fail_def res_bind_Inr_iff split: sum.splits)

lemma header_hash_block:
  assumes "header_new b BlockData 0 = Inr hx" shows "headerHashFromBlock b = Inr (h_hash hx)" and "b \<noteq> []"
proof -
  obtain d where d: "extractHeader b = Inr d" "header_populate d (sha3 d) = Inr hx"
    using assms by (auto simp: header_new_def res_bind_Inr_iff)
  obtain r where r: "rlp_new b VeryStrict = Inr r" "isList r" "rlp_nth r 0 = Inr d"
    using d(1) unfolding extractHeader_def field_def rlp_nth_def
    by (auto simp: res_bind_Inr_iff blk_rlp_def split: sum.splits prod.splits if_splits)
  show "headerHashFromBlock b = Inr (h_hash hx)" using populate_hash [OF d(2)] by (simp add: headerHashFromBlock_def r)
  show "b \<noteq> []" using r by (auto simp: isList_def isNull_def)
qed

section \<open>The invariant\<close>

definition described :: "h256 \<Rightarrow> h256 \<Rightarrow> bytes \<Rightarrow> bool" where
  "described p h b = (\<exists>hx. header_new b BlockData 0 = Inr hx \<and> h_hash hx = h \<and> h_parentHash hx = p)"

definition done_ok :: "queued_block \<Rightarrow> bool" where
  "done_ok v = (qb_blockData v \<noteq> [] \<and> vb_block (qb_verified v) = qb_blockData v
     \<and> header_new (qb_blockData v) BlockData 0 = Inr (vb_info (qb_verified v)))"

text \<open>The hashes of the blocks in the three lists, those of the blocks whose parent is unknown.\<close>

definition ready_hashes :: "block_queue \<Rightarrow> h256 list" where
  "ready_hashes q = map job_hash (m_verified q @ m_verifying q) @ map ub_hash (m_unverified q)"

definition unknown_hashes :: "block_queue \<Rightarrow> h256 list" where
  "unknown_hashes q = map (fst \<circ> snd) (m_unknown q)"

definition lists_ok :: "block_queue \<Rightarrow> bool" where
  "lists_ok q = (list_all done_ok (m_verified q) \<and> list_all (\<lambda>v. qb_blockData v \<noteq> [] \<longrightarrow> done_ok v) (m_verifying q)
     \<and> list_all (\<lambda>w. described (ub_parentHash w) (ub_hash w) (ub_block w)) (m_unverified q)
     \<and> list_all (\<lambda>(p, h, b). described p h b) (m_unknown q))"

definition ready_ok :: "block_queue \<Rightarrow> bool" where
  "ready_ok q = (distinct (ready_hashes q) \<and> set (ready_hashes q) = m_readySet q)"

definition unknown_ok :: "block_queue \<Rightarrow> bool" where
  "unknown_ok q = (distinct (unknown_hashes q) \<and> set (unknown_hashes q) = m_unknownSet q)"

definition sets_ok :: "block_queue \<Rightarrow> bool" where
  "sets_ok q = (m_readySet q \<inter> m_unknownSet q = {} \<and> m_drainingSet q \<inter> (m_readySet q \<union> m_unknownSet q) = {})"

text \<open>\<open>js\<close> are the blocks that verifiers have taken.  A block that has been found bad meanwhile has no entry any more.\<close>

definition jobs_ok :: "unverified_block list \<Rightarrow> block_queue \<Rightarrow> bool" where
  "jobs_ok js q = (distinct (map ub_hash js)
     \<and> list_all (\<lambda>w. described (ub_parentHash w) (ub_hash w) (ub_block w)) js
     \<and> (\<forall>v \<in> set (m_verifying q). qb_blockData v = [] \<longrightarrow> v \<in> placeholder ` set js)
     \<and> (\<forall>w \<in> set js. placeholder w \<in> set (m_verifying q)
          \<or> ub_hash w \<in> m_knownBad q \<and> ub_hash w \<notin> m_readySet q \<and> ub_hash w \<notin> m_unknownSet q))"

definition bq_inv :: "unverified_block list \<Rightarrow> block_queue \<Rightarrow> bool" where
  "bq_inv js q = (lists_ok q \<and> ready_ok q \<and> unknown_ok q \<and> sets_ok q \<and> jobs_ok js q)"

text \<open>The counters of the blocks that wait, for their parent or for their time.\<close>

definition unknown_bytes :: "block_queue \<Rightarrow> nat" where
  "unknown_bytes q = sum_list (map (length \<circ> snd \<circ> snd) (m_unknown q)) + sum_list (map (length \<circ> snd \<circ> snd) (m_future q))"

definition counted :: "block_queue \<Rightarrow> bool" where
  "counted q = (m_unknownCount q = word_of_nat (length (m_unknown q) + length (m_future q)) \<and> m_unknownSize q = word_of_nat (unknown_bytes q))"

section \<open>Removal of bad blocks\<close>

text \<open>\<open>culls R q q'\<close>: the blocks with hashes in \<open>R\<close> have gone from the lists as bad blocks, and some of those whose parent is
  unknown.\<close>

definition culls :: "h256 set \<Rightarrow> block_queue \<Rightarrow> block_queue \<Rightarrow> bool" where
  "culls R q q' =
     (m_readySet q' = m_readySet q - R \<and> R \<subseteq> m_knownBad q' \<and> m_knownBad q \<subseteq> m_knownBad q'
      \<and> m_verified q' = filter (\<lambda>v. job_hash v \<notin> R) (m_verified q) \<and> m_verifying q' = filter (\<lambda>v. job_hash v \<notin> R) (m_verifying q)
      \<and> m_unverified q' = filter (\<lambda>w. ub_hash w \<notin> R) (m_unverified q)
      \<and> (\<exists>P. m_unknown q' = filter P (m_unknown q)) \<and> m_unknownSet q' \<subseteq> m_unknownSet q
      \<and> m_drainingSet q' = m_drainingSet q \<and> m_future q' = m_future q
      \<and> (unknown_ok q \<longrightarrow> unknown_ok q') \<and> (unknown_ok q \<longrightarrow> counted q \<longrightarrow> counted q'))"

lemma culls_refl: "culls {} q q"
  unfolding culls_def by (intro conjI exI [of _ "\<lambda>_. True"]) simp_all

lemma culls_trans: "culls R q q' \<Longrightarrow> culls S q' q'' \<Longrightarrow> culls (R \<union> S) q q''"
  unfolding culls_def by (elim conjE exE, intro conjI) (auto simp: conj_commute)

lemma set_filter_hash: "set (map f (filter (\<lambda>v. f v \<notin> R) xs)) = set (map f xs) - R"
  by auto

lemma ready_culls: "culls R q q' \<Longrightarrow> ready_hashes q' = filter (\<lambda>h. h \<notin> R) (ready_hashes q)"
  by (simp add: culls_def ready_hashes_def filter_map o_def)

lemma culls_inv:
  assumes c: "culls R q q'" and i: "bq_inv js q" shows "bq_inv js q'"
proof -
  have "lists_ok q'" using c i by (auto simp: bq_inv_def lists_ok_def culls_def list_all_iff)
  moreover have "ready_ok q'" using ready_culls [OF c] c i by (auto simp: bq_inv_def ready_ok_def culls_def)
  moreover have "unknown_ok q'" "sets_ok q'" using c i by (auto simp: bq_inv_def culls_def sets_ok_def)
  moreover have "jobs_ok js q'"
  proof -
    have "placeholder w \<in> set (m_verifying q') \<or> ub_hash w \<in> m_knownBad q' \<and> ub_hash w \<notin> m_readySet q' \<and> ub_hash w \<notin> m_unknownSet q'"
      if w: "w \<in> set js" for w
    proof (cases "placeholder w \<in> set (m_verifying q)")
      case True
      have h: "job_hash (placeholder w) = ub_hash w" by (simp add: job_hash_def placeholder_def)
      then have "ub_hash w \<in> set (ready_hashes q)" using True by (force simp: ready_hashes_def)
      then have "ub_hash w \<notin> m_unknownSet q" using i by (auto simp: bq_inv_def ready_ok_def sets_ok_def)
      then show ?thesis using c True h by (auto simp: culls_def)
    next
      case False
      then show ?thesis using w c i by (auto simp: bq_inv_def jobs_ok_def culls_def)
    qed
    then show ?thesis using c i by (auto simp: bq_inv_def jobs_ok_def culls_def)
  qed
  ultimately show ?thesis by (simp add: bq_inv_def)
qed

lemma culls_counted: "culls R q q' \<Longrightarrow> bq_inv js q \<Longrightarrow> counted q \<Longrightarrow> counted q'"
  by (simp add: culls_def bq_inv_def)

text \<open>The entries below a bad hash.\<close>

lemma bad_range_fields:
  "m_unknownSet (bad_range es q) = m_unknownSet q - set (map (fst \<circ> snd) es)"
  "m_knownBad (bad_range es q) = m_knownBad q \<union> set (map (fst \<circ> snd) es)"
  "m_unknownCount (bad_range es q) = m_unknownCount q - word_of_nat (length es)"
  "m_unknownSize (bad_range es q) = m_unknownSize q - word_of_nat (sum_list (map (length \<circ> snd \<circ> snd) es))"
  by (induction es q rule: bad_range.induct) auto

lemma sum_list_filter: "sum_list (map f (filter P xs)) + sum_list (map f (filter (\<lambda>x. \<not> P x) xs)) = sum_list (map f xs)" for f :: "'a \<Rightarrow> nat"
  by (induction xs) auto

lemma range_hashes:
  assumes "unknown_ok q"
  shows "set (map (fst \<circ> snd) (filter (\<lambda>e. fst e \<noteq> p) (m_unknown q))) = m_unknownSet q - set (map (fst \<circ> snd) (equal_range p q))"
proof -
  have "inj_on (fst \<circ> snd) (set (m_unknown q))" using assms by (simp add: unknown_ok_def unknown_hashes_def distinct_map)
  moreover have "m_unknownSet q = (fst \<circ> snd) ` set (m_unknown q)" using assms by (auto simp: unknown_ok_def unknown_hashes_def)
  ultimately show ?thesis unfolding equal_range_def by (auto simp: inj_on_def)
qed

lemma counted_range:
  assumes "counted q" and "m_unknown q' = filter (\<lambda>e. fst e \<noteq> p) (m_unknown q)" and "m_future q' = m_future q"
    and "m_unknownCount q' = m_unknownCount q - word_of_nat (length (equal_range p q))"
    and "m_unknownSize q' = m_unknownSize q - word_of_nat (sum_list (map (length \<circ> snd \<circ> snd) (equal_range p q)))"
  shows "counted q'"
proof -
  have "length (equal_range p q) + length (m_unknown q') = length (m_unknown q)"
    using sum_length_filter_compl [of "\<lambda>e. fst e = p" "m_unknown q"] assms(2) by (simp add: equal_range_def)
  moreover have "sum_list (map (length \<circ> snd \<circ> snd) (equal_range p q)) + unknown_bytes q' = unknown_bytes q"
    using sum_list_filter [of "length \<circ> snd \<circ> snd" "\<lambda>e. fst e = p" "m_unknown q"] assms(2,3) by (simp add: equal_range_def unknown_bytes_def)
  ultimately show ?thesis using assms(1,3-5) unfolding counted_def
    by (metis (no_types, lifting) add.assoc add_diff_cancel_left' of_nat_add)
qed

lemma range_culls: "culls {} q (erase_range p (bad_range (equal_range p q) q))"
proof -
  let ?q = "erase_range p (bad_range (equal_range p q) q)"
  have f: "m_unknown ?q = filter (\<lambda>e. fst e \<noteq> p) (m_unknown q)" "m_future ?q = m_future q"
    "m_unknownSet ?q = m_unknownSet q - set (map (fst \<circ> snd) (equal_range p q))"
    "m_unknownCount ?q = m_unknownCount q - word_of_nat (length (equal_range p q))"
    "m_unknownSize ?q = m_unknownSize q - word_of_nat (sum_list (map (length \<circ> snd \<circ> snd) (equal_range p q)))"
    by (simp_all add: erase_range_def bad_range_fields)
  have "unknown_ok ?q" if "unknown_ok q"
    using range_hashes [OF that, of p] that by (simp add: unknown_ok_def unknown_hashes_def f distinct_map_filter)
  moreover have "counted ?q" if "counted q" by (rule counted_range [OF that f(1,2,4,5)])
  moreover have "\<exists>P. m_unknown ?q = filter P (m_unknown q)" using f(1) by blast
  ultimately show ?thesis unfolding culls_def by (simp add: f(3)) (auto simp: erase_range_def bad_range_fields)
qed

lemma collect_culls: "culls {} q (collect_loop ps q)"
proof (induction ps q rule: collect_loop.induct)
  case (2 p badQueue q)
  show ?case using culls_trans [OF range_culls 2 [OF HOL.refl]] by (simp add: collect_loop.simps Let_def)
qed (simp add: collect_loop.simps culls_refl)

lemma culls_bad: "culls {} q (q\<lparr>m_knownBad := m_knownBad q \<union> B\<rparr>)"
  unfolding culls_def
  by (intro conjI exI [of _ "\<lambda>_. True"]) (simp_all add: unknown_ok_def unknown_hashes_def counted_def unknown_bytes_def)

text \<open>A pass over a list, with what is left of the list still to come.\<close>

lemma note_bad_culls:
  assumes "V' = filter (\<lambda>v. job_hash v \<noteq> h) V" "F' = filter (\<lambda>v. job_hash v \<noteq> h) F" "U' = filter (\<lambda>w. ub_hash w \<noteq> h) U"
  shows "culls {h} (q\<lparr>m_verified := V, m_verifying := F, m_unverified := U\<rparr>)
     ((note_bad h q)\<lparr>m_verified := V', m_verifying := F', m_unverified := U'\<rparr>)"
proof -
  let ?q = "q\<lparr>m_knownBad := insert h (m_knownBad q), m_readySet := m_readySet q - {h}\<rparr>"
  have "culls {} ?q (note_bad h q)"
    using collect_culls [of ?q "[h]"] by (simp add: note_bad_def collectUnknownBad_WITH_BOTH_LOCKS_def)
  then show ?thesis
    unfolding culls_def assms by (simp add: unknown_ok_def unknown_hashes_def counted_def unknown_bytes_def)
qed

lemma filter_other: "h \<notin> set (map f xs) \<Longrightarrow> filter (\<lambda>x. f x \<noteq> h) xs = xs"
  by (auto simp: filter_id_conv)

lemma filter_mid: "distinct (map f (xs @ x # ys)) \<Longrightarrow> filter (\<lambda>y. f y \<noteq> f x) (xs @ x # ys) = xs @ ys"
  using filter_other [of "f x" f xs] filter_other [of "f x" f ys] by auto

lemma note_bad_same:
  "(note_bad h q)\<lparr>m_verified := V, m_verifying := m_verifying q, m_unverified := m_unverified q\<rparr> = (note_bad h q)\<lparr>m_verified := V\<rparr>"
  "(note_bad h q)\<lparr>m_verified := m_verified q, m_verifying := F, m_unverified := m_unverified q\<rparr> = (note_bad h q)\<lparr>m_verifying := F\<rparr>"
  "(note_bad h q)\<lparr>m_verified := m_verified q, m_verifying := m_verifying q, m_unverified := U\<rparr> = (note_bad h q)\<lparr>m_unverified := U\<rparr>"
  by (rule block_queue.equality; simp)+

lemma bad_verified_culls:
  "distinct (ready_hashes (q\<lparr>m_verified := m_verified q @ bs\<rparr>)) \<Longrightarrow> list_all (\<lambda>v. qb_blockData v \<noteq> []) bs
    \<Longrightarrow> \<exists>R. culls R (q\<lparr>m_verified := m_verified q @ bs\<rparr>) (snd (bad_verified bs q))"
proof (induction bs arbitrary: q)
  case Nil then show ?case using culls_refl [of q] by auto
next
  case (Cons b bs)
  let ?h = "h_hash (vb_info (qb_verified b))" and ?q = "q\<lparr>m_verified := m_verified q @ b # bs\<rparr>"
  have h: "job_hash b = ?h" using Cons.prems(2) by (simp add: job_hash_def)
  have d: "distinct (map job_hash (m_verified q @ b # bs))" "?h \<notin> set (map job_hash (m_verifying q))" "?h \<notin> set (map ub_hash (m_unverified q))"
    using Cons.prems(1) h by (auto simp: ready_hashes_def)
  have "culls {?h} ?q ((note_bad ?h q)\<lparr>m_verified := m_verified (note_bad ?h q) @ bs\<rparr>)"
    using note_bad_culls [of "m_verified q @ bs" ?h "m_verified q @ b # bs" "m_verifying q" "m_verifying q" "m_unverified q" "m_unverified q" q]
      filter_mid [OF d(1)] filter_other [OF d(2)] filter_other [OF d(3)] h by (simp add: note_bad_same)
  note c = this
  have d': "distinct (ready_hashes ((note_bad ?h q)\<lparr>m_verified := m_verified (note_bad ?h q) @ bs\<rparr>))"
    using ready_culls [OF c] Cons.prems(1) by simp
  have l: "list_all (\<lambda>v. qb_blockData v \<noteq> []) bs" using Cons.prems(2) by simp
  show ?case
    using Cons.IH [OF d' l] culls_trans [OF c] Cons.IH [of "q\<lparr>m_verified := m_verified q @ [b]\<rparr>"] Cons.prems(1) l by (auto simp: Let_def)
qed

lemma bad_unverified_culls:
  "distinct (ready_hashes (q\<lparr>m_unverified := m_unverified q @ bs\<rparr>))
    \<Longrightarrow> \<exists>R. culls R (q\<lparr>m_unverified := m_unverified q @ bs\<rparr>) (snd (bad_unverified bs q))"
proof (induction bs arbitrary: q)
  case Nil then show ?case using culls_refl [of q] by auto
next
  case (Cons b bs)
  let ?h = "ub_hash b" and ?q = "q\<lparr>m_unverified := m_unverified q @ b # bs\<rparr>"
  have d: "distinct (map ub_hash (m_unverified q @ b # bs))" "?h \<notin> set (map job_hash (m_verifying q))" "?h \<notin> set (map job_hash (m_verified q))"
    using Cons.prems by (auto simp: ready_hashes_def)
  have "culls {?h} ?q ((note_bad ?h q)\<lparr>m_unverified := m_unverified (note_bad ?h q) @ bs\<rparr>)"
    using note_bad_culls [of "m_verified q" ?h "m_verified q" "m_verifying q" "m_verifying q" "m_unverified q @ bs" "m_unverified q @ b # bs" q]
      filter_mid [OF d(1)] filter_other [OF d(2)] filter_other [OF d(3)] by (simp add: note_bad_same)
  note c = this
  have d': "distinct (ready_hashes ((note_bad ?h q)\<lparr>m_unverified := m_unverified (note_bad ?h q) @ bs\<rparr>))"
    using ready_culls [OF c] Cons.prems by simp
  show ?case
    using Cons.IH [OF d'] culls_trans [OF c] Cons.IH [of "q\<lparr>m_unverified := m_unverified q @ [b]\<rparr>"] Cons.prems by auto
qed

lemma bad_verifying_culls:
  "distinct (ready_hashes (q\<lparr>m_verifying := m_verifying q @ bs\<rparr>))
    \<Longrightarrow> \<exists>R. culls R (q\<lparr>m_verifying := m_verifying q @ bs\<rparr>) (snd (bad_verifying bs q))"
proof (induction bs arbitrary: q)
  case Nil then show ?case using culls_refl [of q] by auto
next
  case (Cons b bs)
  let ?h = "job_hash b" and ?q = "q\<lparr>m_verifying := m_verifying q @ b # bs\<rparr>"
  have d: "distinct (map job_hash (m_verifying q @ b # bs))" "?h \<notin> set (map job_hash (m_verified q))" "?h \<notin> set (map ub_hash (m_unverified q))"
    using Cons.prems by (auto simp: ready_hashes_def)
  have "culls {?h} ?q ((note_bad ?h q)\<lparr>m_verifying := m_verifying (note_bad ?h q) @ bs\<rparr>)"
    using note_bad_culls [of "m_verified q" ?h "m_verified q" "m_verifying q @ bs" "m_verifying q @ b # bs" "m_unverified q" "m_unverified q" q]
      filter_mid [OF d(1)] filter_other [OF d(2)] filter_other [OF d(3)] by (simp add: note_bad_same)
  note c = this
  have d': "distinct (ready_hashes ((note_bad ?h q)\<lparr>m_verifying := m_verifying (note_bad ?h q) @ bs\<rparr>))"
    using ready_culls [OF c] Cons.prems by simp
  show ?case
    using Cons.IH [OF d'] culls_trans [OF c] Cons.IH [of "q\<lparr>m_verifying := m_verifying q @ [b]\<rparr>"] Cons.prems by (auto simp: Let_def)
qed

lemma bad_pass_culls:
  assumes d: "distinct (ready_hashes q)" and l: "list_all (\<lambda>v. qb_blockData v \<noteq> []) (m_verified q)"
  shows "\<exists>R. culls R q (snd (bad_pass q))"
proof -
  obtain m1 q1 where p1: "bad_verified (m_verified q) (q\<lparr>m_verified := []\<rparr>) = (m1, q1)" by (metis surj_pair)
  obtain m2 q2 where p2: "bad_unverified (m_unverified q1) (q1\<lparr>m_unverified := []\<rparr>) = (m2, q2)" by (metis surj_pair)
  obtain m3 q3 where p3: "bad_verifying (m_verifying q2) (q2\<lparr>m_verifying := []\<rparr>) = (m3, q3)" by (metis surj_pair)
  obtain R1 where c1: "culls R1 q q1" using bad_verified_culls [of "q\<lparr>m_verified := []\<rparr>" "m_verified q"] d l p1 by auto
  then have d1: "distinct (ready_hashes q1)" using d ready_culls by simp
  obtain R2 where c2: "culls R2 q1 q2" using bad_unverified_culls [of "q1\<lparr>m_unverified := []\<rparr>" "m_unverified q1"] d1 p2 by auto
  then have d2: "distinct (ready_hashes q2)" using d1 ready_culls by simp
  obtain R3 where c3: "culls R3 q2 q3" using bad_verifying_culls [of "q2\<lparr>m_verifying := []\<rparr>" "m_verifying q2"] d2 p3 by auto
  have "snd (bad_pass q) = q3" by (simp add: bad_pass_def p1 p2 p3)
  then show ?thesis using culls_trans [OF culls_trans [OF c1 c2] c3] by metis
qed

lemma bad_loop_culls:
  "distinct (ready_hashes q) \<Longrightarrow> list_all (\<lambda>v. qb_blockData v \<noteq> []) (m_verified q) \<Longrightarrow> \<exists>R. culls R q (bad_loop q)"
proof (induction q rule: bad_loop.induct)
  case (1 q)
  obtain m q' where p: "bad_pass q = (m, q')" by (metis surj_pair)
  obtain R where c: "culls R q q'" using bad_pass_culls [OF 1(2,3)] p by auto
  have "\<exists>S. culls S q' (bad_loop q')" if m
    using 1(1) [OF p [symmetric] HOL.refl that] ready_culls [OF c] 1(2,3) c by (auto simp: culls_def list_all_iff)
  then show ?case using c culls_trans [OF c] by (subst bad_loop.simps) (auto simp: p)
qed

lemma updateBads_culls:
  "distinct (ready_hashes q) \<Longrightarrow> list_all (\<lambda>v. qb_blockData v \<noteq> []) (m_verified q) \<Longrightarrow> \<exists>R. culls R q (updateBads bs q)"
proof (induction bs arbitrary: q)
  case Nil then show ?case using culls_refl by auto
next
  case (Cons b bs)
  let ?q = "collect_loop [b] q"
  have c0: "culls {} q ?q" by (rule collect_culls)
  obtain R where "culls R ?q (bad_loop ?q)"
    using bad_loop_culls [of ?q] ready_culls [OF c0] c0 Cons.prems by (auto simp: culls_def)
  then have c: "culls R q (updateBad_WITH_LOCK b q)"
    using culls_trans [OF c0] by (simp add: updateBad_WITH_LOCK_def collectUnknownBad_WITH_BOTH_LOCKS_def)
  obtain S where "culls S (updateBad_WITH_LOCK b q) (updateBads bs (updateBad_WITH_LOCK b q))"
    using Cons.IH [of "updateBad_WITH_LOCK b q"] ready_culls [OF c] c Cons.prems by (auto simp: culls_def list_all_iff)
  then show ?case using culls_trans [OF c] by auto
qed

lemma bads_culls: "bq_inv js q \<Longrightarrow> \<exists>R. culls R q (updateBads bs (q\<lparr>m_knownBad := m_knownBad q \<union> B\<rparr>))"
proof -
  assume i: "bq_inv js q"
  let ?q = "q\<lparr>m_knownBad := m_knownBad q \<union> B\<rparr>"
  have "distinct (ready_hashes ?q)" "list_all (\<lambda>v. qb_blockData v \<noteq> []) (m_verified ?q)"
    using i by (auto simp: bq_inv_def ready_ok_def ready_hashes_def lists_ok_def done_ok_def list_all_iff)
  then show ?thesis using updateBads_culls culls_trans [OF culls_bad] by blast
qed

section \<open>Blocks that become ready\<close>

lemma ready_range_fields:
  "m_unknownSet (ready_range es q) = m_unknownSet q - set (map (fst \<circ> snd) es)"
  "m_readySet (ready_range es q) = m_readySet q \<union> set (map (fst \<circ> snd) es)"
  "m_unverified (ready_range es q) = m_unverified q @ map (\<lambda>(p, h, b). \<lparr>ub_hash = h, ub_parentHash = p, ub_block = b\<rparr>) es"
  "m_unknownCount (ready_range es q) = m_unknownCount q - word_of_nat (length es)"
  "m_unknownSize (ready_range es q) = m_unknownSize q - word_of_nat (sum_list (map (length \<circ> snd \<circ> snd) es))"
  "m_verified (ready_range es q) = m_verified q" "m_verifying (ready_range es q) = m_verifying q" "m_knownBad (ready_range es q) = m_knownBad q"
  "m_drainingSet (ready_range es q) = m_drainingSet q" "m_future (ready_range es q) = m_future q"
  by (induction es q rule: ready_range.induct) auto

lemma retry_loop_fields:
  "m_unknownSet (retry_loop es q) = m_unknownSet q - set (map (fst \<circ> snd) es)"
  "m_readySet (retry_loop es q) = m_readySet q \<union> set (map (fst \<circ> snd) es)"
  "m_unverified (retry_loop es q) = m_unverified q @ map (\<lambda>(p, h, b). \<lparr>ub_hash = h, ub_parentHash = p, ub_block = b\<rparr>) es"
  "m_verified (retry_loop es q) = m_verified q" "m_verifying (retry_loop es q) = m_verifying q" "m_knownBad (retry_loop es q) = m_knownBad q"
  "m_drainingSet (retry_loop es q) = m_drainingSet q" "m_future (retry_loop es q) = m_future q"
  by (induction es q rule: retry_loop.induct) auto

text \<open>Some of the blocks with an unknown parent move to the end of the list of unverified blocks.\<close>

lemma moved_inv:
  assumes i: "bq_inv js q" and es: "es = filter P (m_unknown q)" and rest: "m_unknown q' = filter (\<lambda>e. \<not> P e) (m_unknown q)"
    and f: "m_unknownSet q' = m_unknownSet q - set (map (fst \<circ> snd) es)" "m_readySet q' = m_readySet q \<union> set (map (fst \<circ> snd) es)"
      "m_unverified q' = m_unverified q @ map (\<lambda>(p, h, b). \<lparr>ub_hash = h, ub_parentHash = p, ub_block = b\<rparr>) es"
      "m_verified q' = m_verified q" "m_verifying q' = m_verifying q" "m_knownBad q' = m_knownBad q" "m_drainingSet q' = m_drainingSet q"
  shows "bq_inv js q'"
proof -
  have u: "distinct (map (fst \<circ> snd) (m_unknown q))" "m_unknownSet q = (fst \<circ> snd) ` set (m_unknown q)"
    using i by (auto simp: bq_inv_def unknown_ok_def unknown_hashes_def)
  have names: "map ub_hash (map (\<lambda>(p, h, b). \<lparr>ub_hash = h, ub_parentHash = p, ub_block = b\<rparr>) es) = map (fst \<circ> snd) es" by auto
  have sub: "set (map (fst \<circ> snd) es) \<subseteq> m_unknownSet q" using u(2) es by auto
  have rh: "ready_hashes q' = ready_hashes q @ map (fst \<circ> snd) es" by (simp only: ready_hashes_def f names map_append append_assoc)
  have "ready_ok q'" unfolding ready_ok_def rh using i sub u es
    by (auto simp: bq_inv_def ready_ok_def sets_ok_def f distinct_map_filter)
  moreover have "unknown_ok q'"
  proof -
    have "inj_on (fst \<circ> snd) (set (m_unknown q))" using u(1) by (simp add: distinct_map)
    then have "set (map (fst \<circ> snd) (m_unknown q')) = m_unknownSet q'" unfolding rest f es u(2) by (auto simp: inj_on_def)
    then show ?thesis using u(1) by (simp add: unknown_ok_def unknown_hashes_def rest distinct_map_filter)
  qed
  moreover have "lists_ok q'" using i es rest unfolding bq_inv_def lists_ok_def f by (auto simp: list_all_iff)
  moreover have "sets_ok q'" using i sub by (auto simp: bq_inv_def sets_ok_def f)
  moreover have "jobs_ok js q'" using i sub by (auto simp: bq_inv_def jobs_ok_def f)
  ultimately show ?thesis by (simp add: bq_inv_def)
qed

lemma ready_loop_inv: "bq_inv js q \<Longrightarrow> bq_inv js (ready_loop ps q) \<and> (counted q \<longrightarrow> counted (ready_loop ps q))"
proof (induction ps q rule: ready_loop.induct)
  case (2 p goodQueue q)
  let ?q = "erase_range p (ready_range (equal_range p q) q)"
  have "bq_inv js ?q"
    by (rule moved_inv [OF 2(2), of "equal_range p q" "\<lambda>e. fst e = p"]) (simp_all add: equal_range_def erase_range_def ready_range_fields)
  moreover have "counted ?q" if "counted q" by (rule counted_range [OF that]) (simp_all add: erase_range_def ready_range_fields)
  ultimately show ?case using 2(1) [OF HOL.refl] by (simp add: ready_loop.simps Let_def)
qed (simp add: ready_loop.simps)

lemma retry_inv: "bq_inv js q \<Longrightarrow> bq_inv js (retryAllUnknown q)"
  by (rule moved_inv [of js q "m_unknown q" "\<lambda>_. True"]) (simp_all add: retryAllUnknown_def Let_def retry_loop_fields)

lemma retry_counted: "m_future q = [] \<Longrightarrow> counted (retryAllUnknown q)"
  by (simp add: retryAllUnknown_def Let_def counted_def unknown_bytes_def retry_loop_fields)

section \<open>Verification\<close>

lemma bq_inv_cong:
  assumes "bq_inv js q" and "m_drainingSet q' = m_drainingSet q" "m_readySet q' = m_readySet q" "m_unknownSet q' = m_unknownSet q"
    "m_unknown q' = m_unknown q" "m_knownBad q' = m_knownBad q" "m_verified q' = m_verified q" "m_verifying q' = m_verifying q"
    "m_unverified q' = m_unverified q"
  shows "bq_inv js q'"
  using assms by (simp add: bq_inv_def lists_ok_def ready_ok_def ready_hashes_def unknown_ok_def unknown_hashes_def sets_ok_def jobs_ok_def)

lemma counted_cong:
  "counted q \<Longrightarrow> m_unknown q' = m_unknown q \<Longrightarrow> m_future q' = m_future q \<Longrightarrow> m_unknownCount q' = m_unknownCount q
    \<Longrightarrow> m_unknownSize q' = m_unknownSize q \<Longrightarrow> counted q'"
  by (simp add: counted_def unknown_bytes_def)

lemma drop_one:
  assumes "bq_inv js (q\<lparr>m_verified := V, m_verifying := F\<rparr>)" and "h \<notin> set (map ub_hash (m_unverified q))"
    and "V' = filter (\<lambda>v. job_hash v \<noteq> h) V" "F' = filter (\<lambda>v. job_hash v \<noteq> h) F"
  shows "bq_inv js (q\<lparr>m_readySet := m_readySet q - {h}, m_knownBad := insert h (m_knownBad q), m_verified := V', m_verifying := F'\<rparr>)"
proof (rule culls_inv [OF _ assms(1)])
  show "culls {h} (q\<lparr>m_verified := V, m_verifying := F\<rparr>)
      (q\<lparr>m_readySet := m_readySet q - {h}, m_knownBad := insert h (m_knownBad q), m_verified := V', m_verifying := F'\<rparr>)"
    using filter_other [OF assms(2)] unfolding culls_def
    by (intro conjI exI [of _ "\<lambda>_. True"]) (auto simp: assms(3,4) unknown_ok_def unknown_hashes_def counted_def unknown_bytes_def)
qed

lemma drain_loop_inv: "bq_inv js (q\<lparr>m_verifying := vs\<rparr>) \<Longrightarrow> bq_inv js (drain_loop vs q)"
proof (induction vs arbitrary: q)
  case (Cons v vs)
  let ?i = "vb_info (qb_verified v)" and ?q = "q\<lparr>m_verifying := v # vs\<rparr>"
  show ?case
  proof (cases "qb_blockData v = []")
    case False
    then have h: "job_hash v = h_hash ?i" by (simp add: job_hash_def)
    have d: "distinct (ready_hashes ?q)" using Cons.prems by (simp add: bq_inv_def ready_ok_def)
    then have o: "h_hash ?i \<notin> set (map ub_hash (m_unverified q))" "h_hash ?i \<notin> set (map job_hash (m_verified q))"
      "h_hash ?i \<notin> set (map job_hash vs)" using h by (auto simp: ready_hashes_def)
    have "bq_inv js (q\<lparr>m_readySet := m_readySet q - {h_hash ?i}, m_knownBad := insert (h_hash ?i) (m_knownBad q), m_verified := m_verified q, m_verifying := vs\<rparr>)"
      by (rule drop_one [OF _ o(1), where V = "m_verified q" and F = "v # vs"]) (use Cons.prems filter_other [OF o(2)] filter_other [OF o(3)] h in simp_all)
    then have "bq_inv js (q\<lparr>m_readySet := m_readySet q - {h_hash ?i}, m_knownBad := insert (h_hash ?i) (m_knownBad q), m_verifying := vs\<rparr>)" by simp
    moreover have "bq_inv js (q\<lparr>m_verified := m_verified q @ [v], m_verifying := vs\<rparr>)"
    proof -
      have "w \<in> set js \<Longrightarrow> placeholder w \<noteq> v" for w using False by (auto simp: placeholder_def)
      then show ?thesis using Cons.prems False unfolding bq_inv_def
        by (auto simp: lists_ok_def ready_ok_def ready_hashes_def unknown_ok_def unknown_hashes_def sets_ok_def jobs_ok_def)
    qed
    ultimately show ?thesis using Cons.IH False by (simp add: Let_def)
  qed (use Cons.prems in simp)
qed simp

lemma drain_loop_fields:
  "m_unknown (drain_loop vs q) = m_unknown q" "m_future (drain_loop vs q) = m_future q" "m_unknownCount (drain_loop vs q) = m_unknownCount q"
  "m_unknownSize (drain_loop vs q) = m_unknownSize q"
  by (induction vs arbitrary: q) (simp_all add: Let_def)

lemma drain_inv: "bq_inv js q \<Longrightarrow> bq_inv js (drainVerified_WITH_BOTH_LOCKS q)"
  using drain_loop_inv [where q = q and vs = "m_verifying q"] by (simp add: drainVerified_WITH_BOTH_LOCKS_def)

lemma job_placeholder: "job_hash (placeholder w) = ub_hash w" "named h (placeholder w) \<longleftrightarrow> ub_hash w = h" "qb_blockData (placeholder w) = []"
  by (simp_all add: job_hash_def placeholder_def named_def)

lemma take_inv:
  assumes i: "bq_inv js q" and t: "verifier_take q = Some (w, q')"
  shows "bq_inv (w # js) q'"
proof -
  obtain ws where u: "m_unverified q = w # ws" and q': "q' = q\<lparr>m_unverified := ws, m_verifying := m_verifying q @ [placeholder w]\<rparr>"
    using t by (auto simp: verifier_take_def split: list.splits)
  have rh: "ready_hashes q' = ready_hashes q" by (simp add: ready_hashes_def q' u job_placeholder)
  have r: "ub_hash w \<in> m_readySet q" using i u by (auto simp: bq_inv_def ready_ok_def ready_hashes_def)
  have "ub_hash w \<noteq> ub_hash w'" if w': "w' \<in> set js" for w'
  proof (cases "placeholder w' \<in> set (m_verifying q)")
    case True
    then have "ub_hash w' \<in> job_hash ` set (m_verifying q)" using job_placeholder(1) by (metis imageI)
    then show ?thesis using i u by (auto simp: bq_inv_def ready_ok_def ready_hashes_def)
  next
    case False then show ?thesis using r i w' by (auto simp: bq_inv_def jobs_ok_def)
  qed
  then have "jobs_ok (w # js) q'" using i u by (auto simp: bq_inv_def jobs_ok_def lists_ok_def q')
  moreover have "lists_ok q'" using i u by (auto simp: bq_inv_def lists_ok_def q' job_placeholder)
  ultimately show ?thesis
    using i rh by (simp add: bq_inv_def ready_ok_def) (simp add: q' unknown_ok_def unknown_hashes_def sets_ok_def)
qed

text \<open>No block that has been verified has the hash of another block for the hash of its uncles.\<close>

definition apart :: "unverified_block \<Rightarrow> block_queue \<Rightarrow> bool" where
  "apart w q = (\<forall>v \<in> set (m_verifying q). qb_blockData v \<noteq> [] \<longrightarrow> \<not> named (ub_hash w) v)"

lemma named_iff:
  assumes i: "bq_inv js q" and w: "w \<in> set js" and a: "apart w q" and v: "v \<in> set (m_verifying q)"
  shows "named (ub_hash w) v \<longleftrightarrow> v = placeholder w" and "job_hash v = ub_hash w \<longleftrightarrow> v = placeholder w"
proof -
  have inj: "w' = w" if "w' \<in> set js" "ub_hash w' = ub_hash w" for w'
    using i w that by (auto simp: bq_inv_def jobs_ok_def distinct_map inj_on_def)
  have "v = placeholder w" if n: "named (ub_hash w) v"
  proof -
    have "v \<in> placeholder ` set js" using i a v n by (auto simp: bq_inv_def jobs_ok_def apart_def)
    then obtain w' where "w' \<in> set js" "v = placeholder w'" by blast
    then show ?thesis using inj [of w'] n by (simp add: job_placeholder)
  qed
  then show "named (ub_hash w) v \<longleftrightarrow> v = placeholder w" by (auto simp: job_placeholder)
  have "v = placeholder w" if h: "job_hash v = ub_hash w"
  proof (cases "placeholder w \<in> set (m_verifying q)")
    case True
    have "distinct (map job_hash (m_verifying q))" using i by (simp add: bq_inv_def ready_ok_def ready_hashes_def)
    then show ?thesis using True v h job_placeholder(1) [of w] by (auto simp: distinct_map inj_on_def)
  next
    case False
    have "job_hash v \<in> m_readySet q" using i v by (auto simp: bq_inv_def ready_ok_def ready_hashes_def)
    then show ?thesis using False i w h by (auto simp: bq_inv_def jobs_ok_def)
  qed
  then show "job_hash v = ub_hash w \<longleftrightarrow> v = placeholder w" by (auto simp: job_placeholder)
qed

lemma erase_job_filter:
  "\<forall>v \<in> set vs. named h v = (job_hash v = h) \<Longrightarrow> distinct (map job_hash vs) \<Longrightarrow> erase_job h vs = filter (\<lambda>v. job_hash v \<noteq> h) vs"
proof (induction vs)
  case (Cons v vs)
  show ?case
  proof (cases "job_hash v = h")
    case True
    then show ?thesis using Cons.prems filter_other [of h job_hash vs] by (simp add: erase_job_def)
  next
    case False
    then show ?thesis using Cons by (simp add: erase_job_def)
  qed
qed (simp add: erase_job_def)

lemma fill_job_Cons: "\<not> named h v \<Longrightarrow> fill_job h res (v # vs) = v # fill_job h res vs"
  by (cases "dropWhile (\<lambda>v. \<not> named h v) vs") (simp_all add: fill_job_def del: dropWhile_eq_Nil_conv)

lemma fill_job_map:
  "\<forall>v \<in> set vs. named h v = (job_hash v = h) \<Longrightarrow> distinct (map job_hash vs)
    \<Longrightarrow> fill_job h res vs = map (\<lambda>v. if job_hash v = h then res else v) vs"
proof (induction vs)
  case (Cons v vs)
  show ?case
  proof (cases "job_hash v = h")
    case True
    then have "map (\<lambda>v. if job_hash v = h then res else v) vs = vs" using Cons.prems(2) by (intro map_idI) (auto simp: image_iff)
    then show ?thesis using True Cons.prems by (simp add: fill_job_def)
  next
    case False
    then show ?thesis using Cons by (simp add: fill_job_Cons)
  qed
qed (simp add: fill_job_def)

lemma job_done: "bq_inv js q \<Longrightarrow> placeholder w \<notin> set (m_verifying q) \<Longrightarrow> bq_inv (remove1 w js) q"
  unfolding bq_inv_def jobs_ok_def by (auto simp: distinct_map set_remove1_eq list_all_iff inj_on_def)

lemma filled_inv:
  assumes i: "bq_inv js q" and w: "w \<in> set js" and r: "done_ok res" "job_hash res = ub_hash w"
    and V: "map job_hash (V @ F) = map job_hash (m_verified q @ m_verifying q)" "set V \<subseteq> insert res (set (m_verified q))"
    and F: "set F \<subseteq> insert res (set (m_verifying q) - {placeholder w})" "set (m_verifying q) - {placeholder w} \<subseteq> set F"
  shows "bq_inv (remove1 w js) (q\<lparr>m_verified := V, m_verifying := F\<rparr>)"
proof -
  let ?q = "q\<lparr>m_verified := V, m_verifying := F\<rparr>"
  have js: "distinct js" "set (remove1 w js) = set js - {w}" using i by (auto simp: bq_inv_def jobs_ok_def distinct_map)
  have rh: "ready_hashes ?q = ready_hashes q" using V(1) by (simp add: ready_hashes_def)
  have "res \<noteq> placeholder w'" for w' using r(1) by (auto simp: done_ok_def job_placeholder)
  moreover have "placeholder w \<notin> set F" using F(1) calculation by auto
  moreover have "placeholder w' \<noteq> placeholder w" if "w' \<in> set js" "w' \<noteq> w" for w'
  proof -
    have "ub_hash w' \<noteq> ub_hash w" using i w that by (auto simp: bq_inv_def jobs_ok_def distinct_map inj_on_def)
    then show ?thesis using job_placeholder(1) by metis
  qed
  ultimately have "jobs_ok (remove1 w js) ?q"
    using i F r(1) js unfolding bq_inv_def jobs_ok_def done_ok_def by (auto simp: list_all_iff distinct_map inj_on_def)
  moreover have "lists_ok ?q" using i r(1) V(2) F(1) unfolding bq_inv_def lists_ok_def list_all_iff by auto
  ultimately show ?thesis
    using i rh by (simp add: bq_inv_def ready_ok_def) (simp add: unknown_ok_def unknown_hashes_def sets_ok_def)
qed

lemma bad_inv:
  assumes i: "bq_inv js q" and w: "w \<in> set js" and a: "apart w q"
  shows "bq_inv (remove1 w js) (verifier_bad w q)"
proof -
  let ?h = "ub_hash w"
  have d: "distinct (map job_hash (m_verifying q))" using i by (simp add: bq_inv_def ready_ok_def ready_hashes_def)
  have e: "erase_job ?h (m_verifying q) = filter (\<lambda>v. job_hash v \<noteq> ?h) (m_verifying q)"
    by (rule erase_job_filter [OF _ d]) (use named_iff [OF i w a] in blast)
  have nv: "?h \<notin> set (map job_hash (m_verified q))" and nu: "?h \<notin> set (map ub_hash (m_unverified q))"
  proof -
    have "?h \<notin> m_readySet q \<or> ?h \<in> set (map job_hash (m_verifying q))"
      using i w job_placeholder(1) [of w] by (force simp: bq_inv_def jobs_ok_def)
    then show "?h \<notin> set (map job_hash (m_verified q))" "?h \<notin> set (map ub_hash (m_unverified q))"
      using i by (auto simp: bq_inv_def ready_ok_def ready_hashes_def)
  qed
  have "bq_inv js (q\<lparr>m_readySet := m_readySet q - {?h}, m_knownBad := insert ?h (m_knownBad q), m_verified := m_verified q,
      m_verifying := erase_job ?h (m_verifying q)\<rparr>)"
    by (rule drop_one [OF _ nu, where V = "m_verified q" and F = "m_verifying q"]) (use i filter_other [OF nv] e in simp_all)
  then have "bq_inv js (q\<lparr>m_readySet := m_readySet q - {?h}, m_knownBad := insert ?h (m_knownBad q), m_verifying := erase_job ?h (m_verifying q)\<rparr>)"
    by simp
  then have "bq_inv (remove1 w js) (q\<lparr>m_readySet := m_readySet q - {?h}, m_knownBad := insert ?h (m_knownBad q), m_verifying := erase_job ?h (m_verifying q)\<rparr>)"
    by (rule job_done) (simp add: e job_placeholder)
  then show ?thesis unfolding verifier_bad_def by (rule drain_inv)
qed

lemma good_inv:
  assumes i: "bq_inv js q" and w: "w \<in> set js" and a: "apart w q" and vb: "vb_block vb = ub_block w" "header_new (ub_block w) BlockData 0 = Inr (vb_info vb)"
  shows "bq_inv (remove1 w js) (snd (verifier_good w vb q))"
proof -
  let ?h = "ub_hash w" and ?res = "\<lparr>qb_verified = vb, qb_blockData = ub_block w\<rparr>"
  have "described (ub_parentHash w) ?h (ub_block w)" using i w by (auto simp: bq_inv_def jobs_ok_def list_all_iff)
  then have h: "h_hash (vb_info vb) = ?h" using vb(2) by (auto simp: described_def)
  have r: "done_ok ?res" "job_hash ?res = ?h"
    using vb header_hash_block(2) [OF vb(2)] h by (simp_all add: done_ok_def job_hash_def)
  have d: "distinct (map job_hash (m_verifying q))" using i by (simp add: bq_inv_def ready_ok_def ready_hashes_def)
  show ?thesis
  proof (cases "m_verifying q \<noteq> [] \<and> named ?h (hd (m_verifying q))")
    case True
    then obtain vs where vs: "m_verifying q = placeholder w # vs"
      using named_iff(1) [OF i w a, of "hd (m_verifying q)"] by (cases "m_verifying q") auto
    have n: "placeholder w \<notin> set vs" using d vs by auto
    have i': "bq_inv js (q\<lparr>m_verified := m_verified q, m_verifying := m_verifying q\<rparr>)" using i by simp
    have o: "?h \<notin> set (map ub_hash (m_unverified q))" "?h \<notin> set (map job_hash (m_verified q))" "?h \<notin> set (map job_hash vs)"
      using i vs job_placeholder(1) [of w] by (auto simp: bq_inv_def ready_ok_def ready_hashes_def)
    have "bq_inv js (q\<lparr>m_readySet := m_readySet q - {?h}, m_knownBad := insert ?h (m_knownBad q), m_verified := m_verified q, m_verifying := vs\<rparr>)"
      by (rule drop_one [OF i' o(1)])
        (use vs filter_other [OF o(2)] filter_other [OF o(3)] job_placeholder(1) [of w] in simp_all)
    then have "bq_inv (remove1 w js) (q\<lparr>m_verifying := vs, m_readySet := m_readySet q - {?h}, m_knownBad := insert ?h (m_knownBad q)\<rparr>)"
      by (intro job_done, elim bq_inv_cong) (use n in simp_all)
    moreover have "bq_inv (remove1 w js) (q\<lparr>m_verifying := vs, m_verified := m_verified q @ [?res]\<rparr>)"
      by (rule bq_inv_cong, rule filled_inv [OF i w r, where V = "m_verified q @ [?res]" and F = vs])
        (use vs n r(2) in \<open>auto simp: job_placeholder\<close>)
    ultimately show ?thesis using True vs h by (auto simp: verifier_good_def Let_def intro!: drain_inv)
  next
    case False
    have e: "fill_job ?h ?res (m_verifying q) = map (\<lambda>v. if job_hash v = ?h then ?res else v) (m_verifying q)"
      by (rule fill_job_map [OF _ d]) (use named_iff [OF i w a] in blast)
    have "bq_inv (remove1 w js) (q\<lparr>m_verified := m_verified q, m_verifying := fill_job ?h ?res (m_verifying q)\<rparr>)"
      by (rule filled_inv [OF i w r]) (use r(2) job_placeholder(1) [of w] named_iff(2) [OF i w a] in \<open>auto simp: e\<close>)
    then show ?thesis using False by (auto simp: verifier_good_def Let_def)
  qed
qed

lemma finish_inv:
  assumes "bq_inv js q" and "w \<in> set js" and "apart w q" and "verifier_finish E c w q = Some (r, q')"
  shows "bq_inv (remove1 w js) q'" and "counted q \<Longrightarrow> counted q'"
proof -
  have c: "counted q \<Longrightarrow> counted (verifier_bad w q)" "counted q \<Longrightarrow> counted (snd (verifier_good w vb q))" for vb
    by (rule counted_cong, assumption; simp add: verifier_bad_def verifier_good_def Let_def drainVerified_WITH_BOTH_LOCKS_def drain_loop_fields)+
  show "bq_inv (remove1 w js) q'" and "counted q \<Longrightarrow> counted q'"
    using assms(4) bad_inv [OF assms(1-3)] good_inv [OF assms(1-3)] verifyBlock_header [where b = "ub_block w"] c
    by (auto simp: verifier_finish_def split: option.splits prod.splits sum.splits) (metis snd_conv)+
qed

section \<open>Import, ticks and drains\<close>

lemma order_mem: "(\<And>xs. mset (order xs) = mset xs) \<Longrightarrow> set (order xs) = set xs"
  by (metis set_mset_mset)

lemma wait_inv:
  assumes i: "bq_inv js q" and o: "\<And>xs. mset (order xs) = mset xs" and b: "described p h b"
    and n: "h \<notin> m_readySet q" "h \<notin> m_drainingSet q" "h \<notin> m_unknownSet q" "h \<notin> m_knownBad q"
    and q': "m_unknown q' = order (m_unknown q @ [(p, h, b)])" "m_unknownSet q' = insert h (m_unknownSet q)" "m_drainingSet q' = m_drainingSet q"
      "m_readySet q' = m_readySet q" "m_knownBad q' = m_knownBad q" "m_verified q' = m_verified q" "m_verifying q' = m_verifying q"
      "m_unverified q' = m_unverified q"
  shows "bq_inv js q'"
proof -
  have s: "set (m_unknown q') = insert (p, h, b) (set (m_unknown q))" using order_mem [OF o] q'(1) by simp
  have "mset (unknown_hashes q') = mset (unknown_hashes q @ [h])"
    unfolding unknown_hashes_def q'(1) by (simp add: o)
  then have "distinct (unknown_hashes q') \<longleftrightarrow> distinct (unknown_hashes q @ [h])" "set (unknown_hashes q') = set (unknown_hashes q @ [h])"
    by (metis mset_eq_imp_distinct_iff, metis mset_eq_setD)
  then have "unknown_ok q'" using i n q'(2) by (auto simp: bq_inv_def unknown_ok_def)
  moreover have "lists_ok q'" using i b s unfolding bq_inv_def lists_ok_def q' by (auto simp: list_all_iff order_mem [OF o])
  moreover have "ready_ok q'" "sets_ok q'" using i n by (auto simp: bq_inv_def ready_ok_def ready_hashes_def sets_ok_def q')
  moreover have "jobs_ok js q'" using i n by (auto simp: bq_inv_def jobs_ok_def q')
  ultimately show ?thesis by (simp add: bq_inv_def)
qed

lemma push_inv:
  assumes i: "bq_inv js q" and b: "described p h b" and n: "h \<notin> m_readySet q" "h \<notin> m_drainingSet q" "h \<notin> m_unknownSet q" "h \<notin> m_knownBad q"
    and q': "m_unverified q' = m_unverified q @ [\<lparr>ub_hash = h, ub_parentHash = p, ub_block = b\<rparr>]" "m_readySet q' = insert h (m_readySet q)"
      "m_unknown q' = m_unknown q" "m_unknownSet q' = m_unknownSet q" "m_drainingSet q' = m_drainingSet q" "m_knownBad q' = m_knownBad q"
      "m_verified q' = m_verified q" "m_verifying q' = m_verifying q"
  shows "bq_inv js q'"
proof -
  have rh: "ready_hashes q' = ready_hashes q @ [h]" by (simp add: ready_hashes_def q')
  have "ready_ok q'" using i n by (auto simp: bq_inv_def ready_ok_def rh q')
  moreover have "jobs_ok js q'" using i n by (auto simp: bq_inv_def jobs_ok_def q')
  ultimately show ?thesis
    using i b n unfolding bq_inv_def by (auto simp: lists_ok_def unknown_ok_def unknown_hashes_def sets_ok_def q')
qed

lemma length_order: "(\<And>xs. mset (order xs) = mset xs) \<Longrightarrow> length (order xs) = length xs"
  by (metis size_mset)

lemma sum_order: "(\<And>xs. mset (order xs) = mset xs) \<Longrightarrow> sum_list (map f (order xs)) = sum_list (map f xs)" for f :: "'a \<Rightarrow> nat"
  by (metis mset_map sum_mset_sum_list)

lemma future_insert_sums:
  "length (future_insert e fs) = Suc (length fs)" "sum_list (map f (future_insert e fs)) = f e + sum_list (map f fs)" for f :: "_ \<Rightarrow> nat"
  using arg_cong [OF takeWhile_dropWhile_id [of "\<lambda>f. fst f \<le> fst e" fs], of length]
    arg_cong [OF takeWhile_dropWhile_id [of "\<lambda>f. fst f \<le> fst e" fs], of "\<lambda>xs. sum_list (map f xs)"]
  by (simp_all add: future_insert_def del: takeWhile_dropWhile_id)

lemma import_inv:
  assumes i: "bq_inv js q" and o: "\<And>xs. mset (order xs) = mset xs" and run: "bq_import order E c now isOurs b q = Some (r, q')"
  shows "bq_inv js q' \<and> (counted q \<longrightarrow> counted q')"
proof (cases "q' = q")
  case False
  then obtain h vb c1 where h: "headerHashFromBlock b = Inr h" and n: "h \<notin> m_readySet q" "h \<notin> m_drainingSet q" "h \<notin> m_unknownSet q" "h \<notin> m_knownBad q"
    and vb: "verifyBlock E b PostGenesis c = Some (Inr vb, c1)"
    using run by (auto simp: bq_import_def split: sum.splits if_splits option.splits prod.splits)
  define bi p where "bi = vb_info vb" and "p = h_parentHash bi"
  have hd: "header_new b BlockData 0 = Inr bi" unfolding bi_def by (rule verifyBlock_header(2) [OF vb])
  then have hh: "h_hash bi = h" and d: "described p h b" using header_hash_block(1) [OF hd] h by (auto simp: described_def p_def)
  let ?n = "word_of_nat (length b) :: u64"
  consider
      (future) "q' = q\<lparr>m_future := future_insert (as32 (unat (h_timestamp bi)), h, b) (m_future q), m_unknownSize := m_unknownSize q + ?n,
        m_unknownCount := m_unknownCount q + 1, m_difficulty := m_difficulty q + h_difficulty bi\<rparr>"
    | (bad) "q' = updateBad_WITH_LOCK (h_hash bi) (q\<lparr>m_knownBad := insert (h_hash bi) (m_knownBad q)\<rparr>)"
    | (waiting) "q' = q\<lparr>m_unknown := order (m_unknown q @ [(p, h, b)]), m_unknownSet := insert h (m_unknownSet q),
        m_unknownSize := m_unknownSize q + ?n, m_difficulty := m_difficulty q + h_difficulty bi, m_unknownCount := m_unknownCount q + 1\<rparr>"
    | (ready) "q' = noteReady_WITH_LOCK h (q\<lparr>m_unverified := m_unverified q @ [\<lparr>ub_hash = h, ub_parentHash = p, ub_block = b\<rparr>],
        m_readySet := insert h (m_readySet q), m_knownSize := m_knownSize q + ?n, m_difficulty := m_difficulty q + h_difficulty bi,
        m_knownCount := m_knownCount q + 1\<rparr>)"
    using run False n unfolding bq_import_def h vb
    by (auto simp: Let_def bi_def [symmetric] p_def [symmetric] split: if_splits)
  then show ?thesis
  proof cases
    case future
    then show ?thesis using i by (auto elim: bq_inv_cong simp: counted_def unknown_bytes_def future_insert_sums algebra_simps)
  next
    case bad
    obtain R where "culls R q (updateBads [h] (q\<lparr>m_knownBad := m_knownBad q \<union> {h}\<rparr>))" using bads_culls [OF i] by blast
    then have c: "culls R q q'" using bad hh by simp
    show ?thesis using culls_inv [OF c i] culls_counted [OF c i] by blast
  next
    case waiting
    have "bq_inv js q'" by (rule wait_inv [OF i o d n]) (simp_all add: waiting)
    then show ?thesis by (auto simp: counted_def unknown_bytes_def waiting length_order [OF o] sum_order [OF o] algebra_simps)
  next
    case ready
    let ?q = "q\<lparr>m_unverified := m_unverified q @ [\<lparr>ub_hash = h, ub_parentHash = p, ub_block = b\<rparr>], m_readySet := insert h (m_readySet q),
      m_knownSize := m_knownSize q + ?n, m_difficulty := m_difficulty q + h_difficulty bi, m_knownCount := m_knownCount q + 1\<rparr>"
    have "bq_inv js ?q" by (rule push_inv [OF i d n]) simp_all
    moreover have "counted q \<Longrightarrow> counted ?q" by (erule counted_cong) simp_all
    ultimately show ?thesis using ready_loop_inv [of js ?q "[h]"] ready by (simp add: noteReady_WITH_LOCK_def)
  qed
qed (use i in simp)

lemma take_futures_fields:
  "m_unknownCount (take_futures es q) = m_unknownCount q - word_of_nat (length es)"
  "m_unknownSize (take_futures es q) = m_unknownSize q - word_of_nat (sum_list (map (length \<circ> snd \<circ> snd) es))"
  "m_drainingSet (take_futures es q) = m_drainingSet q" "m_readySet (take_futures es q) = m_readySet q"
  "m_unknownSet (take_futures es q) = m_unknownSet q" "m_unknown (take_futures es q) = m_unknown q" "m_knownBad (take_futures es q) = m_knownBad q"
  "m_verified (take_futures es q) = m_verified q" "m_verifying (take_futures es q) = m_verifying q"
  "m_unverified (take_futures es q) = m_unverified q" "m_future (take_futures es q) = m_future q"
  by (induction es q rule: take_futures.induct) auto

lemma tick_inv: "bq_inv js q \<Longrightarrow> bq_inv js (snd (tick_take t q)) \<and> (counted q \<longrightarrow> counted (snd (tick_take t q)))"
proof (cases "m_future q = [] \<or> t < fst (hd (m_future q))")
  case False
  assume i: "bq_inv js q"
  let ?P = "\<lambda>f. fst f \<le> as32 t" and ?q = "snd (tick_take t q)"
  let ?todo = "takeWhile ?P (m_future q)"
  have q: "?q = (take_futures ?todo q)\<lparr>m_future := dropWhile ?P (m_future q)\<rparr>" using False by (simp add: tick_take_def Let_def take_futures_fields)
  have s: "length (m_future q) = length ?todo + length (dropWhile ?P (m_future q))"
    "sum_list (map (length \<circ> snd \<circ> snd) (m_future q))
       = sum_list (map (length \<circ> snd \<circ> snd) ?todo) + sum_list (map (length \<circ> snd \<circ> snd) (dropWhile ?P (m_future q)))"
    using arg_cong [OF takeWhile_dropWhile_id [of ?P "m_future q"], of length]
      arg_cong [OF takeWhile_dropWhile_id [of ?P "m_future q"], of "\<lambda>xs. sum_list (map (length \<circ> snd \<circ> snd) xs)"]
    by (simp_all del: takeWhile_dropWhile_id)
  have "counted ?q" if c: "counted q"
    using c by (simp add: q counted_def unknown_bytes_def take_futures_fields s)
  moreover have "bq_inv js ?q" by (rule bq_inv_cong [OF i]) (simp_all add: q take_futures_fields)
  ultimately show ?thesis by blast
qed (simp add: tick_take_def)

lemma drain_notes_fields:
  "m_readySet (drain_notes bs q) = m_readySet q - (h_hash \<circ> vb_info \<circ> qb_verified) ` set bs"
  "m_drainingSet (drain_notes bs q) = m_drainingSet q \<union> (h_hash \<circ> vb_info \<circ> qb_verified) ` set bs"
  "m_unknownSet (drain_notes bs q) = m_unknownSet q" "m_unknown (drain_notes bs q) = m_unknown q" "m_knownBad (drain_notes bs q) = m_knownBad q"
  "m_verified (drain_notes bs q) = m_verified q" "m_verifying (drain_notes bs q) = m_verifying q"
  "m_unverified (drain_notes bs q) = m_unverified q" "m_future (drain_notes bs q) = m_future q"
  "m_unknownCount (drain_notes bs q) = m_unknownCount q" "m_unknownSize (drain_notes bs q) = m_unknownSize q"
  by (induction bs arbitrary: q) (auto simp: Let_def)

lemma drained_inv:
  assumes i: "bq_inv js q" and e: "m_drainingSet q = {}"
  shows "bq_inv js (drain_notes (take n (m_verified q)) (q\<lparr>m_drainingDifficulty := 0, m_verified := drop n (m_verified q)\<rparr>))" (is "bq_inv js ?q")
proof -
  let ?out = "take n (m_verified q)" and ?rest = "drop n (m_verified q)"
  have f: "\<forall>v \<in> set (m_verified q). qb_blockData v \<noteq> []" using i by (auto simp: bq_inv_def lists_ok_def list_all_iff done_ok_def)
  then have "map (h_hash \<circ> vb_info \<circ> qb_verified) ?out = map job_hash ?out" by (auto simp: job_hash_def dest: in_set_takeD)
  then have h: "(h_hash \<circ> vb_info \<circ> qb_verified) ` set ?out = set (map job_hash ?out)" by (metis set_map)
  have rh: "ready_hashes q = map job_hash ?out @ ready_hashes ?q"
    by (simp add: ready_hashes_def drain_notes_fields flip: map_append append_assoc)
  have "m_readySet ?q = m_readySet q - set (map job_hash ?out)" unfolding drain_notes_fields h by simp
  then have r: "ready_ok ?q" using i rh by (auto simp: bq_inv_def ready_ok_def)
  have sub: "set (map job_hash ?out) \<subseteq> m_readySet q" using i rh by (auto simp: bq_inv_def ready_ok_def)
  have "sets_ok ?q" using i sub e h by (auto simp: bq_inv_def sets_ok_def drain_notes_fields)
  moreover have "lists_ok ?q" using i by (auto simp: bq_inv_def lists_ok_def drain_notes_fields list_all_iff dest: in_set_dropD)
  moreover have "jobs_ok js ?q" using i by (auto simp: bq_inv_def jobs_ok_def drain_notes_fields)
  ultimately show ?thesis using i r by (simp add: bq_inv_def unknown_ok_def unknown_hashes_def drain_notes_fields)
qed

lemma drain_op_inv: "bq_inv js q \<Longrightarrow> bq_drain o_out k q = (out, room, q') \<Longrightarrow> bq_inv js q' \<and> (counted q \<longrightarrow> counted q')"
  using drained_inv [of js q] by (auto simp: bq_drain_def Let_def counted_def unknown_bytes_def drain_notes_fields split: if_splits)

lemma done_inv: "bq_inv js q \<Longrightarrow> bq_inv js (snd (doneDrain bad q)) \<and> (counted q \<longrightarrow> counted (snd (doneDrain bad q)))"
proof -
  assume i: "bq_inv js q"
  let ?q = "q\<lparr>m_drainingSet := {}, m_difficulty := m_difficulty q - m_drainingDifficulty q, m_drainingDifficulty := 0\<rparr>"
  have i': "bq_inv js ?q"
    using i by (simp add: bq_inv_def lists_ok_def ready_ok_def ready_hashes_def unknown_ok_def unknown_hashes_def sets_ok_def jobs_ok_def)
  obtain R where c: "culls R ?q (updateBads bad (?q\<lparr>m_knownBad := m_knownBad ?q \<union> set bad\<rparr>))" using bads_culls [OF i'] by blast
  have "counted q \<Longrightarrow> counted ?q" by (erule counted_cong) simp_all
  then show ?thesis using culls_inv [OF c i'] culls_counted [OF c i'] i' by (simp add: doneDrain_def Let_def)
qed

section \<open>Runs\<close>

text \<open>The queue and the blocks in the hands of the verifiers.  \<open>order\<close> is how \<^verbatim>\<open>m_unknown\<close> is iterated over after an insertion.
  The queue is cleared only while no verifier is at work.\<close>

inductive bq_step :: "seal_engine \<Rightarrow> block_queue \<times> unverified_block list \<Rightarrow> block_queue \<times> unverified_block list \<Rightarrow> bool" for E where
  importing: "(\<And>xs. mset (order xs) = mset xs) \<Longrightarrow> bq_import order E c now isOurs b q = Some (r, q') \<Longrightarrow> bq_step E (q, js) (q', js)"
| ticking: "bq_step E (q, js) (snd (tick_take t q), js)"
| taking: "verifier_take q = Some (w, q') \<Longrightarrow> bq_step E (q, js) (q', w # js)"
| finishing: "w \<in> set js \<Longrightarrow> apart w q \<Longrightarrow> verifier_finish E c w q = Some (r, q') \<Longrightarrow> bq_step E (q, js) (q', remove1 w js)"
| draining: "bq_drain o_out k q = (out, room, q') \<Longrightarrow> bq_step E (q, js) (q', js)"
| drained: "bq_step E (q, js) (snd (doneDrain bad q), js)"
| noting: "bq_step E (q, js) (noteReady_WITH_LOCK h q, js)"
| retrying: "bq_step E (q, js) (retryAllUnknown q, js)"
| clearing: "bq_step E (q, []) (bq_clear q, [])"

lemma import_all_steps:
  "(\<And>xs. mset (order xs) = mset xs) \<Longrightarrow> import_all order E c bs q = Some (r, q') \<Longrightarrow> (bq_step E)\<^sup>*\<^sup>* (q, js) (q', js)"
proof (induction bs arbitrary: q)
  case (Cons x bs)
  obtain b now where x: "x = (b, now)" by (cases x)
  obtain r1 q1 where i: "bq_import order E c now False b q = Some (r1, q1)"
    using Cons.prems(2) x by (cases "bq_import order E c now False b q") auto
  have "bq_step E (q, js) (q1, js)" by (rule importing [OF Cons.prems(1) i])
  moreover have "q1 = q' \<or> import_all order E c bs q1 = Some (r, q')"
    using Cons.prems(2) x i by (auto split: sum.splits)
  ultimately show ?case using Cons.IH [OF Cons.prems(1)] by (metis converse_rtranclp_into_rtranclp rtranclp.rtrancl_refl)
qed simp

lemma tick_steps:
  "(\<And>xs. mset (order xs) = mset xs) \<Longrightarrow> bq_tick order E c t utc q = Some (r, q') \<Longrightarrow> (bq_step E)\<^sup>*\<^sup>* (q, js) (q', js)"
  using import_all_steps [of order E c _ "snd (tick_take t q)" r q' js] ticking [of E q js t]
  by (auto simp: bq_tick_def split_def Let_def intro: converse_rtranclp_into_rtranclp)

lemma clear_inv: "bq_inv [] (bq_clear q)" "counted (bq_clear q)"
  by (simp_all add: bq_clear_def bq_inv_def lists_ok_def ready_ok_def ready_hashes_def unknown_ok_def unknown_hashes_def sets_ok_def
      jobs_ok_def counted_def unknown_bytes_def)

lemma bq_step_inv: "bq_step E s s' \<Longrightarrow> bq_inv (snd s) (fst s) \<Longrightarrow> bq_inv (snd s') (fst s')"
proof (induction rule: bq_step.induct)
  case (importing order c now isOurs b q r q' js)
  then show ?case using import_inv [OF _ importing(1,2)] by simp
next
  case noting then show ?case using ready_loop_inv by (auto simp: noteReady_WITH_LOCK_def)
qed (auto simp: tick_inv take_inv finish_inv drain_op_inv done_inv retry_inv clear_inv)

lemma bq_step_counted:
  "bq_step E s s' \<Longrightarrow> bq_inv (snd s) (fst s) \<Longrightarrow> counted (fst s) \<Longrightarrow> counted (fst s') \<or> m_future (fst s) \<noteq> [] \<and> fst s' = retryAllUnknown (fst s)"
proof (induction rule: bq_step.induct)
  case (importing order c now isOurs b q r q' js)
  then show ?case using import_inv [OF _ importing(1,2)] by simp
next
  case noting then show ?case using ready_loop_inv by (auto simp: noteReady_WITH_LOCK_def)
next
  case (taking q w q' js) then show ?case by (auto simp: verifier_take_def counted_def unknown_bytes_def split: list.splits)
qed (auto simp: tick_inv finish_inv drain_op_inv done_inv retry_counted clear_inv)

lemma bq_steps_inv:
  assumes "(bq_step E)\<^sup>*\<^sup>* (new_block_queue, []) s" shows "bq_inv (snd s) (fst s)"
  using assms
proof (induction rule: rtranclp_induct)
  case base
  show ?case
    by (simp add: new_block_queue_def bq_inv_def lists_ok_def ready_ok_def ready_hashes_def unknown_ok_def unknown_hashes_def sets_ok_def jobs_ok_def)
qed (rule bq_step_inv)

text \<open>A block whose parent has the hash 1, and an engine that accepts it.\<close>

definition lenient :: seal_engine where
  "lenient = \<lparr>se_verify = (\<lambda>_ _ _ _. Inr ()), se_verifyTransaction = (\<lambda>_ _ _. Inr ()), se_recover = (\<lambda>_ _. []),
     se_tieBreakingGas = True, se_allowFutureBlocks = False\<rparr>"

definition sample_header :: block_header where
  "sample_header = new_header\<lparr>h_parentHash := 1, h_number := 1, h_timestamp := 5\<rparr>"

definition sample_hash :: h256 where
  "sample_hash = h_hash (wire_header [] sample_header)"

definition sample_block :: bytes where
  "sample_block = encode (Items (wire [] sample_header [] []))"

definition sample_job :: unverified_block where
  "sample_job = \<lparr>ub_hash = sample_hash, ub_parentHash = 1, ub_block = sample_block\<rparr>"

lemma sample_verifies:
  "verifyBlock lenient sample_block PostGenesis c
     = Some (Inr \<lparr>vb_block = sample_block, vb_info = wire_header [] sample_header, vb_transactions = []\<rparr>, c)"
  unfolding sample_block_def
  by (rule verifyBlock_Nil)
    (simp_all add: header_wf_def sample_header_def new_header_def header_exists_def Invalid256_def PostGenesis_def has_flag_def ParentCheck_def
      parent_header_def act_ret_def lenient_def)

lemma sample_header_hash: "headerHashFromBlock sample_block = Inr sample_hash"
  using header_hash_block(1) [OF verifyBlock_header(2) [OF sample_verifies]] by (simp add: sample_hash_def)

lemma sample_fields: "h_parentHash (wire_header [] sample_header) = 1" "h_timestamp (wire_header [] sample_header) = 5"
    "h_hash (wire_header [] sample_header) = sample_hash" "h_difficulty (wire_header [] sample_header) = 0"
  by (simp_all add: wire_header_def header_plain_def sample_header_def sample_hash_def new_header_def)

lemma noteReady_none: "m_unknown q = [] \<Longrightarrow> noteReady_WITH_LOCK h q = q"
  by (simp add: noteReady_WITH_LOCK_def ready_loop.simps equal_range_def erase_range_def)

lemma known_none: "fst (isKnown h True (chain_on g (\<lambda>_. None))) \<longleftrightarrow> h = g"
  by (simp add: isKnown_def) (simp add: chain_on_def)

lemma sample_import:
  assumes "g \<noteq> sample_hash" and e: "m_readySet q = {}" "m_drainingSet q = {}" "m_unknownSet q = {}" "m_knownBad q = {}" "m_unknown q = []"
  shows "\<exists>q'. bq_import (\<lambda>xs. xs) lenient (chain_on g (\<lambda>_. None)) 10 False sample_block q
      = Some (Inr (if g = 1 then BqSuccess else BqUnknownParent), q')
    \<and> (g = 1 \<or> m_unknown q' = [(1, sample_hash, sample_block)] \<and> m_readySet q' = {})"
proof -
  have "\<not> fst (isKnown sample_hash True (chain_on g (\<lambda>_. None)))" using assms(1) by (simp add: known_none)
  moreover have "unknown_parent (chain_on g (\<lambda>_. None)) 1 q \<longleftrightarrow> g \<noteq> 1" by (auto simp: unknown_parent_def known_none e)
  moreover have "\<not> (5 :: u256) > 10" by simp
  ultimately show ?thesis
    unfolding bq_import_def sample_header_hash sample_verifies sum.case option.case prod.case Let_def verified_block.simps sample_fields
    by (simp add: e)
qed

section \<open>Properties\<close>

text \<open>C38: the block queue keeps its books.  In every run of imports, ticks, drains and retries, with any number of verifiers that take
  blocks and finish them in any order, if the queue is cleared only while no verifier is at work: the test of
  \<^verbatim>\<open>invariants\<close> holds; the blocks in the three lists are different and their hashes are the ready set; the unknown set has the
  hashes of the blocks that wait for their parent; no block is ready, draining or unknown at once; and every block ready to be drained
  is stored with its own header.  A verifier finishes a block only while no verified block in the list has that block's hash as its own
  or as the hash of its uncles (\<open>apart\<close>), which only a collision of hashes can prevent.\<close>

theorem bq_safe:
  assumes "(bq_step E)\<^sup>*\<^sup>* (new_block_queue, []) (q, js)"
  shows "bq_invariants q \<and> distinct (ready_hashes q) \<and> set (ready_hashes q) = m_readySet q \<and> set (unknown_hashes q) = m_unknownSet q
    \<and> m_readySet q \<inter> m_unknownSet q = {} \<and> m_drainingSet q \<inter> (m_readySet q \<union> m_unknownSet q) = {}
    \<and> (\<forall>v \<in> set (m_verified q). vb_block (qb_verified v) = qb_blockData v \<and> header_new (qb_blockData v) BlockData 0 = Inr (vb_info (qb_verified v)))"
proof -
  have i: "bq_inv js q" using bq_steps_inv [OF assms] by simp
  have "card (m_readySet q) = length (ready_hashes q)" using i by (metis bq_inv_def ready_ok_def distinct_card)
  then have "bq_invariants q" by (simp add: bq_invariants_def ready_hashes_def)
  then show ?thesis using i by (simp add: bq_inv_def ready_ok_def unknown_ok_def sets_ok_def lists_ok_def done_ok_def list_all_iff)
qed

theorem bq_safe_witness:
  "\<exists>q. (bq_step lenient)\<^sup>*\<^sup>* (new_block_queue, []) (q, []) \<and> m_readySet q = {sample_hash} \<and> bq_invariants q"
proof -
  have "\<exists>g :: h256. g \<noteq> sample_hash \<and> g \<noteq> 1"
  proof (cases "sample_hash = 2")
    case True show ?thesis by (rule exI [of _ 3]) (simp add: True)
  next
    case False show ?thesis by (rule exI [of _ 2]) (use False in auto)
  qed
  then obtain g where g: "g \<noteq> sample_hash" "g \<noteq> 1" by blast
  obtain q where run: "bq_import (\<lambda>xs. xs) lenient (chain_on g (\<lambda>_. None)) 10 False sample_block new_block_queue = Some (Inr BqUnknownParent, q)"
    and u: "m_unknown q = [(1, sample_hash, sample_block)]" "m_readySet q = {}"
    using sample_import [OF g(1), of new_block_queue] g(2) by (auto simp: new_block_queue_def)
  have st: "bq_step lenient (new_block_queue, []) (q, [])" by (rule importing [OF _ run]) simp
  have s: "(bq_step lenient)\<^sup>*\<^sup>* (new_block_queue, []) (retryAllUnknown q, [])"
    by (rule rtranclp.rtrancl_into_rtrancl [OF r_into_rtranclp [of "bq_step lenient", OF st] retrying])
  have "m_readySet (retryAllUnknown q) = {sample_hash}" by (simp add: retryAllUnknown_def Let_def retry_loop_fields u)
  then show ?thesis using bq_safe [OF s] s by blast
qed

text \<open>C39: blocks of the future and \<^verbatim>\<open>retryAllUnknown\<close>.  The counters of waiting blocks cover those that wait for their time, but
  \<^verbatim>\<open>retryAllUnknown\<close> sets them to zero and leaves these blocks.  The next tick that takes one of them makes the counter wrap around, and
  the queue counts as full of unknown blocks.\<close>

theorem bq_retry_underflow:
  assumes "m_future q \<noteq> []" and "fst (hd (m_future q)) \<le> now" and "now < 2 ^ 32" and "length (m_future q) < 2 ^ 63"
  shows "unknownFull (snd (tick_take now (retryAllUnknown q)))"
proof -
  let ?n = "length (takeWhile (\<lambda>f. fst f \<le> now) (m_future q))"
  have n: "0 < ?n" "?n < 2 ^ 63"
    using assms length_takeWhile_le [of "\<lambda>f. fst f \<le> now" "m_future q"] by (cases "m_future q"; simp)+
  have "m_unknownCount (snd (tick_take now (retryAllUnknown q))) = 0 - word_of_nat ?n"
    using assms(1-3) by (simp add: tick_take_def Let_def take_futures_fields retryAllUnknown_def retry_loop_fields)
  moreover have "(0 - word_of_nat ?n :: u64) = word_of_nat (2 ^ 64 - ?n)" using n by (simp add: of_nat_diff)
  then have "unat (0 - word_of_nat ?n :: u64) = 2 ^ 64 - ?n" using n by (simp only: unat_word_of_nat_mod) simp
  ultimately have "unat (m_unknownCount (snd (tick_take now (retryAllUnknown q)))) = 2 ^ 64 - ?n" by metis
  moreover have "100000 < (2 :: nat) ^ 64 - ?n" using n(2) by (simp add: less_diff_conv)
  ultimately show ?thesis by (simp only: unknownFull_def c_maxUnknownCount_def) blast
qed

theorem bq_retry_underflow_witness:
  "unknownFull (snd (tick_take 9 (retryAllUnknown (new_block_queue\<lparr>m_future := [(8, 3, [1])], m_unknownSize := 1, m_unknownCount := 1\<rparr>))))"
  by (rule bq_retry_underflow) simp_all

text \<open>C40: clearing the queue while a block is being verified.  If the block is imported again before its verifier finds it bad, the
  verifier takes it out of the ready set but not out of the list, and the test of \<^verbatim>\<open>invariants\<close> fails.\<close>

theorem bq_clear_race:
  assumes "headerHashFromBlock (ub_block w) = Inr (ub_hash w)"
    and "bq_import order E c now isOurs (ub_block w) (bq_clear q) = Some (Inr BqSuccess, q')"
  shows "\<not> bq_invariants (verifier_bad w q')"
proof -
  have "m_readySet q' = {ub_hash w} \<and> length (m_unverified q') = 1 \<and> m_verifying q' = [] \<and> m_verified q' = []"
    using assms
    by (auto simp: bq_import_def Let_def bq_clear_def noteReady_WITH_LOCK_def ready_loop.simps equal_range_def erase_range_def
        split: if_splits option.splits prod.splits sum.splits)
  then show ?thesis by (simp add: verifier_bad_def drainVerified_WITH_BOTH_LOCKS_def erase_job_def bq_invariants_def)
qed

theorem bq_clear_race_witness:
  "sample_hash = 1 \<or> (\<exists>q'. bq_import (\<lambda>xs. xs) lenient (chain_on 1 (\<lambda>_. None)) 10 False sample_block (bq_clear new_block_queue) = Some (Inr BqSuccess, q')
     \<and> \<not> bq_invariants (verifier_bad sample_job q'))"
proof (cases "sample_hash = 1")
  case False
  obtain q' where q': "bq_import (\<lambda>xs. xs) lenient (chain_on 1 (\<lambda>_. None)) 10 False sample_block (bq_clear new_block_queue) = Some (Inr BqSuccess, q')"
    using sample_import [of 1 "bq_clear new_block_queue"] False by (auto simp: bq_clear_def new_block_queue_def)
  then show ?thesis using bq_clear_race [of sample_job] sample_header_hash by (auto simp: sample_job_def)
qed simp

end
