(* ===== verification/Tx_Queue.thy ===== *)
theory Tx_Queue
  imports Transactions
begin

text \<open>
  \<^verbatim>\<open>libelementrem/TransactionQueue.h\<close> and \<^verbatim>\<open>TransactionQueue.cpp\<close>: the pending transactions of
  a node.  \<^verbatim>\<open>m_current\<close> is a \<^verbatim>\<open>std::multiset\<close> of transactions, and two indices hold
  iterators into it; here an iterator is the number of its element, the multiset the list of its
  elements in iteration order, and the default iterator that an index holds for a moment is \<open>None\<close>.
  Following an iterator to an element that is not there is \<open>Undefined\<close>, and so is a failed
  assertion.  An exception keeps the state reached so far (\<open>Throw\<close>), and \<open>Diverges\<close> is a loop
  that makes no progress.

  What the standard leaves open is the parameter \<open>S\<close>: which elements an insertion into the multiset
  is compared with, where it lands when the order is inconsistent, and which key an unordered map
  begins with.
\<close>

section \<open>The containers\<close>

datatype ImportResult =
  Success | UnknownParent | FutureTimeKnown | FutureTimeUnknown | AlreadyInChain | AlreadyKnown | Malformed
| OverbidGasPrice | BadChain

datatype IfDropped = Ignore | Retry

type_synonym h512 = "512 word"

datatype tq_event = OnReady | OnReplaced h256 | OnImport ImportResult h256 h512

record unverified_tx =
  u_transaction :: bytes
  u_nodeId :: h512

record tx_queue =
  m_known :: "h256 set"
  m_dropped :: "h256 set"
  m_current :: "(nat \<times> transaction) list"
  m_currentByHash :: "h256 \<rightharpoonup> nat"
  m_currentByAddressAndNonce :: "address \<rightharpoonup> (u256 \<times> nat option) list"
  m_future :: "address \<rightharpoonup> (u256 \<times> transaction) list"
  m_limit :: "32 word"
  m_futureLimit :: "32 word"
  m_futureSize :: "32 word"
  m_unverified :: "unverified_tx list"
  q_next :: nat
  q_log :: "tq_event list"

datatype 'a tq_res = Ret 'a tx_queue | Throw tx_queue | Undefined | Diverges

definition tq_bind :: "'a tq_res \<Rightarrow> ('a \<Rightarrow> tx_queue \<Rightarrow> 'b tq_res) \<Rightarrow> 'b tq_res" where
  "tq_bind r f = (case r of Ret x q \<Rightarrow> f x q | Throw q \<Rightarrow> Throw q | Undefined \<Rightarrow> Undefined | Diverges \<Rightarrow> Diverges)"

record stdlib =
  cmp_path :: "bool list \<Rightarrow> nat list"
  ins_pos :: "bool list \<Rightarrow> nat"
  map_begin :: "address set \<Rightarrow> address"

text \<open>\<^verbatim>\<open>std::map\<close>, in the order of its keys.\<close>

definition omap_insert :: "u256 \<Rightarrow> 'a \<Rightarrow> (u256 \<times> 'a) list \<Rightarrow> (u256 \<times> 'a) list" where
  "omap_insert k v m = (if map_of m k = None then insort_key fst (k, v) m else m)"

definition omap_set :: "u256 \<Rightarrow> 'a \<Rightarrow> (u256 \<times> 'a) list \<Rightarrow> (u256 \<times> 'a) list" where
  "omap_set k v m = map (\<lambda>(i, x). (i, if i = k then v else x)) m"

definition omap_erase :: "u256 \<Rightarrow> (u256 \<times> 'a) list \<Rightarrow> (u256 \<times> 'a) list" where
  "omap_erase k m = filter (\<lambda>(i, _). i \<noteq> k) m"

definition omap_from :: "u256 \<Rightarrow> (u256 \<times> 'a) list \<Rightarrow> (u256 \<times> 'a) list" where
  "omap_from k m = dropWhile (\<lambda>(i, _). i < k) m"

definition omap_until :: "u256 \<Rightarrow> (u256 \<times> 'a) list \<Rightarrow> (u256 \<times> 'a) list" where
  "omap_until k m = takeWhile (\<lambda>(i, _). i < k) m"

text \<open>\<^verbatim>\<open>operator[]\<close> of the outer map creates the entry; an inner map that is empty is erased.\<close>

definition inner :: "(address \<rightharpoonup> 'a list) \<Rightarrow> address \<Rightarrow> 'a list" where
  "inner m a = (case m a of None \<Rightarrow> [] | Some xs \<Rightarrow> xs)"

definition put_inner :: "address \<Rightarrow> 'a list \<Rightarrow> (address \<rightharpoonup> 'a list) \<Rightarrow> (address \<rightharpoonup> 'a list)" where
  "put_inner a xs m = m(a := if xs = [] then None else Some xs)"

section \<open>Transactions\<close>

definition q_hash :: "transaction \<Rightarrow> h256" where
  "q_hash t = (case tx_sha3 WithSignature t of Inl _ \<Rightarrow> 0 | Inr (h, _) \<Rightarrow> h)"

abbreviation q_from :: "recover_fun \<Rightarrow> transaction \<Rightarrow> address" where
  "q_from \<equiv> tx_safeSender"

definition sender_throws :: "recover_fun \<Rightarrow> transaction \<Rightarrow> bool" where
  "sender_throws rc t = (case tx_sender rc t of Inl _ \<Rightarrow> True | Inr _ \<Rightarrow> False)"

section \<open>The priority queue\<close>

definition height :: "recover_fun \<Rightarrow> tx_queue \<Rightarrow> transaction \<Rightarrow> u256" where
  "height rc q t = t_nonce t - fst (hd (inner (m_currentByAddressAndNonce q) (q_from rc t)))"

definition prio_less :: "recover_fun \<Rightarrow> tx_queue \<Rightarrow> transaction \<Rightarrow> transaction \<Rightarrow> bool" where
  "prio_less rc q a b =
     (let h1 = height rc q a; h2 = height rc q b in h1 < h2 \<or> (h1 = h2 \<and> t_gasPrice a > t_gasPrice b))"

text \<open>The comparison calls \<^verbatim>\<open>sender()\<close> of both, which throws if there is none, and
  \<^verbatim>\<open>begin()->first\<close> on the map of each.\<close>

definition emplace :: "stdlib \<Rightarrow> recover_fun \<Rightarrow> transaction \<Rightarrow> tx_queue \<Rightarrow> nat tq_res" where
  "emplace S rc t q =
     (let xs = m_current q;
          bs = map (\<lambda>(_, x). prio_less rc q t x) xs;
          cs = (if xs = [] then [] else t # map (\<lambda>i. snd (xs ! i)) (cmp_path S bs));
          p = ins_pos S bs; i = q_next q in
      if list_ex (sender_throws rc) cs then Throw q
      else if list_ex (\<lambda>x. inner (m_currentByAddressAndNonce q) (q_from rc x) = []) cs then Undefined
      else Ret i (q\<lparr>m_current := take p xs @ (i, t) # drop p xs, q_next := Suc i\<rparr>))"

definition deref_it :: "tx_queue \<Rightarrow> nat \<Rightarrow> transaction option" where
  "deref_it q i = map_of (m_current q) i"

section \<open>The operations\<close>

definition check_WITH_LOCK :: "h256 \<Rightarrow> IfDropped \<Rightarrow> tx_queue \<Rightarrow> ImportResult" where
  "check_WITH_LOCK h ik q =
     (if h \<in> m_known q then AlreadyKnown
      else if h \<in> m_dropped q \<and> ik = Ignore then AlreadyInChain else Success)"

definition remove_WITH_LOCK :: "recover_fun \<Rightarrow> h256 \<Rightarrow> tx_queue \<Rightarrow> bool tq_res" where
  "remove_WITH_LOCK rc h q =
     (case m_currentByHash q h of
        None \<Rightarrow> Ret False q
      | Some i \<Rightarrow>
          (case deref_it q i of
             None \<Rightarrow> Undefined
           | Some t \<Rightarrow>
               (case m_currentByAddressAndNonce q (q_from rc t) of
                  None \<Rightarrow> Undefined
                | Some m \<Rightarrow>
                    Ret True
                      (q\<lparr>m_current := filter (\<lambda>(j, _). j \<noteq> i) (m_current q),
                         m_currentByHash := (m_currentByHash q)(h := None),
                         m_currentByAddressAndNonce :=
                           put_inner (q_from rc t) (omap_erase (t_nonce t) m) (m_currentByAddressAndNonce q),
                         m_known := m_known q - {h}\<rparr>))))"

text \<open>A transaction enters \<^verbatim>\<open>m_current\<close>: a slot in the index by nonce, the element, its
  handle in both indices.\<close>

definition add_current :: "stdlib \<Rightarrow> recover_fun \<Rightarrow> address \<Rightarrow> h256 \<Rightarrow> transaction \<Rightarrow> tx_queue \<Rightarrow> unit tq_res" where
  "add_current S rc a h t q =
     (let q1 = q\<lparr>m_currentByAddressAndNonce :=
            (m_currentByAddressAndNonce q)(a \<mapsto> omap_insert (t_nonce t) None (inner (m_currentByAddressAndNonce q) a))\<rparr> in
      tq_bind (emplace S rc t q1) (\<lambda>i q2.
        Ret () (q2\<lparr>m_currentByAddressAndNonce :=
            (m_currentByAddressAndNonce q2)(a \<mapsto> omap_set (t_nonce t) (Some i) (inner (m_currentByAddressAndNonce q2) a)),
          m_currentByHash := (m_currentByHash q2)(h \<mapsto> i)\<rparr>)))"

text \<open>The loop of \<^verbatim>\<open>makeCurrent_WITH_LOCK\<close> over the future transactions that follow; it
  returns those it did not take.  When an insertion throws, its element of the future map and those taken
  before it are still there and have been moved from.\<close>

definition moved_from :: "address \<Rightarrow> u256 \<Rightarrow> transaction \<Rightarrow> tx_queue \<Rightarrow> tx_queue" where
  "moved_from a k t q = q\<lparr>m_future := (m_future q)(a \<mapsto> omap_set k (t\<lparr>t_data := []\<rparr>) (inner (m_future q) a))\<rparr>"

fun promote_loop ::
  "stdlib \<Rightarrow> recover_fun \<Rightarrow> address \<Rightarrow> u256 \<Rightarrow> (u256 \<times> transaction) list \<Rightarrow> tx_queue \<Rightarrow> (u256 \<times> transaction) list tq_res" where
  "promote_loop S rc a n [] q = Ret [] q"
| "promote_loop S rc a n ((k, t) # fs) q =
     (if t_nonce t = n then
        (case add_current S rc a (q_hash t) t q of
           Ret _ q1 \<Rightarrow>
             (case promote_loop S rc a (n + 1) fs (q1\<lparr>m_futureSize := m_futureSize q1 - 1\<rparr>) of
                Throw q2 \<Rightarrow> Throw (moved_from a k t q2)
              | res \<Rightarrow> res)
         | Throw q1 \<Rightarrow> Throw (moved_from a k t q1)
         | Undefined \<Rightarrow> Undefined | Diverges \<Rightarrow> Diverges)
      else Ret ((k, t) # fs) q)"

text \<open>Dropping future transactions beyond the limit.\<close>

function trim_future :: "stdlib \<Rightarrow> tx_queue \<Rightarrow> unit tq_res" where
  "trim_future S q =
     (if m_futureSize q > m_futureLimit q then
        (if dom (m_future q) = {} then Undefined
         else
           (let a = map_begin S (dom (m_future q)) in
            trim_future S (q\<lparr>m_futureSize := m_futureSize q - 1,
              m_future := put_inner a (butlast (inner (m_future q) a)) (m_future q)\<rparr>)))
      else Ret () q)"
  by pat_completeness auto

termination trim_future
proof (relation "measure (\<lambda>(S, q). unat (m_futureSize q))", goal_cases)
  case (2 S q x)
  then have "m_futureSize q \<noteq> 0" by auto
  then show ?case by (simp add: unat_gt_0 unat_minus_one)
qed simp

declare trim_future.simps [simp del]

definition makeCurrent_WITH_LOCK :: "stdlib \<Rightarrow> recover_fun \<Rightarrow> transaction \<Rightarrow> tx_queue \<Rightarrow> unit tq_res" where
  "makeCurrent_WITH_LOCK S rc t q =
     (let a = q_from rc t; n = t_nonce t + 1; fs = inner (m_future q) a;
          newCurrent = (map_of fs n \<noteq> None) in
      tq_bind
        (if newCurrent then
           tq_bind (promote_loop S rc a n (omap_from n fs) q) (\<lambda>rest q1.
             Ret () (q1\<lparr>m_future := put_inner a (omap_until n fs @ rest) (m_future q1)\<rparr>))
         else Ret () q)
        (\<lambda>_ q2. tq_bind (trim_future S q2) (\<lambda>_ q3.
          Ret () (if newCurrent then q3\<lparr>q_log := q_log q3 @ [OnReady]\<rparr> else q3))))"

definition insertCurrent_WITH_LOCK :: "stdlib \<Rightarrow> recover_fun \<Rightarrow> h256 \<Rightarrow> transaction \<Rightarrow> tx_queue \<Rightarrow> unit tq_res" where
  "insertCurrent_WITH_LOCK S rc h t q =
     (if m_currentByHash q h \<noteq> None then Ret () q
      else
        tq_bind (add_current S rc (q_from rc t) h t q) (\<lambda>_ q1.
        tq_bind (makeCurrent_WITH_LOCK S rc t q1) (\<lambda>_ q2.
          Ret () (q2\<lparr>m_known := insert h (m_known q2)\<rparr>))))"

text \<open>Dropping the last of the queue until it is within its limit; a removal that finds nothing is
  repeated for ever.\<close>

function trim_current :: "recover_fun \<Rightarrow> tx_queue \<Rightarrow> unit tq_res" where
  "trim_current rc q =
     (if length (m_current q) > unat (m_limit q) then
        (case remove_WITH_LOCK rc (q_hash (snd (last (m_current q)))) q of
           Ret _ q1 \<Rightarrow> if length (m_current q1) < length (m_current q) then trim_current rc q1 else Diverges
         | Throw q1 \<Rightarrow> Throw q1 | Undefined \<Rightarrow> Undefined | Diverges \<Rightarrow> Diverges)
      else Ret () q)"
  by pat_completeness auto

termination trim_current
  by (relation "measure (\<lambda>(rc, q). length (m_current q))") auto

declare trim_current.simps [simp del]

text \<open>The two early exits of \<^verbatim>\<open>manageImport_WITH_LOCK\<close>: a transaction of the same sender and
  nonce that pays more.  Otherwise the older one goes.\<close>

definition replace_current :: "recover_fun \<Rightarrow> transaction \<Rightarrow> tx_queue \<Rightarrow> bool tq_res" where
  "replace_current rc t q =
     (case m_currentByAddressAndNonce q (q_from rc t) of
        None \<Rightarrow> Ret True q
      | Some m \<Rightarrow>
          (case map_of m (t_nonce t) of
             None \<Rightarrow> Ret True q
           | Some v \<Rightarrow>
               (case Option.bind v (deref_it q) of
                  None \<Rightarrow> Undefined
                | Some x \<Rightarrow>
                    if t_gasPrice t < t_gasPrice x then Ret False q
                    else tq_bind (remove_WITH_LOCK rc (q_hash x) q) (\<lambda>_ q1.
                      Ret True (q1\<lparr>q_log := q_log q1 @ [OnReplaced (q_hash x)]\<rparr>)))))"

definition replace_future :: "recover_fun \<Rightarrow> transaction \<Rightarrow> tx_queue \<Rightarrow> bool tq_res" where
  "replace_future rc t q =
     (case m_future q (q_from rc t) of
        None \<Rightarrow> Ret True q
      | Some m \<Rightarrow>
          (case map_of m (t_nonce t) of
             None \<Rightarrow> Ret True q
           | Some x \<Rightarrow>
               if t_gasPrice t < t_gasPrice x then Ret False q
               else Ret True (q\<lparr>m_future := put_inner (q_from rc t) (omap_erase (t_nonce t) m) (m_future q),
                                m_futureSize := m_futureSize q - 1\<rparr>)))"

definition manageImport_body :: "stdlib \<Rightarrow> recover_fun \<Rightarrow> h256 \<Rightarrow> transaction \<Rightarrow> tx_queue \<Rightarrow> ImportResult tq_res" where
  "manageImport_body S rc h t q =
     (if h \<noteq> q_hash t then Undefined
      else
        tq_bind (replace_current rc t q) (\<lambda>go q1. if \<not> go then Ret OverbidGasPrice q1 else
        tq_bind (replace_future rc t q1) (\<lambda>go q2. if \<not> go then Ret OverbidGasPrice q2 else
        tq_bind (insertCurrent_WITH_LOCK S rc h t q2) (\<lambda>_ q3.
        tq_bind (trim_current rc q3) (\<lambda>_ q4.
          Ret Success (q4\<lparr>q_log := q_log q4 @ [OnReady]\<rparr>))))))"

definition manageImport_WITH_LOCK :: "stdlib \<Rightarrow> recover_fun \<Rightarrow> h256 \<Rightarrow> transaction \<Rightarrow> tx_queue \<Rightarrow> ImportResult tq_res" where
  "manageImport_WITH_LOCK S rc h t q =
     (case manageImport_body S rc h t q of Throw q1 \<Rightarrow> Ret Malformed q1 | r \<Rightarrow> r)"

definition import_tx :: "stdlib \<Rightarrow> recover_fun \<Rightarrow> transaction \<Rightarrow> IfDropped \<Rightarrow> tx_queue \<Rightarrow> ImportResult tq_res" where
  "import_tx S rc t ik q =
     (let h = q_hash t; ir = check_WITH_LOCK h ik q in
      if ir \<noteq> Success then Ret ir q else manageImport_WITH_LOCK S rc h t q)"

definition import_rlp :: "stdlib \<Rightarrow> recover_fun \<Rightarrow> bytes \<Rightarrow> IfDropped \<Rightarrow> tx_queue \<Rightarrow> ImportResult tq_res" where
  "import_rlp S rc b ik q =
     (let h = sha3 b; ir = check_WITH_LOCK h ik q in
      if ir \<noteq> Success then Ret ir q
      else (case tx_parse rc Everything b of
              Inl _ \<Rightarrow> Ret Malformed q
            | Inr t \<Rightarrow> manageImport_WITH_LOCK S rc h t q))"

text \<open>The loop of \<^verbatim>\<open>setFuture\<close>: \<^verbatim>\<open>emplace\<close> of the future map does not replace.\<close>

fun future_loop :: "address \<Rightarrow> (u256 \<times> nat option) list \<Rightarrow> tx_queue \<Rightarrow> unit tq_res" where
  "future_loop a [] q = Ret () q"
| "future_loop a ((k, v) # ms) q =
     (case v of
        None \<Rightarrow> Undefined
      | Some i \<Rightarrow>
          (case deref_it q i of
             None \<Rightarrow> Undefined
           | Some t \<Rightarrow>
               future_loop a ms
                 (q\<lparr>m_currentByHash := (m_currentByHash q)(q_hash t := None),
                    m_future := (m_future q)(a \<mapsto> omap_insert (t_nonce t) t (inner (m_future q) a)),
                    m_current := filter (\<lambda>(j, _). j \<noteq> i) (m_current q),
                    m_futureSize := m_futureSize q + 1\<rparr>)))"

definition setFuture :: "recover_fun \<Rightarrow> h256 \<Rightarrow> tx_queue \<Rightarrow> unit tq_res" where
  "setFuture rc h q =
     (case m_currentByHash q h of
        None \<Rightarrow> Ret () q
      | Some i \<Rightarrow>
          (case deref_it q i of
             None \<Rightarrow> Undefined
           | Some st \<Rightarrow>
               (let a = q_from rc st; queue = inner (m_currentByAddressAndNonce q) a; n = t_nonce st in
                tq_bind (future_loop a (omap_from n queue) (q\<lparr>m_future := (m_future q)(a \<mapsto> inner (m_future q) a)\<rparr>)) (\<lambda>_ q1.
                  Ret () (q1\<lparr>m_currentByAddressAndNonce := put_inner a (omap_until n queue) (m_currentByAddressAndNonce q1)\<rparr>)))))"

definition drop_tx :: "recover_fun \<Rightarrow> h256 \<Rightarrow> tx_queue \<Rightarrow> unit tq_res" where
  "drop_tx rc h q =
     (if h \<notin> m_known q then Ret () q
      else tq_bind (remove_WITH_LOCK rc h (q\<lparr>m_dropped := insert h (m_dropped q)\<rparr>)) (\<lambda>_ q1. Ret () q1))"

definition dropGood :: "stdlib \<Rightarrow> recover_fun \<Rightarrow> transaction \<Rightarrow> tx_queue \<Rightarrow> unit tq_res" where
  "dropGood S rc t q =
     tq_bind (makeCurrent_WITH_LOCK S rc t q) (\<lambda>_ q1.
       if q_hash t \<notin> m_known q1 then Ret () q1
       else tq_bind (remove_WITH_LOCK rc (q_hash t) q1) (\<lambda>_ q2. Ret () q2))"

definition tq_clear :: "tx_queue \<Rightarrow> tx_queue" where
  "tq_clear q = q\<lparr>m_known := {}, m_current := [], m_currentByAddressAndNonce := Map.empty, m_currentByHash := Map.empty,
     m_future := Map.empty, m_futureSize := 0\<rparr>"

definition tq_new :: "32 word \<Rightarrow> 32 word \<Rightarrow> tx_queue" where
  "tq_new limit futureLimit =
     \<lparr>m_known = {}, m_dropped = {}, m_current = [], m_currentByHash = Map.empty, m_currentByAddressAndNonce = Map.empty,
      m_future = Map.empty, m_limit = limit, m_futureLimit = futureLimit, m_futureSize = 0, m_unverified = [],
      q_next = 0, q_log = []\<rparr>"

section \<open>Reading the queue\<close>

definition topTransactions :: "nat \<Rightarrow> h256 set \<Rightarrow> tx_queue \<Rightarrow> transaction list" where
  "topTransactions limit avoid q = take limit (filter (\<lambda>t. q_hash t \<notin> avoid) (map snd (m_current q)))"

definition maxNonce :: "address \<Rightarrow> tx_queue \<Rightarrow> u256" where
  "maxNonce a q =
     (let cs = inner (m_currentByAddressAndNonce q) a; fs = inner (m_future q) a;
          ret = (if cs = [] then 0 else fst (last cs) + 1) in
      if fs = [] then ret else max ret (fst (last fs) + 1))"

definition waiting :: "address \<Rightarrow> tx_queue \<Rightarrow> 32 word" where
  "waiting a q = word_of_nat (length (inner (m_currentByAddressAndNonce q) a)) + word_of_nat (length (inner (m_future q) a))"

section \<open>The verification queue\<close>

definition c_maxVerificationQueueSize :: nat where "c_maxVerificationQueueSize = 8192"

text \<open>The element is move-constructed from a temporary, and that constructor takes only the bytes: the
  node id of the element is the default one.\<close>

definition unverified_move :: "unverified_tx \<Rightarrow> unverified_tx" where
  "unverified_move u = \<lparr>u_transaction = u_transaction u, u_nodeId = 0\<rparr>"

fun enqueue_loop :: "bytes \<Rightarrow> h512 \<Rightarrow> nat list \<Rightarrow> rlp_cache \<Rightarrow> tx_queue \<Rightarrow> unit tq_res" where
  "enqueue_loop d node [] c q = Ret () q"
| "enqueue_loop d node (i # js) c q =
     (if length (m_unverified q) \<ge> c_maxVerificationQueueSize then Ret () q
      else (case subscript d c i of
              (Inl _, _) \<Rightarrow> Throw q
            | (Inr b, c') \<Rightarrow>
                enqueue_loop d node js c'
                  (q\<lparr>m_unverified := m_unverified q @ [unverified_move \<lparr>u_transaction = b, u_nodeId = node\<rparr>]\<rparr>)))"

definition enqueue :: "bytes \<Rightarrow> h512 \<Rightarrow> tx_queue \<Rightarrow> unit tq_res" where
  "enqueue d node q = (case itemCount d of Inl _ \<Rightarrow> Throw q | Inr n \<Rightarrow> enqueue_loop d node [0..<n] fresh_cache q)"

text \<open>One round of \<^verbatim>\<open>verifierBody\<close>; the thread waits while there is nothing to do.\<close>

definition verifier_step :: "stdlib \<Rightarrow> recover_fun \<Rightarrow> tx_queue \<Rightarrow> unit tq_res" where
  "verifier_step S rc q =
     (case m_unverified q of
        [] \<Rightarrow> Ret () q
      | w # ws \<Rightarrow>
          (let q1 = q\<lparr>m_unverified := ws\<rparr> in
           case tx_parse rc Cheap (u_transaction w) of
             Inl _ \<Rightarrow> Ret () q1
           | Inr t \<Rightarrow>
               (case import_tx S rc t Ignore q1 of
                  Ret ir q2 \<Rightarrow> Ret () (q2\<lparr>q_log := q_log q2 @ [OnImport ir (q_hash t) (u_nodeId w)]\<rparr>)
                | Throw q2 \<Rightarrow> Ret () q2
                | Undefined \<Rightarrow> Undefined | Diverges \<Rightarrow> Diverges)))"

end
