(* ===== verification/Tx_Queue_Safe.thy ===== *)
theory Tx_Queue_Safe
  imports Tx_Queue
begin

text \<open>
  The indices of the transaction queue agree, whatever operations run on it, as long as the senders of
  the transactions can be recovered.
\<close>

section \<open>Ordered maps\<close>

definition okm :: "(u256 \<times> 'a) list \<Rightarrow> bool" where
  "okm m = sorted_wrt (<) (map fst m)"

lemma okm_distinct: "okm m \<Longrightarrow> distinct (map fst m)"
  by (simp add: okm_def strict_sorted_iff)

lemma omap_insert_ok:
  assumes "okm m"
  shows "okm (omap_insert k v m)" and "omap_insert k v m \<noteq> []"
    and "map_of (omap_insert k v m) = (map_of m)(k := Some (case map_of m k of None \<Rightarrow> v | Some x \<Rightarrow> x))"
proof -
  have m: "map_of (insort_key fst (k, v) m) = (map_of m)(k \<mapsto> v)" if "k \<notin> fst ` set m"
    using that by (induction m) (auto simp: fun_eq_iff)
  have "sorted (map fst (insort_key fst (k, v) m))" using assms by (simp add: okm_def strict_sorted_iff sorted_insort_key)
  moreover have "distinct (map fst (insort_key fst (k, v) m))" if "k \<notin> fst ` set m"
    using that assms okm_distinct [OF assms] by (simp add: distinct_insort_key)
  ultimately show "okm (omap_insert k v m)" using assms by (auto simp: omap_insert_def map_of_eq_None_iff okm_def strict_sorted_iff)
  show "map_of (omap_insert k v m) = (map_of m)(k := Some (case map_of m k of None \<Rightarrow> v | Some x \<Rightarrow> x))"
    using m by (cases "map_of m k") (auto simp: omap_insert_def dest: map_of_eq_None_iff [THEN iffD1] weak_map_of_SomeI)
  show "omap_insert k v m \<noteq> []" by (auto simp: omap_insert_def dest: map_of_SomeD)
qed

lemma length_omap_insert: "length (omap_insert k v m) = (if map_of m k = None then Suc (length m) else length m)"
  by (simp add: omap_insert_def)

lemma omap_set_ok:
  shows "okm m \<Longrightarrow> okm (omap_set k v m)" and "omap_set k v m = [] \<longleftrightarrow> m = []"
    and "map_of (omap_set k v m) j = (if j = k \<and> map_of m k \<noteq> None then Some v else map_of m j)"
proof -
  have "map fst (omap_set k v m) = map fst m" by (induction m) (auto simp: omap_set_def)
  then show "okm m \<Longrightarrow> okm (omap_set k v m)" by (simp add: okm_def)
  show "omap_set k v m = [] \<longleftrightarrow> m = []" by (simp add: omap_set_def)
  show "map_of (omap_set k v m) j = (if j = k \<and> map_of m k \<noteq> None then Some v else map_of m j)"
    by (induction m) (auto simp: omap_set_def)
qed

lemma omap_erase_ok:
  shows "okm m \<Longrightarrow> okm (omap_erase k m)" and "map_of (omap_erase k m) j = (if j = k then None else map_of m j)"
proof -
  have "okm m \<Longrightarrow> okm (filter P m)" for P by (induction m) (auto simp: okm_def)
  then show "okm m \<Longrightarrow> okm (omap_erase k m)" by (simp add: omap_erase_def)
  show "map_of (omap_erase k m) j = (if j = k then None else map_of m j)" by (induction m) (auto simp: omap_erase_def)
qed

lemma length_omap_erase:
  assumes "okm m" and "map_of m k = Some v"
  shows "Suc (length (omap_erase k m)) = length m"
proof -
  obtain xs ys where m: "m = xs @ (k, v) # ys" using assms(2) by (meson map_of_SomeD split_list)
  then have "k \<notin> fst ` set xs" "k \<notin> fst ` set ys" using okm_distinct [OF assms(1)] by auto
  then have "omap_erase k xs = xs" "omap_erase k ys = ys" by (force simp: omap_erase_def filter_id_conv)+
  then show ?thesis by (simp add: m omap_erase_def)
qed

lemma omap_erase_middle: "okm (xs @ (k, v) # ys) \<Longrightarrow> omap_erase k (xs @ (k, v) # ys) = xs @ ys"
proof -
  assume "okm (xs @ (k, v) # ys)"
  from okm_distinct [OF this] have "k \<notin> fst ` set xs" "k \<notin> fst ` set ys" by auto
  then have "omap_erase k xs = xs" "omap_erase k ys = ys" by (force simp: omap_erase_def filter_id_conv)+
  then show ?thesis by (simp add: omap_erase_def)
qed

lemma omap_split: "omap_until k m @ omap_from k m = m"
  by (simp add: omap_until_def omap_from_def)

lemma omap_from_Some: "map_of m k \<noteq> None \<Longrightarrow> omap_from k m \<noteq> []"
  by (force simp: omap_from_def dest: map_of_SomeD)

section \<open>Maps of maps\<close>

lemma inner_simps [simp]:
  "inner (m(a \<mapsto> xs)) a = xs" "inner (put_inner a xs m) a = xs"
  "b \<noteq> a \<Longrightarrow> inner (m(a \<mapsto> xs)) b = inner m b" "b \<noteq> a \<Longrightarrow> inner (put_inner a xs m) b = inner m b"
  by (auto simp: inner_def put_inner_def)

lemma inner_if:
  "inner (m(a \<mapsto> xs)) b = (if b = a then xs else inner m b)" "inner (put_inner a xs m) b = (if b = a then xs else inner m b)"
  by auto

definition maps_ok :: "(address \<rightharpoonup> (u256 \<times> 'a) list) \<Rightarrow> bool" where
  "maps_ok m = (\<forall>a xs. m a = Some xs \<longrightarrow> xs \<noteq> [] \<and> okm xs)"

lemma maps_okD: "maps_ok m \<Longrightarrow> okm (inner m a)" "maps_ok m \<Longrightarrow> m a = Some xs \<Longrightarrow> xs \<noteq> []"
  by (auto simp: maps_ok_def inner_def okm_def split: option.splits)

lemma maps_ok_put: "maps_ok m \<Longrightarrow> okm xs \<Longrightarrow> maps_ok (put_inner a xs m)"
  by (auto simp: maps_ok_def put_inner_def)

lemma maps_ok_upd: "maps_ok m \<Longrightarrow> okm xs \<Longrightarrow> xs \<noteq> [] \<Longrightarrow> maps_ok (m(a \<mapsto> xs))"
  by (auto simp: maps_ok_def)

lemma maps_ok_inner: "maps_ok m \<Longrightarrow> put_inner a (inner m a) m = m"
  by (auto simp: put_inner_def inner_def fun_eq_iff split: option.splits dest: maps_okD(2))

lemma put_put [simp]: "put_inner a xs (put_inner a ys m) = put_inner a xs m" "put_inner a xs (m(a \<mapsto> ys)) = put_inner a xs m"
  by (simp_all add: put_inner_def)

definition total :: "(address \<rightharpoonup> 'a list) \<Rightarrow> nat" where
  "total m = (\<Sum>a\<in>dom m. length (inner m a))"

lemma dom_put: "dom (put_inner a xs m) = (if xs = [] then dom m - {a} else insert a (dom m))"
  by (auto simp: put_inner_def split: if_splits)

lemma total_split:
  assumes "finite (dom m)"
  shows "total m = length (inner m a) + (\<Sum>b\<in>dom m - {a}. length (inner m b))"
proof (cases "a \<in> dom m")
  case True
  then show ?thesis unfolding total_def by (rule sum.remove [OF assms])
next
  case False
  then have "m a = None" by auto
  with False show ?thesis by (simp add: total_def inner_def)
qed

lemma total_put:
  assumes "finite (dom m)"
  shows "total (put_inner a xs m) + length (inner m a) = total m + length xs"
proof -
  have "finite (dom (put_inner a xs m))" using assms by (simp add: dom_put)
  from total_split [OF this, of a] have "total (put_inner a xs m) = length xs + (\<Sum>b\<in>dom m - {a}. length (inner m b))"
    by (simp add: dom_put)
  then show ?thesis using total_split [OF assms, of a] by simp
qed

lemma total_put_eq:
  assumes "finite (dom m)"
  shows "total (put_inner a xs m) = total m + length xs - length (inner m a)"
  using total_put [OF assms, of a xs] by linarith

section \<open>The invariant\<close>

abbreviation cur :: "tx_queue \<Rightarrow> (nat \<times> transaction) set" where
  "cur q \<equiv> set (m_current q)"

definition fut :: "tx_queue \<Rightarrow> transaction set" where
  "fut q = {t. \<exists>a n. map_of (inner (m_future q) a) n = Some t}"

definition txs :: "tx_queue \<Rightarrow> transaction set" where
  "txs q = snd ` cur q \<union> fut q"

definition index_ok :: "recover_fun \<Rightarrow> tx_queue \<Rightarrow> bool" where
  "index_ok rc q =
     (distinct (map fst (m_current q)) \<and> (\<forall>i t. (i, t) \<in> cur q \<longrightarrow> i < q_next q)
      \<and> (\<forall>h i. m_currentByHash q h = Some i \<longleftrightarrow> (\<exists>t. (i, t) \<in> cur q \<and> q_hash t = h))
      \<and> maps_ok (m_currentByAddressAndNonce q)
      \<and> (\<forall>a n v. map_of (inner (m_currentByAddressAndNonce q) a) n = Some v
           \<longleftrightarrow> (\<exists>i t. v = Some i \<and> (i, t) \<in> cur q \<and> q_from rc t = a \<and> t_nonce t = n)))"

definition future_ok :: "recover_fun \<Rightarrow> tx_queue \<Rightarrow> bool" where
  "future_ok rc q =
     (maps_ok (m_future q) \<and> finite (dom (m_future q))
      \<and> (\<forall>a n t. map_of (inner (m_future q) a) n = Some t \<longrightarrow> q_from rc t = a \<and> t_nonce t = n)
      \<and> m_futureSize q = word_of_nat (total (m_future q))
      \<and> (\<forall>i t. (i, t) \<in> cur q \<longrightarrow> map_of (inner (m_future q) (q_from rc t)) (t_nonce t) = None))"

definition hashes_ok :: "recover_fun \<Rightarrow> h256 set \<Rightarrow> tx_queue \<Rightarrow> bool" where
  "hashes_ok rc K q =
     (inj_on q_hash (txs q) \<and> (\<forall>t\<in>txs q. q_hash t \<in> K \<and> \<not> sender_throws rc t))"

definition tq_inv :: "recover_fun \<Rightarrow> h256 set \<Rightarrow> tx_queue \<Rightarrow> bool" where
  "tq_inv rc K q = (index_ok rc q \<and> future_ok rc q \<and> hashes_ok rc K q)"

lemma tq_invD: "tq_inv rc K q \<Longrightarrow> index_ok rc q" "tq_inv rc K q \<Longrightarrow> future_ok rc q" "tq_inv rc K q \<Longrightarrow> hashes_ok rc K q"
  by (simp_all add: tq_inv_def)

lemma tq_new_inv: "tq_inv rc {} (tq_new l f)"
  by (simp add: tq_inv_def index_ok_def future_ok_def hashes_ok_def tq_new_def maps_ok_def total_def txs_def fut_def inner_def)

definition std_ok :: "stdlib \<Rightarrow> bool" where
  "std_ok S = ((\<forall>bs. bs \<noteq> [] \<longrightarrow> cmp_path S bs \<noteq> [] \<and> (\<forall>i\<in>set (cmp_path S bs). i < length bs))
     \<and> (\<forall>a b. ins_pos S (replicate a False @ replicate b True) = a)
     \<and> (\<forall>A. A \<noteq> {} \<longrightarrow> map_begin S A \<in> A))"

lemma std_ok_begin: "std_ok S \<Longrightarrow> A \<noteq> {} \<Longrightarrow> map_begin S A \<in> A"
  by (simp add: std_ok_def)

section \<open>Elementary steps\<close>

lemma index_ok_map: "index_ok rc q \<Longrightarrow> (i, t) \<in> cur q \<Longrightarrow> deref_it q i = Some t"
  by (simp add: index_ok_def deref_it_def)

lemma index_okD:
  assumes "index_ok rc q"
  shows "distinct (map fst (m_current q))" and "(i, t) \<in> cur q \<Longrightarrow> i < q_next q"
    and "m_currentByHash q h = Some i \<longleftrightarrow> (\<exists>t. (i, t) \<in> cur q \<and> q_hash t = h)"
    and "maps_ok (m_currentByAddressAndNonce q)"
    and "map_of (inner (m_currentByAddressAndNonce q) a) n = Some v
           \<longleftrightarrow> (\<exists>i t. v = Some i \<and> (i, t) \<in> cur q \<and> q_from rc t = a \<and> t_nonce t = n)"
  using assms unfolding index_ok_def by blast+

lemma emplace_ok:
  assumes S: "std_ok S" and t: "\<not> sender_throws rc t" "inner (m_currentByAddressAndNonce q) (q_from rc t) \<noteq> []"
    and q: "\<And>i x. (i, x) \<in> cur q \<Longrightarrow> \<not> sender_throws rc x \<and> inner (m_currentByAddressAndNonce q) (q_from rc x) \<noteq> []"
  obtains p where "emplace S rc t q =
    Ret (q_next q) (q\<lparr>m_current := take p (m_current q) @ (q_next q, t) # drop p (m_current q), q_next := Suc (q_next q)\<rparr>)"
proof -
  let ?bs = "map (\<lambda>(_, x). prio_less rc q t x) (m_current q)"
  have "\<not> sender_throws rc x \<and> inner (m_currentByAddressAndNonce q) (q_from rc x) \<noteq> []"
    if mem: "x \<in> set (if m_current q = [] then [] else t # map (\<lambda>i. snd (m_current q ! i)) (cmp_path S ?bs))" for x
  proof (cases "x = t")
    case False
    then obtain i where i: "m_current q \<noteq> []" "i \<in> set (cmp_path S ?bs)" "x = snd (m_current q ! i)" using mem by (cases "m_current q = []") auto
    then have "i < length (m_current q)" using S unfolding std_ok_def by (metis length_map map_is_Nil_conv)
    then have "(fst (m_current q ! i), x) \<in> cur q" using i(3) by (metis nth_mem prod.collapse)
    then show ?thesis using q by blast
  qed (use t in simp)
  then show ?thesis using that by (auto simp: emplace_def Let_def list_ex_iff)
qed

lemma set_take_drop: "set (take p xs @ x # drop p xs) = insert x (set xs)"
  by (metis append_take_drop_id Un_insert_right list.simps(15) set_append)

lemma distinct_take_drop: "distinct (map fst (take p xs @ x # drop p xs)) \<longleftrightarrow> distinct (map fst xs) \<and> fst x \<notin> fst ` set xs"
proof -
  have e: "map fst xs = map fst (take p xs) @ map fst (drop p xs)" by (metis append_take_drop_id map_append)
  have "fst ` set xs = set (map fst xs)" by simp
  then show ?thesis by (auto simp: e simp del: list.set_map)
qed

text \<open>A transaction enters.\<close>

lemma add_current_ok:
  assumes S: "std_ok S" and I: "index_ok rc q" and q: "\<forall>t\<in>snd ` cur q. \<not> sender_throws rc t"
    and t: "\<not> sender_throws rc t" "q_hash t \<notin> q_hash ` snd ` cur q"
      "map_of (inner (m_currentByAddressAndNonce q) (q_from rc t)) (t_nonce t) = None"
  obtains xs b h where "add_current S rc (q_from rc t) (q_hash t) t q = Ret ()
      (q\<lparr>m_current := xs, q_next := Suc (q_next q), m_currentByAddressAndNonce := b, m_currentByHash := h\<rparr>)"
    and "set xs = insert (q_next q, t) (cur q)"
    and "index_ok rc (q\<lparr>m_current := xs, q_next := Suc (q_next q), m_currentByAddressAndNonce := b, m_currentByHash := h\<rparr>)"
proof -
  let ?a = "q_from rc t" and ?A = "m_currentByAddressAndNonce q"
  define B where "B = ?A(?a \<mapsto> omap_insert (t_nonce t) None (inner ?A ?a))"
  note D = index_okD [OF I]
  have ok: "okm (inner ?A ?a)" by (rule maps_okD(1) [OF D(4)])
  have ne: "inner B (q_from rc x) \<noteq> []" if "(i, x) \<in> cur q" for i x
  proof -
    have "map_of (inner ?A (q_from rc x)) (t_nonce x) = Some (Some i)" using D(5) that by blast
    then have "inner ?A (q_from rc x) \<noteq> []" by auto
    then show ?thesis using omap_insert_ok(2) [OF ok] by (simp add: B_def inner_if)
  qed
  obtain p where e: "emplace S rc t (q\<lparr>m_currentByAddressAndNonce := B\<rparr>) = Ret (q_next q) (q\<lparr>m_currentByAddressAndNonce := B,
      m_current := take p (m_current q) @ (q_next q, t) # drop p (m_current q), q_next := Suc (q_next q)\<rparr>)"
  proof (rule emplace_ok [OF S t(1), of "q\<lparr>m_currentByAddressAndNonce := B\<rparr>"])
    show "inner (m_currentByAddressAndNonce (q\<lparr>m_currentByAddressAndNonce := B\<rparr>)) ?a \<noteq> []"
      using omap_insert_ok(2) [OF ok] by (simp add: B_def)
    show "\<not> sender_throws rc x \<and> inner (m_currentByAddressAndNonce (q\<lparr>m_currentByAddressAndNonce := B\<rparr>)) (q_from rc x) \<noteq> []"
      if "(i, x) \<in> cur (q\<lparr>m_currentByAddressAndNonce := B\<rparr>)" for i x
      using q ne [of i x] that by force
  qed simp
  define xs where "xs = take p (m_current q) @ (q_next q, t) # drop p (m_current q)"
  define b where "b = B(?a \<mapsto> omap_set (t_nonce t) (Some (q_next q)) (inner B ?a))"
  define h where "h = (m_currentByHash q)(q_hash t \<mapsto> q_next q)"
  have xs: "set xs = insert (q_next q, t) (cur q)" unfolding xs_def by (rule set_take_drop)
  have "add_current S rc (q_from rc t) (q_hash t) t q = Ret ()
      (q\<lparr>m_current := xs, q_next := Suc (q_next q), m_currentByAddressAndNonce := b, m_currentByHash := h\<rparr>)"
    using e by (simp add: add_current_def B_def [symmetric] tq_bind_def Let_def xs_def b_def h_def)
  moreover
  have "index_ok rc (q\<lparr>m_current := xs, q_next := Suc (q_next q), m_currentByAddressAndNonce := b, m_currentByHash := h\<rparr>)"
  proof -
    have fresh: "q_next q \<notin> fst ` cur q" using D(2) by force
    have bm: "map_of (inner b a) n = (if a = ?a \<and> n = t_nonce t then Some (Some (q_next q)) else map_of (inner ?A a) n)" for a n
      using omap_insert_ok(3) [OF ok, of "t_nonce t" None] t(3) by (auto simp: b_def B_def omap_set_ok(3) inner_if)
    have "okm (omap_set (t_nonce t) (Some (q_next q)) (inner B ?a))" "omap_set (t_nonce t) (Some (q_next q)) (inner B ?a) \<noteq> []"
      by (simp_all add: B_def omap_set_ok(1,2) omap_insert_ok(1,2) [OF ok])
    moreover have "maps_ok B" unfolding B_def using omap_insert_ok(1,2) [OF ok] by (intro maps_ok_upd [OF D(4)])
    ultimately have "maps_ok b" unfolding b_def by (intro maps_ok_upd)
    moreover have "distinct (map fst xs)" using distinct_take_drop [of p "m_current q" "(q_next q, t)"] D(1) fresh by (simp add: xs_def)
    moreover have "h k = Some i \<longleftrightarrow> (\<exists>u. (i, u) \<in> set xs \<and> q_hash u = k)" for k i
      using D(2,3) t(2) by (auto simp: h_def xs image_iff)
    moreover have "map_of (inner b a) n = Some v \<longleftrightarrow> (\<exists>i u. v = Some i \<and> (i, u) \<in> set xs \<and> q_from rc u = a \<and> t_nonce u = n)" for a n v
      using D(5) [of a n v] t(3) D(5) [of ?a "t_nonce t" v] by (auto simp: bm xs)
    moreover have "\<forall>i u. (i, u) \<in> set xs \<longrightarrow> i < Suc (q_next q)" using D(2) by (auto simp: xs less_Suc_eq)
    ultimately show ?thesis by (simp add: index_ok_def)
  qed
  ultimately show ?thesis using that xs by blast
qed

text \<open>A transaction leaves.\<close>

definition del_current :: "recover_fun \<Rightarrow> nat \<Rightarrow> transaction \<Rightarrow> tx_queue \<Rightarrow> tx_queue" where
  "del_current rc i t q =
     q\<lparr>m_current := filter (\<lambda>(j, _). j \<noteq> i) (m_current q), m_currentByHash := (m_currentByHash q)(q_hash t := None),
       m_currentByAddressAndNonce := put_inner (q_from rc t) (omap_erase (t_nonce t) (inner (m_currentByAddressAndNonce q) (q_from rc t)))
         (m_currentByAddressAndNonce q)\<rparr>"

lemma cur_unique:
  assumes I: "index_ok rc q" and t: "(i, t) \<in> cur q" and u: "(j, u) \<in> cur q"
  shows "i = j \<Longrightarrow> t = u" and "q_hash t = q_hash u \<Longrightarrow> i = j" and "q_from rc t = q_from rc u \<Longrightarrow> t_nonce t = t_nonce u \<Longrightarrow> i = j"
proof -
  note D = index_okD [OF I]
  show "i = j \<Longrightarrow> t = u" using D(1) t u by (metis eq_key_imp_eq_value)
  show "q_hash t = q_hash u \<Longrightarrow> i = j" using D(3) t u by (metis option.inject)
  show "q_from rc t = q_from rc u \<Longrightarrow> t_nonce t = t_nonce u \<Longrightarrow> i = j" using D(5) t u by (metis option.inject)
qed

lemma cur_del: "index_ok rc q \<Longrightarrow> (i, t) \<in> cur q \<Longrightarrow> cur (del_current rc i t q) = cur q - {(i, t)}"
  using cur_unique(1) by (fastforce simp: del_current_def)

lemma del_current_ok:
  assumes I: "index_ok rc q" and t: "(i, t) \<in> cur q"
  shows "index_ok rc (del_current rc i t q)"
proof -
  note D = index_okD [OF I] and C = cur_unique [OF I t]
  let ?q = "del_current rc i t q"
  have ok: "okm (inner (m_currentByAddressAndNonce q) (q_from rc t))" by (rule maps_okD(1) [OF D(4)])
  have "maps_ok (m_currentByAddressAndNonce ?q)" by (simp add: del_current_def maps_ok_put [OF D(4)] omap_erase_ok(1) [OF ok])
  moreover have "distinct (map fst (m_current ?q))" using D(1) by (simp add: del_current_def distinct_map_filter)
  moreover have "\<forall>j u. (j, u) \<in> cur ?q \<longrightarrow> j < q_next ?q" using D(2) by (auto simp: del_current_def)
  moreover have "m_currentByHash ?q h = Some j \<longleftrightarrow> (\<exists>u. (j, u) \<in> cur ?q \<and> q_hash u = h)" for h j
  proof (cases "h = q_hash t")
    case True
    have "\<not> (\<exists>u. (j, u) \<in> cur q - {(i, t)} \<and> q_hash u = h)" using C(1,2) True by (metis Diff_iff singletonI)
    then show ?thesis unfolding cur_del [OF I t] using True by (simp add: del_current_def)
  next
    case False
    then have "(\<exists>u. (j, u) \<in> cur q - {(i, t)} \<and> q_hash u = h) \<longleftrightarrow> (\<exists>u. (j, u) \<in> cur q \<and> q_hash u = h)" by blast
    then show ?thesis unfolding cur_del [OF I t] using D(3) [of h j] False by (simp add: del_current_def)
  qed
  moreover have "map_of (inner (m_currentByAddressAndNonce ?q) a) n = Some v
      \<longleftrightarrow> (\<exists>j u. v = Some j \<and> (j, u) \<in> cur ?q \<and> q_from rc u = a \<and> t_nonce u = n)" for a n v
  proof (cases "a = q_from rc t \<and> n = t_nonce t")
    case True
    have "\<not> (\<exists>j u. v = Some j \<and> (j, u) \<in> cur q - {(i, t)} \<and> q_from rc u = a \<and> t_nonce u = n)" using C(1,3) True by (metis Diff_iff singletonI)
    then show ?thesis unfolding cur_del [OF I t] using True by (simp add: del_current_def omap_erase_ok(2))
  next
    case False
    then have "map_of (inner (m_currentByAddressAndNonce ?q) a) n = map_of (inner (m_currentByAddressAndNonce q) a) n"
      by (auto simp: del_current_def omap_erase_ok(2) inner_if)
    moreover have "(\<exists>j u. v = Some j \<and> (j, u) \<in> cur q - {(i, t)} \<and> q_from rc u = a \<and> t_nonce u = n)
        \<longleftrightarrow> (\<exists>j u. v = Some j \<and> (j, u) \<in> cur q \<and> q_from rc u = a \<and> t_nonce u = n)" using False by blast
    ultimately show ?thesis unfolding cur_del [OF I t] using D(5) [of a n v] by simp
  qed
  ultimately show ?thesis by (simp add: index_ok_def)
qed

lemma remove_ok:
  assumes I: "index_ok rc q" and h: "m_currentByHash q h = Some i"
  obtains t where "(i, t) \<in> cur q" and "q_hash t = h"
    and "remove_WITH_LOCK rc h q = Ret True ((del_current rc i t q)\<lparr>m_known := m_known q - {h}\<rparr>)"
proof -
  note D = index_okD [OF I]
  obtain t where t: "(i, t) \<in> cur q" "q_hash t = h" using D(3) h by blast
  have "map_of (inner (m_currentByAddressAndNonce q) (q_from rc t)) (t_nonce t) = Some (Some i)" using D(5) t(1) by blast
  then obtain m where "m_currentByAddressAndNonce q (q_from rc t) = Some m" by (auto simp: inner_def split: option.splits)
  then have "remove_WITH_LOCK rc h q = Ret True ((del_current rc i t q)\<lparr>m_known := m_known q - {h}\<rparr>)"
    using h index_ok_map [OF I t(1)] t(2) by (simp add: remove_WITH_LOCK_def del_current_def inner_def)
  then show ?thesis using that t by blast
qed

section \<open>Steps keep the invariant\<close>

lemma future_okD:
  assumes "future_ok rc q"
  shows "maps_ok (m_future q)" and "finite (dom (m_future q))"
    and "map_of (inner (m_future q) a) n = Some t \<Longrightarrow> q_from rc t = a \<and> t_nonce t = n"
    and "m_futureSize q = word_of_nat (total (m_future q))"
    and "(i, t) \<in> cur q \<Longrightarrow> map_of (inner (m_future q) (q_from rc t)) (t_nonce t) = None"
  using assms unfolding future_ok_def by blast+

lemma hashes_mono: "hashes_ok rc K q \<Longrightarrow> txs q' \<subseteq> txs q \<Longrightarrow> K \<subseteq> K' \<Longrightarrow> hashes_ok rc K' q'"
  unfolding hashes_ok_def by (meson inj_on_subset subsetD)

lemma fut_iff: "future_ok rc q \<Longrightarrow> t \<in> fut q \<longleftrightarrow> map_of (inner (m_future q) (q_from rc t)) (t_nonce t) = Some t"
  using future_okD(3) by (fastforce simp: fut_def)

lemma inv_add_current:
  assumes S: "std_ok S" and I: "tq_inv rc K q" and t: "\<not> sender_throws rc t" "q_hash t \<notin> q_hash ` txs q"
      "map_of (inner (m_currentByAddressAndNonce q) (q_from rc t)) (t_nonce t) = None"
      "map_of (inner (m_future q) (q_from rc t)) (t_nonce t) = None"
  obtains xs b h where "add_current S rc (q_from rc t) (q_hash t) t q = Ret ()
      (q\<lparr>m_current := xs, q_next := Suc (q_next q), m_currentByAddressAndNonce := b, m_currentByHash := h\<rparr>)"
    and "set xs = insert (q_next q, t) (cur q)" and "length xs = Suc (length (m_current q))"
    and "tq_inv rc (insert (q_hash t) K) (q\<lparr>m_current := xs, q_next := Suc (q_next q), m_currentByAddressAndNonce := b, m_currentByHash := h\<rparr>)"
proof -
  have th: "\<forall>t\<in>snd ` cur q. \<not> sender_throws rc t" "q_hash t \<notin> q_hash ` snd ` cur q"
    using tq_invD(3) [OF I] t(2) by (auto simp: hashes_ok_def txs_def)
  obtain xs b h where a: "add_current S rc (q_from rc t) (q_hash t) t q = Ret ()
      (q\<lparr>m_current := xs, q_next := Suc (q_next q), m_currentByAddressAndNonce := b, m_currentByHash := h\<rparr>)"
    and xs: "set xs = insert (q_next q, t) (cur q)"
    and i: "index_ok rc (q\<lparr>m_current := xs, q_next := Suc (q_next q), m_currentByAddressAndNonce := b, m_currentByHash := h\<rparr>)"
    using add_current_ok [OF S tq_invD(1) [OF I] th(1) t(1) th(2) t(3)] .
  let ?q = "q\<lparr>m_current := xs, q_next := Suc (q_next q), m_currentByAddressAndNonce := b, m_currentByHash := h\<rparr>"
  have "future_ok rc ?q" using tq_invD(2) [OF I] t(4) by (simp add: future_ok_def xs)
  moreover have tx: "txs ?q = insert t (txs q)" by (auto simp: txs_def fut_def xs)
  have "hashes_ok rc (insert (q_hash t) K) ?q" using tq_invD(3) [OF I] t(1,2) unfolding hashes_ok_def tx by auto
  moreover have "length xs = Suc (length (m_current q))"
  proof -
    have "distinct (map fst xs)" "distinct (map fst (m_current q))" "q_next q \<notin> fst ` cur q"
      using index_okD(1) [OF i] index_okD(1,2) [OF tq_invD(1) [OF I]] by force+
    then have "length xs = card (fst ` set xs)" "length (m_current q) = card (fst ` cur q)"
      using distinct_card [of "map fst xs"] distinct_card [of "map fst (m_current q)"] by simp_all
    then show ?thesis using \<open>q_next q \<notin> fst ` cur q\<close> by (simp add: xs)
  qed
  ultimately show ?thesis using that a xs i by (simp add: tq_inv_def)
qed

lemma inv_del_current:
  assumes I: "tq_inv rc K q" and t: "(i, t) \<in> cur q"
  shows "tq_inv rc (K - {q_hash t}) (del_current rc i t q)"
proof -
  let ?q = "del_current rc i t q"
  note i = tq_invD(1) [OF I]
  have "future_ok rc ?q" using tq_invD(2) [OF I] unfolding future_ok_def by (auto simp: del_current_def)
  moreover have "txs ?q \<subseteq> txs q - {t}"
  proof -
    have "t \<notin> fut q" using fut_iff [OF tq_invD(2) [OF I]] future_okD(5) [OF tq_invD(2) [OF I] t] by simp
    moreover have "fut ?q = fut q" by (simp add: fut_def del_current_def)
    moreover have "t \<notin> snd ` (cur q - {(i, t)})" using cur_unique(2) [OF i t] by force
    ultimately show ?thesis by (auto simp: txs_def cur_del [OF i t])
  qed
  moreover have "t \<in> txs q" using t by (force simp: txs_def)
  ultimately have "hashes_ok rc (K - {q_hash t}) ?q"
    using tq_invD(3) [OF I] unfolding hashes_ok_def inj_on_def by blast
  then show ?thesis using del_current_ok [OF i t] \<open>future_ok rc ?q\<close> by (simp add: tq_inv_def)
qed

lemma fut_erase:
  "fut (q\<lparr>m_future := put_inner a (omap_erase n (inner (m_future q) a)) (m_future q), m_futureSize := z\<rparr>) \<subseteq> fut q"
  by (auto simp: fut_def inner_if omap_erase_ok(2) split: if_splits)

lemma inv_del_future:
  assumes I: "tq_inv rc K q" and t: "map_of (inner (m_future q) a) n = Some t"
  shows "tq_inv rc K (q\<lparr>m_future := put_inner a (omap_erase n (inner (m_future q) a)) (m_future q), m_futureSize := m_futureSize q - 1\<rparr>)"
    (is "tq_inv rc K ?q")
proof -
  note F = future_okD [OF tq_invD(2) [OF I]]
  have ok: "okm (inner (m_future q) a)" by (rule maps_okD(1) [OF F(1)])
  have m: "map_of (inner (m_future ?q) b) k = (if b = a \<and> k = n then None else map_of (inner (m_future q) b) k)" for b k
    by (simp add: inner_if omap_erase_ok(2))
  have "total (m_future q) = Suc (total (m_future ?q))"
    using total_put [OF F(2), of a "omap_erase n (inner (m_future q) a)"] length_omap_erase [OF ok t] by simp
  then have "m_futureSize q - 1 = word_of_nat (total (m_future ?q))" unfolding F(4) by simp
  moreover have "maps_ok (m_future ?q)" "finite (dom (m_future ?q))"
    using maps_ok_put [OF F(1) omap_erase_ok(1) [OF ok]] F(2) by (auto simp: dom_put)
  moreover have "\<forall>b k u. map_of (inner (m_future ?q) b) k = Some u \<longrightarrow> q_from rc u = b \<and> t_nonce u = k"
    unfolding m using F(3) by simp
  moreover have "\<forall>i u. (i, u) \<in> cur q \<longrightarrow> map_of (inner (m_future ?q) (q_from rc u)) (t_nonce u) = None"
    unfolding m using F(5) by simp
  ultimately have "future_ok rc ?q" by (simp add: future_ok_def)
  moreover have "fut ?q \<subseteq> fut q" unfolding fut_def m by auto
  then have "txs ?q \<subseteq> txs q" by (auto simp: txs_def)
  then have "hashes_ok rc K ?q" using hashes_mono [OF tq_invD(3) [OF I]] by simp
  moreover have "index_ok rc ?q" using tq_invD(1) [OF I] by (simp add: index_ok_def)
  ultimately show ?thesis by (simp add: tq_inv_def)
qed

lemma inv_known: "tq_inv rc K q \<Longrightarrow> K \<subseteq> K' \<Longrightarrow> tq_inv rc K' q"
  using hashes_mono by (auto simp: tq_inv_def)

text \<open>From the queue to the future transactions.\<close>

definition to_future :: "recover_fun \<Rightarrow> nat \<Rightarrow> transaction \<Rightarrow> tx_queue \<Rightarrow> tx_queue" where
  "to_future rc i t q =
     (del_current rc i t q)\<lparr>m_future := (m_future q)(q_from rc t \<mapsto> omap_insert (t_nonce t) t (inner (m_future q) (q_from rc t))),
       m_futureSize := m_futureSize q + 1\<rparr>"

lemma inv_to_future:
  assumes I: "tq_inv rc K q" and t: "(i, t) \<in> cur q"
  shows "tq_inv rc K (to_future rc i t q)"
proof -
  let ?q = "to_future rc i t q" and ?a = "q_from rc t"
  let ?m = "omap_insert (t_nonce t) t (inner (m_future q) ?a)"
  note F = future_okD [OF tq_invD(2) [OF I]] and i = tq_invD(1) [OF I]
  have ok: "okm (inner (m_future q) ?a)" by (rule maps_okD(1) [OF F(1)])
  have c: "cur ?q = cur q - {(i, t)}" using cur_del [OF i t] by (simp add: to_future_def)
  have f: "m_future ?q = put_inner ?a ?m (m_future q)"
    using omap_insert_ok(2) [OF ok] by (simp add: to_future_def put_inner_def)
  have m: "map_of (inner (m_future ?q) b) k = (if b = ?a \<and> k = t_nonce t then Some t else map_of (inner (m_future q) b) k)" for b k
    using omap_insert_ok(3) [OF ok, of "t_nonce t" t] F(5) [OF t] by (simp add: f inner_if)
  have "total (m_future ?q) = Suc (total (m_future q))"
    using total_put [OF F(2), of ?a ?m] F(5) [OF t] by (simp add: f length_omap_insert)
  then have "m_futureSize ?q = word_of_nat (total (m_future ?q))" using F(4) by (simp add: to_future_def)
  moreover have "maps_ok (m_future ?q)" "finite (dom (m_future ?q))"
    unfolding f using maps_ok_put [OF F(1) omap_insert_ok(1) [OF ok]] F(2) by (auto simp: dom_put)
  moreover have "\<forall>b k u. map_of (inner (m_future ?q) b) k = Some u \<longrightarrow> q_from rc u = b \<and> t_nonce u = k"
    unfolding m using F(3) by simp
  moreover have "\<forall>j u. (j, u) \<in> cur ?q \<longrightarrow> map_of (inner (m_future ?q) (q_from rc u)) (t_nonce u) = None"
  proof (intro allI impI)
    fix j u assume "(j, u) \<in> cur ?q"
    then have u: "(j, u) \<in> cur q" "(j, u) \<noteq> (i, t)" by (auto simp: c)
    then have "\<not> (q_from rc u = ?a \<and> t_nonce u = t_nonce t)" using cur_unique(1,3) [OF i t u(1)] by metis
    then show "map_of (inner (m_future ?q) (q_from rc u)) (t_nonce u) = None" unfolding m using F(5) [OF u(1)] by simp
  qed
  ultimately have "future_ok rc ?q" by (simp add: future_ok_def)
  moreover have "fut ?q \<subseteq> insert t (fut q)" unfolding fut_def m by auto
  then have "txs ?q \<subseteq> txs q" using t by (force simp: txs_def c)
  then have "hashes_ok rc K ?q" using hashes_mono [OF tq_invD(3) [OF I]] by simp
  moreover have "index_ok rc ?q" using del_current_ok [OF i t] unfolding index_ok_def by (simp add: to_future_def)
  ultimately show ?thesis by (simp add: tq_inv_def)
qed

section \<open>The loops\<close>

text \<open>\<^verbatim>\<open>makeCurrent_WITH_LOCK\<close> erases the transactions from the future map after it has moved them
  all; what it does meanwhile does not depend on that map.\<close>

lemma add_current_future:
  "add_current S rc b h t (q\<lparr>m_future := F, m_futureSize := z\<rparr>) =
     (case add_current S rc b h t q of Ret u q' \<Rightarrow> Ret u (q'\<lparr>m_future := F, m_futureSize := z\<rparr>)
      | Throw q' \<Rightarrow> Throw (q'\<lparr>m_future := F, m_futureSize := z\<rparr>) | Undefined \<Rightarrow> Undefined | Diverges \<Rightarrow> Diverges)"
  by (simp add: add_current_def emplace_def tq_bind_def Let_def prio_less_def height_def)

lemma future_size_commute: "q\<lparr>m_futureSize := z, m_future := F\<rparr> = q\<lparr>m_future := F, m_futureSize := z\<rparr>"
  by simp

definition same_rest :: "tx_queue \<Rightarrow> tx_queue \<Rightarrow> bool" where
  "same_rest q q' =
     (m_known q' = m_known q \<and> m_dropped q' = m_dropped q \<and> m_limit q' = m_limit q \<and> m_futureLimit q' = m_futureLimit q
      \<and> m_unverified q' = m_unverified q)"

lemma same_rest_refl [simp]: "same_rest q q"
  by (simp add: same_rest_def)

lemma same_rest_trans: "same_rest q q' \<Longrightarrow> same_rest q' q'' \<Longrightarrow> same_rest q q''"
  by (simp add: same_rest_def)

lemma promote_loop_ok:
  assumes S: "std_ok S"
  shows "tq_inv rc K (q\<lparr>m_future := put_inner a (pre @ fs) (m_future q)\<rparr>) \<Longrightarrow>
    \<exists>rest q'. promote_loop S rc a n fs q = Ret rest q' \<and> m_future q' = m_future q \<and> same_rest q q'
      \<and> tq_inv rc K (q'\<lparr>m_future := put_inner a (pre @ rest) (m_future q')\<rparr>)"
proof (induction fs arbitrary: n q)
  case Nil
  then show ?case by simp
next
  case (Cons kt fs)
  obtain k t where kt: "kt = (k, t)" by force
  show ?case
  proof (cases "t_nonce t = n")
    case False
    then show ?thesis using Cons.prems by (simp add: kt)
  next
    case True
    let ?q0 = "q\<lparr>m_future := put_inner a (pre @ (k, t) # fs) (m_future q)\<rparr>"
    let ?q1 = "q\<lparr>m_future := put_inner a (pre @ fs) (m_future q), m_futureSize := m_futureSize q - 1\<rparr>"
    have I: "tq_inv rc K ?q0" using Cons.prems by (simp add: kt)
    have ok: "okm (pre @ (k, t) # fs)" using maps_okD(1) [OF future_okD(1) [OF tq_invD(2) [OF I]], of a] by simp
    have look: "map_of (inner (m_future ?q0) a) k = Some t"
      using map_of_is_SomeI [OF okm_distinct [OF ok], of k t] by simp
    then have at: "q_from rc t = a" "t_nonce t = k" using future_okD(3) [OF tq_invD(2) [OF I]] by blast+
    have I1: "tq_inv rc K ?q1" using inv_del_future [OF I look] omap_erase_middle [OF ok] by simp
    have tin: "t \<in> txs ?q0" using look unfolding txs_def fut_def by blast
    have th: "\<not> sender_throws rc t" "q_hash t \<in> K" using tq_invD(3) [OF I] tin by (auto simp: hashes_ok_def)
    have "map_of (inner (m_currentByAddressAndNonce ?q1) (q_from rc t)) (t_nonce t) = None"
    proof (rule ccontr)
      assume "\<not> ?thesis"
      then obtain i u where "(i, u) \<in> cur ?q0" "q_from rc u = q_from rc t" "t_nonce u = t_nonce t"
        using index_okD(5) [OF tq_invD(1) [OF I1]] by fastforce
      then show False using future_okD(5) [OF tq_invD(2) [OF I]] look at by fastforce
    qed
    moreover have "map_of (inner (m_future ?q1) (q_from rc t)) (t_nonce t) = None"
      using omap_erase_ok(2) [of k "pre @ (k, t) # fs" k] omap_erase_middle [OF ok] at by simp
    moreover have "q_hash t \<notin> q_hash ` txs ?q1"
    proof -
      have "t \<notin> fut ?q1" using fut_iff [OF tq_invD(2) [OF I1], of t] calculation(2) by simp
      moreover have "t \<notin> snd ` cur ?q1" using future_okD(5) [OF tq_invD(2) [OF I]] look at by fastforce
      ultimately have "t \<notin> txs ?q1" by (simp add: txs_def)
      moreover have "fut ?q1 \<subseteq> fut ?q0" using fut_erase [where q = ?q0 and a = a and n = k] omap_erase_middle [OF ok] by simp
      then have "txs ?q1 \<subseteq> txs ?q0" by (auto simp: txs_def)
      ultimately show ?thesis using tq_invD(3) [OF I] tin unfolding hashes_ok_def inj_on_def by blast
    qed
    ultimately obtain xs b h where
      a1: "add_current S rc (q_from rc t) (q_hash t) t ?q1 = Ret ()
        (?q1\<lparr>m_current := xs, q_next := Suc (q_next ?q1), m_currentByAddressAndNonce := b, m_currentByHash := h\<rparr>)"
      and I2: "tq_inv rc (insert (q_hash t) K)
        (?q1\<lparr>m_current := xs, q_next := Suc (q_next ?q1), m_currentByAddressAndNonce := b, m_currentByHash := h\<rparr>)"
      using inv_add_current [OF S I1 th(1)] by metis
    obtain q2 where q2: "add_current S rc (q_from rc t) (q_hash t) t q = Ret () q2"
      "?q1\<lparr>m_current := xs, q_next := Suc (q_next ?q1), m_currentByAddressAndNonce := b, m_currentByHash := h\<rparr>
        = q2\<lparr>m_future := m_future ?q1, m_futureSize := m_futureSize ?q1\<rparr>"
      using a1 add_current_future [where S = S and rc = rc and b = "q_from rc t" and h = "q_hash t" and t = t and q = q and F = "m_future ?q1" and z = "m_futureSize ?q1"] by (auto split: tq_res.splits)
    have keep: "m_future q2 = m_future q" "m_futureSize q2 = m_futureSize q" "same_rest q q2"
      using q2(1) by (auto simp: add_current_def emplace_def tq_bind_def Let_def same_rest_def split: tq_res.splits if_splits)
    let ?q3 = "q2\<lparr>m_futureSize := m_futureSize q2 - 1\<rparr>"
    have "insert (q_hash t) K = K" using th(2) by blast
    then have "tq_inv rc K (?q3\<lparr>m_future := put_inner a (pre @ fs) (m_future ?q3)\<rparr>)"
      using I2 q2(2) keep by (simp add: future_size_commute)
    from Cons.IH [OF this, of "n + 1"] obtain rest q' where
      p: "promote_loop S rc a (n + 1) fs ?q3 = Ret rest q'" "m_future q' = m_future ?q3" "same_rest ?q3 q'"
      "tq_inv rc K (q'\<lparr>m_future := put_inner a (pre @ rest) (m_future q')\<rparr>)" by blast
    have "same_rest q ?q3" using keep(3) by (simp add: same_rest_def)
    then have "same_rest q q'" using p(3) by (rule same_rest_trans)
    moreover have "promote_loop S rc a n (kt # fs) q = Ret rest q'" using q2(1) True p(1) at(1) by (simp add: kt)
    moreover have "m_future q' = m_future q" using p(2) keep(1) by simp
    ultimately show ?thesis using p(4) by blast
  qed
qed

lemma tq_inv_other [simp]:
  "tq_inv rc K (q\<lparr>q_log := l\<rparr>) = tq_inv rc K q" "tq_inv rc K (q\<lparr>m_known := k\<rparr>) = tq_inv rc K q"
  "tq_inv rc K (q\<lparr>m_dropped := k\<rparr>) = tq_inv rc K q" "tq_inv rc K (q\<lparr>m_unverified := u\<rparr>) = tq_inv rc K q"
  by (simp_all add: tq_inv_def index_ok_def future_ok_def hashes_ok_def txs_def fut_def)

lemma butlast_erase:
  assumes "okm m" and "m \<noteq> []"
  shows "butlast m = omap_erase (fst (last m)) m" and "map_of m (fst (last m)) = Some (snd (last m))"
proof -
  have m: "m = butlast m @ [(fst (last m), snd (last m))]" using assms(2) by simp
  show "butlast m = omap_erase (fst (last m)) m" using omap_erase_middle [of "butlast m" "fst (last m)" "snd (last m)" "[]"] assms m by simp
  show "map_of m (fst (last m)) = Some (snd (last m))"
    using map_of_is_SomeI [OF okm_distinct [OF assms(1)]] assms(2) by (metis last_in_set prod.collapse)
qed

lemma trim_future_ok:
  "std_ok S \<Longrightarrow> tq_inv rc K q \<Longrightarrow> \<exists>q'. trim_future S q = Ret () q' \<and> tq_inv rc K q' \<and> same_rest q q' \<and> \<not> m_futureSize q' > m_futureLimit q'"
proof (induction S q rule: trim_future.induct)
  case (1 S q)
  show ?case
  proof (cases "m_futureSize q > m_futureLimit q")
    case False
    then show ?thesis using 1 by (subst trim_future.simps) simp
  next
    case True
    note F = future_okD [OF tq_invD(2) [OF "1.prems"(2)]]
    have "m_futureSize q \<noteq> 0" using True by auto
    then have "total (m_future q) \<noteq> 0" unfolding F(4) by (auto intro: ccontr)
    then have ne: "dom (m_future q) \<noteq> {}" by (auto simp: total_def)
    define a where "a = map_begin S (dom (m_future q))"
    have "a \<in> dom (m_future q)" unfolding a_def by (rule std_ok_begin [OF "1.prems"(1) ne])
    then have m: "inner (m_future q) a \<noteq> []" "okm (inner (m_future q) a)"
      using maps_okD [OF F(1)] by (auto simp: inner_def split: option.splits)
    let ?q = "q\<lparr>m_futureSize := m_futureSize q - 1, m_future := put_inner a (butlast (inner (m_future q) a)) (m_future q)\<rparr>"
    have "tq_inv rc K ?q" using inv_del_future [OF "1.prems"(2) butlast_erase(2) [OF m(2,1)]] butlast_erase(1) [OF m(2,1)] by (simp add: future_size_commute)
    from "1.IH" [OF True ne a_def "1.prems"(1) this] show ?thesis
      using True ne by (subst trim_future.simps) (auto simp: a_def [symmetric] Let_def same_rest_def)
  qed
qed

lemma makeCurrent_ok:
  assumes S: "std_ok S" and I: "tq_inv rc K q"
  shows "\<exists>q'. makeCurrent_WITH_LOCK S rc t q = Ret () q' \<and> tq_inv rc K q' \<and> same_rest q q'"
proof -
  define a where "a = q_from rc t"
  define n where "n = t_nonce t + 1"
  define fs where "fs = inner (m_future q) a"
  have "\<exists>q2. (if map_of fs n \<noteq> None then tq_bind (promote_loop S rc a n (omap_from n fs) q) (\<lambda>rest q1.
             Ret () (q1\<lparr>m_future := put_inner a (omap_until n fs @ rest) (m_future q1)\<rparr>)) else Ret () q) = Ret () q2
      \<and> tq_inv rc K q2 \<and> same_rest q q2"
  proof (cases "map_of fs n = None")
    case False
    have "put_inner a (omap_until n fs @ omap_from n fs) (m_future q) = m_future q"
      using maps_ok_inner [OF future_okD(1) [OF tq_invD(2) [OF I]]] by (simp add: omap_split fs_def)
    then have "tq_inv rc K (q\<lparr>m_future := put_inner a (omap_until n fs @ omap_from n fs) (m_future q)\<rparr>)" using I by simp
    from promote_loop_ok [OF S this, of n] show ?thesis using False by (auto simp: tq_bind_def same_rest_def)
  qed (use I in simp)
  then obtain q2 where q2: "(if map_of fs n \<noteq> None then tq_bind (promote_loop S rc a n (omap_from n fs) q) (\<lambda>rest q1.
             Ret () (q1\<lparr>m_future := put_inner a (omap_until n fs @ rest) (m_future q1)\<rparr>)) else Ret () q) = Ret () q2"
      "tq_inv rc K q2" "same_rest q q2" by blast
  obtain q3 where q3: "trim_future S q2 = Ret () q3" "tq_inv rc K q3" "same_rest q2 q3" using trim_future_ok [OF S q2(2)] by blast
  have "makeCurrent_WITH_LOCK S rc t q = Ret () (if map_of fs n \<noteq> None then q3\<lparr>q_log := q_log q3 @ [OnReady]\<rparr> else q3)"
    unfolding makeCurrent_WITH_LOCK_def a_def [symmetric] n_def [symmetric] fs_def [symmetric] Let_def q2(1) using q3(1) by (simp add: tq_bind_def)
  then show ?thesis using q3(2) same_rest_trans [OF q2(3) q3(3)] by (auto simp: same_rest_def)
qed

section \<open>The operations\<close>

abbreviation good :: "recover_fun \<Rightarrow> tx_queue \<Rightarrow> bool" where
  "good rc q \<equiv> tq_inv rc (m_known q) q"

definition same_limits :: "tx_queue \<Rightarrow> tx_queue \<Rightarrow> bool" where
  "same_limits q q' = (m_limit q' = m_limit q \<and> m_futureLimit q' = m_futureLimit q \<and> m_unverified q' = m_unverified q)"

lemma same_limits_simps [simp]: "same_limits q q" "same_rest q q' \<Longrightarrow> same_limits q q'"
  by (simp_all add: same_limits_def same_rest_def)

lemma same_limits_trans: "same_limits q q' \<Longrightarrow> same_limits q' q'' \<Longrightarrow> same_limits q q''"
  by (simp add: same_limits_def)

lemma remove_good:
  assumes I: "good rc q"
  shows "\<exists>r q'. remove_WITH_LOCK rc h q = Ret r q' \<and> good rc q' \<and> same_limits q q' \<and> m_known q' \<subseteq> m_known q
    \<and> m_future q' = m_future q \<and> m_dropped q' = m_dropped q
    \<and> (r \<longleftrightarrow> m_currentByHash q h \<noteq> None) \<and> (r \<longrightarrow> length (m_current q') < length (m_current q)
        \<and> (\<exists>i t. (i, t) \<in> cur q \<and> q_hash t = h \<and> cur q' = cur q - {(i, t)}))"
proof (cases "m_currentByHash q h")
  case None
  then show ?thesis using I by (intro exI [of _ False]) (simp add: remove_WITH_LOCK_def)
next
  case (Some i)
  obtain t where t: "(i, t) \<in> cur q" "q_hash t = h"
      "remove_WITH_LOCK rc h q = Ret True ((del_current rc i t q)\<lparr>m_known := m_known q - {h}\<rparr>)"
    using remove_ok [OF tq_invD(1) [OF I] Some] .
  have "length (filter (\<lambda>(j, _). j \<noteq> i) (m_current q)) < length (m_current q)"
    using t(1) by (intro length_filter_less [of "(i, t)"]) auto
  then show ?thesis
    using inv_del_current [OF I t(1)] t cur_del [OF tq_invD(1) [OF I] t(1)] Some by (auto simp: same_limits_def del_current_def)
qed

lemma trim_current_ok:
  "good rc q \<Longrightarrow> \<exists>q'. trim_current rc q = Ret () q' \<and> good rc q' \<and> same_limits q q' \<and> length (m_current q') \<le> unat (m_limit q')"
proof (induction rc q rule: trim_current.induct)
  case (1 rc q)
  show ?case
  proof (cases "length (m_current q) > unat (m_limit q)")
    case False
    then show ?thesis using 1 by (subst trim_current.simps) simp
  next
    case True
    let ?h = "q_hash (snd (last (m_current q)))"
    have "last (m_current q) \<in> cur q" using True by (intro last_in_set) auto
    then have "m_currentByHash q ?h = Some (fst (last (m_current q)))"
      using index_okD(3) [OF tq_invD(1) [OF "1.prems"]] by (metis prod.collapse)
    then obtain q1 where q1: "remove_WITH_LOCK rc ?h q = Ret True q1" "good rc q1" "same_limits q q1" "length (m_current q1) < length (m_current q)"
      using remove_good [OF "1.prems", of ?h] by auto
    from "1.IH" [OF True q1(1) q1(4) q1(2)] show ?thesis
      using True q1 same_limits_trans by (subst trim_current.simps) auto
  qed
qed

lemma replace_current_ok:
  assumes I: "good rc q"
  shows "\<exists>go q'. replace_current rc t q = Ret go q' \<and> good rc q' \<and> same_limits q q' \<and> m_known q' \<subseteq> m_known q
    \<and> (go \<longrightarrow> map_of (inner (m_currentByAddressAndNonce q') (q_from rc t)) (t_nonce t) = None)"
proof (cases "map_of (inner (m_currentByAddressAndNonce q) (q_from rc t)) (t_nonce t)")
  case None
  then have "replace_current rc t q = Ret True q" by (auto simp: replace_current_def inner_def split: option.splits)
  then show ?thesis using I None by (intro exI [of _ True] exI [of _ q]) simp
next
  case (Some v)
  note D = index_okD [OF tq_invD(1) [OF I]]
  obtain i x where x: "v = Some i" "(i, x) \<in> cur q" "q_from rc x = q_from rc t" "t_nonce x = t_nonce t" using D(5) Some by blast
  obtain m where m: "m_currentByAddressAndNonce q (q_from rc t) = Some m" "map_of m (t_nonce t) = Some (Some i)"
    using Some x(1) by (auto simp: inner_def split: option.splits)
  note rc = m x(1) index_ok_map [OF tq_invD(1) [OF I] x(2)]
  show ?thesis
  proof (cases "t_gasPrice t < t_gasPrice x")
    case True
    then have "replace_current rc t q = Ret False q" using rc by (simp add: replace_current_def)
    then show ?thesis using I by (intro exI [of _ False] exI [of _ q]) simp
  next
    case False
    have "m_currentByHash q (q_hash x) = Some i" using D(3) x(2) by blast
    then obtain q1 j y where q1: "remove_WITH_LOCK rc (q_hash x) q = Ret True q1" "good rc q1" "same_limits q q1" "m_known q1 \<subseteq> m_known q"
        "(j, y) \<in> cur q" "q_hash y = q_hash x" "cur q1 = cur q - {(j, y)}"
      using remove_good [OF I, of "q_hash x"] by auto
    have ji: "i = j" by (rule cur_unique(2) [OF tq_invD(1) [OF I] x(2) q1(5) q1(6) [symmetric]])
    have xy: "x = y" by (rule cur_unique(1) [OF tq_invD(1) [OF I] x(2) q1(5) ji])
    have "False" if u: "(k, u) \<in> cur q1" "q_from rc u = q_from rc t" "t_nonce u = t_nonce t" for k u
    proof -
      have k: "(k, u) \<in> cur q" "(k, u) \<noteq> (i, x)" using u(1) q1(7) ji xy by simp_all
      have ik: "i = k" by (rule cur_unique(3) [OF tq_invD(1) [OF I] x(2) k(1)]) (simp_all add: x(3,4) u(2,3))
      have "x = u" by (rule cur_unique(1) [OF tq_invD(1) [OF I] x(2) k(1) ik])
      then show False using k(2) ik by simp
    qed
    then have "\<not> (\<exists>k u. (k, u) \<in> cur q1 \<and> q_from rc u = q_from rc t \<and> t_nonce u = t_nonce t)" by blast
    then have "map_of (inner (m_currentByAddressAndNonce q1) (q_from rc t)) (t_nonce t) = None"
      using index_okD(5) [OF tq_invD(1) [OF q1(2)], of "q_from rc t" "t_nonce t"] by (meson not_None_eq)
    moreover have "replace_current rc t q = Ret True (q1\<lparr>q_log := q_log q1 @ [OnReplaced (q_hash x)]\<rparr>)"
      using rc False q1(1) by (simp add: replace_current_def tq_bind_def)
    ultimately show ?thesis using q1(2-4)
      by (intro exI [of _ True] exI [of _ "q1\<lparr>q_log := q_log q1 @ [OnReplaced (q_hash x)]\<rparr>"]) (simp add: same_limits_def)
  qed
qed

lemma replace_future_ok:
  assumes I: "good rc q"
  shows "\<exists>go q'. replace_future rc t q = Ret go q' \<and> good rc q' \<and> same_limits q q' \<and> m_known q' = m_known q
    \<and> m_currentByAddressAndNonce q' = m_currentByAddressAndNonce q
    \<and> (go \<longrightarrow> map_of (inner (m_future q') (q_from rc t)) (t_nonce t) = None)"
proof (cases "map_of (inner (m_future q) (q_from rc t)) (t_nonce t)")
  case None
  then have "replace_future rc t q = Ret True q" by (auto simp: replace_future_def inner_def split: option.splits)
  then show ?thesis using I None by (intro exI [of _ True] exI [of _ q]) simp
next
  case (Some x)
  then obtain m where m: "m_future q (q_from rc t) = Some m" "map_of m (t_nonce t) = Some x" "inner (m_future q) (q_from rc t) = m"
    by (auto simp: inner_def split: option.splits)
  show ?thesis
  proof (cases "t_gasPrice t < t_gasPrice x")
    case True
    then have "replace_future rc t q = Ret False q" using m by (simp add: replace_future_def)
    then show ?thesis using I by (intro exI [of _ False] exI [of _ q]) simp
  next
    case False
    let ?q = "q\<lparr>m_future := put_inner (q_from rc t) (omap_erase (t_nonce t) m) (m_future q), m_futureSize := m_futureSize q - 1\<rparr>"
    have "replace_future rc t q = Ret True ?q" using m(1,2) False by (simp add: replace_future_def)
    moreover have "tq_inv rc (m_known q) ?q" using inv_del_future [OF I Some] m(3) by simp
    ultimately show ?thesis by (intro exI [of _ True] exI [of _ ?q]) (simp add: same_limits_def omap_erase_ok(2))
  qed
qed

lemma insertCurrent_ok:
  assumes S: "std_ok S" and I: "good rc q" and t: "\<not> sender_throws rc t" "q_hash t \<notin> m_known q"
      "map_of (inner (m_currentByAddressAndNonce q) (q_from rc t)) (t_nonce t) = None"
      "map_of (inner (m_future q) (q_from rc t)) (t_nonce t) = None"
  shows "\<exists>q'. insertCurrent_WITH_LOCK S rc (q_hash t) t q = Ret () q' \<and> good rc q' \<and> same_limits q q'"
proof -
  have H: "q_hash t \<notin> q_hash ` txs q" using tq_invD(3) [OF I] t(2) by (auto simp: hashes_ok_def)
  moreover have "u \<in> txs q" if "(i, u) \<in> cur q" for i u using that by (force simp: txs_def)
  ultimately have "\<not> (\<exists>i u. (i, u) \<in> cur q \<and> q_hash u = q_hash t)" by (metis imageI)
  then have "m_currentByHash q (q_hash t) = None" using index_okD(3) [OF tq_invD(1) [OF I], of "q_hash t"] by (meson not_None_eq)
  moreover obtain q1 where q1: "add_current S rc (q_from rc t) (q_hash t) t q = Ret () q1" "tq_inv rc (insert (q_hash t) (m_known q)) q1"
      "m_known q1 = m_known q" "same_limits q q1"
    by (rule inv_add_current [OF S I t(1) H t(3,4)]) (auto simp: same_limits_def)
  moreover obtain q2 where q2: "makeCurrent_WITH_LOCK S rc t q1 = Ret () q2" "tq_inv rc (insert (q_hash t) (m_known q)) q2" "same_rest q1 q2"
    using makeCurrent_ok [OF S q1(2)] by blast
  ultimately show ?thesis
    by (intro exI [of _ "q2\<lparr>m_known := insert (q_hash t) (m_known q2)\<rparr>"])
      (auto simp: insertCurrent_WITH_LOCK_def tq_bind_def same_rest_def same_limits_def)
qed

lemma manageImport_ok:
  assumes S: "std_ok S" and I: "good rc q" and t: "\<not> sender_throws rc t" "q_hash t \<notin> m_known q"
  shows "\<exists>ir q'. manageImport_WITH_LOCK S rc (q_hash t) t q = Ret ir q' \<and> good rc q' \<and> same_limits q q'
    \<and> (ir = OverbidGasPrice \<or> ir = Success \<and> length (m_current q') \<le> unat (m_limit q'))"
proof -
  obtain g1 q1 where q1: "replace_current rc t q = Ret g1 q1" "good rc q1" "same_limits q q1" "m_known q1 \<subseteq> m_known q"
      "g1 \<Longrightarrow> map_of (inner (m_currentByAddressAndNonce q1) (q_from rc t)) (t_nonce t) = None"
    using replace_current_ok [OF I] by blast
  obtain g2 q2 where q2: "replace_future rc t q1 = Ret g2 q2" "good rc q2" "same_limits q1 q2" "m_known q2 = m_known q1"
      "m_currentByAddressAndNonce q2 = m_currentByAddressAndNonce q1"
      "g2 \<Longrightarrow> map_of (inner (m_future q2) (q_from rc t)) (t_nonce t) = None"
    using replace_future_ok [OF q1(2)] by blast
  note s2 = same_limits_trans [OF q1(3) q2(3)]
  consider "\<not> g1" | "g1" "\<not> g2" | "g1" "g2" by blast
  then show ?thesis
  proof cases
    case 1
    then show ?thesis using q1 by (simp add: manageImport_WITH_LOCK_def manageImport_body_def tq_bind_def)
  next
    case 2
    then show ?thesis using q1 q2 s2 by (simp add: manageImport_WITH_LOCK_def manageImport_body_def tq_bind_def)
  next
    case 3
    have "q_hash t \<notin> m_known q2" using t(2) q1(4) q2(4) by auto
    then obtain q3 where q3: "insertCurrent_WITH_LOCK S rc (q_hash t) t q2 = Ret () q3" "good rc q3" "same_limits q2 q3"
      using insertCurrent_ok [OF S q2(2) t(1)] q1(5) q2(5,6) 3 by auto
    obtain q4 where q4: "trim_current rc q3 = Ret () q4" "good rc q4" "same_limits q3 q4" "length (m_current q4) \<le> unat (m_limit q4)"
      using trim_current_ok [OF q3(2)] by blast
    have "same_limits q q4" using s2 q3(3) q4(3) same_limits_trans by blast
    then show ?thesis using q1(1) q2(1) q3(1) q4 3
      by (simp add: manageImport_WITH_LOCK_def manageImport_body_def tq_bind_def same_limits_def)
  qed
qed

lemma future_loop_ok:
  "tq_inv rc K (q\<lparr>m_currentByAddressAndNonce := put_inner a (pre @ ms) (m_currentByAddressAndNonce q)\<rparr>) \<Longrightarrow>
    \<exists>q'. future_loop a ms q = Ret () q' \<and> m_currentByAddressAndNonce q' = m_currentByAddressAndNonce q \<and> same_rest q q'
      \<and> tq_inv rc K (q'\<lparr>m_currentByAddressAndNonce := put_inner a pre (m_currentByAddressAndNonce q')\<rparr>)"
proof (induction ms arbitrary: q)
  case Nil
  then show ?case by simp
next
  case (Cons kv ms)
  obtain k v where kv: "kv = (k, v)" by force
  let ?q0 = "q\<lparr>m_currentByAddressAndNonce := put_inner a (pre @ (k, v) # ms) (m_currentByAddressAndNonce q)\<rparr>"
  have I: "tq_inv rc K ?q0" using Cons.prems by (simp add: kv)
  have ok: "okm (pre @ (k, v) # ms)" using maps_okD(1) [OF index_okD(4) [OF tq_invD(1) [OF I]], of a] by simp
  have "map_of (inner (m_currentByAddressAndNonce ?q0) a) k = Some v"
    using map_of_is_SomeI [OF okm_distinct [OF ok], of k v] by simp
  then obtain i t where t: "v = Some i" "(i, t) \<in> cur ?q0" "q_from rc t = a" "t_nonce t = k"
    using index_okD(5) [OF tq_invD(1) [OF I], of a k v] by blast
  have d: "deref_it q i = Some t" using index_ok_map [OF tq_invD(1) [OF I] t(2)] by (simp add: deref_it_def)
  let ?q1 = "q\<lparr>m_currentByHash := (m_currentByHash q)(q_hash t := None),
      m_future := (m_future q)(a \<mapsto> omap_insert (t_nonce t) t (inner (m_future q) a)),
      m_current := filter (\<lambda>(j, _). j \<noteq> i) (m_current q), m_futureSize := m_futureSize q + 1\<rparr>"
  have "to_future rc i t ?q0 = ?q1\<lparr>m_currentByAddressAndNonce := put_inner a (pre @ ms) (m_currentByAddressAndNonce ?q1)\<rparr>"
    using omap_erase_middle [OF ok] t(3,4) by (simp add: to_future_def del_current_def)
  then have "tq_inv rc K (?q1\<lparr>m_currentByAddressAndNonce := put_inner a (pre @ ms) (m_currentByAddressAndNonce ?q1)\<rparr>)"
    using inv_to_future [OF I t(2)] by simp
  from Cons.IH [OF this] obtain q' where q': "future_loop a ms ?q1 = Ret () q'" "m_currentByAddressAndNonce q' = m_currentByAddressAndNonce ?q1"
      "same_rest ?q1 q'" "tq_inv rc K (q'\<lparr>m_currentByAddressAndNonce := put_inner a pre (m_currentByAddressAndNonce q')\<rparr>)" by blast
  have "future_loop a (kv # ms) q = Ret () q'" using q'(1) d t(1) by (simp add: kv)
  moreover have "same_rest q q'" using q'(3) by (simp add: same_rest_def)
  ultimately show ?case using q'(2,4) by simp
qed

lemma future_loop_entry: "ms \<noteq> [] \<Longrightarrow> future_loop a ms (q\<lparr>m_future := (m_future q)(a \<mapsto> inner (m_future q) a)\<rparr>) = future_loop a ms q"
  by (cases ms) (auto simp: deref_it_def split: option.splits)

lemma setFuture_ok:
  assumes I: "good rc q"
  shows "\<exists>q'. setFuture rc h q = Ret () q' \<and> good rc q' \<and> same_limits q q'"
proof (cases "m_currentByHash q h")
  case None
  then show ?thesis using I by (simp add: setFuture_def)
next
  case (Some i)
  note D = index_okD [OF tq_invD(1) [OF I]]
  obtain t where t: "(i, t) \<in> cur q" "q_hash t = h" using D(3) Some by blast
  define a where "a = q_from rc t"
  define m where "m = inner (m_currentByAddressAndNonce q) a"
  have look: "map_of m (t_nonce t) = Some (Some i)" unfolding m_def using D(5) t(1) a_def by blast
  have "put_inner a (omap_until (t_nonce t) m @ omap_from (t_nonce t) m) (m_currentByAddressAndNonce q) = m_currentByAddressAndNonce q"
    using maps_ok_inner [OF D(4)] by (simp add: omap_split m_def)
  then have "tq_inv rc (m_known q)
      (q\<lparr>m_currentByAddressAndNonce := put_inner a (omap_until (t_nonce t) m @ omap_from (t_nonce t) m) (m_currentByAddressAndNonce q)\<rparr>)"
    using I by simp
  from future_loop_ok [OF this] obtain q1 where q1: "future_loop a (omap_from (t_nonce t) m) q = Ret () q1" "same_rest q q1"
      "tq_inv rc (m_known q) (q1\<lparr>m_currentByAddressAndNonce := put_inner a (omap_until (t_nonce t) m) (m_currentByAddressAndNonce q1)\<rparr>)"
    by blast
  have "omap_from (t_nonce t) m \<noteq> []" using look by (intro omap_from_Some) simp
  note e = future_loop_entry [OF this, of a q]
  have "setFuture rc h q = Ret () (q1\<lparr>m_currentByAddressAndNonce := put_inner a (omap_until (t_nonce t) m) (m_currentByAddressAndNonce q1)\<rparr>)"
    using Some index_ok_map [OF tq_invD(1) [OF I] t(1)] e q1(1) by (simp add: setFuture_def Let_def a_def m_def tq_bind_def)
  then show ?thesis using q1(2,3) by (simp add: same_limits_def same_rest_def)
qed

lemma drop_ok:
  assumes "good rc q"
  shows "\<exists>q'. drop_tx rc h q = Ret () q' \<and> good rc q' \<and> same_limits q q'"
proof (cases "h \<in> m_known q")
  case True
  have "good rc (q\<lparr>m_dropped := insert h (m_dropped q)\<rparr>)" using assms by simp
  from remove_good [OF this, of h] obtain r q' where
    "remove_WITH_LOCK rc h (q\<lparr>m_dropped := insert h (m_dropped q)\<rparr>) = Ret r q'" "good rc q'"
    "same_limits (q\<lparr>m_dropped := insert h (m_dropped q)\<rparr>) q'" by blast
  then show ?thesis using True by (simp add: drop_tx_def tq_bind_def same_limits_def)
qed (use assms in \<open>simp add: drop_tx_def\<close>)

lemma dropGood_ok:
  assumes S: "std_ok S" and I: "good rc q"
  shows "\<exists>q'. dropGood S rc t q = Ret () q' \<and> good rc q' \<and> same_limits q q'"
proof -
  obtain q1 where q1: "makeCurrent_WITH_LOCK S rc t q = Ret () q1" "tq_inv rc (m_known q) q1" "same_rest q q1"
    using makeCurrent_ok [OF S I] by blast
  then have g: "good rc q1" by (simp add: same_rest_def)
  from remove_good [OF g, of "q_hash t"] obtain r q2 where q2:
    "remove_WITH_LOCK rc (q_hash t) q1 = Ret r q2" "good rc q2" "same_limits q1 q2" by blast
  show ?thesis
  proof (cases "q_hash t \<in> m_known q1")
    case True
    then show ?thesis using q1(1) q2 same_limits_trans [OF same_limits_simps(2) [OF q1(3)] q2(3)] by (simp add: dropGood_def tq_bind_def)
  next
    case False
    then show ?thesis using q1(1,3) g by (simp add: dropGood_def tq_bind_def)
  qed
qed

lemma clear_ok: "good rc (tq_clear q)"
  by (simp add: tq_inv_def index_ok_def future_ok_def hashes_ok_def tq_clear_def maps_ok_def total_def txs_def fut_def inner_def)

lemma import_tx_ok:
  assumes S: "std_ok S" and I: "good rc q" and t: "\<not> sender_throws rc t"
  shows "\<exists>ir q'. import_tx S rc t ik q = Ret ir q' \<and> good rc q' \<and> same_limits q q' \<and> (ir = Success \<longrightarrow> length (m_current q') \<le> unat (m_limit q'))"
proof (cases "check_WITH_LOCK (q_hash t) ik q = Success")
  case True
  then have "q_hash t \<notin> m_known q" by (auto simp: check_WITH_LOCK_def split: if_splits)
  from manageImport_ok [OF S I t this] show ?thesis using True by (auto simp: import_tx_def)
qed (use I in \<open>simp add: import_tx_def\<close>)

lemma tx_field_Inr: "tx_field d i f c k = Inr r \<Longrightarrow> \<exists>x c'. k x c' = Inr r"
  by (auto simp: tx_field_def field_def tx_fail_def split: sum.splits prod.splits)

lemma tx_rlp_sender [simp]: "tx_rlp sig (t\<lparr>t_sender := a\<rparr>) = tx_rlp sig t"
  by (simp add: tx_rlp_def tx_streamRLP_def tx_fields_def)

lemma tx_sender_again:
  assumes "tx_sender rc u = Inr (a, t)"
  shows "\<not> sender_throws rc t"
proof (cases "t_sender u = 0")
  case False
  then have "t = u" using assms by (simp add: tx_sender_def)
  then show ?thesis using assms by (simp add: sender_throws_def)
next
  case True
  obtain b where b: "tx_rlp WithoutSignature u = Inr b"
    using assms True by (cases "tx_rlp WithoutSignature u") (simp_all add: tx_sender_def tx_sha3_def)
  then have p: "hash_nonzero (rc (t_vrs u) (sha3 b))" "t = u\<lparr>t_sender := a\<rparr>"
    using assms True by (auto simp: tx_sender_def tx_sha3_def Let_def split: if_splits)
  then have "tx_sender rc t \<noteq> Inl e" for e using b by (simp add: tx_sender_def tx_sha3_def Let_def)
  then show ?thesis by (auto simp: sender_throws_def split: sum.splits)
qed

lemma tx_parse_sender:
  assumes "tx_parse rc Everything b = Inr t"
  shows "\<not> sender_throws rc t"
proof -
  obtain d u c where "tx_check rc Everything d u c = Inr t"
    using assms unfolding tx_parse_def
    by (auto split: sum.splits if_splits simp: tx_fail_def dest!: tx_field_Inr)
  then obtain a where a: "tx_sender rc u = Inr (a, t)"
    by (auto simp: tx_check_def tx_fail_def split: sum.splits if_splits)
  then show ?thesis by (rule tx_sender_again)
qed

lemma import_rlp_ok:
  assumes S: "std_ok S" and I: "good rc q" and b: "\<And>t. tx_parse rc Everything b = Inr t \<Longrightarrow> q_hash t = sha3 b"
  shows "\<exists>ir q'. import_rlp S rc b ik q = Ret ir q' \<and> good rc q' \<and> same_limits q q' \<and> (ir = Success \<longrightarrow> length (m_current q') \<le> unat (m_limit q'))"
proof (cases "check_WITH_LOCK (sha3 b) ik q = Success")
  case True
  show ?thesis
  proof (cases "tx_parse rc Everything b")
    case (Inl e)
    then show ?thesis using True I by (simp add: import_rlp_def)
  next
    case (Inr t)
    have h: "q_hash t = sha3 b" by (rule b [OF Inr])
    then have "q_hash t \<notin> m_known q" using True by (auto simp: check_WITH_LOCK_def split: if_splits)
    from manageImport_ok [OF S I tx_parse_sender [OF Inr] this] show ?thesis using True Inr h by (auto simp: import_rlp_def)
  qed
qed (use I in \<open>simp add: import_rlp_def\<close>)

section \<open>The queue as a state machine\<close>

datatype tq_op =
  ImportTx transaction IfDropped | ImportRlp bytes IfDropped | DropTx h256 | DropGood transaction
| SetFuture h256 | ClearQueue | Enqueue bytes h512 | Verify

definition tq_exec :: "stdlib \<Rightarrow> recover_fun \<Rightarrow> tq_op \<Rightarrow> tx_queue \<Rightarrow> ImportResult option tq_res" where
  "tq_exec S rc x q =
     (case x of
        ImportTx t ik \<Rightarrow> tq_bind (import_tx S rc t ik q) (\<lambda>ir q1. Ret (Some ir) q1)
      | ImportRlp b ik \<Rightarrow> tq_bind (import_rlp S rc b ik q) (\<lambda>ir q1. Ret (Some ir) q1)
      | DropTx h \<Rightarrow> tq_bind (drop_tx rc h q) (\<lambda>_ q1. Ret None q1)
      | DropGood t \<Rightarrow> tq_bind (dropGood S rc t q) (\<lambda>_ q1. Ret None q1)
      | SetFuture h \<Rightarrow> tq_bind (setFuture rc h q) (\<lambda>_ q1. Ret None q1)
      | ClearQueue \<Rightarrow> Ret None (tq_clear q)
      | Enqueue d node \<Rightarrow> tq_bind (enqueue d node q) (\<lambda>_ q1. Ret None q1)
      | Verify \<Rightarrow> tq_bind (verifier_step S rc q) (\<lambda>_ q1. Ret None q1))"

text \<open>The transactions that come in have a sender that can be recovered.  Those that come as RLP are checked
  for it by the import itself.\<close>

definition op_ok :: "recover_fun \<Rightarrow> tq_op \<Rightarrow> tx_queue \<Rightarrow> bool" where
  "op_ok rc x q =
     (case x of
        ImportTx t ik \<Rightarrow> \<not> sender_throws rc t
      | Verify \<Rightarrow>
          (case m_unverified q of [] \<Rightarrow> True
           | w # _ \<Rightarrow> (case tx_parse rc Cheap (u_transaction w) of Inl _ \<Rightarrow> True | Inr t \<Rightarrow> \<not> sender_throws rc t))
      | _ \<Rightarrow> True)"

text \<open>The bytes are not the encoding that the transaction in them has, and the assertion of
  \<^verbatim>\<open>manageImport_WITH_LOCK\<close> on the hash is reached.\<close>

definition assert_fails :: "recover_fun \<Rightarrow> tq_op \<Rightarrow> tx_queue \<Rightarrow> bool" where
  "assert_fails rc x q =
     (case x of
        ImportRlp b ik \<Rightarrow> check_WITH_LOCK (sha3 b) ik q = Success
          \<and> (case tx_parse rc Everything b of Inl _ \<Rightarrow> False | Inr t \<Rightarrow> q_hash t \<noteq> sha3 b)
      | _ \<Rightarrow> False)"

text \<open>A caller goes on after an exception.\<close>

inductive tq_reach :: "stdlib \<Rightarrow> recover_fun \<Rightarrow> 32 word \<Rightarrow> 32 word \<Rightarrow> tx_queue \<Rightarrow> bool" for S rc l f where
  start: "tq_reach S rc l f (tq_new l f)"
| step: "tq_reach S rc l f q \<Longrightarrow> op_ok rc x q \<Longrightarrow> tq_exec S rc x q = Ret r q' \<or> tq_exec S rc x q = Throw q'
    \<Longrightarrow> tq_reach S rc l f q'"

lemma enqueue_loop_ok:
  "good rc q \<Longrightarrow> \<exists>q'. (enqueue_loop d node js c q = Ret () q' \<or> enqueue_loop d node js c q = Throw q') \<and> good rc q'
    \<and> m_limit q' = m_limit q \<and> m_futureLimit q' = m_futureLimit q \<and> q_log q' = q_log q
    \<and> (\<forall>w\<in>set (m_unverified q'). w \<in> set (m_unverified q) \<or> u_nodeId w = 0)"
proof (induction js arbitrary: c q)
  case (Cons i js)
  show ?case
  proof (cases "length (m_unverified q) \<ge> c_maxVerificationQueueSize")
    case False
    obtain r c' where r: "subscript d c i = (r, c')" by force
    show ?thesis
    proof (cases r)
      case (Inl e)
      then show ?thesis using Cons.prems False r by simp
    next
      case (Inr b)
      let ?q = "q\<lparr>m_unverified := m_unverified q @ [unverified_move \<lparr>u_transaction = b, u_nodeId = node\<rparr>]\<rparr>"
      have "good rc ?q" using Cons.prems by simp
      from Cons.IH [OF this, of c'] show ?thesis using False r Inr by (fastforce simp: unverified_move_def)
    qed
  qed (use Cons.prems in simp)
qed simp

lemma enqueue_ok:
  assumes "good rc q"
  shows "\<exists>q'. (enqueue d node q = Ret () q' \<or> enqueue d node q = Throw q') \<and> good rc q'
    \<and> m_limit q' = m_limit q \<and> m_futureLimit q' = m_futureLimit q \<and> q_log q' = q_log q
    \<and> (\<forall>w\<in>set (m_unverified q'). w \<in> set (m_unverified q) \<or> u_nodeId w = 0)"
proof (cases "itemCount d")
  case (Inr n)
  then show ?thesis using enqueue_loop_ok [OF assms, of d node "[0..<n]" fresh_cache] by (simp add: enqueue_def)
qed (use assms in \<open>simp add: enqueue_def\<close>)

lemma verifier_ok:
  assumes S: "std_ok S" and I: "good rc q" and v: "op_ok rc Verify q"
  shows "\<exists>q'. verifier_step S rc q = Ret () q' \<and> good rc q' \<and> m_limit q' = m_limit q \<and> m_futureLimit q' = m_futureLimit q"
proof (cases "m_unverified q")
  case Nil
  then show ?thesis using I by (simp add: verifier_step_def)
next
  case (Cons w ws)
  let ?q = "q\<lparr>m_unverified := ws\<rparr>"
  show ?thesis
  proof (cases "tx_parse rc Cheap (u_transaction w)")
    case (Inl e)
    then show ?thesis using I Cons by (simp add: verifier_step_def)
  next
    case (Inr t)
    have "\<not> sender_throws rc t" "good rc ?q" using v I Cons Inr by (simp_all add: op_ok_def)
    from import_tx_ok [OF S this(2,1), of Ignore] obtain ir q' where
      "import_tx S rc t Ignore ?q = Ret ir q'" "good rc q'" "same_limits ?q q'" by blast
    then show ?thesis using Cons Inr by (simp add: verifier_step_def same_limits_def)
  qed
qed

definition is_enqueue :: "tq_op \<Rightarrow> bool" where
  "is_enqueue x = (case x of Enqueue _ _ \<Rightarrow> True | _ \<Rightarrow> False)"

lemma tq_exec_assert: "assert_fails rc x q \<Longrightarrow> tq_exec S rc x q = Undefined"
  by (auto simp: assert_fails_def tq_exec_def import_rlp_def manageImport_WITH_LOCK_def manageImport_body_def tq_bind_def
      split: tq_op.splits sum.splits)

lemma import_rlp_early:
  "check_WITH_LOCK (sha3 b) ik q \<noteq> Success \<Longrightarrow> import_rlp S rc b ik q = Ret (check_WITH_LOCK (sha3 b) ik q) q"
  by (simp add: import_rlp_def Let_def)

lemma tq_exec_ok:
  assumes S: "std_ok S" and I: "good rc q" and x: "op_ok rc x q" and a: "\<not> assert_fails rc x q"
  shows "\<exists>r q'. (tq_exec S rc x q = Ret r q' \<or> is_enqueue x \<and> tq_exec S rc x q = Throw q')
    \<and> good rc q' \<and> m_limit q' = m_limit q \<and> m_futureLimit q' = m_futureLimit q
    \<and> (r = Some Success \<longrightarrow> length (m_current q') \<le> unat (m_limit q'))"
proof (cases x)
  case (ImportTx t ik)
  then show ?thesis using import_tx_ok [OF S I, of t ik] x by (auto simp: tq_exec_def tq_bind_def op_ok_def same_limits_def)
next
  case (ImportRlp b ik)
  show ?thesis
  proof (cases "check_WITH_LOCK (sha3 b) ik q = Success")
    case True
    then have "q_hash t = sha3 b" if "tx_parse rc Everything b = Inr t" for t
      using a that by (simp add: ImportRlp assert_fails_def)
    from import_rlp_ok [OF S I this, of ik] show ?thesis by (auto simp: ImportRlp tq_exec_def tq_bind_def same_limits_def)
  next
    case False
    then show ?thesis using I import_rlp_early [OF False, of S rc] by (auto simp: ImportRlp tq_exec_def tq_bind_def)
  qed
next
  case (DropTx h)
  then show ?thesis using drop_ok [OF I, of h] by (auto simp: tq_exec_def tq_bind_def same_limits_def)
next
  case (DropGood t)
  then show ?thesis using dropGood_ok [OF S I, of t] by (auto simp: tq_exec_def tq_bind_def same_limits_def)
next
  case (SetFuture h)
  then show ?thesis using setFuture_ok [OF I, of h] by (auto simp: tq_exec_def tq_bind_def same_limits_def)
next
  case ClearQueue
  then show ?thesis using clear_ok [of rc q] by (simp add: tq_exec_def) (simp add: tq_clear_def)
next
  case (Enqueue d node)
  obtain q' where q': "enqueue d node q = Ret () q' \<or> enqueue d node q = Throw q'" "good rc q'" "m_limit q' = m_limit q"
      "m_futureLimit q' = m_futureLimit q" using enqueue_ok [OF I] by blast
  then have "tq_exec S rc x q = Ret None q' \<or> is_enqueue x \<and> tq_exec S rc x q = Throw q'"
    by (auto simp: Enqueue tq_exec_def tq_bind_def is_enqueue_def)
  then show ?thesis using q'(2-4) by (intro exI [of _ None] exI [of _ q']) simp
next
  case Verify
  then show ?thesis using verifier_ok [OF S I] x by (auto simp: tq_exec_def tq_bind_def)
qed

lemma tq_reach_good:
  assumes S: "std_ok S" and "tq_reach S rc l f q"
  shows "good rc q \<and> m_limit q = l \<and> m_futureLimit q = f"
  using assms(2)
proof (induction rule: tq_reach.induct)
  case start
  then show ?case using tq_new_inv [of rc l f] by (simp add: tq_new_def)
next
  case (step q x r q')
  have "\<not> assert_fails rc x q" using step.hyps(3) tq_exec_assert [of rc x q S] by auto
  then show ?case using step tq_exec_ok [OF S, of rc q x] by auto
qed

primrec tq_run :: "stdlib \<Rightarrow> recover_fun \<Rightarrow> tq_op list \<Rightarrow> tx_queue \<Rightarrow> ImportResult option list tq_res" where
  "tq_run S rc [] q = Ret [] q"
| "tq_run S rc (x # xs) q = tq_bind (tq_exec S rc x q) (\<lambda>r q1. tq_bind (tq_run S rc xs q1) (\<lambda>rs q2. Ret (r # rs) q2))"

section \<open>Properties\<close>

text \<open>C36: the transaction queue is consistent after any sequence of operations: imports of transactions
  and of their encodings, \<^verbatim>\<open>drop\<close>, \<^verbatim>\<open>dropGood\<close>, \<^verbatim>\<open>setFuture\<close>,
  \<^verbatim>\<open>clear\<close>, \<^verbatim>\<open>enqueue\<close> and rounds of the verifier, where the sender of every transaction
  that is imported as an object or by the verifier can be recovered (\<open>op_ok\<close>; an import of bytes checks
  this itself).  From every reachable state the next operation returns or throws and leaves such a queue, with
  one exception.  It throws only if it is \<^verbatim>\<open>enqueue\<close> (the reader's exceptions on a malformed list go to
  its caller); it never follows a dangling iterator and never loops.  The exception is an import of bytes
  that are not the encoding of the transaction they parse to, for instance with the receiver given as the empty
  list: it fails the assertion in \<^verbatim>\<open>manageImport_WITH_LOCK\<close> that the hash of the bytes is the hash of the
  transaction, and nothing is claimed after it.  Afterwards
  the indices by hash and by sender and nonce list exactly the queued transactions, no sender and nonce
  is both queued and in the future set, \<^verbatim>\<open>m_futureSize\<close> is the number of future transactions, all
  hashes differ and are known, and a successful import leaves at most \<^verbatim>\<open>m_limit\<close> transactions
  queued.  Of the standard library it takes what \<open>std_ok\<close> says.\<close>

theorem tq_safe:
  assumes "std_ok S" and "tq_reach S rc l f q" and "op_ok rc x q"
  shows "case tq_exec S rc x q of
      Ret r q' \<Rightarrow> index_ok rc q' \<and> future_ok rc q' \<and> hashes_ok rc (m_known q') q'
        \<and> (r = Some Success \<longrightarrow> length (m_current q') \<le> unat l)
    | Throw q' \<Rightarrow> (\<exists>d node. x = Enqueue d node) \<and> index_ok rc q' \<and> future_ok rc q' \<and> hashes_ok rc (m_known q') q'
    | Undefined \<Rightarrow> (\<exists>b ik t. x = ImportRlp b ik \<and> tx_parse rc Everything b = Inr t \<and> q_hash t \<noteq> sha3 b)
    | Diverges \<Rightarrow> False"
proof (cases "assert_fails rc x q")
  case True
  then show ?thesis using tq_exec_assert [OF True, of S] by (auto simp: assert_fails_def split: tq_op.splits sum.splits)
next
  case False
  have g: "good rc q" "m_limit q = l" using tq_reach_good [OF assms(1,2)] by auto
  obtain r q' where e: "tq_exec S rc x q = Ret r q' \<or> is_enqueue x \<and> tq_exec S rc x q = Throw q'" and q': "good rc q'"
    and l: "m_limit q' = m_limit q" "r = Some Success \<longrightarrow> length (m_current q') \<le> unat (m_limit q')"
    using tq_exec_ok [OF assms(1) g(1) assms(3) False] by blast
  have "index_ok rc q'" "future_ok rc q'" "hashes_ok rc (m_known q') q'" using q' tq_invD by auto
  moreover have "is_enqueue x \<Longrightarrow> \<exists>d node. x = Enqueue d node" by (cases x) (simp_all add: is_enqueue_def)
  ultimately show ?thesis using e l g(2) by auto
qed

text \<open>A library that compares with the first element.\<close>

definition plain_std :: stdlib where
  "plain_std = \<lparr>cmp_path = (\<lambda>bs. if bs = [] then [] else [0]), ins_pos = (\<lambda>bs. length (takeWhile Not bs)), map_begin = Min\<rparr>"

lemma plain_std_ok: "std_ok plain_std"
proof -
  have "length (takeWhile Not (replicate a False @ replicate b True)) = a" for a b
    by (induction a) (cases b, simp_all)
  then show ?thesis by (auto simp: std_ok_def plain_std_def intro!: Min_in)
qed

text \<open>A transaction with its hash and its sender memoised.\<close>

definition memo_tx :: "h256 \<Rightarrow> address \<Rightarrow> u256 \<Rightarrow> u256 \<Rightarrow> transaction" where
  "memo_tx h a n p = null_transaction\<lparr>t_type := MessageCall, t_nonce := n, t_gasPrice := p, t_hashWith := h, t_sender := a\<rparr>"

definition no_key :: recover_fun where
  "no_key s h = replicate 64 0"

theorem tq_safe_witness:
  "case tq_exec plain_std no_key (ImportTx (memo_tx 1 2 3 4) Ignore) (tq_new 5 6) of
     Ret r q' \<Rightarrow> r = Some Success \<and> map snd (m_current q') = [memo_tx 1 2 3 4] \<and> index_ok no_key q'
       \<and> future_ok no_key q' \<and> hashes_ok no_key (m_known q') q'
   | _ \<Rightarrow> False"
proof -
  have "op_ok no_key (ImportTx (memo_tx 1 2 3 4) Ignore) (tq_new 5 6)"
    by (simp add: op_ok_def sender_throws_def tx_sender_def memo_tx_def)
  from tq_safe [OF plain_std_ok tq_reach.start this]
  have *: "case tq_exec plain_std no_key (ImportTx (memo_tx 1 2 3 4) Ignore) (tq_new 5 6) of
      Ret r q' \<Rightarrow> index_ok no_key q' \<and> future_ok no_key q' \<and> hashes_ok no_key (m_known q') q' | _ \<Rightarrow> True"
    by (auto split: tq_res.splits)
  have "case tq_exec plain_std no_key (ImportTx (memo_tx 1 2 3 4) Ignore) (tq_new 5 6) of
      Ret r q' \<Rightarrow> r = Some Success \<and> map snd (m_current q') = [memo_tx 1 2 3 4] | _ \<Rightarrow> False"
    by code_simp
  with * show ?thesis by (auto split: tq_res.splits)
qed

text \<open>C37: transactions without a recoverable sender corrupt the queue.  The verifier checks signatures only
  cheaply and leaves the rest to the import, which never does it.  If the queue is not empty, importing
  such a transaction is answered with \<^verbatim>\<open>Malformed\<close>, because the comparison in the multiset throws,
  but the entry made just before in the index by sender and nonce stays, with an iterator to nothing; the
  import of a second such transaction of the same nonce follows that iterator.\<close>

theorem tq_bad_signature:
  assumes S: "std_ok S" and t: "sender_throws rc t" "sender_throws rc u" "t_nonce u = t_nonce t"
    and q: "m_current q \<noteq> []" "map_of (inner (m_currentByAddressAndNonce q) 0) (t_nonce t) = None"
      "map_of (inner (m_future q) 0) (t_nonce t) = None" "okm (inner (m_currentByAddressAndNonce q) 0)"
    and h: "m_currentByHash q (q_hash t) = None" "check_WITH_LOCK (q_hash t) Ignore q = Success" "check_WITH_LOCK (q_hash u) Ignore q = Success"
  shows "\<exists>q'. import_tx S rc t Ignore q = Ret Malformed q' \<and> import_tx S rc u Ignore q' = Undefined"
proof -
  let ?A = "m_currentByAddressAndNonce q"
  let ?q = "q\<lparr>m_currentByAddressAndNonce := ?A(0 \<mapsto> omap_insert (t_nonce t) None (inner ?A 0))\<rparr>"
  have z: "q_from rc t = 0" "q_from rc u = 0" using t(1,2) by (auto simp: tx_safeSender_def sender_throws_def split: sum.splits)
  have "emplace S rc t ?q = Throw ?q" using q(1) t(1) by (simp add: emplace_def Let_def)
  then have "add_current S rc (q_from rc t) (q_hash t) t q = Throw ?q" by (simp add: add_current_def z tq_bind_def Let_def)
  moreover have "replace_current rc t q = Ret True q" "replace_future rc t q = Ret True q"
    using q(2,3) by (auto simp: replace_current_def replace_future_def z inner_def split: option.splits)
  ultimately have first: "import_tx S rc t Ignore q = Ret Malformed ?q"
    using h by (simp add: import_tx_def manageImport_WITH_LOCK_def manageImport_body_def insertCurrent_WITH_LOCK_def tq_bind_def)
  have "map_of (omap_insert (t_nonce t) None (inner ?A 0)) (t_nonce t) = Some None"
    using omap_insert_ok(3) [OF q(4), of "t_nonce t" None] q(2) by simp
  then have "replace_current rc u ?q = Undefined" by (simp add: replace_current_def z t(3))
  moreover have "check_WITH_LOCK (q_hash u) Ignore ?q = Success" using h(3) by (simp add: check_WITH_LOCK_def split: if_splits)
  ultimately have "import_tx S rc u Ignore ?q = Undefined"
    by (simp add: import_tx_def manageImport_WITH_LOCK_def manageImport_body_def tq_bind_def)
  with first show ?thesis by blast
qed

definition one_queued :: tx_queue where
  "one_queued = (tq_new 5 6)\<lparr>m_known := {1}, m_current := [(0, memo_tx 1 2 3 4)], m_currentByHash := [1 \<mapsto> 0],
     m_currentByAddressAndNonce := [2 \<mapsto> [(3, Some 0)]], q_next := 1\<rparr>"

theorem tq_bad_signature_witness:
  "\<exists>q'. import_tx plain_std no_key (memo_tx 8 0 7 4) Ignore one_queued = Ret Malformed q'
    \<and> import_tx plain_std no_key (memo_tx 9 0 7 5) Ignore q' = Undefined"
proof (rule tq_bad_signature [OF plain_std_ok])
  show "sender_throws no_key (memo_tx 8 0 7 4)" "sender_throws no_key (memo_tx 9 0 7 5)"
    by (auto simp: sender_throws_def tx_sender_def memo_tx_def no_key_def hash_nonzero_def list_ex_iff Let_def split: sum.splits)
qed (simp_all add: one_queued_def tq_new_def inner_def okm_def check_WITH_LOCK_def q_hash_def tx_sha3_def memo_tx_def)

text \<open>A future transaction that is replaced is never accepted again.  Import a transaction, mark it as
  future, import another of the same sender and nonce at a higher gas price, and drop that one: the
  queue is empty, but the hash of the first is still in \<^verbatim>\<open>m_known\<close>, whose comment says it holds the
  hashes of the transactions in both sets, and its import is answered with \<^verbatim>\<open>AlreadyKnown\<close>.\<close>

theorem tq_replaced_future_forgotten:
  "case tq_run plain_std no_key
       [ImportTx (memo_tx 1 2 3 4) Ignore, SetFuture 1, ImportTx (memo_tx 9 2 3 5) Ignore, DropTx 9, ImportTx (memo_tx 1 2 3 4) Retry]
       (tq_new 5 6) of
     Ret rs q \<Rightarrow> rs = [Some Success, None, Some Success, None, Some AlreadyKnown] \<and> m_current q = [] \<and> m_futureSize q = 0
   | _ \<Rightarrow> False"
  by code_simp

text \<open>The queue forgets which peer sent a transaction.  The move constructor of
  \<^verbatim>\<open>UnverifiedTransaction\<close> does not take the node id, and \<^verbatim>\<open>enqueue\<close> moves a temporary into
  the queue: whatever node id it was called with, it queues the node id zero.\<close>

lemma enqueue_node_id:
  assumes "enqueue_loop d node js c q = Ret () q'" and "w \<in> set (m_unverified q')"
  shows "w \<in> set (m_unverified q) \<or> u_nodeId w = 0"
  using assms
proof (induction js arbitrary: c q)
  case (Cons i js)
  then show ?case by (cases "subscript d c i") (fastforce simp: unverified_move_def split: if_splits sum.splits)
qed simp

text \<open>The comment at \<^verbatim>\<open>PriorityQueue\<close> says that updating the least nonce of an account does not affect
  the order.  It does: after the import of nonce 3 of the first sender its nonce 5 still stands before the
  transaction of the other sender that now comes first.\<close>

lemma tq_order_broken:
  "case tq_run plain_std no_key
       [ImportTx (memo_tx 1 7 5 10) Ignore, ImportTx (memo_tx 2 8 3 6) Ignore, ImportTx (memo_tx 3 7 3 1) Ignore] (tq_new 9 9) of
     Ret _ q \<Rightarrow> map t_hashWith (topTransactions 9 {} q) = [3, 1, 2] \<and> prio_less no_key q (memo_tx 2 8 3 6) (memo_tx 1 7 5 10)
   | _ \<Rightarrow> False"
  by code_simp

end
