(* ===== verification/Spec2Isabelle.thy ===== *)
theory Spec2Isabelle
  imports Prelude Common_Data Rlp Hex_Prefix Memory_Db Instruction Sha3 Evm Evm_Safety World_State Rlp_Records
    Transactions Executive Trie_Refine Trie_Hash_Eq Chain_Safe Block_Queue_Safe Tx_Queue_Safe
begin

text \<open>
A verification library for the ledger node of this repository: the core data structures of
  \<^verbatim>\<open>libweb3core/libdevcore\<close> and the transaction processing of \<^verbatim>\<open>libelementrem\<close> (\<^verbatim>\<open>libevmcore\<close>, \<^verbatim>\<open>libevm\<close>,
  \<^verbatim>\<open>libelecore\<close>, \<^verbatim>\<open>libelementrem\<close>).  Definitions carry the names of the code; a suffix is added where a
  name of HOL is in the way or where a function is overloaded.

\<^bold>\<open>The program\<close>

A node keeps the state of the ledger in Merkle-Patricia tries.  The nodes of a trie are RLP lists,
  stored under their Keccak hash in a reference-counted database with a write-back layer
  (\<^verbatim>\<open>MemoryDB\<close>, \<^verbatim>\<open>OverlayDB\<close>).  On top of it \<^verbatim>\<open>State\<close> caches accounts; \<^verbatim>\<open>Executive\<close> runs a transaction on
  the state: it buys the gas, transfers the value, runs the code of the receiver in the virtual machine
  \<^verbatim>\<open>VM\<close>, through whose environment \<^verbatim>\<open>ExtVM\<close> message calls and creations come back to \<^verbatim>\<open>Executive\<close>, refunds
  what is left and deletes the accounts that asked for it.  Transactions that are not in a block yet
  wait in \<^verbatim>\<open>TransactionQueue\<close>, ordered by gas price and nonce, blocks that are not in the chain yet in \<^verbatim>\<open>BlockQueue\<close>, where threads
  verify them.  \<^verbatim>\<open>BlockChain\<close> keeps the tree of the blocks it
  has imported in two databases with caches in front of them, the branch of the greatest total difficulty
  as the canonical chain, and an index of bloom filters over it, through which \<^verbatim>\<open>LogFilter\<close> finds the log
  entries of past transactions in their receipts.

\<^bold>\<open>Theories and sources\<close>

\<^item> \<open>Prelude\<close>: the machine integers of \<^verbatim>\<open>Common.h\<close> as words, results as sums with \<open>res_bind\<close>, the lemma
  collections and the list and word lemmas that the other theories share.
\<^item> \<open>Common_Data\<close>: \<^verbatim>\<open>CommonData.h\<close>, \<^verbatim>\<open>CommonData.cpp\<close>, \<^verbatim>\<open>Common.h\<close>, \<^verbatim>\<open>vector_ref.h\<close>, \<^verbatim>\<open>FixedHash.h\<close>: hex and
  big-endian conversion, two's complement, views, hashes and bloom filters.
\<^item> \<open>Rlp\<close>: \<^verbatim>\<open>RLP.h\<close>, \<^verbatim>\<open>RLP.cpp\<close>: the reader with its strictness flags, the index cache of \<^verbatim>\<open>operator[]\<close>,
  iteration and conversions, the writer with its stack of open lists; the encoding \<open>encode\<close> as the
  specification of both.  \<open>Rlp_Records\<close>: what structures serialised in RLP share.
\<^item> \<open>Hex_Prefix\<close>: \<^verbatim>\<open>TrieCommon.h\<close>, \<^verbatim>\<open>TrieCommon.cpp\<close>: nibble slices and the hex-prefix notation.
\<^item> \<open>Memory_Db\<close>: \<^verbatim>\<open>MemoryDB\<close> and \<^verbatim>\<open>OverlayDB\<close>; the key-value store below (LevelDB) is a parameter.
\<^item> \<open>Trie_Db\<close>: \<^verbatim>\<open>TrieDB.h\<close>: \<^verbatim>\<open>GenericTrieDB\<close> over a record of node operations.  \<open>Trie_Spec\<close> is the abstract
  tree, \<open>Trie_Correct\<close>, \<open>Trie_Update\<close> and \<open>Trie_Delete\<close> show in the locale \<open>trie_store\<close> that lookup,
  insertion and removal implement the tree operations, \<open>Trie_Canon\<close> and \<open>Trie_Unique\<close> that trees with the
  same contents are the same tree, and \<open>Trie_Refine\<close> interprets the locale on both databases.
\<^item> \<open>Trie_Hash\<close>: \<^verbatim>\<open>TrieHash.cpp\<close>: the root of a trie from a sorted map in memory, as blocks use it for their
  lists of transactions and receipts.  \<open>Trie_Hash_Eq\<close>: it is the root that the trie database reaches.
\<^item> \<open>Sha3\<close>: \<^verbatim>\<open>SHA3.cpp\<close>: the permutation, the sponge and its entry points.
\<^item> \<open>Instruction\<close>: \<^verbatim>\<open>Instruction.h\<close>, \<^verbatim>\<open>Instruction.cpp\<close>, \<^verbatim>\<open>EVMSchedule.h\<close>.
\<^item> \<open>Evm\<close>: \<^verbatim>\<open>VM.cpp\<close>, \<^verbatim>\<open>VM.h\<close>, \<^verbatim>\<open>ExtVMFace.h\<close>: the interpreter over a record of the operations of its
  environment.  \<open>Evm_Safety\<close>: its theorems in the locale \<open>vm_world\<close>, the contract of that environment.
\<^item> \<open>World_State\<close>: \<^verbatim>\<open>Account.h\<close>, \<^verbatim>\<open>State.h\<close>, \<^verbatim>\<open>State.cpp\<close>: accounts, the cache, storage and balances.
\<^item> \<open>Transactions\<close>: \<^verbatim>\<open>libelecore/Transaction.h\<close>, \<^verbatim>\<open>Transaction.cpp\<close>: transactions, parsing and sender.
\<^item> \<open>Executive\<close>: \<^verbatim>\<open>Executive.cpp\<close>, \<^verbatim>\<open>ExtVM.cpp\<close>: message calls, creations and whole transactions; \<open>vm_world\<close>
  is interpreted on the environment that \<open>Executive\<close> builds.
\<^item> \<open>Block_Header\<close>: \<^verbatim>\<open>BlockHeader.h\<close>, \<^verbatim>\<open>BlockHeader.cpp\<close>: the header of a block, its two hashes, parsing and
  verification against a parent and against the transactions of the block.
\<^item> \<open>Elhash\<close>: \<^verbatim>\<open>Elhash.cpp\<close>, \<^verbatim>\<open>ElhashAux.cpp\<close> (the seed hashes), \<^verbatim>\<open>ChainOperationParams.h\<close>: the rules of the
  proof-of-work engine for difficulty, gas limit and header verification; the proof-of-work function
  itself is a parameter.
\<^item> \<open>Receipts\<close>: \<^verbatim>\<open>TransactionReceipt.cpp\<close>, the log entries of \<^verbatim>\<open>ExtVMFace.h\<close> and their bloom filters.
  \<open>Log_Filter\<close>: \<^verbatim>\<open>LogFilter.cpp\<close>, with \<open>log_wanted\<close> as the specification of what a filter asks for.
\<^item> \<open>Block_Details\<close>: \<^verbatim>\<open>BlockDetails.h\<close>, \<^verbatim>\<open>BlockDetails.cpp\<close>: the records of a block in the database.
\<^item> \<open>Chain_Store\<close>: \<^verbatim>\<open>BlockChain.h\<close>, \<^verbatim>\<open>BlockChain.cpp\<close>: the state of the chain, its caches and lookups; \<open>reads\<close>
  says that an operation has only filled caches, and every lookup keeps what the others see.
  \<open>Tree_Route\<close>: \<^verbatim>\<open>treeRoute\<close>, \<^verbatim>\<open>lastHashes\<close>, \<^verbatim>\<open>allKinFrom\<close>.  \<open>Bloom_Index\<close>: the index of bloom filters, its
  search and its repair when blocks leave the canonical chain.  \<open>Block_Chain\<close>: \<^verbatim>\<open>verifyBlock\<close>, \<^verbatim>\<open>import\<close>,
  \<^verbatim>\<open>insert\<close>, \<^verbatim>\<open>rewind\<close> and \<^verbatim>\<open>sync\<close>.
\<^item> \<open>Chain_Inv\<close>: the invariant of a chain and what keeps it when only caches change; \<open>Chain_Canon\<close>: a change of the
  canonical chain; \<open>Chain_Commit\<close>: the end of an import; \<open>Chain_Import\<close>: the whole import; \<open>Chain_Runs\<close>: insertion,
  rewinding, closing and opening; \<open>Wire_Block\<close>: blocks in the form in which nodes send them; \<open>Chain_Safe\<close>: every run
  of these operations from an empty database, with the engine of \<open>Elhash\<close>.
\<^item> \<open>Block_Queue\<close>: \<^verbatim>\<open>BlockQueue.cpp\<close>, \<^verbatim>\<open>VerifiedBlock.h\<close>: the queue of blocks with its verifiers, each of which is two steps with a
  block in its hands; \<open>Block_Queue_Safe\<close>: its invariant over every interleaving.
\<^item> \<open>Tx_Queue\<close>: \<^verbatim>\<open>TransactionQueue.cpp\<close>: the queue with its multiset and the two indices of iterators into
  it; \<open>Tx_Queue_Safe\<close> its invariant over every sequence of operations.

\<^bold>\<open>What the theorems show\<close>

RLP: the writer produces \<open>encode\<close> and the strict reader accepts exactly one encoding of an item;
  subscripts through the cache, integers and byte strings round-trip.  Hex-prefix notation round-trips
  and its three overloads agree.  The databases: lookups through every layer and across a commit, and
  the reference count.  Keccak: the sponge equals its definition by blocks and the fused step its
  two standard steps.  The trie: every run of insertions and removals returns and the trie then holds
  what a map holds, the root depends on the contents alone, old roots stay readable, and hashing a
  sorted map in memory gives the same root.  Headers: parsing what was streamed gives the header back;
  a child that the engine fills in from its parent passes the engine's verification; the difficulty moves
  by a bounded share of the parent's.  The virtual
  machine: every run ends, the stack and the memory stay in bounds, jumps reach only marked
  destinations, a message call cannot create gas.  The executive: every accepted transaction completes,
  a failed call leaves every account reading as it did, a plain transfer moves exactly the value and the fee.
  Receipts round-trip; the bloom filter in front of a log never hides an entry that a filter asks for.
  The chain: lookups are transparent, the route between two blocks goes over their latest common
  ancestor, the search of the index returns the matching numbers; in every run (with rewinds only to numbers whose hash is looked up right,
  which a stale cache entry can prevent) the head is a known
  block, the database has its ancestors under their numbers, every block is stored with its header and total
  difficulty, an import either changes nothing but caches or adds the block and reports exactly the blocks that left
  and joined the canonical chain, no known block is heavier than the head after imports, and the index never
  hides a canonical block.  The
  queue: its three structures agree in every reachable state and no operation uses an iterator that is
  gone, as long as senders can be recovered; importing bytes that are not the encoding of their transaction fails an assertion.  The block queue: the test that the code makes of itself holds in every interleaving of imports, drains and verifiers,
  unless the queue is cleared while a verifier is at work.  Where the code does less than it says, a theorem or a finding of the manifest records it.

\<^bold>\<open>Modelling\<close>

An operation that may throw returns a sum whose left side is the exception; where the state that an
  exception leaves behind matters it is returned beside the error.  Undefined behaviour of C++ that
  an operation can reach is a result of its own (\<open>Undefined\<close> in the queue); the exceptions are \<open>toBytes\<close> on an item that was built without its size check, and positions
  past the end of a list in helper functions that their callers never pass.  Integers have the width of the code.  The reads of \<^verbatim>\<open>State\<close> fill its cache in the code; the machine and the executive are modelled with the values
  that they return, \<open>reads_fill\<close> shows that the filled cache changes no read, and statements about states are statements about what they
  read as.  Code outside the sources is a parameter: the
  elliptic curve, the precompiled contracts, LevelDB, and the parts of the standard library whose
  behaviour the standard leaves open; theorems name what they need of it and a witness gives an
  instance.  The theorem on the block queue takes from the hash function that no verified block has the hash of another block for the
  hash of its uncles, as a premise of the step in which a verifier ends.  The runs of a chain (\<open>chain_step\<close>) import and insert blocks whose hash is not zero
  and whose number is below \<^verbatim>\<open>2^28\<close>, a known block only again with \<^verbatim>\<open>MustBeNew\<close> and not above the head, and rewind only to numbers for which
  \<^verbatim>\<open>numberHash\<close> returns the ancestor of the head.

\<^bold>\<open>Bounds and fuel\<close>

The interpreter loop is a partial function and its theorem shows that it returns: each instruction
  costs gas or ends the run, with gas below \<^verbatim>\<open>2^45\<close>, which keeps the memory within \<^verbatim>\<open>2^32\<close> bytes.  Message
  calls nest to at most 1024, so the depth is the fuel of \<open>Executive\<close>, and its theorems show that this
  depth is never exceeded.  The trie operations recurse with fuel twice the length of the key plus five, each level
  takes a nibble; \<open>hash256\<close> recurses once for each nibble of the longest key; keys are shorter than \<^verbatim>\<open>2^30\<close> bytes and values than \<^verbatim>\<open>2^62\<close>, so that lengths fit the integers
  of the code; hex-prefix notation is of fewer than \<^verbatim>\<open>2^32\<close> nibbles; the search of the index is described for all
  32-bit numbers, with the wrap of its upper bound above \<^verbatim>\<open>2^32 - 256\<close>; the numbers of imported blocks are below \<^verbatim>\<open>2^28\<close>, so that the numbers of the
  index do not wrap.  The loops of \<^verbatim>\<open>treeRoute\<close> are shown to
  end on every tree whose numbers rise by one from parent to child.  Theorems on hashes leave room for a collision: either the statement holds or two
  different nodes of the run have one hash; nothing is assumed of the hash function.

\<^bold>\<open>Not modelled\<close>

Logging, printing and tracing; locks, beyond that they make operations steps of one machine; the
  iterators of the trie and its consistency check; \<^verbatim>\<open>State::commit\<close> and the account difference; the enactment
  of a block (\<^verbatim>\<open>Block.cpp\<close>), which is a parameter of the import; \<^verbatim>\<open>rebuild\<close>, \<^verbatim>\<open>rescue\<close> and the files of the
  chain; the synchronisation with peers, the client and the network, which are threads and
  sockets around the components above; the JIT compiler, the proof-of-work function, the wrappers of
  cryptographic libraries, the compilers and the user interfaces, which are separate programs or call
  third-party code.
\<close>

end
